(* ===== verification/Prelude.thy ===== *)
theory Prelude
  imports Main "HOL-Library.Word"
begin

unbundle bit_operations_syntax

text \<open>
  What every component of the development shares: the result type that makes a failed
  \<^verbatim>\<open>DEBUG_ASSERT\<close>, \<^verbatim>\<open>ASSERT\<close> or \<^verbatim>\<open>panic\<close> of the C code a value, a total-correctness
  predicate over it with its rewrite rules, the status codes of
  \<^verbatim>\<open>include/uapi/uapi/err.h\<close>, and lemmas about bit masks, leading zeros and lists.
\<close>

section \<open>Results: a panic or a value\<close>

datatype panic = Assertion_failed string | Panic string

type_synonym 'a res = "panic + 'a"

text \<open>Sequencing: the first panic stops the rest, as a halted kernel does.\<close>

definition bindE :: "'a res \<Rightarrow> ('a \<Rightarrow> 'b res) \<Rightarrow> 'b res" where
  "bindE m f = (case m of Inl e \<Rightarrow> Inl e | Inr x \<Rightarrow> f x)"

text \<open>\<open>guardE msg b k\<close> is \<^verbatim>\<open>DEBUG_ASSERT(b); k\<close>.\<close>

definition guardE :: "string \<Rightarrow> bool \<Rightarrow> 'a res \<Rightarrow> 'a res" where
  "guardE msg b k = (if b then k else Inl (Assertion_failed msg))"

text \<open>\<open>okE P r\<close>: \<open>r\<close> is no panic and its value satisfies \<open>P\<close>.\<close>

definition okE :: "('a \<Rightarrow> bool) \<Rightarrow> 'a res \<Rightarrow> bool" where
  "okE P r = (case r of Inl _ \<Rightarrow> False | Inr x \<Rightarrow> P x)"

named_theorems ok_rules \<open>okE facts about the operations, for \<open>simp add:\<close>\<close>

lemma bindE_Inr [simp]: "bindE (Inr x) f = f x"
  by (simp add: bindE_def)

lemma bindE_Inl [simp]: "bindE (Inl e) f = Inl e"
  by (simp add: bindE_def)

lemma bindE_Inr_right [simp]: "bindE m Inr = m" "bindE m (\<lambda>x. Inr x) = m"
  by (cases m; simp add: bindE_def)+

lemma bindE_cong [fundef_cong]:
  "m = m' \<Longrightarrow> (\<And>x. m' = Inr x \<Longrightarrow> f x = f' x) \<Longrightarrow> bindE m f = bindE m' f'"
  by (cases m') simp_all

lemma guardE_True [simp]: "guardE msg True k = k"
  by (simp add: guardE_def)

lemma guardE_False [simp]: "guardE msg False k = Inl (Assertion_failed msg)"
  by (simp add: guardE_def)

lemma guardE_if: "b \<Longrightarrow> guardE msg b k = k"
  by (simp add: guardE_def)

lemma guardE_eq_Inr: "guardE msg b k = Inr x \<longleftrightarrow> b \<and> k = Inr x"
  by (simp add: guardE_def)

lemma bindE_eq_Inr: "bindE m f = Inr y \<longleftrightarrow> (\<exists>x. m = Inr x \<and> f x = Inr y)"
  by (cases m) (simp_all add: bindE_def)

lemma okE_Inr [simp]: "okE P (Inr x) = P x"
  by (simp add: okE_def)

lemma okE_Inl [simp]: "\<not> okE P (Inl e)"
  by (simp add: okE_def)

lemma okE_bind [simp]: "okE P (bindE m f) = okE (\<lambda>x. okE P (f x)) m"
  by (cases m) (simp_all add: okE_def)

lemma okE_guard [simp]: "okE P (guardE msg b k) \<longleftrightarrow> b \<and> okE P k"
  by (simp add: guardE_def)

lemma okE_mono: "okE P r \<Longrightarrow> (\<And>x. P x \<Longrightarrow> Q x) \<Longrightarrow> okE Q r"
  by (cases r) simp_all

lemma okE_conj: "okE P r \<Longrightarrow> okE Q r \<Longrightarrow> okE (\<lambda>x. P x \<and> Q x) r"
  by (cases r) simp_all

lemma okE_iff_ex: "okE P r \<longleftrightarrow> (\<exists>x. r = Inr x \<and> P x)"
  by (cases r) simp_all

lemma okE_bindI: "okE P m \<Longrightarrow> (\<And>x. P x \<Longrightarrow> okE Q (f x)) \<Longrightarrow> okE Q (bindE m f)"
  by (cases m) simp_all

lemmas res_simps = bindE_eq_Inr guardE_eq_Inr

section \<open>Status codes\<close>

abbreviation NO_ERROR :: int where "NO_ERROR \<equiv> 0"
abbreviation ERR_GENERIC :: int where "ERR_GENERIC \<equiv> - 1"
abbreviation ERR_NOT_FOUND :: int where "ERR_NOT_FOUND \<equiv> - 2"
abbreviation ERR_NOT_READY :: int where "ERR_NOT_READY \<equiv> - 3"
abbreviation ERR_NO_MSG :: int where "ERR_NO_MSG \<equiv> - 4"
abbreviation ERR_NO_MEMORY :: int where "ERR_NO_MEMORY \<equiv> - 5"
abbreviation ERR_INVALID_ARGS :: int where "ERR_INVALID_ARGS \<equiv> - 8"
abbreviation ERR_NOT_ENOUGH_BUFFER :: int where "ERR_NOT_ENOUGH_BUFFER \<equiv> - 9"
abbreviation ERR_OBJECT_DESTROYED :: int where "ERR_OBJECT_DESTROYED \<equiv> - 11"
abbreviation ERR_NOT_BLOCKED :: int where "ERR_NOT_BLOCKED \<equiv> - 12"
abbreviation ERR_TIMED_OUT :: int where "ERR_TIMED_OUT \<equiv> - 13"
abbreviation ERR_ALREADY_EXISTS :: int where "ERR_ALREADY_EXISTS \<equiv> - 14"
abbreviation ERR_NOT_ALLOWED :: int where "ERR_NOT_ALLOWED \<equiv> - 17"
abbreviation ERR_TOO_BIG :: int where "ERR_TOO_BIG \<equiv> - 25"
abbreviation ERR_CANCELLED :: int where "ERR_CANCELLED \<equiv> - 26"
abbreviation ERR_BUSY :: int where "ERR_BUSY \<equiv> - 33"
abbreviation ERR_THREAD_DETACHED :: int where "ERR_THREAD_DETACHED \<equiv> - 34"
abbreviation ERR_FAULT :: int where "ERR_FAULT \<equiv> - 40"
abbreviation ERR_BAD_HANDLE :: int where "ERR_BAD_HANDLE \<equiv> - 42"
abbreviation ERR_PARTIAL_WRITE :: int where "ERR_PARTIAL_WRITE \<equiv> - 44"

section \<open>Bit masks\<close>

text \<open>\<^verbatim>\<open>1U << n\<close>.\<close>

definition bit32 :: "nat \<Rightarrow> 32 word" where
  "bit32 n = push_bit n 1"

lemma bit_bit32 [simp]: "bit (bit32 n) q \<longleftrightarrow> q = n \<and> n < 32"
  by (auto simp: bit32_def bit_push_bit_iff bit_1_iff simp del: push_bit_of_1)

lemma bit_or_bit32: "bit (m OR bit32 n) q \<longleftrightarrow> bit m q \<or> (q = n \<and> n < 32)"
  by (auto simp: bit_or_iff)

lemma bit_and_not_bit32: "bit (m AND NOT (bit32 n)) q \<longleftrightarrow> bit m q \<and> q \<noteq> n"
proof -
  have "bit m q \<Longrightarrow> q < 32" by (drule bit_imp_le_length) simp
  then show ?thesis by (auto simp: bit_and_iff bit_not_iff)
qed

lemma and_bit32_eq_0_iff: "n < 32 \<Longrightarrow> m AND bit32 n = 0 \<longleftrightarrow> \<not> bit m n"
proof -
  assume n: "n < 32"
  have "bit (m AND bit32 n) q \<longleftrightarrow> bit m n \<and> q = n" for q
    using n by (auto simp: bit_and_iff)
  then show ?thesis by (metis bit_0_eq bot_apply bot_bool_def bit_word_eqI)
qed

lemma word32_eq_0_iff: "(m :: 32 word) = 0 \<longleftrightarrow> (\<forall>q < 32. \<not> bit m q)"
proof
  assume *: "\<forall>q < 32. \<not> bit m q"
  have "\<not> bit m q" for q
    using * bit_imp_le_length [of m q] by auto
  then show "m = 0" by (simp add: bit_eq_iff)
qed simp

text \<open>\<^verbatim>\<open>__builtin_clz\<close> on a 32-bit value (0 maps to 32; the built-in leaves it undefined).\<close>

definition clz32 :: "32 word \<Rightarrow> nat" where
  "clz32 w = length (takeWhile (\<lambda>i. \<not> bit w i) (rev [0..<32]))"

lemma takeWhile_rev_upt:
  "\<exists>i < n. P i \<Longrightarrow>
     (let k = length (takeWhile (\<lambda>i. \<not> P i) (rev [0..<n]))
      in k < n \<and> P (n - 1 - k) \<and> (\<forall>j. n - 1 - k < j \<and> j < n \<longrightarrow> \<not> P j))"
proof (induction n)
  case (Suc n)
  show ?case
  proof (cases "P n")
    case True
    then show ?thesis by (auto simp: Let_def)
  next
    case False
    with Suc have *: "\<exists>i < n. P i" using less_Suc_eq by auto
    define k where "k = length (takeWhile (\<lambda>i. \<not> P i) (rev [0..<n]))"
    note ih = Suc.IH [OF *, unfolded Let_def, folded k_def]
    from ih have k: "k < n" "P (n - 1 - k)"
        "\<And>j. n - 1 - k < j \<Longrightarrow> j < n \<Longrightarrow> \<not> P j"
      by blast+
    have "length (takeWhile (\<lambda>i. \<not> P i) (rev [0..<Suc n])) = Suc k"
      using False by (simp add: k_def)
    moreover have "\<not> P j" if "n - 1 - k < j" "j < Suc n" for j
      using that k(3) False by (cases "j = n") auto
    ultimately show ?thesis using k(1,2) by (simp add: Let_def)
  qed
qed simp

lemma clz32_top_bit:
  assumes "w \<noteq> 0"
  shows "clz32 w < 32" and "bit w (31 - clz32 w)"
    and "bit w q \<Longrightarrow> q \<le> 31 - clz32 w"
proof -
  from assms obtain i where i: "i < 32" "bit w i"
    by (auto simp: word32_eq_0_iff)
  then have ex: "\<exists>i < 32. bit w i" by auto
  note tw = takeWhile_rev_upt [of 32 "bit w", OF ex, unfolded Let_def, folded clz32_def]
  from tw show "clz32 w < 32" and "bit w (31 - clz32 w)" by simp_all
  assume b: "bit w q"
  then have "q < 32" by (drule_tac bit_imp_le_length) simp
  with b tw have "\<not> 31 - clz32 w < q" by auto
  then show "q \<le> 31 - clz32 w" by simp
qed

section \<open>Lists\<close>

lemma set_remove1_distinct: "distinct xs \<Longrightarrow> set (remove1 x xs) = set xs - {x}"
  by (rule set_remove1_eq)

lemma remove1_split: "x \<notin> set xs \<Longrightarrow> remove1 x (xs @ x # ys) = xs @ ys"
  by (simp add: remove1_append)

lemma remove1_filter: "distinct xs \<Longrightarrow> remove1 x xs = filter (\<lambda>y. y \<noteq> x) xs"
  by (induction xs) (auto intro!: filter_True [symmetric])

lemma distinct_split_takeWhile: "distinct (ys @ x # zs) \<Longrightarrow> takeWhile (\<lambda>y. y \<noteq> x) (ys @ x # zs) = ys"
  by (induction ys) auto

lemma find_first_split:
  "List.find P xs = Some x \<Longrightarrow>
     \<exists>ys zs. xs = ys @ x # zs \<and> P x \<and> (\<forall>y \<in> set ys. \<not> P y)"
proof (induction xs)
  case (Cons a xs)
  show ?case
  proof (cases "P a")
    case True
    with Cons.prems have "a # xs = [] @ x # xs \<and> P x" by simp
    then show ?thesis by (metis empty_iff empty_set)
  next
    case False
    with Cons.prems Cons.IH obtain ys zs
      where "xs = ys @ x # zs" "P x" "\<forall>y \<in> set ys. \<not> P y" by auto
    with False have "a # xs = (a # ys) @ x # zs \<and> P x \<and> (\<forall>y \<in> set (a # ys). \<not> P y)"
      by simp
    then show ?thesis by blast
  qed
qed simp

end
