(* ===== verification/Timer.thy ===== *)
theory Timer
  imports Prelude
begin

text \<open>
  The timer queues of \<^verbatim>\<open>kernel/timer.c\<close>: per-cpu queues kept in order of expiry under the
  wrapping time comparison of \<^verbatim>\<open>include/lk/types.h\<close>, arming and cancelling, and the deadline
  programmed into the platform's one-shot timer (\<^verbatim>\<open>PLATFORM_HAS_DYNAMIC_TIMER\<close>). The handler
  \<^verbatim>\<open>timer_tick\<close>, which runs the callbacks, is in the theory \<^verbatim>\<open>Timer_Tick\<close>.
\<close>

section \<open>Time\<close>

type_synonym time_ns = "64 word"   \<comment> \<open>\<^verbatim>\<open>lk_time_ns_t\<close>\<close>
type_synonym time_ms = "32 word"   \<comment> \<open>\<^verbatim>\<open>lk_time_t\<close>\<close>

abbreviation INFINITE_TIME :: time_ms where "INFINITE_TIME \<equiv> 0xFFFFFFFF"

definition time_delta :: "time_ns \<Rightarrow> time_ns \<Rightarrow> int" where
  "time_delta a b = sint (a - b)"

definition time_gt :: "time_ns \<Rightarrow> time_ns \<Rightarrow> bool" where
  "time_gt a b = (time_delta a b > 0)"

definition time_lt :: "time_ns \<Rightarrow> time_ns \<Rightarrow> bool" where
  "time_lt a b = (time_delta a b < 0)"

text \<open>\<^verbatim>\<open>MS2NS\<close> of \<^verbatim>\<open>thread.c\<close>: the factors are \<^verbatim>\<open>unsigned long long\<close>, so the product of a 32-bit
  argument does not wrap.\<close>

definition MS2NS :: "time_ms \<Rightarrow> time_ns" where
  "MS2NS ms = (ucast ms * 1000) * 1000"

section \<open>Timers\<close>

type_synonym cpu_num = nat
type_synonym tid = "64 word"       \<comment> \<open>the address of a \<^verbatim>\<open>thread_t\<close>; 0 is \<^verbatim>\<open>NULL\<close>\<close>

text \<open>The timers of the modelled code by where they live: \<^verbatim>\<open>preempt_timer[cpu]\<close>, the timer on
  the stack of a thread in \<^verbatim>\<open>thread_sleep_ns\<close> or \<^verbatim>\<open>wait_queue_block\<close>, or any other one.\<close>

datatype timer_ref = Preempt_timer cpu_num | Stack_timer tid | Other_timer nat

datatype timer_callback =
    thread_timer_callback_cb
  | thread_sleep_handler_cb
  | wait_queue_timeout_handler_cb
  | other_cb nat

definition TIMER_MAGIC :: int where "TIMER_MAGIC = 0x74696D72"

text \<open>\<^verbatim>\<open>node\<close> is the queue the list node is linked in, so \<^verbatim>\<open>list_in_list(&t->node)\<close> is
  \<open>node \<noteq> None\<close>.\<close>

record timer =
  tmagic :: int
  tcpu :: "32 word"
  running :: bool
  node :: "cpu_num option"
  scheduled_time :: time_ns
  periodic_time :: time_ns
  callback :: "timer_callback option"
  targ :: tid

record timer_sys =
  timer_of :: "timer_ref \<Rightarrow> timer"
  timer_queue :: "cpu_num \<Rightarrow> timer_ref list"
  hw_timer :: "cpu_num \<Rightarrow> time_ns option"

definition TIMER_INITIAL_VALUE :: timer where
  "TIMER_INITIAL_VALUE =
     \<lparr>tmagic = TIMER_MAGIC, tcpu = NOT 0, running = False, node = None,
      scheduled_time = 0, periodic_time = 0, callback = None, targ = 0\<rparr>"

definition upd_timer :: "timer_ref \<Rightarrow> (timer \<Rightarrow> timer) \<Rightarrow> timer_sys \<Rightarrow> timer_sys" where
  "upd_timer r f ts = ts\<lparr>timer_of := (timer_of ts)(r := f (timer_of ts r))\<rparr>"

definition timer_initialize :: "timer_ref \<Rightarrow> timer_sys \<Rightarrow> timer_sys" where
  "timer_initialize r ts = upd_timer r (\<lambda>_. TIMER_INITIAL_VALUE) ts"

definition timer_init :: "timer_sys \<Rightarrow> timer_sys" where
  "timer_init ts = ts\<lparr>timer_queue := (\<lambda>_. [])\<rparr>"

text \<open>The walk of \<^verbatim>\<open>insert_timer_in_queue\<close>: before the first entry that expires later.\<close>

fun insert_before_later :: "(timer_ref \<Rightarrow> timer) \<Rightarrow> timer_ref \<Rightarrow> timer_ref list \<Rightarrow> timer_ref list" where
  "insert_before_later tm r [] = [r]"
| "insert_before_later tm r (e # es) =
     (if time_gt (scheduled_time (tm e)) (scheduled_time (tm r)) then r # e # es
      else e # insert_before_later tm r es)"

definition insert_timer_in_queue :: "cpu_num \<Rightarrow> timer_ref \<Rightarrow> timer_sys \<Rightarrow> timer_sys" where
  "insert_timer_in_queue cpu r ts =
     upd_timer r (\<lambda>t. t\<lparr>node := Some cpu\<rparr>)
       (ts\<lparr>timer_queue := (timer_queue ts)
             (cpu := insert_before_later (timer_of ts) r (timer_queue ts cpu))\<rparr>)"

definition list_delete_timer :: "timer_ref \<Rightarrow> timer_sys \<Rightarrow> timer_sys" where
  "list_delete_timer r ts =
     (case node (timer_of ts r) of None \<Rightarrow> ts
      | Some c \<Rightarrow> upd_timer r (\<lambda>t. t\<lparr>node := None\<rparr>)
          (ts\<lparr>timer_queue := (timer_queue ts)(c := remove1 r (timer_queue ts c))\<rparr>))"

definition queue_head :: "cpu_num \<Rightarrow> timer_sys \<Rightarrow> timer_ref option" where
  "queue_head cpu ts = (case timer_queue ts cpu of [] \<Rightarrow> None | r # _ \<Rightarrow> Some r)"

definition platform_set_oneshot_timer :: "cpu_num \<Rightarrow> time_ns \<Rightarrow> timer_sys \<Rightarrow> timer_sys" where
  "platform_set_oneshot_timer cpu t ts = ts\<lparr>hw_timer := (hw_timer ts)(cpu := Some t)\<rparr>"

definition platform_stop_timer :: "cpu_num \<Rightarrow> timer_sys \<Rightarrow> timer_sys" where
  "platform_stop_timer cpu ts = ts\<lparr>hw_timer := (hw_timer ts)(cpu := None)\<rparr>"

text \<open>\<^verbatim>\<open>timer_set\<close> on cpu \<open>cpu\<close> of \<open>ncpus\<close>, with \<open>now\<close> what \<^verbatim>\<open>current_time_ns()\<close> returns.\<close>

definition timer_set ::
    "nat \<Rightarrow> cpu_num \<Rightarrow> time_ns \<Rightarrow> timer_ref \<Rightarrow> time_ns \<Rightarrow> time_ns \<Rightarrow> timer_callback \<Rightarrow> tid \<Rightarrow>
     timer_sys \<Rightarrow> timer_sys res" where
  "timer_set ncpus cpu now r delay period cb arg ts =
     guardE ''timer magic'' (tmagic (timer_of ts r) = TIMER_MAGIC)
      (if node (timer_of ts r) \<noteq> None then Inl (Panic ''timer already in list'')
       else
         let ts1 = upd_timer r (\<lambda>t. t\<lparr>scheduled_time := now + delay, periodic_time := period,
                                       callback := Some cb, targ := arg\<rparr>) ts
         in guardE ''timer running elsewhere''
              (\<not> running (timer_of ts1 r) \<or> tcpu (timer_of ts1 r) = of_nat cpu)
              (guardE ''cpu number'' (cpu < ncpus)
                (let ts2 = upd_timer r (\<lambda>t. t\<lparr>tcpu := of_nat cpu\<rparr>) ts1;
                     ts3 = insert_timer_in_queue cpu r ts2
                 in Inr (if queue_head cpu ts3 = Some r
                         then platform_set_oneshot_timer cpu (scheduled_time (timer_of ts3 r)) ts3
                         else ts3))))"

definition timer_set_oneshot_ns ::
    "nat \<Rightarrow> cpu_num \<Rightarrow> time_ns \<Rightarrow> timer_ref \<Rightarrow> time_ns \<Rightarrow> timer_callback \<Rightarrow> tid \<Rightarrow>
     timer_sys \<Rightarrow> timer_sys res" where
  "timer_set_oneshot_ns ncpus cpu now r delay cb arg ts =
     (let delay' = (if delay = 0 then 1 else delay)
      in timer_set ncpus cpu now r delay' 0 cb arg ts)"

definition timer_set_periodic_ns ::
    "nat \<Rightarrow> cpu_num \<Rightarrow> time_ns \<Rightarrow> timer_ref \<Rightarrow> time_ns \<Rightarrow> timer_callback \<Rightarrow> tid \<Rightarrow>
     timer_sys \<Rightarrow> timer_sys res" where
  "timer_set_periodic_ns ncpus cpu now r period cb arg ts =
     (let period' = (if period = 0 then 1 else period)
      in timer_set ncpus cpu now r period' period' cb arg ts)"

text \<open>
  \<^verbatim>\<open>timer_cancel_etc\<close>. While the callback runs on another cpu, a waiting caller drops the
  timer lock, yields and looks again: one look is one call here, and \<open>Wait_again\<close> is the
  value of a look that has to yield first.
\<close>

datatype cancel_result = Wait_again | Cancelled timer_sys

definition reprogram_after_cancel ::
    "cpu_num \<Rightarrow> time_ns \<Rightarrow> timer_ref option \<Rightarrow> timer_sys \<Rightarrow> timer_sys" where
  "reprogram_after_cancel cpu now oldhead ts =
     (case queue_head cpu ts of
        None \<Rightarrow> platform_stop_timer cpu ts
      | Some newhead \<Rightarrow>
          if Some newhead \<noteq> oldhead then
            let wakeup_time = (if time_lt (scheduled_time (timer_of ts newhead)) now then now
                               else scheduled_time (timer_of ts newhead))
            in platform_set_oneshot_timer cpu wakeup_time ts
          else ts)"

definition timer_cancel_etc ::
    "nat \<Rightarrow> cpu_num \<Rightarrow> time_ns \<Rightarrow> bool \<Rightarrow> timer_ref \<Rightarrow> bool \<Rightarrow> timer_sys \<Rightarrow> cancel_result res" where
  "timer_cancel_etc ncpus cpu now ints_off r wait ts =
     guardE ''timer magic'' (tmagic (timer_of ts r) = TIMER_MAGIC)
     (guardE ''wait with interrupts off'' (\<not> wait \<or> \<not> ints_off)
     (guardE ''cancel without waiting'' (ints_off \<or> wait)
     (guardE ''cancel on another cpu'' (wait \<or> of_nat cpu = tcpu (timer_of ts r))
       (if wait \<and> running (timer_of ts r) then Inr Wait_again
        else guardE ''cpu number'' (cpu < ncpus)
          (let oldhead = queue_head cpu ts;
               ts1 = (if node (timer_of ts r) \<noteq> None then list_delete_timer r ts else ts);
               ts2 = upd_timer r (\<lambda>t. t\<lparr>periodic_time := 0\<rparr>) ts1
           in Inr (Cancelled (reprogram_after_cancel cpu now oldhead ts2)))))))"

section \<open>Invariant: linked exactly once, in order of expiry\<close>

text \<open>Distance of a time from a base. Within half the range of the clock the wrapping
  comparison is the comparison of distances.\<close>

definition dist :: "time_ns \<Rightarrow> time_ns \<Rightarrow> nat" where
  "dist base t = unat (t - base)"

lemma uint_less_63: "unat x < 2 ^ 63 \<Longrightarrow> uint x < 2 ^ 63" for x :: "64 word"
proof -
  assume "unat x < 2 ^ 63"
  then have "int (unat x) < int (2 ^ 63)" by (simp only: of_nat_less_iff)
  then show ?thesis by simp
qed

lemma sint_small: "unat x < 2 ^ 63 \<Longrightarrow> sint x = uint x" for x :: "64 word"
proof -
  assume "unat x < 2 ^ 63"
  then have "signed_take_bit 63 (uint x) = uint x"
    by (intro signed_take_bit_int_eq_self uint_less_63) (rule order_trans [OF _ uint_ge_0], simp)
  then show ?thesis by (simp add: sint_uint)
qed

lemma sint_diff_pos:
  fixes a b :: "64 word"
  assumes "unat a < 2 ^ 63" "unat b < 2 ^ 63"
  shows "sint (a - b) = int (unat a) - int (unat b)"
proof -
  note s = sint_small [OF assms(1)] sint_small [OF assms(2)]
  have "sint (a - b) = signed_take_bit 63 (sint a - sint b)"
    by (simp add: sint_word_ariths(2))
  also have "\<dots> = sint a - sint b"
    using uint_less_63 [OF assms(1)] uint_less_63 [OF assms(2)] uint_ge_0 [of a] uint_ge_0 [of b]
    unfolding s by (intro signed_take_bit_int_eq_self) linarith+
  finally show ?thesis by (simp add: s)
qed

lemma time_delta_dist:
  assumes "dist base a < 2 ^ 63" "dist base b < 2 ^ 63"
  shows "time_delta a b = int (dist base a) - int (dist base b)"
  using sint_diff_pos [of "a - base" "b - base"] assms
  by (simp add: time_delta_def dist_def)

lemma time_gt_dist:
  "dist base a < 2 ^ 63 \<Longrightarrow> dist base b < 2 ^ 63 \<Longrightarrow> time_gt a b \<longleftrightarrow> dist base b < dist base a"
  by (simp add: time_gt_def time_delta_dist)

lemma time_lt_dist:
  "dist base a < 2 ^ 63 \<Longrightarrow> dist base b < 2 ^ 63 \<Longrightarrow> time_lt a b \<longleftrightarrow> dist base a < dist base b"
  by (simp add: time_lt_def time_delta_dist)


definition linked :: "timer_sys \<Rightarrow> bool" where
  "linked ts \<longleftrightarrow> (\<forall>c. distinct (timer_queue ts c)) \<and>
     (\<forall>r c. r \<in> set (timer_queue ts c) \<longleftrightarrow> node (timer_of ts r) = Some c)"

definition expiry :: "time_ns \<Rightarrow> timer_sys \<Rightarrow> timer_ref \<Rightarrow> nat" where
  "expiry base ts r = dist base (scheduled_time (timer_of ts r))"

definition in_order :: "time_ns \<Rightarrow> timer_sys \<Rightarrow> cpu_num \<Rightarrow> bool" where
  "in_order base ts c \<longleftrightarrow>
     (\<forall>r \<in> set (timer_queue ts c). expiry base ts r < 2 ^ 63) \<and>
     sorted (map (expiry base ts) (timer_queue ts c))"

text \<open>The platform timer of a cpu with pending timers is programmed to fire no later than the
  first of them expires, or at once if that one is overdue.\<close>

definition hw_armed :: "time_ns \<Rightarrow> time_ns \<Rightarrow> timer_sys \<Rightarrow> cpu_num \<Rightarrow> bool" where
  "hw_armed base now ts c \<longleftrightarrow>
     (case timer_queue ts c of [] \<Rightarrow> True
      | r # _ \<Rightarrow> \<exists>w. hw_timer ts c = Some w \<and> dist base w \<le> max (expiry base ts r) (dist base now))"

definition timers_ok :: "time_ns \<Rightarrow> time_ns \<Rightarrow> timer_sys \<Rightarrow> bool" where
  "timers_ok base now ts \<longleftrightarrow>
     linked ts \<and> (\<forall>c. in_order base ts c) \<and> (\<forall>c. hw_armed base now ts c)"

lemma upd_timer_simps [simp]:
  "timer_queue (upd_timer r f ts) = timer_queue ts"
  "hw_timer (upd_timer r f ts) = hw_timer ts"
  "timer_of (upd_timer r f ts) = (timer_of ts)(r := f (timer_of ts r))"
  by (simp_all add: upd_timer_def)

lemma platform_timer_simps [simp]:
  "timer_of (platform_set_oneshot_timer c t ts) = timer_of ts"
  "timer_queue (platform_set_oneshot_timer c t ts) = timer_queue ts"
  "hw_timer (platform_set_oneshot_timer c t ts) = (hw_timer ts)(c := Some t)"
  "timer_of (platform_stop_timer c ts) = timer_of ts"
  "timer_queue (platform_stop_timer c ts) = timer_queue ts"
  "hw_timer (platform_stop_timer c ts) = (hw_timer ts)(c := None)"
  by (simp_all add: platform_set_oneshot_timer_def platform_stop_timer_def)

lemma platform_timer_expiry [simp]:
  "expiry base (platform_set_oneshot_timer c t ts) = expiry base ts"
  "expiry base (platform_stop_timer c ts) = expiry base ts"
  by (simp_all add: expiry_def fun_eq_iff)

lemma platform_timer_inv [simp]:
  "linked (platform_set_oneshot_timer c t ts) = linked ts"
  "in_order base (platform_set_oneshot_timer c t ts) d = in_order base ts d"
  "linked (platform_stop_timer c ts) = linked ts"
  "in_order base (platform_stop_timer c ts) d = in_order base ts d"
  by (simp_all add: linked_def in_order_def)

lemma set_insert_before_later [simp]: "set (insert_before_later tm r es) = insert r (set es)"
  by (induction es) auto

lemma distinct_insert_before_later:
  "r \<notin> set es \<Longrightarrow> distinct (insert_before_later tm r es) = distinct es"
  by (induction es) auto

lemma insert_before_later_cong:
  "\<lbrakk> \<And>e. e \<in> set es \<Longrightarrow> scheduled_time (tm' e) = scheduled_time (tm e);
     scheduled_time (tm' r) = scheduled_time (tm r) \<rbrakk> \<Longrightarrow>
   insert_before_later tm' r es = insert_before_later tm r es"
  by (induction es) auto

text \<open>A new timer goes behind those that expire no later, in front of those that expire later:
  equal expiry times keep their order of arming.\<close>

lemma insert_before_later_split:
  "insert_before_later tm r es =
     takeWhile (\<lambda>e. \<not> time_gt (scheduled_time (tm e)) (scheduled_time (tm r))) es @ r #
     dropWhile (\<lambda>e. \<not> time_gt (scheduled_time (tm e)) (scheduled_time (tm r))) es"
  by (induction es) auto

lemma sorted_insert_before_later:
  assumes "sorted (map f es)"
    and "\<And>e. e \<in> set es \<Longrightarrow> time_gt (scheduled_time (tm e)) (scheduled_time (tm r)) \<longleftrightarrow> f r < f e"
  shows "sorted (map f (insert_before_later tm r es))"
  using assms
proof (induction es)
  case (Cons a es)
  then have a: "time_gt (scheduled_time (tm a)) (scheduled_time (tm r)) \<longleftrightarrow> f r < f a"
    and le: "\<forall>e \<in> set es. f a \<le> f e" by auto
  show ?case
  proof (cases "f r < f a")
    case True
    with a le Cons.prems(1) show ?thesis by (auto dest: less_le_trans intro: less_imp_le)
  next
    case False
    with a le Cons show ?thesis by auto
  qed
qed simp

lemma list_delete_timer_queue:
  assumes "linked ts"
  shows "timer_queue (list_delete_timer r ts) c = remove1 r (timer_queue ts c)"
proof (cases "node (timer_of ts r) = Some c")
  case True
  then show ?thesis by (simp add: list_delete_timer_def)
next
  case False
  with assms have "r \<notin> set (timer_queue ts c)" by (simp add: linked_def)
  then have "remove1 r (timer_queue ts c) = timer_queue ts c" by (rule remove1_idem)
  with False show ?thesis by (auto simp: list_delete_timer_def split: option.splits)
qed

lemma list_delete_timer_node:
  "node (timer_of (list_delete_timer r ts) e) = (if e = r then None else node (timer_of ts e))"
  by (simp add: list_delete_timer_def split: option.splits)

lemma list_delete_timer_linked: "linked ts \<Longrightarrow> linked (list_delete_timer r ts)"
  by (subst linked_def) (auto simp: list_delete_timer_queue list_delete_timer_node linked_def)

lemma list_delete_timer_of [simp]:
  "scheduled_time (timer_of (list_delete_timer r ts) e) = scheduled_time (timer_of ts e)"
  "hw_timer (list_delete_timer r ts) = hw_timer ts"
  "tmagic (timer_of (list_delete_timer r ts) e) = tmagic (timer_of ts e)"
  "running (timer_of (list_delete_timer r ts) e) = running (timer_of ts e)"
  by (simp_all add: list_delete_timer_def split: option.splits)

lemma sorted_map_remove1: "sorted (map f xs) \<Longrightarrow> sorted (map f (remove1 x xs))"
  by (induction xs) (auto dest: in_set_remove1 notin_set_remove1 set_remove1_subset [THEN subsetD])

section \<open>Arming and cancelling keep it\<close>

lemma insert_timer_in_queue_linked:
  assumes "linked ts" "node (timer_of ts r) = None"
  shows "linked (insert_timer_in_queue cpu r ts)"
  using assms by (auto simp: linked_def insert_timer_in_queue_def distinct_insert_before_later)

lemma insert_timer_in_queue_simps [simp]:
  "timer_queue (insert_timer_in_queue cpu r ts) =
     (timer_queue ts)(cpu := insert_before_later (timer_of ts) r (timer_queue ts cpu))"
  "scheduled_time (timer_of (insert_timer_in_queue cpu r ts) e) = scheduled_time (timer_of ts e)"
  "tmagic (timer_of (insert_timer_in_queue cpu r ts) e) = tmagic (timer_of ts e)"
  "running (timer_of (insert_timer_in_queue cpu r ts) e) = running (timer_of ts e)"
  "hw_timer (insert_timer_in_queue cpu r ts) = hw_timer ts"
  by (simp_all add: insert_timer_in_queue_def)

lemma insert_timer_in_queue_order:
  assumes "\<forall>c. in_order base ts c" "expiry base ts r < 2 ^ 63"
  shows "\<forall>c. in_order base (insert_timer_in_queue cpu r ts) c"
proof
  fix c
  let ?ts = "insert_timer_in_queue cpu r ts"
  have e: "expiry base ?ts = expiry base ts" by (simp add: expiry_def fun_eq_iff)
  show "in_order base ?ts c"
  proof (cases "c = cpu")
    case True
    have "sorted (map (expiry base ts) (insert_before_later (timer_of ts) r (timer_queue ts c)))"
      using assms
      by (intro sorted_insert_before_later)
        (auto simp: in_order_def expiry_def intro!: time_gt_dist)
    with True assms show ?thesis by (auto simp: in_order_def e)
  next
    case False
    with assms show ?thesis by (simp add: in_order_def e)
  qed
qed

text \<open>What arming needs: a timer initialised and idle, a cpu that exists, and an expiry within
  half the clock's range of the base.\<close>

definition can_set :: "nat \<Rightarrow> cpu_num \<Rightarrow> timer_ref \<Rightarrow> timer_sys \<Rightarrow> bool" where
  "can_set ncpus cpu r ts \<longleftrightarrow>
     tmagic (timer_of ts r) = TIMER_MAGIC \<and> node (timer_of ts r) = None \<and>
     (running (timer_of ts r) \<longrightarrow> tcpu (timer_of ts r) = of_nat cpu) \<and> cpu < ncpus"


lemma expiry_upd:
  "scheduled_time (f (timer_of ts r)) = scheduled_time (timer_of ts r) \<Longrightarrow>
     expiry base (upd_timer r f ts) = expiry base ts"
  by (auto simp: expiry_def fun_eq_iff)

lemma linked_upd:
  "node (f (timer_of ts r)) = node (timer_of ts r) \<Longrightarrow> linked (upd_timer r f ts) = linked ts"
  by (auto simp: linked_def)

lemma in_order_upd_idle:
  assumes "linked ts" "node (timer_of ts r) = None"
  shows "in_order base (upd_timer r f ts) c = in_order base ts c"
proof -
  from assms have "r \<notin> set (timer_queue ts c)" by (simp add: linked_def)
  then have e: "expiry base (upd_timer r f ts) e = expiry base ts e"
    if "e \<in> set (timer_queue ts c)" for e
    using that by (auto simp: expiry_def)
  have m: "map (expiry base (upd_timer r f ts)) (timer_queue ts c) =
      map (expiry base ts) (timer_queue ts c)" by (rule map_cong [OF refl e])
  show ?thesis by (simp add: in_order_def m e)
qed

lemma hw_armed_upd_idle:
  assumes "linked ts" "node (timer_of ts r) = None"
  shows "hw_armed base now (upd_timer r f ts) c = hw_armed base now ts c"
proof -
  from assms have "r \<notin> set (timer_queue ts c)" by (simp add: linked_def)
  then show ?thesis by (auto simp: hw_armed_def expiry_def split: list.splits)
qed

definition armed_state ::
    "cpu_num \<Rightarrow> time_ns \<Rightarrow> timer_ref \<Rightarrow> time_ns \<Rightarrow> time_ns \<Rightarrow> timer_callback \<Rightarrow> tid \<Rightarrow>
     timer_sys \<Rightarrow> timer_sys" where
  "armed_state cpu now r delay period cb arg ts =
     upd_timer r (\<lambda>t. t\<lparr>scheduled_time := now + delay, periodic_time := period,
                        callback := Some cb, targ := arg, tcpu := of_nat cpu\<rparr>) ts"

lemma timer_set_eq:
  assumes "can_set ncpus cpu r ts"
  shows "timer_set ncpus cpu now r delay period cb arg ts =
    (let ts' = insert_timer_in_queue cpu r (armed_state cpu now r delay period cb arg ts)
     in Inr (if queue_head cpu ts' = Some r
             then platform_set_oneshot_timer cpu (now + delay) ts' else ts'))"
  using assms
  by (auto simp: timer_set_def can_set_def Let_def armed_state_def upd_timer_def)

lemma hw_armed_insert:
  assumes "hw_armed base now ts c" "linked ts" "node (timer_of ts r) = None"
    and ts': "ts' = insert_timer_in_queue cpu r ts"
    and ts'': "ts'' = (if queue_head cpu ts' = Some r
       then platform_set_oneshot_timer cpu (scheduled_time (timer_of ts r)) ts' else ts')"
  shows "hw_armed base now ts'' c"
proof (cases "c = cpu")
  case False
  with assms show ?thesis by (auto simp: hw_armed_def expiry_def split: list.splits)
next
  case True
  show ?thesis
  proof (cases "queue_head cpu ts' = Some r")
    case True
    then show ?thesis using \<open>c = cpu\<close> ts' ts''
      by (auto simp: hw_armed_def queue_head_def expiry_def split: list.splits)
  next
    case False
    then obtain e es where q: "timer_queue ts cpu = e # es"
        "timer_queue ts' cpu = e # insert_before_later (timer_of ts) r es"
      using ts' by (cases "timer_queue ts cpu") (auto simp: queue_head_def split: if_splits)
    with False assms(1) \<open>c = cpu\<close> ts' ts'' show ?thesis
      by (auto simp: hw_armed_def expiry_def)
  qed
qed

lemma timer_set_ok:
  assumes ok: "timers_ok base now ts" and can: "can_set ncpus cpu r ts"
    and win: "dist base (now + delay) < 2 ^ 63"
  shows "okE (\<lambda>ts'. timers_ok base now ts' \<and> r \<in> set (timer_queue ts' cpu) \<and>
      scheduled_time (timer_of ts' r) = now + delay)
    (timer_set ncpus cpu now r delay period cb arg ts)"
proof -
  let ?a = "armed_state cpu now r delay period cb arg ts"
  let ?i = "insert_timer_in_queue cpu r ?a"
  from ok have l: "linked ts" and o: "\<forall>c. in_order base ts c" and h: "\<forall>c. hw_armed base now ts c"
    by (simp_all add: timers_ok_def)
  from can have n: "node (timer_of ts r) = None" by (simp add: can_set_def)
  then have n': "node (timer_of ?a r) = None" by (simp add: armed_state_def)
  from l have l': "linked ?a" unfolding armed_state_def by (simp add: linked_upd)
  have o': "\<forall>c. in_order base ?a c" using o l n unfolding armed_state_def
    by (simp add: in_order_upd_idle)
  have h': "\<forall>c. hw_armed base now ?a c" using h l n unfolding armed_state_def
    by (simp add: hw_armed_upd_idle)
  have sch: "scheduled_time (timer_of ?a r) = now + delay" by (simp add: armed_state_def)
  have "expiry base ?a r < 2 ^ 63" using win by (simp add: expiry_def sch)
  with o' have o'': "\<forall>c. in_order base ?i c" by (rule insert_timer_in_queue_order)
  from l' n' have l'': "linked ?i" by (rule insert_timer_in_queue_linked)
  let ?r = "if queue_head cpu ?i = Some r then platform_set_oneshot_timer cpu (now + delay) ?i else ?i"
  have "hw_armed base now ?r c" for c
    by (rule hw_armed_insert [where cpu = cpu, OF h' [rule_format] l' n' refl]) (simp add: sch)
  moreover have "linked ?r" "in_order base ?r c" for c using l'' o'' by simp_all
  ultimately have "timers_ok base now ?r" by (simp only: timers_ok_def) simp
  moreover have "r \<in> set (timer_queue ?r cpu)" "scheduled_time (timer_of ?r r) = now + delay"
    by (simp_all add: sch)
  ultimately show ?thesis unfolding timer_set_eq [OF can] Let_def okE_Inr by blast
qed

lemma sorted_remove1_head:
  assumes "sorted (map f xs)" "remove1 x xs = y # ys"
  shows "xs \<noteq> [] \<and> f (hd xs) \<le> f y"
  using assms by (cases xs) (auto split: if_splits)

lemma timer_cancel_etc_ok:
  assumes ok: "timers_ok base now ts" and m: "tmagic (timer_of ts r) = TIMER_MAGIC"
    and w: "wait \<longleftrightarrow> \<not> ints_off" and c: "cpu < ncpus"
    and own: "wait \<or> of_nat cpu = tcpu (timer_of ts r)" and run: "wait \<longrightarrow> \<not> running (timer_of ts r)"
  shows "okE (\<lambda>x. \<exists>ts'. x = Cancelled ts' \<and> timers_ok base now ts' \<and>
      (\<forall>c. timer_queue ts' c = remove1 r (timer_queue ts c)) \<and>
      node (timer_of ts' r) = None \<and> periodic_time (timer_of ts' r) = 0)
    (timer_cancel_etc ncpus cpu now ints_off r wait ts)"
proof -
  define ts2 where "ts2 = upd_timer r (\<lambda>t. t\<lparr>periodic_time := 0\<rparr>)
      (if node (timer_of ts r) \<noteq> None then list_delete_timer r ts else ts)"
  let ?ts' = "reprogram_after_cancel cpu now (queue_head cpu ts) ts2"
  from ok have l: "linked ts" by (simp add: timers_ok_def)
  have eq: "(if node (timer_of ts r) \<noteq> None then list_delete_timer r ts else ts) = list_delete_timer r ts"
    by (simp add: list_delete_timer_def)
  have ts2: "ts2 = upd_timer r (\<lambda>t. t\<lparr>periodic_time := 0\<rparr>) (list_delete_timer r ts)"
    unfolding ts2_def eq by (rule refl)
  have l2: "linked ts2" unfolding ts2
    by (simp add: linked_upd list_delete_timer_linked [OF l])
  have q2: "timer_queue ts2 c = remove1 r (timer_queue ts c)" for c
    by (simp add: ts2 list_delete_timer_queue [OF l])
  have e2: "expiry base ts2 = expiry base ts"
    by (auto simp: ts2 expiry_def fun_eq_iff)
  have n2: "node (timer_of ts2 r) = None" "periodic_time (timer_of ts2 r) = 0"
    by (simp_all add: ts2 list_delete_timer_node)
  have o: "in_order base ts2 c" for c
    using ok by (auto simp: timers_ok_def in_order_def q2 e2 sorted_map_remove1
        dest: set_remove1_subset [THEN subsetD])
  have same: "timer_queue ?ts' = timer_queue ts2" "timer_of ?ts' = timer_of ts2"
    by (auto simp: reprogram_after_cancel_def Let_def split: option.splits)
  have "hw_armed base now ?ts' c" for c
  proof (cases "remove1 r (timer_queue ts c)")
    case Nil
    then show ?thesis by (simp add: hw_armed_def same q2)
  next
    case (Cons y ys)
    with ok have hd: "timer_queue ts c \<noteq> []" "expiry base ts (hd (timer_queue ts c)) \<le> expiry base ts y"
      using sorted_remove1_head [of "expiry base ts" "timer_queue ts c"]
      by (auto simp: timers_ok_def in_order_def)
    with ok have "\<exists>w. hw_timer ts c = Some w \<and> dist base w \<le> max (expiry base ts y) (dist base now)"
      by (cases "timer_queue ts c") (fastforce simp: timers_ok_def hw_armed_def le_max_iff_disj
          dest: spec [of _ c] intro: order_trans)+
    moreover have "hw_timer ts2 = hw_timer ts" by (simp add: ts2)
    ultimately show ?thesis using Cons e2
      by (auto simp: hw_armed_def same q2 reprogram_after_cancel_def queue_head_def Let_def expiry_def
          fun_eq_iff split: option.splits list.splits)
  qed
  moreover have "linked ?ts'" "in_order base ?ts' c" for c using l2 o
    by (auto simp: reprogram_after_cancel_def Let_def split: option.splits)
  ultimately have "timers_ok base now ?ts'" by (simp add: timers_ok_def)
  moreover have "timer_cancel_etc ncpus cpu now ints_off r wait ts = Inr (Cancelled ?ts')"
    using m w c own run unfolding timer_cancel_etc_def Let_def ts2_def by (cases wait) simp_all
  ultimately show ?thesis using n2 by (simp add: q2 same)
qed

end
