(* ===== verification/Intrusive_List.thy ===== *)
theory Intrusive_List
  imports Prelude
begin

text \<open>
  The circular doubly linked lists of \<^verbatim>\<open>include/shared/lk/list.h\<close>, on an explicit store of
  \<^verbatim>\<open>prev\<close> and \<^verbatim>\<open>next\<close> pointers, and their refinement to lists: \<open>dll h l xs\<close> says that the
  nodes linked behind the list head \<open>l\<close> are \<open>xs\<close>, in this order. Every kernel queue (run
  queues, wait queues, timer queues, port lists) is such a list, so the other components use
  HOL lists for them: the lemmas here are why that is sound.
\<close>

section \<open>The store and the operations\<close>

type_synonym node = nat  \<comment> \<open>the address of a \<^verbatim>\<open>struct list_node\<close>; 0 is \<^verbatim>\<open>NULL\<close>\<close>

record list_heap =
  prv :: "node \<Rightarrow> node"
  nxt :: "node \<Rightarrow> node"

definition set_prv :: "node \<Rightarrow> node \<Rightarrow> list_heap \<Rightarrow> list_heap" where
  "set_prv a v h = h\<lparr>prv := (prv h)(a := v)\<rparr>"

definition set_nxt :: "node \<Rightarrow> node \<Rightarrow> list_heap \<Rightarrow> list_heap" where
  "set_nxt a v h = h\<lparr>nxt := (nxt h)(a := v)\<rparr>"

lemma heap_access [simp]:
  "prv (set_prv a v h) = (prv h)(a := v)" "nxt (set_prv a v h) = nxt h"
  "prv (set_nxt a v h) = prv h" "nxt (set_nxt a v h) = (nxt h)(a := v)"
  by (simp_all add: set_prv_def set_nxt_def)

definition list_initialize :: "node \<Rightarrow> list_heap \<Rightarrow> list_heap" where
  "list_initialize l h = set_prv l l (set_nxt l l h)"

definition list_clear_node :: "node \<Rightarrow> list_heap \<Rightarrow> list_heap" where
  "list_clear_node x h = set_prv x 0 (set_nxt x 0 h)"

definition list_in_list :: "node \<Rightarrow> list_heap \<Rightarrow> bool" where
  "list_in_list x h = (if prv h x = 0 \<and> nxt h x = 0 then False else True)"

definition list_add_head :: "node \<Rightarrow> node \<Rightarrow> list_heap \<Rightarrow> list_heap" where
  "list_add_head l x h =
     (let h1 = set_nxt x (nxt h l) h;
          h2 = set_prv x l h1;
          h3 = set_prv (nxt h2 l) x h2
      in set_nxt l x h3)"

definition list_add_tail :: "node \<Rightarrow> node \<Rightarrow> list_heap \<Rightarrow> list_heap" where
  "list_add_tail l x h =
     (let h1 = set_prv x (prv h l) h;
          h2 = set_nxt x l h1;
          h3 = set_nxt (prv h2 l) x h2
      in set_prv l x h3)"

text \<open>\<^verbatim>\<open>list_add_after(entry, new)\<close> and \<^verbatim>\<open>list_add_before(entry, new)\<close> are macros for these
  two with an entry in place of the list head.\<close>

abbreviation "list_add_after \<equiv> list_add_head"
abbreviation "list_add_before \<equiv> list_add_tail"

definition list_delete :: "node \<Rightarrow> list_heap \<Rightarrow> list_heap" where
  "list_delete x h =
     (let h1 = set_prv (nxt h x) (prv h x) h;
          h2 = set_nxt (prv h1 x) (nxt h1 x) h1
      in set_prv x 0 (set_nxt x 0 h2))"

definition list_remove_head :: "node \<Rightarrow> list_heap \<Rightarrow> node option \<times> list_heap" where
  "list_remove_head l h =
     (if nxt h l \<noteq> l then (Some (nxt h l), list_delete (nxt h l) h) else (None, h))"

definition list_remove_tail :: "node \<Rightarrow> list_heap \<Rightarrow> node option \<times> list_heap" where
  "list_remove_tail l h =
     (if prv h l \<noteq> l then (Some (prv h l), list_delete (prv h l) h) else (None, h))"

definition list_peek_head :: "node \<Rightarrow> list_heap \<Rightarrow> node option" where
  "list_peek_head l h = (if nxt h l \<noteq> l then Some (nxt h l) else None)"

definition list_peek_tail :: "node \<Rightarrow> list_heap \<Rightarrow> node option" where
  "list_peek_tail l h = (if prv h l \<noteq> l then Some (prv h l) else None)"

definition list_prev :: "node \<Rightarrow> node \<Rightarrow> list_heap \<Rightarrow> node option" where
  "list_prev l x h = (if prv h x \<noteq> l then Some (prv h x) else None)"

definition list_next :: "node \<Rightarrow> node \<Rightarrow> list_heap \<Rightarrow> node option" where
  "list_next l x h = (if nxt h x \<noteq> l then Some (nxt h x) else None)"

definition list_prev_wrap :: "node \<Rightarrow> node \<Rightarrow> list_heap \<Rightarrow> node option" where
  "list_prev_wrap l x h =
     (if prv h x \<noteq> l then Some (prv h x)
      else if prv h (prv h x) \<noteq> l then Some (prv h (prv h x))
      else None)"

definition list_next_wrap :: "node \<Rightarrow> node \<Rightarrow> list_heap \<Rightarrow> node option" where
  "list_next_wrap l x h =
     (if nxt h x \<noteq> l then Some (nxt h x)
      else if nxt h (nxt h x) \<noteq> l then Some (nxt h (nxt h x))
      else None)"

definition list_is_empty :: "node \<Rightarrow> list_heap \<Rightarrow> bool" where
  "list_is_empty l h = (nxt h l = l)"

text \<open>
  \<^verbatim>\<open>list_for_every\<close>: follow \<^verbatim>\<open>next\<close> until the list head comes round again. On a store that is
  not a list the walk need not end, so the loops are partial: \<open>None\<close> is not returning.
\<close>

partial_function (option) list_for_every ::
    "list_heap \<Rightarrow> node \<Rightarrow> node \<Rightarrow> node list \<Rightarrow> node list option" where
  "list_for_every h l cur acc =
     (if cur \<noteq> l then list_for_every h l (nxt h cur) (acc @ [cur]) else Some acc)"

partial_function (option) list_length_loop ::
    "list_heap \<Rightarrow> node \<Rightarrow> node \<Rightarrow> nat \<Rightarrow> nat option" where
  "list_length_loop h l cur cnt =
     (if cur \<noteq> l then list_length_loop h l (nxt h cur) (cnt + 1) else Some cnt)"

definition list_length :: "node \<Rightarrow> list_heap \<Rightarrow> nat option" where
  "list_length l h = list_length_loop h l (nxt h l) 0"

definition list_splice_after :: "node \<Rightarrow> node \<Rightarrow> list_heap \<Rightarrow> list_heap" where
  "list_splice_after dest src h =
     (let src_next = nxt h src;
          src_prev = prv h src;
          h1 = set_prv src_next dest h;
          h2 = set_nxt src_prev (nxt h1 dest) h1;
          h3 = set_prv (nxt h2 dest) (prv h2 src) h2;
          h4 = set_nxt dest (nxt h3 src) h3
      in list_initialize src h4)"

definition list_splice_before :: "node \<Rightarrow> node \<Rightarrow> list_heap \<Rightarrow> list_heap" where
  "list_splice_before dest src h = list_splice_after (prv h dest) src h"

definition list_splice_head :: "node \<Rightarrow> node \<Rightarrow> list_heap \<Rightarrow> list_heap" where
  "list_splice_head dest src h = list_splice_after dest src h"

definition list_splice_tail :: "node \<Rightarrow> node \<Rightarrow> list_heap \<Rightarrow> list_heap" where
  "list_splice_tail dest src h = list_splice_after (prv h dest) src h"

section \<open>The abstraction\<close>

text \<open>\<open>seg h a xs b\<close>: from \<open>a\<close>, the \<^verbatim>\<open>next\<close> pointers lead through \<open>xs\<close> to \<open>b\<close>, and every
  \<^verbatim>\<open>prev\<close> pointer points back.\<close>

fun seg :: "list_heap \<Rightarrow> node \<Rightarrow> node list \<Rightarrow> node \<Rightarrow> bool" where
  "seg h a [] b = (nxt h a = b \<and> prv h b = a)"
| "seg h a (x # xs) b = (nxt h a = x \<and> prv h x = a \<and> seg h x xs b)"

definition dll :: "list_heap \<Rightarrow> node \<Rightarrow> node list \<Rightarrow> bool" where
  "dll h l xs \<longleftrightarrow> distinct (l # xs) \<and> 0 \<notin> set (l # xs) \<and> seg h l xs l"

lemma seg_append: "seg h a (xs @ y # ys) b \<longleftrightarrow> seg h a xs y \<and> seg h y ys b"
  by (induction xs arbitrary: a) auto

lemma seg_cong:
  "\<lbrakk> \<And>x. x \<in> insert a (set xs) \<Longrightarrow> nxt h' x = nxt h x;
     \<And>x. x \<in> insert b (set xs) \<Longrightarrow> prv h' x = prv h x \<rbrakk> \<Longrightarrow> seg h' a xs b = seg h a xs b"
  by (induction xs arbitrary: a) auto

lemma seg_nxt: "seg h a xs b \<Longrightarrow> nxt h a = (case xs of [] \<Rightarrow> b | x # _ \<Rightarrow> x)"
  by (cases xs) auto

lemma seg_prv: "seg h a xs b \<Longrightarrow> prv h b = (if xs = [] then a else last xs)"
  by (induction xs arbitrary: a) auto

text \<open>Writes outside a list's own nodes do not disturb it.\<close>

lemma dll_cong:
  assumes "\<And>x. x \<in> insert l (set xs) \<Longrightarrow> nxt h' x = nxt h x \<and> prv h' x = prv h x"
  shows "dll h' l xs = dll h l xs"
proof -
  have "seg h' l xs l = seg h l xs l" using assms by (intro seg_cong) auto
  then show ?thesis by (simp add: dll_def)
qed

lemma dll_nodes: "dll h l xs \<Longrightarrow> distinct xs \<and> l \<notin> set xs \<and> 0 \<notin> set xs \<and> l \<noteq> 0"
  by (auto simp: dll_def)

lemma dll_nxt_head: "dll h l xs \<Longrightarrow> nxt h l = (case xs of [] \<Rightarrow> l | x # _ \<Rightarrow> x)"
  by (auto simp: dll_def dest: seg_nxt)

lemma dll_prv_head: "dll h l xs \<Longrightarrow> prv h l = (if xs = [] then l else last xs)"
  by (auto simp: dll_def dest: seg_prv)

section \<open>What each operation does to the list\<close>

lemma dll_initialize: "l \<noteq> 0 \<Longrightarrow> dll (list_initialize l h) l []"
  by (simp add: dll_def list_initialize_def)

lemma dll_add_head:
  assumes d: "dll h l xs" and x: "x \<notin> set (l # xs)" "x \<noteq> 0"
  shows "dll (list_add_head l x h) l (x # xs)"
proof (cases xs)
  case Nil
  with d x show ?thesis by (auto simp: dll_def list_add_head_def Let_def)
next
  case (Cons y ys)
  with d have s: "nxt h l = y" "prv h y = l" "seg h y ys l" by (auto simp: dll_def)
  let ?h = "list_add_head l x h"
  have "seg ?h y ys l = seg h y ys l"
    using Cons d x s(1) by (intro seg_cong) (auto simp: dll_def list_add_head_def Let_def)
  with Cons d x s show ?thesis by (auto simp: dll_def list_add_head_def Let_def)
qed

lemma dll_add_tail:
  assumes d: "dll h l xs" and x: "x \<notin> set (l # xs)" "x \<noteq> 0"
  shows "dll (list_add_tail l x h) l (xs @ [x])"
proof (cases xs rule: rev_cases)
  case Nil
  with d x show ?thesis by (auto simp: dll_def list_add_tail_def Let_def)
next
  case (snoc ys y)
  with d have s: "seg h l ys y" "nxt h y = l" "prv h l = y" by (auto simp: dll_def seg_append)
  let ?h = "list_add_tail l x h"
  have "seg ?h l ys y = seg h l ys y"
    using snoc d x s(3) by (intro seg_cong) (auto simp: dll_def list_add_tail_def Let_def)
  with snoc d x s show ?thesis
    by (auto simp: dll_def seg_append list_add_tail_def Let_def)
qed


text \<open>A circular list can be read from any of its nodes: this carries the lemmas about list
  heads over to \<^verbatim>\<open>list_add_before\<close>, \<^verbatim>\<open>list_add_after\<close> and \<^verbatim>\<open>list_delete\<close> at an entry.\<close>

lemma dll_rotate: "dll h l (xs @ e # ys) \<longleftrightarrow> dll h e (ys @ l # xs)"
  by (auto simp: dll_def seg_append)

lemma dll_add_before:
  assumes d: "dll h l (xs @ e # ys)" and x: "x \<notin> set (l # xs @ e # ys)" "x \<noteq> 0"
  shows "dll (list_add_before e x h) l (xs @ x # e # ys)"
proof -
  from d have "dll h e (ys @ l # xs)" by (simp add: dll_rotate)
  then have "dll (list_add_tail e x h) e ((ys @ l # xs) @ [x])"
    using x by (intro dll_add_tail) auto
  then show ?thesis using dll_rotate [of _ l "xs @ [x]" e ys] by simp
qed

lemma dll_add_after:
  assumes d: "dll h l (xs @ e # ys)" and x: "x \<notin> set (l # xs @ e # ys)" "x \<noteq> 0"
  shows "dll (list_add_after e x h) l (xs @ e # x # ys)"
proof -
  from d have "dll h e (ys @ l # xs)" by (simp add: dll_rotate)
  then have "dll (list_add_head e x h) e (x # ys @ l # xs)"
    using x by (intro dll_add_head) auto
  then show ?thesis using dll_rotate [of _ l xs e "x # ys"] by simp
qed

lemma dll_delete_first:
  assumes d: "dll h l (x # xs)"
  shows "dll (list_delete x h) l xs"
proof (cases xs)
  case Nil
  with d show ?thesis by (auto simp: dll_def list_delete_def Let_def)
next
  case (Cons y ys)
  with d have s: "nxt h l = x" "prv h x = l" "nxt h x = y" "seg h y ys l"
    by (auto simp: dll_def)
  let ?h = "list_delete x h"
  have "seg ?h y ys l = seg h y ys l"
    using Cons d s by (intro seg_cong) (auto simp: dll_def list_delete_def Let_def)
  with Cons d s show ?thesis by (auto simp: dll_def list_delete_def Let_def)
qed

lemma dll_delete:
  assumes d: "dll h l (xs @ x # ys)"
  shows "dll (list_delete x h) l (xs @ ys)"
proof (cases xs rule: rev_cases)
  case Nil
  with d show ?thesis by (simp add: dll_delete_first)
next
  case (snoc as p)
  with d have "dll h p (x # ys @ l # as)" using dll_rotate [of h l as p "x # ys"] by simp
  then have "dll (list_delete x h) p (ys @ l # as)" by (rule dll_delete_first)
  with snoc show ?thesis using dll_rotate [of "list_delete x h" l as p ys] by simp
qed

lemma dll_delete_remove1:
  assumes d: "dll h l xs" and x: "x \<in> set xs"
  shows "dll (list_delete x h) l (remove1 x xs)"
proof -
  from x obtain as bs where xs: "xs = as @ x # bs" by (auto simp: in_set_conv_decomp)
  moreover from this d have "x \<notin> set as" by (auto simp: dll_def)
  ultimately show ?thesis using d by (simp add: dll_delete remove1_split)
qed

lemma list_delete_not_in_list: "\<not> list_in_list x (list_delete x h)"
  by (simp add: list_in_list_def list_delete_def Let_def)

lemma dll_in_list:
  assumes "dll h l xs" and "x \<in> set xs"
  shows "list_in_list x h"
proof -
  from assms(2) obtain as bs where "xs = as @ x # bs" by (auto simp: in_set_conv_decomp)
  with assms(1) have "dll h x (bs @ l # as)" by (simp add: dll_rotate)
  then have "nxt h x \<noteq> 0" using dll_nxt_head [of h x "bs @ l # as"]
    by (cases bs) (auto simp: dll_def)
  then show ?thesis by (simp add: list_in_list_def)
qed

lemma list_remove_head_eq:
  assumes "dll h l xs"
  shows "list_remove_head l h =
    (case xs of [] \<Rightarrow> (None, h) | x # _ \<Rightarrow> (Some x, list_delete x h))"
  using assms dll_nxt_head [OF assms]
  by (auto simp: list_remove_head_def dll_def split: list.splits)

lemma list_remove_tail_eq:
  assumes "dll h l xs"
  shows "list_remove_tail l h =
    (if xs = [] then (None, h) else (Some (last xs), list_delete (last xs) h))"
  using assms dll_prv_head [OF assms] last_in_set [of xs]
  by (auto simp: list_remove_tail_def dll_def simp del: last_in_set)

lemma dll_remove_head:
  "dll h l (x # xs) \<Longrightarrow> fst (list_remove_head l h) = Some x \<and> dll (snd (list_remove_head l h)) l xs"
  by (simp add: list_remove_head_eq dll_delete_first)

lemma dll_remove_tail:
  "dll h l (xs @ [x]) \<Longrightarrow>
     fst (list_remove_tail l h) = Some x \<and> dll (snd (list_remove_tail l h)) l xs"
  using dll_delete [of h l xs x "[]"] by (simp add: list_remove_tail_eq)

lemma list_peek_head_eq: "dll h l xs \<Longrightarrow> list_peek_head l h = (case xs of [] \<Rightarrow> None | x # _ \<Rightarrow> Some x)"
  using dll_nxt_head [of h l xs] by (auto simp: list_peek_head_def dll_def split: list.splits)

lemma list_peek_tail_eq: "dll h l xs \<Longrightarrow> list_peek_tail l h = (if xs = [] then None else Some (last xs))"
  using dll_prv_head [of h l xs] last_in_set [of xs]
  by (auto simp: list_peek_tail_def dll_def simp del: last_in_set)

lemma list_is_empty_eq: "dll h l xs \<Longrightarrow> list_is_empty l h \<longleftrightarrow> xs = []"
  using dll_nxt_head [of h l xs] by (auto simp: list_is_empty_def dll_def split: list.splits)

lemma list_next_eq:
  assumes d: "dll h l (xs @ x # ys)"
  shows "list_next l x h = (case ys of [] \<Rightarrow> None | y # _ \<Rightarrow> Some y)"
proof -
  from d have "dll h x (ys @ l # xs)" by (simp add: dll_rotate)
  from dll_nxt_head [OF this] d show ?thesis
    by (cases ys) (auto simp: list_next_def dll_def)
qed

lemma list_prev_eq:
  assumes d: "dll h l (xs @ x # ys)"
  shows "list_prev l x h = (if xs = [] then None else Some (last xs))"
proof -
  from d have r: "dll h x (ys @ l # xs)" by (simp add: dll_rotate)
  show ?thesis
  proof (cases xs rule: rev_cases)
    case Nil
    with dll_prv_head [OF r] show ?thesis by (simp add: list_prev_def)
  next
    case (snoc as p)
    with dll_prv_head [OF r] d show ?thesis by (auto simp: list_prev_def dll_def)
  qed
qed

text \<open>The wrapping versions step over the list head.\<close>

lemma list_next_wrap_eq:
  assumes d: "dll h l (xs @ x # ys)"
  shows "list_next_wrap l x h = Some (hd (ys @ xs @ [x]))"
proof (cases ys)
  case Nil
  from d have r: "dll h x (ys @ l # xs)" by (simp add: dll_rotate)
  from dll_nxt_head [OF r] Nil have x: "nxt h x = l" by simp
  from dll_nxt_head [OF d] have "nxt h l = hd (xs @ [x])" by (cases xs) auto
  with Nil x d show ?thesis by (cases xs) (auto simp: list_next_wrap_def dll_def)
next
  case (Cons y zs)
  from list_next_eq [OF d] Cons show ?thesis
    by (auto simp: list_next_def list_next_wrap_def split: if_splits)
qed

section \<open>The loops end, and count and visit what is in the list\<close>

lemma list_for_every_seg:
  "\<lbrakk> seg h a xs l; l \<notin> set xs \<rbrakk> \<Longrightarrow> list_for_every h l (nxt h a) acc = Some (acc @ xs)"
proof (induction xs arbitrary: a acc)
  case Nil
  then show ?case by (simp add: list_for_every.simps)
next
  case (Cons x xs)
  have "list_for_every h l x acc = list_for_every h l (nxt h x) (acc @ [x])"
    using Cons.prems by (subst list_for_every.simps) simp
  then show ?case using Cons by simp
qed

lemma list_length_loop_seg:
  "\<lbrakk> seg h a xs l; l \<notin> set xs \<rbrakk> \<Longrightarrow> list_length_loop h l (nxt h a) cnt = Some (cnt + length xs)"
proof (induction xs arbitrary: a cnt)
  case Nil
  then show ?case by (simp add: list_length_loop.simps)
next
  case (Cons x xs)
  have "list_length_loop h l x cnt = list_length_loop h l (nxt h x) (cnt + 1)"
    using Cons.prems by (subst list_length_loop.simps) simp
  then show ?case using Cons by simp
qed

lemma list_for_every_eq: "dll h l xs \<Longrightarrow> list_for_every h l (nxt h l) [] = Some xs"
  by (auto simp: dll_def intro: list_for_every_seg [of h l xs l "[]", simplified])

lemma list_length_eq: "dll h l xs \<Longrightarrow> list_length l h = Some (length xs)"
  using list_length_loop_seg [of h l xs l 0] by (simp add: dll_def list_length_def)


section \<open>Splicing\<close>

lemma seg_relink:
  "\<lbrakk> seg h a ys b; ys \<noteq> []; nxt h' a' = hd ys; prv h' (hd ys) = a';
     nxt h' (last ys) = b'; prv h' b' = last ys;
     \<forall>x \<in> set (butlast ys). nxt h' x = nxt h x; \<forall>x \<in> set (tl ys). prv h' x = prv h x \<rbrakk>
   \<Longrightarrow> seg h' a' ys b'"
proof (induction ys arbitrary: a a')
  case Nil
  then show ?case by simp
next
  case (Cons y ys)
  then show ?case by (cases ys) auto
qed

lemma dll_splice_empty:
  assumes l: "dll h l zs" and s: "dll h s []" and disj: "s \<notin> set (l # zs)"
  shows "dll (list_splice_after l s h) l zs \<and> dll (list_splice_after l s h) s []"
proof -
  let ?h = "list_splice_after l s h"
  have agree: "nxt ?h x = nxt h x \<and> prv ?h x = prv h x" if "x \<in> insert l (set zs)" for x
  proof -
    have "prv h (nxt h l) = l" using l by (cases zs) (auto simp: dll_def)
    moreover have "nxt h l \<noteq> s"
      using l disj dll_nxt_head [OF l] by (cases zs) auto
    ultimately show ?thesis using that s disj
      by (auto simp: list_splice_after_def list_initialize_def Let_def dll_def)
  qed
  from dll_cong [OF agree] l s show ?thesis
    by (auto simp: list_splice_after_def Let_def dll_initialize dll_nodes)
qed

lemma dll_splice_head:
  assumes l: "dll h l zs" and s: "dll h s ys"
    and disj: "set (l # zs) \<inter> set (s # ys) = {}"
  shows "dll (list_splice_after l s h) l (ys @ zs) \<and> dll (list_splice_after l s h) s []"
proof (cases "ys = []")
  case True
  with assms show ?thesis using dll_splice_empty by auto
next
  case False
  let ?h = "list_splice_after l s h"
  define n where "n = nxt h l"
  have n: "n = (case zs of [] \<Rightarrow> l | z # _ \<Rightarrow> z)" using dll_nxt_head [OF l] by (simp add: n_def)
  have y: "nxt h s = hd ys" "prv h s = last ys"
    using dll_nxt_head [OF s] dll_prv_head [OF s] False by (auto split: list.splits)
  have ys: "hd ys \<in> set ys" "last ys \<in> set ys" "s \<noteq> hd ys" "s \<noteq> last ys" "s \<notin> set ys"
      "distinct ys" "s \<noteq> l" "l \<notin> set ys" "n \<notin> set ys" "n \<noteq> s"
    using False s disj n dll_nodes [OF s] by (auto split: list.splits)
  have h': "nxt ?h = (nxt h)(last ys := n, l := hd ys, s := s)"
      "prv ?h = (prv h)(hd ys := l, n := last ys, s := s)"
    using ys y by (auto simp: list_splice_after_def list_initialize_def Let_def n_def fun_eq_iff)
  have hd_tl: "hd ys \<notin> set (tl ys)" "last ys \<notin> set (butlast ys)"
    using ys(6) False by (metis distinct.simps(2) list.collapse,
        metis append_butlast_last_id distinct_append disjoint_iff last_in_set list.set_intros(1))
  have seg1: "seg ?h l ys n"
    by (rule seg_relink [of h s ys s])
      (use s False ys hd_tl h' in \<open>auto simp: dll_def dest: in_set_butlastD list.set_sel(2)\<close>)
  have seg2: "seg ?h l (ys @ zs) l"
  proof (cases zs)
    case Nil
    with seg1 n show ?thesis by simp
  next
    case (Cons z zs')
    with l have "seg h z zs' l" by (simp add: dll_def)
    moreover have "seg ?h z zs' l = seg h z zs' l"
      using Cons n l disj ys h' by (intro seg_cong) (auto simp: dll_def)
    ultimately show ?thesis using Cons n seg1 by (simp add: seg_append)
  qed
  with l s disj show ?thesis
    by (auto simp: dll_def list_splice_after_def Let_def list_initialize_def)
qed

lemma dll_splice_after:
  assumes l: "dll h l (xs @ d # zs)" and s: "dll h s ys"
    and disj: "set (l # xs @ d # zs) \<inter> set (s # ys) = {}"
  shows "dll (list_splice_after d s h) l (xs @ d # ys @ zs) \<and> dll (list_splice_after d s h) s []"
proof -
  from l have "dll h d (zs @ l # xs)" by (simp add: dll_rotate)
  from dll_splice_head [OF this s] disj
  have "dll (list_splice_after d s h) d (ys @ zs @ l # xs) \<and> dll (list_splice_after d s h) s []"
    by auto
  then show ?thesis using dll_rotate [of _ l xs d "ys @ zs"] by simp
qed

lemma dll_splice_tail:
  assumes l: "dll h l zs" and s: "dll h s ys"
    and disj: "set (l # zs) \<inter> set (s # ys) = {}"
  shows "dll (list_splice_tail l s h) l (zs @ ys) \<and> dll (list_splice_tail l s h) s []"
proof (cases zs rule: rev_cases)
  case Nil
  with dll_splice_head [OF l s disj] dll_prv_head [OF l] show ?thesis
    by (simp add: list_splice_tail_def)
next
  case (snoc as z)
  with dll_splice_after [of h l as z "[]" s ys] l s disj dll_prv_head [OF l] show ?thesis
    by (auto simp: list_splice_tail_def)
qed

section \<open>Frame: the other lists of the store are untouched\<close>

lemma dll_frame_add:
  assumes l: "dll h l xs" and m: "dll h m ys"
    and disj: "set (l # xs) \<inter> set (m # ys) = {}" "x \<notin> set (m # ys)"
  shows "dll (list_add_head l x h) m ys \<and> dll (list_add_tail l x h) m ys"
proof -
  have "nxt h l \<in> set (l # xs)" "prv h l \<in> set (l # xs)"
    using dll_nxt_head [OF l] dll_prv_head [OF l] by (auto split: list.splits)
  then have "nxt (list_add_head l x h) y = nxt h y \<and> prv (list_add_head l x h) y = prv h y"
    and "nxt (list_add_tail l x h) y = nxt h y \<and> prv (list_add_tail l x h) y = prv h y"
    if "y \<in> insert m (set ys)" for y
    using that disj by (auto simp: list_add_head_def list_add_tail_def Let_def)
  then show ?thesis using m dll_cong by metis
qed

lemma dll_frame_delete:
  assumes l: "dll h l (xs @ x # zs)" and m: "dll h m ys"
    and disj: "set (l # xs @ x # zs) \<inter> set (m # ys) = {}"
  shows "dll (list_delete x h) m ys"
proof -
  from l have r: "dll h x (zs @ l # xs)" by (simp add: dll_rotate)
  have "nxt h x \<in> set (l # xs @ x # zs)"
    using dll_nxt_head [OF r] by (cases zs) simp_all
  moreover have "prv h x \<in> set (l # xs @ x # zs)"
    using dll_prv_head [OF r] by (cases "xs = []") simp_all
  moreover have "x \<in> set (l # xs @ x # zs)" by simp
  ultimately have sub: "{x, nxt h x, prv h x} \<subseteq> set (l # xs @ x # zs)" by blast
  have "y \<notin> {x, nxt h x, prv h x}" if "y \<in> insert m (set ys)" for y
  proof -
    from that have "y \<in> set (m # ys)" by simp
    with disj sub show ?thesis by blast
  qed
  moreover have "nxt h x \<noteq> x" using dll_nxt_head [OF r] r by (cases zs) (auto simp: dll_def)
  ultimately have "nxt (list_delete x h) y = nxt h y \<and> prv (list_delete x h) y = prv h y"
    if "y \<in> insert m (set ys)" for y
    using that by (simp add: list_delete_def Let_def)
  from dll_cong [OF this] m show ?thesis by simp
qed

section \<open>The queue contract\<close>

text \<open>
  What the clients of the list rely on: adding at either end, taking from the head, and
  deleting anywhere change the represented list as expected. \<open>fresh\<close> is the caller's
  obligation that the item is in no list yet. The contract gives the order in which the loop
  \<^verbatim>\<open>while ((t = list_remove_head(&list)))\<close> of \<^verbatim>\<open>wait_queue_wake_all\<close> and of the reaper thread
  sees the items.
\<close>

fun drain :: "nat \<Rightarrow> ('h \<Rightarrow> 'x option \<times> 'h) \<Rightarrow> 'h \<Rightarrow> ('x list \<times> 'h) option" where
  "drain 0 rem h = None"
| "drain (Suc n) rem h =
     (case rem h of (None, h') \<Rightarrow> Some ([], h')
      | (Some x, h') \<Rightarrow> map_option (\<lambda>(xs, h''). (x # xs, h'')) (drain n rem h'))"

locale list_queue =
  fixes rep :: "'h \<Rightarrow> 'l \<Rightarrow> 'x list \<Rightarrow> bool"
    and fresh :: "'l \<Rightarrow> 'x \<Rightarrow> bool"
    and add_head :: "'l \<Rightarrow> 'x \<Rightarrow> 'h \<Rightarrow> 'h"
    and add_tail :: "'l \<Rightarrow> 'x \<Rightarrow> 'h \<Rightarrow> 'h"
    and delete :: "'x \<Rightarrow> 'h \<Rightarrow> 'h"
    and remove_head :: "'l \<Rightarrow> 'h \<Rightarrow> 'x option \<times> 'h"
  assumes rep_distinct: "rep h l xs \<Longrightarrow> distinct xs"
    and rep_add_head: "rep h l xs \<Longrightarrow> fresh l x \<Longrightarrow> x \<notin> set xs \<Longrightarrow> rep (add_head l x h) l (x # xs)"
    and rep_add_tail: "rep h l xs \<Longrightarrow> fresh l x \<Longrightarrow> x \<notin> set xs \<Longrightarrow> rep (add_tail l x h) l (xs @ [x])"
    and rep_delete: "rep h l xs \<Longrightarrow> x \<in> set xs \<Longrightarrow> rep (delete x h) l (remove1 x xs)"
    and remove_head_empty: "rep h l [] \<Longrightarrow> remove_head l h = (None, h)"
    and remove_head_Cons: "rep h l (x # xs) \<Longrightarrow> \<exists>h'. remove_head l h = (Some x, h') \<and> rep h' l xs"
begin

lemma add_all_tail:
  "\<lbrakk> rep h l xs; \<forall>y \<in> set ys. fresh l y; distinct ys; set xs \<inter> set ys = {} \<rbrakk> \<Longrightarrow>
     rep (fold (add_tail l) ys h) l (xs @ ys)"
proof (induction ys arbitrary: h xs)
  case (Cons y ys)
  then have "rep (add_tail l y h) l (xs @ [y])" by (intro rep_add_tail) auto
  from Cons.IH [OF this] Cons.prems show ?case by auto
qed simp

lemma drain_all:
  "\<lbrakk> rep h l xs; length xs < n \<rbrakk> \<Longrightarrow> \<exists>h'. drain n (remove_head l) h = Some (xs, h') \<and> rep h' l []"
proof (induction xs arbitrary: h n)
  case Nil
  then show ?case by (cases n) (auto simp: remove_head_empty)
next
  case (Cons x xs)
  then obtain m where n: "n = Suc m" "length xs < m" by (cases n) auto
  from remove_head_Cons [OF Cons.prems(1)] obtain h'
    where h': "remove_head l h = (Some x, h')" "rep h' l xs" by blast
  from Cons.IH [OF h'(2) n(2)] obtain h''
    where "drain m (remove_head l) h' = Some (xs, h'')" "rep h'' l []" by blast
  with n h' show ?case by auto
qed

lemma fifo:
  assumes "rep h l xs" "\<forall>y \<in> set ys. fresh l y" "distinct ys" "set xs \<inter> set ys = {}"
    and "length xs + length ys < n"
  shows "\<exists>h'. drain n (remove_head l) (fold (add_tail l) ys h) = Some (xs @ ys, h') \<and> rep h' l []"
  using drain_all [OF add_all_tail [OF assms(1-4)]] assms(5) by auto

end

interpretation lkq: list_queue dll "\<lambda>l x. x \<noteq> l \<and> x \<noteq> 0" list_add_head list_add_tail
    list_delete list_remove_head
proof unfold_locales
  fix h :: list_heap and l x :: node and xs
  show "dll h l xs \<Longrightarrow> distinct xs" by (simp add: dll_def)
  show "dll h l xs \<Longrightarrow> x \<noteq> l \<and> x \<noteq> 0 \<Longrightarrow> x \<notin> set xs \<Longrightarrow> dll (list_add_head l x h) l (x # xs)"
    by (simp add: dll_add_head)
  show "dll h l xs \<Longrightarrow> x \<noteq> l \<and> x \<noteq> 0 \<Longrightarrow> x \<notin> set xs \<Longrightarrow> dll (list_add_tail l x h) l (xs @ [x])"
    by (simp add: dll_add_tail)
  show "dll h l xs \<Longrightarrow> x \<in> set xs \<Longrightarrow> dll (list_delete x h) l (remove1 x xs)"
    by (rule dll_delete_remove1)
  show "dll h l [] \<Longrightarrow> list_remove_head l h = (None, h)"
    by (simp add: list_remove_head_eq)
  show "dll h l (x # xs) \<Longrightarrow> \<exists>h'. list_remove_head l h = (Some x, h') \<and> dll h' l xs"
    by (simp add: list_remove_head_eq dll_delete_first)
qed

end
