(* ===== verification/Kernel_State.thy ===== *)
theory Kernel_State
  imports Timer Intrusive_List
begin

text \<open>
  The state of the kernel core: threads, run queues, wait queues, per-cpu data
  (\<^verbatim>\<open>include/kernel/thread.h\<close>, \<^verbatim>\<open>include/kernel/wait.h\<close>, the statics of \<^verbatim>\<open>kernel/thread.c\<close>) and
  the inter-processor state of \<^verbatim>\<open>kernel/mp.c\<close>, with the thread lock.

  The model is of the build with \<^verbatim>\<open>WITH_SMP\<close>, \<^verbatim>\<open>WITH_KERNEL_VM\<close> and the debug assertions on.
  Code under \<^verbatim>\<open>#if\<close> for shadow call stacks, the musl libc and test builds depends on the
  \<open>cfg\<close> fields. \<^verbatim>\<open>arch_curr_cpu_num()\<close> is the argument \<open>cpu\<close> of every operation;
  \<^verbatim>\<open>current_time_ns()\<close> is the field \<open>clock\<close>, which the environment advances.
\<close>

section \<open>Threads and wait queues\<close>

datatype thread_state =
    THREAD_SUSPENDED | THREAD_READY | THREAD_RUNNING | THREAD_BLOCKED | THREAD_SLEEPING | THREAD_DEATH

text \<open>Where a wait queue lives: the reaper's, the one in a thread for \<^verbatim>\<open>thread_join\<close>, or the
  \<^verbatim>\<open>wait\<close> field of the mutex, event, semaphore or port object at some address.\<close>

datatype wq_ref = Reaper_wq | Retcode_wq tid | Obj_wq nat

text \<open>The list a thread's \<^verbatim>\<open>queue_node\<close> and \<^verbatim>\<open>thread_list_node\<close> is linked in.\<close>

datatype queue_link = Not_queued | In_run_queue nat | In_wait_queue wq_ref
datatype list_link = Not_listed | In_thread_list | In_dead_threads

definition THREAD_MAGIC :: int where "THREAD_MAGIC = 0x74687264"
definition WAIT_QUEUE_MAGIC :: int where "WAIT_QUEUE_MAGIC = 0x77616974"

abbreviation THREAD_FLAG_DETACHED :: "32 word" where "THREAD_FLAG_DETACHED \<equiv> bit32 0"
abbreviation THREAD_FLAG_FREE_STACK :: "32 word" where "THREAD_FLAG_FREE_STACK \<equiv> bit32 1"
abbreviation THREAD_FLAG_FREE_STRUCT :: "32 word" where "THREAD_FLAG_FREE_STRUCT \<equiv> bit32 2"
abbreviation THREAD_FLAG_REAL_TIME :: "32 word" where "THREAD_FLAG_REAL_TIME \<equiv> bit32 3"
abbreviation THREAD_FLAG_IDLE :: "32 word" where "THREAD_FLAG_IDLE \<equiv> bit32 4"
abbreviation THREAD_FLAG_EXIT_ON_PANIC :: "32 word" where "THREAD_FLAG_EXIT_ON_PANIC \<equiv> bit32 6"
abbreviation THREAD_FLAG_FREE_SHADOW_STACK :: "32 word" where "THREAD_FLAG_FREE_SHADOW_STACK \<equiv> bit32 7"
abbreviation THREAD_FLAG_FREE_LIBC_STATE :: "32 word" where "THREAD_FLAG_FREE_LIBC_STATE \<equiv> bit32 8"

abbreviation NUM_PRIORITIES :: nat where "NUM_PRIORITIES \<equiv> 32"
abbreviation LOWEST_PRIORITY :: int where "LOWEST_PRIORITY \<equiv> 0"
abbreviation HIGHEST_PRIORITY :: int where "HIGHEST_PRIORITY \<equiv> 31"
abbreviation IDLE_PRIORITY :: int where "IDLE_PRIORITY \<equiv> 0"
abbreviation DEFAULT_PRIORITY :: int where "DEFAULT_PRIORITY \<equiv> 16"
abbreviation HIGH_PRIORITY :: int where "HIGH_PRIORITY \<equiv> 24"

record wait_queue =
  wq_magic :: int
  wq_list :: "tid list"
  wq_count :: int

record thread =
  stack :: "64 word"
  stack_high :: "64 word"
  stack_size :: "64 word"
  shadow_stack :: "64 word"
  shadow_stack_size :: "64 word"
  magic :: int
  cookie :: "64 word"
  thread_list_node :: list_link
  queue_node :: queue_link
  priority :: int
  state :: thread_state
  remaining_quantum :: int
  flags :: "32 word"
  curr_cpu :: int
  pinned_cpu :: int
  aspace :: "64 word"
  blocking_wait_queue :: "wq_ref option"
  wait_queue_block_ret :: int
  entry :: "64 word"
  arg :: "64 word"
  retcode :: int
  tls :: "64 word list"
  name :: string

definition WAIT_QUEUE_INITIAL_VALUE :: wait_queue where
  "WAIT_QUEUE_INITIAL_VALUE = \<lparr>wq_magic = WAIT_QUEUE_MAGIC, wq_list = [], wq_count = 0\<rparr>"

section \<open>The kernel state\<close>

record kstate =
  smp_max_cpus :: nat
  cfg_scs :: bool
  cfg_musl :: bool
  cfg_test_build :: bool
  threads :: "tid \<Rightarrow> thread"
  thread_list :: "tid list"
  thread_lock_owner :: nat
  run_queue :: "nat \<Rightarrow> tid list"
  run_queue_bitmap :: "32 word"
  cpu_priority :: "cpu_num \<Rightarrow> int"
  idle_threads :: "cpu_num \<Rightarrow> tid"
  dead_threads :: "tid list"
  wait_queues :: "wq_ref \<Rightarrow> wait_queue"
  current :: "cpu_num \<Rightarrow> tid"
  mmu_aspace :: "cpu_num \<Rightarrow> 64 word"
  active_cpus :: "32 word"
  idle_cpus :: "32 word"
  realtime_cpus :: "32 word"
  ipi_log :: "(cpu_num \<times> 32 word) list"
  timers :: timer_sys
  clock :: time_ns

definition upd_thread :: "tid \<Rightarrow> (thread \<Rightarrow> thread) \<Rightarrow> kstate \<Rightarrow> kstate" where
  "upd_thread t f s = s\<lparr>threads := (threads s)(t := f (threads s t))\<rparr>"

definition upd_wq :: "wq_ref \<Rightarrow> (wait_queue \<Rightarrow> wait_queue) \<Rightarrow> kstate \<Rightarrow> kstate" where
  "upd_wq w f s = s\<lparr>wait_queues := (wait_queues s)(w := f (wait_queues s w))\<rparr>"

lemma upd_thread_simps [simp]:
  "threads (upd_thread t f s) = (threads s)(t := f (threads s t))"
  "smp_max_cpus (upd_thread t f s) = smp_max_cpus s" "thread_list (upd_thread t f s) = thread_list s"
  "thread_lock_owner (upd_thread t f s) = thread_lock_owner s"
  "run_queue (upd_thread t f s) = run_queue s"
  "run_queue_bitmap (upd_thread t f s) = run_queue_bitmap s"
  "cpu_priority (upd_thread t f s) = cpu_priority s" "idle_threads (upd_thread t f s) = idle_threads s"
  "dead_threads (upd_thread t f s) = dead_threads s" "wait_queues (upd_thread t f s) = wait_queues s"
  "current (upd_thread t f s) = current s" "mmu_aspace (upd_thread t f s) = mmu_aspace s"
  "active_cpus (upd_thread t f s) = active_cpus s" "idle_cpus (upd_thread t f s) = idle_cpus s"
  "realtime_cpus (upd_thread t f s) = realtime_cpus s" "ipi_log (upd_thread t f s) = ipi_log s"
  "timers (upd_thread t f s) = timers s" "clock (upd_thread t f s) = clock s"
  "cfg_scs (upd_thread t f s) = cfg_scs s" "cfg_musl (upd_thread t f s) = cfg_musl s"
  "cfg_test_build (upd_thread t f s) = cfg_test_build s"
  by (simp_all add: upd_thread_def)

lemma upd_wq_simps [simp]:
  "wait_queues (upd_wq w g s) = (wait_queues s)(w := g (wait_queues s w))"
  "threads (upd_wq w g s) = threads s"
  "smp_max_cpus (upd_wq w g s) = smp_max_cpus s" "thread_list (upd_wq w g s) = thread_list s"
  "thread_lock_owner (upd_wq w g s) = thread_lock_owner s"
  "run_queue (upd_wq w g s) = run_queue s" "run_queue_bitmap (upd_wq w g s) = run_queue_bitmap s"
  "cpu_priority (upd_wq w g s) = cpu_priority s" "idle_threads (upd_wq w g s) = idle_threads s"
  "dead_threads (upd_wq w g s) = dead_threads s" "current (upd_wq w g s) = current s"
  "mmu_aspace (upd_wq w g s) = mmu_aspace s" "active_cpus (upd_wq w g s) = active_cpus s"
  "idle_cpus (upd_wq w g s) = idle_cpus s" "realtime_cpus (upd_wq w g s) = realtime_cpus s"
  "ipi_log (upd_wq w g s) = ipi_log s" "timers (upd_wq w g s) = timers s" "clock (upd_wq w g s) = clock s"
  "cfg_scs (upd_wq w g s) = cfg_scs s" "cfg_musl (upd_wq w g s) = cfg_musl s"
  "cfg_test_build (upd_wq w g s) = cfg_test_build s"
  by (simp_all add: upd_wq_def)

section \<open>The thread lock\<close>

text \<open>
  \<^verbatim>\<open>THREAD_LOCK\<close>, \<^verbatim>\<open>THREAD_UNLOCK\<close> and \<^verbatim>\<open>thread_lock_held\<close>. The owner \<^verbatim>\<open>SMP_MAX_CPUS\<close> means free.
  The lock makes each critical section one atomic step, so an operation that finds the lock
  taken is not enabled: it would spin (for ever, if its own cpu is the owner).
  Across a context switch the lock stays with the cpu, and it is the code the next thread
  returns to that releases it; the operations here release it at their end.
\<close>

definition thread_lock :: "cpu_num \<Rightarrow> kstate \<Rightarrow> kstate res" where
  "thread_lock cpu s =
     (if thread_lock_owner s \<noteq> smp_max_cpus s then Inl (Panic ''spinning on thread_lock'')
      else Inr (s\<lparr>thread_lock_owner := cpu\<rparr>))"

definition thread_unlock :: "cpu_num \<Rightarrow> kstate \<Rightarrow> kstate res" where
  "thread_unlock cpu s =
     guardE ''thread_unlock_prepare: owner'' (thread_lock_owner s = cpu)
       (Inr (s\<lparr>thread_lock_owner := smp_max_cpus s\<rparr>))"

definition thread_lock_held :: "cpu_num \<Rightarrow> kstate \<Rightarrow> bool" where
  "thread_lock_held cpu s = (thread_lock_owner s = cpu)"

section \<open>Other processors: kernel/mp.c\<close>

definition mp_is_cpu_active :: "cpu_num \<Rightarrow> kstate \<Rightarrow> bool" where
  "mp_is_cpu_active c s = (active_cpus s AND bit32 c \<noteq> 0)"

definition mp_set_cpu_idle :: "cpu_num \<Rightarrow> kstate \<Rightarrow> kstate" where
  "mp_set_cpu_idle c s = s\<lparr>idle_cpus := idle_cpus s OR bit32 c\<rparr>"

definition mp_set_cpu_busy :: "cpu_num \<Rightarrow> kstate \<Rightarrow> kstate" where
  "mp_set_cpu_busy c s = s\<lparr>idle_cpus := idle_cpus s AND NOT (bit32 c)\<rparr>"

definition mp_set_cpu_realtime :: "cpu_num \<Rightarrow> kstate \<Rightarrow> kstate" where
  "mp_set_cpu_realtime c s = s\<lparr>realtime_cpus := realtime_cpus s OR bit32 c\<rparr>"

definition mp_set_cpu_non_realtime :: "cpu_num \<Rightarrow> kstate \<Rightarrow> kstate" where
  "mp_set_cpu_non_realtime c s = s\<lparr>realtime_cpus := realtime_cpus s AND NOT (bit32 c)\<rparr>"

definition mp_set_curr_cpu_active :: "cpu_num \<Rightarrow> bool \<Rightarrow> kstate \<Rightarrow> kstate" where
  "mp_set_curr_cpu_active cpu active s = s\<lparr>active_cpus := active_cpus s OR bit32 cpu\<rparr>"

abbreviation MP_RESCHEDULE_FLAG_REALTIME :: "32 word" where "MP_RESCHEDULE_FLAG_REALTIME \<equiv> 1"

text \<open>\<^verbatim>\<open>arch_mp_send_ipi\<close> with \<^verbatim>\<open>MP_IPI_RESCHEDULE\<close> is an entry of the log.\<close>

definition mp_reschedule :: "cpu_num \<Rightarrow> 32 word \<Rightarrow> 32 word \<Rightarrow> kstate \<Rightarrow> kstate" where
  "mp_reschedule cpu target flgs s =
     (let t1 = target AND active_cpus s;
          t2 = (if flgs AND MP_RESCHEDULE_FLAG_REALTIME = 0 then t1 AND NOT (realtime_cpus s) else t1);
          t3 = t2 AND NOT (bit32 cpu)
      in s\<lparr>ipi_log := ipi_log s @ [(cpu, t3)]\<rparr>)"

datatype handler_return = INT_NO_RESCHEDULE | INT_RESCHEDULE

definition mp_mbx_reschedule_irq :: "cpu_num \<Rightarrow> kstate \<Rightarrow> handler_return" where
  "mp_mbx_reschedule_irq cpu s =
     (if active_cpus s AND bit32 cpu \<noteq> 0 then INT_RESCHEDULE else INT_NO_RESCHEDULE)"

text \<open>An IPI goes only to active cpus, never to the sender, and, without the flag, never to a
  cpu that runs a real-time thread.\<close>

lemma mp_reschedule_targets:
  assumes "ipi_log (mp_reschedule cpu target flgs s) = ipi_log s @ [(cpu, m)]" and "bit m c"
  shows "c \<noteq> cpu \<and> bit target c \<and> bit (active_cpus s) c \<and>
     (flgs AND MP_RESCHEDULE_FLAG_REALTIME = 0 \<longrightarrow> \<not> bit (realtime_cpus s) c)"
  using assms
  by (auto simp: mp_reschedule_def Let_def bit_and_not_bit32 bit_and_iff bit_not_iff split: if_splits)

end
