(* ===== verification/Scheduler.thy ===== *)
theory Scheduler
  imports Kernel_State
begin

text \<open>
  The scheduler of \<^verbatim>\<open>kernel/thread.c\<close>: run queues and their bitmap, the choice of the next
  thread, the decision which other cpu to interrupt, and the reschedule routine.

  A function that contains a context switch is modelled up to and including the switch: its
  result is the state in which the thread that was chosen is current on the cpu. What the
  calling thread does when it is switched in again is a definition of its own.
\<close>

section \<open>Run queues\<close>

definition prio_index :: "tid \<Rightarrow> kstate \<Rightarrow> nat" where
  "prio_index t s = nat (priority (threads s t))"

definition insert_in_run_queue_head :: "cpu_num \<Rightarrow> tid \<Rightarrow> kstate \<Rightarrow> kstate res" where
  "insert_in_run_queue_head cpu t s =
     guardE ''thread magic'' (magic (threads s t) = THREAD_MAGIC)
     (guardE ''thread ready'' (state (threads s t) = THREAD_READY)
     (guardE ''not in a queue'' (queue_node (threads s t) = Not_queued)
     (guardE ''thread lock held'' (thread_lock_held cpu s)
       (let p = prio_index t s
        in Inr (upd_thread t (\<lambda>th. th\<lparr>queue_node := In_run_queue p\<rparr>)
             (s\<lparr>run_queue := (run_queue s)(p := t # run_queue s p),
                run_queue_bitmap := run_queue_bitmap s OR bit32 p\<rparr>))))))"

definition insert_in_run_queue_tail :: "cpu_num \<Rightarrow> tid \<Rightarrow> kstate \<Rightarrow> kstate res" where
  "insert_in_run_queue_tail cpu t s =
     guardE ''thread magic'' (magic (threads s t) = THREAD_MAGIC)
     (guardE ''thread ready'' (state (threads s t) = THREAD_READY)
     (guardE ''not in a queue'' (queue_node (threads s t) = Not_queued)
     (guardE ''thread lock held'' (thread_lock_held cpu s)
       (let p = prio_index t s
        in Inr (upd_thread t (\<lambda>th. th\<lparr>queue_node := In_run_queue p\<rparr>)
             (s\<lparr>run_queue := (run_queue s)(p := run_queue s p @ [t]),
                run_queue_bitmap := run_queue_bitmap s OR bit32 p\<rparr>))))))"

text \<open>\<^verbatim>\<open>list_delete(&t->queue_node)\<close>: unlink from whichever queue the node is in.\<close>

definition list_delete_queue_node :: "tid \<Rightarrow> kstate \<Rightarrow> kstate" where
  "list_delete_queue_node t s =
     upd_thread t (\<lambda>th. th\<lparr>queue_node := Not_queued\<rparr>)
      (case queue_node (threads s t) of
         Not_queued \<Rightarrow> s
       | In_run_queue p \<Rightarrow> s\<lparr>run_queue := (run_queue s)(p := remove1 t (run_queue s p))\<rparr>
       | In_wait_queue w \<Rightarrow> upd_wq w (\<lambda>q. q\<lparr>wq_list := remove1 t (wq_list q)\<rparr>) s)"

definition delete_from_run_queue :: "cpu_num \<Rightarrow> tid \<Rightarrow> kstate \<Rightarrow> kstate res" where
  "delete_from_run_queue cpu t s =
     guardE ''thread magic'' (magic (threads s t) = THREAD_MAGIC)
     (guardE ''thread ready'' (state (threads s t) = THREAD_READY)
     (guardE ''in a queue'' (queue_node (threads s t) \<noteq> Not_queued)
     (guardE ''thread lock held'' (thread_lock_held cpu s)
       (let s1 = list_delete_queue_node t s; p = prio_index t s
        in Inr (if run_queue s1 p = []
                then s1\<lparr>run_queue_bitmap := run_queue_bitmap s1 AND NOT (bit32 p)\<rparr> else s1)))))"

section \<open>Cookies and thread classes\<close>

definition thread_get_expected_cookie :: "tid \<Rightarrow> kstate \<Rightarrow> 64 word" where
  "thread_get_expected_cookie t s =
     (cookie (threads s (idle_threads s 0)) XOR idle_threads s 0) XOR t"

definition thread_check_cookie :: "tid \<Rightarrow> kstate \<Rightarrow> unit res" where
  "thread_check_cookie t s =
     (if cookie (threads s t) \<noteq> thread_get_expected_cookie t s
      then Inl (Panic ''Corrupt or invalid thread cookie detected'') else Inr ())"

definition thread_is_realtime :: "thread \<Rightarrow> bool" where
  "thread_is_realtime t \<longleftrightarrow> flags t AND THREAD_FLAG_REAL_TIME \<noteq> 0 \<and> priority t > DEFAULT_PRIORITY"

definition thread_is_idle :: "thread \<Rightarrow> bool" where
  "thread_is_idle t \<longleftrightarrow> flags t AND THREAD_FLAG_IDLE \<noteq> 0"

definition thread_is_real_time_or_idle :: "thread \<Rightarrow> bool" where
  "thread_is_real_time_or_idle t \<longleftrightarrow> flags t AND (THREAD_FLAG_REAL_TIME OR THREAD_FLAG_IDLE) \<noteq> 0"

section \<open>Interrupting other cpus\<close>

definition thread_get_mp_reschedule_target ::
    "cpu_num \<Rightarrow> tid \<Rightarrow> tid \<Rightarrow> kstate \<Rightarrow> (32 word \<times> kstate) res" where
  "thread_get_mp_reschedule_target cpu current_thread t s =
     (let pin = pinned_cpu (threads s t)
      in if pin \<noteq> - 1 \<and> pinned_cpu (threads s current_thread) = pin then Inr (0, s)
         else if pin = - 1 \<or> pin = int cpu then Inr (0, s)
         else guardE ''target cpu'' (0 \<le> pin \<and> pin < int (smp_max_cpus s))
          (let target_cpu = nat pin
           in if priority (threads s t) < cpu_priority s target_cpu then Inr (0, s)
              else Inr (bit32 target_cpu,
                s\<lparr>cpu_priority := (cpu_priority s)(target_cpu := priority (threads s t))\<rparr>)))"

definition thread_mp_reschedule :: "cpu_num \<Rightarrow> tid \<Rightarrow> tid \<Rightarrow> kstate \<Rightarrow> kstate res" where
  "thread_mp_reschedule cpu current_thread t s =
     bindE (thread_get_mp_reschedule_target cpu current_thread t s)
       (\<lambda>(target, s1). Inr (mp_reschedule cpu target 0 s1))"

definition thread_pinned_cond_mp_reschedule ::
    "cpu_num \<Rightarrow> tid \<Rightarrow> tid \<Rightarrow> kstate \<Rightarrow> kstate res" where
  "thread_pinned_cond_mp_reschedule cpu current_thread t s =
     (if pinned_cpu (threads s t) > - 1 \<and> pinned_cpu (threads s t) \<noteq> int cpu
      then guardE ''curr_cpu of the pinned thread''
             (curr_cpu (threads s t) = int cpu \<or> curr_cpu (threads s t) = - 1)
             (thread_mp_reschedule cpu current_thread t s)
      else Inr s)"

section \<open>The next thread\<close>

definition can_run_on :: "kstate \<Rightarrow> int \<Rightarrow> tid \<Rightarrow> bool" where
  "can_run_on s cpu t \<longleftrightarrow> pinned_cpu (threads s t) < 0 \<or> pinned_cpu (threads s t) = cpu"

lemma unat_clear_bit: "bit w n \<Longrightarrow> unat (w AND NOT (bit32 n)) < unat w"
proof -
  assume b: "bit w n"
  have "w AND NOT (bit32 n) \<noteq> w"
  proof
    assume "w AND NOT (bit32 n) = w"
    with b have "bit (w AND NOT (bit32 n)) n" by simp
    then show False by (simp add: bit_and_not_bit32)
  qed
  moreover have "w AND NOT (bit32 n) \<le> w" by (rule word_and_le2)
  ultimately have "w AND NOT (bit32 n) < w" by simp
  then show ?thesis by (simp add: word_less_nat_alt)
qed

text \<open>The loop of \<^verbatim>\<open>get_top_thread\<close> over the queues that the bitmap names, from the highest.\<close>

function top_search :: "kstate \<Rightarrow> int \<Rightarrow> 32 word \<Rightarrow> tid option" where
  "top_search s cpu local_run_queue_bitmap =
     (if local_run_queue_bitmap = 0 then None
      else let next_queue = 32 - 1 - clz32 local_run_queue_bitmap
           in case List.find (can_run_on s cpu) (run_queue s next_queue) of
                Some t \<Rightarrow> Some t
              | None \<Rightarrow> top_search s cpu (local_run_queue_bitmap AND NOT (bit32 next_queue)))"
  by pat_completeness auto
termination
  by (relation "measure (\<lambda>(s, cpu, bm). unat bm)")
    (auto intro!: unat_clear_bit dest: clz32_top_bit(2))

declare top_search.simps [simp del]

definition get_top_thread ::
    "cpu_num \<Rightarrow> int \<Rightarrow> bool \<Rightarrow> kstate \<Rightarrow> (tid option \<times> kstate) res" where
  "get_top_thread here cpu unlink s =
     (case top_search s cpu (run_queue_bitmap s) of
        Some newthread \<Rightarrow>
          (if unlink then bindE (delete_from_run_queue here newthread s) (\<lambda>s1. Inr (Some newthread, s1))
           else Inr (Some newthread, s))
      | None \<Rightarrow> if cpu < 0 then Inr (None, s) else Inr (Some (idle_threads s (nat cpu)), s))"

text \<open>The cpu with the lowest priority among the active ones.\<close>

definition best_cpu_scan :: "kstate \<Rightarrow> nat \<times> int" where
  "best_cpu_scan s =
     fold (\<lambda>i (best_cpu, best_cpu_priority).
             if \<not> mp_is_cpu_active i s then (best_cpu, best_cpu_priority)
             else if cpu_priority s i < best_cpu_priority then (i, cpu_priority s i)
             else (best_cpu, best_cpu_priority))
       [0..<smp_max_cpus s] (0xFFFFFFFF, 0x7FFFFFFF)"

definition thread_cond_mp_reschedule :: "cpu_num \<Rightarrow> tid \<Rightarrow> kstate \<Rightarrow> kstate res" where
  "thread_cond_mp_reschedule cpu current_thread s =
     bindE (get_top_thread cpu (- 1) False s)
      (\<lambda>(t, s1). guardE ''thread lock held'' (thread_lock_held cpu s1)
        (let (best_cpu, best_cpu_priority) = best_cpu_scan s1
         in case t of
              None \<Rightarrow> Inr s1
            | Some t1 \<Rightarrow>
                if priority (threads s1 t1) \<le> best_cpu_priority then Inr s1
                else Inr (mp_reschedule cpu (bit32 best_cpu) 0
                  (s1\<lparr>cpu_priority := (cpu_priority s1)(best_cpu := priority (threads s1 t1))\<rparr>))))"

section \<open>The preemption timer\<close>

definition timer_cancel_preempt :: "cpu_num \<Rightarrow> kstate \<Rightarrow> kstate res" where
  "timer_cancel_preempt cpu s =
     bindE (timer_cancel_etc (smp_max_cpus s) cpu (clock s) True (Preempt_timer cpu) False (timers s))
       (\<lambda>r. case r of Cancelled ts \<Rightarrow> Inr (s\<lparr>timers := ts\<rparr>) | Wait_again \<Rightarrow> Inr s)"

definition start_preempt_timer :: "cpu_num \<Rightarrow> kstate \<Rightarrow> kstate res" where
  "start_preempt_timer cpu s =
     bindE (timer_set_periodic_ns (smp_max_cpus s) cpu (clock s) (Preempt_timer cpu) (MS2NS 10)
              thread_timer_callback_cb 0 (timers s))
       (\<lambda>ts. Inr (s\<lparr>timers := ts\<rparr>))"

section \<open>Rescheduling\<close>

text \<open>The part of \<^verbatim>\<open>thread_resched\<close> for a new thread that is not the old one: quantum, cpu
  ownership, cpu masks, preemption timer, and the switch itself.\<close>

definition switch_timers :: "cpu_num \<Rightarrow> tid \<Rightarrow> tid \<Rightarrow> kstate \<Rightarrow> kstate res" where
  "switch_timers cpu oldthread newthread s =
     (if thread_is_real_time_or_idle (threads s newthread) then
        bindE (thread_cond_mp_reschedule cpu newthread s)
          (\<lambda>s1. if \<not> thread_is_real_time_or_idle (threads s1 oldthread)
                then timer_cancel_preempt cpu s1 else Inr s1)
      else if thread_is_real_time_or_idle (threads s oldthread) then start_preempt_timer cpu s
      else Inr s)"

definition switch_masks :: "cpu_num \<Rightarrow> tid \<Rightarrow> kstate \<Rightarrow> kstate" where
  "switch_masks cpu newthread s =
     (let s1 = (if thread_is_idle (threads s newthread) then mp_set_cpu_idle cpu s
                else mp_set_cpu_busy cpu s)
      in if thread_is_realtime (threads s1 newthread) then mp_set_cpu_realtime cpu s1
         else mp_set_cpu_non_realtime cpu s1)"

definition switch_to :: "cpu_num \<Rightarrow> tid \<Rightarrow> tid \<Rightarrow> kstate \<Rightarrow> kstate res" where
  "switch_to cpu oldthread newthread s =
     (let s1 = (if remaining_quantum (threads s newthread) \<le> 0
                then upd_thread newthread (\<lambda>th. th\<lparr>remaining_quantum := 5\<rparr>) s else s);
          s2 = upd_thread oldthread (\<lambda>th. th\<lparr>curr_cpu := - 1\<rparr>) s1;
          s3 = upd_thread newthread (\<lambda>th. th\<lparr>curr_cpu := int cpu\<rparr>) s2;
          s4 = switch_masks cpu newthread s3
      in bindE (switch_timers cpu oldthread newthread s4)
          (\<lambda>s5. let s6 = s5\<lparr>cpu_priority := (cpu_priority s5)(cpu := priority (threads s5 newthread)),
                            current := (current s5)(cpu := newthread)\<rparr>
                in bindE (thread_check_cookie newthread s6)
                    (\<lambda>_. Inr (if aspace (threads s6 newthread) \<noteq> aspace (threads s6 oldthread)
                              then s6\<lparr>mmu_aspace := (mmu_aspace s6)(cpu := aspace (threads s6 newthread))\<rparr>
                              else s6))))"

definition thread_resched :: "cpu_num \<Rightarrow> kstate \<Rightarrow> kstate res" where
  "thread_resched cpu s =
     (let current_thread = current s cpu
      in guardE ''thread lock held'' (thread_lock_held cpu s)
        (guardE ''current not running'' (state (threads s current_thread) \<noteq> THREAD_RUNNING)
          (bindE (thread_check_cookie current_thread s)
            (\<lambda>_. bindE (get_top_thread cpu (int cpu) True s)
              (\<lambda>(next, s1). case next of None \<Rightarrow> Inl (Assertion_failed ''newthread'')
                | Some newthread \<Rightarrow>
                  bindE (thread_pinned_cond_mp_reschedule cpu newthread current_thread s1)
                   (\<lambda>s2. let s3 = upd_thread newthread (\<lambda>th. th\<lparr>state := THREAD_RUNNING\<rparr>) s2
                         in if newthread = current_thread then
                              Inr (if cpu_priority s3 cpu \<noteq> priority (threads s3 current_thread)
                                   then s3\<lparr>cpu_priority := (cpu_priority s3)
                                             (cpu := priority (threads s3 newthread))\<rparr> else s3)
                            else switch_to cpu current_thread newthread s3))))))"


section \<open>What the search finds\<close>

lemma top_search_Some:
  "top_search s cpu bm = Some t \<Longrightarrow>
     \<exists>p ys zs. bit bm p \<and> run_queue s p = ys @ t # zs \<and> can_run_on s cpu t \<and>
       (\<forall>y \<in> set ys. \<not> can_run_on s cpu y) \<and>
       (\<forall>q x. p < q \<longrightarrow> bit bm q \<longrightarrow> x \<in> set (run_queue s q) \<longrightarrow> \<not> can_run_on s cpu x)"
proof (induction s cpu bm rule: top_search.induct)
  case (1 s cpu bm)
  from "1.prems" have nz: "bm \<noteq> 0" by (auto simp: top_search.simps [of s cpu bm])
  define q where "q = 32 - 1 - clz32 bm"
  have top: "bit bm q" "\<And>r. bit bm r \<Longrightarrow> r \<le> q"
    using clz32_top_bit [OF nz] by (simp_all add: q_def)
  show ?case
  proof (cases "List.find (can_run_on s cpu) (run_queue s q)")
    case (Some u)
    with "1.prems" nz have "u = t" by (simp add: top_search.simps [of s cpu bm] q_def)
    with find_first_split [OF Some] top show ?thesis by (meson leD)
  next
    case None
    then have none: "\<forall>x \<in> set (run_queue s q). \<not> can_run_on s cpu x"
      by (simp add: find_None_iff)
    from None "1.prems" nz have "top_search s cpu (bm AND NOT (bit32 q)) = Some t"
      by (simp add: top_search.simps [of s cpu bm] q_def)
    from "1.IH" [OF nz q_def None this] obtain p ys zs where
      p: "bit bm p" "p \<noteq> q" "run_queue s p = ys @ t # zs" "can_run_on s cpu t"
        "\<forall>y \<in> set ys. \<not> can_run_on s cpu y"
        "\<forall>r x. p < r \<longrightarrow> bit bm r \<and> r \<noteq> q \<longrightarrow> x \<in> set (run_queue s r) \<longrightarrow> \<not> can_run_on s cpu x"
      by (auto simp: bit_and_not_bit32)
    with none show ?thesis by metis
  qed
qed

lemma top_search_None:
  "top_search s cpu bm = None \<Longrightarrow> bit bm q \<Longrightarrow> x \<in> set (run_queue s q) \<Longrightarrow> \<not> can_run_on s cpu x"
proof (induction s cpu bm rule: top_search.induct)
  case (1 s cpu bm)
  from "1.prems"(2) have nz: "bm \<noteq> 0" by auto
  define p where "p = 32 - 1 - clz32 bm"
  from "1.prems"(1) nz have f: "List.find (can_run_on s cpu) (run_queue s p) = None"
    and rest: "top_search s cpu (bm AND NOT (bit32 p)) = None"
    by (auto simp: top_search.simps [of s cpu bm] Let_def p_def split: option.splits)
  show ?case
  proof (cases "q = p")
    case True
    with f "1.prems"(3) show ?thesis by (auto simp: find_None_iff)
  next
    case False
    with "1.prems"(2) have "bit (bm AND NOT (bit32 p)) q" by (simp add: bit_and_not_bit32)
    with "1.IH" [OF nz p_def f rest] "1.prems"(3) show ?thesis by simp
  qed
qed

lemma top_search_cong:
  "\<lbrakk> \<And>t. pinned_cpu (threads s' t) = pinned_cpu (threads s t); run_queue s' = run_queue s \<rbrakk> \<Longrightarrow>
     top_search s' cpu bm = top_search s cpu bm"
proof (induction s cpu bm rule: top_search.induct)
  case (1 s cpu bm)
  have c: "can_run_on s' cpu = can_run_on s cpu"
    using "1.prems"(1) by (simp add: can_run_on_def fun_eq_iff)
  show ?case
  proof (cases "bm = 0")
    case True
    then show ?thesis by (simp add: top_search.simps)
  next
    case False
    note IH = "1.IH" [OF False refl]
    show ?thesis
      using IH "1.prems" False
      by (subst top_search.simps, subst (2) top_search.simps)
        (auto simp: c Let_def split: option.splits)
  qed
qed

end
