(* ===== verification/Sched_Invariant.thy ===== *)
theory Sched_Invariant
  imports Scheduler
begin

text \<open>
  The invariant of the scheduler's data: run queues and bitmap, wait queues, thread states,
  per-cpu data and preemption timers agree with each other. The primitives that change them
  keep it and no assertion of theirs fails.

  Inside a critical section some threads are on their way between states: \<open>X\<close> is the set of
  threads whose state need not match a queue yet, \<open>Y\<close> the set of cpus whose current thread
  need not be running (it has given up the cpu and the reschedule is still to come).
\<close>

section \<open>The invariant\<close>

text \<open>A cpu that takes part in scheduling.\<close>

definition up :: "kstate \<Rightarrow> cpu_num \<Rightarrow> bool" where
  "up s c \<longleftrightarrow> c < smp_max_cpus s \<and> bit (active_cpus s) c"

definition rq_inv :: "kstate \<Rightarrow> bool" where
  "rq_inv s \<longleftrightarrow>
     (\<forall>p. distinct (run_queue s p)) \<and>
     (\<forall>t p. t \<in> set (run_queue s p) \<longleftrightarrow> queue_node (threads s t) = In_run_queue p) \<and>
     (\<forall>p. p < NUM_PRIORITIES \<longrightarrow> (bit (run_queue_bitmap s) p \<longleftrightarrow> run_queue s p \<noteq> []))"

definition wq_inv :: "kstate \<Rightarrow> bool" where
  "wq_inv s \<longleftrightarrow>
     (\<forall>w. distinct (wq_list (wait_queues s w)) \<and>
          wq_count (wait_queues s w) = int (length (wq_list (wait_queues s w)))) \<and>
     (\<forall>t w. t \<in> set (wq_list (wait_queues s w)) \<longleftrightarrow> queue_node (threads s t) = In_wait_queue w) \<and>
     (\<forall>w. wq_list (wait_queues s w) \<noteq> [] \<longrightarrow> wq_magic (wait_queues s w) = WAIT_QUEUE_MAGIC)"

text \<open>A thread in a queue has the state that goes with it.\<close>

definition queued_ok :: "kstate \<Rightarrow> tid \<Rightarrow> bool" where
  "queued_ok s t \<longleftrightarrow> (case queue_node (threads s t) of
       Not_queued \<Rightarrow> True
     | In_run_queue p \<Rightarrow>
         t \<in> set (thread_list s) \<and> state (threads s t) = THREAD_READY \<and>
         priority (threads s t) = int p \<and> \<not> thread_is_idle (threads s t)
     | In_wait_queue w \<Rightarrow>
         t \<in> set (thread_list s) \<and> state (threads s t) = THREAD_BLOCKED \<and>
         blocking_wait_queue (threads s t) = Some w \<and> \<not> thread_is_idle (threads s t))"

definition queued_inv :: "kstate \<Rightarrow> bool" where
  "queued_inv s \<longleftrightarrow> (\<forall>t. queued_ok s t)"

definition thread_ok :: "kstate \<Rightarrow> tid \<Rightarrow> bool" where
  "thread_ok s t \<longleftrightarrow>
     magic (threads s t) = THREAD_MAGIC \<and>
     cookie (threads s t) = thread_get_expected_cookie t s \<and>
     0 \<le> priority (threads s t) \<and> priority (threads s t) \<le> HIGHEST_PRIORITY \<and>
     - 1 \<le> pinned_cpu (threads s t) \<and> pinned_cpu (threads s t) < int (smp_max_cpus s) \<and>
     (thread_is_idle (threads s t) \<longrightarrow> (\<exists>c. up s c \<and> t = idle_threads s c)) \<and>
     (state (threads s t) = THREAD_RUNNING \<longrightarrow> (\<exists>c. up s c \<and> current s c = t)) \<and>
     (curr_cpu (threads s t) \<noteq> - 1 \<longrightarrow> (\<exists>c. up s c \<and> current s c = t \<and> curr_cpu (threads s t) = int c))"

definition settled :: "kstate \<Rightarrow> tid \<Rightarrow> bool" where
  "settled s t \<longleftrightarrow>
     (state (threads s t) = THREAD_READY \<and> \<not> thread_is_idle (threads s t) \<longrightarrow>
        queue_node (threads s t) \<noteq> Not_queued) \<and>
     (state (threads s t) = THREAD_BLOCKED \<longrightarrow> queue_node (threads s t) \<noteq> Not_queued)"

text \<open>The threads that exist: those in the thread list, and the detached ones that have exited and
  wait for the reaper.\<close>

definition known :: "kstate \<Rightarrow> tid set" where
  "known s = set (thread_list s) \<union> set (dead_threads s)"

definition threads_inv :: "tid set \<Rightarrow> kstate \<Rightarrow> bool" where
  "threads_inv X s \<longleftrightarrow> distinct (thread_list s @ dead_threads s) \<and>
     (\<forall>t \<in> set (dead_threads s). state (threads s t) = THREAD_DEATH) \<and>
     (\<forall>t \<in> known s. thread_ok s t \<and> (t \<notin> X \<longrightarrow> settled s t))"

definition preempt_ok :: "kstate \<Rightarrow> cpu_num \<Rightarrow> bool" where
  "preempt_ok s c \<longleftrightarrow>
     (let tm = timer_of (timers s) (Preempt_timer c)
      in tmagic tm = TIMER_MAGIC \<and>
         (if thread_is_real_time_or_idle (threads s (current s c))
          then node tm = None \<and> (running tm \<longrightarrow> tcpu tm = of_nat c)
          else tcpu tm = of_nat c))"

definition cpu_ok :: "kstate \<Rightarrow> cpu_num \<Rightarrow> bool" where
  "cpu_ok s c \<longleftrightarrow>
     current s c \<in> known s \<and> curr_cpu (threads s (current s c)) = int c \<and>
     (thread_is_idle (threads s (current s c)) \<longrightarrow> current s c = idle_threads s c) \<and>
     idle_threads s c \<in> set (thread_list s) \<and> thread_is_idle (threads s (idle_threads s c)) \<and>
     pinned_cpu (threads s (idle_threads s c)) = int c \<and>
     preempt_ok s c"

definition cpus_inv :: "cpu_num set \<Rightarrow> kstate \<Rightarrow> bool" where
  "cpus_inv Y s \<longleftrightarrow> smp_max_cpus s \<le> 32 \<and> linked (timers s) \<and>
     (\<forall>c. up s c \<longrightarrow> cpu_ok s c \<and> (c \<notin> Y \<longrightarrow> state (threads s (current s c)) = THREAD_RUNNING))"

definition sched_inv_at :: "tid set \<Rightarrow> cpu_num set \<Rightarrow> kstate \<Rightarrow> bool" where
  "sched_inv_at X Y s \<longleftrightarrow> rq_inv s \<and> wq_inv s \<and> queued_inv s \<and> threads_inv X s \<and> cpus_inv Y s"

abbreviation sched_inv :: "kstate \<Rightarrow> bool" where
  "sched_inv \<equiv> sched_inv_at {} {}"

lemmas sched_inv_defs = sched_inv_at_def rq_inv_def wq_inv_def queued_inv_def threads_inv_def
  cpus_inv_def

text \<open>The lock is free or held by a given cpu.\<close>

definition lock_free :: "kstate \<Rightarrow> bool" where
  "lock_free s \<longleftrightarrow> thread_lock_owner s = smp_max_cpus s"

section \<open>Consequences\<close>

lemma sched_inv_mono: "sched_inv_at X Y s \<Longrightarrow> X \<subseteq> X' \<Longrightarrow> Y \<subseteq> Y' \<Longrightarrow> sched_inv_at X' Y' s"
  by (auto simp: sched_inv_at_def threads_inv_def cpus_inv_def)

lemma run_queue_member:
  assumes "sched_inv_at X Y s" "t \<in> set (run_queue s p)"
  shows "state (threads s t) = THREAD_READY" "priority (threads s t) = int p" "p < NUM_PRIORITIES"
    "t \<in> set (thread_list s)" "\<not> thread_is_idle (threads s t)"
    "queue_node (threads s t) = In_run_queue p"
proof -
  from assms show n: "queue_node (threads s t) = In_run_queue p" by (simp add: sched_inv_defs)
  from assms have "queued_ok s t" by (simp add: sched_inv_defs)
  with n show *: "state (threads s t) = THREAD_READY" "priority (threads s t) = int p"
    "t \<in> set (thread_list s)" "\<not> thread_is_idle (threads s t)"
    by (simp_all add: queued_ok_def)
  from assms(1) *(3) have "thread_ok s t" by (simp add: sched_inv_defs known_def)
  with *(2) show "p < NUM_PRIORITIES" by (simp add: thread_ok_def)
qed

lemma wait_queue_member:
  assumes "sched_inv_at X Y s" "t \<in> set (wq_list (wait_queues s w))"
  shows "state (threads s t) = THREAD_BLOCKED" "blocking_wait_queue (threads s t) = Some w"
    "t \<in> set (thread_list s)" "\<not> thread_is_idle (threads s t)"
    "queue_node (threads s t) = In_wait_queue w"
    "wq_magic (wait_queues s w) = WAIT_QUEUE_MAGIC"
proof -
  from assms show n: "queue_node (threads s t) = In_wait_queue w" by (simp add: sched_inv_defs)
  from assms(2) have "wq_list (wait_queues s w) \<noteq> []" by auto
  with assms(1) show "wq_magic (wait_queues s w) = WAIT_QUEUE_MAGIC"
    by (simp add: sched_inv_at_def wq_inv_def)
  from assms(1) have "queued_ok s t" by (simp add: sched_inv_defs)
  with n show "state (threads s t) = THREAD_BLOCKED" "blocking_wait_queue (threads s t) = Some w"
    "t \<in> set (thread_list s)" "\<not> thread_is_idle (threads s t)"
    by (simp_all add: queued_ok_def)
qed

lemma thread_okK: "sched_inv_at X Y s \<Longrightarrow> t \<in> known s \<Longrightarrow> thread_ok s t"
  by (simp add: sched_inv_at_def threads_inv_def)

lemma thread_okD: "sched_inv_at X Y s \<Longrightarrow> t \<in> set (thread_list s) \<Longrightarrow> thread_ok s t"
  by (simp add: sched_inv_at_def threads_inv_def known_def)

lemma not_dead: "sched_inv_at X Y s \<Longrightarrow> t \<in> set (thread_list s) \<Longrightarrow> t \<notin> set (dead_threads s)"
  by (auto simp: sched_inv_at_def threads_inv_def)

lemma known_frames [simp]:
  "known (upd_thread t f s) = known s" "known (upd_wq w g s) = known s"
  "known (s\<lparr>run_queue := rq\<rparr>) = known s" "known (s\<lparr>run_queue_bitmap := m\<rparr>) = known s"
  "known (s\<lparr>timers := tm\<rparr>) = known s" "known (s\<lparr>thread_lock_owner := n\<rparr>) = known s"
  by (simp_all add: known_def)

lemma cpu_okD: "sched_inv_at X Y s \<Longrightarrow> up s c \<Longrightarrow> cpu_ok s c"
  by (simp add: sched_inv_at_def cpus_inv_def)

lemma current_known: "sched_inv_at X Y s \<Longrightarrow> up s c \<Longrightarrow> current s c \<in> known s"
  by (auto dest: cpu_okD simp: cpu_ok_def)

lemma current_in_list:
  assumes "sched_inv_at X Y s" "up s c" "c \<notin> Y"
  shows "current s c \<in> set (thread_list s)"
proof -
  from assms have "state (threads s (current s c)) = THREAD_RUNNING" by (simp add: sched_inv_at_def cpus_inv_def)
  with assms(1) have "current s c \<notin> set (dead_threads s)" by (auto simp: sched_inv_at_def threads_inv_def)
  with current_known [OF assms(1,2)] show ?thesis by (simp add: known_def)
qed

text \<open>One thread runs on at most one cpu.\<close>

lemma current_inj:
  assumes "sched_inv_at X Y s" "up s c" "up s d" "current s c = current s d"
  shows "c = d"
  using cpu_okD [OF assms(1,2)] cpu_okD [OF assms(1,3)] assms(4) by (simp add: cpu_ok_def)

lemma idle_thread_inj:
  assumes "sched_inv_at X Y s" "up s c" "up s d" "idle_threads s c = idle_threads s d"
  shows "c = d"
  using cpu_okD [OF assms(1,2)] cpu_okD [OF assms(1,3)] assms(4) by (simp add: cpu_ok_def)

lemma thread_check_cookie_ok [simp]: "thread_ok s t \<Longrightarrow> thread_check_cookie t s = Inr ()"
  by (simp add: thread_check_cookie_def thread_ok_def)

text \<open>Fields the invariant does not mention.\<close>

lemma sched_inv_cong:
  assumes "threads s' = threads s" "thread_list s' = thread_list s" "run_queue s' = run_queue s"
    "run_queue_bitmap s' = run_queue_bitmap s" "idle_threads s' = idle_threads s"
    "wait_queues s' = wait_queues s" "current s' = current s" "active_cpus s' = active_cpus s"
    "timers s' = timers s" "smp_max_cpus s' = smp_max_cpus s" "dead_threads s' = dead_threads s"
  shows "sched_inv_at X Y s' = sched_inv_at X Y s"
  by (simp only: sched_inv_defs known_def thread_ok_def settled_def cpu_ok_def preempt_ok_def up_def
      queued_ok_def thread_get_expected_cookie_def assms)

lemma sched_inv_frame [simp]:
  "sched_inv_at X Y (s\<lparr>cpu_priority := a\<rparr>) = sched_inv_at X Y s"
  "sched_inv_at X Y (s\<lparr>ipi_log := b\<rparr>) = sched_inv_at X Y s"
  "sched_inv_at X Y (s\<lparr>idle_cpus := m\<rparr>) = sched_inv_at X Y s"
  "sched_inv_at X Y (s\<lparr>realtime_cpus := m\<rparr>) = sched_inv_at X Y s"
  "sched_inv_at X Y (s\<lparr>mmu_aspace := e\<rparr>) = sched_inv_at X Y s"
  "sched_inv_at X Y (s\<lparr>thread_lock_owner := n\<rparr>) = sched_inv_at X Y s"
  "sched_inv_at X Y (s\<lparr>clock := k\<rparr>) = sched_inv_at X Y s"
  by (rule sched_inv_cong; simp)+

text \<open>Nor does it mention the other fields of a thread.\<close>

definition same_sched :: "thread \<Rightarrow> thread \<Rightarrow> bool" where
  "same_sched th th' \<longleftrightarrow> magic th' = magic th \<and> cookie th' = cookie th \<and>
     thread_is_idle th' = thread_is_idle th \<and>
     thread_is_real_time_or_idle th' = thread_is_real_time_or_idle th \<and>
     queue_node th' = queue_node th \<and> curr_cpu th' = curr_cpu th \<and> state th' = state th \<and>
     priority th' = priority th \<and> pinned_cpu th' = pinned_cpu th \<and>
     blocking_wait_queue th' = blocking_wait_queue th"

lemmas same_sched_simps = same_sched_def thread_is_idle_def thread_is_real_time_or_idle_def

lemma sched_inv_same:
  assumes "\<And>u. same_sched (threads s u) (f u)"
  shows "sched_inv_at X Y (s\<lparr>threads := f\<rparr>) = sched_inv_at X Y s"
proof -
  let ?s = "s\<lparr>threads := f\<rparr>"
  have f: "queue_node (f u) = queue_node (threads s u)" "state (f u) = state (threads s u)"
    "curr_cpu (f u) = curr_cpu (threads s u)" "magic (f u) = magic (threads s u)"
    "cookie (f u) = cookie (threads s u)" "priority (f u) = priority (threads s u)"
    "blocking_wait_queue (f u) = blocking_wait_queue (threads s u)"
    "pinned_cpu (f u) = pinned_cpu (threads s u)" "thread_is_idle (f u) = thread_is_idle (threads s u)"
    "thread_is_real_time_or_idle (f u) = thread_is_real_time_or_idle (threads s u)" for u
    using assms [of u] by (simp_all add: same_sched_def)
  have "up ?s = up s" "known ?s = known s" by (simp_all add: fun_eq_iff up_def known_def)
  moreover from this have "thread_ok ?s = thread_ok s" "settled ?s = settled s" "queued_ok ?s = queued_ok s"
    "cpu_ok ?s = cpu_ok s"
    by (simp_all add: fun_eq_iff thread_ok_def settled_def queued_ok_def cpu_ok_def preempt_ok_def f
        thread_get_expected_cookie_def cong: queue_link.case_cong)
  ultimately show ?thesis
    unfolding sched_inv_at_def rq_inv_def wq_inv_def queued_inv_def threads_inv_def cpus_inv_def
    by (simp add: f)
qed

lemma sched_inv_upd_same:
  "same_sched (threads s t) (f (threads s t)) \<Longrightarrow> sched_inv_at X Y (upd_thread t f s) = sched_inv_at X Y s"
  unfolding upd_thread_def by (rule sched_inv_same) (simp add: same_sched_def)

lemma idle_is_real_time_or_idle: "thread_is_idle th \<Longrightarrow> thread_is_real_time_or_idle th"
  unfolding thread_is_idle_def thread_is_real_time_or_idle_def word32_eq_0_iff
  by (auto simp: bit_and_iff bit_or_iff intro!: exI [of _ 4])

section \<open>Moves of one thread\<close>

lemma expected_cookie_upd [simp]:
  "cookie (f (threads s u)) = cookie (threads s u) \<Longrightarrow>
     thread_get_expected_cookie t (upd_thread u f s) = thread_get_expected_cookie t s"
  by (simp add: thread_get_expected_cookie_def)

lemma up_upd_thread [simp]: "up (upd_thread t f s) c = up s c"
  by (simp add: up_def)

lemma up_upd_wq [simp]: "up (upd_wq w g s) c = up s c"
  by (simp add: up_def)

text \<open>A change of a thread that is in no queue, which leaves its identity alone.\<close>

definition keeps_identity :: "(thread \<Rightarrow> thread) \<Rightarrow> thread \<Rightarrow> bool" where
  "keeps_identity f th \<longleftrightarrow>
     magic (f th) = magic th \<and> cookie (f th) = cookie th \<and> flags (f th) = flags th \<and>
     queue_node (f th) = queue_node th \<and> curr_cpu (f th) = curr_cpu th"

definition in_range :: "kstate \<Rightarrow> thread \<Rightarrow> bool" where
  "in_range s th \<longleftrightarrow>
     0 \<le> priority th \<and> priority th \<le> HIGHEST_PRIORITY \<and>
     - 1 \<le> pinned_cpu th \<and> pinned_cpu th < int (smp_max_cpus s)"

lemma keeps_identity_idle [simp]:
  "keeps_identity f th \<Longrightarrow> thread_is_idle (f th) = thread_is_idle th"
  "keeps_identity f th \<Longrightarrow> thread_is_real_time_or_idle (f th) = thread_is_real_time_or_idle th"
  by (simp_all add: keeps_identity_def thread_is_idle_def thread_is_real_time_or_idle_def)

lemma sched_inv_upd_thread:
  assumes inv: "sched_inv_at X Y s" and k: "keeps_identity f (threads s t)"
    and n: "queue_node (threads s t) = Not_queued" and r: "in_range s (f (threads s t))"
    and nd: "t \<notin> set (dead_threads s)"
    and idle: "\<And>c. up s c \<Longrightarrow> idle_threads s c = t \<Longrightarrow>
        pinned_cpu (f (threads s t)) = pinned_cpu (threads s t)"
    and run: "state (f (threads s t)) = THREAD_RUNNING \<Longrightarrow> \<exists>c. up s c \<and> current s c = t"
    and X': "X \<subseteq> X'" "t \<in> X' \<or> settled (upd_thread t f s) t" and Y': "Y \<subseteq> Y'"
    and cur: "\<And>c. up s c \<Longrightarrow> current s c = t \<Longrightarrow> c \<in> Y' \<or> state (f (threads s t)) = THREAD_RUNNING"
  shows "sched_inv_at X' Y' (upd_thread t f s)"
proof -
  let ?s = "upd_thread t f s"
  note k' = k [unfolded keeps_identity_def]
  have i: "thread_is_idle (threads ?s u) = thread_is_idle (threads s u)"
    "thread_is_real_time_or_idle (threads ?s u) = thread_is_real_time_or_idle (threads s u)"
    "curr_cpu (threads ?s u) = curr_cpu (threads s u)" "magic (threads ?s u) = magic (threads s u)"
    "cookie (threads ?s u) = cookie (threads s u)"
    "queue_node (threads ?s u) = queue_node (threads s u)" for u
    using k k' by auto
  have "rq_inv ?s" "wq_inv ?s" using inv i(6)
    unfolding sched_inv_at_def rq_inv_def wq_inv_def by auto
  moreover have "queued_ok ?s u" for u
  proof (cases "u = t")
    case True
    with n i(6) show ?thesis by (simp add: queued_ok_def del: upd_thread_simps(1))
  next
    case False
    from inv have "queued_ok s u" by (simp add: sched_inv_at_def queued_inv_def)
    with False show ?thesis by (auto simp: queued_ok_def split: queue_link.splits)
  qed
  moreover have "thread_ok ?s u \<and> (u \<notin> X' \<longrightarrow> settled ?s u)" if "u \<in> known s" for u
  proof (cases "u = t")
    case True
    with inv that have "thread_ok s t" by (blast dest: thread_okK)
    with True X'(2) r run k k' show ?thesis
      by (auto simp: thread_ok_def in_range_def keeps_identity_def)
  next
    case False
    from inv that have "thread_ok s u" by (blast dest: thread_okK)
    with False k' have "thread_ok ?s u" by (simp add: thread_ok_def)
    moreover from inv that X'(1) have "u \<notin> X' \<longrightarrow> settled s u"
      by (auto simp: sched_inv_at_def threads_inv_def)
    ultimately show ?thesis using False by (simp add: settled_def)
  qed
  moreover have "cpu_ok ?s c" if "up s c" for c
  proof -
    have "pinned_cpu (threads ?s (idle_threads s c)) = pinned_cpu (threads s (idle_threads s c))"
      using idle [OF that] by simp
    moreover have "cpu_ok s c" by (rule cpu_okD [OF inv that])
    ultimately show ?thesis
      unfolding cpu_ok_def preempt_ok_def using i by simp
  qed
  moreover have "state (threads ?s (current s c)) = THREAD_RUNNING" if "up s c" "c \<notin> Y'" for c
    using cur [OF that(1)] that inv Y' by (auto simp: sched_inv_at_def cpus_inv_def)
  moreover have "\<forall>u \<in> set (dead_threads s). state (threads ?s u) = THREAD_DEATH"
    using inv nd by (auto simp: sched_inv_at_def threads_inv_def)
  ultimately show ?thesis using inv
    unfolding sched_inv_at_def queued_inv_def threads_inv_def cpus_inv_def by (simp, blast)
qed

lemma sched_inv_settle:
  "sched_inv_at X Y s \<Longrightarrow> settled s t \<Longrightarrow> sched_inv_at (X - {t}) Y s"
  by (auto simp: sched_inv_at_def threads_inv_def)

lemma sched_inv_running:
  "sched_inv_at X Y s \<Longrightarrow> (up s c \<Longrightarrow> state (threads s (current s c)) = THREAD_RUNNING) \<Longrightarrow>
     sched_inv_at X (Y - {c}) s"
  by (auto simp: sched_inv_at_def cpus_inv_def)

text \<open>Entering and leaving a queue. Only the link of the thread and the queue change.\<close>

lemma thread_ok_link [simp]:
  "thread_ok (upd_thread t (\<lambda>th. th\<lparr>queue_node := q\<rparr>) s) u = thread_ok s u"
  by (simp add: thread_ok_def thread_is_idle_def)

lemma cpu_ok_link [simp]:
  "cpu_ok (upd_thread t (\<lambda>th. th\<lparr>queue_node := q\<rparr>) s) c = cpu_ok s c"
  by (simp add: cpu_ok_def preempt_ok_def thread_is_idle_def thread_is_real_time_or_idle_def)

lemma sched_parts_queues [simp]:
  "up (s\<lparr>run_queue := q\<rparr>) = up s" "up (s\<lparr>run_queue_bitmap := m\<rparr>) = up s"
  "thread_ok (s\<lparr>run_queue := q\<rparr>) = thread_ok s" "thread_ok (s\<lparr>run_queue_bitmap := m\<rparr>) = thread_ok s"
  "settled (s\<lparr>run_queue := q\<rparr>) = settled s" "settled (s\<lparr>run_queue_bitmap := m\<rparr>) = settled s"
  "cpu_ok (s\<lparr>run_queue := q\<rparr>) = cpu_ok s" "cpu_ok (s\<lparr>run_queue_bitmap := m\<rparr>) = cpu_ok s"
  "queued_ok (s\<lparr>run_queue := q\<rparr>) = queued_ok s" "queued_ok (s\<lparr>run_queue_bitmap := m\<rparr>) = queued_ok s"
  "thread_ok (upd_wq w g s) = thread_ok s" "settled (upd_wq w g s) = settled s"
  "cpu_ok (upd_wq w g s) = cpu_ok s" "queued_ok (upd_wq w g s) = queued_ok s"
  by (simp_all add: fun_eq_iff up_def thread_ok_def settled_def cpu_ok_def preempt_ok_def queued_ok_def
      thread_get_expected_cookie_def cong: queue_link.case_cong)

lemma thread_is_link [simp]:
  "thread_is_idle (th\<lparr>queue_node := q\<rparr>) = thread_is_idle th"
  "thread_is_idle (th\<lparr>state := st\<rparr>) = thread_is_idle th"
  by (simp_all add: thread_is_idle_def)

lemma sched_inv_enqueue:
  assumes inv: "sched_inv_at X Y s" and t: "t \<in> set (thread_list s)"
    and r: "state (threads s t) = THREAD_READY" and n: "queue_node (threads s t) = Not_queued"
    and i: "\<not> thread_is_idle (threads s t)" and p: "p = prio_index t s"
    and q: "distinct q" "set q = insert t (set (run_queue s p))"
  shows "sched_inv_at (X - {t}) Y (upd_thread t (\<lambda>th. th\<lparr>queue_node := In_run_queue p\<rparr>)
           (s\<lparr>run_queue := (run_queue s)(p := q), run_queue_bitmap := run_queue_bitmap s OR bit32 p\<rparr>))"
    (is "sched_inv_at _ _ ?s")
proof -
  from thread_okD [OF inv t] have p': "priority (threads s t) = int p" "p < 32"
    by (auto simp: thread_ok_def p prio_index_def)
  from inv have rq: "rq_inv s" "wq_inv s" "queued_inv s" by (simp_all add: sched_inv_at_def)
  from q have "q \<noteq> []" by auto
  with rq(1) n q p' have "rq_inv ?s"
    by (auto simp: rq_inv_def bit_or_bit32)
  moreover from rq(2) n have "wq_inv ?s" by (auto simp: wq_inv_def)
  moreover have "queued_inv ?s"
    using rq(3) t r i p' by (auto simp: queued_inv_def queued_ok_def cong: queue_link.case_cong)
  ultimately show ?thesis using inv r
    by (auto simp: sched_inv_at_def threads_inv_def cpus_inv_def settled_def)
qed

lemma insert_in_run_queue_ok:
  assumes inv: "sched_inv_at X Y s" and t: "t \<in> set (thread_list s)"
    and r: "state (threads s t) = THREAD_READY" "queue_node (threads s t) = Not_queued"
    and i: "\<not> thread_is_idle (threads s t)" and l: "thread_lock_held cpu s"
  shows "okE (sched_inv_at (X - {t}) Y) (insert_in_run_queue_head cpu t s)"
    and "okE (sched_inv_at (X - {t}) Y) (insert_in_run_queue_tail cpu t s)"
proof -
  from inv r(2) have d: "distinct (run_queue s p)" "t \<notin> set (run_queue s p)" for p
    by (simp_all add: sched_inv_at_def rq_inv_def)
  note e = sched_inv_enqueue [OF inv t r i refl]
  from thread_okD [OF inv t] have "magic (threads s t) = THREAD_MAGIC" by (simp add: thread_ok_def)
  with r l d show "okE (sched_inv_at (X - {t}) Y) (insert_in_run_queue_head cpu t s)"
      "okE (sched_inv_at (X - {t}) Y) (insert_in_run_queue_tail cpu t s)"
    by (auto simp: insert_in_run_queue_head_def insert_in_run_queue_tail_def Let_def intro!: e)
qed

text \<open>Leaving the run queue: \<open>delete_from_run_queue\<close> keeps the bitmap exact.\<close>

lemma delete_from_run_queue_ok:
  assumes inv: "sched_inv_at X Y s" and m: "t \<in> set (run_queue s p)" and l: "thread_lock_held cpu s"
  shows "okE (\<lambda>s'. sched_inv_at (insert t X) Y s' \<and> queue_node (threads s' t) = Not_queued)
      (delete_from_run_queue cpu t s)"
proof -
  note t = run_queue_member [OF inv m]
  from inv have rq: "rq_inv s" "wq_inv s" "queued_inv s" by (simp_all add: sched_inv_at_def)
  from thread_okD [OF inv t(4)] have mg: "magic (threads s t) = THREAD_MAGIC" by (simp add: thread_ok_def)
  define s1 where "s1 = list_delete_queue_node t s"
  define s2 where "s2 = (if run_queue s1 p = []
      then s1\<lparr>run_queue_bitmap := run_queue_bitmap s1 AND NOT (bit32 p)\<rparr> else s1)"
  have s1: "s1 = upd_thread t (\<lambda>th. th\<lparr>queue_node := Not_queued\<rparr>)
      (s\<lparr>run_queue := (run_queue s)(p := remove1 t (run_queue s p))\<rparr>)"
    by (simp add: s1_def list_delete_queue_node_def t(6))
  have bits: "\<forall>q < 32. bit (run_queue_bitmap s2) q \<longleftrightarrow> run_queue s2 q \<noteq> []"
    using rq(1) m by (auto simp: rq_inv_def s2_def s1 bit_and_not_bit32)
  have rq2: "run_queue s2 = (run_queue s)(p := remove1 t (run_queue s p))"
    "threads s2 = (threads s)(t := (threads s t)\<lparr>queue_node := Not_queued\<rparr>)"
    "wait_queues s2 = wait_queues s"
    by (simp_all add: s2_def s1)
  have "rq_inv s2" unfolding rq_inv_def using bits rq(1) t(6)
    by (auto simp: rq2 rq_inv_def)
  moreover have "wq_inv s2" using rq(2) t(6) by (auto simp: wq_inv_def rq2)
  moreover have "queued_inv s2" using rq(3) by (auto simp: s2_def s1 queued_inv_def queued_ok_def
      cong: queue_link.case_cong)
  ultimately have "sched_inv_at (insert t X) Y s2" using inv
    by (auto simp: sched_inv_at_def threads_inv_def cpus_inv_def settled_def s2_def s1)
  moreover have "delete_from_run_queue cpu t s = Inr s2"
    using mg t(1,2,6) l by (simp add: delete_from_run_queue_def prio_index_def s2_def s1_def Let_def)
  ultimately show ?thesis using rq2(2) by simp
qed

end
