(* ===== verification/Resched.thy ===== *)
theory Resched
  imports Sched_Invariant
begin

text \<open>
  The reschedule routine keeps the invariant of the scheduler, trips no assertion, and picks the
  thread the scheduling policy calls for: the first thread of the highest non-empty priority
  that may run on the cpu, the cpu's idle thread only if there is none.
\<close>

section \<open>Inter-processor bookkeeping\<close>

text \<open>What the functions that may interrupt another cpu can change.\<close>

definition only_mp :: "kstate \<Rightarrow> kstate \<Rightarrow> bool" where
  "only_mp s s' \<longleftrightarrow> (\<exists>a b. s' = s\<lparr>cpu_priority := a, ipi_log := b\<rparr>)"

lemma only_mp_refl [simp]: "only_mp s s"
proof -
  have "s = s\<lparr>cpu_priority := cpu_priority s, ipi_log := ipi_log s\<rparr>" by simp
  then show ?thesis unfolding only_mp_def by blast
qed

lemma only_mp_trans: "only_mp s t \<Longrightarrow> only_mp t u \<Longrightarrow> only_mp s u"
proof -
  assume "only_mp s t" "only_mp t u"
  then obtain a b c d where "t = s\<lparr>cpu_priority := a, ipi_log := b\<rparr>"
      "u = t\<lparr>cpu_priority := c, ipi_log := d\<rparr>" unfolding only_mp_def by blast
  then have "u = s\<lparr>cpu_priority := c, ipi_log := d\<rparr>" by simp
  then show ?thesis unfolding only_mp_def by blast
qed

lemma only_mp_simps:
  assumes "only_mp s s'"
  shows "threads s' = threads s" "thread_list s' = thread_list s" "run_queue s' = run_queue s"
    "run_queue_bitmap s' = run_queue_bitmap s" "idle_threads s' = idle_threads s"
    "wait_queues s' = wait_queues s" "current s' = current s" "active_cpus s' = active_cpus s"
    "timers s' = timers s" "smp_max_cpus s' = smp_max_cpus s" "clock s' = clock s"
    "thread_lock_owner s' = thread_lock_owner s" "dead_threads s' = dead_threads s"
    "idle_cpus s' = idle_cpus s" "realtime_cpus s' = realtime_cpus s"
  using assms by (auto simp: only_mp_def)

lemma only_mp_inv: "only_mp s s' \<Longrightarrow> sched_inv_at X Y s' = sched_inv_at X Y s"
  by (auto simp: only_mp_def)

lemma mp_reschedule_only_mp [simp]: "only_mp s (mp_reschedule cpu target flgs s)"
proof -
  have "mp_reschedule cpu target flgs s =
      s\<lparr>cpu_priority := cpu_priority s, ipi_log := ipi_log (mp_reschedule cpu target flgs s)\<rparr>"
    by (simp add: mp_reschedule_def Let_def)
  then show ?thesis unfolding only_mp_def by blast
qed

lemma cpu_priority_only_mp [simp]: "only_mp s (s\<lparr>cpu_priority := a\<rparr>)"
proof -
  have "s\<lparr>cpu_priority := a\<rparr> = s\<lparr>cpu_priority := a, ipi_log := ipi_log s\<rparr>" by simp
  then show ?thesis unfolding only_mp_def by blast
qed

lemma mp_reschedule_after [simp]: "only_mp s s1 \<Longrightarrow> only_mp s (mp_reschedule cpu target flgs s1)"
  by (erule only_mp_trans) simp

lemma thread_get_mp_reschedule_target_ok:
  "in_range s (threads s t) \<Longrightarrow>
     okE (\<lambda>(m, s'). only_mp s s') (thread_get_mp_reschedule_target cpu cur t s)"
  by (auto simp: thread_get_mp_reschedule_target_def Let_def in_range_def)

lemma thread_mp_reschedule_ok:
  "in_range s (threads s t) \<Longrightarrow> okE (only_mp s) (thread_mp_reschedule cpu cur t s)"
  by (auto simp: thread_mp_reschedule_def intro!: okE_mono [OF thread_get_mp_reschedule_target_ok])

lemma thread_pinned_cond_mp_reschedule_ok:
  "\<lbrakk> in_range s (threads s t); curr_cpu (threads s t) = int cpu \<or> curr_cpu (threads s t) = - 1 \<rbrakk> \<Longrightarrow>
     okE (only_mp s) (thread_pinned_cond_mp_reschedule cpu cur t s)"
  by (simp add: thread_pinned_cond_mp_reschedule_def thread_mp_reschedule_ok)

lemma thread_cond_mp_reschedule_ok:
  "thread_lock_held cpu s \<Longrightarrow> okE (only_mp s) (thread_cond_mp_reschedule cpu cur s)"
  by (auto simp: thread_cond_mp_reschedule_def get_top_thread_def Let_def
      split: option.splits prod.splits)

lemma thread_ok_in_range: "thread_ok s t \<Longrightarrow> in_range s (threads s t)"
  by (simp add: thread_ok_def in_range_def)

section \<open>Timers: linked, whatever the clock says\<close>

lemma timer_set_linked:
  assumes l: "linked ts" and can: "can_set ncpus cpu r ts"
  shows "okE (\<lambda>ts'. linked ts' \<and> (\<forall>e. e \<noteq> r \<longrightarrow> timer_of ts' e = timer_of ts e) \<and>
      tmagic (timer_of ts' r) = TIMER_MAGIC \<and> tcpu (timer_of ts' r) = of_nat cpu \<and>
      node (timer_of ts' r) = Some cpu \<and> callback (timer_of ts' r) = Some cb \<and>
      targ (timer_of ts' r) = a \<and> periodic_time (timer_of ts' r) = period)
    (timer_set ncpus cpu now r delay period cb a ts)"
proof -
  let ?a = "armed_state cpu now r delay period cb a ts"
  have n: "node (timer_of ?a r) = None" using can by (simp add: can_set_def armed_state_def)
  have "linked ?a" using l by (simp add: armed_state_def linked_upd)
  then have "linked (insert_timer_in_queue cpu r ?a)" by (rule insert_timer_in_queue_linked [OF _ n])
  with can show ?thesis
    by (simp add: timer_set_eq [OF can] Let_def insert_timer_in_queue_def armed_state_def can_set_def)
qed

lemma timer_cancel_linked:
  assumes l: "linked ts" and m: "tmagic (timer_of ts r) = TIMER_MAGIC"
    and w: "wait \<longleftrightarrow> \<not> ints_off" and c: "cpu < ncpus"
    and own: "wait \<or> of_nat cpu = tcpu (timer_of ts r)" and run: "wait \<longrightarrow> \<not> running (timer_of ts r)"
  shows "okE (\<lambda>x. \<exists>ts'. x = Cancelled ts' \<and> linked ts' \<and>
      (\<forall>e. e \<noteq> r \<longrightarrow> timer_of ts' e = timer_of ts e) \<and>
      timer_of ts' r = (timer_of ts r)\<lparr>node := None, periodic_time := 0\<rparr>)
    (timer_cancel_etc ncpus cpu now ints_off r wait ts)"
proof -
  let ?ts2 = "upd_timer r (\<lambda>t. t\<lparr>periodic_time := 0\<rparr>) (list_delete_timer r ts)"
  let ?ts' = "reprogram_after_cancel cpu now (queue_head cpu ts) ?ts2"
  have "(if node (timer_of ts r) \<noteq> None then list_delete_timer r ts else ts) = list_delete_timer r ts"
    by (simp add: list_delete_timer_def)
  then have "timer_cancel_etc ncpus cpu now ints_off r wait ts = Inr (Cancelled ?ts')"
    using m w c own run unfolding timer_cancel_etc_def Let_def by (cases wait) simp_all
  moreover have "linked ?ts2" by (simp add: linked_upd list_delete_timer_linked [OF l])
  moreover have "linked ?ts' = linked ?ts2" "timer_of ?ts' = timer_of ?ts2"
    by (auto simp: reprogram_after_cancel_def Let_def split: option.splits)
  moreover have "timer_of ?ts2 r = (timer_of ts r)\<lparr>node := None, periodic_time := 0\<rparr>"
    by (cases "node (timer_of ts r)") (simp_all add: list_delete_timer_def)
  moreover have "e \<noteq> r \<Longrightarrow> timer_of ?ts2 e = timer_of ts e" for e
    by (simp add: list_delete_timer_def split: option.splits)
  ultimately show ?thesis by simp
qed

section \<open>The switch\<close>

lemma not_current:
  assumes "sched_inv_at X Y s" "curr_cpu (threads s t) = - 1" "up s c"
  shows "current s c \<noteq> t"
  using cpu_okD [OF assms(1,3)] assms(2) by (auto simp: cpu_ok_def)

text \<open>The state after a switch from \<open>old\<close> to \<open>new\<close> on \<open>cpu\<close>, described by its difference from
  the state before.\<close>

definition switched :: "cpu_num \<Rightarrow> tid \<Rightarrow> tid \<Rightarrow> kstate \<Rightarrow> kstate \<Rightarrow> bool" where
  "switched cpu old new s s' \<longleftrightarrow>
     (\<exists>q. threads s' = (threads s)(old := (threads s old)\<lparr>curr_cpu := - 1\<rparr>,
        new := (threads s new)\<lparr>state := THREAD_RUNNING, curr_cpu := int cpu, remaining_quantum := q\<rparr>)) \<and>
     current s' = (current s)(cpu := new) \<and> thread_list s' = thread_list s \<and>
     run_queue s' = run_queue s \<and> run_queue_bitmap s' = run_queue_bitmap s \<and>
     idle_threads s' = idle_threads s \<and> wait_queues s' = wait_queues s \<and>
     active_cpus s' = active_cpus s \<and> smp_max_cpus s' = smp_max_cpus s \<and>
     thread_lock_owner s' = thread_lock_owner s \<and> clock s' = clock s \<and>
     dead_threads s' = dead_threads s \<and>
     (\<forall>r. r \<noteq> Preempt_timer cpu \<longrightarrow> timer_of (timers s') r = timer_of (timers s) r)"

lemma sched_inv_switch:
  assumes inv: "sched_inv_at {new} {cpu} s" and u: "up s cpu"
    and old: "old = current s cpu" "new \<noteq> old" "state (threads s old) \<noteq> THREAD_RUNNING"
    and new: "new \<in> set (thread_list s)" "queue_node (threads s new) = Not_queued"
      "curr_cpu (threads s new) = - 1" "thread_is_idle (threads s new) \<longrightarrow> new = idle_threads s cpu"
    and sw: "switched cpu old new s s'" and l: "linked (timers s')" and p: "preempt_ok s' cpu"
  shows "sched_inv s'"
proof -
  from sw obtain q where th: "threads s' = (threads s)(old := (threads s old)\<lparr>curr_cpu := - 1\<rparr>,
        new := (threads s new)\<lparr>state := THREAD_RUNNING, curr_cpu := int cpu, remaining_quantum := q\<rparr>)"
    by (auto simp: switched_def)
  note eqs = sw [unfolded switched_def, THEN conjunct2]
  have kn: "known s' = known s" using eqs by (simp add: known_def)
  have up': "up s' = up s" using eqs by (simp add: up_def fun_eq_iff)
  have fl: "flags (threads s' t) = flags (threads s t)" "magic (threads s' t) = magic (threads s t)"
      "cookie (threads s' t) = cookie (threads s t)" "priority (threads s' t) = priority (threads s t)"
      "pinned_cpu (threads s' t) = pinned_cpu (threads s t)"
      "queue_node (threads s' t) = queue_node (threads s t)"
      "blocking_wait_queue (threads s' t) = blocking_wait_queue (threads s t)"
      "thread_is_idle (threads s' t) = thread_is_idle (threads s t)"
      "thread_is_real_time_or_idle (threads s' t) = thread_is_real_time_or_idle (threads s t)"
      "thread_get_expected_cookie t s' = thread_get_expected_cookie t s" for t
    using eqs by (auto simp: th thread_is_idle_def thread_is_real_time_or_idle_def
        thread_get_expected_cookie_def)
  have st: "state (threads s' t) = (if t = new then THREAD_RUNNING else state (threads s t))"
      "curr_cpu (threads s' t) =
         (if t = new then int cpu else if t = old then - 1 else curr_cpu (threads s t))" for t
    by (simp_all add: th)
  have nc: "current s c \<noteq> new" if "up s c" for c using not_current [OF inv new(3) that] .
  have oc: "current s c \<noteq> old" if "up s c" "c \<noteq> cpu" for c
    using current_inj [OF inv that(1) u] that(2) old(1) by auto
  have "rq_inv s'" "wq_inv s'" using inv eqs fl by (simp_all add: sched_inv_at_def rq_inv_def wq_inv_def)
  moreover have "queued_ok s' t" for t
  proof (cases "t = new")
    case True
    with new(2) fl(6) show ?thesis by (simp add: queued_ok_def)
  next
    case False
    from inv have "queued_ok s t" by (simp add: sched_inv_at_def queued_inv_def)
    moreover from False old(2) have "state (threads s' t) = state (threads s t)" by (simp add: st)
    ultimately show ?thesis using eqs fl by (simp add: queued_ok_def cong: queue_link.case_cong)
  qed
  moreover have "thread_ok s' t" if t: "t \<in> known s" for t
  proof -
    note k = thread_okK [OF inv t]
    consider "t = new" | "t = old" | "t \<noteq> new" "t \<noteq> old" by blast
    then show ?thesis
    proof cases
      case 1
      with k u eqs show ?thesis by (auto simp: thread_ok_def fl up' st)
    next
      case 2
      with k old eqs show ?thesis by (auto simp: thread_ok_def fl up' st)
    next
      case 3
      with eqs old(1) have c: "current s' c = t \<longleftrightarrow> current s c = t" for c by simp
      from eqs have "idle_threads s' = idle_threads s" "smp_max_cpus s' = smp_max_cpus s" by simp_all
      with k 3 show ?thesis by (simp add: thread_ok_def fl up' st c)
    qed
  qed
  moreover have "settled s' t" if "t \<in> known s" for t
  proof (cases "t = new")
    case False
    with inv that have "settled s t" by (simp add: sched_inv_at_def threads_inv_def)
    with False show ?thesis by (auto simp: settled_def fl st)
  qed (simp add: settled_def st)
  moreover have "cpu_ok s' c" "state (threads s' (current s' c)) = THREAD_RUNNING" if "up s c" for c
  proof -
    note k = cpu_okD [OF inv that]
    show "cpu_ok s' c"
    proof (cases "c = cpu")
      case True
      with k p new(1,4) eqs kn show ?thesis by (simp add: cpu_ok_def fl st) (simp add: known_def)
    next
      case False
      moreover have "curr_cpu (threads s' (current s c)) = int c"
        using k nc [OF that] oc [OF that False] by (simp add: st cpu_ok_def)
      ultimately show ?thesis using k eqs kn
        by (simp add: cpu_ok_def fl preempt_ok_def)
    qed
    show "state (threads s' (current s' c)) = THREAD_RUNNING"
    proof (cases "c = cpu")
      case True
      with eqs show ?thesis by (simp add: st)
    next
      case False
      with that inv eqs have "state (threads s (current s' c)) = THREAD_RUNNING"
        by (simp add: sched_inv_at_def cpus_inv_def)
      with nc [OF that] oc [OF that False] eqs False show ?thesis by (simp add: st)
    qed
  qed
  moreover have "\<forall>t \<in> set (dead_threads s). state (threads s' t) = THREAD_DEATH"
    using inv not_dead [OF inv new(1)] by (auto simp: st sched_inv_at_def threads_inv_def)
  ultimately show ?thesis using inv l eqs kn
    unfolding sched_inv_at_def queued_inv_def threads_inv_def cpus_inv_def by (simp add: up', blast)
qed

text \<open>What the preemption timer of a cpu must be for a current thread of a given class.\<close>

definition pt_ok :: "cpu_num \<Rightarrow> bool \<Rightarrow> timer \<Rightarrow> bool" where
  "pt_ok c rt tm \<longleftrightarrow> tmagic tm = TIMER_MAGIC \<and>
     (if rt then node tm = None \<and> (running tm \<longrightarrow> tcpu tm = of_nat c) else tcpu tm = of_nat c)"

lemma preempt_ok_pt:
  "preempt_ok s c = pt_ok c (thread_is_real_time_or_idle (threads s (current s c)))
     (timer_of (timers s) (Preempt_timer c))"
  by (simp add: preempt_ok_def pt_ok_def Let_def)

text \<open>A change of the timers alone, which leaves the preemption timer of \<open>cpu\<close> right for a thread
  of class \<open>rt\<close>.\<close>

definition retimed :: "cpu_num \<Rightarrow> bool \<Rightarrow> kstate \<Rightarrow> kstate \<Rightarrow> bool" where
  "retimed cpu rt s s' \<longleftrightarrow> s' = s\<lparr>timers := timers s'\<rparr> \<and> linked (timers s') \<and>
     (\<forall>r. r \<noteq> Preempt_timer cpu \<longrightarrow> timer_of (timers s') r = timer_of (timers s) r) \<and>
     pt_ok cpu rt (timer_of (timers s') (Preempt_timer cpu))"

lemma timer_cancel_preempt_ok:
  assumes "linked (timers s)" "pt_ok cpu False (timer_of (timers s) (Preempt_timer cpu))"
    "cpu < smp_max_cpus s"
  shows "okE (retimed cpu True s) (timer_cancel_preempt cpu s)"
  unfolding timer_cancel_preempt_def okE_bind using assms(2)
  by (intro okE_mono [OF timer_cancel_linked [OF assms(1)]]) (auto simp: retimed_def pt_ok_def assms(3))

lemma start_preempt_timer_ok:
  assumes "linked (timers s)" "pt_ok cpu True (timer_of (timers s) (Preempt_timer cpu))"
    "cpu < smp_max_cpus s"
  shows "okE (retimed cpu False s) (start_preempt_timer cpu s)"
  unfolding start_preempt_timer_def timer_set_periodic_ns_def Let_def okE_bind using assms(2)
  by (intro okE_mono [OF timer_set_linked [OF assms(1)]])
    (auto simp: retimed_def can_set_def pt_ok_def assms(3))

lemma switch_timers_ok:
  assumes l: "linked (timers s)" and c: "cpu < smp_max_cpus s" and lk: "thread_lock_held cpu s"
    and p: "pt_ok cpu (thread_is_real_time_or_idle (threads s old)) (timer_of (timers s) (Preempt_timer cpu))"
  shows "okE (\<lambda>s'. \<exists>s1. only_mp s s1 \<and> retimed cpu (thread_is_real_time_or_idle (threads s new)) s1 s')
    (switch_timers cpu old new s)" (is "okE ?P _")
proof -
  have refl: "retimed cpu rt s1 s1"
    if "only_mp s s1" "pt_ok cpu rt (timer_of (timers s) (Preempt_timer cpu))" for rt s1
    using that l by (simp add: retimed_def only_mp_simps [OF that(1)])
  consider "thread_is_real_time_or_idle (threads s new)"
    | "\<not> thread_is_real_time_or_idle (threads s new)" "thread_is_real_time_or_idle (threads s old)"
    | "\<not> thread_is_real_time_or_idle (threads s new)" "\<not> thread_is_real_time_or_idle (threads s old)"
    by blast
  then show ?thesis
  proof cases
    case 1
    have "okE ?P (if \<not> thread_is_real_time_or_idle (threads s1 old)
        then timer_cancel_preempt cpu s1 else Inr s1)" if m: "only_mp s s1" for s1
    proof (cases "thread_is_real_time_or_idle (threads s old)")
      case True
      with refl [OF m] m p 1 show ?thesis by (auto simp: only_mp_simps [OF m])
    next
      case False
      then have "okE (retimed cpu True s1) (timer_cancel_preempt cpu s1)"
        using l p c by (intro timer_cancel_preempt_ok) (simp_all add: only_mp_simps [OF m])
      with False m 1 show ?thesis by (auto simp: only_mp_simps [OF m] elim!: okE_mono)
    qed
    then show ?thesis unfolding switch_timers_def if_P [OF 1]
      by (rule okE_bindI [OF thread_cond_mp_reschedule_ok [OF lk]])
  next
    case 2
    then have "okE (retimed cpu False s) (start_preempt_timer cpu s)"
      using l p c by (intro start_preempt_timer_ok) simp_all
    with 2 show ?thesis by (auto simp: switch_timers_def elim!: okE_mono intro: only_mp_refl)
  next
    case 3
    with refl [OF only_mp_refl] p show ?thesis by (auto simp: switch_timers_def intro: only_mp_refl)
  qed
qed

lemma switch_masks_eq:
  "\<exists>a b. switch_masks cpu new s = s\<lparr>idle_cpus := a, realtime_cpus := b\<rparr>"
proof -
  have "switch_masks cpu new s = s\<lparr>idle_cpus := idle_cpus (switch_masks cpu new s),
      realtime_cpus := realtime_cpus (switch_masks cpu new s)\<rparr>"
    by (simp add: switch_masks_def mp_set_cpu_idle_def mp_set_cpu_busy_def mp_set_cpu_realtime_def
        mp_set_cpu_non_realtime_def Let_def)
  then show ?thesis by blast
qed

text \<open>\<open>switch_to\<close> does exactly the switch. The new thread is already marked running.\<close>

lemma switch_to_switched:
  assumes l: "linked (timers s)" and c: "cpu < smp_max_cpus s" and lk: "thread_lock_held cpu s"
    and p: "pt_ok cpu (thread_is_real_time_or_idle (threads s old)) (timer_of (timers s) (Preempt_timer cpu))"
    and ne: "new \<noteq> old" and ck: "cookie (threads s new) = thread_get_expected_cookie new s"
  shows "okE (\<lambda>s'. switched cpu old new s s' \<and> linked (timers s') \<and> preempt_ok s' cpu)
    (switch_to cpu old new (upd_thread new (\<lambda>th. th\<lparr>state := THREAD_RUNNING\<rparr>) s))"
proof -
  define q where "q = (if remaining_quantum (threads s new) \<le> 0 then 5 else remaining_quantum (threads s new))"
  define s0 where "s0 = upd_thread new (\<lambda>th. th\<lparr>state := THREAD_RUNNING\<rparr>) s"
  define s3 where "s3 = upd_thread new (\<lambda>th. th\<lparr>curr_cpu := int cpu\<rparr>)
      (upd_thread old (\<lambda>th. th\<lparr>curr_cpu := - 1\<rparr>)
        (if remaining_quantum (threads s0 new) \<le> 0
         then upd_thread new (\<lambda>th. th\<lparr>remaining_quantum := 5\<rparr>) s0 else s0))"
  have s3: "s3 = s\<lparr>threads := (threads s)(old := (threads s old)\<lparr>curr_cpu := - 1\<rparr>,
        new := (threads s new)\<lparr>state := THREAD_RUNNING, curr_cpu := int cpu, remaining_quantum := q\<rparr>)\<rparr>"
    using ne by (auto simp: s3_def s0_def upd_thread_def q_def fun_eq_iff)
  obtain a b where s4: "switch_masks cpu new s3 = s3\<lparr>idle_cpus := a, realtime_cpus := b\<rparr>"
    using switch_masks_eq by blast
  let ?s4 = "s3\<lparr>idle_cpus := a, realtime_cpus := b\<rparr>"
  have rt: "thread_is_real_time_or_idle (threads s3 t) = thread_is_real_time_or_idle (threads s t)" for t
    by (simp add: s3 thread_is_real_time_or_idle_def)
  have tick: "okE (\<lambda>s'. \<exists>s1. only_mp ?s4 s1 \<and>
        retimed cpu (thread_is_real_time_or_idle (threads ?s4 new)) s1 s') (switch_timers cpu old new ?s4)"
    using l c lk p by (intro switch_timers_ok) (simp_all add: rt, simp_all add: s3 thread_lock_held_def)
  let ?rest = "\<lambda>s5. let s6 = s5\<lparr>cpu_priority := (cpu_priority s5)(cpu := priority (threads s5 new)),
                            current := (current s5)(cpu := new)\<rparr>
                in bindE (thread_check_cookie new s6)
                    (\<lambda>_. Inr (if aspace (threads s6 new) \<noteq> aspace (threads s6 old)
                              then s6\<lparr>mmu_aspace := (mmu_aspace s6)(cpu := aspace (threads s6 new))\<rparr>
                              else s6))"
  have rest: "okE (\<lambda>s'. switched cpu old new s s' \<and> linked (timers s') \<and> preempt_ok s' cpu) (?rest s5)"
    if m: "only_mp ?s4 s1" and r: "retimed cpu (thread_is_real_time_or_idle (threads ?s4 new)) s1 s5" for s1 s5
  proof -
    from r have s5: "s5 = s1\<lparr>timers := timers s5\<rparr>" by (simp add: retimed_def)
    let ?s6 = "s5\<lparr>cpu_priority := (cpu_priority s5)(cpu := priority (threads s5 new)),
                 current := (current s5)(cpu := new)\<rparr>"
    have eqs: "thread_list s5 = thread_list s" "run_queue s5 = run_queue s"
      "run_queue_bitmap s5 = run_queue_bitmap s" "idle_threads s5 = idle_threads s"
      "wait_queues s5 = wait_queues s" "current s5 = current s" "active_cpus s5 = active_cpus s"
      "smp_max_cpus s5 = smp_max_cpus s" "clock s5 = clock s"
      "thread_lock_owner s5 = thread_lock_owner s" "dead_threads s5 = dead_threads s"
      by - (subst s5, simp add: only_mp_simps [OF m] s3)+
    have th5: "threads s5 = threads s3" by (subst s5) (simp add: only_mp_simps [OF m])
    have "cookie (threads s3 t) = cookie (threads s t)" for t by (simp add: s3)
    then have chk: "thread_check_cookie new ?s6 = Inr ()" using ck
      by (simp add: thread_check_cookie_def thread_get_expected_cookie_def eqs th5)
    have tm: "timer_of (timers s5) r = timer_of (timers s) r" if "r \<noteq> Preempt_timer cpu" for r
      using r that only_mp_simps(9) [OF m] by (simp add: retimed_def s3)
    have th: "\<exists>q. threads s3 = (threads s)(old := (threads s old)\<lparr>curr_cpu := - 1\<rparr>,
        new := (threads s new)\<lparr>state := THREAD_RUNNING, curr_cpu := int cpu, remaining_quantum := q\<rparr>)"
      by (simp add: s3) blast
    have "switched cpu old new s ?s6" "linked (timers ?s6)" "preempt_ok ?s6 cpu"
      using r tm th unfolding switched_def preempt_ok_pt by (simp_all add: eqs th5 retimed_def)
    then show ?thesis by (simp add: Let_def chk) (simp add: switched_def preempt_ok_pt)
  qed
  have "okE (\<lambda>s'. switched cpu old new s s' \<and> linked (timers s') \<and> preempt_ok s' cpu)
      (bindE (switch_timers cpu old new ?s4) ?rest)"
    by (rule okE_bindI [OF tick]) (use rest in blast)
  then show ?thesis
    unfolding switch_to_def Let_def s0_def [symmetric] s3_def [symmetric] s4 .
qed

section \<open>The reschedule routine\<close>

definition next_thread :: "cpu_num \<Rightarrow> kstate \<Rightarrow> tid" where
  "next_thread cpu s = (case top_search s (int cpu) (run_queue_bitmap s) of
     Some t \<Rightarrow> t | None \<Rightarrow> idle_threads s cpu)"

text \<open>What a reschedule leaves alone, and what it does to the thread it picks.\<close>

definition same_thread :: "thread \<Rightarrow> thread \<Rightarrow> bool" where
  "same_thread th th' \<longleftrightarrow>
     th' = th\<lparr>curr_cpu := curr_cpu th', remaining_quantum := remaining_quantum th',
              state := state th', queue_node := queue_node th'\<rparr>"

definition resched_rel :: "cpu_num \<Rightarrow> tid \<Rightarrow> kstate \<Rightarrow> kstate \<Rightarrow> bool" where
  "resched_rel cpu n s s' \<longleftrightarrow>
     (\<forall>t. same_thread (threads s t) (threads s' t)) \<and>
     (\<forall>t. t \<noteq> n \<longrightarrow> state (threads s' t) = state (threads s t) \<and>
                      queue_node (threads s' t) = queue_node (threads s t)) \<and>
     state (threads s' n) = THREAD_RUNNING \<and> current s' = (current s)(cpu := n) \<and>
     thread_list s' = thread_list s \<and> idle_threads s' = idle_threads s \<and>
     wait_queues s' = wait_queues s \<and> active_cpus s' = active_cpus s \<and>
     smp_max_cpus s' = smp_max_cpus s \<and>
     clock s' = clock s \<and> dead_threads s' = dead_threads s \<and>
     (\<forall>r. r \<noteq> Preempt_timer cpu \<longrightarrow> timer_of (timers s') r = timer_of (timers s) r)"

text \<open>The run queue with the next thread taken out.\<close>

definition unlinked :: "tid \<Rightarrow> kstate \<Rightarrow> kstate \<Rightarrow> bool" where
  "unlinked n s s1 \<longleftrightarrow>
     threads s1 = (threads s)(n := (threads s n)\<lparr>queue_node := Not_queued\<rparr>) \<and>
     thread_list s1 = thread_list s \<and> idle_threads s1 = idle_threads s \<and> current s1 = current s \<and>
     wait_queues s1 = wait_queues s \<and> active_cpus s1 = active_cpus s \<and>
     smp_max_cpus s1 = smp_max_cpus s \<and> thread_lock_owner s1 = thread_lock_owner s \<and>
     clock s1 = clock s \<and> dead_threads s1 = dead_threads s \<and> timers s1 = timers s"

lemma unlinked_simps:
  assumes "unlinked n s s1"
  shows "threads s1 = (threads s)(n := (threads s n)\<lparr>queue_node := Not_queued\<rparr>)"
    "thread_list s1 = thread_list s" "idle_threads s1 = idle_threads s" "current s1 = current s"
    "wait_queues s1 = wait_queues s" "active_cpus s1 = active_cpus s"
    "smp_max_cpus s1 = smp_max_cpus s" "thread_lock_owner s1 = thread_lock_owner s"
    "clock s1 = clock s" "dead_threads s1 = dead_threads s" "timers s1 = timers s"
  using assms by (simp_all add: unlinked_def)

lemma delete_from_run_queue_unlinked:
  "okE (\<lambda>_. True) (delete_from_run_queue cpu t s) \<Longrightarrow> queue_node (threads s t) = In_run_queue p \<Longrightarrow>
     okE (unlinked t s) (delete_from_run_queue cpu t s)"
  by (simp add: delete_from_run_queue_def unlinked_def list_delete_queue_node_def upd_thread_def Let_def)

lemma idle_not_queued:
  assumes "sched_inv_at X Y s" "thread_is_idle (threads s t)"
  shows "queue_node (threads s t) = Not_queued"
proof -
  from assms(1) have "queued_ok s t" by (simp add: sched_inv_at_def queued_inv_def)
  with assms(2) show ?thesis by (simp add: queued_ok_def split: queue_link.splits)
qed

lemma get_top_thread_ok:
  assumes inv: "sched_inv_at X Y s" and u: "up s cpu" and lk: "thread_lock_held cpu s"
  shows "okE (\<lambda>(n, s1). n = Some (next_thread cpu s) \<and> unlinked (next_thread cpu s) s s1 \<and>
      sched_inv_at (insert (next_thread cpu s) X) Y s1 \<and> next_thread cpu s \<in> set (thread_list s) \<and>
      (if thread_is_idle (threads s (next_thread cpu s)) then next_thread cpu s = idle_threads s cpu
       else state (threads s (next_thread cpu s)) = THREAD_READY))
    (get_top_thread cpu (int cpu) True s)"
proof (cases "top_search s (int cpu) (run_queue_bitmap s)")
  case None
  from cpu_okD [OF inv u] have i: "idle_threads s cpu \<in> set (thread_list s)"
      "thread_is_idle (threads s (idle_threads s cpu))" by (simp_all add: cpu_ok_def)
  have "unlinked (idle_threads s cpu) s s"
    using idle_not_queued [OF inv i(2)] by (simp add: unlinked_def fun_upd_idem)
  moreover have "sched_inv_at (insert (idle_threads s cpu) X) Y s"
    by (rule sched_inv_mono [OF inv]) auto
  ultimately show ?thesis using None i by (simp add: get_top_thread_def next_thread_def)
next
  case (Some t)
  then obtain p where t: "t \<in> set (run_queue s p)"
    by (metis top_search_Some in_set_conv_decomp)
  note m = run_queue_member [OF inv t]
  have n: "next_thread cpu s = t" using Some by (simp add: next_thread_def)
  note d = delete_from_run_queue_ok [OF inv t lk]
  have "okE (\<lambda>s1. sched_inv_at (insert t X) Y s1 \<and> unlinked t s s1) (delete_from_run_queue cpu t s)"
    using okE_conj [OF d delete_from_run_queue_unlinked [OF okE_mono [OF d] m(6)]]
    by (auto elim!: okE_mono)
  with Some m show ?thesis by (auto simp: get_top_thread_def n elim!: okE_mono)
qed

lemma same_threadI:
  "same_thread th (th\<lparr>curr_cpu := a, remaining_quantum := b, state := c, queue_node := d\<rparr>)"
  by (simp add: same_thread_def)

lemma same_thread_upd [simp]:
  "same_thread th th"
  "same_thread th (th\<lparr>curr_cpu := a\<rparr>)"
  "same_thread th (th\<lparr>queue_node := d, state := c\<rparr>)"
  "same_thread th (th\<lparr>queue_node := d, state := c, curr_cpu := a, remaining_quantum := b\<rparr>)"
  by (simp_all add: same_thread_def)

lemma resched_new:
  assumes inv: "sched_inv_at {n} {cpu} s1" and un: "unlinked n s s1" and u: "up s1 cpu"
    and lk: "thread_lock_held cpu s1" and ne: "n \<noteq> current s1 cpu"
    and nr: "state (threads s1 (current s1 cpu)) \<noteq> THREAD_RUNNING"
    and n: "n \<in> set (thread_list s1)"
      "if thread_is_idle (threads s1 n) then n = idle_threads s1 cpu else state (threads s1 n) = THREAD_READY"
  shows "okE (\<lambda>s'. sched_inv s' \<and> resched_rel cpu n s s' \<and> thread_lock_held cpu s')
    (switch_to cpu (current s1 cpu) n (upd_thread n (\<lambda>th. th\<lparr>state := THREAD_RUNNING\<rparr>) s1))"
proof -
  note us = unlinked_simps [OF un]
  let ?old = "current s1 cpu"
  have q: "queue_node (threads s1 n) = Not_queued" by (simp add: us)
  have cc: "curr_cpu (threads s1 n) = - 1"
  proof (rule ccontr)
    assume "curr_cpu (threads s1 n) \<noteq> - 1"
    then obtain c where c: "up s1 c" "current s1 c = n"
      using thread_okD [OF inv n(1)] by (auto simp: thread_ok_def)
    with ne have "c \<noteq> cpu" by auto
    with c inv have "state (threads s1 n) = THREAD_RUNNING"
      by (auto simp: sched_inv_at_def cpus_inv_def)
    with n(2) have i: "thread_is_idle (threads s1 n)" "n = idle_threads s1 cpu" by (auto split: if_splits)
    with cpu_okD [OF inv c(1)] c(2) have "idle_threads s1 c = idle_threads s1 cpu" by (simp add: cpu_ok_def)
    with idle_thread_inj [OF inv c(1) u] \<open>c \<noteq> cpu\<close> show False by simp
  qed
  from inv have l: "linked (timers s1)" by (simp add: sched_inv_at_def cpus_inv_def)
  from cpu_okD [OF inv u] have p: "pt_ok cpu (thread_is_real_time_or_idle (threads s1 ?old))
      (timer_of (timers s1) (Preempt_timer cpu))" by (simp add: cpu_ok_def preempt_ok_pt)
  from thread_okD [OF inv n(1)] have ck: "cookie (threads s1 n) = thread_get_expected_cookie n s1"
    by (simp add: thread_ok_def)
  have "sched_inv s' \<and> resched_rel cpu n s s' \<and> thread_lock_held cpu s'"
    if s': "switched cpu ?old n s1 s'" "linked (timers s')" "preempt_ok s' cpu" for s'
  proof (intro conjI)
    show "thread_lock_held cpu s'" using s'(1) lk by (simp add: switched_def thread_lock_held_def)
    show "sched_inv s'"
      using n(2) by (intro sched_inv_switch [OF inv u refl ne nr n(1) q cc _ s']) (auto split: if_splits)
    show "resched_rel cpu n s s'"
      using s'(1) ne unfolding switched_def resched_rel_def by (auto simp: us)
  qed
  moreover have "cpu < smp_max_cpus s1" using u by (simp add: up_def)
  ultimately show ?thesis using switch_to_switched [OF l _ lk p ne ck] by (auto elim!: okE_mono)
qed

theorem thread_resched_ok:
  assumes inv: "sched_inv_at {} {cpu} s" and u: "up s cpu" and lk: "thread_lock_held cpu s"
    and nr: "state (threads s (current s cpu)) \<noteq> THREAD_RUNNING"
  shows "okE (\<lambda>s'. sched_inv s' \<and> resched_rel cpu (next_thread cpu s) s s' \<and> thread_lock_held cpu s') (thread_resched cpu s)"
proof -
  let ?cur = "current s cpu" and ?n = "next_thread cpu s"
  let ?post = "\<lambda>s'. sched_inv s' \<and> resched_rel cpu ?n s s' \<and> thread_lock_held cpu s'"
  note k = cpu_okD [OF inv u]
  then have cur: "?cur \<in> known s" "curr_cpu (threads s ?cur) = int cpu"
    by (simp_all add: cpu_ok_def)
  note tk = thread_okK [OF inv cur(1)]
  let ?rest = "\<lambda>s2. let s3 = upd_thread ?n (\<lambda>th. th\<lparr>state := THREAD_RUNNING\<rparr>) s2
       in if ?n = ?cur then
            Inr (if cpu_priority s3 cpu \<noteq> priority (threads s3 ?cur)
                 then s3\<lparr>cpu_priority := (cpu_priority s3) (cpu := priority (threads s3 ?n))\<rparr> else s3)
          else switch_to cpu ?cur ?n s3"
  have step: "okE ?post (bindE (thread_pinned_cond_mp_reschedule cpu ?n ?cur s1) ?rest)"
    if un: "unlinked ?n s s1" and inv1: "sched_inv_at {?n} {cpu} s1"
      and n: "?n \<in> set (thread_list s)" "if thread_is_idle (threads s ?n) then ?n = idle_threads s cpu
        else state (threads s ?n) = THREAD_READY" for s1
  proof (rule okE_bindI)
    note us = unlinked_simps [OF un]
    have "thread_ok s1 ?cur" using thread_okK [OF inv1] cur(1) by (simp add: known_def us)
    then show "okE (only_mp s1) (thread_pinned_cond_mp_reschedule cpu ?n ?cur s1)"
      using cur(2) by (intro thread_pinned_cond_mp_reschedule_ok thread_ok_in_range) (auto simp: us)
    fix s2 assume m: "only_mp s1 s2"
    note ms = only_mp_simps [OF m] us
    have inv2: "sched_inv_at {?n} {cpu} s2" using inv1 by (simp add: only_mp_inv [OF m])
    have u2: "up s2 cpu" using u by (simp add: up_def ms)
    show "okE ?post (?rest s2)"
    proof (cases "?n = ?cur")
      case True
      have kp: "thread_ok s2 ?n" using thread_okD [OF inv2] n(1) by (simp add: ms)
      have "sched_inv (upd_thread ?n (\<lambda>th. th\<lparr>state := THREAD_RUNNING\<rparr>) s2)"
      proof -
        have "sched_inv_at {?n} {cpu} (upd_thread ?n (\<lambda>th. th\<lparr>state := THREAD_RUNNING\<rparr>) s2)"
          by (rule sched_inv_upd_thread [OF inv2])
            (use kp u2 True not_dead [OF inv n(1)] in
              \<open>auto simp: keeps_identity_def ms in_range_def thread_ok_def\<close>)
        from sched_inv_settle [OF sched_inv_running [OF this, of cpu], of ?n] show ?thesis
          using True by (simp add: ms settled_def)
      qed
      moreover have "resched_rel cpu ?n s (upd_thread ?n (\<lambda>th. th\<lparr>state := THREAD_RUNNING\<rparr>) s2)"
        using True by (auto simp: resched_rel_def ms fun_eq_iff)
      ultimately show ?thesis using True lk by (auto simp: Let_def resched_rel_def thread_lock_held_def ms)
    next
      case False
      have "okE ?post (switch_to cpu (current s2 cpu) ?n (upd_thread ?n (\<lambda>th. th\<lparr>state := THREAD_RUNNING\<rparr>) s2))"
        using inv2 u2 lk False nr n un m
        by (intro resched_new)
          (auto simp: ms thread_lock_held_def unlinked_def thread_is_link split: if_splits)
      with False show ?thesis by (simp add: ms Let_def)
    qed
  qed
  show ?thesis
    unfolding thread_resched_def Let_def [of ?cur] guardE_if [OF lk] guardE_if [OF nr]
      thread_check_cookie_ok [OF tk] bindE_Inr
    by (rule okE_bindI [OF get_top_thread_ok [OF inv u lk]], elim case_prodE conjE)
      (simp only: prod.case option.case, rule step)
qed

section \<open>The policy\<close>

lemma ready_queued:
  assumes inv: "sched_inv_at X Y s" and t: "t \<in> set (thread_list s)" "t \<notin> X"
    and r: "state (threads s t) = THREAD_READY" "\<not> thread_is_idle (threads s t)"
  shows "t \<in> set (run_queue s (prio_index t s))"
proof -
  from inv t r have "queue_node (threads s t) \<noteq> Not_queued"
    by (simp add: sched_inv_at_def threads_inv_def settled_def known_def)
  moreover from inv have "queued_ok s t" by (simp add: sched_inv_at_def queued_inv_def)
  ultimately have "queue_node (threads s t) = In_run_queue (prio_index t s)"
    using r by (auto simp: queued_ok_def prio_index_def split: queue_link.splits)
  with inv show ?thesis by (simp add: sched_inv_at_def rq_inv_def)
qed

text \<open>The pick may run on the cpu, no ready thread that may run there has a higher priority, no
  eligible thread stands before it in its queue, and it is the idle thread only when no ready
  thread may run there.\<close>

definition policy_pick :: "kstate \<Rightarrow> cpu_num \<Rightarrow> tid \<Rightarrow> bool" where
  "policy_pick s cpu n \<longleftrightarrow> can_run_on s (int cpu) n \<and>
     (\<forall>t \<in> set (thread_list s). state (threads s t) = THREAD_READY \<longrightarrow>
        \<not> thread_is_idle (threads s t) \<longrightarrow> can_run_on s (int cpu) t \<longrightarrow>
        \<not> thread_is_idle (threads s n) \<and> priority (threads s t) \<le> priority (threads s n)) \<and>
     (\<forall>ys zs. run_queue s (prio_index n s) = ys @ n # zs \<longrightarrow> (\<forall>y \<in> set ys. \<not> can_run_on s (int cpu) y))"

lemma next_thread_policy:
  assumes inv: "sched_inv_at {} Y s" and u: "up s cpu"
  shows "policy_pick s cpu (next_thread cpu s)"
proof (cases "top_search s (int cpu) (run_queue_bitmap s)")
  case None
  have no: "\<not> can_run_on s (int cpu) t" if t: "t \<in> set (run_queue s p)" for t p
  proof -
    from t have "run_queue s p \<noteq> []" by auto
    with inv run_queue_member(3) [OF inv t] have "bit (run_queue_bitmap s) p"
      by (simp add: sched_inv_at_def rq_inv_def)
    from top_search_None [OF None this t] show ?thesis .
  qed
  have "can_run_on s (int cpu) (idle_threads s cpu)"
    using cpu_okD [OF inv u] by (simp add: can_run_on_def cpu_ok_def)
  moreover have "\<not> can_run_on s (int cpu) y" if "run_queue s q = ys @ x # zs" "y \<in> set ys" for q x y ys zs
    using no [of y q] that by simp
  ultimately show ?thesis using None no
    by (auto simp: policy_pick_def next_thread_def dest: ready_queued [OF inv])
next
  case (Some n)
  then obtain p ys zs where p: "run_queue s p = ys @ n # zs" "can_run_on s (int cpu) n"
      "\<forall>y \<in> set ys. \<not> can_run_on s (int cpu) y"
      "\<And>q x. p < q \<Longrightarrow> bit (run_queue_bitmap s) q \<Longrightarrow> x \<in> set (run_queue s q) \<Longrightarrow> \<not> can_run_on s (int cpu) x"
    by (metis top_search_Some)
  have n: "n \<in> set (run_queue s p)" using p(1) by simp
  note m = run_queue_member [OF inv n]
  have "priority (threads s t) \<le> priority (threads s n)"
    if t: "t \<in> set (thread_list s)" "state (threads s t) = THREAD_READY"
      "\<not> thread_is_idle (threads s t)" "can_run_on s (int cpu) t" for t
  proof -
    have q: "t \<in> set (run_queue s (prio_index t s))" using ready_queued [OF inv t(1) _ t(2,3)] by simp
    note mt = run_queue_member [OF inv q]
    from q have "run_queue s (prio_index t s) \<noteq> []" by auto
    with inv mt(3) have "bit (run_queue_bitmap s) (prio_index t s)"
      by (simp add: sched_inv_at_def rq_inv_def)
    with p(4) q t(4) have "prio_index t s \<le> p" by (meson not_le)
    with mt(2) m(2) show ?thesis by simp
  qed
  moreover have "ys' = ys" if "run_queue s p = ys' @ n # zs'" for ys' zs'
  proof -
    from inv have "distinct (run_queue s p)" by (simp add: sched_inv_at_def rq_inv_def)
    with p(1) that show ?thesis by (metis distinct_split_takeWhile)
  qed
  moreover have "prio_index n s = p" using m(2) by (simp add: prio_index_def)
  ultimately show ?thesis unfolding policy_pick_def next_thread_def Some option.case
    using p(2,3) m(5) by blast
qed

end
