(* ===== verification/Thread_Switch.thy ===== *)
theory Thread_Switch
  imports Resched
begin

text \<open>
  The operations of \<^verbatim>\<open>kernel/thread.c\<close> by which a thread gives up its cpu or makes another one
  runnable: yield, preempt, block and unblock. All keep the invariant of the scheduler. The thread
  that gives up its cpu is put where its remaining quantum says.
\<close>

section \<open>Operations\<close>

definition thread_yield :: "cpu_num \<Rightarrow> kstate \<Rightarrow> kstate res" where
  "thread_yield cpu s =
     (let current_thread = current s cpu
      in guardE ''thread magic'' (magic (threads s current_thread) = THREAD_MAGIC)
        (guardE ''running'' (state (threads s current_thread) = THREAD_RUNNING)
          (bindE (thread_lock cpu s)
            (\<lambda>s1. let s2 = upd_thread current_thread
                           (\<lambda>th. th\<lparr>state := THREAD_READY, remaining_quantum := 0\<rparr>) s1
                  in bindE (if \<not> thread_is_idle (threads s2 current_thread)
                            then insert_in_run_queue_tail cpu current_thread s2 else Inr s2)
                      (\<lambda>s3. bindE (thread_resched cpu s3) (thread_unlock cpu))))))"

definition thread_preempt_inner :: "cpu_num \<Rightarrow> bool \<Rightarrow> kstate \<Rightarrow> kstate res" where
  "thread_preempt_inner cpu lock_held s =
     (let current_thread = current s cpu
      in guardE ''thread magic'' (magic (threads s current_thread) = THREAD_MAGIC)
        (guardE ''running'' (state (threads s current_thread) = THREAD_RUNNING)
          (bindE (if \<not> lock_held then thread_lock cpu s else Inr s)
            (\<lambda>s1. let s2 = upd_thread current_thread (\<lambda>th. th\<lparr>state := THREAD_READY\<rparr>) s1
                  in bindE (if \<not> thread_is_idle (threads s2 current_thread) then
                              if remaining_quantum (threads s2 current_thread) > 0
                              then insert_in_run_queue_head cpu current_thread s2
                              else insert_in_run_queue_tail cpu current_thread s2
                            else Inr s2)
                      (\<lambda>s3. bindE (thread_resched cpu s3)
                        (\<lambda>s4. if \<not> lock_held then thread_unlock cpu s4 else Inr s4))))))"

definition thread_preempt :: "cpu_num \<Rightarrow> kstate \<Rightarrow> kstate res" where
  "thread_preempt cpu s = thread_preempt_inner cpu False s"

definition thread_preempt_lock_held :: "cpu_num \<Rightarrow> kstate \<Rightarrow> kstate res" where
  "thread_preempt_lock_held cpu s =
     guardE ''thread lock held'' (thread_lock_held cpu s) (thread_preempt_inner cpu True s)"

definition thread_block :: "cpu_num \<Rightarrow> kstate \<Rightarrow> kstate res" where
  "thread_block cpu s =
     (let current_thread = current s cpu
      in guardE ''thread magic'' (magic (threads s current_thread) = THREAD_MAGIC)
        (guardE ''blocked'' (state (threads s current_thread) = THREAD_BLOCKED)
        (guardE ''thread lock held'' (thread_lock_held cpu s)
        (guardE ''not idle'' (\<not> thread_is_idle (threads s current_thread))
          (thread_resched cpu s)))))"

definition thread_unblock :: "cpu_num \<Rightarrow> tid \<Rightarrow> bool \<Rightarrow> kstate \<Rightarrow> kstate res" where
  "thread_unblock cpu t resched s =
     guardE ''thread magic'' (magic (threads s t) = THREAD_MAGIC)
     (guardE ''blocked'' (state (threads s t) = THREAD_BLOCKED)
     (guardE ''thread lock held'' (thread_lock_held cpu s)
     (guardE ''not idle'' (\<not> thread_is_idle (threads s t))
       (bindE (thread_check_cookie t s)
         (\<lambda>_. bindE (insert_in_run_queue_head cpu t
                       (upd_thread t (\<lambda>th. th\<lparr>state := THREAD_READY\<rparr>) s))
           (\<lambda>s1. bindE (thread_mp_reschedule cpu (current s1 cpu) t s1)
             (\<lambda>s2. if resched then thread_resched cpu s2 else Inr s2)))))))"

section \<open>Frames\<close>

text \<open>A change that touches one thread and the run queues.\<close>

definition touches :: "tid \<Rightarrow> kstate \<Rightarrow> kstate \<Rightarrow> bool" where
  "touches t s s' \<longleftrightarrow>
     (\<forall>u. u \<noteq> t \<longrightarrow> threads s' u = threads s u) \<and>
     thread_list s' = thread_list s \<and> idle_threads s' = idle_threads s \<and> current s' = current s \<and>
     wait_queues s' = wait_queues s \<and> active_cpus s' = active_cpus s \<and>
     smp_max_cpus s' = smp_max_cpus s \<and> thread_lock_owner s' = thread_lock_owner s \<and>
     clock s' = clock s \<and> dead_threads s' = dead_threads s \<and> timers s' = timers s"

lemma insert_in_run_queue_touches:
  "insert_in_run_queue_head cpu t s = Inr s' \<Longrightarrow> touches t s s' \<and>
     threads s' t = (threads s t)\<lparr>queue_node := In_run_queue (prio_index t s)\<rparr>"
  "insert_in_run_queue_tail cpu t s = Inr s' \<Longrightarrow> touches t s s' \<and>
     threads s' t = (threads s t)\<lparr>queue_node := In_run_queue (prio_index t s)\<rparr>"
  by (auto simp: insert_in_run_queue_head_def insert_in_run_queue_tail_def res_simps Let_def touches_def)

text \<open>The current thread leaves the running state and goes to the run queue: the invariant but for
  its cpu.\<close>

lemma lock_simps [simp]:
  "thread_lock_owner s = smp_max_cpus s \<Longrightarrow> thread_lock cpu s = Inr (s\<lparr>thread_lock_owner := cpu\<rparr>)"
  "thread_lock_owner s = cpu \<Longrightarrow> thread_unlock cpu s = Inr (s\<lparr>thread_lock_owner := smp_max_cpus s\<rparr>)"
  by (simp_all add: thread_lock_def thread_unlock_def)

lemma up_lock [simp]: "up (s\<lparr>thread_lock_owner := n\<rparr>) = up s"
  by (simp add: up_def fun_eq_iff)

lemma current_running:
  "sched_inv_at X Y s \<Longrightarrow> up s cpu \<Longrightarrow> cpu \<notin> Y \<Longrightarrow> state (threads s (current s cpu)) = THREAD_RUNNING"
  by (simp add: sched_inv_at_def cpus_inv_def)

lemma running_not_queued:
  assumes "sched_inv_at X Y s" "state (threads s t) = THREAD_RUNNING"
  shows "queue_node (threads s t) = Not_queued"
proof -
  from assms(1) have "queued_ok s t" by (simp add: sched_inv_at_def queued_inv_def)
  with assms(2) show ?thesis by (simp add: queued_ok_def split: queue_link.splits)
qed

lemma leave_running:
  assumes inv: "sched_inv_at X {} s" and u: "up s cpu" and cur: "t = current s cpu"
    and k: "keeps_identity f (threads s t)" "in_range s (f (threads s t))"
      "pinned_cpu (f (threads s t)) = pinned_cpu (threads s t)" "state (f (threads s t)) \<noteq> THREAD_RUNNING"
  shows "sched_inv_at (insert t X) {cpu} (upd_thread t f s)"
  by (rule sched_inv_upd_thread [OF inv k(1)])
    (use running_not_queued [OF inv] current_running [OF inv u] current_inj [OF inv _ u]
      not_dead [OF inv current_in_list [OF inv u]] cur k in auto)

section \<open>After a reschedule\<close>

text \<open>The cpu runs a thread of the highest priority among those ready to run on it, and idles
  only if there is none.\<close>

definition runs_best :: "cpu_num \<Rightarrow> kstate \<Rightarrow> bool" where
  "runs_best cpu s \<longleftrightarrow>
     (\<forall>t \<in> set (thread_list s). state (threads s t) = THREAD_READY \<longrightarrow>
        \<not> thread_is_idle (threads s t) \<longrightarrow> can_run_on s (int cpu) t \<longrightarrow>
        \<not> thread_is_idle (threads s (current s cpu)) \<and>
        priority (threads s t) \<le> priority (threads s (current s cpu)))"

lemma same_thread_fields:
  assumes "same_thread th th'"
  shows "flags th' = flags th" "priority th' = priority th" "pinned_cpu th' = pinned_cpu th"
    "magic th' = magic th" "cookie th' = cookie th" "blocking_wait_queue th' = blocking_wait_queue th"
    "wait_queue_block_ret th' = wait_queue_block_ret th" "retcode th' = retcode th"
    "thread_is_idle th' = thread_is_idle th"
proof -
  from assms obtain a b c d where
    "th' = th\<lparr>curr_cpu := a, remaining_quantum := b, state := c, queue_node := d\<rparr>"
    unfolding same_thread_def by blast
  then show "flags th' = flags th" "priority th' = priority th" "pinned_cpu th' = pinned_cpu th"
    "magic th' = magic th" "cookie th' = cookie th" "blocking_wait_queue th' = blocking_wait_queue th"
    "wait_queue_block_ret th' = wait_queue_block_ret th" "retcode th' = retcode th"
    "thread_is_idle th' = thread_is_idle th"
    by (simp_all add: thread_is_idle_def)
qed

lemma resched_rel_simps:
  assumes "resched_rel cpu n s s'"
  shows "thread_list s' = thread_list s" "idle_threads s' = idle_threads s" "wait_queues s' = wait_queues s"
    "active_cpus s' = active_cpus s" "smp_max_cpus s' = smp_max_cpus s" "clock s' = clock s"
    "dead_threads s' = dead_threads s" "current s' = (current s)(cpu := n)"
    "t \<noteq> n \<Longrightarrow> state (threads s' t) = state (threads s t)"
    "t \<noteq> n \<Longrightarrow> queue_node (threads s' t) = queue_node (threads s t)"
    "r \<noteq> Preempt_timer cpu \<Longrightarrow> timer_of (timers s') r = timer_of (timers s) r"
    "wait_queue_block_ret (threads s' t) = wait_queue_block_ret (threads s t)"
    "flags (threads s' t) = flags (threads s t)" "magic (threads s' t) = magic (threads s t)"
    "retcode (threads s' t) = retcode (threads s t)" "priority (threads s' t) = priority (threads s t)"
proof -
  from assms have "same_thread (threads s t) (threads s' t)" by (simp add: resched_rel_def)
  note same_thread_fields [OF this]
  then show "wait_queue_block_ret (threads s' t) = wait_queue_block_ret (threads s t)"
    "flags (threads s' t) = flags (threads s t)" "magic (threads s' t) = magic (threads s t)"
    "retcode (threads s' t) = retcode (threads s t)" "priority (threads s' t) = priority (threads s t)"
    by simp_all
qed (use assms in \<open>simp_all add: resched_rel_def\<close>)

lemma resched_runs_best:
  assumes p: "policy_pick s cpu n" and r: "resched_rel cpu n s s'"
  shows "runs_best cpu s'"
proof -
  from r have same: "same_thread (threads s t) (threads s' t)" for t by (simp add: resched_rel_def)
  note f = same_thread_fields [OF same]
  show ?thesis using p r unfolding runs_best_def policy_pick_def resched_rel_def
    by (auto simp: f can_run_on_def)
qed

lemma resched_done:
  assumes inv: "sched_inv_at {} {cpu} s" and u: "up s cpu" and lk: "thread_lock_held cpu s"
    and nr: "state (threads s (current s cpu)) \<noteq> THREAD_RUNNING"
  shows "okE (\<lambda>s'. sched_inv s' \<and> lock_free s' \<and> runs_best cpu s' \<and> resched_rel cpu (next_thread cpu s) s s')
      (bindE (thread_resched cpu s) (thread_unlock cpu))"
proof (rule okE_bindI [OF thread_resched_ok [OF inv u lk nr]])
  fix s1 assume a: "sched_inv s1 \<and> resched_rel cpu (next_thread cpu s) s s1 \<and> thread_lock_held cpu s1"
  then have "runs_best cpu s1" using resched_runs_best [OF next_thread_policy [OF inv u]] by simp
  with a show "okE (\<lambda>s'. sched_inv s' \<and> lock_free s' \<and> runs_best cpu s' \<and>
      resched_rel cpu (next_thread cpu s) s s') (thread_unlock cpu s1)"
    by (simp add: thread_lock_held_def lock_free_def runs_best_def can_run_on_def resched_rel_def)
qed

section \<open>Giving up the cpu\<close>

text \<open>The current thread made ready and put into the run queue, unless it is idle.\<close>

definition requeue_current :: "cpu_num \<Rightarrow> (thread \<Rightarrow> thread) \<Rightarrow> bool \<Rightarrow> kstate \<Rightarrow> kstate res" where
  "requeue_current cpu f at_head s =
     (let t = current s cpu; s1 = upd_thread t f s
      in if thread_is_idle (threads s1 t) then Inr s1
         else if at_head then insert_in_run_queue_head cpu t s1 else insert_in_run_queue_tail cpu t s1)"

definition ready_to_resched :: "cpu_num \<Rightarrow> kstate \<Rightarrow> bool" where
  "ready_to_resched cpu s \<longleftrightarrow> sched_inv_at {} {cpu} s \<and> up s cpu \<and> thread_lock_held cpu s \<and>
     state (threads s (current s cpu)) \<noteq> THREAD_RUNNING"

lemma requeue_current_ok:
  assumes inv: "sched_inv s" and u: "up s cpu" and lk: "thread_lock_held cpu s"
    and k: "keeps_identity f (threads s (current s cpu))" "in_range s (f (threads s (current s cpu)))"
      "pinned_cpu (f (threads s (current s cpu))) = pinned_cpu (threads s (current s cpu))"
      "state (f (threads s (current s cpu))) = THREAD_READY"
  shows "okE (\<lambda>s'. ready_to_resched cpu s' \<and> touches (current s cpu) s s' \<and>
      state (threads s' (current s cpu)) = THREAD_READY) (requeue_current cpu f at_head s)"
proof -
  let ?t = "current s cpu"
  let ?s1 = "upd_thread ?t f s"
  have inv1: "sched_inv_at {?t} {cpu} ?s1" using k by (intro leave_running [OF inv u refl]) simp_all
  have tl: "?t \<in> set (thread_list ?s1)" using current_in_list [OF inv u] by simp
  have n: "queue_node (threads ?s1 ?t) = Not_queued"
    using running_not_queued [OF inv current_running [OF inv u]] k(1) by (simp add: keeps_identity_def)
  have st: "state (threads ?s1 ?t) = THREAD_READY" using k(4) by simp
  have t1: "touches ?t s ?s1" by (simp add: touches_def)
  show ?thesis
  proof (cases "thread_is_idle (threads ?s1 ?t)")
    case True
    then have "sched_inv_at {} {cpu} ?s1"
      using sched_inv_settle [OF inv1, of ?t] by (simp add: settled_def st k(4))
    with True t1 u lk k(4) show ?thesis
      by (simp add: requeue_current_def ready_to_resched_def thread_lock_held_def)
  next
    case False
    define ins where "ins = (if at_head then insert_in_run_queue_head cpu ?t ?s1
        else insert_in_run_queue_tail cpu ?t ?s1)"
    have "okE (sched_inv_at ({?t} - {?t}) {cpu}) ins"
      using insert_in_run_queue_ok [OF inv1 tl st n False] lk
      by (simp add: ins_def thread_lock_held_def)
    then obtain s' where s': "ins = Inr s'" "sched_inv_at {} {cpu} s'" by (auto simp: okE_iff_ex)
    then have "touches ?t ?s1 s' \<and> threads s' ?t = (threads ?s1 ?t)\<lparr>queue_node := In_run_queue (prio_index ?t ?s1)\<rparr>"
      unfolding ins_def by (auto split: if_splits dest: insert_in_run_queue_touches)
    with s' False u lk k(4) show ?thesis unfolding requeue_current_def Let_def ins_def [symmetric]
      by (simp add: ready_to_resched_def touches_def thread_lock_held_def up_def)
  qed
qed

text \<open>What a change of threads leaves alone.\<close>

definition switch_frame :: "kstate \<Rightarrow> kstate \<Rightarrow> bool" where
  "switch_frame s s' \<longleftrightarrow>
     (\<forall>t. wait_queue_block_ret (threads s' t) = wait_queue_block_ret (threads s t) \<and>
          blocking_wait_queue (threads s' t) = blocking_wait_queue (threads s t) \<and>
          (state (threads s' t) = state (threads s t) \<or> state (threads s' t) \<in> {THREAD_READY, THREAD_RUNNING})) \<and>
     thread_list s' = thread_list s \<and> wait_queues s' = wait_queues s \<and> active_cpus s' = active_cpus s \<and>
     smp_max_cpus s' = smp_max_cpus s \<and> clock s' = clock s \<and> dead_threads s' = dead_threads s"

lemma switch_frame_resched:
  assumes f: "switch_frame s s1" and r: "resched_rel cpu n s1 s2"
  shows "switch_frame s s2"
proof -
  from r have same: "same_thread (threads s1 t) (threads s2 t)" for t by (simp add: resched_rel_def)
  note eqs = same_thread_fields [OF same]
  have "state (threads s2 t) = state (threads s1 t) \<or> state (threads s2 t) \<in> {THREAD_READY, THREAD_RUNNING}" for t
    using r by (cases "t = n") (simp_all add: resched_rel_def)
  then have "state (threads s2 t) = state (threads s t) \<or> state (threads s2 t) \<in> {THREAD_READY, THREAD_RUNNING}" for t
    using f by (metis switch_frame_def)
  with f r show ?thesis by (simp add: switch_frame_def resched_rel_def eqs)
qed

lemma requeue_current_frame:
  assumes r: "requeue_current cpu f at_head s = Inr s'"
    and f: "wait_queue_block_ret (f (threads s (current s cpu))) = wait_queue_block_ret (threads s (current s cpu))"
      "blocking_wait_queue (f (threads s (current s cpu))) = blocking_wait_queue (threads s (current s cpu))"
      "state (f (threads s (current s cpu))) = THREAD_READY"
  shows "switch_frame s s'"
proof -
  let ?t = "current s cpu" and ?s1 = "upd_thread (current s cpu) f s"
  from r have "s' = ?s1 \<or> touches ?t ?s1 s' \<and>
      threads s' ?t = (threads ?s1 ?t)\<lparr>queue_node := In_run_queue (prio_index ?t ?s1)\<rparr>"
    unfolding requeue_current_def Let_def by (auto split: if_splits dest: insert_in_run_queue_touches)
  then show ?thesis
  proof (elim disjE conjE)
    assume "s' = ?s1" with f show ?thesis by (simp add: switch_frame_def)
  next
    assume t: "touches ?t ?s1 s'" and e: "threads s' ?t = (threads ?s1 ?t)\<lparr>queue_node := In_run_queue (prio_index ?t ?s1)\<rparr>"
    have "wait_queue_block_ret (threads s' u) = wait_queue_block_ret (threads s u) \<and>
        blocking_wait_queue (threads s' u) = blocking_wait_queue (threads s u) \<and>
        (state (threads s' u) = state (threads s u) \<or> state (threads s' u) \<in> {THREAD_READY, THREAD_RUNNING})" for u
      using t e f by (cases "u = ?t") (simp_all add: touches_def)
    with t show ?thesis by (simp add: switch_frame_def touches_def)
  qed
qed

lemma requeue_resched_ok:
  assumes "sched_inv s" "up s cpu" "thread_lock_held cpu s"
    "keeps_identity f (threads s (current s cpu))" "in_range s (f (threads s (current s cpu)))"
    "pinned_cpu (f (threads s (current s cpu))) = pinned_cpu (threads s (current s cpu))"
    "state (f (threads s (current s cpu))) = THREAD_READY"
    and f: "wait_queue_block_ret (f (threads s (current s cpu))) = wait_queue_block_ret (threads s (current s cpu))"
      "blocking_wait_queue (f (threads s (current s cpu))) = blocking_wait_queue (threads s (current s cpu))"
  shows "okE (\<lambda>s'. sched_inv s' \<and> lock_free s' \<and> runs_best cpu s' \<and> switch_frame s s')
    (bindE (requeue_current cpu f at_head s) (\<lambda>s1. bindE (thread_resched cpu s1) (thread_unlock cpu)))"
proof -
  obtain s1 where s1: "requeue_current cpu f at_head s = Inr s1" "ready_to_resched cpu s1"
    using requeue_current_ok [OF assms(1-7)] unfolding okE_iff_ex by blast
  have "switch_frame s s1" by (rule requeue_current_frame [OF s1(1) f assms(7)])
  moreover from s1(2) have "okE (\<lambda>s'. sched_inv s' \<and> lock_free s' \<and> runs_best cpu s' \<and>
      resched_rel cpu (next_thread cpu s1) s1 s') (bindE (thread_resched cpu s1) (thread_unlock cpu))"
    unfolding ready_to_resched_def by (intro resched_done) simp_all
  ultimately show ?thesis unfolding s1(1) bindE_Inr
    by (elim okE_mono) (blast intro: switch_frame_resched)
qed

lemma lock_inv [simp]:
  "lock_free s \<Longrightarrow> thread_lock cpu s = Inr (s\<lparr>thread_lock_owner := cpu\<rparr>)"
  "thread_lock_held cpu (s\<lparr>thread_lock_owner := cpu\<rparr>)"
  by (simp_all add: lock_free_def thread_lock_held_def)

lemma current_facts:
  assumes "sched_inv s" "up s cpu"
  shows "magic (threads s (current s cpu)) = THREAD_MAGIC"
    "state (threads s (current s cpu)) = THREAD_RUNNING"
    "in_range s (threads s (current s cpu))"
    "queue_node (threads s (current s cpu)) = Not_queued"
    "thread_ok s (current s cpu)"
  using thread_okK [OF assms(1) current_known [OF assms]] current_running [OF assms]
    running_not_queued [OF assms(1)]
  by (auto simp: thread_ok_def in_range_def)

lemma thread_yield_ok:
  assumes "sched_inv s" "lock_free s" "up s cpu"
  shows "okE (\<lambda>s'. sched_inv s' \<and> lock_free s' \<and> runs_best cpu s' \<and> switch_frame s s') (thread_yield cpu s)"
proof -
  let ?l = "s\<lparr>thread_lock_owner := cpu\<rparr>"
  let ?f = "\<lambda>th. th\<lparr>state := THREAD_READY, remaining_quantum := 0\<rparr>"
  have "thread_yield cpu s = bindE (requeue_current cpu ?f False ?l)
      (\<lambda>s1. bindE (thread_resched cpu s1) (thread_unlock cpu))"
    using assms current_facts [OF assms(1,3)]
    by (simp add: thread_yield_def requeue_current_def Let_def if_distrib [of "\<lambda>m. bindE m _"])
  then show ?thesis using assms current_facts(3) [OF assms(1,3)]
    by (auto intro!: okE_mono [OF requeue_resched_ok [of ?l]] simp: keeps_identity_def in_range_def switch_frame_def
        simp del: okE_bind)
qed

lemma thread_preempt_ok:
  assumes "sched_inv s" "lock_free s" "up s cpu"
  shows "okE (\<lambda>s'. sched_inv s' \<and> lock_free s' \<and> runs_best cpu s' \<and> switch_frame s s') (thread_preempt cpu s)"
proof -
  let ?l = "s\<lparr>thread_lock_owner := cpu\<rparr>"
  let ?f = "\<lambda>th. th\<lparr>state := THREAD_READY\<rparr>"
  have "thread_preempt cpu s =
      bindE (requeue_current cpu ?f (remaining_quantum (threads s (current s cpu)) > 0) ?l)
        (\<lambda>s1. bindE (thread_resched cpu s1) (thread_unlock cpu))"
    using assms current_facts [OF assms(1,3)]
    by (simp add: thread_preempt_def thread_preempt_inner_def requeue_current_def Let_def)
  then show ?thesis using assms current_facts(3) [OF assms(1,3)]
    by (auto intro!: okE_mono [OF requeue_resched_ok [of ?l]] simp: keeps_identity_def in_range_def switch_frame_def
        simp del: okE_bind)
qed

lemma thread_preempt_lock_held_ok:
  assumes "sched_inv s" "thread_lock_held cpu s" "up s cpu"
  shows "okE (\<lambda>s'. sched_inv s' \<and> thread_lock_held cpu s' \<and> runs_best cpu s' \<and>
      smp_max_cpus s' = smp_max_cpus s) (thread_preempt_lock_held cpu s)"
proof -
  let ?f = "\<lambda>th. th\<lparr>state := THREAD_READY\<rparr>"
  let ?post = "\<lambda>s'. sched_inv s' \<and> thread_lock_held cpu s' \<and> runs_best cpu s' \<and> smp_max_cpus s' = smp_max_cpus s"
  have "thread_preempt_lock_held cpu s =
      bindE (requeue_current cpu ?f (remaining_quantum (threads s (current s cpu)) > 0) s) (thread_resched cpu)"
    using assms current_facts [OF assms(1,3)]
    by (simp add: thread_preempt_lock_held_def thread_preempt_inner_def requeue_current_def Let_def
        bindE_Inr_right)
  moreover have "okE ?post (bindE (requeue_current cpu ?f (remaining_quantum (threads s (current s cpu)) > 0) s)
      (thread_resched cpu))"
  proof (rule okE_bindI [OF requeue_current_ok [OF assms(1,3,2)]])
    fix s1 assume a: "ready_to_resched cpu s1 \<and> touches (current s cpu) s s1 \<and>
        state (threads s1 (current s cpu)) = THREAD_READY"
    then have r: "sched_inv_at {} {cpu} s1" "up s1 cpu" "thread_lock_held cpu s1"
        "state (threads s1 (current s1 cpu)) \<noteq> THREAD_RUNNING" by (simp_all add: ready_to_resched_def)
    from okE_mono [OF thread_resched_ok [OF r]] show "okE ?post (thread_resched cpu s1)"
      using a resched_runs_best [OF next_thread_policy [OF r(1,2)]]
      by (simp add: touches_def resched_rel_def)
  qed (use current_facts(3) [OF assms(1,3)] in \<open>auto simp: keeps_identity_def in_range_def\<close>)
  ultimately show ?thesis by simp
qed

section \<open>Making another thread runnable\<close>

lemma thread_unblock_ok:
  assumes inv: "sched_inv_at {t} Y s" and lk: "thread_lock_held cpu s" and t: "t \<in> set (thread_list s)"
    and b: "state (threads s t) = THREAD_BLOCKED" "queue_node (threads s t) = Not_queued"
      "\<not> thread_is_idle (threads s t)" and nc: "curr_cpu (threads s t) = - 1"
  shows "okE (\<lambda>s'. sched_inv_at {} Y s' \<and> state (threads s' t) = THREAD_READY) (thread_unblock cpu t False s)"
proof -
  note k = thread_okD [OF inv t]
  let ?s1 = "upd_thread t (\<lambda>th. th\<lparr>state := THREAD_READY\<rparr>) s"
  have inv1: "sched_inv_at {t} Y ?s1"
    by (rule sched_inv_upd_thread [OF inv])
      (use b k not_current [OF inv nc] not_dead [OF inv t] in \<open>auto simp: keeps_identity_def in_range_def thread_ok_def\<close>)
  have "okE (sched_inv_at ({t} - {t}) Y) (insert_in_run_queue_head cpu t ?s1)"
    using b t lk by (intro insert_in_run_queue_ok [OF inv1]) (simp_all add: thread_lock_held_def)
  then obtain s2 where s2: "insert_in_run_queue_head cpu t ?s1 = Inr s2" "sched_inv_at {} Y s2"
    by (auto simp: okE_iff_ex)
  note f = insert_in_run_queue_touches(1) [OF s2(1)]
  then have "in_range s2 (threads s2 t)"
    using thread_okD [OF s2(2), of t] t by (intro thread_ok_in_range) (simp add: touches_def)
  from okE_mono [OF thread_mp_reschedule_ok [OF this, of cpu "current s2 cpu"]]
  have "okE (\<lambda>s'. sched_inv_at {} Y s' \<and> state (threads s' t) = THREAD_READY)
      (thread_mp_reschedule cpu (current s2 cpu) t s2)"
    using s2(2) f by (auto simp: only_mp_inv only_mp_simps elim!: okE_mono)
  then show ?thesis using b lk k s2(1) by (simp add: thread_unblock_def thread_ok_def bindE_Inr_right)
qed

end
