(* ===== verification/Wait_Queue.thy ===== *)
theory Wait_Queue
  imports Thread_Switch
begin

text \<open>
  Wait queues (\<^verbatim>\<open>kernel/thread.c\<close>, from \<^verbatim>\<open>wait_queue_init\<close> on): blocking with a timeout, waking one
  thread or all of them, the timeout handler, and destruction. A wait queue is first in, first
  out; every thread that leaves it is told why.

  An operation that may block returns \<open>Return\<close> with a value, or \<open>Switched_out\<close> with the state
  after the switch. What the blocked thread does once it runs again is the definition with the
  suffix \<open>_resume\<close>; it starts by taking the thread lock, which the thread holds when the
  reschedule returns.
\<close>

section \<open>Operations\<close>

datatype 'a call = Return 'a kstate | Switched_out kstate

lemma call_case_iff:
  "(case c of Return r s \<Rightarrow> Q r s | Switched_out s \<Rightarrow> P s) \<longleftrightarrow>
     (\<exists>r s. c = Return r s \<and> Q r s) \<or> (\<exists>s. c = Switched_out s \<and> P s)"
  by (cases c) auto

definition wait_queue_init :: "wq_ref \<Rightarrow> kstate \<Rightarrow> kstate" where
  "wait_queue_init w s = upd_wq w (\<lambda>_. WAIT_QUEUE_INITIAL_VALUE) s"

text \<open>\<^verbatim>\<open>list_remove_head_type(&wait->list, thread_t, queue_node)\<close>.\<close>

definition wq_remove_head :: "wq_ref \<Rightarrow> kstate \<Rightarrow> (tid \<times> kstate) option" where
  "wq_remove_head w s = (case wq_list (wait_queues s w) of
       [] \<Rightarrow> None
     | t # ts \<Rightarrow> Some (t, upd_thread t (\<lambda>th. th\<lparr>queue_node := Not_queued\<rparr>)
                          (upd_wq w (\<lambda>q. q\<lparr>wq_list := ts\<rparr>) s)))"

text \<open>What \<^verbatim>\<open>wait_queue_wake_one\<close> and \<^verbatim>\<open>wait_queue_wake_all\<close> do to the thread they took from the queue.\<close>

definition make_ready :: "wq_ref \<Rightarrow> int \<Rightarrow> tid \<Rightarrow> kstate \<Rightarrow> kstate res" where
  "make_ready w wait_queue_error t s =
     (let s1 = upd_wq w (\<lambda>q. q\<lparr>wq_count := wq_count q - 1\<rparr>) s
      in guardE ''thread magic'' (magic (threads s1 t) = THREAD_MAGIC)
        (guardE ''blocked'' (state (threads s1 t) = THREAD_BLOCKED)
          (bindE (thread_check_cookie t s1)
            (\<lambda>_. Inr (upd_thread t (\<lambda>th. th\<lparr>state := THREAD_READY,
                        wait_queue_block_ret := wait_queue_error, blocking_wait_queue := None\<rparr>) s1)))))"

definition wait_queue_wake_one :: "cpu_num \<Rightarrow> wq_ref \<Rightarrow> bool \<Rightarrow> int \<Rightarrow> kstate \<Rightarrow> (int \<times> kstate) res" where
  "wait_queue_wake_one cpu w reschedule wait_queue_error s =
     (let current_thread = current s cpu
      in guardE ''wait queue magic'' (wq_magic (wait_queues s w) = WAIT_QUEUE_MAGIC)
        (guardE ''thread lock held'' (thread_lock_held cpu s)
          (case wq_remove_head w s of
             None \<Rightarrow> Inr (0, s)
           | Some (t, s1) \<Rightarrow>
               bindE (make_ready w wait_queue_error t s1)
                (\<lambda>s2. bindE (if reschedule
                             then insert_in_run_queue_head cpu current_thread
                                    (upd_thread current_thread (\<lambda>th. th\<lparr>state := THREAD_READY\<rparr>) s2)
                             else Inr s2)
                 (\<lambda>s3. bindE (insert_in_run_queue_head cpu t s3)
                  (\<lambda>s4. bindE (thread_mp_reschedule cpu current_thread t s4)
                   (\<lambda>s5. bindE (if reschedule then thread_resched cpu s5 else Inr s5)
                     (\<lambda>s6. Inr (1, s6)))))))))"

text \<open>One turn of the loop of \<^verbatim>\<open>wait_queue_wake_all\<close>.\<close>

definition wake_step ::
    "cpu_num \<Rightarrow> tid \<Rightarrow> wq_ref \<Rightarrow> int \<Rightarrow> 32 word \<Rightarrow> tid \<Rightarrow> kstate \<Rightarrow> (32 word \<times> kstate) res" where
  "wake_step cpu current_thread w wait_queue_error target t s =
     bindE (make_ready w wait_queue_error t s)
      (\<lambda>s1. bindE (insert_in_run_queue_head cpu t s1)
       (\<lambda>s2. bindE (thread_get_mp_reschedule_target cpu current_thread t s2)
        (\<lambda>(m, s3). Inr (target OR m, s3))))"

lemma wake_step_wq_list:
  "wake_step cpu cur w e target t s = Inr (target', s') \<Longrightarrow>
     wq_list (wait_queues s' v) = wq_list (wait_queues s v)"
  by (auto simp: wake_step_def make_ready_def insert_in_run_queue_head_def
      thread_get_mp_reschedule_target_def res_simps Let_def split: if_splits)

function wake_all_loop ::
    "cpu_num \<Rightarrow> tid \<Rightarrow> wq_ref \<Rightarrow> int \<Rightarrow> 32 word \<Rightarrow> int \<Rightarrow> kstate \<Rightarrow> (32 word \<times> int \<times> kstate) res" where
  "wake_all_loop cpu cur w e target ret s =
     (case wq_remove_head w s of
        None \<Rightarrow> Inr (target, ret, s)
      | Some (t, s1) \<Rightarrow> bindE (wake_step cpu cur w e target t s1)
          (\<lambda>(target', s'). wake_all_loop cpu cur w e target' (ret + 1) s'))"
  by pat_completeness auto
termination
  by (relation "measure (\<lambda>(cpu, cur, w, e, target, ret, s). length (wq_list (wait_queues s w)))")
    (auto simp: wake_step_wq_list wq_remove_head_def split: list.splits)

declare wake_all_loop.simps [simp del]

definition wait_queue_wake_all :: "cpu_num \<Rightarrow> wq_ref \<Rightarrow> bool \<Rightarrow> int \<Rightarrow> kstate \<Rightarrow> (int \<times> kstate) res" where
  "wait_queue_wake_all cpu w reschedule wait_queue_error s =
     (let current_thread = current s cpu
      in guardE ''wait queue magic'' (wq_magic (wait_queues s w) = WAIT_QUEUE_MAGIC)
        (guardE ''thread lock held'' (thread_lock_held cpu s)
          (bindE (if reschedule \<and> wq_count (wait_queues s w) > 0
                  then insert_in_run_queue_head cpu current_thread
                         (upd_thread current_thread (\<lambda>th. th\<lparr>state := THREAD_READY\<rparr>) s)
                  else Inr s)
            (\<lambda>s1. bindE (wake_all_loop cpu current_thread w wait_queue_error 0 0 s1)
              (\<lambda>(target, ret, s2).
                 guardE ''wait queue empty'' (wq_count (wait_queues s2 w) = 0)
                  (if ret > 0 then
                     let s3 = mp_reschedule cpu target 0 s2
                     in if reschedule then
                          guardE ''current ready'' (state (threads s3 current_thread) = THREAD_READY)
                            (bindE (thread_resched cpu s3) (\<lambda>s4. Inr (ret, s4)))
                        else guardE ''current not ready'' (state (threads s3 current_thread) \<noteq> THREAD_READY)
                            (Inr (ret, s3))
                   else guardE ''current not ready'' (state (threads s2 current_thread) \<noteq> THREAD_READY)
                          (Inr (ret, s2))))))))"

definition wait_queue_destroy :: "cpu_num \<Rightarrow> wq_ref \<Rightarrow> bool \<Rightarrow> kstate \<Rightarrow> kstate res" where
  "wait_queue_destroy cpu w reschedule s =
     guardE ''wait queue magic'' (wq_magic (wait_queues s w) = WAIT_QUEUE_MAGIC)
     (guardE ''thread lock held'' (thread_lock_held cpu s)
       (bindE (wait_queue_wake_all cpu w reschedule ERR_OBJECT_DESTROYED s)
         (\<lambda>(_, s1). Inr (upd_wq w (\<lambda>q. q\<lparr>wq_magic := 0\<rparr>) s1))))"

definition thread_unblock_from_wait_queue ::
    "cpu_num \<Rightarrow> tid \<Rightarrow> int \<Rightarrow> kstate \<Rightarrow> (int \<times> kstate) res" where
  "thread_unblock_from_wait_queue cpu t wait_queue_error s =
     guardE ''thread magic'' (magic (threads s t) = THREAD_MAGIC)
     (guardE ''thread lock held'' (thread_lock_held cpu s)
       (bindE (thread_check_cookie t s)
         (\<lambda>_. if state (threads s t) \<noteq> THREAD_BLOCKED then Inr (ERR_NOT_BLOCKED, s)
              else case blocking_wait_queue (threads s t) of
                None \<Rightarrow> Inl (Assertion_failed ''blocking wait queue'')
              | Some w \<Rightarrow>
                  guardE ''wait queue magic'' (wq_magic (wait_queues s w) = WAIT_QUEUE_MAGIC)
                  (guardE ''in a queue'' (queue_node (threads s t) \<noteq> Not_queued)
                    (bindE (insert_in_run_queue_head cpu t
                        (upd_thread t (\<lambda>th. th\<lparr>blocking_wait_queue := None, state := THREAD_READY,
                                                wait_queue_block_ret := wait_queue_error\<rparr>)
                          (upd_wq w (\<lambda>q. q\<lparr>wq_count := wq_count q - 1\<rparr>)
                            (list_delete_queue_node t s))))
                      (\<lambda>s1. bindE (thread_mp_reschedule cpu (current s1 cpu) t s1)
                        (\<lambda>s2. Inr (NO_ERROR, s2))))))))"

definition wait_queue_timeout_handler :: "cpu_num \<Rightarrow> tid \<Rightarrow> kstate \<Rightarrow> (handler_return \<times> kstate) res" where
  "wait_queue_timeout_handler cpu t s =
     guardE ''thread magic'' (magic (threads s t) = THREAD_MAGIC)
       (bindE (thread_lock cpu s)
         (\<lambda>s1. bindE (thread_unblock_from_wait_queue cpu t ERR_TIMED_OUT s1)
           (\<lambda>(r, s2). bindE (thread_unlock cpu s2)
             (\<lambda>s3. Inr (if r \<ge> NO_ERROR then INT_RESCHEDULE else INT_NO_RESCHEDULE, s3)))))"

definition wait_queue_block :: "cpu_num \<Rightarrow> wq_ref \<Rightarrow> time_ms \<Rightarrow> kstate \<Rightarrow> int call res" where
  "wait_queue_block cpu w timeout s =
     (let current_thread = current s cpu
      in guardE ''wait queue magic'' (wq_magic (wait_queues s w) = WAIT_QUEUE_MAGIC)
        (guardE ''running'' (state (threads s current_thread) = THREAD_RUNNING)
        (guardE ''thread lock held'' (thread_lock_held cpu s)
          (if timeout = 0 then Inr (Return ERR_TIMED_OUT s)
           else
             let s1 = upd_thread current_thread
                  (\<lambda>th. th\<lparr>queue_node := In_wait_queue w, state := THREAD_BLOCKED,
                           blocking_wait_queue := Some w, wait_queue_block_ret := NO_ERROR\<rparr>)
                  (upd_wq w (\<lambda>q. q\<lparr>wq_list := wq_list q @ [current_thread], wq_count := wq_count q + 1\<rparr>) s)
             in bindE (if timeout \<noteq> INFINITE_TIME then
                         bindE (timer_set_oneshot_ns (smp_max_cpus s1) cpu (clock s1)
                                  (Stack_timer current_thread) (MS2NS timeout)
                                  wait_queue_timeout_handler_cb current_thread
                                  (timer_initialize (Stack_timer current_thread) (timers s1)))
                           (\<lambda>ts. Inr (s1\<lparr>timers := ts\<rparr>))
                       else Inr s1)
                 (\<lambda>s2. bindE (thread_resched cpu s2) (\<lambda>s3. Inr (Switched_out s3)))))))"

text \<open>
  \<^verbatim>\<open>timer_cancel_sync\<close> from a thread, with the thread lock free and interrupts on: if the callback
  runs elsewhere, yield and look again when scheduled in.
\<close>

definition timer_cancel_sync :: "cpu_num \<Rightarrow> timer_ref \<Rightarrow> kstate \<Rightarrow> unit call res" where
  "timer_cancel_sync cpu r s =
     bindE (timer_cancel_etc (smp_max_cpus s) cpu (clock s) False r True (timers s))
       (\<lambda>c. case c of
          Wait_again \<Rightarrow> bindE (thread_yield cpu s) (\<lambda>s1. Inr (Switched_out s1))
        | Cancelled ts \<Rightarrow> Inr (Return () (s\<lparr>timers := ts\<rparr>)))"

text \<open>\<^verbatim>\<open>wait_queue_block\<close> after the reschedule. The value is returned with the thread lock held.\<close>

definition wait_queue_block_resume :: "cpu_num \<Rightarrow> time_ms \<Rightarrow> kstate \<Rightarrow> int call res" where
  "wait_queue_block_resume cpu timeout s =
     (let current_thread = current s cpu
      in if timeout \<noteq> INFINITE_TIME then
           bindE (timer_cancel_sync cpu (Stack_timer current_thread) s)
             (\<lambda>c. case c of
                Switched_out s1 \<Rightarrow> Inr (Switched_out s1)
              | Return _ s1 \<Rightarrow> bindE (thread_lock cpu s1)
                  (\<lambda>s2. Inr (Return (wait_queue_block_ret (threads s2 current_thread)) s2)))
         else bindE (thread_lock cpu s)
                (\<lambda>s1. Inr (Return (wait_queue_block_ret (threads s1 current_thread)) s1)))"

section \<open>Entering and leaving a wait queue\<close>

text \<open>The state after the current thread has put itself into the queue.\<close>

definition enqueued :: "tid \<Rightarrow> wq_ref \<Rightarrow> kstate \<Rightarrow> kstate" where
  "enqueued t w s = upd_thread t
     (\<lambda>th. th\<lparr>queue_node := In_wait_queue w, state := THREAD_BLOCKED,
              blocking_wait_queue := Some w, wait_queue_block_ret := NO_ERROR\<rparr>)
     (upd_wq w (\<lambda>q. q\<lparr>wq_list := wq_list q @ [t], wq_count := wq_count q + 1\<rparr>) s)"

text \<open>The state after \<open>t\<close> was taken from the queue and made ready.\<close>

definition dequeued :: "tid \<Rightarrow> wq_ref \<Rightarrow> int \<Rightarrow> kstate \<Rightarrow> kstate" where
  "dequeued t w e s = upd_thread t
     (\<lambda>th. th\<lparr>queue_node := Not_queued, state := THREAD_READY,
              blocking_wait_queue := None, wait_queue_block_ret := e\<rparr>)
     (upd_wq w (\<lambda>q. q\<lparr>wq_list := remove1 t (wq_list q), wq_count := wq_count q - 1\<rparr>) s)"

lemma thread_is_wait [simp]:
  "thread_is_idle (th\<lparr>queue_node := q, state := st, blocking_wait_queue := b, wait_queue_block_ret := e\<rparr>) =
     thread_is_idle th"
  "thread_is_real_time_or_idle
     (th\<lparr>queue_node := q, state := st, blocking_wait_queue := b, wait_queue_block_ret := e\<rparr>) =
     thread_is_real_time_or_idle th"
  by (simp_all add: thread_is_idle_def thread_is_real_time_or_idle_def)

lemma thread_ok_wait:
  "thread_ok s u \<Longrightarrow> st \<noteq> THREAD_RUNNING \<Longrightarrow>
     thread_ok (upd_thread t (\<lambda>th. th\<lparr>queue_node := q, state := st, blocking_wait_queue := b,
       wait_queue_block_ret := e\<rparr>) s) u"
  by (auto simp: thread_ok_def)

lemma cpu_ok_wait [simp]:
  "cpu_ok (upd_thread t (\<lambda>th. th\<lparr>queue_node := q, state := st, blocking_wait_queue := b,
       wait_queue_block_ret := e\<rparr>) s) c = cpu_ok s c"
proof -
  let ?f = "\<lambda>th :: thread. th\<lparr>queue_node := q, state := st, blocking_wait_queue := b, wait_queue_block_ret := e\<rparr>"
  have "thread_is_idle (threads (upd_thread t ?f s) u) = thread_is_idle (threads s u)"
    "thread_is_real_time_or_idle (threads (upd_thread t ?f s) u) = thread_is_real_time_or_idle (threads s u)"
    "curr_cpu (threads (upd_thread t ?f s) u) = curr_cpu (threads s u)"
    "pinned_cpu (threads (upd_thread t ?f s) u) = pinned_cpu (threads s u)" for u
    by simp_all
  then show ?thesis unfolding cpu_ok_def preempt_ok_def by (simp del: upd_thread_simps(1))
qed

lemma sched_inv_enqueued:
  assumes inv: "sched_inv_at X Y s" and t: "t \<in> set (thread_list s)"
    and n: "queue_node (threads s t) = Not_queued" and i: "\<not> thread_is_idle (threads s t)"
    and m: "wq_magic (wait_queues s w) = WAIT_QUEUE_MAGIC"
    and Y: "Y \<subseteq> Y'" "\<And>c. up s c \<Longrightarrow> current s c = t \<Longrightarrow> c \<in> Y'"
  shows "sched_inv_at (X - {t}) Y' (enqueued t w s)"
proof -
  from inv have q: "rq_inv s" "wq_inv s" "queued_inv s" by (simp_all add: sched_inv_at_def)
  have "t \<notin> set (wq_list (wait_queues s w))" using q(2) n by (simp add: wq_inv_def)
  then have "wq_inv (enqueued t w s)" using q(2) n m by (auto simp: wq_inv_def enqueued_def)
  moreover have "rq_inv (enqueued t w s)" using q(1) n by (auto simp: rq_inv_def enqueued_def)
  moreover have "queued_inv (enqueued t w s)"
    using q(3) t i by (auto simp: queued_inv_def queued_ok_def enqueued_def cong: queue_link.case_cong)
  moreover have "threads_inv (X - {t}) (enqueued t w s)"
    using inv not_dead [OF inv t] by (auto simp: sched_inv_at_def threads_inv_def enqueued_def thread_ok_wait settled_def)
  moreover have "cpus_inv Y' (enqueued t w s)"
    using inv Y by (auto simp: sched_inv_at_def cpus_inv_def enqueued_def)
  ultimately show ?thesis by (simp add: sched_inv_at_def)
qed

lemma sched_inv_dequeued:
  assumes inv: "sched_inv_at X Y s" and t: "t \<in> set (wq_list (wait_queues s w))"
  shows "sched_inv_at (insert t X) Y (dequeued t w e s)"
proof -
  note m = wait_queue_member [OF inv t]
  from inv have q: "rq_inv s" "wq_inv s" "queued_inv s" by (simp_all add: sched_inv_at_def)
  from t have "Suc (length (remove1 t (wq_list (wait_queues s w)))) = length (wq_list (wait_queues s w))"
    by (auto simp: length_remove1 dest: length_pos_if_in_set)
  then have l: "int (length (remove1 t (wq_list (wait_queues s w)))) = int (length (wq_list (wait_queues s w))) - 1"
    by linarith
  have cur: "c \<in> Y" if "up s c" "current s c = t" for c
    using that m(1) inv by (auto simp: sched_inv_at_def cpus_inv_def)
  have "wq_inv (dequeued t w e s)"
    using q(2) t m(5,6) l by (auto simp: wq_inv_def dequeued_def)
  moreover have "rq_inv (dequeued t w e s)" using q(1) m(5) by (auto simp: rq_inv_def dequeued_def)
  moreover have "queued_inv (dequeued t w e s)"
    using q(3) by (auto simp: queued_inv_def queued_ok_def dequeued_def cong: queue_link.case_cong)
  moreover have "threads_inv (insert t X) (dequeued t w e s)"
    using inv not_dead [OF inv m(3)] by (auto simp: sched_inv_at_def threads_inv_def dequeued_def thread_ok_wait settled_def)
  moreover have "cpus_inv Y (dequeued t w e s)"
    using inv cur by (auto simp: sched_inv_at_def cpus_inv_def dequeued_def)
  ultimately show ?thesis by (simp add: sched_inv_at_def)
qed

section \<open>Waking\<close>

text \<open>The threads \<open>ts\<close> leave the queue with the value \<open>e\<close> and wait in the run queue; nothing else
  changes.\<close>

definition wake_frame :: "kstate \<Rightarrow> kstate \<Rightarrow> bool" where
  "wake_frame s s' \<longleftrightarrow>
     thread_list s' = thread_list s \<and> idle_threads s' = idle_threads s \<and> current s' = current s \<and>
     active_cpus s' = active_cpus s \<and> smp_max_cpus s' = smp_max_cpus s \<and>
     thread_lock_owner s' = thread_lock_owner s \<and> clock s' = clock s \<and>
     dead_threads s' = dead_threads s \<and> timers s' = timers s"

definition woken :: "tid list \<Rightarrow> wq_ref \<Rightarrow> int \<Rightarrow> kstate \<Rightarrow> kstate \<Rightarrow> bool" where
  "woken ts w e s s' \<longleftrightarrow>
     (\<forall>t. threads s' t = (if t \<in> set ts then (threads s t)\<lparr>queue_node := In_run_queue (prio_index t s),
            state := THREAD_READY, blocking_wait_queue := None, wait_queue_block_ret := e\<rparr>
          else threads s t)) \<and>
     wait_queues s' = (wait_queues s)(w := (wait_queues s w)\<lparr>
        wq_list := filter (\<lambda>t. t \<notin> set ts) (wq_list (wait_queues s w)),
        wq_count := wq_count (wait_queues s w) - int (length ts)\<rparr>) \<and>
     wake_frame s s'"

lemma woken_Nil: "woken [] w e s s"
  by (simp add: woken_def wake_frame_def)

lemma woken_Cons:
  assumes "woken [t] w e s s1" "woken ts w e s1 s2" "t \<notin> set ts"
  shows "woken (t # ts) w e s s2"
proof -
  have p: "prio_index u s1 = prio_index u s" for u using assms(1) by (simp add: woken_def prio_index_def)
  from assms(1) have th: "threads s1 u = (if u = t then (threads s u)\<lparr>queue_node := In_run_queue (prio_index u s),
      state := THREAD_READY, blocking_wait_queue := None, wait_queue_block_ret := e\<rparr> else threads s u)" for u
    by (simp add: woken_def)
  from assms(1) have wq: "wait_queues s1 = (wait_queues s)(w := (wait_queues s w)\<lparr>
      wq_list := filter (\<lambda>u. u \<noteq> t) (wq_list (wait_queues s w)), wq_count := wq_count (wait_queues s w) - 1\<rparr>)"
    by (simp add: woken_def)
  from assms(2,3) have th2: "threads s2 u = (if u \<in> set (t # ts) then (threads s u)\<lparr>queue_node := In_run_queue (prio_index u s),
      state := THREAD_READY, blocking_wait_queue := None, wait_queue_block_ret := e\<rparr> else threads s u)" for u
    by (simp add: woken_def th p)
  from assms(2) have wq2: "wait_queues s2 = (wait_queues s)(w := (wait_queues s w)\<lparr>
      wq_list := filter (\<lambda>u. u \<notin> set (t # ts)) (wq_list (wait_queues s w)),
      wq_count := wq_count (wait_queues s w) - int (length (t # ts))\<rparr>)"
    by (simp add: woken_def wq diff_diff_eq conj_commute)
  have fr: "wake_frame s s2"
    using assms(1) [unfolded woken_def, THEN conjunct2, THEN conjunct2]
      assms(2) [unfolded woken_def, THEN conjunct2, THEN conjunct2] by (simp add: wake_frame_def)
  show ?thesis unfolding woken_def by (intro conjI allI th2 wq2 fr)
qed

lemma woken_only_mp: "woken ts w e s s1 \<Longrightarrow> only_mp s1 s2 \<Longrightarrow> woken ts w e s s2"
  by (simp add: woken_def wake_frame_def only_mp_simps)

lemma thread_check_cookie_upd [simp]:
  "thread_check_cookie t (upd_wq w g s) = thread_check_cookie t s"
  "(\<And>th. cookie (f th) = cookie th) \<Longrightarrow> thread_check_cookie t (upd_thread u f s) = thread_check_cookie t s"
  by (simp_all add: thread_check_cookie_def thread_get_expected_cookie_def)

lemma wait_fields_commute:
  "(th :: thread)\<lparr>wait_queue_block_ret := e, blocking_wait_queue := b\<rparr> =
     th\<lparr>blocking_wait_queue := b, wait_queue_block_ret := e\<rparr>"
  "(th :: thread)\<lparr>blocking_wait_queue := b, state := st\<rparr> = th\<lparr>state := st, blocking_wait_queue := b\<rparr>"
  by (cases th; simp)+

lemma make_ready_eq:
  assumes inv: "sched_inv_at X Y s" and r: "wq_remove_head w s = Some (t, s1)"
  shows "make_ready w e t s1 = Inr (dequeued t w e s)" "t \<in> set (wq_list (wait_queues s w))"
proof -
  from r obtain ts where l: "wq_list (wait_queues s w) = t # ts" and
    s1: "s1 = upd_thread t (\<lambda>th. th\<lparr>queue_node := Not_queued\<rparr>) (upd_wq w (\<lambda>q. q\<lparr>wq_list := ts\<rparr>) s)"
    by (auto simp: wq_remove_head_def split: list.splits)
  from l show t: "t \<in> set (wq_list (wait_queues s w))" by simp
  note m = wait_queue_member [OF inv t]
  note k = thread_okD [OF inv m(3)]
  then have mg: "magic (threads s t) = THREAD_MAGIC" by (simp add: thread_ok_def)
  show "make_ready w e t s1 = Inr (dequeued t w e s)"
    using k mg m(1) l unfolding s1
    by (simp add: make_ready_def dequeued_def Let_def) (simp add: upd_thread_def upd_wq_def wait_fields_commute)
qed

text \<open>A dequeued thread put into the run queue.\<close>

lemma dequeued_insert:
  assumes inv: "sched_inv_at X Y s" and lk: "thread_lock_held cpu s"
    and t: "t \<in> set (wq_list (wait_queues s w))"
  shows "okE (\<lambda>s2. sched_inv_at (X - {t}) Y s2 \<and> woken [t] w e s s2)
    (insert_in_run_queue_head cpu t (dequeued t w e s))"
proof -
  note m = wait_queue_member [OF inv t]
  let ?d = "dequeued t w e s"
  have d: "distinct (wq_list (wait_queues s w))" using inv by (simp add: sched_inv_at_def wq_inv_def)
  have "okE (sched_inv_at (insert t X - {t}) Y) (insert_in_run_queue_head cpu t ?d)"
    using m lk by (intro insert_in_run_queue_ok [OF sched_inv_dequeued [OF inv t]])
      (simp_all add: dequeued_def thread_lock_held_def)
  then obtain s2 where s2: "insert_in_run_queue_head cpu t ?d = Inr s2" "sched_inv_at (X - {t}) Y s2"
    by (auto simp: okE_iff_ex)
  have rm: "remove1 t (wq_list (wait_queues s w)) = filter (\<lambda>u. u \<noteq> t) (wq_list (wait_queues s w))"
    using d by (rule remove1_filter)
  have "prio_index t ?d = prio_index t s" by (simp add: prio_index_def dequeued_def)
  with insert_in_run_queue_touches(1) [OF s2(1)] have "woken [t] w e s s2"
    by (simp add: woken_def wake_frame_def touches_def dequeued_def rm)
  with s2 show ?thesis by simp
qed

lemma thread_range_in_list: "sched_inv_at X Y s \<Longrightarrow> t \<in> set (thread_list s) \<Longrightarrow> in_range s (threads s t)"
  by (rule thread_ok_in_range, rule thread_okD)

text \<open>Waking without a reschedule. The set \<open>Y\<close> of unsettled cpus is arbitrary, so the lemmas also
  serve a thread that is about to give up its cpu.\<close>

lemma wq_remove_head_cases:
  "wq_list (wait_queues s w) = [] \<Longrightarrow> wq_remove_head w s = None"
  "wq_list (wait_queues s w) = t # ts \<Longrightarrow> \<exists>s1. wq_remove_head w s = Some (t, s1)"
  by (simp_all add: wq_remove_head_def)

lemma wake_one_ok:
  assumes inv: "sched_inv_at X Y s" and lk: "thread_lock_held cpu s"
    and m: "wq_magic (wait_queues s w) = WAIT_QUEUE_MAGIC"
  shows "okE (\<lambda>(n, s'). sched_inv_at X Y s' \<and> n = (if wq_list (wait_queues s w) = [] then 0 else 1) \<and>
      woken (take 1 (wq_list (wait_queues s w))) w e s s') (wait_queue_wake_one cpu w False e s)"
proof (cases "wq_list (wait_queues s w)")
  case Nil
  then show ?thesis using inv lk m
    by (simp add: wait_queue_wake_one_def wq_remove_head_def woken_Nil)
next
  case (Cons t ts)
  then obtain s1 where s1: "wq_remove_head w s = Some (t, s1)" using wq_remove_head_cases by blast
  note mr = make_ready_eq [OF inv s1]
  note t = wait_queue_member [OF inv mr(2)]
  from dequeued_insert [OF inv lk mr(2)] obtain s2 where
    s2: "insert_in_run_queue_head cpu t (dequeued t w e s) = Inr s2" "sched_inv_at (X - {t}) Y s2"
      "woken [t] w e s s2" by (auto simp: okE_iff_ex)
  have "in_range s2 (threads s2 t)" using thread_range_in_list [OF s2(2), of t] t(3) s2(3)
    by (simp add: woken_def wake_frame_def)
  then have "okE (\<lambda>s'. sched_inv_at X Y s' \<and> woken [t] w e s s') (thread_mp_reschedule cpu (current s cpu) t s2)"
    using s2(2,3) by (intro okE_mono [OF thread_mp_reschedule_ok])
      (auto simp: only_mp_inv elim: woken_only_mp sched_inv_mono)
  with Cons lk m s1 mr(1) s2(1) show ?thesis
    by (auto simp: wait_queue_wake_one_def Let_def elim!: okE_mono)
qed

lemma wake_step_ok:
  assumes inv: "sched_inv_at X Y s" and lk: "thread_lock_held cpu s"
    and r: "wq_remove_head w s = Some (t, s1)"
  shows "okE (\<lambda>(m, s'). sched_inv_at X Y s' \<and> thread_lock_held cpu s' \<and> woken [t] w e s s')
    (wake_step cpu cur w e target t s1)"
proof -
  note mr = make_ready_eq [OF inv r]
  note t = wait_queue_member [OF inv mr(2)]
  from dequeued_insert [OF inv lk mr(2)] obtain s2 where
    s2: "insert_in_run_queue_head cpu t (dequeued t w e s) = Inr s2" "sched_inv_at (X - {t}) Y s2"
      "woken [t] w e s s2" by (auto simp: okE_iff_ex)
  have rng: "in_range s2 (threads s2 t)" using thread_range_in_list [OF s2(2), of t] t(3) s2(3)
    by (simp add: woken_def wake_frame_def)
  have lk2: "thread_lock_held cpu s2" using s2(3) lk by (simp add: woken_def wake_frame_def thread_lock_held_def)
  have "okE (\<lambda>(m, s'). only_mp s2 s') (thread_get_mp_reschedule_target cpu cur t s2)"
    by (rule thread_get_mp_reschedule_target_ok [OF rng])
  then have "okE (\<lambda>(m, s'). sched_inv_at X Y s' \<and> thread_lock_held cpu s' \<and> woken [t] w e s s')
      (thread_get_mp_reschedule_target cpu cur t s2)"
    using s2(2,3) lk2 by (elim okE_mono)
      (auto simp: only_mp_inv only_mp_simps thread_lock_held_def elim: woken_only_mp sched_inv_mono)
  with mr(1) s2(1) show ?thesis by (auto simp: wake_step_def elim!: okE_mono)
qed

lemma wake_all_loop_ok:
  assumes "sched_inv_at X Y s" "thread_lock_held cpu s" "wq_list (wait_queues s w) = ts"
  shows "okE (\<lambda>(m, n, s'). sched_inv_at X Y s' \<and> n = ret + int (length ts) \<and> woken ts w e s s')
    (wake_all_loop cpu cur w e target ret s)"
  using assms
proof (induction ts arbitrary: s target ret)
  case Nil
  then show ?case by (simp add: wake_all_loop.simps wq_remove_head_def woken_Nil)
next
  case (Cons t ts)
  then obtain s1 where s1: "wq_remove_head w s = Some (t, s1)" using wq_remove_head_cases by blast
  have d: "distinct (t # ts)" using Cons.prems(1,3) by (metis sched_inv_at_def wq_inv_def)
  let ?post = "\<lambda>(m, n, s'). sched_inv_at X Y s' \<and> n = ret + int (length (t # ts)) \<and> woken (t # ts) w e s s'"
  have "okE ?post (bindE (wake_step cpu cur w e target t s1)
      (\<lambda>(target', s'). wake_all_loop cpu cur w e target' (ret + 1) s'))"
  proof (rule okE_bindI [OF wake_step_ok [OF Cons.prems(1,2) s1]], clarify)
    fix m s2 assume s2: "sched_inv_at X Y s2" "thread_lock_held cpu s2" "woken [t] w e s s2"
    have "wq_list (wait_queues s2 w) = filter (\<lambda>u. u \<noteq> t) (t # ts)"
      using s2(3) Cons.prems(3) by (simp add: woken_def)
    also have "\<dots> = ts" using d by (auto intro: filter_True)
    finally have l: "wq_list (wait_queues s2 w) = ts" .
    show "okE ?post (wake_all_loop cpu cur w e m (ret + 1) s2)"
      using Cons.IH [OF s2(1,2) l, of "ret + 1" m] d
      by (auto elim!: okE_mono intro: woken_Cons [OF s2(3)])
  qed
  with s1 show ?case by (subst wake_all_loop.simps) (simp del: okE_bind)
qed

lemma wake_all_ok:
  assumes inv: "sched_inv_at X Y s" and lk: "thread_lock_held cpu s"
    and m: "wq_magic (wait_queues s w) = WAIT_QUEUE_MAGIC"
    and cur: "state (threads s (current s cpu)) \<noteq> THREAD_READY"
      "current s cpu \<notin> set (wq_list (wait_queues s w))"
  shows "okE (\<lambda>(n, s'). sched_inv_at X Y s' \<and> n = int (length (wq_list (wait_queues s w))) \<and>
      woken (wq_list (wait_queues s w)) w e s s') (wait_queue_wake_all cpu w False e s)"
proof -
  let ?ts = "wq_list (wait_queues s w)"
  let ?post = "\<lambda>(n, s'). sched_inv_at X Y s' \<and> n = int (length ?ts) \<and> woken ?ts w e s s'"
  from wake_all_loop_ok [OF inv lk refl, of 0 w e "current s cpu" 0]
  obtain k s2 where s2: "wake_all_loop cpu (current s cpu) w e 0 0 s = Inr (k, int (length ?ts), s2)"
      "sched_inv_at X Y s2" "woken ?ts w e s s2" by (auto simp: okE_iff_ex)
  have c: "wq_count (wait_queues s2 w) = 0"
    using s2(3) inv by (simp add: woken_def sched_inv_at_def wq_inv_def)
  have st: "state (threads s2 (current s cpu)) \<noteq> THREAD_READY"
    using s2(3) cur by (simp add: woken_def)
  have mp: "only_mp s2 (mp_reschedule cpu k 0 s2)" by simp
  show ?thesis using lk m s2(1,2) c st woken_only_mp [OF s2(3) mp] s2(3)
    by (auto simp: wait_queue_wake_all_def only_mp_inv [OF mp] only_mp_simps(1) [OF mp] Let_def)
qed

section \<open>Waking with or without a reschedule\<close>

text \<open>What the callers rely on, whether or not a reschedule followed: the threads \<open>ts\<close> were released
  with the value \<open>e\<close> and are runnable, the others of the queue still wait.\<close>

definition released :: "tid list \<Rightarrow> wq_ref \<Rightarrow> int \<Rightarrow> kstate \<Rightarrow> kstate \<Rightarrow> bool" where
  "released ts w e s s' \<longleftrightarrow>
     (\<forall>t \<in> set ts. wait_queue_block_ret (threads s' t) = e \<and> blocking_wait_queue (threads s' t) = None \<and>
        state (threads s' t) \<in> {THREAD_READY, THREAD_RUNNING}) \<and>
     (\<forall>t. t \<notin> set ts \<longrightarrow> wait_queue_block_ret (threads s' t) = wait_queue_block_ret (threads s t)) \<and>
     wq_list (wait_queues s' w) = filter (\<lambda>t. t \<notin> set ts) (wq_list (wait_queues s w)) \<and>
     wq_magic (wait_queues s' w) = wq_magic (wait_queues s w) \<and>
     (\<forall>v. v \<noteq> w \<longrightarrow> wait_queues s' v = wait_queues s v) \<and>
     thread_list s' = thread_list s \<and> active_cpus s' = active_cpus s \<and> smp_max_cpus s' = smp_max_cpus s \<and>
     clock s' = clock s \<and> dead_threads s' = dead_threads s"

lemma woken_released: "woken ts w e s s' \<Longrightarrow> released ts w e s s'"
  by (auto simp: woken_def wake_frame_def released_def)

lemma released_resched:
  assumes "released ts w e s s1" "resched_rel cpu n s1 s2"
  shows "released ts w e s s2"
proof -
  from assms(2) have same: "same_thread (threads s1 t) (threads s2 t)" for t by (simp add: resched_rel_def)
  note f = same_thread_fields [OF same]
  have st: "state (threads s2 t) \<in> {THREAD_READY, THREAD_RUNNING}"
    if "state (threads s1 t) \<in> {THREAD_READY, THREAD_RUNNING}" for t
    using that assms(2) by (cases "t = n") (simp_all add: resched_rel_def)
  from assms(2) have eqs: "wait_queues s2 = wait_queues s1" "thread_list s2 = thread_list s1"
      "active_cpus s2 = active_cpus s1" "smp_max_cpus s2 = smp_max_cpus s1" "clock s2 = clock s1"
      "dead_threads s2 = dead_threads s1" by (simp_all add: resched_rel_def)
  note w = assms(1) [unfolded released_def]
  show ?thesis unfolding released_def eqs f(6,7) by (rule conjI) (use w st in blast, rule w [THEN conjunct2])
qed

lemma released_switch: "released ts w e s s1 \<Longrightarrow> switch_frame s1 s2 \<Longrightarrow> released ts w e s s2"
proof -
  assume w: "released ts w e s s1" and f: "switch_frame s1 s2"
  have "state (threads s2 t) \<in> {THREAD_READY, THREAD_RUNNING}"
    if "state (threads s1 t) \<in> {THREAD_READY, THREAD_RUNNING}" for t
    using that f by (metis switch_frame_def)
  with w f show ?thesis by (simp add: released_def switch_frame_def)
qed

lemma resched_released:
  assumes r: "ready_to_resched cpu s1" and w: "released ts w e s s1"
  shows "okE (\<lambda>s'. sched_inv s' \<and> thread_lock_held cpu s' \<and> runs_best cpu s' \<and> released ts w e s s')
    (thread_resched cpu s1)"
proof -
  from r have r': "sched_inv_at {} {cpu} s1" "up s1 cpu" "thread_lock_held cpu s1"
      "state (threads s1 (current s1 cpu)) \<noteq> THREAD_RUNNING" by (simp_all add: ready_to_resched_def)
  show ?thesis
    by (rule okE_mono [OF thread_resched_ok [OF r']])
      (auto intro: released_resched [OF w] resched_runs_best [OF next_thread_policy [OF r'(1,2)]])
qed

lemma current_not_waiting:
  assumes "sched_inv_at X {} s" "up s cpu"
  shows "current s cpu \<notin> set (wq_list (wait_queues s w))"
  using wait_queue_member(1) [OF assms(1)] current_running [OF assms] by force

text \<open>The current thread, made ready, enters the run queue ahead of a reschedule.\<close>

lemma current_requeued:
  assumes inv: "sched_inv_at X {} s" and u: "up s cpu" and lk: "thread_lock_held cpu s"
    and i: "\<not> thread_is_idle (threads s (current s cpu))" and x: "current s cpu \<notin> X"
  shows "okE (\<lambda>s'. sched_inv_at X {cpu} s' \<and> touches (current s cpu) s s' \<and>
      (\<exists>q. threads s' (current s cpu) = (threads s (current s cpu))\<lparr>state := THREAD_READY, queue_node := q\<rparr>))
    (insert_in_run_queue_head cpu (current s cpu)
      (upd_thread (current s cpu) (\<lambda>th. th\<lparr>state := THREAD_READY\<rparr>) s))"
proof -
  let ?t = "current s cpu" and ?s1 = "upd_thread (current s cpu) (\<lambda>th. th\<lparr>state := THREAD_READY\<rparr>) s"
  have tl: "?t \<in> set (thread_list s)" using current_in_list [OF inv u] by simp
  have n: "queue_node (threads s ?t) = Not_queued"
    using running_not_queued [OF inv current_running [OF inv u]] by simp
  have inv1: "sched_inv_at (insert ?t X) {cpu} ?s1"
    by (rule leave_running [OF inv u refl])
      (use thread_range_in_list [OF inv tl] in \<open>auto simp: keeps_identity_def in_range_def\<close>)
  have "okE (sched_inv_at (insert ?t X - {?t}) {cpu}) (insert_in_run_queue_head cpu ?t ?s1)"
    using tl n i lk by (intro insert_in_run_queue_ok [OF inv1]) (simp_all add: thread_lock_held_def)
  then obtain s2 where s2: "insert_in_run_queue_head cpu ?t ?s1 = Inr s2" "sched_inv_at X {cpu} s2"
    using x by (auto simp: okE_iff_ex)
  with insert_in_run_queue_touches(1) [OF s2(1)] show ?thesis
    by (auto simp: touches_def)
qed

lemma released_after_touch:
  assumes "released ts w e s1 s2" "touches u s s1"
    "wait_queue_block_ret (threads s1 u) = wait_queue_block_ret (threads s u)"
  shows "released ts w e s s2"
proof -
  have "wait_queue_block_ret (threads s1 t) = wait_queue_block_ret (threads s t)" for t
    using assms(2,3) by (cases "t = u") (simp_all add: touches_def)
  with assms(1,2) show ?thesis unfolding released_def touches_def by simp
qed

lemma wake_one_resched:
  assumes inv: "sched_inv s" and u: "up s cpu" and lk: "thread_lock_held cpu s"
    and m: "wq_magic (wait_queues s w) = WAIT_QUEUE_MAGIC"
    and i: "\<not> thread_is_idle (threads s (current s cpu))" and l: "wq_list (wait_queues s w) = t # ts"
  shows "okE (\<lambda>(n, s'). sched_inv s' \<and> thread_lock_held cpu s' \<and> runs_best cpu s' \<and> n = 1 \<and>
      released [t] w e s s') (wait_queue_wake_one cpu w True e s)"
proof -
  obtain s1 where s1: "wq_remove_head w s = Some (t, s1)" using wq_remove_head_cases l by blast
  note mr = make_ready_eq [OF inv s1]
  note t = wait_queue_member [OF inv mr(2)]
  let ?d = "dequeued t w e s" and ?cur = "current s cpu"
  have inv1: "sched_inv_at {t} {} ?d" using sched_inv_dequeued [OF inv mr(2)] by simp
  have ct: "?cur \<noteq> t" using current_not_waiting [OF inv u] mr(2) by auto
  have "okE (\<lambda>s3. sched_inv_at {t} {cpu} s3 \<and> touches ?cur ?d s3 \<and>
      (\<exists>q. threads s3 ?cur = (threads ?d ?cur)\<lparr>state := THREAD_READY, queue_node := q\<rparr>))
    (insert_in_run_queue_head cpu ?cur (upd_thread ?cur (\<lambda>th. th\<lparr>state := THREAD_READY\<rparr>) ?d))"
    using current_requeued [OF inv1, of cpu] u lk i ct by (simp add: dequeued_def thread_lock_held_def)
  then obtain s3 q where s3:
    "insert_in_run_queue_head cpu ?cur (upd_thread ?cur (\<lambda>th. th\<lparr>state := THREAD_READY\<rparr>) ?d) = Inr s3"
    "sched_inv_at {t} {cpu} s3" "touches ?cur ?d s3"
    "threads s3 ?cur = (threads ?d ?cur)\<lparr>state := THREAD_READY, queue_node := q\<rparr>" by (auto simp: okE_iff_ex)
  have t3: "threads s3 t = threads ?d t" using s3(3) ct by (simp add: touches_def)
  have "okE (sched_inv_at ({t} - {t}) {cpu}) (insert_in_run_queue_head cpu t s3)"
    using t lk s3(3) by (intro insert_in_run_queue_ok [OF s3(2)])
      (simp_all add: t3, simp_all add: dequeued_def touches_def thread_lock_held_def)
  then obtain s4 where s4: "insert_in_run_queue_head cpu t s3 = Inr s4" "sched_inv_at {} {cpu} s4"
    by (auto simp: okE_iff_ex)
  note f4 = insert_in_run_queue_touches(1) [OF s4(1)]
  have fr: "wake_frame s s4" "wait_queues s4 = wait_queues ?d"
    using f4 s3(3) by (simp_all add: wake_frame_def touches_def dequeued_def)
  have th4: "state (threads s4 ?cur) = THREAD_READY" "state (threads s4 t) = THREAD_READY"
    "blocking_wait_queue (threads s4 t) = None" "wait_queue_block_ret (threads s4 t) = e"
    using f4 s3(4) ct t3 by (simp_all add: touches_def dequeued_def)
  have "wait_queue_block_ret (threads s4 v) = wait_queue_block_ret (threads s v)" if "v \<noteq> t" for v
    using that f4 s3(3,4) by (cases "v = ?cur") (simp_all add: touches_def dequeued_def)
  moreover have "remove1 t (wq_list (wait_queues s w)) = filter (\<lambda>v. v \<noteq> t) (wq_list (wait_queues s w))"
    by (rule remove1_filter) (use inv in \<open>simp add: sched_inv_at_def wq_inv_def\<close>)
  ultimately have rel: "released [t] w e s s4"
    using th4 fr by (simp add: released_def wake_frame_def dequeued_def)
  have "in_range s4 (threads s4 t)"
    using thread_range_in_list [OF s4(2), of t] t(3) fr(1) by (simp add: wake_frame_def)
  then obtain s5 where s5: "thread_mp_reschedule cpu ?cur t s4 = Inr s5" "only_mp s4 s5"
    using thread_mp_reschedule_ok [of s4 t cpu ?cur] by (auto simp: okE_iff_ex)
  have "ready_to_resched cpu s5"
    using s4(2) u lk th4(1) fr(1)
    by (simp add: ready_to_resched_def only_mp_inv [OF s5(2)] only_mp_simps [OF s5(2)] up_def
        thread_lock_held_def wake_frame_def)
  moreover have "released [t] w e s s5" using rel by (simp add: released_def only_mp_simps [OF s5(2)])
  ultimately show ?thesis using resched_released lk m s1 mr(1) s3(1) s4(1) s5(1)
    by (auto simp: wait_queue_wake_one_def Let_def elim!: okE_mono)
qed

lemma wake_all_resched:
  assumes inv: "sched_inv s" and u: "up s cpu" and lk: "thread_lock_held cpu s"
    and m: "wq_magic (wait_queues s w) = WAIT_QUEUE_MAGIC"
    and i: "\<not> thread_is_idle (threads s (current s cpu))" and ne: "wq_list (wait_queues s w) \<noteq> []"
  shows "okE (\<lambda>(n, s'). sched_inv s' \<and> thread_lock_held cpu s' \<and> runs_best cpu s' \<and>
      n = int (length (wq_list (wait_queues s w))) \<and> released (wq_list (wait_queues s w)) w e s s')
    (wait_queue_wake_all cpu w True e s)"
proof -
  let ?cur = "current s cpu" and ?ts = "wq_list (wait_queues s w)"
  have c: "wq_count (wait_queues s w) = int (length ?ts)"
    using inv by (simp add: sched_inv_at_def wq_inv_def)
  from current_requeued [OF inv u lk i] obtain s1 q where s1:
    "insert_in_run_queue_head cpu ?cur (upd_thread ?cur (\<lambda>th. th\<lparr>state := THREAD_READY\<rparr>) s) = Inr s1"
    "sched_inv_at {} {cpu} s1" "touches ?cur s s1"
    "threads s1 ?cur = (threads s ?cur)\<lparr>state := THREAD_READY, queue_node := q\<rparr>"
    by (auto simp: okE_iff_ex)
  have l1: "thread_lock_held cpu s1" "wq_list (wait_queues s1 w) = ?ts"
    using s1(3) lk by (simp_all add: touches_def thread_lock_held_def)
  from wake_all_loop_ok [OF s1(2) l1, of 0 e ?cur 0] obtain k s2 where
    s2: "wake_all_loop cpu ?cur w e 0 0 s1 = Inr (k, int (length ?ts), s2)"
      "sched_inv_at {} {cpu} s2" "woken ?ts w e s1 s2" by (auto simp: okE_iff_ex)
  let ?s3 = "mp_reschedule cpu k 0 s2"
  have mp: "only_mp s2 ?s3" by simp
  note w3 = woken_only_mp [OF s2(3) mp]
  have c2: "wq_count (wait_queues s2 w) = 0"
    using s2(3) s1(3) c by (simp add: woken_def touches_def)
  have st: "state (threads ?s3 ?cur) = THREAD_READY"
    using w3 s1(4) by (simp add: woken_def)
  have f3: "current ?s3 = current s" "up ?s3 cpu" "thread_lock_owner ?s3 = thread_lock_owner s"
    using w3 s1(3) u by (simp_all add: woken_def wake_frame_def touches_def up_def)
  have inv3: "sched_inv_at {} {cpu} ?s3" using s2(2) only_mp_inv [OF mp] by simp
  have "ready_to_resched cpu ?s3"
    unfolding ready_to_resched_def using inv3 f3 st lk by (simp add: thread_lock_held_def)
  moreover have "released ?ts w e s ?s3"
    by (rule released_after_touch [OF woken_released [OF w3] s1(3)]) (simp add: s1(4))
  moreover have "int (length ?ts) > 0" using ne by simp
  ultimately show ?thesis using resched_released [of cpu ?s3 ?ts w e s] lk m s1(1) s2(1) c c2 st
    by (auto simp: wait_queue_wake_all_def Let_def elim!: okE_mono)
qed

text \<open>The two contracts the synchronisation objects use.\<close>

definition can_wake :: "cpu_num \<Rightarrow> wq_ref \<Rightarrow> bool \<Rightarrow> kstate \<Rightarrow> bool" where
  "can_wake cpu w reschedule s \<longleftrightarrow> sched_inv s \<and> up s cpu \<and> thread_lock_held cpu s \<and>
     wq_magic (wait_queues s w) = WAIT_QUEUE_MAGIC \<and>
     (reschedule \<longrightarrow> \<not> thread_is_idle (threads s (current s cpu)))"

theorem wait_queue_wake_one_ok:
  assumes "can_wake cpu w reschedule s"
  shows "okE (\<lambda>(n, s'). sched_inv s' \<and> thread_lock_held cpu s' \<and>
      n = (if wq_list (wait_queues s w) = [] then 0 else 1) \<and>
      released (take 1 (wq_list (wait_queues s w))) w e s s') (wait_queue_wake_one cpu w reschedule e s)"
proof (cases "reschedule \<and> wq_list (wait_queues s w) \<noteq> []")
  case True
  then obtain t ts where "wq_list (wait_queues s w) = t # ts" by (auto simp: neq_Nil_conv)
  with wake_one_resched [of s cpu w t ts e] assms True show ?thesis
    by (auto simp: can_wake_def elim!: okE_mono)
next
  case False
  then have "wait_queue_wake_one cpu w reschedule e s = wait_queue_wake_one cpu w False e s"
    by (cases reschedule) (simp_all add: wait_queue_wake_one_def wq_remove_head_def)
  with wake_one_ok [of "{}" "{}" s cpu w e] assms show ?thesis
    by (auto simp: can_wake_def thread_lock_held_def woken_def wake_frame_def
        elim!: okE_mono intro: woken_released)
qed

theorem wait_queue_wake_all_ok:
  assumes "can_wake cpu w reschedule s"
  shows "okE (\<lambda>(n, s'). sched_inv s' \<and> thread_lock_held cpu s' \<and>
      n = int (length (wq_list (wait_queues s w))) \<and>
      released (wq_list (wait_queues s w)) w e s s') (wait_queue_wake_all cpu w reschedule e s)"
proof (cases "reschedule \<and> wq_list (wait_queues s w) \<noteq> []")
  case True
  with wake_all_resched [of s cpu w e] assms show ?thesis
    by (auto simp: can_wake_def elim!: okE_mono)
next
  case False
  have a: "sched_inv s" "up s cpu" "thread_lock_held cpu s"
    "wq_magic (wait_queues s w) = WAIT_QUEUE_MAGIC" using assms by (simp_all add: can_wake_def)
  have "wait_queue_wake_all cpu w reschedule e s = wait_queue_wake_all cpu w False e s"
  proof (cases reschedule)
    case True
    with False a(1) have "wq_count (wait_queues s w) = 0" "wq_remove_head w s = None"
      by (simp_all add: sched_inv_at_def wq_inv_def wq_remove_head_def)
    with True show ?thesis by (simp add: wait_queue_wake_all_def wake_all_loop.simps Let_def)
  qed simp
  with wake_all_ok [OF a(1,3,4) _ current_not_waiting [OF a(1,2)], of e] current_facts(2) [OF a(1,2)] a
  show ?thesis
    by (auto simp: thread_lock_held_def woken_def wake_frame_def elim!: okE_mono intro: woken_released)
qed

lemma sched_inv_wq_magic:
  assumes "sched_inv_at X Y s" "wq_list (wait_queues s w) = []"
  shows "sched_inv_at X Y (upd_wq w (\<lambda>q. q\<lparr>wq_magic := m\<rparr>) s)"
proof -
  have "wq_list (wait_queues (upd_wq w (\<lambda>q. q\<lparr>wq_magic := m\<rparr>) s) v) = wq_list (wait_queues s v)"
    "wq_count (wait_queues (upd_wq w (\<lambda>q. q\<lparr>wq_magic := m\<rparr>) s) v) = wq_count (wait_queues s v)" for v
    by simp_all
  then have "wq_inv (upd_wq w (\<lambda>q. q\<lparr>wq_magic := m\<rparr>) s)" using assms
    unfolding sched_inv_at_def wq_inv_def by (simp del: upd_wq_simps(1)) (simp add: assms(2))
  with assms show ?thesis
    by (simp add: sched_inv_at_def rq_inv_def queued_inv_def threads_inv_def cpus_inv_def)
qed

theorem wait_queue_destroy_ok:
  assumes "can_wake cpu w reschedule s"
  shows "okE (\<lambda>s'. sched_inv s' \<and> thread_lock_held cpu s' \<and> wq_magic (wait_queues s' w) = 0 \<and>
      wq_list (wait_queues s' w) = [] \<and>
      (\<forall>t \<in> set (wq_list (wait_queues s w)). wait_queue_block_ret (threads s' t) = ERR_OBJECT_DESTROYED))
    (wait_queue_destroy cpu w reschedule s)"
  using wait_queue_wake_all_ok [OF assms, of ERR_OBJECT_DESTROYED] assms
  by (auto simp: wait_queue_destroy_def can_wake_def released_def thread_lock_held_def
      elim!: okE_mono intro!: sched_inv_wq_magic)

section \<open>Taking one thread out: timeouts\<close>

lemma blocked_waits:
  assumes inv: "sched_inv_at X Y s" and t: "t \<in> set (thread_list s)" "t \<notin> X"
    and b: "state (threads s t) = THREAD_BLOCKED"
  obtains w where "t \<in> set (wq_list (wait_queues s w))"
proof -
  from inv t b have "queue_node (threads s t) \<noteq> Not_queued"
    by (simp add: sched_inv_at_def threads_inv_def settled_def known_def)
  moreover from inv have "queued_ok s t" by (simp add: sched_inv_at_def queued_inv_def)
  ultimately obtain w where "queue_node (threads s t) = In_wait_queue w"
    using b by (auto simp: queued_ok_def split: queue_link.splits)
  with inv have "t \<in> set (wq_list (wait_queues s w))" by (simp add: sched_inv_at_def wq_inv_def)
  then show ?thesis by (rule that)
qed

lemma thread_unblock_from_wait_queue_ok:
  assumes inv: "sched_inv s" and lk: "thread_lock_held cpu s"
    and t: "t \<in> set (wq_list (wait_queues s w))"
  shows "okE (\<lambda>(r, s'). r = NO_ERROR \<and> sched_inv s' \<and> woken [t] w e s s')
    (thread_unblock_from_wait_queue cpu t e s)"
proof -
  note m = wait_queue_member [OF inv t]
  note k = thread_okD [OF inv m(3)]
  from k have mg: "magic (threads s t) = THREAD_MAGIC" by (simp add: thread_ok_def)
  have d: "upd_thread t (\<lambda>th. th\<lparr>blocking_wait_queue := None, state := THREAD_READY, wait_queue_block_ret := e\<rparr>)
      (upd_wq w (\<lambda>q. q\<lparr>wq_count := wq_count q - 1\<rparr>) (list_delete_queue_node t s)) = dequeued t w e s"
    by (simp add: dequeued_def list_delete_queue_node_def m(5) upd_thread_def upd_wq_def wait_fields_commute)
  from dequeued_insert [OF inv lk t] obtain s2 where
    s2: "insert_in_run_queue_head cpu t (dequeued t w e s) = Inr s2" "sched_inv s2" "woken [t] w e s s2"
    by (auto simp: okE_iff_ex)
  have "in_range s2 (threads s2 t)" using thread_range_in_list [OF s2(2), of t] m(3) s2(3)
    by (simp add: woken_def wake_frame_def)
  then have "okE (\<lambda>s'. sched_inv s' \<and> woken [t] w e s s') (thread_mp_reschedule cpu (current s2 cpu) t s2)"
    using s2(2,3) by (intro okE_mono [OF thread_mp_reschedule_ok]) (auto simp: only_mp_inv elim: woken_only_mp)
  then show ?thesis using k mg m lk s2(1) d
    by (auto simp: thread_unblock_from_wait_queue_def elim!: okE_mono)
qed

theorem wait_queue_timeout_handler_ok:
  assumes inv: "sched_inv s" and lf: "lock_free s" and t: "t \<in> set (thread_list s)"
  shows "okE (\<lambda>(r, s'). sched_inv s' \<and> lock_free s' \<and>
      (if state (threads s t) = THREAD_BLOCKED
       then r = INT_RESCHEDULE \<and> (\<exists>w. t \<in> set (wq_list (wait_queues s w)) \<and> released [t] w ERR_TIMED_OUT s s')
       else r = INT_NO_RESCHEDULE \<and> s' = s))
    (wait_queue_timeout_handler cpu t s)"
proof -
  let ?l = "s\<lparr>thread_lock_owner := cpu\<rparr>"
  note k = thread_okD [OF inv t]
  then have mg: "magic (threads s t) = THREAD_MAGIC" "thread_check_cookie t ?l = Inr ()"
    by (simp_all add: thread_ok_def thread_check_cookie_def thread_get_expected_cookie_def)
  show ?thesis
  proof (cases "state (threads s t) = THREAD_BLOCKED")
    case True
    then obtain w where w: "t \<in> set (wq_list (wait_queues ?l w))" using blocked_waits [OF inv t] by auto
    have invl: "sched_inv ?l" using inv by simp
    from thread_unblock_from_wait_queue_ok [OF invl _ w, of cpu ERR_TIMED_OUT]
    obtain s2 where s2: "thread_unblock_from_wait_queue cpu t ERR_TIMED_OUT ?l = Inr (NO_ERROR, s2)"
      "sched_inv s2" "woken [t] w ERR_TIMED_OUT ?l s2" by (auto simp: okE_iff_ex)
    have "released [t] w ERR_TIMED_OUT s (s2\<lparr>thread_lock_owner := smp_max_cpus s2\<rparr>)"
      using woken_released [OF s2(3)] by (simp add: released_def)
    moreover have "thread_lock_owner s2 = cpu" using s2(3) by (simp add: woken_def wake_frame_def)
    ultimately show ?thesis using True s2(1,2) mg lf w
      by (auto simp: wait_queue_timeout_handler_def lock_free_def)
  next
    case False
    with mg lf inv show ?thesis
      by (simp add: wait_queue_timeout_handler_def thread_unblock_from_wait_queue_def lock_free_def)
  qed
qed

section \<open>Blocking\<close>

lemma sched_inv_timers:
  assumes "sched_inv_at X Y s" "linked ts"
    "\<And>c. timer_of ts (Preempt_timer c) = timer_of (timers s) (Preempt_timer c)"
  shows "sched_inv_at X Y (s\<lparr>timers := ts\<rparr>)"
proof -
  have "cpu_ok (s\<lparr>timers := ts\<rparr>) = cpu_ok s" "thread_ok (s\<lparr>timers := ts\<rparr>) = thread_ok s"
    "settled (s\<lparr>timers := ts\<rparr>) = settled s" "queued_ok (s\<lparr>timers := ts\<rparr>) = queued_ok s"
    "up (s\<lparr>timers := ts\<rparr>) = up s"
    using assms(3) by (simp_all add: fun_eq_iff cpu_ok_def preempt_ok_def thread_ok_def settled_def
        queued_ok_def up_def thread_get_expected_cookie_def cong: queue_link.case_cong)
  with assms(1,2) show ?thesis
    by (simp add: sched_inv_at_def rq_inv_def wq_inv_def queued_inv_def threads_inv_def cpus_inv_def)
qed

text \<open>Arming a timer on the stack of the current thread.\<close>

lemma stack_timer_armed:
  assumes inv: "sched_inv_at X Y s" and c: "cpu < smp_max_cpus s"
    and n: "node (timer_of (timers s) (Stack_timer t)) = None"
  shows "okE (\<lambda>ts. sched_inv_at X Y (s\<lparr>timers := ts\<rparr>) \<and> node (timer_of ts (Stack_timer t)) = Some cpu \<and>
      callback (timer_of ts (Stack_timer t)) = Some cb \<and> targ (timer_of ts (Stack_timer t)) = a \<and>
      tmagic (timer_of ts (Stack_timer t)) = TIMER_MAGIC \<and> periodic_time (timer_of ts (Stack_timer t)) = 0 \<and>
      (\<forall>r. r \<noteq> Stack_timer t \<longrightarrow> timer_of ts r = timer_of (timers s) r))
    (timer_set_oneshot_ns (smp_max_cpus s) cpu now (Stack_timer t) delay cb a
      (timer_initialize (Stack_timer t) (timers s)))"
proof -
  let ?ts = "timer_initialize (Stack_timer t) (timers s)"
  have "linked (timers s)" using inv by (simp add: sched_inv_at_def cpus_inv_def)
  then have l: "linked ?ts" using n by (auto simp: timer_initialize_def linked_def TIMER_INITIAL_VALUE_def)
  have can: "can_set (smp_max_cpus s) cpu (Stack_timer t) ?ts"
    using c by (simp add: can_set_def timer_initialize_def TIMER_INITIAL_VALUE_def)
  have o: "r \<noteq> Stack_timer t \<Longrightarrow> timer_of ?ts r = timer_of (timers s) r" for r
    by (simp add: timer_initialize_def)
  show ?thesis unfolding timer_set_oneshot_ns_def Let_def
    by (rule okE_mono [OF timer_set_linked [OF l can]]) (auto intro!: sched_inv_timers [OF inv] simp: o)
qed

definition can_block :: "cpu_num \<Rightarrow> wq_ref \<Rightarrow> kstate \<Rightarrow> bool" where
  "can_block cpu w s \<longleftrightarrow> sched_inv s \<and> up s cpu \<and> thread_lock_held cpu s \<and>
     wq_magic (wait_queues s w) = WAIT_QUEUE_MAGIC \<and> \<not> thread_is_idle (threads s (current s cpu)) \<and>
     node (timer_of (timers s) (Stack_timer (current s cpu))) = None"

text \<open>What holds once the calling thread \<open>t\<close> has blocked.\<close>

definition blocked_on :: "cpu_num \<Rightarrow> tid \<Rightarrow> wq_ref \<Rightarrow> time_ms \<Rightarrow> kstate \<Rightarrow> kstate \<Rightarrow> bool" where
  "blocked_on cpu t w timeout s s' \<longleftrightarrow>
     wq_list (wait_queues s' w) = wq_list (wait_queues s w) @ [t] \<and>
     wq_magic (wait_queues s' w) = wq_magic (wait_queues s w) \<and>
     (\<forall>v. v \<noteq> w \<longrightarrow> wait_queues s' v = wait_queues s v) \<and>
     state (threads s' t) = THREAD_BLOCKED \<and> wait_queue_block_ret (threads s' t) = NO_ERROR \<and>
     (timeout \<noteq> INFINITE_TIME \<longrightarrow> node (timer_of (timers s') (Stack_timer t)) = Some cpu \<and>
        callback (timer_of (timers s') (Stack_timer t)) = Some wait_queue_timeout_handler_cb \<and>
        targ (timer_of (timers s') (Stack_timer t)) = t) \<and>
     thread_list s' = thread_list s \<and> active_cpus s' = active_cpus s \<and> smp_max_cpus s' = smp_max_cpus s \<and>
     clock s' = clock s \<and> dead_threads s' = dead_threads s"

definition armed_for :: "cpu_num \<Rightarrow> tid \<Rightarrow> time_ms \<Rightarrow> kstate \<Rightarrow> kstate \<Rightarrow> bool" where
  "armed_for cpu t timeout s s' \<longleftrightarrow> s' = s\<lparr>timers := timers s'\<rparr> \<and> sched_inv_at {} {cpu} s' \<and>
     (timeout \<noteq> INFINITE_TIME \<longrightarrow> node (timer_of (timers s') (Stack_timer t)) = Some cpu \<and>
        callback (timer_of (timers s') (Stack_timer t)) = Some wait_queue_timeout_handler_cb \<and>
        targ (timer_of (timers s') (Stack_timer t)) = t)"

lemma block_arms_timer:
  assumes "sched_inv_at {} {cpu} s" "cpu < smp_max_cpus s"
    "node (timer_of (timers s) (Stack_timer t)) = None"
  shows "okE (armed_for cpu t timeout s)
    (if timeout \<noteq> INFINITE_TIME then
       bindE (timer_set_oneshot_ns (smp_max_cpus s) cpu (clock s) (Stack_timer t) (MS2NS timeout)
                wait_queue_timeout_handler_cb t (timer_initialize (Stack_timer t) (timers s)))
         (\<lambda>ts. Inr (s\<lparr>timers := ts\<rparr>)) else Inr s)"
  using assms(1) by (auto simp: armed_for_def intro!: okE_mono [OF stack_timer_armed [OF assms]])

lemma block_switches:
  assumes m: "armed_for cpu t timeout (enqueued t w s) s2" and t: "t = current s cpu"
    and u: "up s cpu" and lk: "thread_lock_held cpu s" and i: "\<not> thread_is_idle (threads s t)"
  shows "okE (\<lambda>s'. sched_inv s' \<and> thread_lock_held cpu s' \<and> runs_best cpu s' \<and>
      current s' cpu \<noteq> t \<and> blocked_on cpu t w timeout s s') (thread_resched cpu s2)"
proof -
  from m obtain ts where ts: "s2 = (enqueued t w s)\<lparr>timers := ts\<rparr>" unfolding armed_for_def by blast
  from m have inv: "sched_inv_at {} {cpu} s2" by (simp add: armed_for_def)
  have r: "up s2 cpu" "thread_lock_held cpu s2" "state (threads s2 (current s2 cpu)) \<noteq> THREAD_RUNNING"
    using u lk t by (simp_all add: ts enqueued_def up_def thread_lock_held_def)
  have n: "next_thread cpu s2 \<noteq> t"
  proof
    assume "next_thread cpu s2 = t"
    with get_top_thread_ok [OF inv r(1,2)] i show False by (auto simp: okE_iff_ex ts enqueued_def)
  qed
  have "blocked_on cpu t w timeout s s3 \<and> current s3 cpu \<noteq> t"
    if rr: "resched_rel cpu (next_thread cpu s2) s2 s3" for s3
    using m n unfolding blocked_on_def armed_for_def
    by (simp add: resched_rel_simps [OF rr]) (simp add: ts enqueued_def)
  then show ?thesis using resched_runs_best [OF next_thread_policy [OF inv r(1)]]
    by (auto intro!: okE_mono [OF thread_resched_ok [OF inv r]])
qed

theorem wait_queue_block_ok:
  assumes can: "can_block cpu w s"
  shows "okE (\<lambda>c. case c of
        Return r s' \<Rightarrow> timeout = 0 \<and> r = ERR_TIMED_OUT \<and> s' = s
      | Switched_out s' \<Rightarrow> timeout \<noteq> 0 \<and> sched_inv s' \<and> thread_lock_held cpu s' \<and> runs_best cpu s' \<and>
          current s' cpu \<noteq> current s cpu \<and> blocked_on cpu (current s cpu) w timeout s s')
    (wait_queue_block cpu w timeout s)" (is "okE ?post _")
proof (cases "timeout = 0")
  case True
  with can show ?thesis by (simp add: wait_queue_block_def can_block_def current_facts Let_def)
next
  case False
  let ?t = "current s cpu" and ?e = "enqueued (current s cpu) w s"
  from can have a: "sched_inv s" "up s cpu" "thread_lock_held cpu s"
    "wq_magic (wait_queues s w) = WAIT_QUEUE_MAGIC" "\<not> thread_is_idle (threads s ?t)"
    "node (timer_of (timers s) (Stack_timer ?t)) = None" by (simp_all add: can_block_def)
  note cf = current_facts [OF a(1,2)]
  have inve: "sched_inv_at {} {cpu} ?e"
    using sched_inv_enqueued [OF a(1) current_in_list [OF a(1,2)] cf(4) a(5,4), of "{cpu}", simplified]
      current_inj [OF a(1) _ a(2)] by auto
  have "cpu < smp_max_cpus ?e" "node (timer_of (timers ?e) (Stack_timer ?t)) = None"
    using a(2,6) by (simp_all add: enqueued_def up_def)
  note arm = block_arms_timer [OF inve this, of timeout]
  have "okE ?post (bindE (thread_resched cpu s2) (\<lambda>s3. Inr (Switched_out s3)))"
    if "armed_for cpu ?t timeout ?e s2" for s2
    using block_switches [OF that refl a(2,3,5)] False by (auto elim!: okE_mono)
  note ok = okE_bindI [OF arm this]
  then show ?thesis using a(3,4) cf False unfolding wait_queue_block_def enqueued_def
    by (simp add: Let_def del: okE_bind)
qed

section \<open>The rest of the block, once scheduled in again\<close>

lemma timer_cancel_sync_ok:
  assumes inv: "sched_inv s" and lf: "lock_free s" and u: "up s cpu"
    and m: "tmagic (timer_of (timers s) r) = TIMER_MAGIC" and p: "\<And>c. r \<noteq> Preempt_timer c"
  shows "okE (\<lambda>c. case c of
        Switched_out s' \<Rightarrow> running (timer_of (timers s) r) \<and> sched_inv s' \<and> lock_free s'
      | Return _ s' \<Rightarrow> \<not> running (timer_of (timers s) r) \<and> sched_inv s' \<and>
          s' = s\<lparr>timers := timers s'\<rparr> \<and> node (timer_of (timers s') r) = None \<and>
          (\<forall>e. e \<noteq> r \<longrightarrow> timer_of (timers s') e = timer_of (timers s) e))
    (timer_cancel_sync cpu r s)"
proof (cases "running (timer_of (timers s) r)")
  case True
  then have "timer_cancel_etc (smp_max_cpus s) cpu (clock s) False r True (timers s) = Inr Wait_again"
    using m by (simp add: timer_cancel_etc_def)
  with True thread_yield_ok [OF inv lf u] show ?thesis
    by (auto simp: timer_cancel_sync_def elim!: okE_mono)
next
  case False
  have l: "linked (timers s)" using inv by (simp add: sched_inv_at_def cpus_inv_def)
  have "okE (\<lambda>x. \<exists>ts'. x = Cancelled ts' \<and> linked ts' \<and>
      (\<forall>e. e \<noteq> r \<longrightarrow> timer_of ts' e = timer_of (timers s) e) \<and>
      timer_of ts' r = (timer_of (timers s) r)\<lparr>node := None, periodic_time := 0\<rparr>)
    (timer_cancel_etc (smp_max_cpus s) cpu (clock s) False r True (timers s))"
    by (rule timer_cancel_linked [OF l m]) (use False u in \<open>simp_all add: up_def\<close>)
  with False p [symmetric] show ?thesis unfolding timer_cancel_sync_def okE_bind
    by (auto elim!: okE_mono intro!: sched_inv_timers [OF inv])
qed

theorem wait_queue_block_resume_ok:
  assumes inv: "sched_inv s" and lf: "lock_free s" and u: "up s cpu"
    and m: "timeout \<noteq> INFINITE_TIME \<Longrightarrow>
      tmagic (timer_of (timers s) (Stack_timer (current s cpu))) = TIMER_MAGIC"
  shows "okE (\<lambda>c. case c of
        Switched_out s' \<Rightarrow> running (timer_of (timers s) (Stack_timer (current s cpu))) \<and>
          sched_inv s' \<and> lock_free s'
      | Return r s' \<Rightarrow> sched_inv s' \<and> thread_lock_held cpu s' \<and> up s' cpu \<and> current s' = current s \<and>
          threads s' = threads s \<and> wait_queues s' = wait_queues s \<and>
          r = wait_queue_block_ret (threads s (current s cpu)) \<and>
          (timeout \<noteq> INFINITE_TIME \<longrightarrow> node (timer_of (timers s') (Stack_timer (current s cpu))) = None))
    (wait_queue_block_resume cpu timeout s)"
proof (cases "timeout = INFINITE_TIME")
  case True
  with inv lf u show ?thesis by (simp add: wait_queue_block_resume_def thread_lock_held_def)
next
  case False
  let ?r = "Stack_timer (current s cpu)"
  have fr: "threads s' = threads s \<and> current s' = current s \<and> wait_queues s' = wait_queues s \<and>
      lock_free s' \<and> up s' cpu" if "s' = s\<lparr>timers := timers s'\<rparr>" for s'
  proof -
    from that obtain ts where "s' = s\<lparr>timers := ts\<rparr>" by blast
    with lf u show ?thesis by (simp add: lock_free_def up_def)
  qed
  show ?thesis unfolding wait_queue_block_resume_def Let_def if_P [OF False]
    by (rule okE_bindI [OF timer_cancel_sync_ok [OF inv lf u m [OF False]]])
      (auto split: call.splits dest!: fr)
qed

section \<open>The interface the synchronisation objects use\<close>

text \<open>The end of a critical section: the lock is dropped, here or by the thread switched to.\<close>

definition unlock_call :: "cpu_num \<Rightarrow> 'a call \<Rightarrow> 'a call res" where
  "unlock_call cpu c = (case c of
       Return r s \<Rightarrow> bindE (thread_unlock cpu s) (\<lambda>s1. Inr (Return r s1))
     | Switched_out s \<Rightarrow> bindE (thread_unlock cpu s) (\<lambda>s1. Inr (Switched_out s1)))"

text \<open>A way of waking threads of a queue: \<open>chosen\<close> says which of the waiting threads it releases.\<close>

locale waker =
  fixes wake :: "cpu_num \<Rightarrow> wq_ref \<Rightarrow> bool \<Rightarrow> int \<Rightarrow> kstate \<Rightarrow> (int \<times> kstate) res"
    and chosen :: "tid list \<Rightarrow> tid list"
  assumes wake_ok: "can_wake cpu w reschedule s \<Longrightarrow>
      okE (\<lambda>(n, s'). sched_inv s' \<and> thread_lock_held cpu s' \<and>
        n = int (length (chosen (wq_list (wait_queues s w)))) \<and>
        released (chosen (wq_list (wait_queues s w))) w e s s') (wake cpu w reschedule e s)"
begin

lemma wake_in_section:
  assumes "sched_inv s" "lock_free s" "up s cpu" "wq_magic (wait_queues s w) = WAIT_QUEUE_MAGIC"
    "reschedule \<Longrightarrow> \<not> thread_is_idle (threads s (current s cpu))"
  shows "okE (\<lambda>(n, s1). okE (\<lambda>s2. sched_inv s2 \<and> lock_free s2 \<and>
        n = int (length (chosen (wq_list (wait_queues s w)))) \<and>
        released (chosen (wq_list (wait_queues s w))) w e s s2) (thread_unlock cpu s1))
    (wake cpu w reschedule e (s\<lparr>thread_lock_owner := cpu\<rparr>))"
proof -
  have "can_wake cpu w reschedule (s\<lparr>thread_lock_owner := cpu\<rparr>)"
    using assms by (simp add: can_wake_def thread_lock_held_def)
  from wake_ok [OF this, of e] show ?thesis
    by (rule okE_mono) (auto simp: thread_lock_held_def lock_free_def released_def)
qed

end

interpretation one: waker wait_queue_wake_one "take 1"
  by unfold_locales (rule okE_mono [OF wait_queue_wake_one_ok], auto simp: min_def le_Suc_eq split: if_splits)

interpretation all: waker wait_queue_wake_all "\<lambda>ts. ts"
  by unfold_locales (rule okE_mono [OF wait_queue_wake_all_ok], auto)

text \<open>Blocking and resuming inside a critical section.\<close>

lemma block_in_section:
  assumes "sched_inv s" "lock_free s" "up s cpu" "wq_magic (wait_queues s w) = WAIT_QUEUE_MAGIC"
    "\<not> thread_is_idle (threads s (current s cpu))"
    "node (timer_of (timers s) (Stack_timer (current s cpu))) = None"
  shows "okE (\<lambda>c. okE (\<lambda>d. case d of
        Return r s' \<Rightarrow> timeout = 0 \<and> r = ERR_TIMED_OUT \<and> s' = s
      | Switched_out s' \<Rightarrow> timeout \<noteq> 0 \<and> sched_inv s' \<and> lock_free s' \<and> runs_best cpu s' \<and>
          current s' cpu \<noteq> current s cpu \<and> blocked_on cpu (current s cpu) w timeout s s')
      (unlock_call cpu c)) (wait_queue_block cpu w timeout (s\<lparr>thread_lock_owner := cpu\<rparr>))"
proof -
  let ?l = "s\<lparr>thread_lock_owner := cpu\<rparr>"
  have "can_block cpu w ?l" using assms by (simp add: can_block_def thread_lock_held_def)
  from wait_queue_block_ok [OF this, of timeout] show ?thesis
    by (rule okE_mono) (use assms(2) in \<open>auto simp: unlock_call_def thread_lock_held_def lock_free_def
      blocked_on_def runs_best_def can_run_on_def split: call.splits\<close>)
qed

text \<open>A queue without waiters may be initialised again.\<close>

lemma sched_inv_wq_init:
  assumes "sched_inv_at X Y s" "wq_list (wait_queues s w) = []"
  shows "sched_inv_at X Y (wait_queue_init w s)"
proof -
  let ?s = "wait_queue_init w s"
  have "wq_list (wait_queues ?s v) = wq_list (wait_queues s v)"
    "wq_count (wait_queues ?s v) = int (length (wq_list (wait_queues s v)))" for v
    using assms by (auto simp: wait_queue_init_def WAIT_QUEUE_INITIAL_VALUE_def sched_inv_at_def wq_inv_def)
  moreover have "wq_list (wait_queues s v) \<noteq> [] \<Longrightarrow> wait_queues ?s v = wait_queues s v" for v
    using assms(2) by (auto simp: wait_queue_init_def)
  ultimately have "wq_inv ?s" using assms(1)
    by (simp add: sched_inv_at_def wq_inv_def) (simp add: wait_queue_init_def)
  with assms(1) show ?thesis
    by (simp add: sched_inv_at_def rq_inv_def queued_inv_def threads_inv_def cpus_inv_def wait_queue_init_def)
qed

text \<open>The state in which a thread calls an operation that may block.\<close>

definition thread_context :: "cpu_num \<Rightarrow> kstate \<Rightarrow> bool" where
  "thread_context cpu s \<longleftrightarrow> sched_inv s \<and> lock_free s \<and> up s cpu \<and> current s cpu \<noteq> 0 \<and>
     \<not> thread_is_idle (threads s (current s cpu)) \<and>
     node (timer_of (timers s) (Stack_timer (current s cpu))) = None"

end
