(* ===== verification/Mutex.thy ===== *)
theory Mutex
  imports Wait_Queue
begin

text \<open>
  Mutexes (\<^verbatim>\<open>kernel/mutex.c\<close>, \<^verbatim>\<open>include/kernel/mutex.h\<close>): acquire with a timeout, release with direct
  handoff to the first waiter, destroy. The panics of \<^verbatim>\<open>LK_DEBUGLEVEL > 0\<close> are on.

  The count of the mutex accounts for every thread that owns it, was granted it, waits for it, or
  has timed out and not yet backed out. With no thread of the last kind the mutex is correct: one
  owner at a time, handoff in order of arrival, and never a waiter without an owner. A thread of
  the last kind breaks the last of these: the two theorems at the end show how a waiter is left
  behind.
\<close>

section \<open>Operations\<close>

definition MUTEX_MAGIC :: int where "MUTEX_MAGIC = 0x6D757478"

text \<open>\<open>mx_wait\<close> names the wait queue embedded in the object.\<close>

record mutex =
  mx_magic :: int
  holder :: tid
  mx_count :: int
  mx_wait :: nat

definition MUTEX_INITIAL_VALUE :: "nat \<Rightarrow> mutex" where
  "MUTEX_INITIAL_VALUE i = \<lparr>mx_magic = MUTEX_MAGIC, holder = 0, mx_count = 0, mx_wait = i\<rparr>"

definition mutex_init :: "nat \<Rightarrow> kstate \<Rightarrow> mutex \<times> kstate" where
  "mutex_init i s = (MUTEX_INITIAL_VALUE i, wait_queue_init (Obj_wq i) s)"

definition mutex_destroy :: "cpu_num \<Rightarrow> mutex \<Rightarrow> kstate \<Rightarrow> (mutex \<times> kstate) res" where
  "mutex_destroy cpu m s =
     guardE ''mutex magic'' (mx_magic m = MUTEX_MAGIC)
      (if holder m \<noteq> 0 \<and> current s cpu \<noteq> holder m
       then Inl (Panic ''mutex_destroy: thread tried to release mutex it doesn't own'')
       else bindE (thread_lock cpu s)
         (\<lambda>s1. bindE (wait_queue_destroy cpu (Obj_wq (mx_wait m)) True s1)
           (\<lambda>s2. bindE (thread_unlock cpu s2)
             (\<lambda>s3. Inr (m\<lparr>mx_magic := 0, mx_count := 0\<rparr>, s3)))))"

text \<open>\<^verbatim>\<open>mutex_acquire_timeout\<close> from the point where the outcome \<open>ret\<close> of the wait is known.\<close>

definition mutex_acquire_finish :: "cpu_num \<Rightarrow> int \<Rightarrow> mutex \<Rightarrow> kstate \<Rightarrow> (mutex \<times> int call) res" where
  "mutex_acquire_finish cpu ret m s =
     (let m' = (if ret < NO_ERROR
                then if ret = ERR_TIMED_OUT then m\<lparr>mx_count := mx_count m - 1\<rparr> else m
                else m\<lparr>holder := current s cpu\<rparr>)
      in bindE (thread_unlock cpu s) (\<lambda>s1. Inr (m', Return ret s1)))"

definition mutex_acquire_timeout ::
    "bool \<Rightarrow> bool \<Rightarrow> cpu_num \<Rightarrow> time_ms \<Rightarrow> mutex \<Rightarrow> kstate \<Rightarrow> (mutex \<times> int call) res" where
  "mutex_acquire_timeout threading_ready ints_disabled cpu timeout m s =
     guardE ''mutex magic'' (mx_magic m = MUTEX_MAGIC)
      (if current s cpu = holder m
       then Inl (Panic ''mutex_acquire_timeout: thread tried to acquire mutex it already owns'')
       else guardE ''acquire with interrupts off'' (\<not> threading_ready \<or> timeout = 0 \<or> \<not> ints_disabled)
        (bindE (thread_lock cpu s)
          (\<lambda>s1. let m1 = m\<lparr>mx_count := mx_count m + 1\<rparr>
                in if mx_count m1 > 1 then
                     bindE (wait_queue_block cpu (Obj_wq (mx_wait m)) timeout s1)
                       (\<lambda>c. case c of
                          Return ret s2 \<Rightarrow> mutex_acquire_finish cpu ret m1 s2
                        | Switched_out s2 \<Rightarrow> bindE (unlock_call cpu (Switched_out s2)) (\<lambda>d. Inr (m1, d)))
                   else mutex_acquire_finish cpu NO_ERROR m1 s1)))"

text \<open>The rest of it, run by the blocked thread when it is scheduled in again.\<close>

definition mutex_acquire_resume ::
    "cpu_num \<Rightarrow> time_ms \<Rightarrow> mutex \<Rightarrow> kstate \<Rightarrow> (mutex \<times> int call) res" where
  "mutex_acquire_resume cpu timeout m s =
     bindE (wait_queue_block_resume cpu timeout s)
       (\<lambda>c. case c of
          Return ret s1 \<Rightarrow> mutex_acquire_finish cpu ret m s1
        | Switched_out s1 \<Rightarrow> Inr (m, Switched_out s1))"

definition mutex_release :: "cpu_num \<Rightarrow> mutex \<Rightarrow> kstate \<Rightarrow> (mutex \<times> int \<times> kstate) res" where
  "mutex_release cpu m s =
     guardE ''mutex magic'' (mx_magic m = MUTEX_MAGIC)
      (if current s cpu \<noteq> holder m
       then Inl (Panic ''mutex_release: thread tried to release mutex it doesn't own'')
       else bindE (thread_lock cpu s)
         (\<lambda>s1. let m1 = m\<lparr>holder := 0, mx_count := mx_count m - 1\<rparr>
               in bindE (if mx_count m1 \<ge> 1
                         then bindE (wait_queue_wake_one cpu (Obj_wq (mx_wait m)) True NO_ERROR s1)
                                (\<lambda>(_, s2). Inr s2)
                         else Inr s1)
                    (\<lambda>s2. bindE (thread_unlock cpu s2) (\<lambda>s3. Inr (m1, NO_ERROR, s3)))))"

definition is_mutex_held :: "cpu_num \<Rightarrow> mutex \<Rightarrow> kstate \<Rightarrow> bool" where
  "is_mutex_held cpu m s \<longleftrightarrow> holder m = current s cpu"

section \<open>Invariant\<close>

text \<open>\<open>g\<close> is the thread the mutex was handed to and that has not run yet, \<open>k\<close> the number of
  threads whose wait timed out and that have not yet given back their share of the count.\<close>

abbreviation waiters :: "mutex \<Rightarrow> kstate \<Rightarrow> tid list" where
  "waiters m s \<equiv> wq_list (wait_queues s (Obj_wq (mx_wait m)))"

definition owned :: "tid option \<Rightarrow> mutex \<Rightarrow> bool" where
  "owned g m \<longleftrightarrow> holder m \<noteq> 0 \<or> g \<noteq> None"

definition mutex_inv :: "tid option \<Rightarrow> nat \<Rightarrow> mutex \<Rightarrow> kstate \<Rightarrow> bool" where
  "mutex_inv g k m s \<longleftrightarrow>
     mx_magic m = MUTEX_MAGIC \<and>
     wq_magic (wait_queues s (Obj_wq (mx_wait m))) = WAIT_QUEUE_MAGIC \<and>
     \<not> (holder m \<noteq> 0 \<and> g \<noteq> None) \<and>
     mx_count m = (if owned g m then 1 else 0) + int (length (waiters m s)) + int k"

text \<open>Nobody waits for a mutex that nobody owns.\<close>

definition no_orphan :: "tid option \<Rightarrow> mutex \<Rightarrow> kstate \<Rightarrow> bool" where
  "no_orphan g m s \<longleftrightarrow> waiters m s \<noteq> [] \<longrightarrow> owned g m"

section \<open>Every operation keeps it\<close>

lemma blocked_on_waiters:
  assumes "blocked_on cpu t (Obj_wq (mx_wait m)) timeout s s'" "mutex_inv g k m s"
  shows "mutex_inv g k (m\<lparr>mx_count := mx_count m + 1\<rparr>) s'"
    "waiters m s' = waiters m s @ [t]"
  using assms by (simp_all add: blocked_on_def mutex_inv_def owned_def)

theorem mutex_acquire_ok:
  assumes inv: "mutex_inv g k m s" and ctx: "thread_context cpu s" and ne: "current s cpu \<noteq> holder m"
    and ints: "\<not> threading_ready \<or> timeout = 0 \<or> \<not> ints_disabled"
  shows "okE (\<lambda>(m', c). case c of
        Return r s' \<Rightarrow> sched_inv s' \<and> lock_free s' \<and> mutex_inv g k m' s' \<and>
          (r = NO_ERROR \<and> \<not> owned g m \<and> waiters m s = [] \<and> k = 0 \<and> holder m' = current s cpu \<or>
           r = ERR_TIMED_OUT \<and> timeout = 0 \<and> m' = m \<and> s' = s)
      | Switched_out s' \<Rightarrow> timeout \<noteq> 0 \<and> sched_inv s' \<and> lock_free s' \<and> mutex_inv g k m' s' \<and>
          (owned g m \<or> waiters m s \<noteq> [] \<or> k > 0) \<and>
          holder m' = holder m \<and> waiters m' s' = waiters m s @ [current s cpu])
    (mutex_acquire_timeout threading_ready ints_disabled cpu timeout m s)" (is "okE ?post _")
proof -
  let ?l = "s\<lparr>thread_lock_owner := cpu\<rparr>" and ?m1 = "m\<lparr>mx_count := mx_count m + 1\<rparr>"
  let ?w = "Obj_wq (mx_wait m)"
  from ctx have c: "sched_inv s" "lock_free s" "up s cpu" "current s cpu \<noteq> 0"
    "\<not> thread_is_idle (threads s (current s cpu))"
    "node (timer_of (timers s) (Stack_timer (current s cpu))) = None" by (simp_all add: thread_context_def)
  from inv have mg: "mx_magic m = MUTEX_MAGIC" "wq_magic (wait_queues s ?w) = WAIT_QUEUE_MAGIC"
    by (simp_all add: mutex_inv_def)
  have unl: "thread_unlock cpu ?l = Inr s" using c(2) by (simp add: lock_free_def)
  show ?thesis
  proof (cases "mx_count ?m1 > 1")
    case False
    with inv have z: "\<not> owned g m" "waiters m s = []" "k = 0"
      by (cases "waiters m s"; auto simp: mutex_inv_def split: if_splits)+
    have "mutex_inv g k (?m1\<lparr>holder := current s cpu\<rparr>) s" using inv z c(4) by (simp add: mutex_inv_def owned_def)
    with False z mg ne c(1,2) ints unl show ?thesis
      by (simp add: mutex_acquire_timeout_def mutex_acquire_finish_def Let_def)
  next
    case True
    with inv have busy: "owned g m \<or> waiters m s \<noteq> [] \<or> k > 0"
      by (auto simp: mutex_inv_def split: if_splits)
    let ?k = "\<lambda>d. case d of
          Return ret s2 \<Rightarrow> mutex_acquire_finish cpu ret ?m1 s2
        | Switched_out s2 \<Rightarrow> bindE (unlock_call cpu (Switched_out s2)) (\<lambda>d. Inr (?m1, d))"
    have "okE ?post (?k d)" if d: "okE (\<lambda>d. case d of
        Return r s' \<Rightarrow> timeout = 0 \<and> r = ERR_TIMED_OUT \<and> s' = s
      | Switched_out s' \<Rightarrow> timeout \<noteq> 0 \<and> sched_inv s' \<and> lock_free s' \<and> runs_best cpu s' \<and>
          current s' cpu \<noteq> current s cpu \<and> blocked_on cpu (current s cpu) ?w timeout s s')
      (unlock_call cpu d)" for d
    proof (cases d)
      case (Return r s2)
      with d have "thread_unlock cpu s2 = Inr s \<and> timeout = 0 \<and> r = ERR_TIMED_OUT"
        by (auto simp: unlock_call_def okE_iff_ex bindE_eq_Inr)
      with Return inv c(1,2) show ?thesis by (simp add: mutex_acquire_finish_def)
    next
      case (Switched_out s2)
      with d busy blocked_on_waiters [OF _ inv] show ?thesis
        by (auto simp: unlock_call_def elim!: okE_mono)
    qed
    then have "okE ?post (bindE (wait_queue_block cpu ?w timeout ?l) ?k)"
      by (rule okE_bindI [OF block_in_section [OF c(1-3) mg(2) c(5,6)]])
    with True mg(1) ne ints c(2) show ?thesis
      by (simp add: mutex_acquire_timeout_def Let_def del: okE_bind)
  qed
qed

theorem mutex_release_ok:
  assumes inv: "mutex_inv None k m s" and ctx: "thread_context cpu s" and h: "current s cpu = holder m"
  shows "okE (\<lambda>(m', r, s'). r = NO_ERROR \<and> sched_inv s' \<and> lock_free s' \<and> holder m' = 0 \<and>
      mutex_inv (if waiters m s = [] then None else Some (hd (waiters m s))) k m' s' \<and>
      released (take 1 (waiters m s)) (Obj_wq (mx_wait m)) NO_ERROR s s')
    (mutex_release cpu m s)"
proof -
  let ?l = "s\<lparr>thread_lock_owner := cpu\<rparr>" and ?m1 = "m\<lparr>holder := 0, mx_count := mx_count m - 1\<rparr>"
  let ?w = "Obj_wq (mx_wait m)"
  from ctx have c: "sched_inv s" "lock_free s" "up s cpu" "current s cpu \<noteq> 0"
    "\<not> thread_is_idle (threads s (current s cpu))" by (simp_all add: thread_context_def)
  from inv have mg: "mx_magic m = MUTEX_MAGIC" "wq_magic (wait_queues s ?w) = WAIT_QUEUE_MAGIC"
    by (simp_all add: mutex_inv_def)
  have unl: "thread_unlock cpu ?l = Inr s" using c(2) by (simp add: lock_free_def)
  have dis: "distinct (waiters m s)" using c(1) by (simp add: sched_inv_at_def wq_inv_def)
  have inv': "mutex_inv (if waiters m s = [] then None else Some (hd (waiters m s))) k ?m1 s'"
    if "released (take 1 (waiters m s)) ?w NO_ERROR s s'" for s'
  proof (cases "waiters m s")
    case Nil
    with that inv h c(4) show ?thesis by (simp add: mutex_inv_def owned_def released_def)
  next
    case (Cons t ts)
    with dis have "filter (\<lambda>u. u \<noteq> t) ts = ts" by (auto intro: filter_True)
    with that inv h c(4) Cons show ?thesis by (simp add: mutex_inv_def owned_def released_def)
  qed
  show ?thesis
  proof (cases "mx_count m - 1 \<ge> 1")
    case False
    with inv h c(4) have "waiters m s = []"
      by (cases "waiters m s") (auto simp: mutex_inv_def owned_def)
    moreover from this have "released (take 1 (waiters m s)) ?w NO_ERROR s s" by (simp add: released_def)
    ultimately show ?thesis using inv' [of s] False mg h c unl
      by (simp add: mutex_release_def Let_def)
  next
    case True
    define R where "R = released (take 1 (waiters m s)) ?w NO_ERROR s"
    note w = one.wake_in_section [OF c(1-3) mg(2) c(5), where e = NO_ERROR and reschedule = True, folded R_def]
    from w inv' [folded R_def] True mg(1) h c(2) show ?thesis
      unfolding mutex_release_def R_def [symmetric] by (auto simp: Let_def elim!: okE_mono)
  qed
qed

text \<open>The waiter \<open>t\<close> runs again: it was granted the mutex, or it timed out.\<close>

theorem mutex_resume_ok:
  assumes inv: "mutex_inv g k m s" and s: "sched_inv s" "lock_free s" "up s cpu" "current s cpu \<noteq> 0"
    and m: "timeout \<noteq> INFINITE_TIME \<Longrightarrow>
      tmagic (timer_of (timers s) (Stack_timer (current s cpu))) = TIMER_MAGIC"
    and r: "wait_queue_block_ret (threads s (current s cpu)) = NO_ERROR \<and> g = Some (current s cpu) \<or>
      wait_queue_block_ret (threads s (current s cpu)) = ERR_TIMED_OUT \<and> k > 0"
  shows "okE (\<lambda>(m', c). case c of
        Return ret s' \<Rightarrow> sched_inv s' \<and> lock_free s' \<and> waiters m' s' = waiters m s \<and>
          ret = wait_queue_block_ret (threads s (current s cpu)) \<and>
          (if ret = NO_ERROR then holder m' = current s cpu \<and> mutex_inv None k m' s'
           else holder m' = holder m \<and> mutex_inv g (k - 1) m' s')
      | Switched_out s' \<Rightarrow> m' = m \<and> sched_inv s' \<and> lock_free s' \<and>
          running (timer_of (timers s) (Stack_timer (current s cpu))))
    (mutex_acquire_resume cpu timeout m s)" (is "okE ?post _")
proof -
  note b = wait_queue_block_resume_ok [OF s(1-3) m]
  show ?thesis unfolding mutex_acquire_resume_def
  proof (rule okE_bindI [OF b], assumption)
    fix c
    assume c: "case c of
        Switched_out s' \<Rightarrow> running (timer_of (timers s) (Stack_timer (current s cpu))) \<and>
          sched_inv s' \<and> lock_free s'
      | Return r s' \<Rightarrow> sched_inv s' \<and> thread_lock_held cpu s' \<and> up s' cpu \<and> current s' = current s \<and>
          threads s' = threads s \<and> wait_queues s' = wait_queues s \<and>
          r = wait_queue_block_ret (threads s (current s cpu)) \<and>
          (timeout \<noteq> INFINITE_TIME \<longrightarrow> node (timer_of (timers s') (Stack_timer (current s cpu))) = None)"
    show "okE ?post (case c of Return ret s1 \<Rightarrow> mutex_acquire_finish cpu ret m s1
        | Switched_out s1 \<Rightarrow> Inr (m, Switched_out s1))"
      using c r inv s(4)
      by (cases c) (auto simp: mutex_acquire_finish_def thread_lock_held_def lock_free_def mutex_inv_def
          owned_def Let_def)
  qed
qed

text \<open>A timeout moves a waiter from the queue to the threads that still have to back out.\<close>

lemma filter_remove_length:
  assumes "distinct xs" "x \<in> set xs"
  shows "int (length (filter (\<lambda>y. y \<noteq> x) xs)) = int (length xs) - 1"
proof -
  have "Suc (length (remove1 x xs)) = length xs"
    using assms by (auto simp: length_remove1 dest: length_pos_if_in_set)
  then show ?thesis by (simp add: remove1_filter [OF assms(1), symmetric])
qed

theorem mutex_timeout_ok:
  assumes inv: "mutex_inv g k m s" and s: "sched_inv s" "lock_free s" and t: "t \<in> set (waiters m s)"
  shows "okE (\<lambda>(r, s'). sched_inv s' \<and> lock_free s' \<and> mutex_inv g (Suc k) m s' \<and>
      wait_queue_block_ret (threads s' t) = ERR_TIMED_OUT) (wait_queue_timeout_handler cpu t s)"
proof -
  note w = wait_queue_member [OF s(1) t]
  have d: "distinct (waiters m s)" using s(1) by (simp add: sched_inv_at_def wq_inv_def)
  have u: "v = Obj_wq (mx_wait m)" if "t \<in> set (wq_list (wait_queues s v))" for v
    using wait_queue_member(5) [OF s(1) that] w(5) by simp
  have "mutex_inv g (Suc k) m s'" if "released [t] (Obj_wq (mx_wait m)) ERR_TIMED_OUT s s'" for s'
    using that inv filter_remove_length [OF d t] by (auto simp: released_def mutex_inv_def owned_def)
  with u show ?thesis
    by (intro okE_mono [OF wait_queue_timeout_handler_ok [OF s w(3)]])
      (auto simp: w(1) released_def dest!: u)
qed

theorem mutex_destroy_ok:
  assumes inv: "mutex_inv None k m s" and ctx: "thread_context cpu s"
    and h: "holder m = 0 \<or> holder m = current s cpu"
  shows "okE (\<lambda>(m', s'). sched_inv s' \<and> lock_free s' \<and> mx_magic m' = 0 \<and> waiters m' s' = [] \<and>
      (\<forall>t \<in> set (waiters m s). wait_queue_block_ret (threads s' t) = ERR_OBJECT_DESTROYED))
    (mutex_destroy cpu m s)"
proof -
  let ?l = "s\<lparr>thread_lock_owner := cpu\<rparr>"
  have "can_wake cpu (Obj_wq (mx_wait m)) True ?l"
    using inv ctx by (simp add: can_wake_def mutex_inv_def thread_context_def thread_lock_held_def)
  note d = wait_queue_destroy_ok [OF this]
  have "mx_magic m = MUTEX_MAGIC" "lock_free s" "\<not> (holder m \<noteq> 0 \<and> current s cpu \<noteq> holder m)"
    using inv ctx h by (auto simp: mutex_inv_def thread_context_def)
  then show ?thesis unfolding mutex_destroy_def
    by (simp, intro okE_mono [OF d]) (simp add: thread_lock_held_def lock_free_def)
qed

section \<open>Runs\<close>

text \<open>
  The life of one mutex: the operations in any order, on any cpu, with anything else the kernel
  does to the rest of the state in between. With \<open>tm = False\<close> no wait times out.
\<close>

definition call_state :: "'a call \<Rightarrow> kstate" where
  "call_state c = (case c of Return _ s \<Rightarrow> s | Switched_out s \<Rightarrow> s)"

inductive mutex_reach :: "bool \<Rightarrow> tid option \<Rightarrow> nat \<Rightarrow> mutex \<Rightarrow> kstate \<Rightarrow> bool" for tm where
  init: "\<lbrakk> sched_inv s; lock_free s; mutex_init i s = (m, s');
      wq_list (wait_queues s (Obj_wq i)) = [] \<rbrakk> \<Longrightarrow> mutex_reach tm None 0 m s'"
| acquire: "\<lbrakk> mutex_reach tm g k m s; thread_context cpu s; current s cpu \<noteq> holder m;
      mutex_acquire_timeout True False cpu timeout m s = Inr (m', c) \<rbrakk> \<Longrightarrow>
      mutex_reach tm g k m' (call_state c)"
| granted: "\<lbrakk> mutex_reach tm (Some (current s cpu)) k m s; up s cpu; current s cpu \<noteq> 0;
      timeout \<noteq> INFINITE_TIME \<longrightarrow> tmagic (timer_of (timers s) (Stack_timer (current s cpu))) = TIMER_MAGIC;
      wait_queue_block_ret (threads s (current s cpu)) = NO_ERROR;
      mutex_acquire_resume cpu timeout m s = Inr (m', Return r s') \<rbrakk> \<Longrightarrow> mutex_reach tm None k m' s'"
| timed_out: "\<lbrakk> tm; mutex_reach tm g k m s; t \<in> set (waiters m s);
      wait_queue_timeout_handler cpu t s = Inr (h, s') \<rbrakk> \<Longrightarrow> mutex_reach tm g (Suc k) m s'"
| back_out: "\<lbrakk> mutex_reach tm g (Suc k) m s; up s cpu; current s cpu \<noteq> 0;
      timeout \<noteq> INFINITE_TIME \<longrightarrow> tmagic (timer_of (timers s) (Stack_timer (current s cpu))) = TIMER_MAGIC;
      wait_queue_block_ret (threads s (current s cpu)) = ERR_TIMED_OUT;
      mutex_acquire_resume cpu timeout m s = Inr (m', Return r s') \<rbrakk> \<Longrightarrow> mutex_reach tm g k m' s'"
| release: "\<lbrakk> mutex_reach tm None k m s; thread_context cpu s; current s cpu = holder m;
      mutex_release cpu m s = Inr (m', r, s') \<rbrakk> \<Longrightarrow>
      mutex_reach tm (if waiters m s = [] then None else Some (hd (waiters m s))) k m' s'"
| other: "\<lbrakk> mutex_reach tm g k m s; sched_inv s'; lock_free s';
      wait_queues s' (Obj_wq (mx_wait m)) = wait_queues s (Obj_wq (mx_wait m)) \<rbrakk> \<Longrightarrow>
      mutex_reach tm g k m s'"

lemma mutex_reach_inv:
  "mutex_reach tm g k m s \<Longrightarrow> sched_inv s \<and> lock_free s \<and> mutex_inv g k m s"
proof (induction rule: mutex_reach.induct)
  case (init s i m s')
  then show ?case
    using sched_inv_wq_init [OF init(1,4)]
    by (auto simp: mutex_init_def MUTEX_INITIAL_VALUE_def mutex_inv_def owned_def lock_free_def
        wait_queue_init_def WAIT_QUEUE_INITIAL_VALUE_def)
next
  case (acquire g k m s cpu timeout m' c)
  then show ?case
    using mutex_acquire_ok [of g k m s cpu True timeout False]
    by (auto simp: call_state_def split: call.splits)
next
  case (granted s cpu k m timeout m' r s')
  then show ?case
    using mutex_resume_ok [of "Some (current s cpu)" k m s cpu timeout] by auto
next
  case (timed_out g k m s t cpu h s')
  then show ?case using mutex_timeout_ok [of g k m s t cpu] by auto
next
  case (back_out g k m s cpu timeout m' r s')
  then show ?case using mutex_resume_ok [of g "Suc k" m s cpu timeout] by auto
next
  case (release k m s cpu m' r s')
  then show ?case using mutex_release_ok [of k m s cpu] by auto
next
  case (other g k m s s')
  then show ?case by (simp add: mutex_inv_def)
qed

text \<open>Without timeouts no waiter is ever left without an owner that will wake it.\<close>

lemma mutex_reach_no_orphan:
  "mutex_reach tm g k m s \<Longrightarrow> \<not> tm \<Longrightarrow> k = 0 \<and> no_orphan g m s"
proof (induction rule: mutex_reach.induct)
  case (init s i m s')
  then show ?case
    by (auto simp: mutex_init_def MUTEX_INITIAL_VALUE_def no_orphan_def wait_queue_init_def
        WAIT_QUEUE_INITIAL_VALUE_def)
next
  case (acquire g k m s cpu timeout m' c)
  with mutex_reach_inv [OF acquire(1)] show ?case
    using mutex_acquire_ok [of g k m s cpu True timeout False]
    by (auto simp: call_state_def no_orphan_def owned_def thread_context_def split: call.splits)
next
  case (granted s cpu k m timeout m' r s')
  with mutex_reach_inv [OF granted(1)] show ?case
    using mutex_resume_ok [of "Some (current s cpu)" k m s cpu timeout]
    by (auto simp: no_orphan_def owned_def)
next
  case (release k m s cpu m' r s')
  define R where "R = released (take 1 (waiters m s)) (Obj_wq (mx_wait m)) NO_ERROR s"
  have m': "mx_wait m' = mx_wait m" using release.hyps(4)
    by (auto simp: mutex_release_def res_simps Let_def split: if_splits)
  have "R s'" using mutex_release_ok [of k m s cpu, folded R_def] release mutex_reach_inv [OF release(1)]
    by auto
  then have "waiters m s = [] \<Longrightarrow> waiters m' s' = []" by (simp add: R_def released_def m')
  with release show ?case by (simp add: no_orphan_def owned_def)
next
  case (other g k m s s')
  then show ?case by (simp add: no_orphan_def)
qed auto

section \<open>A timed-out waiter can cost another one its wakeup\<close>

text \<open>
  A waiter timed out while the mutex was held, and the holder released the mutex before that
  waiter could back out: nobody owns the mutex and nobody waits, but the count is 1. A thread
  that now acquires the mutex blocks.
\<close>

theorem mutex_acquire_blocks_on_free:
  assumes inv: "mutex_inv None (Suc 0) m s" and ctx: "thread_context cpu s"
    and f: "holder m = 0" "waiters m s = []"
  shows "okE (\<lambda>(m', c). \<exists>s'. c = Switched_out s' \<and> mutex_inv None (Suc 0) m' s' \<and> holder m' = 0 \<and>
      waiters m' s' = [current s cpu]) (mutex_acquire_timeout True False cpu INFINITE_TIME m s)"
proof -
  have "current s cpu \<noteq> holder m" using ctx f by (simp add: thread_context_def)
  note a = mutex_acquire_ok [OF inv ctx this, of True INFINITE_TIME False]
  with f show ?thesis by (auto elim!: okE_mono split: call.splits)
qed

text \<open>When the timed-out thread then backs out, the blocked one waits for a mutex without an owner.\<close>

theorem mutex_back_out_orphans:
  assumes inv: "mutex_inv None (Suc 0) m s" and h: "holder m = 0" "waiters m s \<noteq> []"
    and s: "sched_inv s" "lock_free s" "up s cpu" "current s cpu \<noteq> 0"
    and r: "wait_queue_block_ret (threads s (current s cpu)) = ERR_TIMED_OUT"
    and t: "tmagic (timer_of (timers s) (Stack_timer (current s cpu))) = TIMER_MAGIC"
      "\<not> running (timer_of (timers s) (Stack_timer (current s cpu)))"
  shows "okE (\<lambda>(m', c). \<exists>s'. c = Return ERR_TIMED_OUT s' \<and> mutex_inv None 0 m' s' \<and>
      \<not> no_orphan None m' s') (mutex_acquire_resume cpu timeout m s)"
  using mutex_resume_ok [OF inv s, of timeout] r t h
  by (auto elim!: okE_mono simp: no_orphan_def owned_def split: call.splits)

end
