(* ===== verification/Event.thy ===== *)
theory Event
  imports Wait_Queue
begin

text \<open>
  Events (\<^verbatim>\<open>kernel/event.c\<close>, \<^verbatim>\<open>include/kernel/event.h\<close>). The rules the header states are theorems: an
  event that unsignals itself lets exactly one thread pass per signal, the other kind lets all
  pass until it is unsignaled, and no thread waits on a signaled event.
\<close>

section \<open>Operations\<close>

definition EVENT_MAGIC :: int where "EVENT_MAGIC = 0x65766E74"

abbreviation EVENT_FLAG_AUTOUNSIGNAL :: "32 word" where "EVENT_FLAG_AUTOUNSIGNAL \<equiv> 1"

record event =
  ev_magic :: int
  signaled :: bool
  ev_flags :: "32 word"
  ev_wait :: nat

definition event_init :: "nat \<Rightarrow> bool \<Rightarrow> 32 word \<Rightarrow> kstate \<Rightarrow> event \<times> kstate" where
  "event_init i initial flgs s =
     (\<lparr>ev_magic = EVENT_MAGIC, signaled = initial, ev_flags = flgs, ev_wait = i\<rparr>,
      wait_queue_init (Obj_wq i) s)"

definition event_destroy :: "cpu_num \<Rightarrow> event \<Rightarrow> kstate \<Rightarrow> (event \<times> kstate) res" where
  "event_destroy cpu e s =
     guardE ''event magic'' (ev_magic e = EVENT_MAGIC)
      (bindE (thread_lock cpu s)
        (\<lambda>s1. bindE (wait_queue_destroy cpu (Obj_wq (ev_wait e)) True s1)
          (\<lambda>s2. bindE (thread_unlock cpu s2)
            (\<lambda>s3. Inr (e\<lparr>ev_magic := 0, signaled := False, ev_flags := 0\<rparr>, s3)))))"

definition event_wait_timeout :: "cpu_num \<Rightarrow> time_ms \<Rightarrow> event \<Rightarrow> kstate \<Rightarrow> (event \<times> int call) res" where
  "event_wait_timeout cpu timeout e s =
     guardE ''event magic'' (ev_magic e = EVENT_MAGIC)
      (bindE (thread_lock cpu s)
        (\<lambda>s1. if signaled e then
                bindE (thread_unlock cpu s1)
                  (\<lambda>s2. Inr (if ev_flags e AND EVENT_FLAG_AUTOUNSIGNAL \<noteq> 0 then e\<lparr>signaled := False\<rparr> else e,
                             Return NO_ERROR s2))
              else bindE (wait_queue_block cpu (Obj_wq (ev_wait e)) timeout s1)
                     (\<lambda>c. bindE (unlock_call cpu c) (\<lambda>d. Inr (e, d)))))"

definition event_wait_resume :: "cpu_num \<Rightarrow> time_ms \<Rightarrow> kstate \<Rightarrow> int call res" where
  "event_wait_resume cpu timeout s =
     bindE (wait_queue_block_resume cpu timeout s)
       (\<lambda>c. case c of Return r s1 \<Rightarrow> unlock_call cpu (Return r s1) | Switched_out s1 \<Rightarrow> Inr (Switched_out s1))"

definition event_signal :: "cpu_num \<Rightarrow> bool \<Rightarrow> event \<Rightarrow> kstate \<Rightarrow> (event \<times> int \<times> kstate) res" where
  "event_signal cpu reschedule e s =
     guardE ''event magic'' (ev_magic e = EVENT_MAGIC)
      (bindE (thread_lock cpu s)
        (\<lambda>s1. bindE
           (if \<not> signaled e then
              if ev_flags e AND EVENT_FLAG_AUTOUNSIGNAL \<noteq> 0 then
                bindE (wait_queue_wake_one cpu (Obj_wq (ev_wait e)) reschedule NO_ERROR s1)
                  (\<lambda>(n, s2). Inr (if n \<le> 0 then e\<lparr>signaled := True\<rparr> else e, s2))
              else
                bindE (wait_queue_wake_all cpu (Obj_wq (ev_wait e)) reschedule NO_ERROR s1)
                  (\<lambda>(n, s2). Inr (e\<lparr>signaled := True\<rparr>, s2))
            else Inr (e, s1))
           (\<lambda>(e1, s2). bindE (thread_unlock cpu s2) (\<lambda>s3. Inr (e1, NO_ERROR, s3)))))"

definition event_unsignal :: "event \<Rightarrow> (event \<times> int) res" where
  "event_unsignal e =
     guardE ''event magic'' (ev_magic e = EVENT_MAGIC) (Inr (e\<lparr>signaled := False\<rparr>, NO_ERROR))"

definition event_initialized :: "event \<Rightarrow> bool" where
  "event_initialized e \<longleftrightarrow> ev_magic e = EVENT_MAGIC"

section \<open>Invariant\<close>

abbreviation ev_waiters :: "event \<Rightarrow> kstate \<Rightarrow> tid list" where
  "ev_waiters e s \<equiv> wq_list (wait_queues s (Obj_wq (ev_wait e)))"

abbreviation auto_unsignal :: "event \<Rightarrow> bool" where
  "auto_unsignal e \<equiv> ev_flags e AND EVENT_FLAG_AUTOUNSIGNAL \<noteq> 0"

definition event_inv :: "event \<Rightarrow> kstate \<Rightarrow> bool" where
  "event_inv e s \<longleftrightarrow> ev_magic e = EVENT_MAGIC \<and>
     wq_magic (wait_queues s (Obj_wq (ev_wait e))) = WAIT_QUEUE_MAGIC \<and>
     (signaled e \<longrightarrow> ev_waiters e s = [])"

theorem event_wait_ok:
  assumes inv: "event_inv e s" and ctx: "thread_context cpu s"
  shows "okE (\<lambda>(e', c). case c of
        Return r s' \<Rightarrow> s' = s \<and> event_inv e' s' \<and>
          (if signaled e then r = NO_ERROR \<and> e' = e\<lparr>signaled := \<not> auto_unsignal e\<rparr>
           else r = ERR_TIMED_OUT \<and> timeout = 0 \<and> e' = e)
      | Switched_out s' \<Rightarrow> \<not> signaled e \<and> timeout \<noteq> 0 \<and> e' = e \<and> sched_inv s' \<and> lock_free s' \<and>
          event_inv e' s' \<and> ev_waiters e s' = ev_waiters e s @ [current s cpu])
    (event_wait_timeout cpu timeout e s)"
proof -
  let ?w = "Obj_wq (ev_wait e)" and ?l = "s\<lparr>thread_lock_owner := cpu\<rparr>"
  from ctx have c: "sched_inv s" "lock_free s" "up s cpu"
    "\<not> thread_is_idle (threads s (current s cpu))"
    "node (timer_of (timers s) (Stack_timer (current s cpu))) = None" by (simp_all add: thread_context_def)
  from inv have mg: "ev_magic e = EVENT_MAGIC" "wq_magic (wait_queues s ?w) = WAIT_QUEUE_MAGIC"
    by (simp_all add: event_inv_def)
  have unl: "thread_unlock cpu ?l = Inr s" using c(2) by (simp add: lock_free_def)
  show ?thesis
  proof (cases "signaled e")
    case True
    with c(2) mg(1) inv unl show ?thesis by (simp add: event_wait_timeout_def event_inv_def)
  next
    case False
    with c(2) mg inv show ?thesis
      unfolding event_wait_timeout_def
      by (auto intro!: okE_mono [OF block_in_section [OF c(1-3) mg(2) c(4,5)]] elim!: okE_mono
          simp: event_inv_def blocked_on_def split: call.splits)
  qed
qed

theorem event_signal_ok:
  assumes inv: "event_inv e s" and s: "sched_inv s" "lock_free s" "up s cpu"
    and i: "reschedule \<Longrightarrow> \<not> thread_is_idle (threads s (current s cpu))"
  shows "okE (\<lambda>(e', r, s'). r = NO_ERROR \<and> sched_inv s' \<and> lock_free s' \<and> event_inv e' s' \<and>
      (if signaled e then e' = e \<and> s' = s
       else if auto_unsignal e then
         released (take 1 (ev_waiters e s)) (Obj_wq (ev_wait e)) NO_ERROR s s' \<and>
         e' = e\<lparr>signaled := (ev_waiters e s = [])\<rparr>
       else released (ev_waiters e s) (Obj_wq (ev_wait e)) NO_ERROR s s' \<and> e' = e\<lparr>signaled := True\<rparr>))
    (event_signal cpu reschedule e s)"
proof -
  let ?w = "Obj_wq (ev_wait e)" and ?l = "s\<lparr>thread_lock_owner := cpu\<rparr>"
  from inv have mg: "ev_magic e = EVENT_MAGIC" "wq_magic (wait_queues s ?w) = WAIT_QUEUE_MAGIC"
    by (simp_all add: event_inv_def)
  have unl: "thread_unlock cpu ?l = Inr s" using s(2) by (simp add: lock_free_def)
  have rel: "event_inv (e\<lparr>signaled := b\<rparr>) s'"
    if "released ts ?w NO_ERROR s s'" "b \<longrightarrow> set (ev_waiters e s) \<subseteq> set ts" for b ts s'
  proof -
    from that(2) have "b \<Longrightarrow> filter (\<lambda>t. t \<notin> set ts) (ev_waiters e s) = []" by (auto simp: filter_empty_conv)
    with that(1) mg show ?thesis by (auto simp: event_inv_def released_def)
  qed
  consider "signaled e" | "\<not> signaled e" "auto_unsignal e" | "\<not> signaled e" "\<not> auto_unsignal e" by blast
  then show ?thesis
  proof cases
    case 1
    with s(1,2) mg(1) inv unl show ?thesis by (simp add: event_signal_def)
  next
    case 2
    define R where "R = released (take 1 (ev_waiters e s)) ?w NO_ERROR s"
    have e: "e\<lparr>signaled := False\<rparr> = e" using 2 by simp
    have inv': "R s' \<Longrightarrow> event_inv (e\<lparr>signaled := (ev_waiters e s = [])\<rparr>) s'" for s'
      unfolding R_def by (erule rel) auto
    have n: "int (length (take 1 (ev_waiters e s))) = (if ev_waiters e s = [] then 0 else 1)"
      by (cases "ev_waiters e s") simp_all
    from one.wake_in_section [OF s mg(2) i, where e = NO_ERROR and reschedule = reschedule,
        folded R_def, unfolded n] 2 s(2) mg(1) inv'
    show ?thesis unfolding event_signal_def R_def [symmetric]
      by (auto simp: e split: if_splits elim!: okE_mono)
  next
    case 3
    define R where "R = released (ev_waiters e s) ?w NO_ERROR s"
    have inv': "R s' \<Longrightarrow> event_inv (e\<lparr>signaled := True\<rparr>) s'" for s'
      unfolding R_def by (erule rel) auto
    from all.wake_in_section [OF s mg(2) i, where e = NO_ERROR and reschedule = reschedule, folded R_def] 3
      s(2) mg(1) inv'
    show ?thesis unfolding event_signal_def R_def [symmetric] by (auto elim!: okE_mono)
  qed
qed

theorem event_destroy_ok:
  assumes inv: "event_inv e s" and ctx: "thread_context cpu s"
  shows "okE (\<lambda>(e', s'). sched_inv s' \<and> lock_free s' \<and> \<not> event_initialized e' \<and> ev_waiters e' s' = [] \<and>
      (\<forall>t \<in> set (ev_waiters e s). wait_queue_block_ret (threads s' t) = ERR_OBJECT_DESTROYED))
    (event_destroy cpu e s)"
proof -
  have "can_wake cpu (Obj_wq (ev_wait e)) True (s\<lparr>thread_lock_owner := cpu\<rparr>)"
    using inv ctx by (simp add: can_wake_def event_inv_def thread_context_def thread_lock_held_def)
  note d = wait_queue_destroy_ok [OF this]
  have "ev_magic e = EVENT_MAGIC" "lock_free s" using inv ctx by (auto simp: event_inv_def thread_context_def)
  then show ?thesis unfolding event_destroy_def
    by (simp, intro okE_mono [OF d])
      (simp add: thread_lock_held_def lock_free_def event_initialized_def EVENT_MAGIC_def)
qed

text \<open>A waiter scheduled in again reports what it was woken with.\<close>

lemma event_wait_resume_ok:
  assumes s: "sched_inv s" "lock_free s" "up s cpu"
    and m: "timeout \<noteq> INFINITE_TIME \<Longrightarrow>
      tmagic (timer_of (timers s) (Stack_timer (current s cpu))) = TIMER_MAGIC"
  shows "okE (\<lambda>c. case c of
        Return r s' \<Rightarrow> sched_inv s' \<and> lock_free s' \<and> r = wait_queue_block_ret (threads s (current s cpu)) \<and>
          wait_queues s' = wait_queues s
      | Switched_out s' \<Rightarrow> sched_inv s' \<and> lock_free s') (event_wait_resume cpu timeout s)"
  unfolding event_wait_resume_def
  by (rule okE_bindI [OF wait_queue_block_resume_ok [OF s m]], assumption)
    (auto simp: unlock_call_def thread_lock_held_def lock_free_def split: call.splits)

end
