(* ===== verification/Semaphore.thy ===== *)
theory Semaphore
  imports Wait_Queue
begin

text \<open>
  Counting semaphores (\<^verbatim>\<open>kernel/semaphore.c\<close>). A non-negative count is the number of free resources,
  a negative one the number of threads that wait, or that timed out and have not backed out yet.
\<close>

section \<open>Operations\<close>

definition SEMAPHORE_MAGIC :: int where "SEMAPHORE_MAGIC = 0x73656D61"
definition INT_MAX :: int where "INT_MAX = 0x7FFFFFFF"

record semaphore =
  sm_magic :: int
  sm_count :: int
  sm_wait :: nat

text \<open>The \<^verbatim>\<open>unsigned int\<close> argument becomes an \<^verbatim>\<open>int\<close>.\<close>

definition sem_init :: "nat \<Rightarrow> 32 word \<Rightarrow> kstate \<Rightarrow> semaphore \<times> kstate" where
  "sem_init i v s =
     (\<lparr>sm_magic = SEMAPHORE_MAGIC, sm_count = sint v, sm_wait = i\<rparr>, wait_queue_init (Obj_wq i) s)"

definition sem_destroy :: "cpu_num \<Rightarrow> semaphore \<Rightarrow> kstate \<Rightarrow> (semaphore \<times> kstate) res" where
  "sem_destroy cpu sem s =
     bindE (thread_lock cpu s)
       (\<lambda>s1. bindE (wait_queue_destroy cpu (Obj_wq (sm_wait sem)) True s1)
         (\<lambda>s2. bindE (thread_unlock cpu s2) (\<lambda>s3. Inr (sem\<lparr>sm_count := 0\<rparr>, s3))))"

definition sem_post :: "cpu_num \<Rightarrow> bool \<Rightarrow> semaphore \<Rightarrow> kstate \<Rightarrow> (semaphore \<times> int \<times> kstate) res" where
  "sem_post cpu resched sem s =
     bindE (thread_lock cpu s)
       (\<lambda>s1. guardE ''semaphore count'' (sm_count sem < INT_MAX)
         (let sem1 = sem\<lparr>sm_count := sm_count sem + 1\<rparr>
          in bindE (if sm_count sem1 \<le> 0
                    then wait_queue_wake_one cpu (Obj_wq (sm_wait sem)) resched NO_ERROR s1
                    else Inr (0, s1))
               (\<lambda>(ret, s2). bindE (thread_unlock cpu s2) (\<lambda>s3. Inr (sem1, ret, s3)))))"

definition sem_wait :: "cpu_num \<Rightarrow> semaphore \<Rightarrow> kstate \<Rightarrow> (semaphore \<times> int call) res" where
  "sem_wait cpu sem s =
     bindE (thread_lock cpu s)
       (\<lambda>s1. let sem1 = sem\<lparr>sm_count := sm_count sem - 1\<rparr>
             in bindE (if sm_count sem1 < 0
                       then wait_queue_block cpu (Obj_wq (sm_wait sem)) INFINITE_TIME s1
                       else Inr (Return NO_ERROR s1))
                  (\<lambda>c. bindE (unlock_call cpu c) (\<lambda>d. Inr (sem1, d))))"

definition sem_wait_resume :: "cpu_num \<Rightarrow> kstate \<Rightarrow> int call res" where
  "sem_wait_resume cpu s =
     bindE (wait_queue_block_resume cpu INFINITE_TIME s)
       (\<lambda>c. case c of Return r s1 \<Rightarrow> unlock_call cpu (Return r s1) | Switched_out s1 \<Rightarrow> Inr (Switched_out s1))"

definition sem_trywait :: "cpu_num \<Rightarrow> semaphore \<Rightarrow> kstate \<Rightarrow> (semaphore \<times> int \<times> kstate) res" where
  "sem_trywait cpu sem s =
     bindE (thread_lock cpu s)
       (\<lambda>s1. let (sem1, ret) = (if sm_count sem \<le> 0 then (sem, ERR_NOT_READY)
                                else (sem\<lparr>sm_count := sm_count sem - 1\<rparr>, NO_ERROR))
             in bindE (thread_unlock cpu s1) (\<lambda>s2. Inr (sem1, ret, s2)))"

text \<open>\<^verbatim>\<open>sem_timedwait\<close> from the point where the outcome of the wait is known.\<close>

definition sem_timedwait_finish :: "cpu_num \<Rightarrow> int \<Rightarrow> semaphore \<Rightarrow> kstate \<Rightarrow> (semaphore \<times> int call) res" where
  "sem_timedwait_finish cpu ret sem s =
     (let sem1 = (if ret < NO_ERROR then
                    if ret = ERR_TIMED_OUT then sem\<lparr>sm_count := sm_count sem + 1\<rparr> else sem
                  else sem)
      in bindE (thread_unlock cpu s) (\<lambda>s1. Inr (sem1, Return ret s1)))"

definition sem_timedwait :: "cpu_num \<Rightarrow> time_ms \<Rightarrow> semaphore \<Rightarrow> kstate \<Rightarrow> (semaphore \<times> int call) res" where
  "sem_timedwait cpu timeout sem s =
     bindE (thread_lock cpu s)
       (\<lambda>s1. let sem1 = sem\<lparr>sm_count := sm_count sem - 1\<rparr>
             in if sm_count sem1 < 0 then
                  bindE (wait_queue_block cpu (Obj_wq (sm_wait sem)) timeout s1)
                    (\<lambda>c. case c of
                       Return ret s2 \<Rightarrow> sem_timedwait_finish cpu ret sem1 s2
                     | Switched_out s2 \<Rightarrow> bindE (unlock_call cpu (Switched_out s2)) (\<lambda>d. Inr (sem1, d)))
                else bindE (thread_unlock cpu s1) (\<lambda>s2. Inr (sem1, Return NO_ERROR s2)))"

definition sem_timedwait_resume ::
    "cpu_num \<Rightarrow> time_ms \<Rightarrow> semaphore \<Rightarrow> kstate \<Rightarrow> (semaphore \<times> int call) res" where
  "sem_timedwait_resume cpu timeout sem s =
     bindE (wait_queue_block_resume cpu timeout s)
       (\<lambda>c. case c of
          Return ret s1 \<Rightarrow> sem_timedwait_finish cpu ret sem s1
        | Switched_out s1 \<Rightarrow> Inr (sem, Switched_out s1))"

section \<open>Invariant\<close>

abbreviation sem_waiters :: "semaphore \<Rightarrow> kstate \<Rightarrow> tid list" where
  "sem_waiters sem s \<equiv> wq_list (wait_queues s (Obj_wq (sm_wait sem)))"

text \<open>\<open>v\<close> is the number of free resources, \<open>k\<close> the number of timed-out threads that still have to
  back out.\<close>

definition sem_inv :: "nat \<Rightarrow> nat \<Rightarrow> semaphore \<Rightarrow> kstate \<Rightarrow> bool" where
  "sem_inv v k sem s \<longleftrightarrow>
     wq_magic (wait_queues s (Obj_wq (sm_wait sem))) = WAIT_QUEUE_MAGIC \<and>
     sm_count sem = int v - int (length (sem_waiters sem s)) - int k"

text \<open>Nobody waits while a resource is free.\<close>

definition sem_no_idle_resource :: "nat \<Rightarrow> semaphore \<Rightarrow> kstate \<Rightarrow> bool" where
  "sem_no_idle_resource v sem s \<longleftrightarrow> v = 0 \<or> sem_waiters sem s = []"

lemma sem_post_ok:
  assumes inv: "sem_inv v k sem s" and s: "sched_inv s" "lock_free s" "up s cpu"
    and i: "resched \<Longrightarrow> \<not> thread_is_idle (threads s (current s cpu))" and c: "sm_count sem < INT_MAX"
  shows "okE (\<lambda>(sem', n, s'). sched_inv s' \<and> lock_free s' \<and>
      (if sm_count sem < 0 \<and> sem_waiters sem s \<noteq> []
       then n = 1 \<and> released [hd (sem_waiters sem s)] (Obj_wq (sm_wait sem)) NO_ERROR s s' \<and> sem_inv v k sem' s'
       else n = 0 \<and> sem_waiters sem' s' = sem_waiters sem s \<and> sem_inv (Suc v) k sem' s'))
    (sem_post cpu resched sem s)"
proof -
  let ?w = "Obj_wq (sm_wait sem)" and ?l = "s\<lparr>thread_lock_owner := cpu\<rparr>"
  from inv have mg: "wq_magic (wait_queues s ?w) = WAIT_QUEUE_MAGIC" by (simp add: sem_inv_def)
  have unl: "thread_unlock cpu ?l = Inr s" using s(2) by (simp add: lock_free_def)
  have dis: "distinct (sem_waiters sem s)" using s(1) by (simp add: sched_inv_at_def wq_inv_def)
  show ?thesis
  proof (cases "sm_count sem < 0")
    case False
    with inv s(1,2) unl c show ?thesis by (simp add: sem_post_def Let_def sem_inv_def)
  next
    case True
    define R where "R = released (take 1 (sem_waiters sem s)) ?w NO_ERROR s"
    note w = one.wake_in_section [OF s mg i, where e = NO_ERROR and reschedule = resched, folded R_def]
    have post: "if sem_waiters sem s \<noteq> []
        then released [hd (sem_waiters sem s)] ?w NO_ERROR s s' \<and> sem_inv v k (sem\<lparr>sm_count := sm_count sem + 1\<rparr>) s'
        else sem_waiters sem s' = [] \<and> sem_inv (Suc v) k (sem\<lparr>sm_count := sm_count sem + 1\<rparr>) s'"
      if "R s'" for s'
    proof (cases "sem_waiters sem s")
      case Nil
      with that inv show ?thesis by (simp add: R_def released_def sem_inv_def)
    next
      case (Cons t ts)
      with dis have "filter (\<lambda>u. u \<noteq> t) ts = ts" by (auto intro: filter_True)
      with that inv Cons show ?thesis by (simp add: R_def released_def sem_inv_def)
    qed
    have n: "int (length (take 1 (sem_waiters sem s))) = (if sem_waiters sem s = [] then 0 else 1)"
      by (cases "sem_waiters sem s") simp_all
    from w True c s(2) show ?thesis unfolding sem_post_def n
      by (auto simp: Let_def elim!: okE_mono dest!: post split: if_splits)
  qed
qed

lemma blocked_on_sem:
  assumes "blocked_on cpu t (Obj_wq (sm_wait sem)) timeout s s'" "sem_inv v k sem s"
  shows "sem_inv v k (sem\<lparr>sm_count := sm_count sem - 1\<rparr>) s'" "sem_waiters sem s' = sem_waiters sem s @ [t]"
  using assms by (simp_all add: blocked_on_def sem_inv_def)

theorem sem_timedwait_ok:
  assumes inv: "sem_inv v k sem s" and ctx: "thread_context cpu s"
  shows "okE (\<lambda>(sem', c). case c of
        Return r s' \<Rightarrow> s' = s \<and>
          (if sm_count sem > 0 then r = NO_ERROR \<and> v > 0 \<and> sem_inv (v - 1) k sem' s'
           else r = ERR_TIMED_OUT \<and> timeout = 0 \<and> sem' = sem)
      | Switched_out s' \<Rightarrow> sm_count sem \<le> 0 \<and> timeout \<noteq> 0 \<and> sched_inv s' \<and> lock_free s' \<and>
          sem_inv v k sem' s' \<and> sem_waiters sem' s' = sem_waiters sem s @ [current s cpu])
    (sem_timedwait cpu timeout sem s)" (is "okE ?post _")
proof -
  let ?w = "Obj_wq (sm_wait sem)" and ?l = "s\<lparr>thread_lock_owner := cpu\<rparr>"
  let ?m1 = "sem\<lparr>sm_count := sm_count sem - 1\<rparr>"
  from ctx have c: "sched_inv s" "lock_free s" "up s cpu"
    "\<not> thread_is_idle (threads s (current s cpu))"
    "node (timer_of (timers s) (Stack_timer (current s cpu))) = None" by (simp_all add: thread_context_def)
  from inv have mg: "wq_magic (wait_queues s ?w) = WAIT_QUEUE_MAGIC" by (simp add: sem_inv_def)
  have unl: "thread_unlock cpu ?l = Inr s" using c(2) by (simp add: lock_free_def)
  show ?thesis
  proof (cases "sm_count sem > 0")
    case True
    moreover from True inv have "v > 0" by (auto simp: sem_inv_def)
    ultimately show ?thesis using inv c(2) unl
      by (simp add: sem_timedwait_def Let_def sem_inv_def of_nat_diff)
  next
    case False
    let ?k = "\<lambda>d. case d of
          Return ret s2 \<Rightarrow> sem_timedwait_finish cpu ret ?m1 s2
        | Switched_out s2 \<Rightarrow> bindE (unlock_call cpu (Switched_out s2)) (\<lambda>d. Inr (?m1, d))"
    have "okE ?post (?k d)" if d: "okE (\<lambda>d. case d of
        Return r s' \<Rightarrow> timeout = 0 \<and> r = ERR_TIMED_OUT \<and> s' = s
      | Switched_out s' \<Rightarrow> timeout \<noteq> 0 \<and> sched_inv s' \<and> lock_free s' \<and> runs_best cpu s' \<and>
          current s' cpu \<noteq> current s cpu \<and> blocked_on cpu (current s cpu) ?w timeout s s')
      (unlock_call cpu d)" for d
    proof (cases d)
      case (Return r s2)
      with d have "thread_unlock cpu s2 = Inr s \<and> timeout = 0 \<and> r = ERR_TIMED_OUT"
        by (auto simp: unlock_call_def okE_iff_ex bindE_eq_Inr)
      with Return False show ?thesis by (simp add: sem_timedwait_finish_def)
    next
      case (Switched_out s2)
      with d False blocked_on_sem [OF _ inv] show ?thesis
        by (auto simp: unlock_call_def elim!: okE_mono)
    qed
    then have "okE ?post (bindE (wait_queue_block cpu ?w timeout ?l) ?k)"
      by (rule okE_bindI [OF block_in_section [OF c(1-3) mg c(4,5)]])
    with False c(2) show ?thesis by (simp add: sem_timedwait_def Let_def del: okE_bind)
  qed
qed

lemma unlock_call_Return: "unlock_call cpu (Return r s) = bindE (thread_unlock cpu s) (\<lambda>s1. Inr (Return r s1))"
  by (simp add: unlock_call_def)

text \<open>An untimed wait is a timed one with the infinite timeout; it never returns an error at once.\<close>

lemma sem_wait_timedwait:
  assumes "wait_queue_block cpu (Obj_wq (sm_wait sem)) INFINITE_TIME (s\<lparr>thread_lock_owner := cpu\<rparr>) = Inr c"
    "lock_free s" "\<forall>r s'. c \<noteq> Return r s'"
  shows "sem_wait cpu sem s = sem_timedwait cpu INFINITE_TIME sem s"
  using assms by (cases c) (auto simp: sem_wait_def sem_timedwait_def Let_def unlock_call_Return)

theorem sem_wait_ok:
  assumes inv: "sem_inv v k sem s" and ctx: "thread_context cpu s"
  shows "okE (\<lambda>(sem', c). case c of
        Return r s' \<Rightarrow> s' = s \<and> sm_count sem > 0 \<and> r = NO_ERROR \<and> v > 0 \<and> sem_inv (v - 1) k sem' s'
      | Switched_out s' \<Rightarrow> sm_count sem \<le> 0 \<and> sched_inv s' \<and> lock_free s' \<and>
          sem_inv v k sem' s' \<and> sem_waiters sem' s' = sem_waiters sem s @ [current s cpu])
    (sem_wait cpu sem s)"
proof -
  have "can_block cpu (Obj_wq (sm_wait sem)) (s\<lparr>thread_lock_owner := cpu\<rparr>)"
    using inv ctx by (simp add: can_block_def sem_inv_def thread_context_def thread_lock_held_def)
  from wait_queue_block_ok [OF this, of INFINITE_TIME] obtain s2 where
    "wait_queue_block cpu (Obj_wq (sm_wait sem)) INFINITE_TIME (s\<lparr>thread_lock_owner := cpu\<rparr>) = Inr (Switched_out s2)"
    by (auto simp: okE_iff_ex call_case_iff)
  with sem_wait_timedwait ctx have "sem_wait cpu sem s = sem_timedwait cpu INFINITE_TIME sem s"
    by (auto simp: thread_context_def)
  with sem_timedwait_ok [OF inv ctx, of INFINITE_TIME] show ?thesis
    by (auto elim!: okE_mono split: call.splits if_splits)
qed

theorem sem_trywait_ok:
  assumes "sem_inv v k sem s" "lock_free s"
  shows "sem_trywait cpu sem s =
    Inr (if sm_count sem > 0 then (sem\<lparr>sm_count := sm_count sem - 1\<rparr>, NO_ERROR, s)
         else (sem, ERR_NOT_READY, s))"
    "sm_count sem > 0 \<Longrightarrow> v > 0 \<and> sem_inv (v - 1) k (sem\<lparr>sm_count := sm_count sem - 1\<rparr>) s"
  using assms by (auto simp: sem_trywait_def lock_free_def sem_inv_def of_nat_diff Let_def)

section \<open>Resources and waiters\<close>

text \<open>While no thread is about to back out, a post never leaves a resource free next to a waiter,
  and a wait blocks only when no resource is free.\<close>

theorem sem_post_keeps_busy:
  assumes "sem_inv v 0 sem s" "sem_no_idle_resource v sem s" "sched_inv s" "lock_free s" "up s cpu"
    "resched \<Longrightarrow> \<not> thread_is_idle (threads s (current s cpu))" "sm_count sem < INT_MAX"
  shows "okE (\<lambda>(sem', n, s'). \<exists>v'. sem_inv v' 0 sem' s' \<and> sem_no_idle_resource v' sem' s' \<and>
      int v' = int v + 1 - n) (sem_post cpu resched sem s)"
proof -
  have c: "sm_count sem < 0 \<longleftrightarrow> sem_waiters sem s \<noteq> []"
    using assms(1,2) by (cases "sem_waiters sem s") (auto simp: sem_inv_def sem_no_idle_resource_def)
  note p = sem_post_ok [where resched = resched, OF assms(1,3-7)]
  show ?thesis
  proof (cases "sem_waiters sem s = []")
    case True
    with p c show ?thesis
      by (auto simp: sem_no_idle_resource_def elim!: okE_mono intro!: exI [of _ "Suc v"])
  next
    case False
    with assms(2) have "v = 0" by (simp add: sem_no_idle_resource_def)
    with False p c show ?thesis
      by (auto simp: sem_no_idle_resource_def elim!: okE_mono)
  qed
qed

theorem sem_wait_keeps_busy:
  assumes inv: "sem_inv v 0 sem s" and n: "sem_no_idle_resource v sem s" and ctx: "thread_context cpu s"
  shows "okE (\<lambda>(sem', c). case c of
        Return r s' \<Rightarrow> r = NO_ERROR \<and> sem_no_idle_resource (v - 1) sem' s'
      | Switched_out s' \<Rightarrow> v = 0 \<and> sem_no_idle_resource v sem' s') (sem_wait cpu sem s)"
proof -
  have c: "sm_count sem > 0 \<longleftrightarrow> v > 0"
    using inv n by (cases "sem_waiters sem s") (auto simp: sem_inv_def sem_no_idle_resource_def)
  have w: "sem_waiters sem s \<noteq> [] \<Longrightarrow> v = 0" using n by (simp add: sem_no_idle_resource_def)
  have k: "sm_wait sem' = sm_wait sem" if "sem_wait cpu sem s = Inr (sem', d)" for sem' d
    using that by (auto simp: sem_wait_def res_simps Let_def split: if_splits)
  from sem_wait_ok [OF inv ctx] obtain sem' d where e: "sem_wait cpu sem s = Inr (sem', d)"
    by (auto simp: okE_iff_ex)
  from sem_wait_ok [OF inv ctx] c w show ?thesis
    by (auto simp: e k [OF e] sem_no_idle_resource_def call_case_iff)
qed

text \<open>With a thread about to back out a resource can be free and a wait blocks all the same.\<close>

theorem sem_wait_blocks_with_resource:
  assumes inv: "sem_inv 1 (Suc 0) sem s" and ctx: "thread_context cpu s" and w: "sem_waiters sem s = []"
  shows "okE (\<lambda>(sem', c). \<exists>s'. c = Switched_out s' \<and> sem_inv 1 (Suc 0) sem' s' \<and>
      \<not> sem_no_idle_resource 1 sem' s') (sem_wait cpu sem s)"
proof -
  have "sm_count sem = 0" using inv w by (simp add: sem_inv_def)
  with sem_wait_ok [OF inv ctx] show ?thesis
    by (auto simp: sem_no_idle_resource_def call_case_iff elim!: okE_mono)
qed

end
