(* ===== verification/Thread_Attr.thy ===== *)
theory Thread_Attr
  imports Wait_Queue
begin

text \<open>
  The operations of \<^verbatim>\<open>kernel/thread.c\<close> that change what kind of thread a thread is: its priority,
  the cpu it is pinned to, the real-time flag, its name. Each may have to reschedule this cpu or
  interrupt another one.
\<close>

section \<open>Operations\<close>

text \<open>\<^verbatim>\<open>strlcpy\<close> into \<^verbatim>\<open>char name[32]\<close>.\<close>

definition copy_name :: "string \<Rightarrow> string" where
  "copy_name nm = take 31 nm"

definition thread_set_name :: "cpu_num \<Rightarrow> string \<Rightarrow> kstate \<Rightarrow> kstate" where
  "thread_set_name cpu nm s = upd_thread (current s cpu) (\<lambda>th. th\<lparr>name := copy_name nm\<rparr>) s"

definition thread_set_real_time :: "cpu_num \<Rightarrow> tid \<Rightarrow> kstate \<Rightarrow> (int \<times> kstate) res" where
  "thread_set_real_time cpu t s =
     (if t = 0 then Inr (ERR_INVALID_ARGS, s)
      else guardE ''thread magic'' (magic (threads s t) = THREAD_MAGIC)
        (bindE (thread_lock cpu s)
          (\<lambda>s1. bindE (if t = current s1 cpu then timer_cancel_preempt cpu s1 else Inr s1)
            (\<lambda>s2. bindE (thread_unlock cpu
                       (upd_thread t (\<lambda>th. th\<lparr>flags := flags th OR THREAD_FLAG_REAL_TIME\<rparr>) s2))
              (\<lambda>s3. Inr (NO_ERROR, s3))))))"

definition thread_set_priority :: "cpu_num \<Rightarrow> int \<Rightarrow> kstate \<Rightarrow> kstate res" where
  "thread_set_priority cpu prio s =
     guardE ''thread lock not held'' (\<not> thread_lock_held cpu s)
      (let current_thread = current s cpu
       in bindE (thread_lock cpu s)
        (\<lambda>s1. let p1 = (if prio \<le> IDLE_PRIORITY then IDLE_PRIORITY + 1 else prio);
                  p2 = (if p1 > HIGHEST_PRIORITY then HIGHEST_PRIORITY else p1)
              in bindE (insert_in_run_queue_head cpu current_thread
                   (upd_thread current_thread (\<lambda>th. th\<lparr>priority := p2, state := THREAD_READY\<rparr>) s1))
                 (\<lambda>s2. bindE (thread_resched cpu s2) (thread_unlock cpu))))"

text \<open>\<^verbatim>\<open>thread_set_pinned_cpu\<close>, from the switch on the thread's state on.\<close>

definition pin_ready :: "cpu_num \<Rightarrow> tid \<Rightarrow> kstate \<Rightarrow> kstate res" where
  "pin_ready cpu t s =
     (let current_thread = current s cpu; pin = pinned_cpu (threads s t)
      in guardE ''not idle'' (\<not> thread_is_idle (threads s t))
        (guardE ''not on a cpu'' (curr_cpu (threads s t) = - 1)
        (guardE ''not current'' (t \<noteq> current_thread)
          (if pin = - 1 \<or> pin = int cpu then
             if priority (threads s current_thread) < priority (threads s t) then thread_preempt_lock_held cpu s
             else if pin = - 1 \<and> thread_is_realtime (threads s current_thread)
                  then thread_cond_mp_reschedule cpu t s
                  else Inr s
           else thread_mp_reschedule cpu current_thread t s))))"

definition pin_running :: "cpu_num \<Rightarrow> tid \<Rightarrow> kstate \<Rightarrow> kstate res" where
  "pin_running cpu t s =
     (let thread_curr_cpu = curr_cpu (threads s t)
      in guardE ''not idle'' (\<not> thread_is_idle (threads s t))
        (guardE ''on a cpu'' (thread_curr_cpu > - 1)
          (if pinned_cpu (threads s t) = - 1 then Inr s
           else if t = current s cpu then
             guardE ''on this cpu'' (thread_curr_cpu = int cpu) (thread_preempt_lock_held cpu s)
           else guardE ''on another cpu'' (thread_curr_cpu \<noteq> int cpu)
             (Inr (mp_reschedule cpu (bit32 (nat thread_curr_cpu)) 0 s)))))"

definition thread_set_pinned_cpu :: "cpu_num \<Rightarrow> tid \<Rightarrow> int \<Rightarrow> kstate \<Rightarrow> kstate res" where
  "thread_set_pinned_cpu cpu t pin s =
     guardE ''thread'' (t \<noteq> 0)
     (guardE ''thread magic'' (magic (threads s t) = THREAD_MAGIC)
     (guardE ''cpu number'' (- 1 \<le> pin \<and> pin < int (smp_max_cpus s))
     (guardE ''thread lock not held'' (\<not> thread_lock_held cpu s)
       (bindE (thread_lock cpu s)
         (\<lambda>s1. bindE
            (if pinned_cpu (threads s1 t) = pin then Inr s1
             else
               let s2 = upd_thread t (\<lambda>th. th\<lparr>pinned_cpu := pin\<rparr>) s1
               in if pin > - 1 \<and> pin = curr_cpu (threads s2 t) then Inr s2
                  else case state (threads s2 t) of
                      THREAD_SUSPENDED \<Rightarrow> Inr s2
                    | THREAD_READY \<Rightarrow> pin_ready cpu t s2
                    | THREAD_RUNNING \<Rightarrow> pin_running cpu t s2
                    | THREAD_BLOCKED \<Rightarrow>
                        guardE ''not idle'' (\<not> thread_is_idle (threads s2 t))
                          (guardE ''not current'' (t \<noteq> current s2 cpu) (Inr s2))
                    | THREAD_SLEEPING \<Rightarrow>
                        guardE ''not idle'' (\<not> thread_is_idle (threads s2 t))
                          (guardE ''not current'' (t \<noteq> current s2 cpu) (Inr s2))
                    | THREAD_DEATH \<Rightarrow> Inl (Assertion_failed ''pinning a dead thread''))
            (thread_unlock cpu))))))"

section \<open>Priority\<close>

definition clamp_priority :: "int \<Rightarrow> int" where
  "clamp_priority p = max (IDLE_PRIORITY + 1) (min HIGHEST_PRIORITY p)"

lemma lock_free_not_held: "lock_free s \<Longrightarrow> up s cpu \<Longrightarrow> \<not> thread_lock_held cpu s"
  by (simp add: lock_free_def thread_lock_held_def up_def)

lemma thread_set_priority_ok:
  assumes inv: "sched_inv s" and lf: "lock_free s" and u: "up s cpu"
    and i: "\<not> thread_is_idle (threads s (current s cpu))"
  shows "okE (\<lambda>s'. sched_inv s' \<and> lock_free s' \<and> runs_best cpu s' \<and>
      priority (threads s' (current s cpu)) = clamp_priority prio) (thread_set_priority cpu prio s)"
proof -
  let ?l = "s\<lparr>thread_lock_owner := cpu\<rparr>" and ?t = "current s cpu"
  let ?f = "\<lambda>th. th\<lparr>priority := clamp_priority prio, state := THREAD_READY\<rparr>"
  have cl: "(let p1 = if prio \<le> IDLE_PRIORITY then IDLE_PRIORITY + 1 else prio;
      p2 = if p1 > HIGHEST_PRIORITY then HIGHEST_PRIORITY else p1 in g p2) = g (clamp_priority prio)" for g :: "int \<Rightarrow> kstate res"
    by (simp add: clamp_priority_def Let_def)
  have eq: "thread_set_priority cpu prio s = bindE (requeue_current cpu ?f True ?l)
      (\<lambda>s1. bindE (thread_resched cpu s1) (thread_unlock cpu))"
    using lf i lock_free_not_held [OF lf u] unfolding thread_set_priority_def cl
    by (simp add: requeue_current_def Let_def thread_is_idle_def)
  have rq: "okE (\<lambda>s'. ready_to_resched cpu s' \<and> touches (current ?l cpu) ?l s' \<and>
      state (threads s' (current ?l cpu)) = THREAD_READY) (requeue_current cpu ?f True ?l)"
    using inv u current_facts(3) [OF inv u]
    by (intro requeue_current_ok) (auto simp: keeps_identity_def in_range_def clamp_priority_def)
  have pr: "priority (threads s1 ?t) = clamp_priority prio" if "requeue_current cpu ?f True ?l = Inr s1" for s1
    using that i by (auto simp: requeue_current_def Let_def thread_is_idle_def
        dest: insert_in_run_queue_touches split: if_splits)
  from rq obtain s1 where s1: "requeue_current cpu ?f True ?l = Inr s1" "ready_to_resched cpu s1"
    by (auto simp: okE_iff_ex)
  from s1(2) have "okE (\<lambda>s'. sched_inv s' \<and> lock_free s' \<and> runs_best cpu s' \<and>
      resched_rel cpu (next_thread cpu s1) s1 s') (bindE (thread_resched cpu s1) (thread_unlock cpu))"
    by (intro resched_done) (simp_all add: ready_to_resched_def)
  then show ?thesis using s1(1) pr [OF s1(1)] unfolding eq
    by (auto simp: resched_rel_simps(16) elim!: okE_mono simp del: okE_bind)
qed

section \<open>Pinning\<close>

lemma thread_is_pin [simp]:
  "thread_is_idle (th\<lparr>pinned_cpu := p\<rparr>) = thread_is_idle th"
  "thread_is_real_time_or_idle (th\<lparr>pinned_cpu := p\<rparr>) = thread_is_real_time_or_idle th"
  by (simp_all add: thread_is_idle_def thread_is_real_time_or_idle_def)

lemma sched_inv_pin:
  assumes inv: "sched_inv_at X Y s" and r: "- 1 \<le> pin" "pin < int (smp_max_cpus s)"
    and i: "\<not> thread_is_idle (threads s t)"
  shows "sched_inv_at X Y (upd_thread t (\<lambda>th. th\<lparr>pinned_cpu := pin\<rparr>) s)"
proof -
  let ?s = "upd_thread t (\<lambda>th. th\<lparr>pinned_cpu := pin\<rparr>) s"
  have same: "queue_node (threads ?s u) = queue_node (threads s u)" "state (threads ?s u) = state (threads s u)"
    "curr_cpu (threads ?s u) = curr_cpu (threads s u)" "magic (threads ?s u) = magic (threads s u)"
    "cookie (threads ?s u) = cookie (threads s u)" "priority (threads ?s u) = priority (threads s u)"
    "blocking_wait_queue (threads ?s u) = blocking_wait_queue (threads s u)"
    "thread_is_idle (threads ?s u) = thread_is_idle (threads s u)"
    "thread_is_real_time_or_idle (threads ?s u) = thread_is_real_time_or_idle (threads s u)" for u
    by simp_all
  have "thread_ok ?s u" if "thread_ok s u" for u
    using that r by (auto simp: thread_ok_def)
  moreover have "cpu_ok ?s c" if "cpu_ok s c" for c
    using that i unfolding cpu_ok_def preempt_ok_def by (auto simp: same simp del: upd_thread_simps(1))
      (metis fun_upd_other upd_thread_simps(1))+
  moreover have "settled ?s = settled s" "queued_ok ?s = queued_ok s"
    by (simp_all add: fun_eq_iff settled_def queued_ok_def same del: upd_thread_simps(1) cong: queue_link.case_cong)
  ultimately show ?thesis using inv
    unfolding sched_inv_at_def rq_inv_def wq_inv_def queued_inv_def threads_inv_def cpus_inv_def
    by (simp add: same del: upd_thread_simps(1), blast)
qed

text \<open>What a pin change leaves in place, whatever reschedule or interrupt it causes.\<close>

definition pinned_to :: "tid \<Rightarrow> int \<Rightarrow> kstate \<Rightarrow> bool" where
  "pinned_to t pin s \<longleftrightarrow> pinned_cpu (threads s t) = pin"

lemma only_mp_pinned: "only_mp s s' \<Longrightarrow> pinned_to t pin s' = pinned_to t pin s"
  by (simp add: pinned_to_def only_mp_simps)

lemma preempt_keeps_pin:
  assumes "sched_inv s" "thread_lock_held cpu s" "up s cpu"
  shows "okE (\<lambda>s'. sched_inv s' \<and> thread_lock_held cpu s' \<and> runs_best cpu s' \<and>
      (\<forall>t. pinned_cpu (threads s' t) = pinned_cpu (threads s t)) \<and> can_run_on s' (int cpu) (current s' cpu))
    (thread_preempt_lock_held cpu s)"
proof -
  let ?f = "\<lambda>th. th\<lparr>state := THREAD_READY\<rparr>"
  have eq: "thread_preempt_lock_held cpu s =
      bindE (requeue_current cpu ?f (remaining_quantum (threads s (current s cpu)) > 0) s) (thread_resched cpu)"
    using assms current_facts [OF assms(1,3)]
    by (simp add: thread_preempt_lock_held_def thread_preempt_inner_def requeue_current_def Let_def)
  have p1: "pinned_cpu (threads s1 t) = pinned_cpu (threads s t)"
    if "requeue_current cpu ?f b s = Inr s1" for s1 b t
    using that by (cases "t = current s cpu") (auto simp: requeue_current_def Let_def touches_def
        dest!: insert_in_run_queue_touches split: if_splits)
  have "okE (\<lambda>s'. ready_to_resched cpu s' \<and> touches (current s cpu) s s' \<and>
      state (threads s' (current s cpu)) = THREAD_READY)
      (requeue_current cpu ?f (remaining_quantum (threads s (current s cpu)) > 0) s)"
    using current_facts(3) [OF assms(1,3)] assms
    by (intro requeue_current_ok) (auto simp: keeps_identity_def in_range_def)
  then obtain s1 where s1: "requeue_current cpu ?f (remaining_quantum (threads s (current s cpu)) > 0) s = Inr s1"
      "ready_to_resched cpu s1" by (auto simp: okE_iff_ex)
  from s1(2) have r: "sched_inv_at {} {cpu} s1" "up s1 cpu" "thread_lock_held cpu s1"
      "state (threads s1 (current s1 cpu)) \<noteq> THREAD_RUNNING" by (simp_all add: ready_to_resched_def)
  note pol = next_thread_policy [OF r(1,2)]
  have "(\<forall>t. pinned_cpu (threads s' t) = pinned_cpu (threads s t)) \<and> can_run_on s' (int cpu) (current s' cpu) \<and>
      runs_best cpu s'" if rr: "resched_rel cpu (next_thread cpu s1) s1 s'" for s'
  proof -
    have "same_thread (threads s1 t) (threads s' t)" for t using rr by (simp add: resched_rel_def)
    then have "pinned_cpu (threads s' t) = pinned_cpu (threads s1 t)" for t by (rule same_thread_fields(3))
    with p1 [OF s1(1)] pol resched_runs_best [OF pol rr] show ?thesis
      by (simp add: resched_rel_simps(8) [OF rr] can_run_on_def policy_pick_def)
  qed
  then show ?thesis unfolding eq using s1(1) by (auto intro!: okE_mono [OF thread_resched_ok [OF r]])
qed

text \<open>Pinning a thread to a cpu, or releasing it with \<open>-1\<close>. A thread that pins itself elsewhere
  leaves this cpu at once.\<close>

theorem thread_set_pinned_cpu_ok:
  assumes inv: "sched_inv s" and lf: "lock_free s" and u: "up s cpu"
    and t: "t \<in> set (thread_list s)" "t \<noteq> 0" "\<not> thread_is_idle (threads s t)"
      "state (threads s t) \<noteq> THREAD_DEATH"
    and pin: "- 1 \<le> pin" "pin < int (smp_max_cpus s)"
  shows "okE (\<lambda>s'. sched_inv s' \<and> lock_free s' \<and> pinned_to t pin s' \<and>
      (pin \<noteq> - 1 \<and> pin \<noteq> int cpu \<and> pinned_cpu (threads s t) \<noteq> pin \<longrightarrow> current s' cpu \<noteq> t))
    (thread_set_pinned_cpu cpu t pin s)"
proof -
  let ?l = "s\<lparr>thread_lock_owner := cpu\<rparr>"
  let ?s2 = "upd_thread t (\<lambda>th. th\<lparr>pinned_cpu := pin\<rparr>) ?l"
  note k = thread_okD [OF inv t(1)]
  have inv2: "sched_inv ?s2" using inv pin t(3) by (intro sched_inv_pin) simp_all
  have lk2: "thread_lock_held cpu ?s2" by (simp add: thread_lock_held_def)
  have u2: "up ?s2 cpu" using u by simp
  have rng: "in_range ?s2 (threads ?s2 t)" using k pin by (simp add: in_range_def thread_ok_def)
  let ?post = "\<lambda>s'. sched_inv s' \<and> lock_free s' \<and> pinned_to t pin s' \<and>
      (pin \<noteq> - 1 \<and> pin \<noteq> int cpu \<and> pinned_cpu (threads s t) \<noteq> pin \<longrightarrow> current s' cpu \<noteq> t)"
  define mid where "mid = (\<lambda>s'. sched_inv s' \<and> thread_lock_held cpu s' \<and> pinned_to t pin s' \<and>
      (pin \<noteq> - 1 \<and> pin \<noteq> int cpu \<and> pinned_cpu (threads s t) \<noteq> pin \<longrightarrow> current s' cpu \<noteq> t))"
  have mg: "magic (threads s t) = THREAD_MAGIC" using k by (simp add: thread_ok_def)
  have cc: "curr_cpu (threads s t) = - 1 \<or> state (threads s t) = THREAD_RUNNING"
    using k inv by (auto simp: thread_ok_def sched_inv_at_def cpus_inv_def)
  have cr: "current s cpu = t \<Longrightarrow> state (threads s t) = THREAD_RUNNING \<and> curr_cpu (threads s t) = int cpu"
    using current_facts(2) [OF inv u] cpu_okD [OF inv u] by (auto simp: cpu_ok_def)
  have rc: "state (threads s t) = THREAD_RUNNING \<Longrightarrow> \<exists>c. up s c \<and> current s c = t \<and> curr_cpu (threads s t) = int c"
    using k cpu_okD [OF inv] by (auto simp: thread_ok_def cpu_ok_def)
  have mp: "mid s'" if "only_mp ?s2 s'" "current s cpu \<noteq> t" for s'
    using that(2) inv2 lk2 by (simp add: mid_def only_mp_inv [OF that(1)] only_mp_simps [OF that(1)]
        pinned_to_def thread_lock_held_def)
  have pre: "okE mid (thread_preempt_lock_held cpu ?s2)"
    by (rule okE_mono [OF preempt_keeps_pin [OF inv2 lk2 u2]])
      (use pin in \<open>auto simp: mid_def pinned_to_def can_run_on_def\<close>)
  have cond: "current s cpu \<noteq> t \<Longrightarrow> okE mid (thread_cond_mp_reschedule cpu t ?s2)"
    by (rule okE_mono [OF thread_cond_mp_reschedule_ok [OF lk2]]) (rule mp)
  have resch: "current s cpu \<noteq> t \<Longrightarrow> okE mid (thread_mp_reschedule cpu (current s cpu) t ?s2)"
    by (rule okE_mono [OF thread_mp_reschedule_ok [OF rng]]) (rule mp)
  have "okE mid (pin_ready cpu t ?s2)" if "state (threads s t) = THREAD_READY"
    using that pre t(3) cc cr mp [of ?s2] cond resch by (auto simp: pin_ready_def Let_def)
  moreover have "okE mid (pin_running cpu t ?s2)" if "state (threads s t) = THREAD_RUNNING"
  proof -
    from rc [OF that] obtain c where c: "up s c" "current s c = t" "curr_cpu (threads s t) = int c" by blast
    have "mid ?s2" if "pin = - 1" using that inv2 lk2 by (simp add: mid_def pinned_to_def)
    with c pre t(3) cr mp show ?thesis by (auto simp: pin_running_def Let_def)
  qed
  moreover have "mid ?s2" "t \<noteq> current s cpu" if "state (threads s t) \<noteq> THREAD_RUNNING"
    using that inv2 lk2 cr by (auto simp: mid_def pinned_to_def)
  moreover have "mid ?s2" if "pin = curr_cpu (threads s t)"
    using that inv2 lk2 cr by (auto simp: mid_def pinned_to_def)
  moreover have "mid ?l" if "pinned_cpu (threads s t) = pin"
    using that inv by (simp add: mid_def pinned_to_def)
  moreover define body where "body =
       (if pinned_cpu (threads ?l t) = pin then Inr ?l
        else if pin > - 1 \<and> pin = curr_cpu (threads ?s2 t) then Inr ?s2
        else case state (threads ?s2 t) of
            THREAD_SUSPENDED \<Rightarrow> Inr ?s2
          | THREAD_READY \<Rightarrow> pin_ready cpu t ?s2
          | THREAD_RUNNING \<Rightarrow> pin_running cpu t ?s2
          | THREAD_BLOCKED \<Rightarrow> guardE ''not idle'' (\<not> thread_is_idle (threads ?s2 t))
              (guardE ''not current'' (t \<noteq> current ?s2 cpu) (Inr ?s2))
          | THREAD_SLEEPING \<Rightarrow> guardE ''not idle'' (\<not> thread_is_idle (threads ?s2 t))
              (guardE ''not current'' (t \<noteq> current ?s2 cpu) (Inr ?s2))
          | THREAD_DEATH \<Rightarrow> Inl (Assertion_failed ''pinning a dead thread''))"
  ultimately have body: "okE mid body"
    using t(3,4) by (auto split: thread_state.splits)
  have "thread_set_pinned_cpu cpu t pin s = bindE body (thread_unlock cpu)"
    using lf mg pin t(2) lock_free_not_held [OF lf u]
    unfolding thread_set_pinned_cpu_def body_def Let_def by simp
  then show ?thesis
    by (simp only:, intro okE_bindI [OF body])
      (auto simp: mid_def thread_lock_held_def lock_free_def pinned_to_def)
qed

section \<open>Real-time threads\<close>

lemma thread_is_flag:
  "thread_is_idle (th\<lparr>flags := flags th OR THREAD_FLAG_REAL_TIME\<rparr>) = thread_is_idle th"
  "thread_is_real_time_or_idle (th\<lparr>flags := flags th OR THREAD_FLAG_REAL_TIME\<rparr>)"
proof -
  have "bit ((x OR bit32 3) AND bit32 4) n = bit (x AND bit32 4) n" for x n
    by (auto simp: bit_and_iff bit_or_iff)
  then show "thread_is_idle (th\<lparr>flags := flags th OR THREAD_FLAG_REAL_TIME\<rparr>) = thread_is_idle th"
    by (simp add: thread_is_idle_def and_bit32_eq_0_iff bit_or_iff)
  have "bit ((flags th OR bit32 3) AND (bit32 3 OR bit32 4)) 3" by (simp add: bit_and_iff bit_or_iff)
  then show "thread_is_real_time_or_idle (th\<lparr>flags := flags th OR THREAD_FLAG_REAL_TIME\<rparr>)"
    by (auto simp: thread_is_real_time_or_idle_def)
qed

lemma sched_inv_real_time:
  assumes inv: "sched_inv s" and l: "linked ts"
    and t: "\<And>c. up s c \<Longrightarrow> current s c = t \<Longrightarrow> pt_ok c True (timer_of ts (Preempt_timer c))"
    and o: "\<And>c. up s c \<Longrightarrow> current s c \<noteq> t \<Longrightarrow>
      timer_of ts (Preempt_timer c) = timer_of (timers s) (Preempt_timer c)"
  shows "sched_inv (upd_thread t (\<lambda>th. th\<lparr>flags := flags th OR THREAD_FLAG_REAL_TIME\<rparr>) (s\<lparr>timers := ts\<rparr>))"
proof -
  let ?s = "upd_thread t (\<lambda>th. th\<lparr>flags := flags th OR THREAD_FLAG_REAL_TIME\<rparr>) (s\<lparr>timers := ts\<rparr>)"
  have same: "queue_node (threads ?s u) = queue_node (threads s u)" "state (threads ?s u) = state (threads s u)"
    "curr_cpu (threads ?s u) = curr_cpu (threads s u)" "magic (threads ?s u) = magic (threads s u)"
    "cookie (threads ?s u) = cookie (threads s u)" "priority (threads ?s u) = priority (threads s u)"
    "blocking_wait_queue (threads ?s u) = blocking_wait_queue (threads s u)"
    "thread_is_idle (threads ?s u) = thread_is_idle (threads s u)"
    "pinned_cpu (threads ?s u) = pinned_cpu (threads s u)" for u
    by (simp_all add: thread_is_flag)
  have up': "up ?s = up s" "known ?s = known s" by (simp_all add: fun_eq_iff up_def)
  have "thread_get_expected_cookie u ?s = thread_get_expected_cookie u s" for u
    by (simp add: thread_get_expected_cookie_def)
  then have "thread_ok ?s = thread_ok s" "settled ?s = settled s" "queued_ok ?s = queued_ok s"
    by (simp_all add: fun_eq_iff thread_ok_def settled_def queued_ok_def same up'
        del: upd_thread_simps(1) cong: queue_link.case_cong)
  moreover have "cpu_ok ?s c" if c: "up s c" for c
  proof -
    have "preempt_ok ?s c"
    proof (cases "current s c = t")
      case True
      with t [OF c] show ?thesis by (simp add: preempt_ok_pt thread_is_flag)
    next
      case False
      with cpu_okD [OF inv c] o [OF c] show ?thesis by (simp add: preempt_ok_pt cpu_ok_def)
    qed
    with cpu_okD [OF inv c] show ?thesis by (simp add: cpu_ok_def same up' del: upd_thread_simps(1))
  qed
  ultimately show ?thesis using inv l
    unfolding sched_inv_at_def rq_inv_def wq_inv_def queued_inv_def threads_inv_def cpus_inv_def
    by (simp add: same up' del: upd_thread_simps(1), blast)
qed

text \<open>Making the current thread, or one that runs nowhere, a real-time thread.\<close>

lemma thread_set_real_time_ok:
  assumes inv: "sched_inv s" and lf: "lock_free s" and u: "up s cpu"
    and t: "t \<in> set (thread_list s)" "t \<noteq> 0"
    and w: "t = current s cpu \<and> \<not> thread_is_real_time_or_idle (threads s t) \<or> curr_cpu (threads s t) = - 1"
  shows "okE (\<lambda>(r, s'). r = NO_ERROR \<and> sched_inv s' \<and> lock_free s' \<and>
      thread_is_real_time_or_idle (threads s' t)) (thread_set_real_time cpu t s)"
proof -
  let ?l = "s\<lparr>thread_lock_owner := cpu\<rparr>"
  let ?f = "\<lambda>th. th\<lparr>flags := flags th OR THREAD_FLAG_REAL_TIME\<rparr>"
  have mg: "magic (threads s t) = THREAD_MAGIC" using thread_okD [OF inv t(1)] by (simp add: thread_ok_def)
  have invl: "sched_inv ?l" using inv by simp
  have l: "linked (timers s)" using inv by (simp add: sched_inv_at_def cpus_inv_def)
  have fin: "okE (\<lambda>(r, s'). r = NO_ERROR \<and> sched_inv s' \<and> lock_free s' \<and> thread_is_real_time_or_idle (threads s' t))
      (bindE (thread_unlock cpu (upd_thread t ?f (?l\<lparr>timers := ts\<rparr>))) (\<lambda>s3. Inr (NO_ERROR, s3)))"
    if "sched_inv (upd_thread t ?f (?l\<lparr>timers := ts\<rparr>))" for ts
    using that by (simp add: lock_free_def thread_is_flag)
  show ?thesis
  proof (cases "t = current s cpu")
    case True
    with w not_current [OF inv _ u] have reg: "\<not> thread_is_real_time_or_idle (threads s t)" by auto
    have "okE (retimed cpu True ?l) (timer_cancel_preempt cpu ?l)"
      using l u cpu_okD [OF inv u] True reg
      by (intro timer_cancel_preempt_ok) (simp_all add: cpu_ok_def preempt_ok_pt up_def)
    then obtain s2 where s2: "timer_cancel_preempt cpu ?l = Inr s2" "retimed cpu True ?l s2"
      by (auto simp: okE_iff_ex)
    then have e: "s2 = ?l\<lparr>timers := timers s2\<rparr>" by (simp add: retimed_def)
    from s2(2) have r: "linked (timers s2)" "pt_ok cpu True (timer_of (timers s2) (Preempt_timer cpu))"
        "\<And>c. c \<noteq> cpu \<Longrightarrow> timer_of (timers s2) (Preempt_timer c) = timer_of (timers s) (Preempt_timer c)"
      by (simp_all add: retimed_def)
    have "sched_inv (upd_thread t ?f (?l\<lparr>timers := timers s2\<rparr>))"
      using r True current_inj [OF inv _ u]
      by (intro sched_inv_real_time [OF invl r(1)]) (auto, metis)
    from fin [OF this] show ?thesis using True s2(1) mg t(2) lf e
      by (simp add: thread_set_real_time_def)
  next
    case False
    with w have "curr_cpu (threads s t) = - 1" by simp
    with not_current [OF inv] have "sched_inv (upd_thread t ?f (?l\<lparr>timers := timers s\<rparr>))"
      by (intro sched_inv_real_time [OF invl l]) auto
    from fin [OF this] show ?thesis using False mg t(2) lf by (simp add: thread_set_real_time_def)
  qed
qed

text \<open>
  The same call for a thread that runs on another cpu leaves that cpu's preemption timer armed. When
  a regular thread later follows the new real-time thread there, the timer is armed a second time
  and the kernel panics.
\<close>

theorem thread_set_real_time_remote_panics:
  assumes lf: "lock_free s" and t: "t \<noteq> 0" "magic (threads s t) = THREAD_MAGIC" "current s cpu \<noteq> t"
    and c: "current s c = t" "node (timer_of (timers s) (Preempt_timer c)) \<noteq> None"
      "tmagic (timer_of (timers s) (Preempt_timer c)) = TIMER_MAGIC"
    and n: "n \<noteq> t" "\<not> thread_is_real_time_or_idle (threads s n)"
  shows "okE (\<lambda>(r, s'). r = NO_ERROR \<and> switch_timers c t n s' = Inl (Panic ''timer already in list''))
    (thread_set_real_time cpu t s)"
  using assms
  by (simp add: thread_set_real_time_def lock_free_def switch_timers_def thread_is_flag
      start_preempt_timer_def timer_set_periodic_ns_def timer_set_def)

end
