(* ===== verification/Thread_Life.thy ===== *)
theory Thread_Life
  imports Thread_Attr
begin

text \<open>
  The life of a thread (\<^verbatim>\<open>kernel/thread.c\<close>): creation, start, exit, join, detach and the reaper, with
  the memory each path takes and gives back.

  The allocators are not part of the modelled code. What \<^verbatim>\<open>malloc\<close>, \<^verbatim>\<open>vmm_alloc\<close> and
  \<^verbatim>\<open>libc_state_thread_init\<close> return is the argument \<open>alloc_env\<close>; what is given back is a list of
  \<open>free_op\<close>s. The contents of stacks and the arch-specific register frames are not modelled.
\<close>

section \<open>Memory\<close>

abbreviation PAGE_SIZE :: "64 word" where "PAGE_SIZE \<equiv> 4096"
abbreviation DEFAULT_SHADOW_STACK_SIZE :: "64 word" where "DEFAULT_SHADOW_STACK_SIZE \<equiv> PAGE_SIZE"

definition round_up :: "64 word \<Rightarrow> 64 word \<Rightarrow> 64 word" where
  "round_up val alignment = (val + (alignment - 1)) AND NOT (alignment - 1)"

definition adjust_shadow_stack_base :: "64 word \<Rightarrow> 64 word \<Rightarrow> 64 word" where
  "adjust_shadow_stack_base base sz = base + (round_up sz PAGE_SIZE - sz)"

definition revert_shadow_stack_base :: "64 word \<Rightarrow> 64 word \<Rightarrow> 64 word" where
  "revert_shadow_stack_base base sz = base - (round_up sz PAGE_SIZE - sz)"

record alloc_env =
  malloc_result :: tid
  stack_alloc :: "int \<times> 64 word"
  shadow_alloc :: "int \<times> 64 word"
  libc_init_result :: int

datatype free_op = Free "64 word" | Vmm_free_region "64 word" | Libc_state_thread_free tid

section \<open>Creation\<close>

text \<open>\<^verbatim>\<open>memset(t, 0, sizeof(thread_t))\<close>.\<close>

definition ZERO_THREAD :: thread where
  "ZERO_THREAD = \<lparr>stack = 0, stack_high = 0, stack_size = 0, shadow_stack = 0, shadow_stack_size = 0,
     magic = 0, cookie = 0, thread_list_node = Not_listed, queue_node = Not_queued, priority = 0,
     state = THREAD_SUSPENDED, remaining_quantum = 0, flags = 0, curr_cpu = 0, pinned_cpu = 0, aspace = 0,
     blocking_wait_queue = None, wait_queue_block_ret = 0, entry = 0, arg = 0, retcode = 0,
     tls = [], name = []\<rparr>"

definition init_thread_struct :: "cpu_num \<Rightarrow> tid \<Rightarrow> string \<Rightarrow> kstate \<Rightarrow> kstate res" where
  "init_thread_struct cpu t nm s =
     (let s1 = upd_wq (Retcode_wq t) (\<lambda>_. \<lparr>wq_magic = 0, wq_list = [], wq_count = 0\<rparr>)
                (upd_thread t (\<lambda>_. ZERO_THREAD\<lparr>magic := THREAD_MAGIC\<rparr>) s);
          s2 = upd_thread t (\<lambda>th. th\<lparr>cookie := thread_get_expected_cookie t s1\<rparr>) s1
      in bindE (thread_set_pinned_cpu cpu t (- 1) s2)
          (\<lambda>s3. Inr (upd_thread t (\<lambda>th. th\<lparr>name := copy_name nm\<rparr>) s3)))"

text \<open>The frees on the failure paths of \<^verbatim>\<open>thread_create_etc\<close>.\<close>

definition free_if :: "32 word \<Rightarrow> 32 word \<Rightarrow> 64 word \<Rightarrow> free_op list" where
  "free_if flgs flag p = (if flgs AND flag \<noteq> 0 then [Free p] else [])"

text \<open>\<^verbatim>\<open>flags |= flag\<close> under a condition.\<close>

definition flag_if :: "bool \<Rightarrow> 32 word \<Rightarrow> 32 word \<Rightarrow> 32 word" where
  "flag_if c flag flgs = (if c then flgs OR flag else flgs)"

text \<open>The steps of \<^verbatim>\<open>thread_create_etc\<close>: the structure and its join queue, the stacks, the flags and
  inherited thread-local storage, and the entry into the thread list.\<close>

definition create_base ::
    "cpu_num \<Rightarrow> tid \<Rightarrow> string \<Rightarrow> 64 word \<Rightarrow> 64 word \<Rightarrow> int \<Rightarrow> kstate \<Rightarrow> kstate res" where
  "create_base cpu t nm ent a prio s =
     bindE (init_thread_struct cpu t nm s)
       (\<lambda>s1. Inr (wait_queue_init (Retcode_wq t)
          (upd_thread t (\<lambda>th. th\<lparr>entry := ent, arg := a, priority := prio,
             state := THREAD_SUSPENDED, blocking_wait_queue := None,
             wait_queue_block_ret := NO_ERROR, curr_cpu := - 1, retcode := 0, aspace := 0\<rparr>) s1)))"

definition set_stack :: "tid \<Rightarrow> 64 word \<Rightarrow> 64 word \<Rightarrow> 64 word \<Rightarrow> kstate \<Rightarrow> kstate" where
  "set_stack t stk stk_size scs_size s =
     upd_thread t (\<lambda>th. th\<lparr>stack := stk, stack_high := stk + stk_size, stack_size := stk_size,
       shadow_stack_size := (if cfg_scs s then scs_size else 0)\<rparr>) s"

definition set_shadow_stack :: "tid \<Rightarrow> 64 word \<Rightarrow> kstate \<Rightarrow> kstate" where
  "set_shadow_stack t base s =
     (if cfg_scs s
      then upd_thread t (\<lambda>th. th\<lparr>shadow_stack := adjust_shadow_stack_base base (shadow_stack_size th)\<rparr>) s
      else s)"

definition save_flags :: "cpu_num \<Rightarrow> tid \<Rightarrow> 32 word \<Rightarrow> kstate \<Rightarrow> kstate" where
  "save_flags cpu t flgs s =
     upd_thread t (\<lambda>th. th\<lparr>flags := flgs, tls := tls (threads s (current s cpu))\<rparr>) s"

definition thread_list_add :: "cpu_num \<Rightarrow> tid \<Rightarrow> kstate \<Rightarrow> kstate res" where
  "thread_list_add cpu t s =
     bindE (thread_lock cpu s)
       (\<lambda>s1. thread_unlock cpu (upd_thread t (\<lambda>th. th\<lparr>thread_list_node := In_thread_list\<rparr>)
          (s1\<lparr>thread_list := t # thread_list s1\<rparr>)))"

definition thread_create_etc ::
    "cpu_num \<Rightarrow> alloc_env \<Rightarrow> tid \<Rightarrow> string \<Rightarrow> 64 word \<Rightarrow> 64 word \<Rightarrow> int \<Rightarrow> 64 word \<Rightarrow> 64 word \<Rightarrow> 64 word \<Rightarrow>
     kstate \<Rightarrow> (tid \<times> free_op list \<times> kstate) res" where
  "thread_create_etc cpu env t0 nm ent a prio stk stk_size scs_size s =
     guardE ''priority'' (prio > IDLE_PRIORITY)
     (guardE ''priority'' (prio \<le> HIGHEST_PRIORITY)
       (let t = (if t0 = 0 then malloc_result env else t0);
            flags0 = flag_if (t0 = 0) THREAD_FLAG_FREE_STRUCT 0
        in if t = 0 then Inr (0, [], s)
           else bindE (create_base cpu t nm ent a prio s)
            (\<lambda>s2. if stk = 0 \<and> fst (stack_alloc env) \<noteq> 0
                 then Inr (0, free_if flags0 THREAD_FLAG_FREE_STRUCT t, s2)
                 else
                   let stk1 = (if stk = 0 then snd (stack_alloc env) else stk);
                       flags1 = flag_if (stk = 0) THREAD_FLAG_FREE_STACK flags0;
                       s3 = set_stack t stk1 stk_size (round_up scs_size 8) s2
                   in if cfg_scs s3 \<and> fst (shadow_alloc env) \<noteq> 0
                      then Inr (0, free_if flags1 THREAD_FLAG_FREE_STACK stk1 @
                                   free_if flags1 THREAD_FLAG_FREE_STRUCT t, s3)
                      else
                        let flags2 = flag_if (cfg_scs s3) THREAD_FLAG_FREE_SHADOW_STACK flags1;
                            s4 = set_shadow_stack t (snd (shadow_alloc env)) s3;
                            s5 = save_flags cpu t flags2 s4
                        in if cfg_musl s5 \<and> libc_init_result env \<noteq> NO_ERROR
                           then Inr (0, (if cfg_scs s5 then free_if flags2 THREAD_FLAG_FREE_SHADOW_STACK
                                            (shadow_stack (threads s5 t)) else []) @
                                        free_if flags2 THREAD_FLAG_FREE_STACK stk1 @
                                        free_if flags2 THREAD_FLAG_FREE_STRUCT t, s5)
                           else bindE (thread_list_add cpu t s5) (\<lambda>s6. Inr (t, [], s6)))))"

definition thread_create ::
    "cpu_num \<Rightarrow> alloc_env \<Rightarrow> string \<Rightarrow> 64 word \<Rightarrow> 64 word \<Rightarrow> int \<Rightarrow> 64 word \<Rightarrow>
     kstate \<Rightarrow> (tid \<times> free_op list \<times> kstate) res" where
  "thread_create cpu env nm ent a prio stk_size s =
     thread_create_etc cpu env 0 nm ent a prio 0 stk_size DEFAULT_SHADOW_STACK_SIZE s"

section \<open>Start\<close>

definition thread_resume :: "cpu_num \<Rightarrow> bool \<Rightarrow> tid \<Rightarrow> kstate \<Rightarrow> (int \<times> kstate) res" where
  "thread_resume cpu ints_disabled t s =
     guardE ''thread magic'' (magic (threads s t) = THREAD_MAGIC)
     (guardE ''not dead'' (state (threads s t) \<noteq> THREAD_DEATH)
       (bindE (thread_check_cookie t s)
         (\<lambda>_. bindE (thread_lock cpu s)
           (\<lambda>s1. let suspended = (state (threads s1 t) = THREAD_SUSPENDED);
                     resched = (suspended \<and> \<not> ints_disabled)
                 in bindE (if suspended
                           then insert_in_run_queue_head cpu t
                                  (upd_thread t (\<lambda>th. th\<lparr>state := THREAD_READY\<rparr>) s1)
                           else Inr s1)
                   (\<lambda>s2. bindE (thread_mp_reschedule cpu (current s2 cpu) t s2)
                     (\<lambda>s3. bindE (thread_unlock cpu s3)
                       (\<lambda>s4. bindE (if resched then thread_yield cpu s4 else Inr s4)
                         (\<lambda>s5. Inr (NO_ERROR, s5)))))))))"

section \<open>End\<close>

definition thread_free :: "tid \<Rightarrow> kstate \<Rightarrow> (free_op list \<times> kstate) res" where
  "thread_free t s =
     (let f1 = (if cfg_musl s \<and> flags (threads s t) AND THREAD_FLAG_FREE_LIBC_STATE \<noteq> 0
                then [Libc_state_thread_free t] else []);
          f2 = (if flags (threads s t) AND THREAD_FLAG_FREE_STACK \<noteq> 0 \<and> stack (threads s t) \<noteq> 0
                then [Vmm_free_region (stack (threads s t))] else []);
          scs = (cfg_scs s \<and> flags (threads s t) AND THREAD_FLAG_FREE_SHADOW_STACK \<noteq> 0);
          base = revert_shadow_stack_base (shadow_stack (threads s t)) (shadow_stack_size (threads s t));
          s1 = (if scs then upd_thread t (\<lambda>th. th\<lparr>shadow_stack := base\<rparr>) s else s);
          f3 = (if scs then [Vmm_free_region base] else []);
          f4 = (if flags (threads s t) AND THREAD_FLAG_FREE_STRUCT \<noteq> 0 then [Free t] else [])
      in guardE ''shadow stack'' (scs \<longrightarrow> shadow_stack (threads s t) \<noteq> 0) (Inr (f1 @ f2 @ f3 @ f4, s1)))"

text \<open>\<^verbatim>\<open>thread_join\<close> once the thread is dead; the thread lock is held.\<close>

definition thread_join_finish :: "cpu_num \<Rightarrow> tid \<Rightarrow> kstate \<Rightarrow> ((int \<times> int \<times> free_op list) call) res" where
  "thread_join_finish cpu t s =
     guardE ''thread magic'' (magic (threads s t) = THREAD_MAGIC)
     (guardE ''dead'' (state (threads s t) = THREAD_DEATH)
     (guardE ''not blocked'' (blocking_wait_queue (threads s t) = None)
     (guardE ''not queued'' (queue_node (threads s t) = Not_queued)
       (let s1 = upd_thread t (\<lambda>th. th\<lparr>thread_list_node := Not_listed, magic := 0\<rparr>)
              (s\<lparr>thread_list := remove1 t (thread_list s)\<rparr>)
        in bindE (thread_unlock cpu s1)
            (\<lambda>s2. bindE (thread_free t s2)
              (\<lambda>(fs, s3). Inr (Return (NO_ERROR, retcode (threads s t), fs) s3)))))))"

definition thread_join :: "cpu_num \<Rightarrow> tid \<Rightarrow> time_ms \<Rightarrow> kstate \<Rightarrow> ((int \<times> int \<times> free_op list) call) res" where
  "thread_join cpu t timeout s =
     guardE ''thread magic'' (magic (threads s t) = THREAD_MAGIC)
      (bindE (thread_lock cpu s)
        (\<lambda>s1. if flags (threads s1 t) AND THREAD_FLAG_DETACHED \<noteq> 0
              then bindE (thread_unlock cpu s1) (\<lambda>s2. Inr (Return (ERR_THREAD_DETACHED, 0, []) s2))
              else if state (threads s1 t) \<noteq> THREAD_DEATH then
                bindE (wait_queue_block cpu (Retcode_wq t) timeout s1)
                  (\<lambda>c. case c of
                     Switched_out s2 \<Rightarrow> bindE (thread_unlock cpu s2) (\<lambda>s3. Inr (Switched_out s3))
                   | Return err s2 \<Rightarrow>
                       if err < 0 then bindE (thread_unlock cpu s2) (\<lambda>s3. Inr (Return (err, 0, []) s3))
                       else thread_join_finish cpu t s2)
              else thread_join_finish cpu t s1))"

definition thread_join_resume ::
    "cpu_num \<Rightarrow> tid \<Rightarrow> time_ms \<Rightarrow> kstate \<Rightarrow> ((int \<times> int \<times> free_op list) call) res" where
  "thread_join_resume cpu t timeout s =
     bindE (wait_queue_block_resume cpu timeout s)
       (\<lambda>c. case c of
          Switched_out s1 \<Rightarrow> Inr (Switched_out s1)
        | Return err s1 \<Rightarrow>
            if err < 0 then bindE (thread_unlock cpu s1) (\<lambda>s2. Inr (Return (err, 0, []) s2))
            else thread_join_finish cpu t s1)"

definition thread_detach :: "cpu_num \<Rightarrow> tid \<Rightarrow> kstate \<Rightarrow> ((int \<times> int \<times> free_op list) call) res" where
  "thread_detach cpu t s =
     guardE ''thread magic'' (magic (threads s t) = THREAD_MAGIC)
      (bindE (thread_lock cpu s)
        (\<lambda>s1. bindE (wait_queue_wake_all cpu (Retcode_wq t) False ERR_THREAD_DETACHED s1)
          (\<lambda>(_, s2). if state (threads s2 t) = THREAD_DEATH then
              bindE (thread_unlock cpu
                  (upd_thread t (\<lambda>th. th\<lparr>flags := flags th AND NOT THREAD_FLAG_DETACHED\<rparr>) s2))
                (thread_join cpu t 0)
            else bindE (thread_unlock cpu
                  (upd_thread t (\<lambda>th. th\<lparr>flags := flags th OR THREAD_FLAG_DETACHED\<rparr>) s2))
                (\<lambda>s3. Inr (Return (NO_ERROR, 0, []) s3)))))"

definition thread_detach_and_resume :: "cpu_num \<Rightarrow> bool \<Rightarrow> tid \<Rightarrow> kstate \<Rightarrow> (int call) res" where
  "thread_detach_and_resume cpu ints_disabled t s =
     bindE (thread_detach cpu t s)
       (\<lambda>c. case c of
          Switched_out s1 \<Rightarrow> Inr (Switched_out s1)
        | Return (err, _, _) s1 \<Rightarrow>
            if err < 0 then Inr (Return err s1)
            else bindE (thread_resume cpu ints_disabled t s1) (\<lambda>(r, s2). Inr (Return r s2)))"

text \<open>The inner loop of \<^verbatim>\<open>reaper_thread_routine\<close>, entered with the thread lock held.\<close>

definition reap_one :: "cpu_num \<Rightarrow> tid \<Rightarrow> tid list \<Rightarrow> kstate \<Rightarrow> (free_op list \<times> kstate) res" where
  "reap_one cpu t ts s =
     bindE (thread_unlock cpu (upd_thread t (\<lambda>th. th\<lparr>thread_list_node := Not_listed, magic := 0\<rparr>)
              (s\<lparr>dead_threads := ts\<rparr>)))
       (\<lambda>s1. bindE (thread_free t s1)
         (\<lambda>(fs, s2). bindE (thread_lock cpu s2) (\<lambda>s3. Inr (fs, s3))))"

lemma reap_one_dead: "reap_one cpu t ts s = Inr (fs, s') \<Longrightarrow> dead_threads s' = ts"
  by (auto simp: reap_one_def thread_free_def thread_unlock_def thread_lock_def res_simps Let_def split: if_splits)

function reaper_drain :: "cpu_num \<Rightarrow> kstate \<Rightarrow> (free_op list \<times> kstate) res" where
  "reaper_drain cpu s =
     (case dead_threads s of
        [] \<Rightarrow> Inr ([], s)
      | t # ts \<Rightarrow> bindE (reap_one cpu t ts s)
          (\<lambda>(fs, s1). bindE (reaper_drain cpu s1) (\<lambda>(gs, s2). Inr (fs @ gs, s2))))"
  by pat_completeness auto
termination
  by (relation "measure (\<lambda>(cpu, s). length (dead_threads s))") (auto simp: reap_one_dead)

declare reaper_drain.simps [simp del]

text \<open>One turn of the outer loop: the reaper, woken from its wait queue, reaps and blocks again.\<close>

definition reaper_turn :: "cpu_num \<Rightarrow> kstate \<Rightarrow> (free_op list \<times> int call) res" where
  "reaper_turn cpu s =
     bindE (wait_queue_block_resume cpu INFINITE_TIME s)
       (\<lambda>c. case c of
          Switched_out s1 \<Rightarrow> Inr ([], Switched_out s1)
        | Return _ s1 \<Rightarrow> bindE (reaper_drain cpu s1)
            (\<lambda>(fs, s2). bindE (wait_queue_block cpu Reaper_wq INFINITE_TIME s2)
              (\<lambda>c2. bindE (unlock_call cpu c2) (\<lambda>d. Inr (fs, d)))))"

definition thread_exit :: "cpu_num \<Rightarrow> int \<Rightarrow> kstate \<Rightarrow> kstate res" where
  "thread_exit cpu code s =
     (let current_thread = current s cpu
      in guardE ''thread magic'' (magic (threads s current_thread) = THREAD_MAGIC)
        (guardE ''not idle'' (\<not> thread_is_idle (threads s current_thread))
        (guardE ''running'' (state (threads s current_thread) = THREAD_RUNNING)
          (bindE (thread_check_cookie current_thread s)
            (\<lambda>_. bindE (thread_lock cpu s)
              (\<lambda>s1. let s2 = upd_thread current_thread (\<lambda>th. th\<lparr>state := THREAD_DEATH, retcode := code\<rparr>) s1
                in bindE
                  (if flags (threads s2 current_thread) AND THREAD_FLAG_DETACHED \<noteq> 0 then
                     wait_queue_wake_all cpu Reaper_wq False 0
                       (upd_thread current_thread (\<lambda>th. th\<lparr>thread_list_node := In_dead_threads\<rparr>)
                         (s2\<lparr>thread_list := remove1 current_thread (thread_list s2),
                             dead_threads := dead_threads s2 @ [current_thread]\<rparr>))
                   else wait_queue_wake_all cpu (Retcode_wq current_thread) False 0 s2)
                  (\<lambda>(_, s3). bindE (thread_resched cpu s3)
                    (\<lambda>s4. if current s4 cpu = current_thread
                          then Inl (Panic ''somehow fell through thread_exit()'')
                          else thread_unlock cpu s4))))))))"

definition thread_exit_from_panic :: "cpu_num \<Rightarrow> kstate \<Rightarrow> kstate res" where
  "thread_exit_from_panic cpu s =
     (let current_thread = current s cpu
      in guardE ''exit on panic'' (flags (threads s current_thread) AND THREAD_FLAG_EXIT_ON_PANIC \<noteq> 0)
        (bindE (thread_lock cpu s)
          (\<lambda>s1. let s2 = upd_thread current_thread
                       (\<lambda>th. th\<lparr>flags := flags th AND NOT THREAD_FLAG_EXIT_ON_PANIC\<rparr>) s1
            in guardE ''running or ready''
                 (state (threads s2 current_thread) = THREAD_RUNNING \<or>
                  state (threads s2 current_thread) = THREAD_READY)
              (let s3 = (if cfg_test_build s2
                         then upd_thread current_thread
                                (\<lambda>th. th\<lparr>cookie := thread_get_expected_cookie current_thread s2\<rparr>) s2
                         else s2)
               in bindE (if state (threads s3 current_thread) = THREAD_READY then
                           if cfg_test_build s3 then
                             bindE (delete_from_run_queue cpu current_thread s3)
                               (\<lambda>s4. Inr (upd_thread current_thread (\<lambda>th. th\<lparr>state := THREAD_RUNNING\<rparr>) s4))
                           else Inl (Panic ''tried to exit runnable kernel test thread'')
                         else Inr s3)
                  (\<lambda>s5. bindE (thread_unlock cpu s5) (thread_exit cpu ERR_FAULT))))))"

section \<open>The set of threads\<close>

text \<open>A thread structure outside the thread lists may be written to.\<close>

lemma unknown_facts:
  assumes inv: "sched_inv_at X Y s" and t: "t \<notin> known s"
  shows "queue_node (threads s t) = Not_queued" "t \<notin> set (run_queue s p)"
    "t \<notin> set (wq_list (wait_queues s w))" "up s c \<Longrightarrow> current s c \<noteq> t" "up s c \<Longrightarrow> idle_threads s c \<noteq> t"
proof -
  from inv have "queued_ok s t" by (simp add: sched_inv_at_def queued_inv_def)
  with t show n: "queue_node (threads s t) = Not_queued"
    by (simp add: queued_ok_def known_def split: queue_link.splits)
  with inv show "t \<notin> set (run_queue s p)" "t \<notin> set (wq_list (wait_queues s w))"
    by (simp_all add: sched_inv_at_def rq_inv_def wq_inv_def)
  show "up s c \<Longrightarrow> current s c \<noteq> t" using current_known [OF inv] t by blast
  show "up s c \<Longrightarrow> idle_threads s c \<noteq> t" using cpu_okD [OF inv] t by (auto simp: cpu_ok_def known_def)
qed

lemma sched_inv_unknown:
  assumes inv: "sched_inv_at X Y s" and t: "t \<notin> known s" "t \<noteq> idle_threads s 0"
    and q: "queue_node (f (threads s t)) = Not_queued"
  shows "sched_inv_at X Y (upd_thread t f s)"
proof -
  let ?s = "upd_thread t f s"
  note u = unknown_facts [OF inv t(1)]
  have o: "v \<in> known s \<Longrightarrow> threads ?s v = threads s v" for v using t(1) by auto
  have ck: "thread_get_expected_cookie v ?s = thread_get_expected_cookie v s" for v
    using t(2) by (simp add: thread_get_expected_cookie_def)
  have "thread_ok ?s v = thread_ok s v" "settled ?s v = settled s v" if "v \<in> known s" for v
    using o [OF that] ck by (simp_all add: thread_ok_def settled_def)
  moreover have "cpu_ok ?s c = cpu_ok s c" if "up s c" for c
    using u(4,5) [OF that] by (auto simp: cpu_ok_def preempt_ok_def)
  moreover have "queued_ok ?s v" for v
  proof (cases "v = t")
    case False
    then have "queued_ok ?s v = queued_ok s v" by (simp add: queued_ok_def cong: queue_link.case_cong)
    with inv show ?thesis by (simp add: sched_inv_at_def queued_inv_def)
  qed (use q in \<open>simp add: queued_ok_def\<close>)
  moreover have "queue_node (threads ?s v) = queue_node (threads s v)" for v
    using u(1) q by simp
  moreover have "state (threads ?s (current s c)) = state (threads s (current s c))" if "up s c" for c
    using u(4) [OF that] by simp
  moreover have "v \<in> set (dead_threads s) \<Longrightarrow> v \<in> known s" for v by (simp add: known_def)
  ultimately show ?thesis using inv o
    unfolding sched_inv_at_def rq_inv_def wq_inv_def queued_inv_def threads_inv_def cpus_inv_def
    by (simp del: upd_thread_simps(1)) blast
qed

lemma sched_parts_wq:
  "up (s\<lparr>wait_queues := q\<rparr>) = up s" "thread_ok (s\<lparr>wait_queues := q\<rparr>) = thread_ok s"
  "settled (s\<lparr>wait_queues := q\<rparr>) = settled s" "cpu_ok (s\<lparr>wait_queues := q\<rparr>) = cpu_ok s"
  "queued_ok (s\<lparr>wait_queues := q\<rparr>) = queued_ok s"
  by (simp_all add: fun_eq_iff up_def thread_ok_def settled_def cpu_ok_def preempt_ok_def queued_ok_def
      known_def thread_get_expected_cookie_def cong: queue_link.case_cong)

text \<open>A new thread.\<close>

lemma sched_parts_list [simp]:
  "up (s\<lparr>thread_list := l\<rparr>) = up s" "thread_ok (s\<lparr>thread_list := l\<rparr>) = thread_ok s"
  "settled (s\<lparr>thread_list := l\<rparr>) = settled s"
  by (simp_all add: fun_eq_iff up_def thread_ok_def settled_def thread_get_expected_cookie_def)

lemma sched_inv_add:
  assumes inv: "sched_inv_at X Y s" and t: "t \<notin> known s" "thread_ok s t" "settled s t"
  shows "sched_inv_at X Y (s\<lparr>thread_list := t # thread_list s\<rparr>)"
proof -
  let ?s = "s\<lparr>thread_list := t # thread_list s\<rparr>"
  have "queued_ok s v \<Longrightarrow> queued_ok ?s v" for v by (auto simp: queued_ok_def split: queue_link.splits)
  moreover have "cpu_ok s c \<Longrightarrow> cpu_ok ?s c" for c by (auto simp: cpu_ok_def known_def preempt_ok_def)
  moreover have "known ?s = insert t (known s)" by (auto simp: known_def)
  ultimately show ?thesis using inv t
    by (auto simp: sched_inv_at_def rq_inv_def wq_inv_def queued_inv_def threads_inv_def cpus_inv_def known_def)
qed

text \<open>A thread that is neither queued nor current nor idle may leave the list; a dead one may move to
  the list of dead threads.\<close>

lemma sched_inv_leave:
  assumes inv: "sched_inv_at X Y s" and t: "queue_node (threads s t) = Not_queued"
      "\<And>c. up s c \<Longrightarrow> current s c \<noteq> t" "\<not> thread_is_idle (threads s t)"
  shows "sched_inv_at X Y (s\<lparr>thread_list := removeAll t (thread_list s), dead_threads := removeAll t (dead_threads s)\<rparr>)"
proof -
  let ?s = "s\<lparr>thread_list := removeAll t (thread_list s), dead_threads := removeAll t (dead_threads s)\<rparr>"
  have p: "up ?s = up s" "thread_ok ?s = thread_ok s" "settled ?s = settled s" "known ?s = known s - {t}"
    by (auto simp: fun_eq_iff up_def thread_ok_def settled_def thread_get_expected_cookie_def known_def)
  have "queued_ok ?s v" if "queued_ok s v" for v
    using that t(1) by (cases "v = t") (auto simp: queued_ok_def split: queue_link.splits)
  moreover have "cpu_ok ?s c" if "up s c" "cpu_ok s c" for c
    using that t(2) [OF that(1)] t(3) by (auto simp: cpu_ok_def p preempt_ok_def)
  moreover have "distinct (removeAll t (thread_list s) @ removeAll t (dead_threads s))"
    using inv by (auto simp: sched_inv_at_def threads_inv_def distinct_removeAll)
  ultimately show ?thesis using inv
    by (simp add: sched_inv_at_def rq_inv_def wq_inv_def queued_inv_def threads_inv_def cpus_inv_def p)
qed

lemma sched_inv_bury:
  assumes inv: "sched_inv_at X Y s" and t: "queue_node (threads s t) = Not_queued"
      "t \<in> set (thread_list s)" "state (threads s t) = THREAD_DEATH" "\<not> thread_is_idle (threads s t)"
  shows "sched_inv_at X Y (s\<lparr>thread_list := remove1 t (thread_list s), dead_threads := dead_threads s @ [t]\<rparr>)"
proof -
  let ?s = "s\<lparr>thread_list := remove1 t (thread_list s), dead_threads := dead_threads s @ [t]\<rparr>"
  have d: "distinct (thread_list s)" using inv by (simp add: sched_inv_at_def threads_inv_def)
  have p: "up ?s = up s" "thread_ok ?s = thread_ok s" "settled ?s = settled s" "known ?s = known s"
    using t(2) d by (auto simp: fun_eq_iff up_def thread_ok_def settled_def thread_get_expected_cookie_def known_def)
  have "queued_ok ?s v" if "queued_ok s v" for v
    using that t(1) d by (cases "v = t") (auto simp: queued_ok_def split: queue_link.splits)
  moreover have "cpu_ok ?s c" if "cpu_ok s c" for c
    using that t(4) d by (auto simp: cpu_ok_def p preempt_ok_def)
  moreover have "distinct (remove1 t (thread_list s) @ dead_threads s @ [t])"
    using inv t(2) by (auto simp: sched_inv_at_def threads_inv_def)
  ultimately show ?thesis using inv t(3)
    by (auto simp: sched_inv_at_def rq_inv_def wq_inv_def queued_inv_def threads_inv_def cpus_inv_def p)
qed

section \<open>Creating a thread\<close>

lemma shadow_stack_revert: "revert_shadow_stack_base (adjust_shadow_stack_base base sz) sz = base"
  by (simp add: revert_shadow_stack_base_def adjust_shadow_stack_base_def)

text \<open>The structure given to \<^verbatim>\<open>thread_create_etc\<close> (or allocated by it) is not one of a live thread.\<close>

definition fresh :: "tid \<Rightarrow> kstate \<Rightarrow> bool" where
  "fresh t s \<longleftrightarrow> t \<noteq> 0 \<and> t \<notin> known s \<and> t \<noteq> idle_threads s 0 \<and> wq_list (wait_queues s (Retcode_wq t)) = []"

text \<open>What the initialisation of a thread structure has done.\<close>

definition only_new :: "tid \<Rightarrow> kstate \<Rightarrow> kstate \<Rightarrow> bool" where
  "only_new t s s' \<longleftrightarrow>
     thread_list s' = thread_list s \<and> dead_threads s' = dead_threads s \<and> run_queue s' = run_queue s \<and>
     run_queue_bitmap s' = run_queue_bitmap s \<and> idle_threads s' = idle_threads s \<and>
     current s' = current s \<and> active_cpus s' = active_cpus s \<and> timers s' = timers s \<and>
     smp_max_cpus s' = smp_max_cpus s \<and> thread_lock_owner s' = thread_lock_owner s \<and>
     cfg_scs s' = cfg_scs s \<and> cfg_musl s' = cfg_musl s \<and>
     (\<forall>u. u \<noteq> t \<longrightarrow> threads s' u = threads s u) \<and>
     (\<forall>w. w \<noteq> Retcode_wq t \<longrightarrow> wait_queues s' w = wait_queues s w) \<and>
     wq_list (wait_queues s' (Retcode_wq t)) = [] \<and> wq_count (wait_queues s' (Retcode_wq t)) = 0 \<and>
     magic (threads s' t) = THREAD_MAGIC \<and> cookie (threads s' t) = thread_get_expected_cookie t s \<and>
     queue_node (threads s' t) = Not_queued \<and> state (threads s' t) = THREAD_SUSPENDED \<and>
     pinned_cpu (threads s' t) = - 1"

definition NEW_THREAD :: "tid \<Rightarrow> string \<Rightarrow> kstate \<Rightarrow> thread" where
  "NEW_THREAD t nm s = ZERO_THREAD\<lparr>magic := THREAD_MAGIC, cookie := thread_get_expected_cookie t s,
     pinned_cpu := - 1, name := copy_name nm\<rparr>"

lemma zero_thread_simps:
  "state ZERO_THREAD = THREAD_SUSPENDED" "queue_node ZERO_THREAD = Not_queued" "flags ZERO_THREAD = 0"
  "pinned_cpu ZERO_THREAD = 0"
  by (simp_all add: ZERO_THREAD_def)

lemma init_thread_struct_eq:
  assumes "t \<noteq> 0" "t \<noteq> idle_threads s 0" "lock_free s" "cpu < smp_max_cpus s"
  shows "init_thread_struct cpu t nm s = Inr (s\<lparr>threads := (threads s)(t := NEW_THREAD t nm s),
     wait_queues := (wait_queues s)(Retcode_wq t := \<lparr>wq_magic = 0, wq_list = [], wq_count = 0\<rparr>)\<rparr>)"
proof -
  have ck: "thread_get_expected_cookie t (upd_wq (Retcode_wq t) g (upd_thread t f s)) = thread_get_expected_cookie t s" for f g
    using assms(2) by (simp add: thread_get_expected_cookie_def)
  show ?thesis using assms
    by (simp add: init_thread_struct_def Let_def thread_set_pinned_cpu_def lock_free_def up_def
        thread_lock_held_def ck zero_thread_simps)
      (simp add: upd_thread_def upd_wq_def NEW_THREAD_def lock_free_def)
qed

lemma only_new_new:
  "only_new t s (s\<lparr>threads := (threads s)(t := NEW_THREAD t nm s),
     wait_queues := (wait_queues s)(Retcode_wq t := \<lparr>wq_magic = 0, wq_list = [], wq_count = 0\<rparr>)\<rparr>)"
  by (simp add: only_new_def NEW_THREAD_def zero_thread_simps)

definition new_fields :: "(thread \<Rightarrow> thread) \<Rightarrow> thread \<Rightarrow> bool" where
  "new_fields f th \<longleftrightarrow> magic (f th) = magic th \<and> cookie (f th) = cookie th \<and> queue_node (f th) = queue_node th \<and>
     state (f th) = state th \<and> pinned_cpu (f th) = pinned_cpu th"

lemma only_new_upd:
  "only_new t s s1 \<Longrightarrow> new_fields f (threads s1 t) \<Longrightarrow> only_new t s (upd_thread t f s1)"
  by (simp add: only_new_def new_fields_def)

lemma only_new_wq_init: "only_new t s s1 \<Longrightarrow> only_new t s (wait_queue_init (Retcode_wq t) s1)"
  by (simp add: only_new_def wait_queue_init_def WAIT_QUEUE_INITIAL_VALUE_def)

lemma only_new_inv:
  assumes inv: "sched_inv s" and fr: "fresh t s" and n: "only_new t s s'"
  shows "sched_inv s'"
proof -
  from fr have t: "t \<notin> known s" "t \<noteq> idle_threads s 0" "wq_list (wait_queues s (Retcode_wq t)) = []"
    by (simp_all add: fresh_def)
  obtain new where new: "threads s' t = new" by simp
  have 1: "sched_inv (upd_thread t (\<lambda>_. new) s)" (is "sched_inv ?s1")
    using n new by (intro sched_inv_unknown [OF inv t(1,2)]) (auto simp: only_new_def)
  have th: "threads s' = threads ?s1" using n new by (auto simp: only_new_def)
  have ws: "wait_queues s' w = wait_queues s w \<or> wq_list (wait_queues s' w) = [] \<and>
      wq_count (wait_queues s' w) = 0 \<and> wq_list (wait_queues s w) = []" for w
    using n t(3) by (cases "w = Retcode_wq t") (simp_all add: only_new_def)
  from inv have "wq_count (wait_queues s w) = int (length (wq_list (wait_queues s w)))" for w
    by (simp add: sched_inv_at_def wq_inv_def)
  then have wl: "wq_list (wait_queues s' w) = wq_list (wait_queues s w)"
    "wq_count (wait_queues s' w) = int (length (wq_list (wait_queues s w)))"
    "wq_list (wait_queues s w) \<noteq> [] \<Longrightarrow> wq_magic (wait_queues s' w) = wq_magic (wait_queues s w)" for w
    using ws [of w] by auto
  have "wq_inv s'" using 1 wl by (simp add: wq_inv_def sched_inv_at_def th)
  moreover have "sched_inv (s'\<lparr>wait_queues := wait_queues s\<rparr>)"
    using 1 n by (subst sched_inv_cong [of _ ?s1]) (simp_all add: th only_new_def)
  ultimately show ?thesis
    by (simp add: sched_inv_at_def rq_inv_def queued_inv_def threads_inv_def cpus_inv_def sched_parts_wq known_def)
qed

text \<open>Entering the new thread into the thread list.\<close>

lemma only_new_add:
  assumes inv: "sched_inv s" and fr: "fresh t s" and n: "only_new t s s'"
    and th: "0 \<le> priority (threads s' t)" "priority (threads s' t) \<le> HIGHEST_PRIORITY"
      "\<not> thread_is_idle (threads s' t)" "curr_cpu (threads s' t) = - 1"
  shows "sched_inv (s'\<lparr>thread_list := t # thread_list s'\<rparr>)"
proof (rule sched_inv_add [OF only_new_inv [OF inv fr n]])
  show "t \<notin> known s'" using n fr by (simp add: only_new_def fresh_def known_def)
  have "threads s' (idle_threads s 0) = threads s (idle_threads s 0)" using n fr by (auto simp: only_new_def fresh_def)
  then have "thread_get_expected_cookie t s' = thread_get_expected_cookie t s"
    using n by (simp add: only_new_def thread_get_expected_cookie_def)
  then show "thread_ok s' t" using n th by (simp add: only_new_def thread_ok_def)
  show "settled s' t" using n by (simp add: only_new_def settled_def)
qed

text \<open>The flags \<^verbatim>\<open>thread_create_etc\<close> can set do not make a thread idle.\<close>

definition create_flags :: "tid \<Rightarrow> 64 word \<Rightarrow> kstate \<Rightarrow> 32 word" where
  "create_flags t0 stk s =
     flag_if (cfg_scs s) THREAD_FLAG_FREE_SHADOW_STACK
       (flag_if (stk = 0) THREAD_FLAG_FREE_STACK (flag_if (t0 = 0) THREAD_FLAG_FREE_STRUCT 0))"

lemma create_flags_not_idle: "flags th = create_flags t0 stk s \<Longrightarrow> \<not> thread_is_idle th"
  by (auto simp: thread_is_idle_def create_flags_def flag_if_def bit32_def)

definition create_fails :: "alloc_env \<Rightarrow> tid \<Rightarrow> 64 word \<Rightarrow> kstate \<Rightarrow> bool" where
  "create_fails env t stk s \<longleftrightarrow> t = 0 \<or> stk = 0 \<and> fst (stack_alloc env) \<noteq> 0 \<or>
     cfg_scs s \<and> fst (shadow_alloc env) \<noteq> 0 \<or> cfg_musl s \<and> libc_init_result env \<noteq> NO_ERROR"

text \<open>A new thread whose structure is filled in as the caller asked.\<close>

definition made :: "tid \<Rightarrow> 64 word \<Rightarrow> 64 word \<Rightarrow> int \<Rightarrow> kstate \<Rightarrow> kstate \<Rightarrow> bool" where
  "made t ent a prio s s' \<longleftrightarrow> only_new t s s' \<and> priority (threads s' t) = prio \<and> curr_cpu (threads s' t) = - 1 \<and>
     entry (threads s' t) = ent \<and> arg (threads s' t) = a \<and>
     wq_magic (wait_queues s' (Retcode_wq t)) = WAIT_QUEUE_MAGIC"

lemma create_base_ok:
  assumes "fresh t s" "lock_free s" "up s cpu"
  shows "okE (made t ent a prio s) (create_base cpu t nm ent a prio s)"
proof -
  have e: "t \<noteq> 0" "t \<noteq> idle_threads s 0" using assms(1) by (simp_all add: fresh_def)
  have c: "cpu < smp_max_cpus s" using assms(3) by (simp add: up_def)
  show ?thesis using only_new_new [of t s nm]
    by (simp add: create_base_def init_thread_struct_eq [OF e assms(2) c] made_def wait_queue_init_def
        WAIT_QUEUE_INITIAL_VALUE_def) (simp add: only_new_def)
qed

lemma made_steps:
  assumes "made t ent a prio s s'"
  shows "made t ent a prio s (set_stack t stk sz scs s')" "made t ent a prio s (set_shadow_stack t b s')"
    "made t ent a prio s (save_flags cpu t flgs s')" "flags (threads (save_flags cpu t flgs s') t) = flgs"
  using assms by (simp_all add: made_def only_new_def set_stack_def set_shadow_stack_def save_flags_def)

lemma made_cfg: "made t ent a prio s s' \<Longrightarrow> cfg_scs s' = cfg_scs s \<and> cfg_musl s' = cfg_musl s"
  by (simp add: made_def only_new_def)

lemma made_unlisted:
  assumes "made t ent a prio s s'" "sched_inv s" "lock_free s" "fresh t s"
  shows "sched_inv s' \<and> lock_free s' \<and> (\<forall>v. v \<noteq> t \<longrightarrow> threads s' v = threads s v) \<and> thread_list s' = thread_list s"
  using assms only_new_inv [OF assms(2,4)] by (simp add: made_def only_new_def lock_free_def)

lemma made_listed:
  assumes m: "made t ent a prio s s'" and s: "sched_inv s" "lock_free s" "fresh t s"
    and pr: "0 \<le> prio" "prio \<le> HIGHEST_PRIORITY" and fl: "flags (threads s' t) = create_flags t0 stk s"
  shows "okE (\<lambda>s''. sched_inv s'' \<and> lock_free s'' \<and> (\<forall>v. v \<noteq> t \<longrightarrow> threads s'' v = threads s v) \<and>
      thread_list s'' = t # thread_list s \<and> state (threads s'' t) = THREAD_SUSPENDED \<and>
      priority (threads s'' t) = prio \<and> flags (threads s'' t) = create_flags t0 stk s \<and>
      entry (threads s'' t) = ent \<and> arg (threads s'' t) = a \<and>
      wq_magic (wait_queues s'' (Retcode_wq t)) = WAIT_QUEUE_MAGIC) (thread_list_add cpu t s')"
proof -
  have "sched_inv (s'\<lparr>thread_list := t # thread_list s'\<rparr>)"
    using m pr create_flags_not_idle [OF fl] by (intro only_new_add [OF s(1,3)]) (simp_all add: made_def)
  then have "sched_inv (upd_thread t (\<lambda>th. th\<lparr>thread_list_node := In_thread_list\<rparr>)
      (s'\<lparr>thread_list := t # thread_list s'\<rparr>))"
    by (subst sched_inv_upd_same) (simp_all add: same_sched_simps)
  then have "sched_inv ((upd_thread t (\<lambda>th. th\<lparr>thread_list_node := In_thread_list\<rparr>)
      (s'\<lparr>thread_lock_owner := c, thread_list := t # thread_list s'\<rparr>))\<lparr>thread_lock_owner := n\<rparr>)" for c n
    by (subst sched_inv_frame, subst sched_inv_cong) simp_all
  then show ?thesis using m s fl
    by (simp add: thread_list_add_def made_def only_new_def lock_free_def)
qed

lemma okE_ifI: "(b \<Longrightarrow> okE P m) \<Longrightarrow> (\<not> b \<Longrightarrow> okE P n) \<Longrightarrow> okE P (if b then m else n)"
  by simp

theorem thread_create_etc_ok:
  assumes inv: "sched_inv s" and lf: "lock_free s" and u: "up s cpu"
    and pr: "IDLE_PRIORITY < prio" "prio \<le> HIGHEST_PRIORITY"
    and t: "t = (if t0 = 0 then malloc_result env else t0)" and fr: "t \<noteq> 0 \<Longrightarrow> fresh t s"
  shows "okE (\<lambda>(r, fs, s'). sched_inv s' \<and> lock_free s' \<and> (\<forall>v. v \<noteq> t \<longrightarrow> threads s' v = threads s v) \<and>
      (if create_fails env t stk s
       then r = 0 \<and> thread_list s' = thread_list s \<and> (t0 = 0 \<and> t \<noteq> 0 \<longrightarrow> Free t \<in> set fs)
       else r = t \<and> fs = [] \<and> thread_list s' = t # thread_list s \<and> state (threads s' t) = THREAD_SUSPENDED \<and>
         priority (threads s' t) = prio \<and> flags (threads s' t) = create_flags t0 stk s \<and>
         entry (threads s' t) = ent \<and> arg (threads s' t) = a \<and>
         wq_magic (wait_queues s' (Retcode_wq t)) = WAIT_QUEUE_MAGIC))
    (thread_create_etc cpu env t0 nm ent a prio stk stk_size scs_size s)" (is "okE ?post _")
proof (cases "t = 0")
  case True
  with assms show ?thesis by (simp add: thread_create_etc_def create_fails_def)
next
  case False
  note fr = fr [OF False]
  from create_base_ok [OF fr lf u, of ent a prio nm] obtain s2 where s2: "create_base cpu t nm ent a prio s = Inr s2" "made t ent a prio s s2"
    by (auto simp: okE_iff_ex)
  note m3 = made_steps(1) [OF s2(2)] and m4 = made_steps(2) [OF made_steps(1) [OF s2(2)]]
  note m5 = made_steps(3) [OF made_steps(2) [OF made_steps(1) [OF s2(2)]]]
  note un = made_unlisted [OF s2(2) inv lf fr] made_unlisted [OF m3 inv lf fr] made_unlisted [OF m5 inv lf fr]
  note cfg = made_cfg [OF m3] made_cfg [OF m5]
  have nz: "THREAD_FLAG_FREE_STRUCT \<noteq> 0" by (simp add: bit32_def)
  then have fr0: "flag_if c fa (flag_if d fb (flag_if (t0 = 0) THREAD_FLAG_FREE_STRUCT 0)) AND THREAD_FLAG_FREE_STRUCT \<noteq> 0"
      "flag_if d fb (flag_if (t0 = 0) THREAD_FLAG_FREE_STRUCT 0) AND THREAD_FLAG_FREE_STRUCT \<noteq> 0"
      "flag_if (t0 = 0) THREAD_FLAG_FREE_STRUCT 0 AND THREAD_FLAG_FREE_STRUCT \<noteq> 0" if "t0 = 0" for c d fa fb
    using that by (simp_all add: flag_if_def and_bit32_eq_0_iff bit_or_iff)
  show ?thesis
    unfolding thread_create_etc_def t [symmetric] Let_def okE_guard if_not_P [OF False] s2(1) bindE_Inr
    apply (intro conjI okE_ifI pr)
    subgoal using un(1) fr0 by (simp add: create_fails_def free_if_def)
    subgoal using un(2) fr0 cfg(1) by (simp add: create_fails_def free_if_def)
    subgoal using un(3) fr0 cfg by (simp add: create_fails_def free_if_def)
    subgoal unfolding okE_bind using pr(1) False cfg
      by (intro okE_mono [OF made_listed [where ?t0.0 = t0 and stk = stk, OF m5 inv lf fr _ pr(2)]])
        (simp_all add: create_fails_def create_flags_def save_flags_def)
    done
qed

section \<open>Starting a thread\<close>

lemma suspended_not_queued:
  assumes inv: "sched_inv s" and t: "t \<in> set (thread_list s)"
    and st: "state (threads s t) = THREAD_SUSPENDED \<or> state (threads s t) = THREAD_DEATH"
  shows "queue_node (threads s t) = Not_queued" "curr_cpu (threads s t) = - 1"
proof -
  from inv have "queued_ok s t" by (simp add: sched_inv_at_def queued_inv_def)
  with st show "queue_node (threads s t) = Not_queued" by (auto simp: queued_ok_def split: queue_link.splits)
  show "curr_cpu (threads s t) = - 1"
  proof (rule ccontr)
    assume "curr_cpu (threads s t) \<noteq> - 1"
    with thread_okD [OF inv t] obtain c where "up s c" "current s c = t" by (auto simp: thread_ok_def)
    with current_running [OF inv, of c] st show False by auto
  qed
qed

lemma thread_resume_ok:
  assumes inv: "sched_inv s" and lf: "lock_free s" and u: "up s cpu"
    and t: "t \<in> set (thread_list s)" "state (threads s t) \<noteq> THREAD_DEATH" "\<not> thread_is_idle (threads s t)"
  shows "okE (\<lambda>(r, s'). r = NO_ERROR \<and> sched_inv s' \<and> lock_free s' \<and>
      (state (threads s t) = THREAD_SUSPENDED \<and> ints_disabled \<longrightarrow> state (threads s' t) = THREAD_READY) \<and>
      (state (threads s t) = THREAD_SUSPENDED \<and> \<not> ints_disabled \<longrightarrow> runs_best cpu s'))
    (thread_resume cpu ints_disabled t s)"
proof -
  let ?l = "s\<lparr>thread_lock_owner := cpu\<rparr>" and ?f = "\<lambda>th. th\<lparr>state := THREAD_READY\<rparr>"
  have invl: "sched_inv ?l" using inv by simp
  note k = thread_okD [OF inv t(1)]
  have mg: "magic (threads s t) = THREAD_MAGIC" using k by (simp add: thread_ok_def)
  define s2 where "s2 = (if state (threads s t) = THREAD_SUSPENDED
    then insert_in_run_queue_head cpu t (upd_thread t ?f ?l) else Inr ?l)"
  have "okE (\<lambda>s'. sched_inv s' \<and> touches t ?l s' \<and>
      (state (threads s t) = THREAD_SUSPENDED \<longrightarrow> state (threads s' t) = THREAD_READY)) s2"
  proof (cases "state (threads s t) = THREAD_SUSPENDED")
    case True
    note q = suspended_not_queued [OF inv t(1) disjI1 [OF True]]
    have inv1: "sched_inv_at {t} {} (upd_thread t ?f ?l)"
      by (rule sched_inv_upd_thread [OF invl])
        (use q k not_current [OF inv q(2)] not_dead [OF inv t(1)] in
          \<open>auto simp: keeps_identity_def in_range_def thread_ok_def\<close>)
    have "okE (sched_inv_at ({t} - {t}) {}) (insert_in_run_queue_head cpu t (upd_thread t ?f ?l))"
      using t q by (intro insert_in_run_queue_ok [OF inv1]) (simp_all add: thread_lock_held_def)
    then obtain s' where s': "insert_in_run_queue_head cpu t (upd_thread t ?f ?l) = Inr s'" "sched_inv s'"
      by (auto simp: okE_iff_ex)
    from insert_in_run_queue_touches(1) [OF s'(1)] True s' show ?thesis by (simp add: s2_def touches_def)
  qed (use invl in \<open>simp add: s2_def touches_def\<close>)
  then obtain s3 where s3: "s2 = Inr s3" "sched_inv s3" "touches t ?l s3"
    "state (threads s t) = THREAD_SUSPENDED \<Longrightarrow> state (threads s3 t) = THREAD_READY" by (auto simp: okE_iff_ex)
  have "okE (only_mp s3) (thread_mp_reschedule cpu (current s3 cpu) t s3)"
    using thread_range_in_list [OF s3(2), of t] s3(3) t(1) by (intro thread_mp_reschedule_ok) (auto simp: touches_def)
  then obtain s4 where s4: "thread_mp_reschedule cpu (current s3 cpu) t s3 = Inr s4" "only_mp s3 s4"
    by (auto simp: okE_iff_ex)
  let ?s5 = "s4\<lparr>thread_lock_owner := smp_max_cpus s4\<rparr>"
  have o4: "thread_lock_owner s4 = cpu" "up s4 cpu" using s3(3) u by (simp_all add: only_mp_simps [OF s4(2)] touches_def up_def)
  have inv5: "sched_inv ?s5" "lock_free ?s5" "up ?s5 cpu"
    using s3(2) o4 by (simp_all add: only_mp_inv [OF s4(2)] lock_free_def)
  show ?thesis using mg t k lf s3(1,4) s4(1) o4(1) inv5 thread_yield_ok [OF inv5]
    by (auto simp: thread_resume_def Let_def s2_def lock_free_def only_mp_simps [OF s4(2)] elim!: okE_mono)
qed

section \<open>Exit\<close>

lemma next_not_self:
  assumes inv: "sched_inv_at {} {cpu} s" and u: "up s cpu" and lk: "thread_lock_held cpu s"
    and t: "t = current s cpu" "state (threads s t) \<noteq> THREAD_READY" "\<not> thread_is_idle (threads s t)"
  shows "next_thread cpu s \<noteq> t"
proof
  assume "next_thread cpu s = t"
  with get_top_thread_ok [OF inv u lk] t show False by (auto simp: okE_iff_ex)
qed

text \<open>The last part of \<^verbatim>\<open>thread_exit\<close>: the joiners (or the reaper) are woken and the cpu goes to
  another thread.\<close>

lemma exit_switches:
  assumes inv: "sched_inv_at {} {cpu} s" and u: "up s cpu" and lk: "thread_lock_held cpu s"
    and t: "t = current s cpu" "state (threads s t) = THREAD_DEATH" "\<not> thread_is_idle (threads s t)"
      "queue_node (threads s t) = Not_queued"
    and w: "wq_magic (wait_queues s w) = WAIT_QUEUE_MAGIC"
  shows "okE (\<lambda>s'. sched_inv s' \<and> lock_free s' \<and> runs_best cpu s' \<and> current s' cpu \<noteq> t \<and>
      state (threads s' t) = THREAD_DEATH \<and> retcode (threads s' t) = retcode (threads s t) \<and>
      dead_threads s' = dead_threads s \<and> released (wq_list (wait_queues s w)) w 0 s s')
    (bindE (wait_queue_wake_all cpu w False 0 s)
      (\<lambda>(_, s3). bindE (thread_resched cpu s3)
        (\<lambda>s4. if current s4 cpu = t then Inl (Panic ''somehow fell through thread_exit()'') else thread_unlock cpu s4)))"
proof -
  have nw: "t \<notin> set (wq_list (wait_queues s w))" using inv t(4) by (auto simp: sched_inv_at_def wq_inv_def)
  have "state (threads s (current s cpu)) \<noteq> THREAD_READY" using t(1,2) by simp
  from wake_all_ok [OF inv lk w this, of 0] nw t(1) obtain n s3 where s3: "wait_queue_wake_all cpu w False 0 s = Inr (n, s3)"
    "sched_inv_at {} {cpu} s3" "woken (wq_list (wait_queues s w)) w 0 s s3" by (auto simp: okE_iff_ex)
  have th: "threads s3 t = threads s t" using s3(3) nw by (simp add: woken_def)
  have f: "current s3 = current s" "dead_threads s3 = dead_threads s" "up s3 cpu" "thread_lock_held cpu s3"
    using s3(3) u lk by (simp_all add: woken_def wake_frame_def up_def thread_lock_held_def)
  have nr: "state (threads s3 (current s3 cpu)) \<noteq> THREAD_RUNNING" using t(1,2) th f by simp
  have n: "next_thread cpu s3 \<noteq> t" using t th f by (intro next_not_self [OF s3(2) f(3,4)]) simp_all
  from thread_resched_ok [OF s3(2) f(3,4) nr] obtain s4 where s4: "thread_resched cpu s3 = Inr s4" "sched_inv s4"
    "resched_rel cpu (next_thread cpu s3) s3 s4" "thread_lock_held cpu s4" by (auto simp: okE_iff_ex)
  note rr = resched_rel_simps [OF s4(3)]
  have "released (wq_list (wait_queues s w)) w 0 s s4"
    by (rule released_resched [OF woken_released [OF s3(3)] s4(3)])
  then have rel: "released (wq_list (wait_queues s w)) w 0 s (s4\<lparr>thread_lock_owner := k\<rparr>)" for k
    by (simp add: released_def)
  have "runs_best cpu s4" by (rule resched_runs_best [OF next_thread_policy [OF s3(2) f(3)] s4(3)])
  then have "runs_best cpu (s4\<lparr>thread_lock_owner := k\<rparr>)" for k by (simp add: runs_best_def can_run_on_def)
  with s3(1) s4(1,2,4) n rel show ?thesis
    by (simp add: rr th f t(2) lock_free_def thread_lock_held_def)
qed

theorem thread_exit_ok:
  assumes ctx: "thread_context cpu s" and t: "t = current s cpu"
    and w: "wq_magic (wait_queues s (Retcode_wq t)) = WAIT_QUEUE_MAGIC"
      "wq_magic (wait_queues s Reaper_wq) = WAIT_QUEUE_MAGIC"
  shows "okE (\<lambda>s'. sched_inv s' \<and> lock_free s' \<and> runs_best cpu s' \<and> current s' cpu \<noteq> t \<and>
      state (threads s' t) = THREAD_DEATH \<and> retcode (threads s' t) = code \<and>
      (if flags (threads s t) AND THREAD_FLAG_DETACHED \<noteq> 0
       then thread_list s' = remove1 t (thread_list s) \<and> dead_threads s' = dead_threads s @ [t] \<and>
         wq_list (wait_queues s' Reaper_wq) = []
       else thread_list s' = thread_list s \<and> dead_threads s' = dead_threads s \<and>
         wq_list (wait_queues s' (Retcode_wq t)) = [] \<and>
         (\<forall>u \<in> set (wq_list (wait_queues s (Retcode_wq t))). wait_queue_block_ret (threads s' u) = NO_ERROR \<and>
            state (threads s' u) \<in> {THREAD_READY, THREAD_RUNNING})))
    (thread_exit cpu code s)"
proof -
  from ctx have a: "sched_inv s" "lock_free s" "up s cpu" "\<not> thread_is_idle (threads s t)"
    by (simp_all add: thread_context_def t)
  note cf = current_facts [OF a(1,3), folded t]
  let ?l = "s\<lparr>thread_lock_owner := cpu\<rparr>"
  define s2 where "s2 = upd_thread t (\<lambda>th. th\<lparr>state := THREAD_DEATH, retcode := code\<rparr>) ?l"
  have "sched_inv_at {t} {cpu} s2" unfolding s2_def
    by (rule leave_running) (use a cf t in \<open>auto simp: keeps_identity_def in_range_def\<close>)
  then have inv2: "sched_inv_at {} {cpu} s2"
    using sched_inv_settle [of "{t}" "{cpu}" s2 t] by (simp add: settled_def s2_def)
  define s3 where "s3 = upd_thread t (\<lambda>th. th\<lparr>thread_list_node := In_dead_threads\<rparr>)
    (s2\<lparr>thread_list := remove1 t (thread_list s2), dead_threads := dead_threads s2 @ [t]\<rparr>)"
  have th2: "state (threads s2 t) = THREAD_DEATH" "\<not> thread_is_idle (threads s2 t)"
    "queue_node (threads s2 t) = Not_queued" "retcode (threads s2 t) = code" "current s2 cpu = t"
    "up s2 cpu" "thread_lock_held cpu s2" "wait_queues s2 = wait_queues s" "thread_list s2 = thread_list s"
    "dead_threads s2 = dead_threads s"
    using a cf t by (simp_all add: s2_def thread_is_idle_def up_def thread_lock_held_def)
  have inv3: "sched_inv_at {} {cpu} s3" unfolding s3_def
    using sched_inv_bury [OF inv2 th2(3) _ th2(1,2)] current_in_list [OF a(1,3)] t th2(9)
    by (subst sched_inv_upd_same) (simp_all add: same_sched_simps)
  have th3: "state (threads s3 t) = THREAD_DEATH" "\<not> thread_is_idle (threads s3 t)"
    "queue_node (threads s3 t) = Not_queued" "retcode (threads s3 t) = code" "current s3 cpu = t"
    "up s3 cpu" "thread_lock_held cpu s3" "wait_queues s3 = wait_queues s" "thread_list s3 = remove1 t (thread_list s)"
    "dead_threads s3 = dead_threads s @ [t]"
    using th2 by (simp_all add: s3_def thread_is_idle_def up_def thread_lock_held_def)
  have fl: "flags (threads s2 t) = flags (threads s t)" by (simp add: s2_def)
  let ?K = "\<lambda>(_, s3). bindE (thread_resched cpu s3)
    (\<lambda>s4. if current s4 cpu = t then Inl (Panic ''somehow fell through thread_exit()'') else thread_unlock cpu s4)"
  have e: "thread_exit cpu code s = (if flags (threads s t) AND THREAD_FLAG_DETACHED \<noteq> 0
      then bindE (wait_queue_wake_all cpu Reaper_wq False 0 s3) ?K
      else bindE (wait_queue_wake_all cpu (Retcode_wq t) False 0 s2) ?K)"
    unfolding thread_exit_def t [symmetric] s3_def s2_def Let_def using a cf by (simp add: lock_free_def)
  show ?thesis
  proof (cases "flags (threads s t) AND THREAD_FLAG_DETACHED \<noteq> 0")
    case True
    with exit_switches [OF inv3 th3(6,7) th3(5) [symmetric] th3(1,2,3), of Reaper_wq] w(2) show ?thesis
      unfolding e by (auto simp: th3 released_def elim!: okE_mono)
  next
    case False
    with exit_switches [OF inv2 th2(6,7) th2(5) [symmetric] th2(1,2,3), of "Retcode_wq t"] w(1) show ?thesis
      unfolding e by (auto simp: th2 released_def elim!: okE_mono)
  qed
qed

section \<open>Freeing\<close>

text \<open>The memory a thread owns, as the flags set at its creation record it.\<close>

definition owned_memory :: "alloc_env \<Rightarrow> tid \<Rightarrow> tid \<Rightarrow> 64 word \<Rightarrow> kstate \<Rightarrow> free_op list" where
  "owned_memory env t0 t stk s =
     (if stk = 0 \<and> snd (stack_alloc env) \<noteq> 0 then [Vmm_free_region (snd (stack_alloc env))] else []) @
     (if cfg_scs s then [Vmm_free_region (snd (shadow_alloc env))] else []) @
     (if t0 = 0 then [Free t] else [])"

lemma create_flags_bits:
  "create_flags t0 stk s AND THREAD_FLAG_FREE_STACK \<noteq> 0 \<longleftrightarrow> stk = 0"
  "create_flags t0 stk s AND THREAD_FLAG_FREE_SHADOW_STACK \<noteq> 0 \<longleftrightarrow> cfg_scs s"
  "create_flags t0 stk s AND THREAD_FLAG_FREE_STRUCT \<noteq> 0 \<longleftrightarrow> t0 = 0"
  "create_flags t0 stk s AND THREAD_FLAG_FREE_LIBC_STATE = 0"
  by (auto simp: create_flags_def flag_if_def bit32_def)

lemma thread_list_add_eq:
  "thread_list_add cpu t s = Inr s' \<Longrightarrow>
     threads s' = (threads s)(t := (threads s t)\<lparr>thread_list_node := In_thread_list\<rparr>) \<and> cfg_scs s' = cfg_scs s"
  by (auto simp: thread_list_add_def res_simps thread_lock_def thread_unlock_def split: if_splits)

lemma create_cfg:
  "cfg_scs (set_stack t stk sz scs s) = cfg_scs s" "cfg_scs (set_shadow_stack t b s) = cfg_scs s"
  "cfg_scs (save_flags cpu t flgs s) = cfg_scs s" "cfg_musl (set_stack t stk sz scs s) = cfg_musl s"
  "cfg_musl (set_shadow_stack t b s) = cfg_musl s" "cfg_musl (save_flags cpu t flgs s) = cfg_musl s"
  by (simp_all add: set_stack_def set_shadow_stack_def save_flags_def)

lemma create_base_cfg: "create_base cpu t nm ent a prio s = Inr s' \<Longrightarrow> fresh t s \<Longrightarrow> lock_free s \<Longrightarrow> up s cpu \<Longrightarrow> cfg_scs s' = cfg_scs s"
  using create_base_ok [of t s cpu ent a prio nm] by (auto simp: okE_iff_ex made_def only_new_def)

theorem thread_create_free:
  assumes c: "thread_create_etc cpu env t0 nm ent a prio stk stk_size scs_size s = Inr (t, fs, s')" and t: "t \<noteq> 0"
    and s: "fresh t s" "lock_free s" "up s cpu" and sh: "cfg_scs s \<Longrightarrow> shadow_stack (threads s' t) \<noteq> 0"
  shows "okE (\<lambda>(gs, s''). gs = owned_memory env t0 t stk s) (thread_free t s')"
proof -
  from c t obtain s2 where s2: "create_base cpu t nm ent a prio s = Inr s2"
    "thread_list_add cpu t (save_flags cpu t (flag_if (cfg_scs s2) THREAD_FLAG_FREE_SHADOW_STACK
       (flag_if (stk = 0) THREAD_FLAG_FREE_STACK (flag_if (t0 = 0) THREAD_FLAG_FREE_STRUCT 0)))
       (set_shadow_stack t (snd (shadow_alloc env))
         (set_stack t (if stk = 0 then snd (stack_alloc env) else stk) stk_size (round_up scs_size 8) s2))) = Inr s'"
    by (auto simp: thread_create_etc_def Let_def res_simps create_cfg split: if_splits)
  note e = thread_list_add_eq [OF s2(2)] and cf = create_base_cfg [OF s2(1) s]
  have fl: "flags (threads s' t) = create_flags t0 stk s" using e by (simp add: save_flags_def create_flags_def cf)
  have st: "stk = 0 \<Longrightarrow> stack (threads s' t) = snd (stack_alloc env)"
    using e by (simp add: save_flags_def set_shadow_stack_def set_stack_def)
  have sc: "cfg_scs s \<Longrightarrow> revert_shadow_stack_base (shadow_stack (threads s' t)) (shadow_stack_size (threads s' t)) =
      snd (shadow_alloc env)"
    using e cf by (simp add: save_flags_def set_shadow_stack_def set_stack_def shadow_stack_revert)
  have "cfg_scs s' = cfg_scs s" using e cf by (simp add: create_cfg)
  with st sc sh show ?thesis by (auto simp: thread_free_def Let_def fl create_flags_bits owned_memory_def simp del: One_nat_def)
qed

section \<open>Join, detach and the reaper\<close>

text \<open>A thread whose shadow stack is to be freed has one.\<close>

definition stacks_ok :: "tid \<Rightarrow> kstate \<Rightarrow> bool" where
  "stacks_ok t s \<longleftrightarrow> (flags (threads s t) AND THREAD_FLAG_FREE_SHADOW_STACK \<noteq> 0 \<longrightarrow>
     shadow_stack (threads s t) \<noteq> 0)"

text \<open>\<^verbatim>\<open>thread_free\<close> changes nothing but the shadow stack pointer of the thread.\<close>

lemma thread_free_ok:
  assumes "stacks_ok t s"
  shows "okE (\<lambda>(fs, s'). (\<exists>x. s' = upd_thread t (\<lambda>th. th\<lparr>shadow_stack := x\<rparr>) s) \<and>
      (Free t \<in> set fs \<longleftrightarrow> flags (threads s t) AND THREAD_FLAG_FREE_STRUCT \<noteq> 0)) (thread_free t s)"
proof -
  have "s = upd_thread t (\<lambda>th. th\<lparr>shadow_stack := shadow_stack (threads s t)\<rparr>) s"
    by (simp add: upd_thread_def fun_upd_idem)
  then have e: "\<exists>x. s = upd_thread t (\<lambda>th. th\<lparr>shadow_stack := x\<rparr>) s" by blast
  show ?thesis using assms by (auto simp: thread_free_def Let_def stacks_ok_def intro!: e)
qed

text \<open>A thread that has exited can be removed.\<close>

definition removable :: "tid \<Rightarrow> kstate \<Rightarrow> bool" where
  "removable t s \<longleftrightarrow> state (threads s t) = THREAD_DEATH \<and> \<not> thread_is_idle (threads s t) \<and>
     blocking_wait_queue (threads s t) = None \<and> stacks_ok t s \<and> t \<noteq> idle_threads s 0"

lemma sched_inv_removed:
  assumes inv: "sched_inv s" and t: "removable t s" "t \<in> known s"
    and l: "l = removeAll t (thread_list s)" "d = removeAll t (dead_threads s)"
    and th: "queue_node (f (threads s t)) = Not_queued"
  shows "sched_inv (upd_thread t f (s\<lparr>thread_list := l, dead_threads := d\<rparr>))"
proof -
  have nc: "current s c \<noteq> t" if "up s c" for c using current_running [OF inv that] t(1) by (auto simp: removable_def)
  have "queued_ok s t" using inv by (simp add: sched_inv_at_def queued_inv_def)
  with t(1) have "queue_node (threads s t) = Not_queued" by (auto simp: queued_ok_def removable_def split: queue_link.splits)
  then have "sched_inv (s\<lparr>thread_list := l, dead_threads := d\<rparr>)"
    using t(1) unfolding l by (intro sched_inv_leave [OF inv] nc) (simp_all add: removable_def)
  then show ?thesis by (rule sched_inv_unknown) (use t(1) l th in \<open>auto simp: known_def removable_def\<close>)
qed

lemma thread_join_finish_ok:
  assumes inv: "sched_inv s" and lk: "thread_lock_held cpu s"
    and t: "removable t s" "t \<in> set (thread_list s)"
  shows "okE (\<lambda>c. \<exists>fs s'. c = Return (NO_ERROR, retcode (threads s t), fs) s' \<and> sched_inv s' \<and> lock_free s' \<and>
      thread_list s' = remove1 t (thread_list s) \<and> dead_threads s' = dead_threads s \<and> magic (threads s' t) = 0 \<and>
      (\<forall>v. v \<noteq> t \<longrightarrow> threads s' v = threads s v) \<and>
      (Free t \<in> set fs \<longleftrightarrow> flags (threads s t) AND THREAD_FLAG_FREE_STRUCT \<noteq> 0)) (thread_join_finish cpu t s)"
proof -
  have d: "distinct (thread_list s)" "t \<notin> set (dead_threads s)" "t \<in> known s"
    using inv t(2) not_dead [OF inv] by (auto simp: sched_inv_at_def threads_inv_def known_def)
  note k = thread_okD [OF inv t(2)] and q = suspended_not_queued(1) [OF inv t(2)]
  let ?f = "\<lambda>th. th\<lparr>thread_list_node := Not_listed, magic := 0\<rparr>"
  let ?s1 = "upd_thread t ?f (s\<lparr>thread_list := remove1 t (thread_list s)\<rparr>)"
  have "sched_inv (upd_thread t ?f (s\<lparr>thread_list := remove1 t (thread_list s), dead_threads := dead_threads s\<rparr>))"
    using t q d by (intro sched_inv_removed [OF inv t(1)]) (simp_all add: distinct_remove1_removeAll removable_def)
  then have inv1: "sched_inv ?s1" by simp
  let ?s2 = "?s1\<lparr>thread_lock_owner := smp_max_cpus s\<rparr>"
  have "stacks_ok t ?s2" using t(1) by (simp add: removable_def stacks_ok_def)
  from thread_free_ok [OF this] obtain fs x where fs: "thread_free t ?s2 = Inr (fs, upd_thread t (\<lambda>th. th\<lparr>shadow_stack := x\<rparr>) ?s2)"
    "Free t \<in> set fs \<longleftrightarrow> flags (threads s t) AND THREAD_FLAG_FREE_STRUCT \<noteq> 0" by (auto simp: okE_iff_ex)
  have "sched_inv (upd_thread t (\<lambda>th. th\<lparr>shadow_stack := x\<rparr>) ?s2)"
    using inv1 by (subst sched_inv_upd_same) (simp_all add: same_sched_simps)
  with fs k q t lk show ?thesis
    by (simp add: thread_join_finish_def thread_ok_def removable_def thread_lock_held_def lock_free_def)
qed

lemma thread_join_dead:
  assumes inv: "sched_inv s" and lf: "lock_free s" and t: "removable t s" "t \<in> set (thread_list s)"
    and d: "flags (threads s t) AND THREAD_FLAG_DETACHED = 0"
  shows "okE (\<lambda>c. \<exists>fs s'. c = Return (NO_ERROR, retcode (threads s t), fs) s' \<and> sched_inv s' \<and> lock_free s' \<and>
      thread_list s' = remove1 t (thread_list s) \<and> dead_threads s' = dead_threads s \<and> magic (threads s' t) = 0 \<and>
      (\<forall>v. v \<noteq> t \<longrightarrow> threads s' v = threads s v) \<and>
      (Free t \<in> set fs \<longleftrightarrow> flags (threads s t) AND THREAD_FLAG_FREE_STRUCT \<noteq> 0)) (thread_join cpu t timeout s)"
proof -
  let ?l = "s\<lparr>thread_lock_owner := cpu\<rparr>"
  have "sched_inv ?l" "thread_lock_held cpu ?l" "removable t ?l"
    using inv t(1) by (simp_all add: thread_lock_held_def removable_def stacks_ok_def)
  note f = thread_join_finish_ok [OF this]
  have "magic (threads s t) = THREAD_MAGIC" using thread_okD [OF inv t(2)] by (simp add: thread_ok_def)
  with f t d lf show ?thesis by (simp add: thread_join_def lock_free_def removable_def)
qed

theorem thread_join_ok:
  assumes ctx: "thread_context cpu s" and t: "t \<in> set (thread_list s)"
    and w: "wq_magic (wait_queues s (Retcode_wq t)) = WAIT_QUEUE_MAGIC"
    and r: "state (threads s t) = THREAD_DEATH \<Longrightarrow> removable t s"
  shows "okE (\<lambda>c. if flags (threads s t) AND THREAD_FLAG_DETACHED \<noteq> 0 then c = Return (ERR_THREAD_DETACHED, 0, []) s
      else if state (threads s t) = THREAD_DEATH then
        (\<exists>fs s'. c = Return (NO_ERROR, retcode (threads s t), fs) s' \<and> sched_inv s' \<and> lock_free s' \<and>
           thread_list s' = remove1 t (thread_list s))
      else if timeout = 0 then c = Return (ERR_TIMED_OUT, 0, []) s
      else (\<exists>s'. c = Switched_out s' \<and> sched_inv s' \<and> lock_free s' \<and> current s' cpu \<noteq> current s cpu \<and>
           wq_list (wait_queues s' (Retcode_wq t)) = wq_list (wait_queues s (Retcode_wq t)) @ [current s cpu]))
    (thread_join cpu t timeout s)"
proof -
  from ctx have a: "sched_inv s" "lock_free s" "up s cpu" by (simp_all add: thread_context_def)
  have mg: "magic (threads s t) = THREAD_MAGIC" using thread_okD [OF a(1) t] by (simp add: thread_ok_def)
  let ?l = "s\<lparr>thread_lock_owner := cpu\<rparr>"
  have l: "sched_inv ?l" "thread_lock_held cpu ?l" "s\<lparr>thread_lock_owner := smp_max_cpus s\<rparr> = s"
    using a by (simp_all add: thread_lock_held_def lock_free_def)
  consider (det) "flags (threads s t) AND THREAD_FLAG_DETACHED \<noteq> 0"
    | (dead) "flags (threads s t) AND THREAD_FLAG_DETACHED = 0" "state (threads s t) = THREAD_DEATH"
    | (wait) "flags (threads s t) AND THREAD_FLAG_DETACHED = 0" "state (threads s t) \<noteq> THREAD_DEATH" by blast
  then show ?thesis
  proof cases
    case det
    then show ?thesis using mg a(2) l(3) by (simp add: thread_join_def lock_free_def)
  next
    case dead
    from thread_join_dead [OF a(1,2) r [OF dead(2)] t dead(1), of cpu timeout] dead show ?thesis
      by (auto elim!: okE_mono)
  next
    case wait
    have "can_block cpu (Retcode_wq t) ?l" using ctx w l(1) by (simp add: can_block_def thread_context_def thread_lock_held_def)
    from wait_queue_block_ok [OF this, of timeout] obtain c where c:
      "wait_queue_block cpu (Retcode_wq t) timeout ?l = Inr c"
      "case c of Return r s' \<Rightarrow> timeout = 0 \<and> r = ERR_TIMED_OUT \<and> s' = ?l
       | Switched_out s' \<Rightarrow> timeout \<noteq> 0 \<and> sched_inv s' \<and> thread_lock_held cpu s' \<and> runs_best cpu s' \<and>
           current s' cpu \<noteq> current ?l cpu \<and> blocked_on cpu (current ?l cpu) (Retcode_wq t) timeout ?l s'"
      by (auto simp: okE_iff_ex)
    then show ?thesis using wait mg a(2) l(3)
      by (cases c) (simp_all add: thread_join_def lock_free_def blocked_on_def thread_lock_held_def)
  qed
qed

lemma class_bits:
  "thread_is_idle th \<longleftrightarrow> bit (flags th) 4"
  "thread_is_real_time_or_idle th \<longleftrightarrow> bit (flags th) 3 \<or> bit (flags th) 4"
proof -
  show i: "thread_is_idle th \<longleftrightarrow> bit (flags th) 4" by (simp add: thread_is_idle_def and_bit32_eq_0_iff)
  have "flags th AND (bit32 3 OR bit32 4) = 0 \<longleftrightarrow> flags th AND bit32 3 = 0 \<and> flags th AND bit32 4 = 0"
    by (simp add: bit.conj_disj_distrib or_eq_0_iff)
  then show "thread_is_real_time_or_idle th \<longleftrightarrow> bit (flags th) 3 \<or> bit (flags th) 4"
    by (simp add: thread_is_real_time_or_idle_def and_bit32_eq_0_iff)
qed

lemma detach_flag:
  "thread_is_idle (th\<lparr>flags := flags th OR THREAD_FLAG_DETACHED\<rparr>) = thread_is_idle th"
  "thread_is_idle (th\<lparr>flags := flags th AND NOT THREAD_FLAG_DETACHED\<rparr>) = thread_is_idle th"
  "thread_is_real_time_or_idle (th\<lparr>flags := flags th OR THREAD_FLAG_DETACHED\<rparr>) = thread_is_real_time_or_idle th"
  "thread_is_real_time_or_idle (th\<lparr>flags := flags th AND NOT THREAD_FLAG_DETACHED\<rparr>) = thread_is_real_time_or_idle th"
  by (simp_all add: class_bits bit_or_bit32 bit_and_not_bit32)

text \<open>Detaching releases all joiners with \<^verbatim>\<open>ERR_THREAD_DETACHED\<close>; a thread that has exited already is
  removed at once.\<close>

theorem thread_detach_ok:
  assumes inv: "sched_inv s" and lf: "lock_free s" and u: "up s cpu" and t: "t \<in> set (thread_list s)"
    and w: "wq_magic (wait_queues s (Retcode_wq t)) = WAIT_QUEUE_MAGIC"
    and r: "state (threads s t) = THREAD_DEATH \<Longrightarrow> removable t s"
  shows "okE (\<lambda>c. \<exists>r code fs s'. c = Return (r, code, fs) s' \<and> r = NO_ERROR \<and> sched_inv s' \<and> lock_free s' \<and>
      (\<forall>v \<in> set (wq_list (wait_queues s (Retcode_wq t))). wait_queue_block_ret (threads s' v) = ERR_THREAD_DETACHED) \<and>
      (if state (threads s t) = THREAD_DEATH then code = retcode (threads s t) \<and> thread_list s' = remove1 t (thread_list s)
       else fs = [] \<and> thread_list s' = thread_list s \<and> flags (threads s' t) = flags (threads s t) OR THREAD_FLAG_DETACHED))
    (thread_detach cpu t s)"
proof -
  let ?l = "s\<lparr>thread_lock_owner := cpu\<rparr>" and ?ts = "wq_list (wait_queues s (Retcode_wq t))"
  have l: "sched_inv ?l" "thread_lock_held cpu ?l" "up ?l cpu" using inv u by (simp_all add: thread_lock_held_def)
  note cur = current_facts(2) [OF l(1,3)] current_not_waiting [OF l(1,3), of "Retcode_wq t"]
  from wake_all_ok [OF l(1,2), of "Retcode_wq t" ERR_THREAD_DETACHED] w cur obtain n s2 where
    s2: "wait_queue_wake_all cpu (Retcode_wq t) False ERR_THREAD_DETACHED ?l = Inr (n, s2)" "sched_inv s2"
      "woken ?ts (Retcode_wq t) ERR_THREAD_DETACHED ?l s2" by (auto simp: okE_iff_ex)
  have fr: "thread_list s2 = thread_list s" "thread_lock_owner s2 = cpu" "smp_max_cpus s2 = smp_max_cpus s"
    "\<And>v. v \<in> set ?ts \<Longrightarrow> wait_queue_block_ret (threads s2 v) = ERR_THREAD_DETACHED"
    "flags (threads s2 t) = flags (threads s t)" "retcode (threads s2 t) = retcode (threads s t)"
    "idle_threads s2 = idle_threads s" "\<And>v. shadow_stack (threads s2 v) = shadow_stack (threads s v)"
    using s2(3) by (simp_all add: woken_def wake_frame_def)
  have dead: "t \<notin> set ?ts" if "state (threads s t) = THREAD_DEATH"
    using that wait_queue_member(1) [OF inv, of t "Retcode_wq t"] by auto
  have st: "state (threads s2 t) = THREAD_DEATH \<longleftrightarrow> state (threads s t) = THREAD_DEATH"
    using s2(3) dead by (auto simp: woken_def)
  have mg: "magic (threads s t) = THREAD_MAGIC" using thread_okD [OF inv t] by (simp add: thread_ok_def)
  have invf: "sched_inv (upd_thread t (\<lambda>th. th\<lparr>flags := flags th OR THREAD_FLAG_DETACHED\<rparr>) s2)"
    "sched_inv (upd_thread t (\<lambda>th. th\<lparr>flags := flags th AND NOT THREAD_FLAG_DETACHED\<rparr>) s2)"
    using s2(2) by (subst sched_inv_upd_same; simp add: same_sched_def detach_flag)+
  show ?thesis
  proof (cases "state (threads s t) = THREAD_DEATH")
    case False
    with mg lf s2(1) fr st invf(1) show ?thesis by (auto simp: thread_detach_def lock_free_def)
  next
    case True
    let ?s3 = "(upd_thread t (\<lambda>th. th\<lparr>flags := flags th AND NOT THREAD_FLAG_DETACHED\<rparr>) s2)\<lparr>thread_lock_owner := smp_max_cpus s\<rparr>"
    have th: "threads s2 t = threads s t" using s2(3) dead [OF True] by (simp add: woken_def)
    have "bit (flags (threads s t) AND NOT THREAD_FLAG_DETACHED) 7 = bit (flags (threads s t)) 7"
      "bit (flags (threads s t) AND NOT THREAD_FLAG_DETACHED) 0 = False"
      "bit (flags (threads s t) AND NOT THREAD_FLAG_DETACHED) 2 = bit (flags (threads s t)) 2"
      by (simp_all only: bit_and_not_bit32, simp_all)
    note fb = this
    have rm: "removable t ?s3" using r [OF True]
      by (simp add: removable_def stacks_ok_def th detach_flag fr and_bit32_eq_0_iff fb)
    have nd: "flags (threads ?s3 t) AND THREAD_FLAG_DETACHED = 0" by (simp add: and_bit32_eq_0_iff th fb)
    have s3: "sched_inv ?s3" "lock_free ?s3" "t \<in> set (thread_list ?s3)"
      using invf(2) fr t by (simp_all add: lock_free_def)
    from thread_join_dead [OF s3(1,2) rm s3(3) nd, of cpu 0] obtain fs s4 where
      s4: "thread_join cpu t 0 ?s3 = Inr (Return (NO_ERROR, retcode (threads s t), fs) s4)" "sched_inv s4" "lock_free s4"
        "thread_list s4 = remove1 t (thread_list s)" "\<forall>v. v \<noteq> t \<longrightarrow> threads s4 v = threads s2 v"
      by (auto simp: okE_iff_ex th fr)
    have "\<forall>v \<in> set ?ts. wait_queue_block_ret (threads s4 v) = ERR_THREAD_DETACHED"
      using s4(5) fr(4) dead [OF True] by metis
    with mg lf s2(1) fr st s4 True show ?thesis by (simp add: thread_detach_def lock_free_def)
  qed
qed

lemma reap_one_ok:
  assumes inv: "sched_inv s" and lk: "thread_lock_held cpu s" and d: "dead_threads s = t # ts"
    and t: "removable t s"
  shows "okE (\<lambda>(fs, s'). sched_inv s' \<and> thread_lock_held cpu s' \<and> dead_threads s' = ts \<and>
      thread_list s' = thread_list s \<and> (\<forall>v. v \<noteq> t \<longrightarrow> threads s' v = threads s v) \<and>
      idle_threads s' = idle_threads s \<and> wait_queues s' = wait_queues s \<and> current s' = current s \<and>
      active_cpus s' = active_cpus s \<and> smp_max_cpus s' = smp_max_cpus s \<and> timers s' = timers s \<and>
      (Free t \<in> set fs \<longleftrightarrow> flags (threads s t) AND THREAD_FLAG_FREE_STRUCT \<noteq> 0)) (reap_one cpu t ts s)"
proof -
  let ?f = "\<lambda>th. th\<lparr>thread_list_node := Not_listed, magic := 0\<rparr>"
  let ?s1 = "(upd_thread t ?f (s\<lparr>dead_threads := ts\<rparr>))\<lparr>thread_lock_owner := smp_max_cpus s\<rparr>"
  have dis: "distinct (thread_list s @ t # ts)" using inv d by (simp add: sched_inv_at_def threads_inv_def)
  have "queued_ok s t" using inv by (simp add: sched_inv_at_def queued_inv_def)
  with t have q: "queue_node (threads s t) = Not_queued" by (auto simp: queued_ok_def removable_def split: queue_link.splits)
  have "sched_inv (upd_thread t ?f (s\<lparr>thread_list := thread_list s, dead_threads := ts\<rparr>))"
    using dis d q by (intro sched_inv_removed [OF inv t]) (auto simp: known_def removeAll_id)
  then have inv1: "sched_inv (?s1\<lparr>thread_lock_owner := n\<rparr>)" for n by simp
  have "stacks_ok t ?s1" using t by (simp add: removable_def stacks_ok_def)
  from thread_free_ok [OF this] obtain fs x where fs: "thread_free t ?s1 = Inr (fs, upd_thread t (\<lambda>th. th\<lparr>shadow_stack := x\<rparr>) ?s1)"
    "Free t \<in> set fs \<longleftrightarrow> flags (threads s t) AND THREAD_FLAG_FREE_STRUCT \<noteq> 0" by (auto simp: okE_iff_ex)
  have "sched_inv (upd_thread t (\<lambda>th. th\<lparr>shadow_stack := x\<rparr>) ?s1)"
    using inv1 [of "smp_max_cpus s"] by (subst sched_inv_upd_same) (simp_all add: same_sched_simps)
  with fs lk show ?thesis by (simp add: reap_one_def thread_lock_held_def)
qed

text \<open>The reaper removes every dead thread, and gives back the structure of each that owns it.\<close>

theorem reaper_drain_ok:
  assumes "sched_inv s" "thread_lock_held cpu s" "\<forall>t \<in> set (dead_threads s). removable t s"
  shows "okE (\<lambda>(fs, s'). sched_inv s' \<and> thread_lock_held cpu s' \<and> dead_threads s' = [] \<and>
      thread_list s' = thread_list s \<and> wait_queues s' = wait_queues s \<and> current s' = current s \<and>
      active_cpus s' = active_cpus s \<and> smp_max_cpus s' = smp_max_cpus s \<and> timers s' = timers s \<and>
      (\<forall>v. v \<notin> set (dead_threads s) \<longrightarrow> threads s' v = threads s v) \<and>
      (\<forall>t \<in> set (dead_threads s). flags (threads s t) AND THREAD_FLAG_FREE_STRUCT \<noteq> 0 \<longrightarrow> Free t \<in> set fs))
    (reaper_drain cpu s)"
  using assms
proof (induction "dead_threads s" arbitrary: s)
  case Nil
  then show ?case by (subst reaper_drain.simps) (simp add: Nil.hyps [symmetric])
next
  case (Cons t ts)
  note d = Cons.hyps(2) [symmetric]
  from Cons.prems(3) d have t: "removable t s" by simp
  from reap_one_ok [OF Cons.prems(1,2) d t] obtain fs s1 where
    s1: "reap_one cpu t ts s = Inr (fs, s1)" "sched_inv s1" "thread_lock_held cpu s1" "dead_threads s1 = ts"
      "thread_list s1 = thread_list s" "\<And>v. v \<noteq> t \<Longrightarrow> threads s1 v = threads s v" "idle_threads s1 = idle_threads s"
      "wait_queues s1 = wait_queues s" "current s1 = current s" "active_cpus s1 = active_cpus s"
      "smp_max_cpus s1 = smp_max_cpus s" "timers s1 = timers s"
      "Free t \<in> set fs \<longleftrightarrow> flags (threads s t) AND THREAD_FLAG_FREE_STRUCT \<noteq> 0" by (auto simp: okE_iff_ex)
  have nt: "t \<notin> set ts" using Cons.prems(1) d by (simp add: sched_inv_at_def threads_inv_def)
  then have "v \<noteq> t" if "v \<in> set ts" for v using that by auto
  then have "\<forall>v \<in> set (dead_threads s1). removable v s1"
    using Cons.prems(3) d by (simp add: s1(4,6,7) removable_def stacks_ok_def)
  from Cons.hyps(1) [OF s1(4) [symmetric] s1(2,3) this] show ?case
    using nt \<open>\<And>v. v \<in> set ts \<Longrightarrow> v \<noteq> t\<close> s1(13)
    by (subst reaper_drain.simps) (auto simp: d s1(1,4-12) elim!: okE_mono)
qed

text \<open>A thread that panicked with the flag set exits with \<^verbatim>\<open>ERR_FAULT\<close>.\<close>

lemma cookie_idem: "cookie th = c \<Longrightarrow> th\<lparr>cookie := c\<rparr> = th"
  by auto

theorem thread_exit_from_panic_ok:
  assumes ctx: "thread_context cpu s" and t: "t = current s cpu"
    and fl: "flags (threads s t) AND THREAD_FLAG_EXIT_ON_PANIC \<noteq> 0"
    and w: "wq_magic (wait_queues s (Retcode_wq t)) = WAIT_QUEUE_MAGIC"
      "wq_magic (wait_queues s Reaper_wq) = WAIT_QUEUE_MAGIC"
  shows "okE (\<lambda>s'. sched_inv s' \<and> lock_free s' \<and> runs_best cpu s' \<and> current s' cpu \<noteq> t \<and>
      state (threads s' t) = THREAD_DEATH \<and> retcode (threads s' t) = ERR_FAULT) (thread_exit_from_panic cpu s)"
proof -
  from ctx have a: "sched_inv s" "lock_free s" "up s cpu" "t \<noteq> 0" "\<not> thread_is_idle (threads s t)"
    "node (timer_of (timers s) (Stack_timer t)) = None" by (simp_all add: thread_context_def t)
  note cf = current_facts [OF a(1,3), folded t]
  let ?f = "\<lambda>th. th\<lparr>flags := flags th AND NOT THREAD_FLAG_EXIT_ON_PANIC\<rparr>"
  let ?l = "s\<lparr>thread_lock_owner := cpu\<rparr>"
  let ?s2 = "upd_thread t ?f ?l"
  have cl: "thread_is_idle (?f th) = thread_is_idle th"
    "thread_is_real_time_or_idle (?f th) = thread_is_real_time_or_idle th" for th
    by (simp_all add: class_bits bit_and_not_bit32)
  have ck: "upd_thread t (\<lambda>th. th\<lparr>cookie := thread_get_expected_cookie t ?s2\<rparr>) ?s2 = ?s2"
  proof -
    have "thread_get_expected_cookie t ?s2 = thread_get_expected_cookie t s"
      by (simp add: thread_get_expected_cookie_def)
    moreover have "cookie (threads s t) = thread_get_expected_cookie t s" using cf(5) by (simp only: thread_ok_def)
    ultimately have "cookie (threads ?s2 t) = thread_get_expected_cookie t ?s2" by simp
    then have "(threads ?s2 t)\<lparr>cookie := thread_get_expected_cookie t ?s2\<rparr> = threads ?s2 t" by (rule cookie_idem)
    then show ?thesis unfolding upd_thread_def by (simp add: fun_upd_idem)
  qed
  define s5 where "s5 = ?s2\<lparr>thread_lock_owner := smp_max_cpus s\<rparr>"
  have "sched_inv ?s2" using a(1) cl by (subst sched_inv_upd_same) (simp_all add: same_sched_def)
  then have c5: "thread_context cpu s5" using a t cl by (simp add: thread_context_def s5_def lock_free_def up_def)
  have "thread_exit_from_panic cpu s = thread_exit cpu ERR_FAULT s5"
    using a(2) cf(2) fl ck unfolding thread_exit_from_panic_def t [symmetric] Let_def s5_def
    by (simp add: lock_free_def)
  moreover have "okE (\<lambda>s'. sched_inv s' \<and> lock_free s' \<and> runs_best cpu s' \<and> current s' cpu \<noteq> t \<and>
      state (threads s' t) = THREAD_DEATH \<and> retcode (threads s' t) = ERR_FAULT) (thread_exit cpu ERR_FAULT s5)"
    using w t by (intro okE_mono [OF thread_exit_ok [OF c5]]) (auto simp: s5_def)
  ultimately show ?thesis by simp
qed

end
