(* ===== verification/Timer_Tick.thy ===== *)
theory Timer_Tick
  imports Thread_Attr
begin

text \<open>
  Sleeping (\<^verbatim>\<open>kernel/thread.c\<close>) and the timer interrupt \<^verbatim>\<open>timer_tick\<close> (\<^verbatim>\<open>kernel/timer.c\<close>): the kernel's own
  timer callbacks, the loop that runs the callbacks of all timers that are due, and the deadline
  it programs for the next one. The handler runs with interrupts off; each callback is one step
  with respect to the other cpus.
\<close>

section \<open>Sleeping\<close>

definition thread_sleep_ns :: "cpu_num \<Rightarrow> time_ns \<Rightarrow> kstate \<Rightarrow> kstate res" where
  "thread_sleep_ns cpu delay_ns s =
     (let current_thread = current s cpu
      in guardE ''thread magic'' (magic (threads s current_thread) = THREAD_MAGIC)
        (guardE ''running'' (state (threads s current_thread) = THREAD_RUNNING)
        (guardE ''not idle'' (\<not> thread_is_idle (threads s current_thread))
          (bindE (thread_lock cpu (s\<lparr>timers := timer_initialize (Stack_timer current_thread) (timers s)\<rparr>))
            (\<lambda>s1. bindE (timer_set_oneshot_ns (smp_max_cpus s1) cpu (clock s1) (Stack_timer current_thread)
                           delay_ns thread_sleep_handler_cb current_thread (timers s1))
              (\<lambda>ts. bindE (thread_resched cpu
                       (upd_thread current_thread (\<lambda>th. th\<lparr>state := THREAD_SLEEPING\<rparr>) (s1\<lparr>timers := ts\<rparr>)))
                (thread_unlock cpu)))))))"

text \<open>The rest of it, once the thread runs again.\<close>

definition thread_sleep_resume :: "cpu_num \<Rightarrow> kstate \<Rightarrow> unit call res" where
  "thread_sleep_resume cpu s = timer_cancel_sync cpu (Stack_timer (current s cpu)) s"

text \<open>The comparison here is unsigned, not the wrapping \<^verbatim>\<open>time_lt\<close>.\<close>

definition thread_sleep_until_ns :: "cpu_num \<Rightarrow> time_ns \<Rightarrow> kstate \<Rightarrow> kstate res" where
  "thread_sleep_until_ns cpu target_time_ns s =
     (if clock s < target_time_ns then thread_sleep_ns cpu (target_time_ns - clock s) s else Inr s)"

section \<open>Callbacks\<close>

definition thread_timer_callback :: "cpu_num \<Rightarrow> kstate \<Rightarrow> (handler_return \<times> kstate) res" where
  "thread_timer_callback cpu s =
     (let current_thread = current s cpu
      in if thread_is_idle (threads s current_thread) then Inr (INT_NO_RESCHEDULE, s)
         else bindE (thread_lock cpu s)
           (\<lambda>s1. bindE (thread_cond_mp_reschedule cpu current_thread s1)
             (\<lambda>s2. bindE (thread_unlock cpu s2)
               (\<lambda>s3. if thread_is_real_time_or_idle (threads s3 current_thread) then Inr (INT_NO_RESCHEDULE, s3)
                     else let s4 = upd_thread current_thread
                                (\<lambda>th. th\<lparr>remaining_quantum := remaining_quantum th - 1\<rparr>) s3
                          in Inr (if remaining_quantum (threads s4 current_thread) \<le> 0
                                  then INT_RESCHEDULE else INT_NO_RESCHEDULE, s4)))))"

definition thread_sleep_handler :: "cpu_num \<Rightarrow> tid \<Rightarrow> kstate \<Rightarrow> (handler_return \<times> kstate) res" where
  "thread_sleep_handler cpu t s =
     guardE ''thread magic'' (magic (threads s t) = THREAD_MAGIC)
     (guardE ''sleeping'' (state (threads s t) = THREAD_SLEEPING)
       (bindE (thread_check_cookie t s)
         (\<lambda>_. bindE (thread_lock cpu s)
           (\<lambda>s1. bindE (insert_in_run_queue_head cpu t (upd_thread t (\<lambda>th. th\<lparr>state := THREAD_READY\<rparr>) s1))
             (\<lambda>s2. bindE (thread_pinned_cond_mp_reschedule cpu (current s2 cpu) t s2)
               (\<lambda>s3. bindE (thread_unlock cpu s3) (\<lambda>s4. Inr (INT_RESCHEDULE, s4))))))))"

text \<open>\<^verbatim>\<open>timer->callback(timer, now, timer->arg)\<close>. Callbacks of other subsystems are the argument
  \<open>other\<close>.\<close>

type_synonym callback_fun = "nat \<Rightarrow> cpu_num \<Rightarrow> time_ns \<Rightarrow> timer_ref \<Rightarrow> kstate \<Rightarrow> (handler_return \<times> kstate) res"

definition run_callback ::
    "callback_fun \<Rightarrow> cpu_num \<Rightarrow> time_ns \<Rightarrow> timer_ref \<Rightarrow> kstate \<Rightarrow> (handler_return \<times> kstate) res" where
  "run_callback other cpu now r s =
     (case callback (timer_of (timers s) r) of
        None \<Rightarrow> Inl (Panic ''call of a NULL callback'')
      | Some thread_timer_callback_cb \<Rightarrow> thread_timer_callback cpu s
      | Some thread_sleep_handler_cb \<Rightarrow> thread_sleep_handler cpu (targ (timer_of (timers s) r)) s
      | Some wait_queue_timeout_handler_cb \<Rightarrow> wait_queue_timeout_handler cpu (targ (timer_of (timers s) r)) s
      | Some (other_cb n) \<Rightarrow> other n cpu now r s)"

section \<open>The interrupt handler\<close>

text \<open>A runner of callbacks, as \<open>run_callback other\<close>.\<close>

type_synonym runner = "cpu_num \<Rightarrow> time_ns \<Rightarrow> timer_ref \<Rightarrow> kstate \<Rightarrow> (handler_return \<times> kstate) res"

abbreviation upd_timers :: "(timer_sys \<Rightarrow> timer_sys) \<Rightarrow> kstate \<Rightarrow> kstate" where
  "upd_timers f s \<equiv> s\<lparr>timers := f (timers s)\<rparr>"

text \<open>One turn of the loop, for a timer that is due.\<close>

definition tick_one :: "runner \<Rightarrow> cpu_num \<Rightarrow> time_ns \<Rightarrow> timer_ref \<Rightarrow> kstate \<Rightarrow> (handler_return \<times> kstate) res" where
  "tick_one run cpu now r s =
     guardE ''timer magic'' (tmagic (timer_of (timers s) r) = TIMER_MAGIC)
      (let s1 = upd_timers (\<lambda>ts. upd_timer r (\<lambda>t. t\<lparr>running := True\<rparr>) (list_delete_timer r ts)) s;
           periodic = periodic_time (timer_of (timers s1) r) > 0
       in bindE (run cpu now r s1)
         (\<lambda>(h, s2). guardE ''timer magic'' (tmagic (timer_of (timers s2) r) = TIMER_MAGIC)
           (let s3 = upd_timers (upd_timer r (\<lambda>t. t\<lparr>running := False\<rparr>)) s2
            in Inr (h, if periodic \<and> node (timer_of (timers s3) r) = None \<and>
                          periodic_time (timer_of (timers s3) r) > 0
                       then upd_timers (\<lambda>ts. insert_timer_in_queue cpu r
                              (upd_timer r (\<lambda>t. t\<lparr>scheduled_time := now + periodic_time t\<rparr>) ts)) s3
                       else s3))))"

text \<open>The loop may run for ever (for instance when a callback arms its timer for a time already
  passed); that is the value \<open>None\<close>.\<close>

partial_function (option) tick_loop ::
    "runner \<Rightarrow> cpu_num \<Rightarrow> time_ns \<Rightarrow> handler_return \<Rightarrow> kstate \<Rightarrow> (handler_return \<times> kstate) res option" where
  "tick_loop run cpu now ret s =
     (case queue_head cpu (timers s) of
        None \<Rightarrow> Some (Inr (ret, s))
      | Some r \<Rightarrow>
          if time_lt now (scheduled_time (timer_of (timers s) r)) then Some (Inr (ret, s))
          else case tick_one run cpu now r s of
              Inl e \<Rightarrow> Some (Inl e)
            | Inr (h, s1) \<Rightarrow> tick_loop run cpu now (if h = INT_RESCHEDULE then INT_RESCHEDULE else ret) s1)"

definition timer_tick :: "callback_fun \<Rightarrow> cpu_num \<Rightarrow> time_ns \<Rightarrow> kstate \<Rightarrow> (handler_return \<times> kstate) res option" where
  "timer_tick other cpu now s =
     (if \<not> cpu < smp_max_cpus s then Some (Inl (Assertion_failed ''cpu number''))
      else case tick_loop (run_callback other) cpu now INT_NO_RESCHEDULE s of
          None \<Rightarrow> None
        | Some m \<Rightarrow> Some (bindE m
            (\<lambda>(ret, s1). case queue_head cpu (timers s1) of
               None \<Rightarrow> Inr (ret, s1)
             | Some r \<Rightarrow>
                 guardE ''next timer in the future'' (time_gt (scheduled_time (timer_of (timers s1) r)) now)
                   (Inr (ret, upd_timers
                      (\<lambda>ts. platform_set_oneshot_timer cpu (scheduled_time (timer_of ts r)) ts) s1)))))"

section \<open>The callbacks keep the invariant and leave the timers alone\<close>

definition sleeping_ok :: "kstate \<Rightarrow> tid \<Rightarrow> bool" where
  "sleeping_ok s t \<longleftrightarrow> t \<in> set (thread_list s) \<and> state (threads s t) = THREAD_SLEEPING \<and>
     \<not> thread_is_idle (threads s t)"

text \<open>The part of the state the armed timers speak about: it changes for the thread \<open>t\<close> only.\<close>

definition others_same :: "tid \<Rightarrow> kstate \<Rightarrow> kstate \<Rightarrow> bool" where
  "others_same t s s' \<longleftrightarrow> timers s' = timers s \<and> thread_list s' = thread_list s \<and> current s' = current s \<and>
     active_cpus s' = active_cpus s \<and> smp_max_cpus s' = smp_max_cpus s \<and>
     (\<forall>u. flags (threads s' u) = flags (threads s u)) \<and>
     (\<forall>u. u \<noteq> t \<longrightarrow> state (threads s' u) = state (threads s u))"

lemma only_mp_others: "only_mp s s' \<Longrightarrow> others_same t s s'"
  by (simp add: others_same_def only_mp_simps)

lemma others_same_trans: "others_same t s s1 \<Longrightarrow> others_same t s1 s2 \<Longrightarrow> others_same t s s2"
  by (simp add: others_same_def)

lemma sched_inv_quantum:
  "sched_inv_at X Y (upd_thread t (\<lambda>th. th\<lparr>remaining_quantum := q th\<rparr>) s) = sched_inv_at X Y s"
  by (rule sched_inv_upd_same) (simp add: same_sched_simps)

lemma thread_timer_callback_ok:
  assumes inv: "sched_inv s" and lf: "lock_free s"
  shows "okE (\<lambda>(h, s'). sched_inv s' \<and> lock_free s' \<and> (\<forall>t. others_same t s s') \<and>
      (h = INT_RESCHEDULE \<longleftrightarrow> \<not> thread_is_real_time_or_idle (threads s (current s cpu)) \<and>
         remaining_quantum (threads s (current s cpu)) \<le> 1)) (thread_timer_callback cpu s)"
proof (cases "thread_is_idle (threads s (current s cpu))")
  case True
  then have "thread_is_real_time_or_idle (threads s (current s cpu))" by (rule idle_is_real_time_or_idle)
  with True inv lf show ?thesis by (simp add: thread_timer_callback_def others_same_def)
next
  case False
  let ?l = "s\<lparr>thread_lock_owner := cpu\<rparr>" and ?c = "current s cpu"
  have "okE (only_mp ?l) (thread_cond_mp_reschedule cpu ?c ?l)" by (rule thread_cond_mp_reschedule_ok) simp
  then obtain s2 where s2: "thread_cond_mp_reschedule cpu ?c ?l = Inr s2" "only_mp ?l s2"
    by (auto simp: okE_iff_ex)
  have inv2: "sched_inv (s2\<lparr>thread_lock_owner := n\<rparr>)" for n using inv by (simp add: only_mp_inv [OF s2(2)])
  show ?thesis using False lf s2(1) inv2
    by (auto simp: thread_timer_callback_def Let_def sched_inv_quantum only_mp_simps [OF s2(2)] lock_free_def others_same_def)
qed

lemma sleeping_not_current:
  assumes "sched_inv s" "sleeping_ok s t"
  shows "curr_cpu (threads s t) = - 1" "queue_node (threads s t) = Not_queued"
proof -
  have k: "thread_ok s t" using assms by (auto simp: sleeping_ok_def dest: thread_okD)
  show "curr_cpu (threads s t) = - 1"
  proof (rule ccontr)
    assume "curr_cpu (threads s t) \<noteq> - 1"
    with k obtain c where "up s c" "current s c = t" by (auto simp: thread_ok_def)
    with current_running [OF assms(1), of c] assms(2) show False by (simp add: sleeping_ok_def)
  qed
  from assms(1) have "queued_ok s t" by (simp add: sched_inv_at_def queued_inv_def)
  with assms(2) show "queue_node (threads s t) = Not_queued"
    by (simp add: queued_ok_def sleeping_ok_def split: queue_link.splits)
qed

theorem thread_sleep_handler_ok:
  assumes inv: "sched_inv s" and lf: "lock_free s" and t: "sleeping_ok s t"
  shows "okE (\<lambda>(h, s'). h = INT_RESCHEDULE \<and> sched_inv s' \<and> lock_free s' \<and> others_same t s s' \<and>
      state (threads s' t) = THREAD_READY \<and> t = hd (run_queue s' (prio_index t s)))
    (thread_sleep_handler cpu t s)"
proof -
  let ?l = "s\<lparr>thread_lock_owner := cpu\<rparr>" and ?f = "\<lambda>th. th\<lparr>state := THREAD_READY\<rparr>"
  let ?s1 = "upd_thread t ?f ?l"
  note sl = sleeping_not_current [OF inv t]
  from t have tl: "t \<in> set (thread_list s)" "\<not> thread_is_idle (threads s t)"
    "state (threads s t) = THREAD_SLEEPING" by (simp_all add: sleeping_ok_def)
  note k = thread_okD [OF inv tl(1)]
  have mg: "magic (threads s t) = THREAD_MAGIC" using k by (simp add: thread_ok_def)
  have inv1: "sched_inv_at {t} {} ?s1"
    by (rule sched_inv_upd_thread [where X = "{}" and Y = "{}"])
      (use inv sl k not_current [OF inv sl(1)] not_dead [OF inv tl(1)] in
        \<open>auto simp: keeps_identity_def in_range_def thread_ok_def\<close>)
  have "okE (sched_inv_at ({t} - {t}) {}) (insert_in_run_queue_head cpu t ?s1)"
    using tl sl by (intro insert_in_run_queue_ok [OF inv1]) (simp_all add: thread_lock_held_def)
  then obtain s2 where s2: "insert_in_run_queue_head cpu t ?s1 = Inr s2" "sched_inv s2"
    by (auto simp: okE_iff_ex)
  note f = insert_in_run_queue_touches(1) [OF s2(1)]
  have h: "hd (run_queue s2 (prio_index t s)) = t"
    using s2(1) by (auto simp: insert_in_run_queue_head_def res_simps Let_def prio_index_def)
  have fl: "flags (threads s2 u) = flags (threads s u)" for u
    using f by (cases "u = t") (simp_all add: touches_def)
  have fr: "thread_list s2 = thread_list s" "thread_lock_owner s2 = cpu" "others_same t s s2"
    "curr_cpu (threads s2 t) = - 1" "state (threads s2 t) = THREAD_READY" "smp_max_cpus s2 = smp_max_cpus s"
    using f sl fl by (auto simp: touches_def others_same_def)
  have "okE (only_mp s2) (thread_pinned_cond_mp_reschedule cpu (current s2 cpu) t s2)"
    using fr thread_range_in_list [OF s2(2)] tl(1) by (intro thread_pinned_cond_mp_reschedule_ok) simp_all
  then obtain s3 where s3: "thread_pinned_cond_mp_reschedule cpu (current s2 cpu) t s2 = Inr s3" "only_mp s2 s3"
    by (auto simp: okE_iff_ex)
  have "others_same t s (s3\<lparr>thread_lock_owner := n\<rparr>)" for n
    using others_same_trans [OF fr(3) only_mp_others [OF s3(2)]] by (simp add: others_same_def)
  then show ?thesis using mg tl k lf s2 s3 fr h
    by (simp add: thread_sleep_handler_def only_mp_inv [OF s3(2)] only_mp_simps [OF s3(2)] lock_free_def)
qed

lemma wait_timeout_others:
  assumes inv: "sched_inv s" and lf: "lock_free s" and t: "t \<in> set (thread_list s)"
  shows "okE (\<lambda>(h, s'). sched_inv s' \<and> lock_free s' \<and> others_same t s s') (wait_queue_timeout_handler cpu t s)"
proof (cases "state (threads s t) = THREAD_BLOCKED")
  case False
  then show ?thesis using wait_queue_timeout_handler_ok [OF inv lf t, of cpu]
    by (auto elim!: okE_mono simp: others_same_def)
next
  case True
  let ?l = "s\<lparr>thread_lock_owner := cpu\<rparr>"
  obtain w where w: "t \<in> set (wq_list (wait_queues ?l w))" using blocked_waits [OF inv t _ True] by auto
  have invl: "sched_inv ?l" using inv by simp
  from thread_unblock_from_wait_queue_ok [OF invl _ w, of cpu ERR_TIMED_OUT]
  obtain s2 where s2: "thread_unblock_from_wait_queue cpu t ERR_TIMED_OUT ?l = Inr (NO_ERROR, s2)"
    "sched_inv s2" "woken [t] w ERR_TIMED_OUT ?l s2" by (auto simp: okE_iff_ex)
  have mg: "magic (threads s t) = THREAD_MAGIC" using thread_okD [OF inv t] by (simp add: thread_ok_def)
  show ?thesis using s2 mg lf
    by (auto simp: wait_queue_timeout_handler_def woken_def wake_frame_def lock_free_def others_same_def)
qed

section \<open>The loop\<close>

text \<open>What a turn of the loop does to the timers, if the callback leaves them alone.\<close>

definition fire :: "cpu_num \<Rightarrow> time_ns \<Rightarrow> timer_ref \<Rightarrow> timer_sys \<Rightarrow> timer_sys" where
  "fire cpu now r ts =
     (let ts1 = upd_timer r (\<lambda>t. t\<lparr>running := False\<rparr>) (list_delete_timer r ts)
      in if periodic_time (timer_of ts r) > 0
         then insert_timer_in_queue cpu r
                (upd_timer r (\<lambda>t. t\<lparr>scheduled_time := now + periodic_time t\<rparr>) ts1)
         else ts1)"

definition due :: "time_ns \<Rightarrow> timer_sys \<Rightarrow> timer_ref \<Rightarrow> bool" where
  "due now ts r \<longleftrightarrow> \<not> time_lt now (scheduled_time (timer_of ts r))"

lemma periodic_list_delete [simp]:
  "periodic_time (timer_of (list_delete_timer r ts) e) = periodic_time (timer_of ts e)"
  by (simp add: list_delete_timer_def split: option.splits)

lemma list_delete_timer_fields [simp]:
  "callback (timer_of (list_delete_timer r ts) e) = callback (timer_of ts e)"
  "tcpu (timer_of (list_delete_timer r ts) e) = tcpu (timer_of ts e)"
  "targ (timer_of (list_delete_timer r ts) e) = targ (timer_of ts e)"
  by (simp_all add: list_delete_timer_def split: option.splits)

lemma list_delete_timer_other [simp]: "e \<noteq> r \<Longrightarrow> timer_of (list_delete_timer r ts) e = timer_of ts e"
  by (simp add: list_delete_timer_def split: option.splits)

lemma fire_other: "e \<noteq> r \<Longrightarrow> timer_of (fire cpu now r ts) e = timer_of ts e"
  by (simp add: fire_def Let_def insert_timer_in_queue_def)

lemma fire_linked: "linked ts \<Longrightarrow> linked (fire cpu now r ts)"
  unfolding fire_def Let_def
  by (auto intro!: insert_timer_in_queue_linked simp: linked_upd list_delete_timer_linked list_delete_timer_node)

lemma fire_queue:
  assumes "linked ts"
  shows "set (timer_queue (fire cpu now r ts) cpu) =
     (if periodic_time (timer_of ts r) > 0 then insert r (set (timer_queue ts cpu)) else set (timer_queue ts cpu) - {r})"
proof -
  from assms have "distinct (timer_queue ts cpu)" by (simp add: linked_def)
  then show ?thesis
    by (auto simp: fire_def Let_def list_delete_timer_queue [OF assms])
qed

text \<open>A period below half the clock's range puts a periodic timer into the future.\<close>

lemma period_in_future:
  assumes "0 < p" "unat p < 2 ^ 63"
  shows "time_lt now (now + p)" "time_gt (now + p) now"
proof -
  have "sint p = uint p" by (rule sint_small [OF assms(2)])
  moreover have "uint p > 0" using assms(1) by (simp add: word_less_def)
  ultimately show "time_gt (now + p) now" by (simp add: time_gt_def time_delta_def)
  have "sint (0 - p) = int (unat (0 :: 64 word)) - int (unat p)"
    by (rule sint_diff_pos) (use assms(2) in simp_all)
  then have "sint (- p) < 0" using \<open>uint p > 0\<close> by simp
  then show "time_lt now (now + p)" by (simp add: time_lt_def time_delta_def)
qed

lemma sint_eq_half: "sint x = - (2 ^ 63) \<Longrightarrow> x = 2 ^ 63" for x :: "64 word"
proof -
  assume "sint x = - (2 ^ 63)"
  then have "(of_int (sint x) :: 64 word) = of_int (- (2 ^ 63))" by simp
  then show ?thesis by simp
qed

lemma sint_uminus64: "x \<noteq> 2 ^ 63 \<Longrightarrow> sint (- x) = - sint x" for x :: "64 word"
proof -
  assume "x \<noteq> 2 ^ 63"
  then have "sint x \<noteq> - (2 ^ 63)" using sint_eq_half by blast
  moreover have "- (2 ^ 63) \<le> sint x" "sint x < 2 ^ 63" using sint_ge [of x] sint_lt [of x] by simp_all
  ultimately have "signed_take_bit 63 (- sint x) = - sint x"
    by (intro signed_take_bit_int_eq_self) simp_all
  then show ?thesis by (simp add: sint_word_minus)
qed

text \<open>The two comparisons agree except for instants half the range of the clock apart.\<close>

lemma time_lt_gt:
  assumes "time_lt a b" "b \<noteq> a + 2 ^ 63"
  shows "time_gt b a"
proof -
  have "a - b \<noteq> 2 ^ 63"
  proof
    assume "a - b = 2 ^ 63"
    then have "b = a - 2 ^ 63" by (simp add: algebra_simps)
    with assms(2) show False by simp
  qed
  from sint_uminus64 [OF this] assms(1) show ?thesis by (simp add: time_lt_def time_gt_def time_delta_def)
qed

lemma fire_due:
  assumes "unat (periodic_time (timer_of ts r)) < 2 ^ 63" "periodic_time (timer_of ts r) > 0"
  shows "\<not> due now (fire cpu now r ts) r"
  using period_in_future [OF assms(2,1)] assms(2)
  by (simp add: due_def fire_def Let_def)

lemma due_other: "e \<noteq> r \<Longrightarrow> due now (fire cpu now r ts) e = due now ts e"
  by (simp add: due_def fire_other)

text \<open>The timers still to fire.\<close>

definition due_count :: "cpu_num \<Rightarrow> time_ns \<Rightarrow> timer_sys \<Rightarrow> nat" where
  "due_count cpu now ts = card {r \<in> set (timer_queue ts cpu). due now ts r}"

lemma fire_due_count:
  assumes l: "linked ts" and r: "r \<in> set (timer_queue ts cpu)" "due now ts r"
    and p: "unat (periodic_time (timer_of ts r)) < 2 ^ 63"
  shows "due_count cpu now (fire cpu now r ts) < due_count cpu now ts"
proof -
  let ?D = "\<lambda>ts. {r \<in> set (timer_queue ts cpu). due now ts r}"
  have "?D (fire cpu now r ts) \<subseteq> ?D ts - {r}"
    using fire_queue [OF l, of cpu now r] fire_due [OF p] due_other [of _ r now cpu ts]
    by (auto split: if_splits) metis+
  moreover have "r \<in> ?D ts" using r by simp
  ultimately show ?thesis unfolding due_count_def by (intro psubset_card_mono) auto
qed

text \<open>What the loop does to the timers of the cpu: those in the future are untouched, periodic ones
  stay in the queue, and a one-shot timer that is still there has not been fired.\<close>

definition ticked :: "cpu_num \<Rightarrow> time_ns \<Rightarrow> timer_sys \<Rightarrow> timer_sys \<Rightarrow> bool" where
  "ticked cpu now ts ts' \<longleftrightarrow>
     (\<forall>r. \<not> due now ts r \<longrightarrow> timer_of ts' r = timer_of ts r \<and>
        (r \<in> set (timer_queue ts' cpu) \<longleftrightarrow> r \<in> set (timer_queue ts cpu))) \<and>
     (\<forall>r \<in> set (timer_queue ts cpu). periodic_time (timer_of ts r) > 0 \<longrightarrow> r \<in> set (timer_queue ts' cpu)) \<and>
     (\<forall>r \<in> set (timer_queue ts' cpu). r \<in> set (timer_queue ts cpu) \<and>
        (periodic_time (timer_of ts r) = 0 \<longrightarrow> timer_of ts' r = timer_of ts r)) \<and>
     (\<forall>r. periodic_time (timer_of ts' r) = periodic_time (timer_of ts r))"

lemma ticked_refl: "ticked cpu now ts ts"
  by (simp add: ticked_def)

lemma fire_periodic: "periodic_time (timer_of (fire cpu now r ts) e) = periodic_time (timer_of ts e)"
  by (cases "e = r") (simp_all add: fire_other, simp add: fire_def Let_def insert_timer_in_queue_def)

lemma ticked_fire:
  assumes l: "linked ts" and r: "r \<in> set (timer_queue ts cpu)" "due now ts r"
    and t: "ticked cpu now (fire cpu now r ts) ts'"
  shows "ticked cpu now ts ts'"
proof -
  note q = fire_queue [OF l, of cpu now r]
  have o: "e \<noteq> r" if "\<not> due now ts e" for e using that r(2) by auto
  have "timer_of ts' e = timer_of ts e \<and> (e \<in> set (timer_queue ts' cpu) \<longleftrightarrow> e \<in> set (timer_queue ts cpu))"
    if "\<not> due now ts e" for e
    using t q o [OF that] that due_other [of e r now cpu ts] fire_other [of e r cpu now ts]
    by (auto simp: ticked_def split: if_splits)
  moreover have "e \<in> set (timer_queue ts' cpu)"
    if "e \<in> set (timer_queue ts cpu)" "periodic_time (timer_of ts e) > 0" for e
    using t q that by (cases "e = r") (auto simp: ticked_def fire_periodic split: if_splits)
  moreover have "e \<in> set (timer_queue ts cpu) \<and> (periodic_time (timer_of ts e) = 0 \<longrightarrow> timer_of ts' e = timer_of ts e)"
    if "e \<in> set (timer_queue ts' cpu)" for e
  proof -
    from t that have e: "e \<in> set (timer_queue (fire cpu now r ts) cpu)"
      "periodic_time (timer_of ts e) = 0 \<longrightarrow> timer_of ts' e = timer_of (fire cpu now r ts) e"
      by (auto simp: ticked_def fire_periodic)
    have "e \<in> set (timer_queue ts cpu)" using e(1) q r(1) by (auto split: if_splits)
    moreover have "periodic_time (timer_of ts e) \<noteq> 0" if "e = r"
      using that e(1) q by (auto split: if_splits)
    ultimately show ?thesis using e(2) fire_other [of e r cpu now ts] by metis
  qed
  moreover have "periodic_time (timer_of ts' e) = periodic_time (timer_of ts e)" for e
    using t unfolding ticked_def fire_periodic by blast
  ultimately show ?thesis unfolding ticked_def by blast
qed

text \<open>
  The contract of the callbacks: in a state that satisfies \<open>inv\<close>, a turn of the loop succeeds, does
  to the timers just what firing means, and keeps \<open>inv\<close>.
\<close>

locale tick_callbacks =
  fixes run :: runner and inv :: "cpu_num \<Rightarrow> time_ns \<Rightarrow> kstate \<Rightarrow> bool"
  assumes inv_linked: "inv cpu now s \<Longrightarrow> linked (timers s)"
    and inv_period: "inv cpu now s \<Longrightarrow> r \<in> set (timer_queue (timers s) cpu) \<Longrightarrow>
      unat (periodic_time (timer_of (timers s) r)) < 2 ^ 63"
    and step_ok: "inv cpu now s \<Longrightarrow> r \<in> set (timer_queue (timers s) cpu) \<Longrightarrow> due now (timers s) r \<Longrightarrow>
      okE (\<lambda>(h, s'). inv cpu now s' \<and> timers s' = fire cpu now r (timers s)) (tick_one run cpu now r s)"
begin

text \<open>The loop ends, and then the first timer of the queue is in the future.\<close>

lemma loop_ok:
  assumes "inv cpu now s"
  shows "\<exists>m. tick_loop run cpu now ret s = Some m \<and>
    okE (\<lambda>(h, s'). inv cpu now s' \<and> ticked cpu now (timers s) (timers s') \<and>
      (\<forall>r. queue_head cpu (timers s') = Some r \<longrightarrow> \<not> due now (timers s') r)) m"
  using assms
proof (induction "due_count cpu now (timers s)" arbitrary: s ret rule: less_induct)
  case less
  note l = inv_linked [OF less.prems]
  show ?case
  proof (cases "queue_head cpu (timers s)")
    case None
    with less.prems show ?thesis by (subst tick_loop.simps) (simp add: ticked_refl)
  next
    case (Some r)
    then have r: "r \<in> set (timer_queue (timers s) cpu)" by (auto simp: queue_head_def split: list.splits)
    show ?thesis
    proof (cases "due now (timers s) r")
      case False
      with Some less.prems show ?thesis by (subst tick_loop.simps) (simp add: due_def ticked_refl)
    next
      case True
      from step_ok [OF less.prems r True] obtain h s1 where s1: "tick_one run cpu now r s = Inr (h, s1)"
        "inv cpu now s1" "timers s1 = fire cpu now r (timers s)" by (auto simp: okE_iff_ex)
      let ?ret = "if h = INT_RESCHEDULE then INT_RESCHEDULE else ret"
      have "due_count cpu now (timers s1) < due_count cpu now (timers s)"
        unfolding s1(3) by (rule fire_due_count [OF l r True inv_period [OF less.prems r]])
      from less.hyps [OF this s1(2), of ?ret] obtain m where m: "tick_loop run cpu now ?ret s1 = Some m"
        "okE (\<lambda>(h, s'). inv cpu now s' \<and> ticked cpu now (timers s1) (timers s') \<and>
          (\<forall>r. queue_head cpu (timers s') = Some r \<longrightarrow> \<not> due now (timers s') r)) m" by blast
      have "tick_loop run cpu now ret s = tick_loop run cpu now ?ret s1"
        using Some True s1(1) by (subst tick_loop.simps) (simp add: due_def)
      with m show ?thesis
        by (auto elim!: okE_mono intro: ticked_fire [OF l r True] simp: s1(3))
    qed
  qed
qed

end

section \<open>The kernel's timers\<close>

text \<open>
  What is in the queue of a cpu: the preemption timers with their callback, and the one-shot timers on
  the stacks of threads that wait with a timeout or sleep. Timers of other subsystems have a callback
  of the kind \<open>other_cb\<close>.
\<close>

definition timer_live :: "kstate \<Rightarrow> timer_ref \<Rightarrow> bool" where
  "timer_live s r \<longleftrightarrow>
     (let tm = timer_of (timers s) r
      in tmagic tm = TIMER_MAGIC \<and> unat (periodic_time tm) < 2 ^ 63 \<and>
         (case r of
            Preempt_timer c \<Rightarrow> up s c \<and> callback tm = Some thread_timer_callback_cb
          | Stack_timer t \<Rightarrow> targ tm = t \<and> periodic_time tm = 0 \<and>
              (callback tm = Some wait_queue_timeout_handler_cb \<and> t \<in> set (thread_list s) \<or>
               callback tm = Some thread_sleep_handler_cb \<and> sleeping_ok s t)
          | Other_timer n \<Rightarrow> (\<exists>m. callback tm = Some (other_cb m))))"

definition tick_inv :: "cpu_num \<Rightarrow> time_ns \<Rightarrow> kstate \<Rightarrow> bool" where
  "tick_inv cpu now s \<longleftrightarrow> sched_inv s \<and> lock_free s \<and>
     (\<forall>r \<in> set (timer_queue (timers s) cpu). timer_live s r \<and>
        scheduled_time (timer_of (timers s) r) \<noteq> now + 2 ^ 63)"

text \<open>A callback of another subsystem is expected to keep the invariant, not to touch the timers, and
  to leave sleeping threads asleep.\<close>

definition keeps_sleepers :: "kstate \<Rightarrow> kstate \<Rightarrow> bool" where
  "keeps_sleepers s s' \<longleftrightarrow> timers s' = timers s \<and> thread_list s' = thread_list s \<and> current s' = current s \<and>
     active_cpus s' = active_cpus s \<and> smp_max_cpus s' = smp_max_cpus s \<and>
     (\<forall>u. flags (threads s' u) = flags (threads s u)) \<and>
     (\<forall>u. state (threads s u) = THREAD_SLEEPING \<longrightarrow> state (threads s' u) = THREAD_SLEEPING)"

definition quiet :: "callback_fun \<Rightarrow> bool" where
  "quiet other \<longleftrightarrow> (\<forall>n cpu now r s. sched_inv s \<longrightarrow> lock_free s \<longrightarrow>
     okE (\<lambda>(h, s'). sched_inv s' \<and> lock_free s' \<and> keeps_sleepers s s') (other n cpu now r s))"

text \<open>The timers may change as long as they stay linked and the preemption timers stay right.\<close>

lemma sched_inv_retimed:
  assumes "sched_inv_at X Y s" "linked ts"
    "\<And>c. up s c \<Longrightarrow> pt_ok c (thread_is_real_time_or_idle (threads s (current s c))) (timer_of ts (Preempt_timer c))"
  shows "sched_inv_at X Y (s\<lparr>timers := ts\<rparr>)"
proof -
  have "cpu_ok (s\<lparr>timers := ts\<rparr>) c" if "up s c" "cpu_ok s c" for c
    using that assms(3) [OF that(1)] by (simp add: cpu_ok_def preempt_ok_pt)
  moreover have "thread_ok (s\<lparr>timers := ts\<rparr>) = thread_ok s" "settled (s\<lparr>timers := ts\<rparr>) = settled s"
    "queued_ok (s\<lparr>timers := ts\<rparr>) = queued_ok s" "up (s\<lparr>timers := ts\<rparr>) = up s"
    by (simp_all add: fun_eq_iff thread_ok_def settled_def
        queued_ok_def up_def thread_get_expected_cookie_def cong: queue_link.case_cong)
  ultimately show ?thesis using assms(1,2)
    by (simp add: sched_inv_at_def rq_inv_def wq_inv_def queued_inv_def threads_inv_def cpus_inv_def)
qed

text \<open>The timer \<open>r\<close> while its callback runs.\<close>

abbreviation firing :: "timer_ref \<Rightarrow> timer_sys \<Rightarrow> timer_sys" where
  "firing r ts \<equiv> upd_timer r (\<lambda>t. t\<lparr>running := True\<rparr>) (list_delete_timer r ts)"

lemma preempt_linked:
  assumes inv: "sched_inv s" and c: "up s c" "node (timer_of (timers s) (Preempt_timer c)) \<noteq> None"
  shows "\<not> thread_is_real_time_or_idle (threads s (current s c))"
    "tmagic (timer_of (timers s) (Preempt_timer c)) = TIMER_MAGIC"
    "tcpu (timer_of (timers s) (Preempt_timer c)) = of_nat c"
  using cpu_okD [OF inv c(1)] c(2) by (auto simp: cpu_ok_def preempt_ok_pt pt_ok_def split: if_splits)

lemma fire_fields:
  "tmagic (timer_of (fire cpu now r ts) e) = tmagic (timer_of ts e)"
  "callback (timer_of (fire cpu now r ts) e) = callback (timer_of ts e)"
  "tcpu (timer_of (fire cpu now r ts) e) = tcpu (timer_of ts e)"
  "targ (timer_of (fire cpu now r ts) e) = targ (timer_of ts e)"
  by (cases "e = r"; simp add: fire_other; simp add: fire_def Let_def insert_timer_in_queue_def)+

lemma pt_ok_fire:
  assumes inv: "sched_inv s" and l: "node (timer_of (timers s) r) \<noteq> None" and c: "up s c"
  shows "pt_ok c (thread_is_real_time_or_idle (threads s (current s c)))
      (timer_of (firing r (timers s)) (Preempt_timer c))"
    "pt_ok c (thread_is_real_time_or_idle (threads s (current s c)))
      (timer_of (fire cpu now r (timers s)) (Preempt_timer c))"
proof -
  have o: "pt_ok c (thread_is_real_time_or_idle (threads s (current s c))) (timer_of (timers s) (Preempt_timer c))"
    using cpu_okD [OF inv c] by (simp add: cpu_ok_def preempt_ok_pt)
  have "pt_ok c (thread_is_real_time_or_idle (threads s (current s c)))
      (timer_of (firing r (timers s)) (Preempt_timer c)) \<and>
    pt_ok c (thread_is_real_time_or_idle (threads s (current s c)))
      (timer_of (fire cpu now r (timers s)) (Preempt_timer c))"
  proof (cases "r = Preempt_timer c")
    case True
    with l preempt_linked [OF inv c] show ?thesis by (simp add: pt_ok_def fire_fields)
  next
    case False
    with o show ?thesis by (simp add: fire_other)
  qed
  then show "pt_ok c (thread_is_real_time_or_idle (threads s (current s c)))
      (timer_of (firing r (timers s)) (Preempt_timer c))"
    "pt_ok c (thread_is_real_time_or_idle (threads s (current s c)))
      (timer_of (fire cpu now r (timers s)) (Preempt_timer c))" by simp_all
qed

text \<open>A callback that is run for the live timer \<open>r\<close> leaves the other live timers live.\<close>

lemma timer_live_others:
  assumes o: "others_same t s s'" and e: "timer_live s e" "e \<noteq> Stack_timer t"
  shows "timer_live s' e"
proof -
  have eqs: "timers s' = timers s" "thread_list s' = thread_list s" "active_cpus s' = active_cpus s"
    "smp_max_cpus s' = smp_max_cpus s" using o by (simp_all add: others_same_def)
  have "sleeping_ok s' u" if "sleeping_ok s u" "u \<noteq> t" for u
    using that o by (auto simp: others_same_def sleeping_ok_def thread_is_idle_def)
  with e show ?thesis by (auto simp: timer_live_def Let_def up_def eqs split: timer_ref.splits)
qed

lemma timer_live_keeps:
  assumes o: "keeps_sleepers s s'" and e: "timer_live s e"
  shows "timer_live s' e"
proof -
  have eqs: "timers s' = timers s" "thread_list s' = thread_list s" "active_cpus s' = active_cpus s"
    "smp_max_cpus s' = smp_max_cpus s" using o by (simp_all add: keeps_sleepers_def)
  have "sleeping_ok s' u" if "sleeping_ok s u" for u
    using that o by (auto simp: keeps_sleepers_def sleeping_ok_def thread_is_idle_def)
  with e show ?thesis by (auto simp: timer_live_def Let_def up_def eqs split: timer_ref.splits)
qed

definition callback_done :: "timer_ref \<Rightarrow> kstate \<Rightarrow> kstate \<Rightarrow> bool" where
  "callback_done r s s' \<longleftrightarrow> sched_inv s' \<and> lock_free s' \<and> timers s' = timers s \<and> current s' = current s \<and>
     active_cpus s' = active_cpus s \<and> smp_max_cpus s' = smp_max_cpus s \<and>
     (\<forall>u. flags (threads s' u) = flags (threads s u)) \<and>
     (\<forall>e. e \<noteq> r \<longrightarrow> timer_live s e \<longrightarrow> timer_live s' e) \<and>
     (\<forall>c. r = Preempt_timer c \<longrightarrow> timer_live s' r) \<and> (\<forall>n. r = Other_timer n \<longrightarrow> timer_live s' r)"

lemma run_callback_ok:
  assumes inv: "sched_inv s" and lf: "lock_free s" and r: "timer_live s r" and q: "quiet other"
  shows "okE (\<lambda>(h, s'). callback_done r s s') (run_callback other cpu now r s)"
proof (cases r)
  case (Preempt_timer c)
  with r have cb: "callback (timer_of (timers s) r) = Some thread_timer_callback_cb"
    by (simp add: timer_live_def Let_def)
  have tl: "timer_live s' e" if "\<forall>t. others_same t s s'" "timer_live s e" for e s'
  proof -
    have "e \<noteq> Stack_timer 0 \<or> e \<noteq> Stack_timer 1" by auto
    with that show ?thesis by (blast intro: timer_live_others)
  qed
  show ?thesis
  proof -
    have "okE (\<lambda>(h, s'). sched_inv s' \<and> lock_free s' \<and> (\<forall>t. others_same t s s')) (thread_timer_callback cpu s)"
      using thread_timer_callback_ok [OF inv lf, of cpu] by (auto simp: okE_iff_ex)
    then show ?thesis using Preempt_timer cb r
      by (auto simp: run_callback_def callback_done_def elim!: okE_mono intro: tl)
        (simp_all add: others_same_def)
  qed
next
  case (Stack_timer t)
  have dn: "callback_done r s s'" if "sched_inv s'" "lock_free s'" "others_same t s s'" for s'
    using that timer_live_others [OF that(3)] by (auto simp: callback_done_def Stack_timer) (simp_all add: others_same_def)
  from r Stack_timer consider
      (wait) "callback (timer_of (timers s) r) = Some wait_queue_timeout_handler_cb" "t \<in> set (thread_list s)"
    | (sleep) "callback (timer_of (timers s) r) = Some thread_sleep_handler_cb" "sleeping_ok s t"
    by (auto simp: timer_live_def Let_def)
  moreover have "targ (timer_of (timers s) r) = t" using r Stack_timer by (simp add: timer_live_def Let_def)
  ultimately show ?thesis
  proof cases
    case wait
    with \<open>targ _ = t\<close> wait_timeout_others [OF inv lf wait(2), of cpu] show ?thesis
      by (auto simp: run_callback_def elim!: okE_mono intro: dn)
  next
    case sleep
    with \<open>targ _ = t\<close> thread_sleep_handler_ok [OF inv lf sleep(2), of cpu] show ?thesis
      by (auto simp: run_callback_def elim!: okE_mono intro: dn)
  qed
next
  case (Other_timer n)
  with r obtain m where m: "callback (timer_of (timers s) r) = Some (other_cb m)"
    by (auto simp: timer_live_def Let_def)
  from q inv lf have "okE (\<lambda>(h, s'). sched_inv s' \<and> lock_free s' \<and> keeps_sleepers s s') (other m cpu now r s)"
    by (simp add: quiet_def)
  then show ?thesis using m r Other_timer timer_live_keeps [of s]
    by (auto simp: run_callback_def callback_done_def elim!: okE_mono) (simp_all add: keeps_sleepers_def)
qed

lemma timer_live_fire:
  assumes "timer_live s e" "timers s = firing r ts"
  shows "timer_live (s\<lparr>timers := fire cpu now r ts\<rparr>) e"
  using assms by (auto simp: timer_live_def Let_def up_def sleeping_ok_def fire_fields fire_periodic
      split: timer_ref.splits if_splits)

lemma tick_inv_fired:
  assumes i: "tick_inv cpu now s" and r: "r \<in> set (timer_queue (timers s) cpu)"
    and d: "callback_done r (s\<lparr>timers := firing r (timers s)\<rparr>) s2"
  shows "tick_inv cpu now (s2\<lparr>timers := fire cpu now r (timers s)\<rparr>)" (is "tick_inv cpu now ?s3")
proof -
  from i have inv: "sched_inv s" by (simp add: tick_inv_def)
  then have l: "linked (timers s)" by (simp add: sched_inv_at_def cpus_inv_def)
  have n: "node (timer_of (timers s) r) \<noteq> None" using l r by (simp add: linked_def)
  from d have inv2: "sched_inv s2" and t2: "timers s2 = firing r (timers s)" and lf: "lock_free s2"
    and eqs: "current s2 = current s" "active_cpus s2 = active_cpus s" "smp_max_cpus s2 = smp_max_cpus s"
      "\<And>u. flags (threads s2 u) = flags (threads s u)"
    by (simp_all add: callback_done_def)
  have "sched_inv ?s3"
    by (rule sched_inv_retimed [OF inv2]) (use l pt_ok_fire(2) [OF inv n] in
      \<open>auto simp: fire_linked eqs up_def thread_is_real_time_or_idle_def\<close>)
  moreover have "timer_live ?s3 e \<and> scheduled_time (timer_of (fire cpu now r (timers s)) e) \<noteq> now + 2 ^ 63"
    if e: "e \<in> set (timer_queue (fire cpu now r (timers s)) cpu)" for e
  proof (cases "e = r")
    case False
    then have "e \<in> set (timer_queue (timers s) cpu)" using e r fire_queue [OF l, of cpu now r] by (auto split: if_splits)
    with i have "timer_live s e" "scheduled_time (timer_of (timers s) e) \<noteq> now + 2 ^ 63" by (auto simp: tick_inv_def)
    moreover from this(1) False have "timer_live (s\<lparr>timers := firing r (timers s)\<rparr>) e"
      by (auto simp: timer_live_def Let_def up_def sleeping_ok_def split: timer_ref.splits)
    ultimately show ?thesis using d False timer_live_fire [OF _ t2]
      by (simp add: callback_done_def fire_other)
  next
    case True
    with e fire_queue [OF l, of cpu now r] have p: "periodic_time (timer_of (timers s) r) > 0" by (auto split: if_splits)
    have lr: "timer_live s r" using i r by (simp add: tick_inv_def)
    with p have "\<forall>t. r \<noteq> Stack_timer t" by (auto simp: timer_live_def Let_def)
    then have "timer_live s2 r" using d by (cases r) (auto simp: callback_done_def)
    moreover have "periodic_time (timer_of (timers s) r) \<noteq> 2 ^ 63" using lr by (auto simp: timer_live_def Let_def)
    ultimately show ?thesis using True p timer_live_fire [OF _ t2]
      by (simp add: fire_def Let_def)
  qed
  ultimately show ?thesis using lf by (simp add: tick_inv_def lock_free_def)
qed

lemma tick_one_ok:
  assumes i: "tick_inv cpu now s" and r: "r \<in> set (timer_queue (timers s) cpu)" and q: "quiet other"
  shows "okE (\<lambda>(h, s'). tick_inv cpu now s' \<and> timers s' = fire cpu now r (timers s))
    (tick_one (run_callback other) cpu now r s)"
proof -
  from i have inv: "sched_inv s" and lf: "lock_free s" by (simp_all add: tick_inv_def)
  have l: "linked (timers s)" using inv by (simp add: sched_inv_at_def cpus_inv_def)
  have live: "timer_live s e" if "e \<in> set (timer_queue (timers s) cpu)" for e using i that by (simp add: tick_inv_def)
  have n: "node (timer_of (timers s) r) \<noteq> None" using l r by (simp add: linked_def)
  let ?s1 = "s\<lparr>timers := firing r (timers s)\<rparr>"
  have inv1: "sched_inv ?s1"
    by (rule sched_inv_retimed [OF inv]) (use l pt_ok_fire(1) [OF inv n] in
      \<open>auto simp: linked_upd list_delete_timer_linked\<close>)
  have "lock_free ?s1" using lf by (simp add: lock_free_def)
  moreover have live1: "timer_live ?s1 e" if "timer_live s e" for e
    using that by (cases "e = r")
      (auto simp: timer_live_def Let_def up_def sleeping_ok_def split: timer_ref.splits)
  ultimately obtain h s2 where s2: "run_callback other cpu now r ?s1 = Inr (h, s2)" "callback_done r ?s1 s2"
    using run_callback_ok [OF inv1 _ live1 [OF live [OF r]] q, of cpu now] by (auto simp: okE_iff_ex)
  then have t2: "timers s2 = firing r (timers s)" by (simp add: callback_done_def)
  let ?s3 = "s2\<lparr>timers := fire cpu now r (timers s)\<rparr>"
  have "tick_one (run_callback other) cpu now r s = Inr (h, ?s3)"
    using s2(1) live [OF r] t2
    by (auto simp: tick_one_def Let_def timer_live_def fire_def list_delete_timer_node upd_timer_def
        cong: if_cong)
  moreover have "tick_inv cpu now ?s3" by (rule tick_inv_fired [OF i r s2(2)])
  ultimately show ?thesis by simp
qed

text \<open>The kernel's callbacks meet the contract of the loop.\<close>

interpretation ticks: tick_callbacks "run_callback other" "\<lambda>cpu now s. quiet other \<and> tick_inv cpu now s" for other
proof
  show "linked (timers s)" if "quiet other \<and> tick_inv cpu now s" for cpu now s
    using that by (simp add: tick_inv_def sched_inv_at_def cpus_inv_def)
  show "unat (periodic_time (timer_of (timers s) r)) < 2 ^ 63"
    if "quiet other \<and> tick_inv cpu now s" "r \<in> set (timer_queue (timers s) cpu)" for cpu now s r
    using that by (simp add: tick_inv_def timer_live_def Let_def)
  show "okE (\<lambda>(h, s'). (quiet other \<and> tick_inv cpu now s') \<and> timers s' = fire cpu now r (timers s))
      (tick_one (run_callback other) cpu now r s)"
    if "quiet other \<and> tick_inv cpu now s" "r \<in> set (timer_queue (timers s) cpu)" for cpu now s r
    using that tick_one_ok [of cpu now s r other] by (auto elim!: okE_mono)
qed

theorem timer_tick_ok:
  assumes q: "quiet other" and i: "tick_inv cpu now s" and c: "cpu < smp_max_cpus s"
  shows "\<exists>m. timer_tick other cpu now s = Some m \<and>
    okE (\<lambda>(h, s'). sched_inv s' \<and> lock_free s' \<and> ticked cpu now (timers s) (timers s') \<and>
      (\<forall>r. queue_head cpu (timers s') = Some r \<longrightarrow>
         time_gt (scheduled_time (timer_of (timers s') r)) now \<and>
         hw_timer (timers s') cpu = Some (scheduled_time (timer_of (timers s') r)))) m"
proof -
  from ticks.loop_ok [OF conjI [OF q i], of INT_NO_RESCHEDULE] obtain h s1 where
    s1: "tick_loop (run_callback other) cpu now INT_NO_RESCHEDULE s = Some (Inr (h, s1))"
      "tick_inv cpu now s1" "ticked cpu now (timers s) (timers s1)"
      "\<And>r. queue_head cpu (timers s1) = Some r \<Longrightarrow> \<not> due now (timers s1) r" by (auto simp: okE_iff_ex)
  then have inv: "sched_inv s1" "lock_free s1" by (simp_all add: tick_inv_def)
  show ?thesis
  proof (cases "queue_head cpu (timers s1)")
    case None
    with s1 c inv show ?thesis by (simp add: timer_tick_def)
  next
    case (Some r)
    let ?ts = "platform_set_oneshot_timer cpu (scheduled_time (timer_of (timers s1) r)) (timers s1)"
    from Some have "r \<in> set (timer_queue (timers s1) cpu)" by (auto simp: queue_head_def split: list.splits)
    with s1(2,4) Some have "time_lt now (scheduled_time (timer_of (timers s1) r))"
      "scheduled_time (timer_of (timers s1) r) \<noteq> now + 2 ^ 63" by (auto simp: tick_inv_def due_def)
    then have g: "time_gt (scheduled_time (timer_of (timers s1) r)) now" by (rule time_lt_gt)
    have "sched_inv (s1\<lparr>timers := ?ts\<rparr>)"
      using inv(1) by (intro sched_inv_timers [OF inv(1)]) (simp_all add: linked_def sched_inv_at_def cpus_inv_def)
    with s1 c inv g Some show ?thesis
      by (simp add: timer_tick_def lock_free_def ticked_def queue_head_def platform_set_oneshot_timer_def)
  qed
qed

section \<open>Going to sleep\<close>

text \<open>The sleeping thread is off the cpu, and its timer is live: when it is due, \<open>timer_tick\<close> wakes it.\<close>

theorem thread_sleep_ns_ok:
  assumes ctx: "thread_context cpu s"
  shows "okE (\<lambda>s'. sched_inv s' \<and> lock_free s' \<and> runs_best cpu s' \<and> current s' cpu \<noteq> current s cpu \<and>
      sleeping_ok s' (current s cpu) \<and> timer_live s' (Stack_timer (current s cpu)) \<and>
      node (timer_of (timers s') (Stack_timer (current s cpu))) = Some cpu) (thread_sleep_ns cpu delay s)"
proof -
  let ?t = "current s cpu" and ?l = "s\<lparr>thread_lock_owner := cpu\<rparr>" and ?f = "\<lambda>th. th\<lparr>state := THREAD_SLEEPING\<rparr>"
  from ctx have a: "sched_inv s" "lock_free s" "up s cpu" "\<not> thread_is_idle (threads s ?t)"
    "node (timer_of (timers s) (Stack_timer ?t)) = None" by (simp_all add: thread_context_def)
  note cf = current_facts [OF a(1,3)]
  have invl: "sched_inv ?l" and c: "cpu < smp_max_cpus ?l" and nl: "node (timer_of (timers ?l) (Stack_timer ?t)) = None"
    using a by (simp_all add: up_def)
  from stack_timer_armed [OF invl c nl, of thread_sleep_handler_cb ?t "clock s" delay] obtain ts where
    ts: "timer_set_oneshot_ns (smp_max_cpus s) cpu (clock s) (Stack_timer ?t) delay thread_sleep_handler_cb ?t
        (timer_initialize (Stack_timer ?t) (timers s)) = Inr ts"
      "sched_inv (?l\<lparr>timers := ts\<rparr>)" "node (timer_of ts (Stack_timer ?t)) = Some cpu"
      "callback (timer_of ts (Stack_timer ?t)) = Some thread_sleep_handler_cb"
      "targ (timer_of ts (Stack_timer ?t)) = ?t" "tmagic (timer_of ts (Stack_timer ?t)) = TIMER_MAGIC"
      "periodic_time (timer_of ts (Stack_timer ?t)) = 0" by (auto simp: okE_iff_ex)
  let ?s2 = "upd_thread ?t ?f (?l\<lparr>timers := ts\<rparr>)"
  have k: "thread_ok s ?t" using current_in_list [OF a(1,3)] thread_okD [OF a(1)] by simp
  have "sched_inv_at {?t} {cpu} ?s2"
    by (rule leave_running [OF ts(2)]) (use a(3) k in \<open>auto simp: keeps_identity_def in_range_def thread_ok_def up_def\<close>)
  then have inv2: "sched_inv_at {} {cpu} ?s2" using sched_inv_settle [of "{?t}" "{cpu}" ?s2 ?t]
    by (simp add: settled_def)
  have u2: "up ?s2 cpu" "thread_lock_held cpu ?s2" "state (threads ?s2 (current ?s2 cpu)) \<noteq> THREAD_RUNNING"
    using a(3) by (simp_all add: up_def thread_lock_held_def)
  have n: "next_thread cpu ?s2 \<noteq> ?t"
  proof
    assume "next_thread cpu ?s2 = ?t"
    with get_top_thread_ok [OF inv2 u2(1,2)] a(4) show False by (auto simp: okE_iff_ex)
  qed
  from resched_done [OF inv2 u2] obtain s3 where s3: "bindE (thread_resched cpu ?s2) (thread_unlock cpu) = Inr s3"
    "sched_inv s3" "lock_free s3" "runs_best cpu s3" "resched_rel cpu (next_thread cpu ?s2) ?s2 s3"
    by (auto simp: okE_iff_ex)
  note rr = resched_rel_simps [OF s3(5)]
  have "sleeping_ok s3 ?t" using n a(4) current_in_list [OF a(1,3)]
    by (simp add: sleeping_ok_def rr thread_is_idle_def)
  moreover from this have "timer_live s3 (Stack_timer ?t)" using ts(4-7) by (simp add: timer_live_def Let_def rr)
  ultimately show ?thesis using s3 ts(1,3) cf n a(2,4) by (simp add: thread_sleep_ns_def lock_free_def rr)
qed

end
