(* ===== verification/Example_System.thy ===== *)
theory Example_System
  imports Timer_Tick Mutex Event Semaphore
begin

text \<open>
  A concrete state of a system with two processors, used where a theorem is applied to a definite
  input: threads in each of the states, one blocked on a wait queue, one asleep with its timer
  armed, the preemption timer of the busy processor running. The state satisfies the scheduler's
  invariant.
\<close>

definition ex_thread :: "thread_state \<Rightarrow> int \<Rightarrow> 32 word \<Rightarrow> int \<Rightarrow> int \<Rightarrow> queue_link \<Rightarrow> wq_ref option \<Rightarrow> tid \<Rightarrow> thread" where
  "ex_thread st pr fl cur pin q w t =
     \<lparr>stack = 0x8000, stack_high = 0x9000, stack_size = 0x1000, shadow_stack = 0, shadow_stack_size = 0,
      magic = THREAD_MAGIC, cookie = t, thread_list_node = In_thread_list, queue_node = q, priority = pr,
      state = st, remaining_quantum = 5, flags = fl, curr_cpu = cur, pinned_cpu = pin, aspace = 0,
      blocking_wait_queue = w, wait_queue_block_ret = 0, entry = 0, arg = 0, retcode = 0,
      tls = [], name = ''ex''\<rparr>"

text \<open>Threads 1 and 2 are the idle threads; 3 runs on processor 0, processor 1 is idle; 4 is ready,
  5 waits for object 7, 6 is suspended, 7 sleeps, 8 has exited.\<close>

definition ex_threads :: "tid \<Rightarrow> thread" where
  "ex_threads t =
     (if t = 1 then ex_thread THREAD_READY 0 THREAD_FLAG_IDLE (- 1) 0 Not_queued None t
      else if t = 2 then ex_thread THREAD_RUNNING 0 THREAD_FLAG_IDLE 1 1 Not_queued None t
      else if t = 3 then ex_thread THREAD_RUNNING 16 0 0 (- 1) Not_queued None t
      else if t = 4 then ex_thread THREAD_READY 16 0 (- 1) (- 1) (In_run_queue 16) None t
      else if t = 5 then ex_thread THREAD_BLOCKED 20 0 (- 1) (- 1) (In_wait_queue (Obj_wq 7)) (Some (Obj_wq 7)) t
      else if t = 6 then ex_thread THREAD_SUSPENDED 16 0 (- 1) (- 1) Not_queued None t
      else if t = 7 then ex_thread THREAD_SLEEPING 10 0 (- 1) 1 Not_queued None t
      else if t = 8 then ex_thread THREAD_DEATH 16 0 (- 1) (- 1) Not_queued None t
      else ex_thread THREAD_SUSPENDED 16 0 (- 1) (- 1) Not_queued None t)"

definition ex_timers :: timer_sys where
  "ex_timers =
     \<lparr>timer_of = (\<lambda>r.
        if r = Preempt_timer 0 then TIMER_INITIAL_VALUE\<lparr>tcpu := 0, node := Some 0, scheduled_time := 10000000,
             periodic_time := 10000000, callback := Some thread_timer_callback_cb\<rparr>
        else if r = Stack_timer 7 then TIMER_INITIAL_VALUE\<lparr>tcpu := 0, node := Some 0, scheduled_time := 5000000,
             callback := Some thread_sleep_handler_cb, targ := 7\<rparr>
        else TIMER_INITIAL_VALUE),
      timer_queue = (\<lambda>c. if c = 0 then [Stack_timer 7, Preempt_timer 0] else []),
      hw_timer = (\<lambda>c. if c = 0 then Some 5000000 else None)\<rparr>"

definition ex_state :: kstate where
  "ex_state =
     \<lparr>smp_max_cpus = 2, cfg_scs = False, cfg_musl = False, cfg_test_build = False,
      threads = ex_threads, thread_list = [8, 7, 6, 5, 4, 3, 2, 1], thread_lock_owner = 2,
      run_queue = (\<lambda>p. if p = 16 then [4] else []), run_queue_bitmap = bit32 16,
      cpu_priority = (\<lambda>c. if c = 0 then 16 else 0), idle_threads = (\<lambda>c. if c = 0 then 1 else 2),
      dead_threads = [],
      wait_queues = (\<lambda>w. if w = Obj_wq 7 then \<lparr>wq_magic = WAIT_QUEUE_MAGIC, wq_list = [5], wq_count = 1\<rparr>
                          else WAIT_QUEUE_INITIAL_VALUE),
      current = (\<lambda>c. if c = 0 then 3 else 2), mmu_aspace = (\<lambda>_. 0),
      active_cpus = 3, idle_cpus = 2, realtime_cpus = 0, ipi_log = [],
      timers = ex_timers, clock = 1000\<rparr>"

lemma ex_thread_simps [simp]:
  "state (ex_thread st pr fl cur pin q w t) = st" "priority (ex_thread st pr fl cur pin q w t) = pr"
  "flags (ex_thread st pr fl cur pin q w t) = fl" "curr_cpu (ex_thread st pr fl cur pin q w t) = cur"
  "pinned_cpu (ex_thread st pr fl cur pin q w t) = pin" "queue_node (ex_thread st pr fl cur pin q w t) = q"
  "blocking_wait_queue (ex_thread st pr fl cur pin q w t) = w" "cookie (ex_thread st pr fl cur pin q w t) = t"
  "magic (ex_thread st pr fl cur pin q w t) = THREAD_MAGIC" "retcode (ex_thread st pr fl cur pin q w t) = 0"
  by (simp_all add: ex_thread_def)

lemma ex_thread_class [simp]:
  "thread_is_idle (ex_thread st pr 0 cur pin q w t) = False"
  "thread_is_idle (ex_thread st pr THREAD_FLAG_IDLE cur pin q w t)"
  "thread_is_real_time_or_idle (ex_thread st pr 0 cur pin q w t) = False"
  "thread_is_real_time_or_idle (ex_thread st pr THREAD_FLAG_IDLE cur pin q w t)"
  by (simp_all add: thread_is_idle_def thread_is_real_time_or_idle_def bit32_def)

lemma ex_state_simps [simp]:
  "smp_max_cpus ex_state = 2" "threads ex_state = ex_threads" "thread_list ex_state = [8, 7, 6, 5, 4, 3, 2, 1]"
  "thread_lock_owner ex_state = 2" "run_queue ex_state = (\<lambda>p. if p = 16 then [4] else [])"
  "run_queue_bitmap ex_state = bit32 16" "idle_threads ex_state = (\<lambda>c. if c = 0 then 1 else 2)"
  "dead_threads ex_state = []" "current ex_state = (\<lambda>c. if c = 0 then 3 else 2)" "active_cpus ex_state = 3"
  "wait_queues ex_state = (\<lambda>w. if w = Obj_wq 7 then \<lparr>wq_magic = WAIT_QUEUE_MAGIC, wq_list = [5], wq_count = 1\<rparr>
     else WAIT_QUEUE_INITIAL_VALUE)"
  "timers ex_state = ex_timers" "clock ex_state = 1000" "cfg_scs ex_state = False" "cfg_musl ex_state = False"
  "cfg_test_build ex_state = False" "ipi_log ex_state = []"
  by (simp_all add: ex_state_def)

lemma ex_up [simp]: "up ex_state c \<longleftrightarrow> c = 0 \<or> c = 1"
  by (auto simp: up_def less_2_cases_iff bit_simps numeral_3_eq_3 bit_numeral_rec)

lemma ex_known: "known ex_state = {1, 2, 3, 4, 5, 6, 7, 8}"
  by (auto simp: known_def)

lemma ex_expected_cookie [simp]: "thread_get_expected_cookie t ex_state = t"
  by (simp add: thread_get_expected_cookie_def ex_threads_def)

lemma ex_rq_inv: "rq_inv ex_state"
  by (auto simp: rq_inv_def ex_threads_def)

lemma ex_wq_inv: "wq_inv ex_state"
  by (auto simp: wq_inv_def ex_threads_def WAIT_QUEUE_INITIAL_VALUE_def)

lemma ex_queued_inv: "queued_inv ex_state"
  by (auto simp: queued_inv_def queued_ok_def ex_threads_def)

lemma ex_threads_inv: "threads_inv {} ex_state"
  by (auto simp: threads_inv_def ex_known thread_ok_def settled_def ex_threads_def)

lemma ex_cpus_inv: "cpus_inv {} ex_state"
  by (auto simp: cpus_inv_def cpu_ok_def ex_known preempt_ok_def ex_threads_def linked_def ex_timers_def
      TIMER_INITIAL_VALUE_def)

lemma ex_sched_inv: "sched_inv ex_state" "lock_free ex_state"
  by (simp_all add: sched_inv_at_def ex_rq_inv ex_wq_inv ex_queued_inv ex_threads_inv ex_cpus_inv lock_free_def)

text \<open>The timers are in order, and all of them belong to live threads.\<close>

lemma ex_timers_ok: "timers_ok 0 1000 ex_timers"
  by (auto simp: timers_ok_def linked_def in_order_def expiry_def dist_def hw_armed_def ex_timers_def TIMER_INITIAL_VALUE_def
      split: if_splits)

lemma ex_tick_inv: "tick_inv 0 6000000 ex_state"
  by (auto simp: tick_inv_def ex_sched_inv timer_live_def sleeping_ok_def ex_timers_def ex_threads_def TIMER_INITIAL_VALUE_def)

text \<open>Thread 3 may call blocking operations.\<close>

lemma ex_context: "thread_context 0 ex_state"
  by (simp add: thread_context_def ex_sched_inv ex_threads_def ex_timers_def TIMER_INITIAL_VALUE_def)

text \<open>Inside a critical section of processor 0.\<close>

definition ex_locked :: kstate where
  "ex_locked = ex_state\<lparr>thread_lock_owner := 0\<rparr>"

lemma ex_locked: "sched_inv ex_locked" "thread_lock_held 0 ex_locked" "up ex_locked 0"
  by (simp_all add: ex_locked_def ex_sched_inv thread_lock_held_def)

lemma ex_locked_simps [simp]:
  "threads ex_locked = ex_threads" "wait_queues ex_locked = wait_queues ex_state"
  "current ex_locked = current ex_state" "timers ex_locked = ex_timers"
  by (simp_all add: ex_locked_def)

lemma ex_can_block: "can_block 0 (Obj_wq 9) ex_locked" "can_wake 0 (Obj_wq 7) r ex_locked"
  using ex_locked by (simp_all add: can_block_def can_wake_def WAIT_QUEUE_INITIAL_VALUE_def
      ex_threads_def ex_timers_def TIMER_INITIAL_VALUE_def)

text \<open>Thread 3 on its way to sleep, before the reschedule.\<close>

definition ex_leaving :: kstate where
  "ex_leaving = upd_thread 3 (\<lambda>th. th\<lparr>state := THREAD_SLEEPING\<rparr>) ex_locked"

lemma ex_leaving: "ready_to_resched 0 ex_leaving"
proof -
  have "sched_inv_at {3} {0} ex_leaving" unfolding ex_leaving_def
    by (rule leave_running [OF ex_locked(1,3)])
      (simp_all add: keeps_identity_def in_range_def ex_threads_def ex_locked_def)
  then have "sched_inv_at {} {0} ex_leaving"
    using sched_inv_settle [of "{3}" "{0}" ex_leaving 3] by (simp add: settled_def ex_leaving_def)
  with ex_locked(2,3) show ?thesis by (simp add: ready_to_resched_def ex_leaving_def thread_lock_held_def)
qed

text \<open>A mutex held by thread 3, a free one, and an event and a semaphore others wait for.\<close>

definition ex_mutex :: mutex where
  "ex_mutex = \<lparr>mx_magic = MUTEX_MAGIC, holder = 3, mx_count = 2, mx_wait = 7\<rparr>"

definition ex_free_mutex :: mutex where
  "ex_free_mutex = \<lparr>mx_magic = MUTEX_MAGIC, holder = 0, mx_count = 0, mx_wait = 9\<rparr>"

definition ex_event :: event where
  "ex_event = \<lparr>ev_magic = EVENT_MAGIC, signaled = False, ev_flags = 0, ev_wait = 7\<rparr>"

definition ex_sem :: semaphore where
  "ex_sem = \<lparr>sm_magic = SEMAPHORE_MAGIC, sm_count = - 1, sm_wait = 7\<rparr>"

lemma ex_objects:
  "mutex_inv None 0 ex_mutex ex_state" "mutex_inv None 0 ex_free_mutex ex_state" "event_inv ex_event ex_state"
  "sem_inv 0 0 ex_sem ex_state"
  by (simp_all add: mutex_inv_def ex_mutex_def ex_free_mutex_def owned_def event_inv_def ex_event_def
      sem_inv_def ex_sem_def WAIT_QUEUE_INITIAL_VALUE_def)

end
