(* ===== verification/Init_Levels.thy ===== *)
theory Init_Levels
  imports Prelude
begin

text \<open>
  The init hooks of \<^verbatim>\<open>top/init.c\<close>: the linker collects them in an array, in any order, and
  \<^verbatim>\<open>lk_init_level\<close> calls those of a range of levels. It keeps no list of the hooks it has
  called; each turn scans the whole array for the next one. The hooks are called in the order of
  their level, and hooks of one level in the order of the array.
\<close>

record lk_init_struct =
  level :: nat
  iflags :: "32 word"

text \<open>The inner loop, from the \<open>i\<close>-th hook on. \<open>lst\<close> is the index of the hook called last.\<close>

fun init_scan ::
    "32 word \<Rightarrow> nat \<Rightarrow> nat \<Rightarrow> nat \<Rightarrow> nat option \<Rightarrow> (nat \<times> nat) option \<Rightarrow> bool \<Rightarrow> nat \<Rightarrow> lk_init_struct list \<Rightarrow> (nat \<times> nat) option" where
  "init_scan req start stop last_called_level lst found seen_last i [] = found"
| "init_scan req start stop last_called_level lst found seen_last i (p # ps) =
     (let seen = (seen_last \<or> lst = Some i);
          continue = (\<lambda>f. init_scan req start stop last_called_level lst f seen (Suc i) ps)
      in if iflags p AND req = 0 then continue found
         else if level p > stop then continue found
         else if level p < last_called_level then continue found
         else if (case found of None \<Rightarrow> False | Some (_, l) \<Rightarrow> l \<le> level p) then continue found
         else if level p \<ge> start \<and> level p > last_called_level then continue (Some (i, level p))
         else if level p = last_called_level \<and> lst \<noteq> Some i \<and> seen then Some (i, level p)
         else continue found)"

text \<open>The outer loop. The result is the sequence of the hooks called, by their index.\<close>

partial_function (option) init_loop ::
    "32 word \<Rightarrow> nat \<Rightarrow> nat \<Rightarrow> lk_init_struct list \<Rightarrow> nat \<Rightarrow> nat option \<Rightarrow> nat list option" where
  "init_loop req start stop hooks last_called_level lst =
     (case init_scan req start stop last_called_level lst None False 0 hooks of
        None \<Rightarrow> Some []
      | Some (i, l) \<Rightarrow>
          Option.bind (init_loop req start stop hooks l (Some i)) (\<lambda>is. Some (i # is)))"

definition lk_init_level :: "32 word \<Rightarrow> nat \<Rightarrow> nat \<Rightarrow> lk_init_struct list \<Rightarrow> nat list res option" where
  "lk_init_level req start stop hooks =
     (if \<not> start > 0 then Some (Inl (Assertion_failed ''start_level > 0''))
      else (case init_loop req start stop hooks (start - 1) None of None \<Rightarrow> None | Some is \<Rightarrow> Some (Inr is)))"

section \<open>The order of the hooks\<close>

definition eligible :: "32 word \<Rightarrow> nat \<Rightarrow> nat \<Rightarrow> lk_init_struct list \<Rightarrow> nat \<Rightarrow> bool" where
  "eligible req start stop hooks i \<longleftrightarrow> i < length hooks \<and> iflags (hooks ! i) AND req \<noteq> 0 \<and>
     start \<le> level (hooks ! i) \<and> level (hooks ! i) \<le> stop"

text \<open>Before: by level, then by position.\<close>

definition before :: "lk_init_struct list \<Rightarrow> nat \<Rightarrow> nat \<Rightarrow> bool" where
  "before hooks i j \<longleftrightarrow> level (hooks ! i) < level (hooks ! j) \<or> level (hooks ! i) = level (hooks ! j) \<and> i < j"

text \<open>The hooks still to be called.\<close>

definition pending :: "32 word \<Rightarrow> nat \<Rightarrow> nat \<Rightarrow> lk_init_struct list \<Rightarrow> nat option \<Rightarrow> nat set" where
  "pending req start stop hooks lst =
     {i. eligible req start stop hooks i \<and> (case lst of None \<Rightarrow> True | Some l \<Rightarrow> before hooks l i)}"

text \<open>What the scan has found among the first \<open>n\<close> hooks.\<close>

definition first_of :: "lk_init_struct list \<Rightarrow> nat set \<Rightarrow> nat \<Rightarrow> (nat \<times> nat) option \<Rightarrow> bool" where
  "first_of hooks P n found \<longleftrightarrow>
     (case found of
        None \<Rightarrow> \<forall>j \<in> P. \<not> j < n
      | Some (m, l) \<Rightarrow> m < n \<and> m \<in> P \<and> l = level (hooks ! m) \<and> (\<forall>j \<in> P. j < n \<longrightarrow> m = j \<or> before hooks m j))"

text \<open>\<open>lvl\<close> and \<open>lst\<close> describe the hook called last.\<close>

definition last_ok :: "nat \<Rightarrow> nat \<Rightarrow> lk_init_struct list \<Rightarrow> nat \<Rightarrow> nat option \<Rightarrow> bool" where
  "last_ok start stop hooks lvl lst \<longleftrightarrow>
     (case lst of None \<Rightarrow> Suc lvl = start
      | Some l \<Rightarrow> l < length hooks \<and> lvl = level (hooks ! l) \<and> start \<le> lvl)"

lemma before_trans: "before hooks i j \<Longrightarrow> before hooks j k \<Longrightarrow> before hooks i k"
  by (auto simp: before_def)

lemma first_of_Suc:
  "n \<notin> P \<Longrightarrow> first_of hooks P n found \<Longrightarrow> first_of hooks P (Suc n) found"
  by (auto simp: first_of_def less_Suc_eq split: option.splits)

lemma init_scan_first:
  assumes k: "last_ok start stop hooks lvl lst" and "ps = drop i hooks"
    and "first_of hooks (pending req start stop hooks lst) i found"
    and "\<And>m l. found = Some (m, l) \<Longrightarrow> lvl < l"
    and "seen_last \<longleftrightarrow> (\<exists>l < i. lst = Some l)" "i \<le> length hooks"
  shows "first_of hooks (pending req start stop hooks lst) (length hooks)
    (init_scan req start stop lvl lst found seen_last i ps)"
  using assms(2-)
proof (induction ps arbitrary: i found seen_last)
  case Nil
  then show ?case by simp
next
  case (Cons p ps)
  let ?P = "pending req start stop hooks lst" and ?seen = "seen_last \<or> lst = Some i"
  let ?cont = "\<lambda>f. init_scan req start stop lvl lst f ?seen (Suc i) ps"
  from Cons.prems(1) have i: "i < length hooks" by (metis drop_all linorder_not_less list.distinct(1))
  with Cons.prems(1) have p: "p = hooks ! i" "ps = drop (Suc i) hooks" by (simp_all add: Cons_nth_drop_Suc [symmetric])
  have seen: "?seen \<longleftrightarrow> (\<exists>l < Suc i. lst = Some l)" using Cons.prems(4) by (auto simp: less_Suc_eq)
  have cont: "first_of hooks ?P (length hooks) (?cont f)" if "first_of hooks ?P (Suc i) f" "\<And>m l. f = Some (m, l) \<Longrightarrow> lvl < l" for f
    using Cons.IH [OF p(2) that(1) that(2) seen] i by simp
  have inP: "i \<in> ?P \<longleftrightarrow> iflags p AND req \<noteq> 0 \<and> start \<le> level p \<and> level p \<le> stop \<and>
      (case lst of None \<Rightarrow> True | Some l \<Rightarrow> lvl < level p \<or> lvl = level p \<and> l < i)"
    using i k by (auto simp: pending_def eligible_def p(1) before_def last_ok_def split: option.splits)
  have unf: "init_scan req start stop lvl lst found seen_last i (p # ps) =
      (if iflags p AND req = 0 then ?cont found else if level p > stop then ?cont found
       else if level p < lvl then ?cont found
       else if (case found of None \<Rightarrow> False | Some (_, l) \<Rightarrow> l \<le> level p) then ?cont found
       else if level p \<ge> start \<and> level p > lvl then ?cont (Some (i, level p))
       else if level p = lvl \<and> lst \<noteq> Some i \<and> ?seen then Some (i, level p) else ?cont found)"
    by (simp add: Let_def)
  show ?case
  proof (cases "i \<in> ?P")
    case False
    then have c: "first_of hooks ?P (length hooks) (?cont found)"
      using Cons.prems(2,3) by (intro cont first_of_Suc) auto
    have "init_scan req start stop lvl lst found seen_last i (p # ps) = ?cont found"
      unfolding unf using False k seen unfolding inP last_ok_def by (auto split: option.splits)
    with c show ?thesis by simp
  next
    case True
    have lv: "lvl \<le> level p" using True k by (auto simp: inP last_ok_def split: option.splits)
    show ?thesis
    proof (cases "level p = lvl")
      case same: True
      with True k seen have "?seen" "lst \<noteq> Some i" by (auto simp: inP last_ok_def split: option.splits)
      with same True Cons.prems(3) have "init_scan req start stop lvl lst found seen_last i (p # ps) = Some (i, level p)"
        unfolding unf by (auto simp: inP split: option.splits)
      moreover have "i = j \<or> before hooks i j" if j: "j \<in> ?P" for j
      proof -
        have "lvl \<le> level (hooks ! j)"
          using j k by (auto simp: pending_def eligible_def before_def last_ok_def split: option.splits)
        moreover have "lvl < level (hooks ! j)" if "j < i"
          using Cons.prems(2,3) j that by (cases found) (force simp: first_of_def before_def)+
        ultimately show ?thesis using same by (cases i j rule: linorder_cases) (auto simp: before_def p(1))
      qed
      ultimately show ?thesis using True i same by (simp add: first_of_def p(1))
    next
      case False
      with lv have gt: "lvl < level p" by simp
      show ?thesis
      proof (cases "case found of None \<Rightarrow> False | Some (_, l) \<Rightarrow> l \<le> level p")
        case keep: True
        then have "init_scan req start stop lvl lst found seen_last i (p # ps) = ?cont found"
          unfolding unf by simp
        moreover have "first_of hooks ?P (Suc i) found" using Cons.prems(2) keep
          by (auto simp: first_of_def less_Suc_eq before_def p(1) split: option.splits)
        ultimately show ?thesis using cont Cons.prems(3) by simp
      next
        case take: False
        then have "init_scan req start stop lvl lst found seen_last i (p # ps) = ?cont (Some (i, level p))"
          unfolding unf using True gt by (auto simp: inP)
        moreover have "first_of hooks ?P (Suc i) (Some (i, level p))" using Cons.prems(2) take True
          by (auto simp: first_of_def less_Suc_eq before_def p(1) split: option.splits)
        ultimately show ?thesis using cont [of "Some (i, level p)"] gt by (simp only:) simp
      qed
    qed
  qed
qed

text \<open>The loop ends after it has called all pending hooks, in order.\<close>

lemma init_loop_order:
  assumes "last_ok start stop hooks lvl lst" "sorted_wrt (before hooks) is"
    "set is = pending req start stop hooks lst"
  shows "init_loop req start stop hooks lvl lst = Some is"
  using assms
proof (induction "is" arbitrary: lvl lst)
  case Nil
  from init_scan_first [OF Nil.prems(1), of hooks 0 req None False] Nil.prems(3)
  have "init_scan req start stop lvl lst None False 0 hooks = None"
    by (auto simp: first_of_def split: option.splits)
  then show ?case by (subst init_loop.simps) simp
next
  case (Cons m "is")
  let ?P = "pending req start stop hooks lst" and ?Q = "pending req start stop hooks (Some m)"
  have m: "m \<in> ?P" "\<And>j. j \<in> ?P \<Longrightarrow> j \<noteq> m \<Longrightarrow> before hooks m j"
    using Cons.prems(2,3) by auto
  then have e: "eligible req start stop hooks m" by (simp add: pending_def)
  have "first_of hooks ?P (length hooks) (init_scan req start stop lvl lst None False 0 hooks)"
    by (rule init_scan_first [OF Cons.prems(1)]) (auto simp: first_of_def)
  then have sc: "init_scan req start stop lvl lst None False 0 hooks = Some (m, level (hooks ! m))"
    using m e by (auto simp: first_of_def eligible_def before_def split: option.splits) (metis less_imp_neq less_asym not_less_iff_gr_or_eq)+
  have k: "last_ok start stop hooks (level (hooks ! m)) (Some m)" using e by (simp add: last_ok_def eligible_def)
  have "set is = ?Q"
  proof -
    have "?Q = ?P - {m}" using m before_trans [of hooks _ m]
      by (auto simp: pending_def before_def split: option.splits)
    moreover have "m \<notin> set is" using Cons.prems(2) by (auto simp: before_def)
    ultimately show ?thesis using Cons.prems(3) by auto
  qed
  from Cons.IH [OF k _ this] Cons.prems(2) show ?case by (subst init_loop.simps) (simp add: sc)
qed

text \<open>The reference: a stable sort by level of the hooks in range.\<close>

definition init_order :: "32 word \<Rightarrow> nat \<Rightarrow> nat \<Rightarrow> lk_init_struct list \<Rightarrow> nat list" where
  "init_order req start stop hooks =
     sort_key (\<lambda>i. level (hooks ! i)) (filter (eligible req start stop hooks) [0..<length hooks])"

lemma insort_before:
  "sorted_wrt (before hooks) ys \<Longrightarrow> \<forall>y \<in> set ys. x < y \<Longrightarrow>
     sorted_wrt (before hooks) (insort_key (\<lambda>i. level (hooks ! i)) x ys)"
  by (induction ys) (auto simp: before_def set_insort_key)

lemma sort_before: "sorted_wrt (<) xs \<Longrightarrow> sorted_wrt (before hooks) (sort_key (\<lambda>i. level (hooks ! i)) xs)"
  by (induction xs) (simp_all add: insort_before)

theorem lk_init_level_sorts:
  assumes "start > 0"
  shows "lk_init_level req start stop hooks = Some (Inr (init_order req start stop hooks))"
proof -
  have "init_loop req start stop hooks (start - 1) None = Some (init_order req start stop hooks)"
    using assms
    by (intro init_loop_order) (auto simp: last_ok_def init_order_def pending_def eligible_def
        intro!: sort_before sorted_wrt_filter)
  with assms show ?thesis by (simp add: lk_init_level_def)
qed

end
