(* ===== verification/Thread_Boot.thy ===== *)
theory Thread_Boot
  imports Thread_Life Timer_Tick
begin

text \<open>
  Bringing up the scheduler (\<^verbatim>\<open>kernel/thread.c\<close>, \<^verbatim>\<open>top/main.c\<close>): the bootstrap thread of the first
  processor, the reaper, the moment a processor becomes idle and joins the scheduling, and the
  secondary processors. What the random number generator returns is the argument \<open>rand\<close>.
\<close>

section \<open>Flags and names\<close>

definition thread_set_flag :: "cpu_num \<Rightarrow> tid \<Rightarrow> 32 word \<Rightarrow> bool \<Rightarrow> kstate \<Rightarrow> kstate res" where
  "thread_set_flag cpu t flag enable s =
     bindE (thread_lock cpu s)
       (\<lambda>s1. thread_unlock cpu (upd_thread t
          (\<lambda>th. th\<lparr>flags := if enable then flags th OR flag else flags th AND NOT flag\<rparr>) s1))"

definition thread_get_flag :: "cpu_num \<Rightarrow> tid \<Rightarrow> 32 word \<Rightarrow> kstate \<Rightarrow> (bool \<times> kstate) res" where
  "thread_get_flag cpu t flag s =
     bindE (thread_lock cpu s)
       (\<lambda>s1. bindE (thread_unlock cpu s1) (\<lambda>s2. Inr (flags (threads s1 t) AND flag \<noteq> 0, s2)))"

definition thread_set_flag_exit_on_panic :: "cpu_num \<Rightarrow> tid \<Rightarrow> bool \<Rightarrow> kstate \<Rightarrow> kstate res" where
  "thread_set_flag_exit_on_panic cpu t enable s = thread_set_flag cpu t THREAD_FLAG_EXIT_ON_PANIC enable s"

definition thread_get_flag_exit_on_panic :: "cpu_num \<Rightarrow> tid \<Rightarrow> kstate \<Rightarrow> (bool \<times> kstate) res" where
  "thread_get_flag_exit_on_panic cpu t s = thread_get_flag cpu t THREAD_FLAG_EXIT_ON_PANIC s"

fun thread_state_to_str :: "thread_state \<Rightarrow> string" where
  "thread_state_to_str THREAD_SUSPENDED = ''susp''"
| "thread_state_to_str THREAD_READY = ''rdy''"
| "thread_state_to_str THREAD_RUNNING = ''run''"
| "thread_state_to_str THREAD_BLOCKED = ''blok''"
| "thread_state_to_str THREAD_SLEEPING = ''slep''"
| "thread_state_to_str THREAD_DEATH = ''deth''"

text \<open>\<^verbatim>\<open>snprintf(name, 16, "idle %d", cpu)\<close>: the decimal digits, and the cut at 15 characters.\<close>

fun decimal :: "nat \<Rightarrow> string" where
  "decimal n = (if n < 10 then [char_of (48 + n)] else decimal (n div 10) @ [char_of (48 + n mod 10)])"

declare decimal.simps [simp del]

definition idle_name :: "cpu_num \<Rightarrow> string" where
  "idle_name cpu = take 15 (''idle '' @ decimal cpu)"

section \<open>The first processor\<close>

definition thread_init_cookie :: "int \<times> 64 word \<Rightarrow> tid \<Rightarrow> kstate \<Rightarrow> kstate res" where
  "thread_init_cookie rand t s =
     guardE ''Failed to initialize thread cookie.'' (fst rand = 0)
       (Inr (upd_thread t (\<lambda>th. th\<lparr>cookie := snd rand XOR t\<rparr>) s))"

definition thread_init_early :: "cpu_num \<Rightarrow> int \<times> 64 word \<Rightarrow> kstate \<Rightarrow> kstate res" where
  "thread_init_early cpu rand s =
     guardE ''first cpu'' (cpu = 0)
      (let t = idle_threads s 0;
           s1 = wait_queue_init Reaper_wq
                 (s\<lparr>run_queue := (\<lambda>p. if p < NUM_PRIORITIES then [] else run_queue s p),
                    thread_list := [], dead_threads := []\<rparr>)
       in bindE (init_thread_struct cpu t ''bootstrap'' s1)
         (\<lambda>s2. bindE (thread_set_pinned_cpu cpu t 0
                  (upd_thread t (\<lambda>th. th\<lparr>priority := HIGHEST_PRIORITY, state := THREAD_RUNNING,
                      flags := THREAD_FLAG_DETACHED, curr_cpu := 0\<rparr>) s2))
           (\<lambda>s3. let s4 = wait_queue_init (Retcode_wq t) s3;
                     s5 = upd_thread t (\<lambda>th. th\<lparr>thread_list_node := In_thread_list\<rparr>)
                           (s4\<lparr>thread_list := t # thread_list s4,
                               cpu_priority := (cpu_priority s4)(0 := priority (threads s4 t)),
                               current := (current s4)(cpu := t)\<rparr>)
                 in thread_init_cookie rand t s5)))"

text \<open>\<^verbatim>\<open>thread_reaper_init\<close>; the entry point of the reaper is a parameter.\<close>

definition thread_reaper_init ::
    "cpu_num \<Rightarrow> bool \<Rightarrow> alloc_env \<Rightarrow> 64 word \<Rightarrow> 64 word \<Rightarrow> kstate \<Rightarrow> (free_op list \<times> kstate) res" where
  "thread_reaper_init cpu ints_disabled env reaper_thread_routine default_stack_size s =
     bindE (thread_create cpu env ''reaper'' reaper_thread_routine 0 HIGH_PRIORITY default_stack_size s)
       (\<lambda>(t, fs, s1). if t = 0 then Inr (fs, s1)
          else bindE (thread_detach_and_resume cpu ints_disabled t s1)
            (\<lambda>c. case c of Return r s2 \<Rightarrow> Inr (fs, s2) | Switched_out s2 \<Rightarrow> Inr (fs, s2)))"

definition init_preempt_timers :: "nat \<Rightarrow> timer_sys \<Rightarrow> timer_sys" where
  "init_preempt_timers n ts = fold (\<lambda>i. timer_initialize (Preempt_timer i)) [0..<n] ts"

definition thread_init ::
    "cpu_num \<Rightarrow> bool \<Rightarrow> alloc_env \<Rightarrow> 64 word \<Rightarrow> 64 word \<Rightarrow> kstate \<Rightarrow> (free_op list \<times> kstate) res" where
  "thread_init cpu ints_disabled env reaper_thread_routine default_stack_size s =
     thread_reaper_init cpu ints_disabled env reaper_thread_routine default_stack_size
       (s\<lparr>timers := init_preempt_timers (smp_max_cpus s) (timers s)\<rparr>)"

text \<open>\<^verbatim>\<open>thread_become_idle\<close>, up to the switch away from the idle thread. Interrupts are off.\<close>

definition thread_become_idle :: "cpu_num \<Rightarrow> bool \<Rightarrow> kstate \<Rightarrow> kstate res" where
  "thread_become_idle cpu ints_disabled s =
     guardE ''interrupts disabled'' ints_disabled
      (let t = current s cpu;
           s1 = thread_set_name cpu (idle_name cpu) s;
           s2 = upd_thread t (\<lambda>th. th\<lparr>priority := IDLE_PRIORITY, flags := flags th OR THREAD_FLAG_IDLE\<rparr>) s1
       in bindE (thread_set_pinned_cpu cpu t (int cpu) s2)
         (\<lambda>s3. thread_yield cpu (mp_set_cpu_idle cpu (mp_set_curr_cpu_active cpu True s3))))"

section \<open>Secondary processors\<close>

definition thread_secondary_cpu_init_early :: "cpu_num \<Rightarrow> bool \<Rightarrow> kstate \<Rightarrow> kstate res" where
  "thread_secondary_cpu_init_early cpu ints_disabled s =
     guardE ''interrupts disabled'' ints_disabled
      (let t = idle_threads s cpu
       in bindE (init_thread_struct cpu t (idle_name cpu) s)
         (\<lambda>s1. bindE (thread_set_pinned_cpu cpu t (int cpu) s1)
           (\<lambda>s2. bindE (thread_set_pinned_cpu cpu t (int cpu)
                    (upd_thread t (\<lambda>th. th\<lparr>priority := HIGHEST_PRIORITY, state := THREAD_RUNNING,
                        flags := THREAD_FLAG_DETACHED OR THREAD_FLAG_IDLE, curr_cpu := int cpu\<rparr>) s2))
             (\<lambda>s3. bindE (thread_lock cpu (wait_queue_init (Retcode_wq t) s3))
               (\<lambda>s4. thread_unlock cpu
                  (upd_thread t (\<lambda>th. th\<lparr>thread_list_node := In_thread_list\<rparr>)
                    (s4\<lparr>thread_list := t # thread_list s4,
                        cpu_priority := (cpu_priority s4)(cpu := priority (threads s4 t)),
                        current := (current s4)(cpu := t)\<rparr>)))))))"

definition thread_secondary_cpu_entry :: "cpu_num \<Rightarrow> kstate \<Rightarrow> kstate res" where
  "thread_secondary_cpu_entry cpu s =
     (let t = current s cpu;
          s1 = upd_thread t (\<lambda>th. th\<lparr>priority := IDLE_PRIORITY\<rparr>) s
      in thread_yield cpu (mp_set_cpu_idle cpu (mp_set_curr_cpu_active cpu True s1)))"

section \<open>The scheduler comes up consistent\<close>

text \<open>The state when \<^verbatim>\<open>lk_main\<close> starts: zeroed static data, and no processor takes part in the
  scheduling yet.\<close>

definition at_reset :: "kstate \<Rightarrow> bool" where
  "at_reset s \<longleftrightarrow> 0 < smp_max_cpus s \<and> smp_max_cpus s \<le> 32 \<and> idle_threads s 0 \<noteq> 0 \<and> lock_free s \<and>
     active_cpus s = 0 \<and> run_queue_bitmap s = 0 \<and> (\<forall>p. run_queue s p = []) \<and>
     (\<forall>t. queue_node (threads s t) = Not_queued) \<and>
     (\<forall>w. wq_list (wait_queues s w) = [] \<and> wq_count (wait_queues s w) = 0) \<and>
     linked (timers s) \<and> tmagic (timer_of (timers s) (Preempt_timer 0)) = TIMER_MAGIC \<and>
     node (timer_of (timers s) (Preempt_timer 0)) = None \<and> \<not> running (timer_of (timers s) (Preempt_timer 0))"

text \<open>What the early initialisation leaves.\<close>

definition early :: "64 word \<Rightarrow> kstate \<Rightarrow> kstate \<Rightarrow> bool" where
  "early r s s' \<longleftrightarrow>
     (let t = idle_threads s 0
      in thread_list s' = [t] \<and> dead_threads s' = [] \<and> run_queue s' = (\<lambda>p. []) \<and> run_queue_bitmap s' = 0 \<and>
         idle_threads s' = idle_threads s \<and> current s' 0 = t \<and> active_cpus s' = 0 \<and> timers s' = timers s \<and>
         smp_max_cpus s' = smp_max_cpus s \<and> lock_free s' \<and>
         (\<forall>v. v \<noteq> t \<longrightarrow> threads s' v = threads s v) \<and>
         (\<forall>w. wq_list (wait_queues s' w) = [] \<and> wq_count (wait_queues s' w) = 0) \<and>
         magic (threads s' t) = THREAD_MAGIC \<and> cookie (threads s' t) = r XOR t \<and>
         queue_node (threads s' t) = Not_queued \<and> state (threads s' t) = THREAD_RUNNING \<and>
         priority (threads s' t) = HIGHEST_PRIORITY \<and> curr_cpu (threads s' t) = 0 \<and> pinned_cpu (threads s' t) = 0)"

lemma thread_init_early_ok:
  assumes a: "at_reset s" and r: "fst rand = 0"
  shows "okE (early (snd rand) s) (thread_init_early 0 rand s)"
  using assms
  by (auto simp: thread_init_early_def init_thread_struct_def thread_set_pinned_cpu_def Let_def at_reset_def
      wait_queue_init_def WAIT_QUEUE_INITIAL_VALUE_def zero_thread_simps lock_free_def thread_lock_held_def
      thread_init_cookie_def early_def)

lemma idle_flag: "thread_is_idle (th\<lparr>flags := flags th OR THREAD_FLAG_IDLE\<rparr>)"
  by (simp add: class_bits bit_or_bit32)

lemma only_cpu_0 [simp]: "bit (bit32 0) c \<longleftrightarrow> c = 0"
  by simp

lemma thread_set_pinned_cpu_same:
  assumes "t \<noteq> 0" "magic (threads s t) = THREAD_MAGIC" "- 1 \<le> pin" "pin < int (smp_max_cpus s)"
    "lock_free s" "cpu < smp_max_cpus s" "pinned_cpu (threads s t) = pin"
  shows "thread_set_pinned_cpu cpu t pin s = Inr s"
proof -
  have "s\<lparr>thread_lock_owner := smp_max_cpus s\<rparr> = s" using assms(5) by (simp add: lock_free_def)
  then show ?thesis using assms by (simp add: thread_set_pinned_cpu_def lock_free_def thread_lock_held_def)
qed

text \<open>The first processor joins the scheduling: its idle thread is the only thread and runs there.\<close>

lemma first_cpu_inv:
  assumes e: "early r s s1" and a: "at_reset s"
    and s2: "s2 = upd_thread (idle_threads s 0) (\<lambda>th. th\<lparr>name := n, priority := IDLE_PRIORITY,
      flags := flags th OR THREAD_FLAG_IDLE\<rparr>) s1" and s3: "s3 = s2\<lparr>active_cpus := bit32 0\<rparr>"
  shows "sched_inv s3"
proof -
  let ?t = "idle_threads s 0"
  note e' = e [unfolded early_def Let_def] and a' = a [unfolded at_reset_def]
  have th: "threads s3 ?t = (threads s1 ?t)\<lparr>name := n, priority := IDLE_PRIORITY, flags := flags (threads s1 ?t) OR THREAD_FLAG_IDLE\<rparr>"
    "\<And>v. v \<noteq> ?t \<Longrightarrow> threads s3 v = threads s v" using e' by (simp_all add: s3 s2)
  have q: "queue_node (threads s3 v) = Not_queued" for v using th e' a' by (cases "v = ?t") simp_all
  have id: "thread_is_idle (threads s3 ?t)" "thread_is_real_time_or_idle (threads s3 ?t)"
    unfolding th by (simp_all add: class_bits bit_or_bit32)
  have f: "thread_list s3 = [?t]" "dead_threads s3 = []" "run_queue s3 = (\<lambda>p. [])" "run_queue_bitmap s3 = 0"
    "idle_threads s3 = idle_threads s" "current s3 0 = ?t" "timers s3 = timers s" "smp_max_cpus s3 = smp_max_cpus s"
    "active_cpus s3 = bit32 0" "wait_queues s3 = wait_queues s1" using e' by (simp_all add: s3 s2)
  have up: "up s3 c \<longleftrightarrow> c = 0" for c using a' f by (auto simp: up_def)
  have "rq_inv s3" using q f by (simp add: rq_inv_def)
  moreover have "wq_inv s3" using q f e' by (simp add: wq_inv_def)
  moreover have "queued_inv s3" using q by (simp add: queued_inv_def queued_ok_def)
  moreover have "thread_ok s3 ?t"
    using e' f a' id up by (auto simp: thread_ok_def th thread_get_expected_cookie_def xor.assoc)
  then have "threads_inv {} s3" using f e' by (simp add: threads_inv_def known_def settled_def th)
  moreover have "cpu_ok s3 0" using e' a' f id by (simp add: cpu_ok_def known_def preempt_ok_def th)
  then have "cpus_inv {} s3" using a' f up e' by (simp add: cpus_inv_def th)
  ultimately show ?thesis by (simp add: sched_inv_at_def)
qed

theorem boot_ok:
  assumes a: "at_reset s" and r: "fst rand = 0"
  shows "okE (\<lambda>s'. sched_inv s' \<and> lock_free s' \<and> runs_best 0 s')
    (bindE (thread_init_early 0 rand s) (thread_become_idle 0 True))"
proof (rule okE_bindI [OF thread_init_early_ok [OF a r]])
  fix s1 assume e: "early (snd rand) s s1"
  let ?t = "idle_threads s 0"
  define s2 where "s2 = upd_thread ?t (\<lambda>th. th\<lparr>name := copy_name (idle_name 0), priority := IDLE_PRIORITY,
      flags := flags th OR THREAD_FLAG_IDLE\<rparr>) s1"
  let ?s3 = "s2\<lparr>active_cpus := bit32 0\<rparr>"
  have inv: "sched_inv ?s3" by (rule first_cpu_inv [OF e a s2_def refl])
  let ?s4 = "mp_set_cpu_idle 0 (mp_set_curr_cpu_active 0 True s2)"
  have e': "current s1 0 = ?t" "active_cpus s1 = 0" "lock_free s1" "pinned_cpu (threads s1 ?t) = 0"
      "magic (threads s1 ?t) = THREAD_MAGIC" "smp_max_cpus s1 = smp_max_cpus s" "?t \<noteq> 0" "0 < smp_max_cpus s"
    using e a by (simp_all add: early_def Let_def at_reset_def)
  have s4: "?s4 = ?s3\<lparr>idle_cpus := idle_cpus s2 OR bit32 0\<rparr>"
    using e'(2) by (simp add: mp_set_cpu_idle_def mp_set_curr_cpu_active_def s2_def)
  have "sched_inv ?s4" "lock_free ?s4" "up ?s4 0"
    using inv e' unfolding s4 by (simp_all add: lock_free_def up_def s2_def)
  note y = thread_yield_ok [OF this]
  have "thread_set_pinned_cpu 0 ?t 0 s2 = Inr s2"
    using e' by (intro thread_set_pinned_cpu_same) (simp_all add: s2_def lock_free_def)
  moreover have "upd_thread ?t (\<lambda>th. th\<lparr>priority := IDLE_PRIORITY, flags := flags th OR THREAD_FLAG_IDLE\<rparr>)
      (thread_set_name 0 (idle_name 0) s1) = s2"
    using e'(1) by (simp add: s2_def thread_set_name_def upd_thread_def)
  ultimately have "thread_become_idle 0 True s1 = thread_yield 0 ?s4"
    using e'(1) by (simp add: thread_become_idle_def Let_def)
  then show "okE (\<lambda>s'. sched_inv s' \<and> lock_free s' \<and> runs_best 0 s') (thread_become_idle 0 True s1)"
    using y by (auto elim: okE_mono)
qed

section \<open>A secondary processor joins\<close>

definition ready_cpu :: "cpu_num \<Rightarrow> kstate \<Rightarrow> bool" where
  "ready_cpu cpu s \<longleftrightarrow> cpu < smp_max_cpus s \<and> smp_max_cpus s \<le> 32 \<and> \<not> up s cpu \<and> fresh (idle_threads s cpu) s \<and>
     tmagic (timer_of (timers s) (Preempt_timer cpu)) = TIMER_MAGIC \<and>
     node (timer_of (timers s) (Preempt_timer cpu)) = None \<and> \<not> running (timer_of (timers s) (Preempt_timer cpu))"

text \<open>The state with the idle thread entered and the processor active.\<close>

definition joined :: "cpu_num \<Rightarrow> kstate \<Rightarrow> kstate \<Rightarrow> bool" where
  "joined cpu s s' \<longleftrightarrow>
     (let t = idle_threads s cpu
      in thread_list s' = t # thread_list s \<and> dead_threads s' = dead_threads s \<and> run_queue s' = run_queue s \<and>
         run_queue_bitmap s' = run_queue_bitmap s \<and> idle_threads s' = idle_threads s \<and>
         current s' = (current s)(cpu := t) \<and> active_cpus s' = active_cpus s OR bit32 cpu \<and> timers s' = timers s \<and>
         smp_max_cpus s' = smp_max_cpus s \<and> lock_free s' \<and>
         (\<forall>v. v \<noteq> t \<longrightarrow> threads s' v = threads s v) \<and>
         (\<forall>w. w \<noteq> Retcode_wq t \<longrightarrow> wait_queues s' w = wait_queues s w) \<and>
         wq_list (wait_queues s' (Retcode_wq t)) = [] \<and> wq_count (wait_queues s' (Retcode_wq t)) = 0 \<and>
         magic (threads s' t) = THREAD_MAGIC \<and> cookie (threads s' t) = thread_get_expected_cookie t s \<and>
         queue_node (threads s' t) = Not_queued \<and> state (threads s' t) = THREAD_RUNNING \<and>
         priority (threads s' t) = IDLE_PRIORITY \<and> curr_cpu (threads s' t) = int cpu \<and>
         pinned_cpu (threads s' t) = int cpu \<and> thread_is_idle (threads s' t))"

lemma joined_frame:
  assumes j: "joined cpu s s'" and r: "ready_cpu cpu s"
  shows "v \<in> known s \<Longrightarrow> threads s' v = threads s v" "thread_get_expected_cookie v s' = thread_get_expected_cookie v s"
    "up s' c \<longleftrightarrow> up s c \<or> c = cpu" "known s' = insert (idle_threads s cpu) (known s)"
    "up s c \<Longrightarrow> current s' c = current s c"
proof -
  let ?t = "idle_threads s cpu"
  have n: "?t \<notin> known s" "?t \<noteq> idle_threads s 0" and c: "cpu < smp_max_cpus s" "smp_max_cpus s \<le> 32" "\<not> up s cpu"
    using r by (simp_all add: ready_cpu_def fresh_def)
  have o: "threads s' v = threads s v" if "v \<noteq> ?t" for v using j that by (simp add: joined_def Let_def)
  show "v \<in> known s \<Longrightarrow> threads s' v = threads s v" using n(1) by (intro o) auto
  have "threads s' (idle_threads s 0) = threads s (idle_threads s 0)" using n(2) by (intro o) auto
  then show "thread_get_expected_cookie v s' = thread_get_expected_cookie v s"
    using j by (simp add: thread_get_expected_cookie_def joined_def Let_def)
  show "up s' c \<longleftrightarrow> up s c \<or> c = cpu" using j c by (auto simp: up_def joined_def Let_def bit_or_bit32)
  show "known s' = insert ?t (known s)" using j by (auto simp: known_def joined_def Let_def)
  show "up s c \<Longrightarrow> current s' c = current s c" using j c(3) by (auto simp: joined_def Let_def)
qed

lemma joined_inv:
  assumes inv: "sched_inv s" and j: "joined cpu s s'" and r: "ready_cpu cpu s"
  shows "sched_inv s'"
proof -
  let ?t = "idle_threads s cpu"
  note f = joined_frame [OF j r] and j' = j [unfolded joined_def Let_def]
  note u = unknown_facts [OF inv]
  have fr: "fresh ?t s" "cpu < smp_max_cpus s" "\<not> up s cpu" using r by (simp_all add: ready_cpu_def)
  then have n: "?t \<notin> known s" "wq_list (wait_queues s (Retcode_wq ?t)) = []" by (simp_all add: fresh_def)
  have q: "queue_node (threads s' v) = queue_node (threads s v)" for v using j' u(1) [OF n(1)] by (cases "v = ?t") simp_all
  have "rq_inv s'" using inv j' q by (simp add: sched_inv_at_def rq_inv_def)
  moreover have wl: "wait_queues s' w = wait_queues s w \<or> wq_list (wait_queues s' w) = [] \<and>
      wq_count (wait_queues s' w) = 0 \<and> wq_list (wait_queues s w) = []" for w
    using j' n(2) by (cases "w = Retcode_wq ?t") simp_all
  have wl': "wq_list (wait_queues s' w) = wq_list (wait_queues s w)"
    "wq_count (wait_queues s' w) = int (length (wq_list (wait_queues s' w)))"
    "wq_list (wait_queues s' w) \<noteq> [] \<Longrightarrow> wq_magic (wait_queues s' w) = wq_magic (wait_queues s w)" for w
    using wl [of w] inv by (auto simp: sched_inv_at_def wq_inv_def)
  have "wq_inv s'" using inv wl' q by (simp add: sched_inv_at_def wq_inv_def)
  moreover have "queued_ok s' v" for v
  proof (cases "v = ?t")
    case True
    then show ?thesis using j' by (simp add: queued_ok_def)
  next
    case False
    have "queued_ok s v" using inv by (simp add: sched_inv_at_def queued_inv_def)
    with False j' show ?thesis by (auto simp: queued_ok_def split: queue_link.splits)
  qed
  then have "queued_inv s'" by (simp add: queued_inv_def)
  moreover have "thread_ok s' v" "settled s' v" if v: "v \<in> known s" for v
  proof -
    have "thread_ok s v" "settled s v" using inv v by (simp_all add: sched_inv_at_def threads_inv_def)
    moreover have "smp_max_cpus s' = smp_max_cpus s" "idle_threads s' = idle_threads s" using j' by simp_all
    moreover have "\<exists>c. up s' c \<and> current s' c = v \<and> P c" if "\<exists>c. up s c \<and> current s c = v \<and> P c" for P
      using that f(3,5) by metis
    moreover note this [of "\<lambda>_. True"]
    moreover have "\<exists>c. up s' c \<and> v = idle_threads s c" if "\<exists>c. up s c \<and> v = idle_threads s c" using that f(3) by metis
    ultimately show "thread_ok s' v" "settled s' v"
      unfolding thread_ok_def settled_def f(1) [OF v] f(2) by simp_all
  qed
  moreover have "thread_ok s' ?t" "settled s' ?t" using j' fr(2) by (auto simp: thread_ok_def settled_def f(2,3))
  moreover have "distinct (thread_list s' @ dead_threads s')" "\<forall>v \<in> set (dead_threads s'). state (threads s' v) = THREAD_DEATH"
    using inv j' n(1) f(1) by (auto simp: sched_inv_at_def threads_inv_def known_def)
  ultimately have 1: "threads_inv {} s'" by (simp add: threads_inv_def f(4))
  have k: "current s c \<in> known s" "idle_threads s c \<in> known s" if "up s c" for c
    using cpu_okD [OF inv that] by (auto simp: cpu_ok_def known_def)
  have "cpu_ok s' c" "state (threads s' (current s' c)) = THREAD_RUNNING" if "up s c" for c
    using cpu_okD [OF inv that] current_running [OF inv that] j' k [OF that] f(1,4,5) that
    by (auto simp: cpu_ok_def preempt_ok_def)
  moreover have "cpu_ok s' cpu" "state (threads s' (current s' cpu)) = THREAD_RUNNING"
    using j' r idle_is_real_time_or_idle [of "threads s' ?t"] f(4) by (simp_all add: cpu_ok_def preempt_ok_def ready_cpu_def)
  ultimately have "cpus_inv {} s'" using inv j' f(3) by (auto simp: sched_inv_at_def cpus_inv_def)
  with 1 \<open>rq_inv s'\<close> \<open>wq_inv s'\<close> \<open>queued_inv s'\<close> show ?thesis by (simp add: sched_inv_at_def)
qed

definition entered :: "cpu_num \<Rightarrow> kstate \<Rightarrow> kstate \<Rightarrow> bool" where
  "entered cpu s s1 \<longleftrightarrow>
     joined cpu s (upd_thread (idle_threads s cpu) (\<lambda>th. th\<lparr>priority := IDLE_PRIORITY\<rparr>)
       (s1\<lparr>active_cpus := active_cpus s1 OR bit32 cpu\<rparr>))"

lemma secondary_init_ok:
  assumes r: "ready_cpu cpu s" and lf: "lock_free s"
  shows "okE (entered cpu s) (thread_secondary_cpu_init_early cpu True s)"
proof -
  let ?t = "idle_threads s cpu"
  have c: "cpu < smp_max_cpus s" "?t \<noteq> 0" "?t \<noteq> idle_threads s 0"
    using r by (simp_all add: ready_cpu_def fresh_def)
  note i = init_thread_struct_eq [OF c(2,3) lf c(1), of "idle_name cpu"]
  define s1 where "s1 = s\<lparr>threads := (threads s)(?t := NEW_THREAD ?t (idle_name cpu) s),
     wait_queues := (wait_queues s)(Retcode_wq ?t := \<lparr>wq_magic = 0, wq_list = [], wq_count = 0\<rparr>)\<rparr>"
  have th1: "magic (threads s1 ?t) = THREAD_MAGIC" "state (threads s1 ?t) = THREAD_SUSPENDED"
    "pinned_cpu (threads s1 ?t) = - 1" "cookie (threads s1 ?t) = thread_get_expected_cookie ?t s"
    "queue_node (threads s1 ?t) = Not_queued" "thread_lock_owner s1 = smp_max_cpus s" "smp_max_cpus s1 = smp_max_cpus s"
    "curr_cpu (threads s1 ?t) = 0"
    using lf by (auto simp: s1_def NEW_THREAD_def zero_thread_simps lock_free_def ZERO_THREAD_def [THEN arg_cong [of _ _ curr_cpu]])
  have "cpu \<noteq> 0" using c(3) by metis
  define s2 where "s2 = upd_thread ?t (\<lambda>th. th\<lparr>pinned_cpu := int cpu\<rparr>) s1"
  have p1: "thread_set_pinned_cpu cpu ?t (int cpu) s1 = Inr s2"
  proof -
    have "(upd_thread ?t (\<lambda>th. th\<lparr>pinned_cpu := int cpu\<rparr>) (s1\<lparr>thread_lock_owner := cpu\<rparr>))\<lparr>thread_lock_owner := smp_max_cpus s\<rparr> = s2"
      using th1(6) by (simp add: s2_def upd_thread_def)
    then show ?thesis using c th1 \<open>cpu \<noteq> 0\<close> by (simp add: thread_set_pinned_cpu_def thread_lock_held_def Let_def)
  qed
  let ?s3 = "upd_thread ?t (\<lambda>th. th\<lparr>priority := HIGHEST_PRIORITY, state := THREAD_RUNNING,
    flags := THREAD_FLAG_DETACHED OR THREAD_FLAG_IDLE, curr_cpu := int cpu\<rparr>) s2"
  have p2: "thread_set_pinned_cpu cpu ?t (int cpu) ?s3 = Inr ?s3"
    using c th1 by (intro thread_set_pinned_cpu_same) (simp_all add: s2_def lock_free_def)
  have id: "thread_is_idle (th\<lparr>flags := THREAD_FLAG_DETACHED OR THREAD_FLAG_IDLE\<rparr>)" for th
    by (simp add: class_bits bit_or_bit32)
  show ?thesis
    unfolding thread_secondary_cpu_init_early_def Let_def i s1_def [symmetric] using p1 p2 c th1
    by (simp add: s2_def entered_def joined_def Let_def wait_queue_init_def WAIT_QUEUE_INITIAL_VALUE_def lock_free_def
        class_bits bit_or_bit32) (simp add: s1_def)
qed

theorem secondary_cpu_ok:
  assumes inv: "sched_inv s" and lf: "lock_free s" and r: "ready_cpu cpu s"
  shows "okE (\<lambda>s'. sched_inv s' \<and> lock_free s' \<and> runs_best cpu s')
    (bindE (thread_secondary_cpu_init_early cpu True s) (thread_secondary_cpu_entry cpu))"
proof (rule okE_bindI [OF secondary_init_ok [OF r lf]])
  fix s1 assume e: "entered cpu s s1"
  let ?t = "idle_threads s cpu"
  let ?s2 = "upd_thread ?t (\<lambda>th. th\<lparr>priority := IDLE_PRIORITY\<rparr>) (s1\<lparr>active_cpus := active_cpus s1 OR bit32 cpu\<rparr>)"
  let ?s3 = "mp_set_cpu_idle cpu (mp_set_curr_cpu_active cpu True (upd_thread ?t (\<lambda>th. th\<lparr>priority := IDLE_PRIORITY\<rparr>) s1))"
  have j: "joined cpu s ?s2" using e by (simp add: entered_def)
  have s3: "?s3 = ?s2\<lparr>idle_cpus := idle_cpus s1 OR bit32 cpu\<rparr>"
    by (simp add: mp_set_cpu_idle_def mp_set_curr_cpu_active_def upd_thread_def)
  have i: "sched_inv ?s3" "lock_free ?s3" "up ?s3 cpu"
    using joined_inv [OF inv j r] joined_frame(3) [OF j r, of cpu] j unfolding s3
    by (simp_all add: lock_free_def joined_def up_def Let_def)
  have "current s1 cpu = ?t" using j by (simp add: joined_def Let_def)
  then have "thread_secondary_cpu_entry cpu s1 = thread_yield cpu ?s3" by (simp add: thread_secondary_cpu_entry_def Let_def)
  moreover note thread_yield_ok [OF i]
  ultimately show "okE (\<lambda>s'. sched_inv s' \<and> lock_free s' \<and> runs_best cpu s') (thread_secondary_cpu_entry cpu s1)"
    by (auto elim: okE_mono)
qed

end
