(* ===== verification/Pow2.thy ===== *)
theory Pow2
  imports Prelude
begin

text \<open>
  Powers of two on 32-bit values (\<^verbatim>\<open>include/pow2.h\<close>), with what the callers expect of them in terms
  of division, logarithm and rounding.
\<close>

definition ispow2 :: "32 word \<Rightarrow> bool" where
  "ispow2 val \<longleftrightarrow> (val - 1) AND val = 0"

definition log2_uint :: "32 word \<Rightarrow> nat" where
  "log2_uint val = (if val = 0 then 0 else 31 - clz32 val)"

definition valpow2 :: "nat \<Rightarrow> 32 word" where
  "valpow2 valp2 = push_bit valp2 1"

definition divpow2 :: "32 word \<Rightarrow> nat \<Rightarrow> 32 word" where
  "divpow2 val divp2 = drop_bit divp2 val"

text \<open>The mask is computed in 64 bits and the result converted back.\<close>

definition modpow2 :: "32 word \<Rightarrow> nat \<Rightarrow> 32 word" where
  "modpow2 val modp2 = ucast ((ucast val :: 64 word) AND (push_bit modp2 1 - 1))"

definition smear :: "32 word \<Rightarrow> 32 word" where
  "smear v =
     (let v1 = v OR drop_bit 1 v; v2 = v1 OR drop_bit 2 v1; v3 = v2 OR drop_bit 4 v2; v4 = v3 OR drop_bit 8 v3
      in v4 OR drop_bit 16 v4)"

definition round_up_pow2_u32 :: "32 word \<Rightarrow> 32 word" where
  "round_up_pow2_u32 v = smear (v - 1) + 1"

section \<open>Correctness\<close>

lemma unat_valpow2: "p < 32 \<Longrightarrow> unat (valpow2 p) = 2 ^ p"
  unfolding valpow2_def unsigned_push_bit_eq by (simp add: take_bit_nat_eq_self)

lemma unat_divpow2: "unat (divpow2 v p) = unat v div 2 ^ p"
  unfolding divpow2_def unat_drop_bit_eq by (rule drop_bit_eq_div)

lemma unat_modpow2:
  assumes "p < 64"
  shows "unat (modpow2 v p) = unat v mod 2 ^ p"
proof -
  have m: "(push_bit p 1 - 1 :: 64 word) = mask p" by (simp add: mask_eq_exp_minus_1)
  have "modpow2 v p = take_bit p v"
    unfolding modpow2_def m using bit_imp_le_length [of v] by (auto simp: bit_eq_iff bit_simps)
  then show ?thesis by (simp only: unsigned_take_bit_eq) (simp add: take_bit_eq_mod)
qed

lemma log2_uint_bounds:
  assumes "v \<noteq> 0"
  shows "2 ^ log2_uint v \<le> unat v" "unat v < 2 ^ Suc (log2_uint v)" "log2_uint v < 32"
proof -
  note top = clz32_top_bit [OF assms]
  show "log2_uint v < 32" by (auto simp: log2_uint_def)
  have "bit (unat v) (log2_uint v)" using top(2) assms by (simp add: log2_uint_def bit_unsigned_iff)
  then have "\<not> unat v < 2 ^ log2_uint v"
    by (metis bit_take_bit_iff less_irrefl take_bit_nat_eq_self)
  then show "2 ^ log2_uint v \<le> unat v" by simp
  have "take_bit (Suc (log2_uint v)) (unat v) = unat v"
    using top(3) assms by (auto simp: bit_eq_iff bit_simps log2_uint_def less_Suc_eq_le)
  then show "unat v < 2 ^ Suc (log2_uint v)" by (metis take_bit_nat_less_exp)
qed

lemma bit_top: "2 ^ p \<le> unat v \<Longrightarrow> unat v < 2 ^ Suc p \<Longrightarrow> bit v p" for v :: "32 word"
proof -
  assume "2 ^ p \<le> unat v" "unat v < 2 ^ Suc p"
  then have "unat v div 2 ^ p = 1" by (simp add: div_nat_eqI)
  then have "bit (unat v) p" by (simp add: bit_iff_odd)
  then show ?thesis by (simp add: bit_unsigned_iff)
qed

text \<open>The test accepts 0 and the powers of two.\<close>

lemma ispow2_iff: "ispow2 v \<longleftrightarrow> v = 0 \<or> (\<exists>p < 32. v = valpow2 p)"
proof (cases "v = 0")
  case False
  let ?p = "log2_uint v"
  note b = log2_uint_bounds [OF False]
  have u: "unat (v - 1) = unat v - 1" using False by (simp add: unat_minus_one)
  show ?thesis
  proof (cases "v = valpow2 ?p")
    case True
    then have "v - 1 = mask ?p" by (simp add: valpow2_def mask_eq_exp_minus_1)
    then have "(v - 1) AND v = take_bit ?p (push_bit ?p 1)" using True
      by (simp add: valpow2_def take_bit_eq_mask ac_simps)
    then have "(v - 1) AND v = 0" by (simp only: take_bit_push_bit) simp
    with True b(3) show ?thesis by (auto simp: ispow2_def)
  next
    case ne: False
    then have "unat v \<noteq> 2 ^ ?p" using unat_valpow2 [OF b(3)] by (metis unsigned_word_eqI)
    then have "2 ^ ?p \<le> unat (v - 1)" "unat (v - 1) < 2 ^ Suc ?p" using b u by simp_all
    then have "bit ((v - 1) AND v) ?p" using b by (simp add: bit_and_iff bit_top)
    then have n: "\<not> ispow2 v" by (auto simp: ispow2_def)
    have "?p = q" if "v = valpow2 q" "q < 32" for q
    proof -
      have "unat v = 2 ^ q" using that unat_valpow2 by simp
      with b have "(2::nat) ^ ?p \<le> 2 ^ q" "(2::nat) ^ q < 2 ^ Suc ?p" by simp_all
      then have "?p \<le> q" "q < Suc ?p" by (simp_all add: power_strict_increasing_iff del: power_Suc)
      then show ?thesis by simp
    qed
    with ne have "\<not> (\<exists>p < 32. v = valpow2 p)" by (metis (full_types))
    with False n show ?thesis by simp
  qed
qed (simp add: ispow2_def)

lemma smear_step:
  fixes a v :: "32 word"
  assumes "\<And>i. bit a i \<longleftrightarrow> (\<exists>k < n. bit v (i + k))"
  shows "bit (a OR drop_bit n a) i \<longleftrightarrow> (\<exists>k < n + n. bit v (i + k))"
proof -
  have "bit (a OR drop_bit n a) i \<longleftrightarrow> (\<exists>k < n. bit v (i + k)) \<or> (\<exists>k < n. bit v (i + (n + k)))"
    by (simp add: bit_simps assms ac_simps)
  also have "\<dots> \<longleftrightarrow> (\<exists>k < n + n. bit v (i + k))"
  proof
    assume "\<exists>k < n + n. bit v (i + k)"
    then obtain k where k: "k < n + n" "bit v (i + k)" by blast
    show "(\<exists>k < n. bit v (i + k)) \<or> (\<exists>k < n. bit v (i + (n + k)))"
    proof (cases "k < n")
      case False
      with k have "k - n < n" "bit v (i + (n + (k - n)))" by simp_all
      then show ?thesis by blast
    qed (use k in blast)
  qed (auto intro: trans_less_add1 add_strict_left_mono)
  finally show ?thesis .
qed

lemma bit_smear: "bit (smear v) i \<longleftrightarrow> (\<exists>j \<ge> i. bit v j)"
proof -
  define v1 where "v1 = v OR drop_bit 1 v"
  define v2 where "v2 = v1 OR drop_bit 2 v1"
  define v3 where "v3 = v2 OR drop_bit 4 v2"
  define v4 where "v4 = v3 OR drop_bit 8 v3"
  have 1: "bit v1 i \<longleftrightarrow> (\<exists>k < 2. bit v (i + k))" for i using smear_step [of v 1 v i] by (simp add: v1_def numeral_2_eq_2)
  have 2: "bit v2 i \<longleftrightarrow> (\<exists>k < 4. bit v (i + k))" for i using smear_step [OF 1] by (simp add: v2_def)
  have 3: "bit v3 i \<longleftrightarrow> (\<exists>k < 8. bit v (i + k))" for i using smear_step [OF 2] by (simp add: v3_def)
  have 4: "bit v4 i \<longleftrightarrow> (\<exists>k < 16. bit v (i + k))" for i using smear_step [OF 3] by (simp add: v4_def)
  have "bit (smear v) i \<longleftrightarrow> (\<exists>k < 32. bit v (i + k))"
    using smear_step [OF 4, of i] by (simp add: smear_def Let_def v1_def v2_def v3_def v4_def)
  also have "\<dots> \<longleftrightarrow> (\<exists>j \<ge> i. bit v j)"
  proof
    assume "\<exists>j \<ge> i. bit v j"
    then obtain j where j: "i \<le> j" "bit v j" by blast
    then have "j < 32" using bit_imp_le_length by fastforce
    with j have "j - i < 32 \<and> bit v (i + (j - i))" by simp
    then show "\<exists>k < 32. bit v (i + k)" by blast
  qed (meson le_add1)
  finally show ?thesis .
qed

text \<open>Rounding up gives the least power of two not below the argument.\<close>

theorem round_up_pow2_ok:
  assumes "0 < v" "unat v \<le> 2 ^ 31"
  shows "\<exists>p < 32. round_up_pow2_u32 v = valpow2 p \<and> unat v \<le> 2 ^ p \<and> 2 ^ p < 2 * unat v"
proof (cases "v = 1")
  case True
  have "smear 0 = 0" by (simp add: smear_def)
  with True show ?thesis by (intro exI [of _ 0]) (simp add: round_up_pow2_u32_def valpow2_def)
next
  case False
  define x where "x = v - 1"
  have x: "x \<noteq> 0" "unat x = unat v - 1" using False assms(1) by (auto simp: x_def unat_minus_one)
  note b = log2_uint_bounds [OF x(1)]
  let ?p = "log2_uint x"
  have "unat v > 0" using assms(1) by (simp add: unat_gt_0 word_neq_0_conv)
  have "(2::nat) ^ ?p < 2 ^ 31" using b(1) x(2) assms(2) \<open>unat v > 0\<close> by linarith
  then have p: "Suc ?p < 32" by (simp only: power_strict_increasing_iff one_less_numeral_iff semiring_norm)
  have "bit (smear x) i \<longleftrightarrow> i < Suc ?p" for i
  proof -
    have "bit x ?p" by (rule bit_top [OF b(1,2)])
    moreover have "j \<le> ?p" if "bit x j" for j using clz32_top_bit(3) [OF x(1) that] x(1) by (simp add: log2_uint_def)
    ultimately show ?thesis unfolding bit_smear by (auto simp: less_Suc_eq_le intro: le_trans)
  qed
  then have "smear x = mask (Suc ?p)" using p by (auto simp: bit_eq_iff bit_simps)
  then have "round_up_pow2_u32 v = valpow2 (Suc ?p)"
    by (simp add: round_up_pow2_u32_def x_def valpow2_def mask_eq_exp_minus_1)
  then show ?thesis using p b x(2) \<open>unat v > 0\<close> by (intro exI [of _ "Suc ?p"]) auto
qed

end
