(* ===== verification/Ring.thy ===== *)
theory Ring
  imports Prelude
begin

text \<open>
  What the two ring buffers of the kernel share (\<^verbatim>\<open>lib/cbuf\<close> and the packet buffers of
  \<^verbatim>\<open>kernel/port.c\<close>): the list a ring holds between two indices, and the contract of a first-in
  first-out queue that accepts a prefix of what it is offered, with its consequence for whole
  histories of operations.
\<close>

section \<open>Slices of a ring\<close>

definition ring_slice :: "'a list \<Rightarrow> nat \<Rightarrow> nat \<Rightarrow> 'a list" where
  "ring_slice xs start n = map (\<lambda>i. xs ! ((start + i) mod length xs)) [0..<n]"

lemma length_ring_slice [simp]: "length (ring_slice xs start n) = n"
  by (simp add: ring_slice_def)

lemma nth_ring_slice [simp]: "i < n \<Longrightarrow> ring_slice xs start n ! i = xs ! ((start + i) mod length xs)"
  by (simp add: ring_slice_def)

lemma ring_slice_empty [simp]: "ring_slice xs start 0 = []"
  by (simp add: ring_slice_def)

lemma ring_slice_eq_Nil [simp]: "ring_slice xs start n = [] \<longleftrightarrow> n = 0"
  by (simp add: ring_slice_def)

lemma ring_slice_drop:
  "k \<le> n \<Longrightarrow> ring_slice xs ((start + k) mod length xs) (n - k) = drop k (ring_slice xs start n)"
  by (rule nth_equalityI) (simp_all add: mod_add_left_eq add.assoc)

lemma ring_slice_take: "k \<le> n \<Longrightarrow> take k (ring_slice xs start n) = ring_slice xs start k"
  by (rule nth_equalityI) simp_all

lemma ring_slice_linear:
  "start + n \<le> length xs \<Longrightarrow> ring_slice xs start n = take n (drop start xs)"
  by (rule nth_equalityI) simp_all

text \<open>A slice that wraps around is the end of the array and then its beginning.\<close>

lemma ring_slice_wrap:
  assumes "start < length xs" "n \<le> length xs" "length xs \<le> start + n"
  shows "ring_slice xs start n = drop start xs @ take (start + n - length xs) xs"
proof (rule nth_equalityI)
  fix i assume "i < length (ring_slice xs start n)"
  with assms show "ring_slice xs start n ! i = (drop start xs @ take (start + n - length xs) xs) ! i"
    by (auto simp: nth_append mod_if ac_simps)
qed (use assms in simp)

text \<open>Writing past the end of a slice extends it, as long as the ring does not overflow.\<close>

lemma ring_slice_extend:
  assumes len: "length ys = length xs" and room: "n + length bs \<le> length xs"
    and new: "\<And>i. i < length bs \<Longrightarrow> ys ! ((start + n + i) mod length xs) = bs ! i"
    and old: "\<And>i. i < n \<Longrightarrow> ys ! ((start + i) mod length xs) = xs ! ((start + i) mod length xs)"
  shows "ring_slice ys start (n + length bs) = ring_slice xs start n @ bs"
proof (rule nth_equalityI)
  fix i assume i: "i < length (ring_slice ys start (n + length bs))"
  show "ring_slice ys start (n + length bs) ! i = (ring_slice xs start n @ bs) ! i"
  proof (cases "i < n")
    case True
    with i old [OF True] len show ?thesis by (simp add: nth_append)
  next
    case False
    with i new [of "i - n"] len show ?thesis by (simp add: nth_append)
  qed
qed simp

text \<open>Two positions of a ring that are less than its length apart are different.\<close>

lemma mod_add_cancel_left_nat: "(a + b) mod m = (a + c) mod m \<Longrightarrow> b mod m = c mod (m :: nat)"
  by (simp add: nat_mod_eq_iff)

lemma ring_pos_inj:
  "(start + i) mod m = (start + j) mod m \<Longrightarrow> i < m \<Longrightarrow> j < m \<Longrightarrow> i = (j :: nat)"
proof -
  assume e: "(start + i) mod m = (start + j) mod m" and "i < m" "j < m"
  from e have "i mod m = j mod m" by (rule mod_add_cancel_left_nat)
  with \<open>i < m\<close> \<open>j < m\<close> show ?thesis by simp
qed

section \<open>First-in first-out queues\<close>

text \<open>
  \<open>put xs q\<close> offers \<open>xs\<close> and returns how many of its first elements were taken; \<open>get n q\<close> asks for
  up to \<open>n\<close> elements.
\<close>

locale fifo =
  fixes inv :: "'q \<Rightarrow> bool" and contents :: "'q \<Rightarrow> 'a list" and capacity :: "'q \<Rightarrow> nat"
    and put :: "'a list \<Rightarrow> 'q \<Rightarrow> nat \<times> 'q" and get :: "nat \<Rightarrow> 'q \<Rightarrow> 'a list \<times> 'q"
  assumes bounded: "inv q \<Longrightarrow> length (contents q) \<le> capacity q"
    and put_law: "inv q \<Longrightarrow> put xs q = (n, q') \<Longrightarrow>
      inv q' \<and> capacity q' = capacity q \<and> n \<le> length xs \<and> contents q' = contents q @ take n xs"
    and put_room: "inv q \<Longrightarrow> put xs q = (n, q') \<Longrightarrow>
      length (contents q) + length xs \<le> capacity q \<Longrightarrow> n = length xs"
    and get_law: "inv q \<Longrightarrow> get n q = (ys, q') \<Longrightarrow>
      inv q' \<and> capacity q' = capacity q \<and> ys = take n (contents q) \<and> contents q' = drop n (contents q)"
begin

text \<open>
  A history is a list of offers (\<open>Inl xs\<close>) and requests (\<open>Inr n\<close>); running one collects what was
  accepted and what was delivered.
\<close>

fun run :: "('a list + nat) list \<Rightarrow> 'q \<Rightarrow> 'a list \<times> 'a list \<times> 'q" where
  "run [] q = ([], [], q)"
| "run (Inl xs # h) q = (case put xs q of (n, q1) \<Rightarrow> case run h q1 of (a, d, q2) \<Rightarrow> (take n xs @ a, d, q2))"
| "run (Inr n # h) q = (case get n q of (ys, q1) \<Rightarrow> case run h q1 of (a, d, q2) \<Rightarrow> (a, ys @ d, q2))"

lemma run_fifo:
  "inv q \<Longrightarrow> run h q = (accepted, delivered, q') \<Longrightarrow>
    inv q' \<and> capacity q' = capacity q \<and> contents q @ accepted = delivered @ contents q'"
proof (induction h q arbitrary: accepted delivered q' rule: run.induct)
  case (2 xs h q)
  then show ?case by (fastforce split: prod.splits dest: put_law)
next
  case (3 n h q)
  obtain ys q1 where g: "get n q = (ys, q1)" by fastforce
  obtain a d q2 where r: "run h q1 = (a, d, q2)" by (cases "run h q1") auto
  from get_law [OF 3(2) g] 3(1) [OF g [symmetric] _ r] 3(3) g r
  have "inv q2" "capacity q2 = capacity q" "contents q1 @ a = d @ contents q2" "ys @ contents q1 = contents q"
    "accepted = a" "delivered = ys @ d" "q' = q2" by auto
  then show ?case by (metis append_assoc)
qed simp

text \<open>What is offered to a queue with room for it and then asked for comes back behind what was there.\<close>

lemma put_get:
  assumes q: "inv q" "length (contents q) + length xs \<le> capacity q"
    and p: "put xs q = (n, q1)" and g: "get (length (contents q) + length xs) q1 = (ys, q2)"
  shows "ys = contents q @ xs \<and> contents q2 = []"
  using put_law [OF q(1) p] put_room [OF q(1) p q(2)] get_law [OF _ g] by simp

end

end
