(* ===== verification/Cbuf.thy ===== *)
theory Cbuf
  imports Event Pow2 Ring
begin

text \<open>
  The circular byte buffer (\<^verbatim>\<open>lib/cbuf/cbuf.c\<close>): a ring of \<^verbatim>\<open>2^len_pow2\<close> bytes that holds at most
  one less, with an event that is signalled while there is something to read. The spin lock of the
  buffer makes each critical section one step. A \<^verbatim>\<open>NULL\<close> source buffer is \<open>None\<close>; the bytes copied
  to the destination of a read are part of the result.
\<close>

record cbuf =
  cb_head :: "32 word"
  cb_tail :: "32 word"
  cb_len_pow2 :: nat
  cb_buf :: "8 word list"
  cb_event :: event

section \<open>Operations\<close>

definition inc_pointer :: "cbuf \<Rightarrow> 32 word \<Rightarrow> nat \<Rightarrow> 32 word" where
  "inc_pointer cb ptr inc = modpow2 (ptr + of_nat inc) (cb_len_pow2 cb)"

definition cbuf_initialize_etc :: "nat \<Rightarrow> 64 word \<Rightarrow> 8 word list \<Rightarrow> kstate \<Rightarrow> (cbuf \<times> kstate) res" where
  "cbuf_initialize_etc i len buf s =
     guardE ''len > 0'' (len > 0)
     (guardE ''len a power of two'' (ispow2 (ucast len))
       (let (ev, s1) = event_init i False 0 s
        in Inr (\<lparr>cb_head = 0, cb_tail = 0, cb_len_pow2 = log2_uint (ucast len), cb_buf = buf, cb_event = ev\<rparr>, s1)))"

text \<open>What \<^verbatim>\<open>malloc\<close> returns is the argument \<open>mem\<close>.\<close>

definition cbuf_initialize :: "nat \<Rightarrow> 64 word \<Rightarrow> 8 word list \<Rightarrow> kstate \<Rightarrow> (cbuf \<times> kstate) res" where
  "cbuf_initialize i len mem s = cbuf_initialize_etc i len mem s"

definition cbuf_size :: "cbuf \<Rightarrow> nat" where
  "cbuf_size cb = unat (push_bit (cb_len_pow2 cb) 1 :: 64 word)"

definition cbuf_space_avail :: "cbuf \<Rightarrow> nat" where
  "cbuf_space_avail cb =
     (let consumed = modpow2 (cb_head cb - cb_tail cb) (cb_len_pow2 cb)
      in unat (valpow2 (cb_len_pow2 cb) - consumed - 1))"

definition cbuf_space_used :: "cbuf \<Rightarrow> nat" where
  "cbuf_space_used cb = unat (modpow2 (cb_head cb - cb_tail cb) (cb_len_pow2 cb))"

text \<open>\<^verbatim>\<open>memcpy(buf + off, bs, ...)\<close>.\<close>

definition mem_write :: "nat \<Rightarrow> 8 word list \<Rightarrow> 8 word list \<Rightarrow> 8 word list" where
  "mem_write off bs buf = take off buf @ bs @ drop (off + length bs) buf"

definition write_len :: "cbuf \<Rightarrow> nat \<Rightarrow> nat" where
  "write_len cb rest =
     (if cb_head cb \<ge> cb_tail cb then
        if cb_tail cb = 0 then min (unat (valpow2 (cb_len_pow2 cb) - cb_head cb - 1)) rest
        else min (unat (valpow2 (cb_len_pow2 cb) - cb_head cb)) rest
      else min (unat (cb_tail cb - cb_head cb - 1)) rest)"

function write_loop :: "8 word list \<Rightarrow> nat \<Rightarrow> cbuf \<Rightarrow> nat \<times> cbuf" where
  "write_loop data pos cb =
     (if pos < length data \<and> cbuf_space_avail cb > 0 then
        let wl = write_len cb (length data - pos)
        in if wl = 0 then (pos, cb)
           else write_loop data (pos + wl)
             (cb\<lparr>cb_buf := mem_write (unat (cb_head cb)) (take wl (drop pos data)) (cb_buf cb),
                 cb_head := inc_pointer cb (cb_head cb) wl\<rparr>)
      else (pos, cb))"
  by pat_completeness auto
termination
  by (relation "measure (\<lambda>(data, pos, cb). length data - pos)") auto

declare write_loop.simps [simp del]

definition source_bytes :: "8 word list option \<Rightarrow> nat \<Rightarrow> 8 word list" where
  "source_bytes buf len = (case buf of None \<Rightarrow> replicate len 0 | Some bs \<Rightarrow> take len bs)"

definition signal_readers :: "cpu_num \<Rightarrow> bool \<Rightarrow> cbuf \<Rightarrow> kstate \<Rightarrow> (cbuf \<times> kstate) res" where
  "signal_readers cpu canreschedule cb s =
     (if cb_head cb \<noteq> cb_tail cb
      then bindE (event_signal cpu canreschedule (cb_event cb) s) (\<lambda>(ev, _, s1). Inr (cb\<lparr>cb_event := ev\<rparr>, s1))
      else Inr (cb, s))"

definition cbuf_write ::
    "cpu_num \<Rightarrow> 8 word list option \<Rightarrow> nat \<Rightarrow> bool \<Rightarrow> cbuf \<Rightarrow> kstate \<Rightarrow> (nat \<times> cbuf \<times> kstate) res" where
  "cbuf_write cpu buf len canreschedule cb s =
     guardE ''len < size'' (len < unat (valpow2 (cb_len_pow2 cb)))
      (let (pos, cb1) = write_loop (source_bytes buf len) 0 cb
       in bindE (signal_readers cpu False cb1 s)
         (\<lambda>(cb2, s1). bindE (if canreschedule then thread_preempt cpu s1 else Inr s1)
           (\<lambda>s2. Inr (pos, cb2, s2))))"

definition read_len :: "cbuf \<Rightarrow> nat \<Rightarrow> nat" where
  "read_len cb rest =
     (if cb_head cb > cb_tail cb then min (unat (cb_head cb - cb_tail cb)) rest
      else min (unat (valpow2 (cb_len_pow2 cb) - cb_tail cb)) rest)"

text \<open>The copying loop. On a buffer whose \<^verbatim>\<open>tail\<close> is out of range it would not end.\<close>

partial_function (option) read_loop :: "nat \<Rightarrow> nat \<Rightarrow> 8 word list \<Rightarrow> cbuf \<Rightarrow> (nat \<times> 8 word list \<times> cbuf) option" where
  "read_loop buflen pos acc cb =
     (if pos < buflen \<and> cb_tail cb \<noteq> cb_head cb then
        read_loop buflen (pos + read_len cb (buflen - pos))
          (acc @ take (read_len cb (buflen - pos)) (drop (unat (cb_tail cb)) (cb_buf cb)))
          (cb\<lparr>cb_tail := inc_pointer cb (cb_tail cb) (read_len cb (buflen - pos))\<rparr>)
      else Some (pos, acc, cb))"

text \<open>Unsignal the event if the buffer is now empty.\<close>

definition unsignal_empty :: "cbuf \<Rightarrow> cbuf res" where
  "unsignal_empty cb =
     (if cb_tail cb = cb_head cb
      then bindE (event_unsignal (cb_event cb)) (\<lambda>(ev, _). Inr (cb\<lparr>cb_event := ev\<rparr>)) else Inr cb)"

text \<open>The critical section of \<^verbatim>\<open>cbuf_read\<close>.\<close>

definition read_locked :: "nat \<Rightarrow> cbuf \<Rightarrow> (nat \<times> 8 word list \<times> cbuf) res option" where
  "read_locked buflen cb =
     (if cb_tail cb \<noteq> cb_head cb then
        case read_loop buflen 0 [] cb of
          None \<Rightarrow> None
        | Some (pos, bs, cb1) \<Rightarrow>
            Some (guardE ''pos > 0'' (cb_tail cb1 = cb_head cb1 \<longrightarrow> pos > 0)
              (bindE (unsignal_empty cb1) (\<lambda>cb2. Inr (pos, bs, cb2))))
      else Some (Inr (0, [], cb)))"

partial_function (option) cbuf_read ::
    "cpu_num \<Rightarrow> nat \<Rightarrow> bool \<Rightarrow> cbuf \<Rightarrow> kstate \<Rightarrow> (cbuf \<times> (nat \<times> 8 word list) call) res option" where
  "cbuf_read cpu buflen block cb s =
     (case (if block then event_wait_timeout cpu INFINITE_TIME (cb_event cb) s else Inr (cb_event cb, Return 0 s)) of
        Inl e \<Rightarrow> Some (Inl e)
      | Inr (ev, Switched_out s1) \<Rightarrow> Some (Inr (cb\<lparr>cb_event := ev\<rparr>, Switched_out s1))
      | Inr (ev, Return r s1) \<Rightarrow>
          Option.bind (read_locked buflen (cb\<lparr>cb_event := ev\<rparr>))
            (\<lambda>m. case m of
               Inl e \<Rightarrow> Some (Inl e)
             | Inr (n, bs, cb1) \<Rightarrow>
                 if block \<and> n = 0 then cbuf_read cpu buflen block cb1 s1
                 else Some (Inr (cb1, Return (n, bs) s1))))"

text \<open>The rest of a blocking read, once the thread runs again.\<close>

definition cbuf_read_resume ::
    "cpu_num \<Rightarrow> nat \<Rightarrow> cbuf \<Rightarrow> kstate \<Rightarrow> (cbuf \<times> (nat \<times> 8 word list) call) res option" where
  "cbuf_read_resume cpu buflen cb s =
     (case event_wait_resume cpu INFINITE_TIME s of
        Inl e \<Rightarrow> Some (Inl e)
      | Inr (Switched_out s1) \<Rightarrow> Some (Inr (cb, Switched_out s1))
      | Inr (Return r s1) \<Rightarrow>
          Option.bind (read_locked buflen cb)
            (\<lambda>m. case m of
               Inl e \<Rightarrow> Some (Inl e)
             | Inr (n, bs, cb1) \<Rightarrow>
                 if n = 0 then cbuf_read cpu buflen True cb1 s1 else Some (Inr (cb1, Return (n, bs) s1))))"

text \<open>An \<^verbatim>\<open>iovec\<close> as the offset in the buffer, if any, and the length.\<close>

definition cbuf_peek :: "cbuf \<Rightarrow> (nat \<times> (nat option \<times> nat) \<times> (nat option \<times> nat)) res" where
  "cbuf_peek cb =
     (let ret = cbuf_space_used cb; sz = cbuf_size cb; tail = unat (cb_tail cb);
          base = (if ret \<noteq> 0 then Some tail else None)
      in guardE ''tail < size'' (tail < sz)
        (guardE ''used <= size'' (ret \<le> sz)
          (Inr (if ret + tail > sz then (ret, (base, sz - tail), (Some 0, ret - (sz - tail)))
                else (ret, (base, ret), (None, 0))))))"

definition cbuf_write_char :: "cpu_num \<Rightarrow> 8 word \<Rightarrow> bool \<Rightarrow> cbuf \<Rightarrow> kstate \<Rightarrow> (nat \<times> cbuf \<times> kstate) res" where
  "cbuf_write_char cpu c canreschedule cb s =
     (if cbuf_space_avail cb > 0 then
        let cb1 = cb\<lparr>cb_buf := (cb_buf cb)[unat (cb_head cb) := c], cb_head := inc_pointer cb (cb_head cb) 1\<rparr>
        in bindE (signal_readers cpu canreschedule cb1 s) (\<lambda>(cb2, s1). Inr (1, cb2, s1))
      else Inr (0, cb, s))"

definition read_char_locked :: "cbuf \<Rightarrow> (8 word option \<times> cbuf) res" where
  "read_char_locked cb =
     (if cb_tail cb \<noteq> cb_head cb then
        let c = cb_buf cb ! unat (cb_tail cb)
        in bindE (unsignal_empty (cb\<lparr>cb_tail := inc_pointer cb (cb_tail cb) 1\<rparr>)) (\<lambda>cb1. Inr (Some c, cb1))
      else Inr (None, cb))"

partial_function (option) cbuf_read_char ::
    "cpu_num \<Rightarrow> bool \<Rightarrow> cbuf \<Rightarrow> kstate \<Rightarrow> (cbuf \<times> 8 word option call) res option" where
  "cbuf_read_char cpu block cb s =
     (case (if block then event_wait_timeout cpu INFINITE_TIME (cb_event cb) s else Inr (cb_event cb, Return 0 s)) of
        Inl e \<Rightarrow> Some (Inl e)
      | Inr (ev, Switched_out s1) \<Rightarrow> Some (Inr (cb\<lparr>cb_event := ev\<rparr>, Switched_out s1))
      | Inr (ev, Return r s1) \<Rightarrow>
          (case read_char_locked (cb\<lparr>cb_event := ev\<rparr>) of
             Inl e \<Rightarrow> Some (Inl e)
           | Inr (c, cb1) \<Rightarrow>
               if block \<and> c = None then cbuf_read_char cpu block cb1 s1 else Some (Inr (cb1, Return c s1))))"

definition cbuf_reset :: "cpu_num \<Rightarrow> cbuf \<Rightarrow> kstate \<Rightarrow> (cbuf \<times> (nat \<times> 8 word list) call) res option" where
  "cbuf_reset cpu cb s = cbuf_read cpu (cbuf_size cb) False cb s"

section \<open>The buffer as a queue\<close>

definition cbuf_ok :: "cbuf \<Rightarrow> bool" where
  "cbuf_ok cb \<longleftrightarrow> cb_len_pow2 cb < 32 \<and> length (cb_buf cb) = 2 ^ cb_len_pow2 cb \<and>
     unat (cb_head cb) < 2 ^ cb_len_pow2 cb \<and> unat (cb_tail cb) < 2 ^ cb_len_pow2 cb"

definition cbuf_contents :: "cbuf \<Rightarrow> 8 word list" where
  "cbuf_contents cb = ring_slice (cb_buf cb) (unat (cb_tail cb)) (cbuf_space_used cb)"

lemma unat_inc_pointer:
  "p < 32 \<Longrightarrow> cb_len_pow2 cb = p \<Longrightarrow> unat (inc_pointer cb ptr n) = (unat ptr + n) mod 2 ^ p"
proof -
  assume p: "p < 32" "cb_len_pow2 cb = p"
  have "unat (ptr + of_nat n) = (unat ptr + n) mod 2 ^ 32"
    by (simp add: unat_word_ariths unat_of_nat mod_add_right_eq)
  moreover have "(2 :: nat) ^ p dvd 2 ^ 32" using p(1) by (intro le_imp_power_dvd) simp
  ultimately show ?thesis using p by (simp add: inc_pointer_def unat_modpow2 mod_mod_cancel)
qed

text \<open>The number of bytes held, also when \<^verbatim>\<open>head\<close> has wrapped around.\<close>

lemma used_eq:
  assumes "cbuf_ok cb"
  shows "cbuf_space_used cb =
    (if cb_tail cb \<le> cb_head cb then unat (cb_head cb) - unat (cb_tail cb)
     else unat (cb_head cb) + 2 ^ cb_len_pow2 cb - unat (cb_tail cb))"
proof -
  let ?p = "cb_len_pow2 cb" and ?h = "unat (cb_head cb)" and ?t = "unat (cb_tail cb)"
  from assms have p: "?p < 32" "?h < 2 ^ ?p" "?t < 2 ^ ?p" by (simp_all add: cbuf_ok_def)
  have m: "cbuf_space_used cb = unat (cb_head cb - cb_tail cb) mod 2 ^ ?p"
    using p(1) by (simp add: cbuf_space_used_def unat_modpow2)
  show ?thesis
  proof (cases "cb_tail cb \<le> cb_head cb")
    case True
    with m p show ?thesis by (simp add: unat_sub word_le_nat_alt)
  next
    case False
    then have lt: "?h < ?t" by (simp add: word_le_nat_alt)
    have "unat (cb_head cb - cb_tail cb) = 2 ^ 32 + ?h - ?t"
      using lt by (simp add: unat_sub_if_size word_size)
    also have "\<dots> = (2 ^ ?p + ?h - ?t) + (2 ^ 32 - 2 ^ ?p)" using lt p power_increasing [of ?p 32 "2::nat"] by simp
    finally have "unat (cb_head cb - cb_tail cb) = (2 ^ ?p + ?h - ?t) + (2 ^ 32 - 2 ^ ?p)" .
    moreover have "(2 :: nat) ^ ?p dvd 2 ^ 32 - 2 ^ ?p"
      by (intro dvd_diff_nat le_imp_power_dvd) (use p(1) in simp_all)
    ultimately have "cbuf_space_used cb = (2 ^ ?p + ?h - ?t) mod 2 ^ ?p" using m
      by (metis (no_types) dvd_imp_mod_0 mod_add_right_eq add_0_right)
    with False lt p show ?thesis by (simp add: add.commute)
  qed
qed

lemma used_bound: "cbuf_ok cb \<Longrightarrow> cbuf_space_used cb < 2 ^ cb_len_pow2 cb"
  by (simp add: cbuf_space_used_def unat_modpow2 cbuf_ok_def)

lemma avail_eq: "cbuf_ok cb \<Longrightarrow> cbuf_space_avail cb = 2 ^ cb_len_pow2 cb - 1 - cbuf_space_used cb"
proof -
  assume ok: "cbuf_ok cb"
  let ?c = "modpow2 (cb_head cb - cb_tail cb) (cb_len_pow2 cb)" and ?v = "valpow2 (cb_len_pow2 cb)"
  from ok have v: "unat ?v = 2 ^ cb_len_pow2 cb" by (simp add: unat_valpow2 cbuf_ok_def)
  from used_bound [OF ok] have c: "unat ?c < unat ?v" by (simp add: v cbuf_space_used_def)
  then have "unat (?v - ?c) = unat ?v - unat ?c" by (intro unat_sub) (simp add: word_le_nat_alt)
  moreover from this c have "unat (?v - ?c - 1) = unat (?v - ?c) - 1"
    by (intro unat_minus_one) auto
  ultimately show ?thesis by (simp add: cbuf_space_avail_def cbuf_space_used_def Let_def v)
qed

lemma used_0_iff: "cbuf_ok cb \<Longrightarrow> cbuf_space_used cb = 0 \<longleftrightarrow> cb_tail cb = cb_head cb"
  by (simp add: used_eq) (auto simp: cbuf_ok_def word_le_nat_alt word_unat_eq_iff)

lemma empty_iff: "cbuf_ok cb \<Longrightarrow> cbuf_contents cb = [] \<longleftrightarrow> cb_tail cb = cb_head cb"
  by (simp add: cbuf_contents_def used_0_iff)

lemma contents_length: "length (cbuf_contents cb) = cbuf_space_used cb"
  by (simp add: cbuf_contents_def)


text \<open>The state after one pass of the copying loops.\<close>

definition pushed :: "8 word list \<Rightarrow> cbuf \<Rightarrow> cbuf" where
  "pushed bs cb = cb\<lparr>cb_buf := mem_write (unat (cb_head cb)) bs (cb_buf cb),
     cb_head := inc_pointer cb (cb_head cb) (length bs)\<rparr>"

definition popped :: "nat \<Rightarrow> cbuf \<Rightarrow> cbuf" where
  "popped n cb = cb\<lparr>cb_tail := inc_pointer cb (cb_tail cb) n\<rparr>"

lemma pushed_simps [simp]:
  "cb_len_pow2 (pushed bs cb) = cb_len_pow2 cb" "cb_tail (pushed bs cb) = cb_tail cb"
  "cb_event (pushed bs cb) = cb_event cb"
  by (simp_all add: pushed_def)

lemma popped_simps [simp]:
  "cb_len_pow2 (popped n cb) = cb_len_pow2 cb" "cb_head (popped n cb) = cb_head cb"
  "cb_buf (popped n cb) = cb_buf cb" "cb_event (popped n cb) = cb_event cb"
  by (simp_all add: popped_def)

lemma length_mem_write: "off + length bs \<le> length buf \<Longrightarrow> length (mem_write off bs buf) = length buf"
  by (simp add: mem_write_def)

lemma nth_mem_write:
  "off + length bs \<le> length buf \<Longrightarrow> i < length buf \<Longrightarrow>
    mem_write off bs buf ! i = (if off \<le> i \<and> i < off + length bs then bs ! (i - off) else buf ! i)"
  by (auto simp: mem_write_def nth_append min_def not_less intro!: arg_cong [of _ _ "(!) buf"])

text \<open>Where \<^verbatim>\<open>head\<close> is on the ring, counted from \<^verbatim>\<open>tail\<close>.\<close>

lemma head_pos: "cbuf_ok cb \<Longrightarrow> unat (cb_head cb) = (unat (cb_tail cb) + cbuf_space_used cb) mod 2 ^ cb_len_pow2 cb"
  by (auto simp: used_eq cbuf_ok_def word_le_nat_alt)

lemma pushed_used:
  assumes ok: "cbuf_ok cb" and room: "cbuf_space_used cb + length bs < 2 ^ cb_len_pow2 cb"
    and fits: "unat (cb_head cb) + length bs \<le> 2 ^ cb_len_pow2 cb"
  shows "cbuf_ok (pushed bs cb)" "cbuf_space_used (pushed bs cb) = cbuf_space_used cb + length bs"
proof -
  let ?m = "2 ^ cb_len_pow2 cb :: nat" and ?n = "cbuf_space_used cb + length bs" and ?t = "unat (cb_tail cb)"
  from ok have p: "cb_len_pow2 cb < 32" "length (cb_buf cb) = ?m" "?t < ?m" by (simp_all add: cbuf_ok_def)
  have h: "unat (cb_head (pushed bs cb)) = (?t + ?n) mod ?m"
    using p(1) by (simp add: pushed_def unat_inc_pointer head_pos [OF ok] mod_add_left_eq add.assoc)
  show ok': "cbuf_ok (pushed bs cb)"
    using p h fits by (simp add: cbuf_ok_def) (simp add: pushed_def length_mem_write)
  from head_pos [OF ok'] h have "(?t + cbuf_space_used (pushed bs cb)) mod ?m = (?t + ?n) mod ?m" by simp
  then show "cbuf_space_used (pushed bs cb) = ?n"
    by (rule ring_pos_inj) (use used_bound [OF ok'] room in simp_all)
qed

lemma pushed_ok:
  assumes ok: "cbuf_ok cb" and room: "cbuf_space_used cb + length bs < 2 ^ cb_len_pow2 cb"
    and fits: "unat (cb_head cb) + length bs \<le> 2 ^ cb_len_pow2 cb"
  shows "cbuf_contents (pushed bs cb) = cbuf_contents cb @ bs"
proof -
  let ?m = "2 ^ cb_len_pow2 cb :: nat" and ?n = "cbuf_space_used cb" and ?t = "unat (cb_tail cb)"
    and ?h = "unat (cb_head cb)"
  note hp = head_pos [OF ok]
  from ok have p: "length (cb_buf cb) = ?m" by (simp add: cbuf_ok_def)
  have buf: "cb_buf (pushed bs cb) = mem_write ?h bs (cb_buf cb)" by (simp add: pushed_def)
  have "ring_slice (cb_buf (pushed bs cb)) ?t (?n + length bs) = ring_slice (cb_buf cb) ?t ?n @ bs"
  proof (rule ring_slice_extend)
    show "length (cb_buf (pushed bs cb)) = length (cb_buf cb)" using p fits by (simp add: buf length_mem_write)
    show "?n + length bs \<le> length (cb_buf cb)" using p room by simp
  next
    fix i assume i: "i < length bs"
    have "(?t + ?n + i) mod ?m = (?h + i) mod ?m" unfolding hp by (simp only: mod_add_left_eq)
    then have "(?t + ?n + i) mod ?m = ?h + i" using i fits by simp
    then show "cb_buf (pushed bs cb) ! ((?t + ?n + i) mod length (cb_buf cb)) = bs ! i"
      using i p fits by (simp add: buf nth_mem_write)
  next
    fix i assume i: "i < ?n"
    let ?j = "(?t + i) mod ?m"
    have "\<not> (?h \<le> ?j \<and> ?j < ?h + length bs)"
    proof
      assume "?h \<le> ?j \<and> ?j < ?h + length bs"
      then obtain k where k: "?j = ?h + k" "k < length bs" by (metis le_iff_add nat_add_left_cancel_less)
      have "(?t + ?n + k) mod ?m = (?h + k) mod ?m" unfolding hp by (simp only: mod_add_left_eq)
      then have "?j mod ?m = (?t + ?n + k) mod ?m" by (simp only: k(1))
      then have "?j = (?t + (?n + k)) mod ?m" by (simp add: add.assoc)
      then have "i = ?n + k" by (intro ring_pos_inj [of ?t i ?m]) (use i k room in \<open>simp_all add: add.assoc\<close>)
      with i show False by simp
    qed
    then show "cb_buf (pushed bs cb) ! ((?t + i) mod length (cb_buf cb)) = cb_buf cb ! ((?t + i) mod length (cb_buf cb))"
      using p fits by (auto simp: buf nth_mem_write)
  qed
  then show ?thesis using pushed_used [OF assms] by (simp add: cbuf_contents_def)
qed

lemma popped_ok:
  assumes ok: "cbuf_ok cb" and n: "n \<le> cbuf_space_used cb"
  shows "cbuf_ok (popped n cb)" "cbuf_contents (popped n cb) = drop n (cbuf_contents cb)"
proof -
  let ?m = "2 ^ cb_len_pow2 cb :: nat" and ?t = "unat (cb_tail cb)" and ?u = "cbuf_space_used cb"
  from ok have p: "cb_len_pow2 cb < 32" "length (cb_buf cb) = ?m" by (simp_all add: cbuf_ok_def)
  have t: "unat (cb_tail (popped n cb)) = (?t + n) mod ?m" using p by (simp add: popped_def unat_inc_pointer)
  show ok': "cbuf_ok (popped n cb)" using ok t by (simp add: cbuf_ok_def)
  have "(?t + n + cbuf_space_used (popped n cb)) mod ?m = (?t + n + (?u - n)) mod ?m"
    using head_pos [OF ok'] head_pos [OF ok] n by (simp add: t mod_add_left_eq)
  then have "cbuf_space_used (popped n cb) = ?u - n"
    by (rule ring_pos_inj) (use used_bound [OF ok'] used_bound [OF ok] in simp_all)
  then show "cbuf_contents (popped n cb) = drop n (cbuf_contents cb)"
    using ring_slice_drop [OF n, of "cb_buf cb" ?t] p by (simp add: cbuf_contents_def t)
qed


section \<open>The copying loops\<close>

text \<open>One pass writes as much as fits before the end of the array.\<close>

lemma write_len_ok:
  assumes ok: "cbuf_ok cb" and l: "l = write_len cb rest"
  shows "l \<le> rest" "cbuf_space_used cb + l < 2 ^ cb_len_pow2 cb" "unat (cb_head cb) + l \<le> 2 ^ cb_len_pow2 cb"
    "0 < rest \<Longrightarrow> 0 < cbuf_space_avail cb \<Longrightarrow> 0 < l"
proof -
  let ?m = "2 ^ cb_len_pow2 cb :: nat" and ?t = "unat (cb_tail cb)" and ?h = "unat (cb_head cb)"
    and ?v = "valpow2 (cb_len_pow2 cb)"
  from ok have b: "?h < ?m" "?t < ?m" "unat ?v = ?m" by (simp_all add: cbuf_ok_def unat_valpow2)
  have vh: "unat (?v - cb_head cb) = ?m - ?h" using b by (simp add: unat_sub word_le_nat_alt)
  then have vh1: "unat (?v - cb_head cb - 1) = ?m - ?h - 1" using b by (subst unat_minus_one) auto
  have th: "unat (cb_tail cb - cb_head cb - 1) = ?t - ?h - 1" if "cb_head cb < cb_tail cb"
  proof -
    have e: "unat (cb_tail cb - cb_head cb) = ?t - ?h" using that by (simp add: unat_sub)
    with that show ?thesis by (subst unat_minus_one) (auto simp: word_less_nat_alt)
  qed
  have t0: "cb_tail cb = 0 \<longleftrightarrow> ?t = 0" by (simp add: unat_eq_0)
  have l': "l = (if ?t \<le> ?h then if ?t = 0 then min (?m - ?h - 1) rest else min (?m - ?h) rest
                 else min (?t - ?h - 1) rest)"
    unfolding l write_len_def using th by (simp add: vh vh1 t0 word_le_nat_alt word_less_nat_alt)
  show "l \<le> rest" by (simp add: l')
  note u = used_eq [OF ok, unfolded word_le_nat_alt]
  show "cbuf_space_used cb + l < ?m" using b by (auto simp: u l')
  show "?h + l \<le> ?m" using b by (auto simp: l')
  show "0 < l" if "0 < rest" "0 < cbuf_space_avail cb"
    using that b unfolding avail_eq [OF ok] by (auto simp: u l' split: if_splits)
qed

lemma write_step:
  "write_loop data pos cb =
     (if pos < length data \<and> cbuf_space_avail cb > 0 then
        let wl = write_len cb (length data - pos)
        in if wl = 0 then (pos, cb) else write_loop data (pos + wl) (pushed (take wl (drop pos data)) cb)
      else (pos, cb))"
proof -
  have "write_len cb r \<le> r" for r by (simp add: write_len_def)
  then have "min (length data - pos) (write_len cb (length data - pos)) = write_len cb (length data - pos)"
    by (simp add: min.absorb2)
  then show ?thesis by (subst write_loop.simps) (simp add: pushed_def Let_def)
qed

lemma write_loop_ok:
  assumes "cbuf_ok cb" "pos \<le> length data"
  shows "\<exists>n cb'. write_loop data pos cb = (pos + n, cb') \<and> n = min (length data - pos) (cbuf_space_avail cb) \<and>
    cbuf_ok cb' \<and> cbuf_contents cb' = cbuf_contents cb @ take n (drop pos data) \<and>
    cb_len_pow2 cb' = cb_len_pow2 cb \<and> cb_event cb' = cb_event cb"
  using assms
proof (induction "length data - pos" arbitrary: pos cb rule: less_induct)
  case less
  define l where "l = write_len cb (length data - pos)"
  let ?bs = "take l (drop pos data)" and ?a = "cbuf_space_avail"
  note wl = write_len_ok [OF less(2) l_def]
  have bs: "length ?bs = l" using wl(1) by simp
  show ?case
  proof (cases "pos < length data \<and> ?a cb > 0")
    case True
    with wl(4) have l0: "0 < l" by simp
    have ok: "cbuf_ok (pushed ?bs cb)" and us: "cbuf_space_used (pushed ?bs cb) = cbuf_space_used cb + l"
      and cts: "cbuf_contents (pushed ?bs cb) = cbuf_contents cb @ ?bs"
      using pushed_used [OF less(2), of ?bs] pushed_ok [OF less(2), of ?bs] wl unfolding bs by simp_all
    have av: "?a (pushed ?bs cb) = ?a cb - l" "l \<le> ?a cb"
      using wl(2) by (simp_all add: avail_eq [OF ok] avail_eq [OF less(2)] us)
    from l0 wl(1) True have "length data - (pos + l) < length data - pos" "pos + l \<le> length data" by auto
    from less(1) [OF this(1) ok this(2)]
    obtain n cb' where n: "write_loop data (pos + l) (pushed ?bs cb) = (pos + l + n, cb')"
      "n = min (length data - (pos + l)) (?a cb - l)" "cbuf_ok cb'"
      "cbuf_contents cb' = cbuf_contents cb @ ?bs @ take n (drop (pos + l) data)"
      "cb_len_pow2 cb' = cb_len_pow2 cb" "cb_event cb' = cb_event cb"
      by (auto simp: av cts)
    have "take (l + n) (drop pos data) = ?bs @ take n (drop (pos + l) data)"
      by (simp add: take_add add.commute)
    moreover have "l + n = min (length data - pos) (?a cb)" using n(2) av(2) wl(1) by simp
    ultimately show ?thesis using n True l0
      by (intro exI [of _ "l + n"] exI [of _ cb']) (simp add: write_step [of data pos cb] l_def [symmetric] add.assoc)
  next
    case False
    then show ?thesis using less(2,3) by (subst write_step) auto
  qed
qed

lemma read_len_ok:
  assumes ok: "cbuf_ok cb" and ne: "cb_tail cb \<noteq> cb_head cb" and l: "l = read_len cb rest"
  shows "l \<le> rest" "l \<le> cbuf_space_used cb" "unat (cb_tail cb) + l \<le> 2 ^ cb_len_pow2 cb" "0 < rest \<Longrightarrow> 0 < l"
proof -
  let ?m = "2 ^ cb_len_pow2 cb :: nat" and ?t = "unat (cb_tail cb)" and ?h = "unat (cb_head cb)"
    and ?v = "valpow2 (cb_len_pow2 cb)"
  from ok have b: "?h < ?m" "?t < ?m" "unat ?v = ?m" by (simp_all add: cbuf_ok_def unat_valpow2)
  have "unat (?v - cb_tail cb) = ?m - ?t" using b by (simp add: unat_sub word_le_nat_alt)
  moreover have "unat (cb_head cb - cb_tail cb) = ?h - ?t" if "cb_tail cb < cb_head cb"
    using that by (simp add: unat_sub)
  ultimately have l': "l = (if ?t < ?h then min (?h - ?t) rest else min (?m - ?t) rest)"
    unfolding l read_len_def by (simp add: word_less_nat_alt)
  from ne have ne': "?t \<noteq> ?h" by (simp add: word_unat_eq_iff)
  show "l \<le> rest" by (simp add: l')
  show "l \<le> cbuf_space_used cb" using b ne' by (auto simp: used_eq [OF ok, unfolded word_le_nat_alt] l')
  show "?t + l \<le> ?m" using b by (auto simp: l')
  show "0 < l" if "0 < rest" using that b by (simp add: l')
qed


lemma read_loop_ok:
  assumes "cbuf_ok cb" "pos \<le> buflen"
  shows "\<exists>n cb'. read_loop buflen pos acc cb = Some (pos + n, acc @ take n (cbuf_contents cb), cb') \<and>
    n = min (buflen - pos) (cbuf_space_used cb) \<and> cbuf_ok cb' \<and> cbuf_contents cb' = drop n (cbuf_contents cb) \<and>
    cb_len_pow2 cb' = cb_len_pow2 cb \<and> cb_event cb' = cb_event cb"
  using assms
proof (induction "cbuf_space_used cb" arbitrary: pos acc cb rule: less_induct)
  case less
  define l where "l = read_len cb (buflen - pos)"
  show ?case
  proof (cases "pos < buflen \<and> cb_tail cb \<noteq> cb_head cb")
    case True
    note rl = read_len_ok [OF less(2) conjunct2 [OF True] l_def]
    from True rl(4) have l0: "0 < l" by simp
    note ok = popped_ok [OF less(2) rl(2)]
    have us: "cbuf_space_used (popped l cb) = cbuf_space_used cb - l"
      using arg_cong [OF ok(2), of length] by (simp add: contents_length)
    have bytes: "take l (drop (unat (cb_tail cb)) (cb_buf cb)) = take l (cbuf_contents cb)"
      using ring_slice_linear [of "unat (cb_tail cb)" l "cb_buf cb"] rl(3) less(2)
      by (simp add: cbuf_contents_def cbuf_ok_def ring_slice_take [OF rl(2)])
    from l0 rl(1,2) True us have m: "cbuf_space_used (popped l cb) < cbuf_space_used cb" "pos + l \<le> buflen" by auto
    from less(1) [OF m(1) ok(1) m(2), of "acc @ take l (cbuf_contents cb)"]
    obtain n cb' where n: "read_loop buflen (pos + l) (acc @ take l (cbuf_contents cb)) (popped l cb) =
        Some (pos + l + n, (acc @ take l (cbuf_contents cb)) @ take n (drop l (cbuf_contents cb)), cb')"
      "n = min (buflen - (pos + l)) (cbuf_space_used cb - l)" "cbuf_ok cb'"
      "cbuf_contents cb' = drop n (drop l (cbuf_contents cb))"
      "cb_len_pow2 cb' = cb_len_pow2 cb" "cb_event cb' = cb_event cb"
      unfolding us ok(2) popped_simps by blast
    have "read_loop buflen pos acc cb = read_loop buflen (pos + l) (acc @ take l (cbuf_contents cb)) (popped l cb)"
      using True by (subst read_loop.simps) (simp add: l_def [symmetric] bytes popped_def)
    moreover have "take (l + n) (cbuf_contents cb) = take l (cbuf_contents cb) @ take n (drop l (cbuf_contents cb))"
      "drop n (drop l (cbuf_contents cb)) = drop (l + n) (cbuf_contents cb)"
      by (simp_all add: take_add add.commute)
    moreover have "l + n = min (buflen - pos) (cbuf_space_used cb)" using n(2) rl(1,2) by simp
    ultimately show ?thesis using n(1,3-)
      by (intro exI [of _ "l + n"] exI [of _ cb']) (simp only: add.assoc append_assoc)
  next
    case False
    with used_0_iff [OF less(2)] less(2) show ?thesis by (subst read_loop.simps) auto
  qed
qed

text \<open>The pure part of the buffer is a bounded first-in first-out queue of bytes.\<close>

definition cbuf_put :: "8 word list \<Rightarrow> cbuf \<Rightarrow> nat \<times> cbuf" where
  "cbuf_put bs cb = write_loop bs 0 cb"

definition cbuf_get :: "nat \<Rightarrow> cbuf \<Rightarrow> 8 word list \<times> cbuf" where
  "cbuf_get n cb = (case read_loop n 0 [] cb of Some (_, bs, cb') \<Rightarrow> (bs, cb') | None \<Rightarrow> ([], cb))"

lemma cbuf_put_ok:
  assumes "cbuf_ok cb" "cbuf_put bs cb = (n, cb')"
  shows "n = min (length bs) (cbuf_space_avail cb)" "cbuf_ok cb'" "cbuf_contents cb' = cbuf_contents cb @ take n bs"
    "cb_len_pow2 cb' = cb_len_pow2 cb" "cb_event cb' = cb_event cb"
  using write_loop_ok [OF assms(1), of 0 bs] assms(2) by (auto simp: cbuf_put_def)

lemma cbuf_get_ok:
  assumes "cbuf_ok cb" "cbuf_get n cb = (bs, cb')"
  shows "bs = take n (cbuf_contents cb)" "cbuf_ok cb'" "cbuf_contents cb' = drop n (cbuf_contents cb)"
    "cb_len_pow2 cb' = cb_len_pow2 cb" "cb_event cb' = cb_event cb"
  using read_loop_ok [OF assms(1), of 0 n "[]"] assms(2)
  by (auto simp: cbuf_get_def min_def contents_length)

interpretation cb: fifo cbuf_ok cbuf_contents "\<lambda>cb. 2 ^ cb_len_pow2 cb - 1" cbuf_put cbuf_get
proof unfold_locales
  fix q :: cbuf assume "cbuf_ok q"
  then show "length (cbuf_contents q) \<le> 2 ^ cb_len_pow2 q - 1" using used_bound [of q] by (simp add: contents_length)
next
  fix q q' xs n assume a: "cbuf_ok q" "cbuf_put xs q = (n, q')"
  note p = cbuf_put_ok [OF a]
  show "cbuf_ok q' \<and> 2 ^ cb_len_pow2 q' - 1 = (2 :: nat) ^ cb_len_pow2 q - 1 \<and> n \<le> length xs \<and>
      cbuf_contents q' = cbuf_contents q @ take n xs"
    using p by simp
  assume "length (cbuf_contents q) + length xs \<le> 2 ^ cb_len_pow2 q - 1"
  then show "n = length xs" using p(1) by (simp add: avail_eq [OF a(1)] contents_length)
next
  fix q q' ys n assume a: "cbuf_ok q" "cbuf_get n q = (ys, q')"
  from cbuf_get_ok [OF a] show "cbuf_ok q' \<and> 2 ^ cb_len_pow2 q' - 1 = (2 :: nat) ^ cb_len_pow2 q - 1 \<and>
      ys = take n (cbuf_contents q) \<and> cbuf_contents q' = drop n (cbuf_contents q)" by simp
qed


section \<open>The operations on a live buffer\<close>

text \<open>The event is signalled exactly while there is something to read, and nobody waits then.\<close>

definition cbuf_inv :: "cbuf \<Rightarrow> kstate \<Rightarrow> bool" where
  "cbuf_inv cb s \<longleftrightarrow> cbuf_ok cb \<and> event_inv (cb_event cb) s \<and> \<not> auto_unsignal (cb_event cb) \<and>
     (signaled (cb_event cb) \<longleftrightarrow> cbuf_contents cb \<noteq> [])"

abbreviation readers :: "cbuf \<Rightarrow> kstate \<Rightarrow> tid list" where
  "readers cb s \<equiv> ev_waiters (cb_event cb) s"

lemma contents_event [simp]:
  "cbuf_contents (cb\<lparr>cb_event := e\<rparr>) = cbuf_contents cb" "cbuf_ok (cb\<lparr>cb_event := e\<rparr>) = cbuf_ok cb"
  by (simp_all add: cbuf_contents_def cbuf_space_used_def cbuf_ok_def)

lemma cbuf_initialize_ok:
  assumes p: "p < 32" "len = 2 ^ p" and b: "length buf = 2 ^ p"
  shows "okE (\<lambda>(cb, s'). cb_len_pow2 cb = p \<and> cbuf_contents cb = [] \<and> cbuf_inv cb s' \<and> s' = wait_queue_init (Obj_wq i) s)
    (cbuf_initialize_etc i len buf s)"
proof -
  have v: "(ucast len :: 32 word) = valpow2 p"
    unfolding p(2) by (rule bit_word_eqI) (auto simp: valpow2_def bit_simps)
  have "ispow2 (valpow2 p)" using p(1) by (auto simp: ispow2_iff)
  moreover have v0: "valpow2 p \<noteq> 0" using unat_valpow2 [OF p(1)] by auto
  moreover have "log2_uint (valpow2 p) = p"
  proof -
    note b = log2_uint_bounds [OF v0, unfolded unat_valpow2 [OF p(1)]]
    from b(1) have "log2_uint (valpow2 p) \<le> p" by (rule power_le_imp_le_exp [rotated]) simp
    moreover from b(2) have "p < Suc (log2_uint (valpow2 p))" by (rule power_less_imp_less_exp [rotated]) simp
    ultimately show ?thesis by simp
  qed
  moreover have "len > 0" using p by (simp add: word_gt_0)
  ultimately show ?thesis using p(1) b
    by (simp add: cbuf_initialize_etc_def event_init_def cbuf_inv_def cbuf_ok_def event_inv_def v
        cbuf_contents_def cbuf_space_used_def modpow2_def wait_queue_init_def
        WAIT_QUEUE_INITIAL_VALUE_def)
qed

text \<open>Signalling from an interrupt handler or a thread wakes every blocked reader.\<close>

lemma signal_readers_ok:
  assumes ok: "cbuf_ok cb" "cbuf_contents cb \<noteq> []" "event_inv (cb_event cb) s" "\<not> auto_unsignal (cb_event cb)"
    and s: "sched_inv s" "lock_free s" "up s cpu"
    and i: "resched \<Longrightarrow> \<not> thread_is_idle (threads s (current s cpu))"
  shows "okE (\<lambda>(cb', s'). cb' = cb\<lparr>cb_event := (cb_event cb)\<lparr>signaled := True\<rparr>\<rparr> \<and> cbuf_inv cb' s' \<and>
      sched_inv s' \<and> lock_free s' \<and> up s' cpu \<and>
      (if signaled (cb_event cb) then s' = s
       else released (readers cb s) (Obj_wq (ev_wait (cb_event cb))) NO_ERROR s s')) (signal_readers cpu resched cb s)"
proof -
  from ok(1,2) have ne: "cb_head cb \<noteq> cb_tail cb" by (metis empty_iff)
  have sg: "e = e\<lparr>signaled := True\<rparr>" if "signaled e" for e :: event using that by simp
  have u: "released ts w e s s' \<Longrightarrow> up s' cpu" for ts w e s' using s(3) by (simp add: released_def up_def)
  show ?thesis unfolding signal_readers_def if_P [OF ne]
    by (rule okE_bindI [OF event_signal_ok [OF ok(3) s i]], assumption)
      (cases "signaled (cb_event cb)"; use ok s(3) sg in \<open>auto simp: cbuf_inv_def dest: u\<close>)
qed


theorem cbuf_write_ok:
  assumes cb: "cbuf_inv cb s" and len: "len < 2 ^ cb_len_pow2 cb" "length (source_bytes buf len) = len"
    and s: "sched_inv s" "lock_free s" "up s cpu"
  shows "okE (\<lambda>(n, cb', s'). n = min len (cbuf_space_avail cb) \<and>
      cbuf_contents cb' = cbuf_contents cb @ take n (source_bytes buf len) \<and> cbuf_inv cb' s' \<and>
      sched_inv s' \<and> lock_free s' \<and>
      (0 < n \<longrightarrow> released (readers cb s) (Obj_wq (ev_wait (cb_event cb))) NO_ERROR s s'))
    (cbuf_write cpu buf len canreschedule cb s)"
proof -
  let ?w = "Obj_wq (ev_wait (cb_event cb))" and ?ok = "\<lambda>n cb' s'. cbuf_inv cb' s' \<and> sched_inv s' \<and> lock_free s' \<and>
      up s' cpu \<and> (0 < n \<longrightarrow> released (readers cb s) (Obj_wq (ev_wait (cb_event cb))) NO_ERROR s s')"
  from cb have inv: "cbuf_ok cb" "event_inv (cb_event cb) s" "\<not> auto_unsignal (cb_event cb)"
    "signaled (cb_event cb) \<longleftrightarrow> cbuf_contents cb \<noteq> []" by (simp_all add: cbuf_inv_def)
  have v: "unat (valpow2 (cb_len_pow2 cb)) = 2 ^ cb_len_pow2 cb" using inv(1) by (simp add: unat_valpow2 cbuf_ok_def)
  obtain n cb1 where w: "cbuf_put (source_bytes buf len) cb = (n, cb1)" by fastforce
  note p = cbuf_put_ok [OF inv(1) w]
  have c1: "cbuf_contents cb1 = cbuf_contents cb @ take n (source_bytes buf len)" by (rule p(3))
  have sig: "okE (\<lambda>(cb', s'). cbuf_contents cb' = cbuf_contents cb1 \<and> ?ok n cb' s') (signal_readers cpu False cb1 s)"
  proof (cases "cbuf_contents cb1 = []")
    case True
    then have "signal_readers cpu False cb1 s = Inr (cb1, s)" using p(2) by (simp add: signal_readers_def empty_iff)
    moreover have "cbuf_inv cb1 s" "n = 0" using True c1 p inv len(2) by (auto simp: cbuf_inv_def)
    ultimately show ?thesis using s by simp
  next
    case False
    have e: "event_inv (cb_event cb1) s" "\<not> auto_unsignal (cb_event cb1)" using inv p(5) by simp_all
    have r: "released [] ?w NO_ERROR s s" by (simp add: released_def)
    have "readers cb s = []" if "signaled (cb_event cb)" using that inv(2) by (simp add: event_inv_def)
    then show ?thesis
      by (intro okE_mono [OF signal_readers_ok [OF p(2) False e s]]) (auto simp: p(5) r split: if_splits)
  qed
  have "okE (\<lambda>s2. ?ok n cb' s2) (if canreschedule then thread_preempt cpu s1 else Inr s1)" if "?ok n cb' s1" for cb' s1
  proof (cases canreschedule)
    case True
    from that have "sched_inv s1" "lock_free s1" "up s1 cpu" by auto
    note pre = thread_preempt_ok [OF this]
    have "cbuf_inv cb' s2" "up s2 cpu" if "switch_frame s1 s2" for s2
      using that \<open>?ok n cb' s1\<close> by (auto simp: switch_frame_def cbuf_inv_def event_inv_def up_def)
    with True \<open>?ok n cb' s1\<close> show ?thesis
      by (simp, intro okE_mono [OF pre]) (auto intro: released_switch)
  qed (use that in simp)
  note pre = this
  have eq: "cbuf_write cpu buf len canreschedule cb s = bindE (signal_readers cpu False cb1 s)
      (\<lambda>(cb2, s1). bindE (if canreschedule then thread_preempt cpu s1 else Inr s1) (\<lambda>s2. Inr (n, cb2, s2)))"
    using w len(1) by (simp add: cbuf_write_def cbuf_put_def v)
  show ?thesis unfolding eq
    by (rule okE_bindI [OF sig], clarsimp split del: if_split)
      (rule okE_mono [OF pre], use p(1) c1 len(2) in auto)
qed


text \<open>Reading: what comes out, and that the event follows the contents.\<close>

lemma unsignal_empty_ok:
  assumes "cbuf_ok cb" "event_inv (cb_event cb) s" "\<not> auto_unsignal (cb_event cb)" "signaled (cb_event cb)"
  shows "okE (\<lambda>cb'. cbuf_contents cb' = cbuf_contents cb \<and> cbuf_inv cb' s \<and> cb_len_pow2 cb' = cb_len_pow2 cb \<and>
      ev_wait (cb_event cb') = ev_wait (cb_event cb)) (unsignal_empty cb)"
  using assms by (auto simp: unsignal_empty_def event_unsignal_def cbuf_inv_def empty_iff event_inv_def)

lemma read_locked_ok:
  assumes cb: "cbuf_inv cb s"
  obtains cb' where "read_locked buflen cb = Some (Inr (min buflen (cbuf_space_used cb), take buflen (cbuf_contents cb), cb'))"
    "cbuf_contents cb' = drop buflen (cbuf_contents cb)" "cbuf_inv cb' s" "cb_len_pow2 cb' = cb_len_pow2 cb"
    "ev_wait (cb_event cb') = ev_wait (cb_event cb)"
proof (cases "cbuf_contents cb = []")
  case True
  with cb have "cb_tail cb = cb_head cb" by (simp add: cbuf_inv_def empty_iff)
  with True cb show ?thesis
    by (intro that [of cb]) (simp_all add: read_locked_def contents_length [symmetric])
next
  case False
  let ?n = "min buflen (cbuf_space_used cb)"
  from cb have inv: "cbuf_ok cb" "event_inv (cb_event cb) s" "\<not> auto_unsignal (cb_event cb)" "signaled (cb_event cb)"
    using False by (simp_all add: cbuf_inv_def)
  from read_loop_ok [OF inv(1), of 0 buflen "[]"] obtain cb1 where l:
    "read_loop buflen 0 [] cb = Some (?n, take ?n (cbuf_contents cb), cb1)" "cbuf_ok cb1"
    "cbuf_contents cb1 = drop ?n (cbuf_contents cb)" "cb_len_pow2 cb1 = cb_len_pow2 cb" "cb_event cb1 = cb_event cb"
    by auto
  have td: "take ?n (cbuf_contents cb) = take buflen (cbuf_contents cb)" "drop ?n (cbuf_contents cb) = drop buflen (cbuf_contents cb)"
    by (simp_all add: min_def contents_length)
  obtain cb2 where u: "unsignal_empty cb1 = Inr cb2" "cbuf_contents cb2 = cbuf_contents cb1" "cbuf_inv cb2 s"
      "cb_len_pow2 cb2 = cb_len_pow2 cb" "ev_wait (cb_event cb2) = ev_wait (cb_event cb)"
    using unsignal_empty_ok [of cb1 s] l inv by (auto simp: okE_iff_ex)
  have "0 < ?n" if "cb_tail cb1 = cb_head cb1"
  proof (rule ccontr)
    assume "\<not> 0 < ?n"
    then have "?n = 0" by (simp only: not_gr_zero)
    then have "cbuf_contents cb1 = cbuf_contents cb" using l(3) by simp
    with that False empty_iff [OF l(2)] show False by simp
  qed
  moreover from False inv(1) have "cb_tail cb \<noteq> cb_head cb" by (simp add: empty_iff)
  ultimately have "read_locked buflen cb = Some (Inr (?n, take buflen (cbuf_contents cb), cb2))"
    using l(1) td u(1) by (auto simp: read_locked_def guardE_def)
  with u l(3) td(2) show ?thesis by (intro that [of cb2]) simp_all
qed

text \<open>A read that does not block.\<close>

theorem cbuf_read_nonblock_ok:
  assumes "cbuf_inv cb s"
  shows "\<exists>cb'. cbuf_read cpu buflen False cb s =
      Some (Inr (cb', Return (min buflen (cbuf_space_used cb), take buflen (cbuf_contents cb)) s)) \<and>
    cbuf_contents cb' = drop buflen (cbuf_contents cb) \<and> cbuf_inv cb' s"
  by (rule read_locked_ok [OF assms, of buflen]) (subst cbuf_read.simps, simp)

lemma cbuf_event_same [simp]: "cb\<lparr>cb_event := cb_event cb\<rparr> = cb"
  by simp

text \<open>A blocking read waits exactly when there is nothing to read.\<close>

theorem cbuf_read_block_ok:
  assumes cb: "cbuf_inv cb s" and ctx: "thread_context cpu s" and n: "0 < buflen"
  shows "\<exists>cb' c. cbuf_read cpu buflen True cb s = Some (Inr (cb', c)) \<and>
    (case c of
       Return (n, bs) s' \<Rightarrow> s' = s \<and> cbuf_contents cb \<noteq> [] \<and> n = length bs \<and> 0 < n \<and>
         bs = take buflen (cbuf_contents cb) \<and> cbuf_contents cb' = drop buflen (cbuf_contents cb) \<and> cbuf_inv cb' s
     | Switched_out s' \<Rightarrow> cbuf_contents cb = [] \<and> cb' = cb \<and> cbuf_inv cb s' \<and> sched_inv s' \<and> lock_free s' \<and>
         readers cb s' = readers cb s @ [current s cpu])"
proof -
  from cb have inv: "event_inv (cb_event cb) s" "\<not> auto_unsignal (cb_event cb)"
    "signaled (cb_event cb) \<longleftrightarrow> cbuf_contents cb \<noteq> []" by (simp_all add: cbuf_inv_def)
  have I0: "INFINITE_TIME \<noteq> (0 :: time_ms)" by simp
  show ?thesis
  proof (cases "cbuf_contents cb = []")
    case True
    from event_wait_ok [OF inv(1) ctx, of INFINITE_TIME] True inv(3) I0 obtain s' where
      w: "event_wait_timeout cpu INFINITE_TIME (cb_event cb) s = Inr (cb_event cb, Switched_out s')"
        "sched_inv s'" "lock_free s'" "event_inv (cb_event cb) s'" "readers cb s' = readers cb s @ [current s cpu]"
      by (auto simp: okE_iff_ex call_case_iff)
    with True cb show ?thesis by (subst cbuf_read.simps) (simp add: cbuf_inv_def)
  next
    case False
    have e: "(cb_event cb)\<lparr>signaled := True\<rparr> = cb_event cb" using inv(3) False by simp
    from event_wait_ok [OF inv(1) ctx, of INFINITE_TIME] False inv(2,3) I0
    have w: "event_wait_timeout cpu INFINITE_TIME (cb_event cb) s = Inr (cb_event cb, Return NO_ERROR s)"
      by (auto simp: okE_iff_ex e call_case_iff)
    obtain cb' where r: "read_locked buflen cb = Some (Inr (min buflen (cbuf_space_used cb), take buflen (cbuf_contents cb), cb'))"
      "cbuf_contents cb' = drop buflen (cbuf_contents cb)" "cbuf_inv cb' s"
      by (rule read_locked_ok [OF cb, of buflen])
    have "min buflen (cbuf_space_used cb) \<noteq> 0" using False n by (simp add: contents_length [symmetric] min_def)
    with w r have "cbuf_read cpu buflen True cb s =
        Some (Inr (cb', Return (min buflen (cbuf_space_used cb), take buflen (cbuf_contents cb)) s))"
      by (subst cbuf_read.simps) (auto simp: min_def)
    with r(2,3) False n show ?thesis by (simp add: contents_length [symmetric] min.commute)
  qed
qed


text \<open>
  A blocking read that asks for nothing on a buffer that is not empty goes round its loop forever:
  the event stays signalled and the length stays 0.
\<close>

definition read_stuck :: "cpu_num \<Rightarrow> nat \<Rightarrow> bool \<Rightarrow> cbuf \<Rightarrow> kstate \<Rightarrow> bool" where
  "read_stuck cpu buflen block cb s \<longleftrightarrow> buflen = 0 \<and> block \<and> cbuf_inv cb s \<and> cbuf_contents cb \<noteq> [] \<and> thread_context cpu s"

lemma cbuf_read_stuck: "cbuf_read cpu buflen block cb s = Some r \<Longrightarrow> \<not> read_stuck cpu buflen block cb s"
proof (rule cbuf_read.raw_induct [where P = "\<lambda>cpu buflen block cb s r. \<not> read_stuck cpu buflen block cb s"])
  fix f cpu buflen block cb s y
  assume ih: "\<And>cpu buflen block cb s y. f cpu buflen block cb s = Some y \<Longrightarrow> \<not> read_stuck cpu buflen block cb s"
    and body: "(case (if block then event_wait_timeout cpu INFINITE_TIME (cb_event cb) s else Inr (cb_event cb, Return 0 s)) of
        Inl e \<Rightarrow> Some (Inl e)
      | Inr (ev, Switched_out s1) \<Rightarrow> Some (Inr (cb\<lparr>cb_event := ev\<rparr>, Switched_out s1))
      | Inr (ev, Return r s1) \<Rightarrow>
          Option.bind (read_locked buflen (cb\<lparr>cb_event := ev\<rparr>))
            (\<lambda>m. case m of
               Inl e \<Rightarrow> Some (Inl e)
             | Inr (n, bs, cb1) \<Rightarrow>
                 if block \<and> n = 0 then f cpu buflen block cb1 s1
                 else Some (Inr (cb1, Return (n, bs) s1)))) = Some y"
  show "\<not> read_stuck cpu buflen block cb s"
  proof
    assume a: "read_stuck cpu buflen block cb s"
    then have inv: "event_inv (cb_event cb) s" "\<not> auto_unsignal (cb_event cb)" "signaled (cb_event cb)"
      by (simp_all add: read_stuck_def cbuf_inv_def)
    have e: "(cb_event cb)\<lparr>signaled := True\<rparr> = cb_event cb" using inv(3) by simp
    from a have ctx: "thread_context cpu s" "buflen = 0" block by (simp_all add: read_stuck_def)
    from event_wait_ok [OF inv(1) ctx(1), of INFINITE_TIME] inv(2,3)
    have w: "event_wait_timeout cpu INFINITE_TIME (cb_event cb) s = Inr (cb_event cb, Return NO_ERROR s)"
      by (auto simp: okE_iff_ex e call_case_iff)
    from a have "cbuf_inv cb s" by (simp add: read_stuck_def)
    then obtain cb' where r: "read_locked 0 cb = Some (Inr (0, [], cb'))" "cbuf_contents cb' = cbuf_contents cb" "cbuf_inv cb' s"
      by (rule read_locked_ok [of cb s 0]) simp
    from body w r(1) ctx(2,3) have "f cpu 0 True cb' s = Some y" by simp
    with ih a r(2,3) show False unfolding read_stuck_def by metis
  qed
qed

theorem cbuf_read_zero_never_returns:
  assumes "cbuf_inv cb s" "cbuf_contents cb \<noteq> []" "thread_context cpu s"
  shows "cbuf_read cpu 0 True cb s = None"
  using cbuf_read_stuck [of cpu 0 True cb s] assms
  by (cases "cbuf_read cpu 0 True cb s") (auto simp: read_stuck_def)

text \<open>After the wake-up, a reader that another one has overtaken waits again.\<close>

theorem cbuf_read_resume_ok:
  assumes cb: "cbuf_inv cb s" and ctx: "thread_context cpu s" and n: "0 < buflen"
  shows "\<exists>cb' c. cbuf_read_resume cpu buflen cb s = Some (Inr (cb', c)) \<and>
    (case c of
       Return (n, bs) s' \<Rightarrow> s' = s \<and> cbuf_contents cb \<noteq> [] \<and> n = length bs \<and> 0 < n \<and>
         bs = take buflen (cbuf_contents cb) \<and> cbuf_contents cb' = drop buflen (cbuf_contents cb) \<and> cbuf_inv cb' s
     | Switched_out s' \<Rightarrow> cbuf_contents cb = [] \<and> cbuf_contents cb' = [] \<and> cbuf_inv cb' s' \<and> sched_inv s' \<and>
         lock_free s' \<and> readers cb s' = readers cb s @ [current s cpu])"
proof -
  have w: "event_wait_resume cpu INFINITE_TIME s =
      Inr (Return (wait_queue_block_ret (threads s (current s cpu))) s)"
    using ctx by (simp add: event_wait_resume_def wait_queue_block_resume_def unlock_call_def thread_context_def lock_free_def)
  obtain cb' where r: "read_locked buflen cb = Some (Inr (min buflen (cbuf_space_used cb), take buflen (cbuf_contents cb), cb'))"
    "cbuf_contents cb' = drop buflen (cbuf_contents cb)" "cbuf_inv cb' s" "ev_wait (cb_event cb') = ev_wait (cb_event cb)"
    by (rule read_locked_ok [OF cb, of buflen])
  show ?thesis
  proof (cases "cbuf_contents cb = []")
    case True
    have "cbuf_read_resume cpu buflen cb s = cbuf_read cpu buflen True cb' s"
      using w r(1) True by (simp add: cbuf_read_resume_def contents_length [symmetric])
    moreover have "cbuf_contents cb' = []" using True r(2) by simp
    with cbuf_read_block_ok [OF r(3) ctx n]
    obtain s' where "cbuf_read cpu buflen True cb' s = Some (Inr (cb', Switched_out s'))" "cbuf_inv cb' s'" "sched_inv s'"
      "lock_free s'" "readers cb' s' = readers cb' s @ [current s cpu]" by (auto simp: call_case_iff)
    ultimately show ?thesis using True r(2,4) by simp
  next
    case False
    then have "min buflen (cbuf_space_used cb) \<noteq> 0" using n by (simp add: contents_length [symmetric] min_def)
    with w r(1) have "cbuf_read_resume cpu buflen cb s =
        Some (Inr (cb', Return (min buflen (cbuf_space_used cb), take buflen (cbuf_contents cb)) s))"
      by (auto simp: cbuf_read_resume_def min_def)
    with r(2,3) False n show ?thesis by (simp add: contents_length [symmetric] min.commute)
  qed
qed


text \<open>A peek describes the contents by at most two regions of the array.\<close>

definition region :: "cbuf \<Rightarrow> nat option \<times> nat \<Rightarrow> 8 word list" where
  "region cb r = (case r of (None, n) \<Rightarrow> [] | (Some off, n) \<Rightarrow> take n (drop off (cb_buf cb)))"

theorem cbuf_peek_ok:
  assumes ok: "cbuf_ok cb"
  shows "okE (\<lambda>(n, r0, r1). n = length (cbuf_contents cb) \<and> snd r0 + snd r1 = n \<and>
      region cb r0 @ region cb r1 = cbuf_contents cb) (cbuf_peek cb)"
proof -
  let ?m = "2 ^ cb_len_pow2 cb :: nat" and ?t = "unat (cb_tail cb)" and ?u = "cbuf_space_used cb"
  have sz: "cbuf_size cb = ?m"
    unfolding cbuf_size_def unsigned_push_bit_eq using ok by (simp add: cbuf_ok_def take_bit_nat_eq_self)
  from ok have b: "?t < ?m" "length (cb_buf cb) = ?m" "?u < ?m"
    using used_bound [OF ok] by (simp_all add: cbuf_ok_def)
  have "ring_slice (cb_buf cb) ?t ?u = drop ?t (cb_buf cb) @ take (?u - (?m - ?t)) (cb_buf cb)" if "?m < ?u + ?t"
    using ring_slice_wrap [of ?t "cb_buf cb" ?u] b that by (simp add: add.commute)
  moreover have "ring_slice (cb_buf cb) ?t ?u = take ?u (drop ?t (cb_buf cb))" if "\<not> ?m < ?u + ?t"
    using ring_slice_linear [of ?t ?u "cb_buf cb"] b that by (simp add: add.commute)
  ultimately show ?thesis using b
    by (auto simp: cbuf_peek_def Let_def sz region_def cbuf_contents_def)
qed

theorem cbuf_write_char_ok:
  assumes cb: "cbuf_inv cb s" and s: "sched_inv s" "lock_free s" "up s cpu"
    and i: "canreschedule \<Longrightarrow> \<not> thread_is_idle (threads s (current s cpu))"
  shows "okE (\<lambda>(n, cb', s'). n = min 1 (cbuf_space_avail cb) \<and> cbuf_contents cb' = cbuf_contents cb @ replicate n c \<and>
      cbuf_inv cb' s' \<and> sched_inv s' \<and> lock_free s' \<and>
      (0 < n \<longrightarrow> released (readers cb s) (Obj_wq (ev_wait (cb_event cb))) NO_ERROR s s'))
    (cbuf_write_char cpu c canreschedule cb s)"
proof (cases "0 < cbuf_space_avail cb")
  case True
  from cb have inv: "cbuf_ok cb" "event_inv (cb_event cb) s" "\<not> auto_unsignal (cb_event cb)"
    "signaled (cb_event cb) \<longleftrightarrow> cbuf_contents cb \<noteq> []" by (simp_all add: cbuf_inv_def)
  have h: "unat (cb_head cb) < length (cb_buf cb)" "length (cb_buf cb) = 2 ^ cb_len_pow2 cb" using inv(1) by (simp_all add: cbuf_ok_def)
  have "(cb_buf cb)[unat (cb_head cb) := c] = mem_write (unat (cb_head cb)) [c] (cb_buf cb)"
    using h(1) by (simp add: mem_write_def upd_conv_take_nth_drop)
  then have eq: "cb\<lparr>cb_buf := (cb_buf cb)[unat (cb_head cb) := c], cb_head := inc_pointer cb (cb_head cb) 1\<rparr> = pushed [c] cb"
    by (simp add: pushed_def)
  have p: "cbuf_ok (pushed [c] cb)" "cbuf_contents (pushed [c] cb) = cbuf_contents cb @ [c]"
    using True h used_bound [OF inv(1)] by (auto intro!: pushed_ok pushed_used inv(1) simp: avail_eq [OF inv(1)])
  have e: "event_inv (cb_event (pushed [c] cb)) s" "\<not> auto_unsignal (cb_event (pushed [c] cb))" using inv by simp_all
  have "readers cb s = []" if "signaled (cb_event cb)" using that inv(2) by (simp add: event_inv_def)
  moreover have "released [] (Obj_wq (ev_wait (cb_event cb))) NO_ERROR s s" by (simp add: released_def)
  ultimately have "okE (\<lambda>(cb', s'). cbuf_contents cb' = cbuf_contents cb @ [c] \<and> cbuf_inv cb' s' \<and> sched_inv s' \<and> lock_free s' \<and>
      released (readers cb s) (Obj_wq (ev_wait (cb_event cb))) NO_ERROR s s') (signal_readers cpu canreschedule (pushed [c] cb) s)"
    by (intro okE_mono [OF signal_readers_ok [OF p(1) _ e s i]]) (auto simp: p(2) split: if_splits)
  moreover have "replicate 1 c = [c]" by simp
  ultimately show ?thesis using True
    by (auto simp: cbuf_write_char_def Let_def eq simp del: One_nat_def elim!: okE_mono)
qed (use cb s in \<open>simp add: cbuf_write_char_def\<close>)

lemma read_char_locked_ok:
  assumes cb: "cbuf_inv cb s"
  shows "okE (\<lambda>(c, cb'). (case cbuf_contents cb of [] \<Rightarrow> c = None \<and> cb' = cb
      | b # bs \<Rightarrow> c = Some b \<and> cbuf_contents cb' = bs) \<and> cbuf_inv cb' s) (read_char_locked cb)"
proof (cases "cbuf_contents cb")
  case Nil
  with cb show ?thesis by (simp add: read_char_locked_def cbuf_inv_def empty_iff [symmetric])
next
  case (Cons b bs)
  with cb have inv: "cbuf_ok cb" "event_inv (cb_event cb) s" "\<not> auto_unsignal (cb_event cb)" "signaled (cb_event cb)"
    by (simp_all add: cbuf_inv_def)
  have u: "1 \<le> cbuf_space_used cb" using Cons by (simp add: contents_length [symmetric])
  note p = popped_ok [OF inv(1) u]
  have "cb_buf cb ! unat (cb_tail cb) = cbuf_contents cb ! 0" using u inv(1) by (simp add: cbuf_contents_def cbuf_ok_def)
  then have b: "cb_buf cb ! unat (cb_tail cb) = b" by (simp add: Cons)
  have "cb_tail cb \<noteq> cb_head cb" using Cons empty_iff [OF inv(1)] by simp
  then have "read_char_locked cb = bindE (unsignal_empty (popped 1 cb)) (\<lambda>cb1. Inr (Some b, cb1))"
    by (simp add: read_char_locked_def popped_def b)
  moreover have "event_inv (cb_event (popped 1 cb)) s" "\<not> auto_unsignal (cb_event (popped 1 cb))" "signaled (cb_event (popped 1 cb))"
    using inv by simp_all
  note unsignal_empty_ok [OF p(1) this]
  ultimately show ?thesis using Cons p(2) by (auto elim!: okE_mono)
qed


theorem cbuf_read_char_ok:
  assumes cb: "cbuf_inv cb s" and ctx: "block \<Longrightarrow> thread_context cpu s"
  shows "\<exists>cb' c. cbuf_read_char cpu block cb s = Some (Inr (cb', c)) \<and>
    (case cbuf_contents cb of
       b # bs \<Rightarrow> c = Return (Some b) s \<and> cbuf_contents cb' = bs \<and> cbuf_inv cb' s
     | [] \<Rightarrow> cb' = cb \<and>
         (if block then \<exists>s'. c = Switched_out s' \<and> sched_inv s' \<and> lock_free s' \<and> cbuf_inv cb s' \<and>
            readers cb s' = readers cb s @ [current s cpu]
          else c = Return None s))"
proof -
  from cb have inv: "event_inv (cb_event cb) s" "\<not> auto_unsignal (cb_event cb)"
    "signaled (cb_event cb) \<longleftrightarrow> cbuf_contents cb \<noteq> []" by (simp_all add: cbuf_inv_def)
  obtain c cb' where r: "read_char_locked cb = Inr (c, cb')" "cbuf_inv cb' s"
    "case cbuf_contents cb of [] \<Rightarrow> c = None \<and> cb' = cb | b # bs \<Rightarrow> c = Some b \<and> cbuf_contents cb' = bs"
    using read_char_locked_ok [OF cb] by (auto simp: okE_iff_ex)
  show ?thesis
  proof (cases "cbuf_contents cb")
    case Nil
    show ?thesis
    proof (cases block)
      case True
      from event_wait_ok [OF inv(1) ctx [OF True], of INFINITE_TIME] Nil inv(3) obtain s' where
        w: "event_wait_timeout cpu INFINITE_TIME (cb_event cb) s = Inr (cb_event cb, Switched_out s')"
          "sched_inv s'" "lock_free s'" "event_inv (cb_event cb) s'" "readers cb s' = readers cb s @ [current s cpu]"
        by (auto simp: okE_iff_ex call_case_iff)
      with True Nil cb show ?thesis by (subst cbuf_read_char.simps) (simp add: cbuf_inv_def)
    qed (use Nil r in \<open>subst cbuf_read_char.simps, simp\<close>)
  next
    case (Cons b bs)
    have e: "(cb_event cb)\<lparr>signaled := True\<rparr> = cb_event cb" using inv(3) Cons by simp
    have "event_wait_timeout cpu INFINITE_TIME (cb_event cb) s = Inr (cb_event cb, Return NO_ERROR s)" if block
      using event_wait_ok [OF inv(1) ctx [OF that], of INFINITE_TIME] Cons inv(2,3)
      by (auto simp: okE_iff_ex e call_case_iff)
    with Cons r show ?thesis by (subst cbuf_read_char.simps) simp
  qed
qed

theorem cbuf_reset_ok:
  assumes cb: "cbuf_inv cb s"
  shows "\<exists>cb' r. cbuf_reset cpu cb s = Some (Inr (cb', Return r s)) \<and> cbuf_contents cb' = [] \<and> cbuf_inv cb' s"
proof -
  have "cbuf_ok cb" using cb by (simp add: cbuf_inv_def)
  moreover from this have "cbuf_size cb = 2 ^ cb_len_pow2 cb"
    unfolding cbuf_size_def unsigned_push_bit_eq by (simp add: cbuf_ok_def take_bit_nat_eq_self)
  ultimately have "length (cbuf_contents cb) \<le> cbuf_size cb" using used_bound [of cb] by (simp add: contents_length)
  with cbuf_read_nonblock_ok [OF cb, of cpu "cbuf_size cb"] show ?thesis
    by (auto simp: cbuf_reset_def)
qed

end
