(* ===== verification/Port.thy ===== *)
theory Port
  imports Wait_Queue Pow2 Ring
begin

text \<open>
  Ports (\<^verbatim>\<open>kernel/port.c\<close>, \<^verbatim>\<open>include/kernel/port.h\<close>): named write ports, the read ports opened on them
  and groups of read ports. A handle is the address of a port object, 0 is \<^verbatim>\<open>NULL\<close>, and the wait
  queue inside the object at address \<open>p\<close> is \<open>Obj_wq p\<close>. An address that holds no object has been
  freed (or never allocated); using one is an error of the model, as is following a \<^verbatim>\<open>NULL\<close> buffer.
  What \<^verbatim>\<open>malloc\<close> and \<^verbatim>\<open>calloc\<close> return is an argument.
\<close>

section \<open>Data\<close>

definition WRITEPORT_MAGIC_W :: int where "WRITEPORT_MAGIC_W = 0x70727477"
definition WRITEPORT_MAGIC_X :: int where "WRITEPORT_MAGIC_X = 0x70727478"
definition READPORT_MAGIC :: int where "READPORT_MAGIC = 0x70727472"
definition PORTGROUP_MAGIC :: int where "PORTGROUP_MAGIC = 0x70727467"

abbreviation PORT_BUFF_SIZE :: "32 word" where "PORT_BUFF_SIZE \<equiv> 8"
abbreviation PORT_BUFF_SIZE_BIG :: "32 word" where "PORT_BUFF_SIZE_BIG \<equiv> 64"
abbreviation MAX_PORT_GROUP_COUNT :: nat where "MAX_PORT_GROUP_COUNT \<equiv> 256"
abbreviation PORT_NAME_LEN :: nat where "PORT_NAME_LEN \<equiv> 12"
abbreviation PORT_MODE_BROADCAST :: "32 word" where "PORT_MODE_BROADCAST \<equiv> 0"
abbreviation PORT_MODE_UNICAST :: "32 word" where "PORT_MODE_UNICAST \<equiv> 1"
abbreviation PORT_MODE_BIG_BUFFER :: "32 word" where "PORT_MODE_BIG_BUFFER \<equiv> 2"

type_synonym port_packet = "8 word list"
type_synonym port = nat

record port_buf =
  pb_log2 :: nat
  pb_avail :: "32 word"
  pb_head :: "32 word"
  pb_tail :: "32 word"
  pb_packet :: "port_packet list"

record write_port =
  wp_magic :: int
  wp_buf :: "port_buf option"
  wp_rp_list :: "port list"
  wp_mode :: "32 word"
  wp_name :: string

record portgroup =
  pg_magic :: int
  pg_rp_list :: "port list"

record read_port =
  rp_magic :: int
  rp_buf :: "port_buf option"
  rp_ctx :: nat
  rp_wport :: "port option"
  rp_gport :: "port option"

datatype port_obj = Write_port write_port | Read_port read_port | Port_group portgroup

record port_sys =
  port_objs :: "port \<Rightarrow> port_obj option"
  write_port_list :: "port list"

text \<open>The first field of all three structures.\<close>

fun port_magic :: "port_obj \<Rightarrow> int" where
  "port_magic (Write_port wp) = wp_magic wp"
| "port_magic (Read_port rp) = rp_magic rp"
| "port_magic (Port_group pg) = pg_magic pg"

definition set_obj :: "port \<Rightarrow> port_obj \<Rightarrow> port_sys \<Rightarrow> port_sys" where
  "set_obj p ob ps = ps\<lparr>port_objs := (port_objs ps)(p \<mapsto> ob)\<rparr>"

definition free_obj :: "port \<Rightarrow> port_sys \<Rightarrow> port_sys" where
  "free_obj p ps = ps\<lparr>port_objs := (port_objs ps)(p := None)\<rparr>"

definition deref :: "port \<Rightarrow> port_sys \<Rightarrow> port_obj res" where
  "deref p ps = (case port_objs ps p of None \<Rightarrow> Inl (Panic ''use of a freed port'') | Some ob \<Rightarrow> Inr ob)"

definition as_read :: "port \<Rightarrow> port_sys \<Rightarrow> read_port res" where
  "as_read p ps = (case port_objs ps p of Some (Read_port rp) \<Rightarrow> Inr rp | _ \<Rightarrow> Inl (Panic ''not a read port''))"

definition as_write :: "port \<Rightarrow> port_sys \<Rightarrow> write_port res" where
  "as_write p ps = (case port_objs ps p of Some (Write_port wp) \<Rightarrow> Inr wp | _ \<Rightarrow> Inl (Panic ''not a write port''))"

definition as_group :: "port \<Rightarrow> port_sys \<Rightarrow> portgroup res" where
  "as_group p ps = (case port_objs ps p of Some (Port_group pg) \<Rightarrow> Inr pg | _ \<Rightarrow> Inl (Panic ''not a port group''))"

section \<open>Packet buffers\<close>

definition make_buf :: "32 word \<Rightarrow> port_packet list option \<Rightarrow> port_buf option" where
  "make_buf pk_count mem = (case mem of
       None \<Rightarrow> None
     | Some pks \<Rightarrow> Some \<lparr>pb_log2 = log2_uint pk_count, pb_avail = pk_count, pb_head = 0, pb_tail = 0, pb_packet = pks\<rparr>)"

definition buf_is_empty :: "port_buf \<Rightarrow> bool" where
  "buf_is_empty b \<longleftrightarrow> pb_avail b = valpow2 (pb_log2 b)"

fun buf_store :: "port_packet list \<Rightarrow> port_buf \<Rightarrow> port_buf" where
  "buf_store [] b = b"
| "buf_store (pk # pks) b =
     buf_store pks (b\<lparr>pb_packet := (pb_packet b)[unat (pb_tail b) := pk], pb_tail := modpow2 (pb_tail b + 1) (pb_log2 b)\<rparr>)"

definition buf_write :: "port_buf \<Rightarrow> port_packet list \<Rightarrow> int \<times> port_buf" where
  "buf_write b packets =
     (if unat (pb_avail b) < length packets then (ERR_NOT_ENOUGH_BUFFER, b)
      else (NO_ERROR, (buf_store packets b)\<lparr>pb_avail := pb_avail b - of_nat (length packets)\<rparr>))"

definition buf_read :: "port_buf \<Rightarrow> int \<times> port_packet option \<times> port_buf" where
  "buf_read b =
     (if buf_is_empty b then (ERR_NO_MSG, None, b)
      else (NO_ERROR, Some (pb_packet b ! unat (pb_head b)),
            b\<lparr>pb_head := modpow2 (pb_head b + 1) (pb_log2 b), pb_avail := pb_avail b + 1\<rparr>))"

section \<open>Creating and opening\<close>

definition port_init :: "port_sys \<Rightarrow> port_sys" where
  "port_init ps = ps\<lparr>write_port_list := []\<rparr>"

definition has_name :: "port_sys \<Rightarrow> string \<Rightarrow> port \<Rightarrow> bool" where
  "has_name ps pname w = (case port_objs ps w of Some (Write_port wp) \<Rightarrow> wp_name wp = pname | _ \<Rightarrow> False)"

definition port_create ::
    "cpu_num \<Rightarrow> string option \<Rightarrow> 32 word \<Rightarrow> bool \<Rightarrow> port option \<Rightarrow> port_packet list option \<Rightarrow>
     port_sys \<Rightarrow> kstate \<Rightarrow> (int \<times> port option \<times> port_sys \<times> kstate) res" where
  "port_create cpu nm mode out wp_mem buf_mem ps s =
     (case nm of
        None \<Rightarrow> Inr (ERR_INVALID_ARGS, None, ps, s)
      | Some pname \<Rightarrow>
         if \<not> out then Inr (ERR_INVALID_ARGS, None, ps, s)
         else if mode AND PORT_MODE_BROADCAST \<noteq> 0 \<and> mode AND PORT_MODE_BIG_BUFFER \<noteq> 0
         then Inr (ERR_INVALID_ARGS, None, ps, s)
         else if length pname \<ge> PORT_NAME_LEN then Inr (ERR_INVALID_ARGS, None, ps, s)
         else bindE (thread_lock cpu s) (\<lambda>s1. bindE (thread_unlock cpu s1) (\<lambda>s2.
           case find (has_name ps pname) (write_port_list ps) of
             Some w \<Rightarrow> bindE (as_write w ps)
               (\<lambda>wp. if wp_magic wp = WRITEPORT_MAGIC_X then Inr (ERR_BUSY, None, ps, s2)
                     else Inr (ERR_ALREADY_EXISTS, Some w, ps, s2))
           | None \<Rightarrow>
              (case wp_mem of
                 None \<Rightarrow> Inr (ERR_NO_MEMORY, None, ps, s2)
               | Some w \<Rightarrow>
                  (case make_buf (if mode AND PORT_MODE_BIG_BUFFER \<noteq> 0 then PORT_BUFF_SIZE_BIG else PORT_BUFF_SIZE) buf_mem of
                     None \<Rightarrow> Inr (ERR_NO_MEMORY, None, ps, s2)
                   | Some b \<Rightarrow>
                      bindE (thread_lock cpu s2) (\<lambda>s3. bindE (thread_unlock cpu s3) (\<lambda>s4.
                        let ps1 = set_obj w (Write_port \<lparr>wp_magic = WRITEPORT_MAGIC_W, wp_buf = Some b, wp_rp_list = [],
                                    wp_mode = mode, wp_name = pname\<rparr>) ps
                        in Inr (NO_ERROR, Some w, ps1\<lparr>write_port_list := write_port_list ps1 @ [w]\<rparr>, s4))))))))"

text \<open>The critical section of \<^verbatim>\<open>port_open\<close>, with the read port at address \<open>r\<close>.\<close>

definition open_locked :: "string \<Rightarrow> port \<Rightarrow> nat \<Rightarrow> port_buf \<Rightarrow> port_sys \<Rightarrow> (int \<times> port_sys) res" where
  "open_locked pname r ctx b ps =
     (case find (has_name ps pname) (write_port_list ps) of
        None \<Rightarrow> Inr (ERR_NOT_FOUND, ps)
      | Some w \<Rightarrow> bindE (as_write w ps)
          (\<lambda>wp. let rp = \<lparr>rp_magic = READPORT_MAGIC, rp_buf = None, rp_ctx = ctx, rp_wport = Some w, rp_gport = None\<rparr>
            in case wp_buf wp of
              Some wb \<Rightarrow> Inr (NO_ERROR, set_obj r (Read_port (rp\<lparr>rp_buf := Some wb\<rparr>))
                 (set_obj w (Write_port (wp\<lparr>wp_rp_list := wp_rp_list wp @ [r], wp_buf := None\<rparr>)) ps))
            | None \<Rightarrow>
               if wp_mode wp AND PORT_MODE_UNICAST \<noteq> 0 then Inr (ERR_NOT_ALLOWED, ps)
               else Inr (NO_ERROR, set_obj r (Read_port (rp\<lparr>rp_buf := Some b\<rparr>))
                 (set_obj w (Write_port (wp\<lparr>wp_rp_list := wp_rp_list wp @ [r]\<rparr>)) ps))))"

definition port_open ::
    "cpu_num \<Rightarrow> string option \<Rightarrow> nat \<Rightarrow> bool \<Rightarrow> port option \<Rightarrow> port_packet list option \<Rightarrow>
     port_sys \<Rightarrow> kstate \<Rightarrow> (int \<times> port option \<times> port_sys \<times> kstate) res" where
  "port_open cpu nm ctx out rp_mem buf_mem ps s =
     (case (nm, out) of
        (Some pname, True) \<Rightarrow>
          (case rp_mem of
             None \<Rightarrow> Inr (ERR_NO_MEMORY, None, ps, s)
           | Some r \<Rightarrow>
              let s1 = wait_queue_init (Obj_wq r) s
              in case make_buf PORT_BUFF_SIZE buf_mem of
                   None \<Rightarrow> Inr (ERR_NO_MEMORY, None, ps, s1)
                 | Some b \<Rightarrow>
                    bindE (thread_lock cpu s1) (\<lambda>s2. bindE (open_locked pname r ctx b ps)
                      (\<lambda>(rc, ps1). bindE (thread_unlock cpu s2)
                        (\<lambda>s3. Inr (rc, if rc = NO_ERROR then Some r else None, ps1, s3)))))
      | _ \<Rightarrow> Inr (ERR_INVALID_ARGS, None, ps, s))"

section \<open>Groups\<close>

definition set_gport :: "port option \<Rightarrow> port \<Rightarrow> port_sys \<Rightarrow> port_sys" where
  "set_gport g r ps = (case port_objs ps r of
       Some (Read_port rp) \<Rightarrow> set_obj r (Read_port (rp\<lparr>rp_gport := g\<rparr>)) ps | _ \<Rightarrow> ps)"

definition groupable :: "port_obj \<Rightarrow> bool" where
  "groupable ob = (case ob of Read_port rp \<Rightarrow> rp_magic rp = READPORT_MAGIC \<and> rp_gport rp = None | _ \<Rightarrow> False)"

definition link_group :: "port \<Rightarrow> port \<Rightarrow> port_sys \<Rightarrow> port_sys res" where
  "link_group g r ps = bindE (as_group g ps)
     (\<lambda>pg. Inr (set_obj g (Port_group (pg\<lparr>pg_rp_list := pg_rp_list pg @ [r]\<rparr>)) (set_gport (Some g) r ps)))"

text \<open>The loop of \<^verbatim>\<open>port_group\<close>; \<open>seen\<close> are the ports already linked, for the undo.\<close>

fun group_loop :: "port \<Rightarrow> port list \<Rightarrow> port list \<Rightarrow> port_sys \<Rightarrow> (int \<times> port_sys) res" where
  "group_loop g seen [] ps = Inr (NO_ERROR, ps)"
| "group_loop g seen (r # rs) ps =
     bindE (deref r ps)
       (\<lambda>ob. if \<not> groupable ob then Inr (ERR_BAD_HANDLE, foldl (\<lambda>ps r. set_gport None r ps) ps seen)
             else bindE (link_group g r ps) (group_loop g (seen @ [r]) rs))"

definition port_group ::
    "cpu_num \<Rightarrow> port list option \<Rightarrow> nat \<Rightarrow> bool \<Rightarrow> port option \<Rightarrow> port_sys \<Rightarrow> kstate \<Rightarrow>
     (int \<times> port option \<times> port_sys \<times> kstate) res" where
  "port_group cpu prts count out pg_mem ps s =
     (if count > MAX_PORT_GROUP_COUNT then Inr (ERR_TOO_BIG, None, ps, s)
      else if count \<noteq> 0 \<and> prts = None then Inr (ERR_INVALID_ARGS, None, ps, s)
      else if \<not> out then Inr (ERR_INVALID_ARGS, None, ps, s)
      else case pg_mem of
        None \<Rightarrow> Inr (ERR_NO_MEMORY, None, ps, s)
      | Some g \<Rightarrow>
         let s1 = wait_queue_init (Obj_wq g) s;
             ps1 = set_obj g (Port_group \<lparr>pg_magic = PORTGROUP_MAGIC, pg_rp_list = []\<rparr>) ps;
             rs = (case prts of None \<Rightarrow> [] | Some l \<Rightarrow> take count l)
         in bindE (thread_lock cpu s1) (\<lambda>s2. bindE (group_loop g [] rs ps1)
              (\<lambda>(rc, ps2). bindE (thread_unlock cpu s2)
                (\<lambda>s3. if rc = NO_ERROR then Inr (rc, Some g, ps2, s3) else Inr (rc, None, free_obj g ps2, s3)))))"

definition port_group_add ::
    "cpu_num \<Rightarrow> port \<Rightarrow> port \<Rightarrow> port_sys \<Rightarrow> kstate \<Rightarrow> (int \<times> port_sys \<times> kstate) res" where
  "port_group_add cpu g r ps s =
     (if r = 0 \<or> g = 0 then Inr (ERR_INVALID_ARGS, ps, s)
      else bindE (deref g ps) (\<lambda>gob. if port_magic gob \<noteq> PORTGROUP_MAGIC then Inr (ERR_INVALID_ARGS, ps, s)
      else bindE (deref r ps) (\<lambda>rob. if \<not> groupable rob then Inr (ERR_BAD_HANDLE, ps, s)
      else bindE (thread_lock cpu s) (\<lambda>s1. bindE (as_group g ps)
        (\<lambda>pg. if length (pg_rp_list pg) = MAX_PORT_GROUP_COUNT
              then bindE (thread_unlock cpu s1) (\<lambda>s2. Inr (ERR_TOO_BIG, ps, s2))
              else bindE (link_group g r ps) (\<lambda>ps1. bindE (as_read r ps1)
                (\<lambda>rp. case rp_buf rp of
                   None \<Rightarrow> Inl (Panic ''NULL buffer'')
                 | Some b \<Rightarrow>
                    bindE (if \<not> buf_is_empty b
                           then bindE (wait_queue_wake_one cpu (Obj_wq g) False NO_ERROR s1) (\<lambda>(_, s2). Inr s2)
                           else Inr s1)
                      (\<lambda>s2. bindE (thread_unlock cpu s2) (\<lambda>s3. Inr (NO_ERROR, ps1, s3))))))))))"

definition unlink_group :: "port \<Rightarrow> port \<Rightarrow> port_sys \<Rightarrow> port_sys res" where
  "unlink_group g r ps = bindE (as_group g ps)
     (\<lambda>pg. guardE ''g_node in a list'' (r \<in> set (pg_rp_list pg))
       (Inr (set_obj g (Port_group (pg\<lparr>pg_rp_list := remove1 r (pg_rp_list pg)\<rparr>)) ps)))"

text \<open>When the port is not in the list the function returns without releasing the lock.\<close>

definition port_group_remove ::
    "cpu_num \<Rightarrow> port \<Rightarrow> port \<Rightarrow> port_sys \<Rightarrow> kstate \<Rightarrow> (int \<times> port_sys \<times> kstate) res" where
  "port_group_remove cpu g r ps s =
     (if r = 0 \<or> g = 0 then Inr (ERR_INVALID_ARGS, ps, s)
      else bindE (deref g ps) (\<lambda>gob. if port_magic gob \<noteq> PORTGROUP_MAGIC then Inr (ERR_INVALID_ARGS, ps, s)
      else bindE (deref r ps) (\<lambda>rob. case rob of
        Read_port rp \<Rightarrow>
          if rp_magic rp \<noteq> READPORT_MAGIC \<or> rp_gport rp \<noteq> Some g then Inr (ERR_BAD_HANDLE, ps, s)
          else bindE (thread_lock cpu s) (\<lambda>s1. bindE (as_group g ps)
            (\<lambda>pg. if r \<notin> set (pg_rp_list pg) then Inr (ERR_BAD_HANDLE, ps, s1)
                  else bindE (unlink_group g r ps) (\<lambda>ps1. bindE (thread_unlock cpu s1) (\<lambda>s2. Inr (NO_ERROR, ps1, s2)))))
      | _ \<Rightarrow> Inr (ERR_BAD_HANDLE, ps, s))))"

section \<open>Writing\<close>

text \<open>The wake-ups after a packet has been written to the read port at \<open>r\<close>: its group first.\<close>

definition wake_reader :: "cpu_num \<Rightarrow> port \<Rightarrow> read_port \<Rightarrow> kstate \<Rightarrow> (int \<times> kstate) res" where
  "wake_reader cpu r rp s =
     bindE (case rp_gport rp of
              Some g \<Rightarrow> wait_queue_wake_one cpu (Obj_wq g) False NO_ERROR s
            | None \<Rightarrow> Inr (0, s))
       (\<lambda>(awaken, s1). if awaken = 0 then wait_queue_wake_one cpu (Obj_wq r) False NO_ERROR s1 else Inr (awaken, s1))"

text \<open>The loop over the read ports, with the status and the number of woken threads so far.\<close>

fun write_readers ::
    "cpu_num \<Rightarrow> port_packet list \<Rightarrow> port list \<Rightarrow> int \<Rightarrow> int \<Rightarrow> port_sys \<Rightarrow> kstate \<Rightarrow> (int \<times> int \<times> port_sys \<times> kstate) res" where
  "write_readers cpu pks [] status awake ps s = Inr (status, awake, ps, s)"
| "write_readers cpu pks (r # rs) status awake ps s =
     bindE (as_read r ps)
       (\<lambda>rp. case rp_buf rp of
          None \<Rightarrow> Inl (Panic ''NULL buffer'')
        | Some b \<Rightarrow>
           (case buf_write b pks of (rc, b1) \<Rightarrow>
              if rc < 0 then write_readers cpu pks rs ERR_PARTIAL_WRITE awake ps s
              else bindE (wake_reader cpu r rp s)
                     (\<lambda>(awaken, s1). write_readers cpu pks rs status (awake + awaken)
                        (set_obj r (Read_port (rp\<lparr>rp_buf := Some b1\<rparr>)) ps) s1)))"

text \<open>\<^verbatim>\<open>pk == NULL\<close> is \<open>None\<close>.\<close>

definition port_write ::
    "cpu_num \<Rightarrow> port \<Rightarrow> port_packet list option \<Rightarrow> port_sys \<Rightarrow> kstate \<Rightarrow> (int \<times> port_sys \<times> kstate) res" where
  "port_write cpu w pk ps s =
     (case pk of
        None \<Rightarrow> Inr (ERR_INVALID_ARGS, ps, s)
      | Some pks \<Rightarrow>
         if w = 0 then Inr (ERR_INVALID_ARGS, ps, s)
         else bindE (thread_lock cpu s) (\<lambda>s1. bindE (deref w ps)
           (\<lambda>ob. if port_magic ob \<noteq> WRITEPORT_MAGIC_W
                 then bindE (thread_unlock cpu s1) (\<lambda>s2. Inr (ERR_BAD_HANDLE, ps, s2))
                 else bindE (as_write w ps)
                   (\<lambda>wp. bindE (case wp_buf wp of
                        Some b \<Rightarrow> (case buf_write b pks of (rc, b1) \<Rightarrow>
                                    Inr (rc, 0, set_obj w (Write_port (wp\<lparr>wp_buf := Some b1\<rparr>)) ps, s1))
                      | None \<Rightarrow> write_readers cpu pks (wp_rp_list wp) NO_ERROR 0 ps s1)
                     (\<lambda>(status, awake, ps1, s2). bindE (thread_unlock cpu s2)
                       (\<lambda>s3. bindE (if awake \<noteq> 0 then thread_yield cpu s3 else Inr s3)
                         (\<lambda>s4. Inr (status, ps1, s4))))))))"

section \<open>Reading\<close>

text \<open>A result is the status, the packet if one was copied, and the \<^verbatim>\<open>ctx\<close> of the port if this
  part of the call has set it.\<close>

type_synonym port_result = "int \<times> port_packet option \<times> nat option"

text \<open>The first lines of \<^verbatim>\<open>read_no_lock\<close>, which are all of it when the timeout is 0.\<close>

definition try_read :: "port \<Rightarrow> port_sys \<Rightarrow> (port_result \<times> port_sys) res" where
  "try_read r ps = bindE (as_read r ps)
     (\<lambda>rp. case rp_buf rp of
        None \<Rightarrow> Inl (Panic ''NULL buffer'')
      | Some b \<Rightarrow> (case buf_read b of (rc, pk, b1) \<Rightarrow>
          Inr ((if rc = ERR_NO_MSG then ERR_TIMED_OUT else rc, pk, Some (rp_ctx rp)),
               set_obj r (Read_port (rp\<lparr>rp_buf := Some b1\<rparr>)) ps)))"

partial_function (option) read_no_lock ::
    "cpu_num \<Rightarrow> port \<Rightarrow> time_ms \<Rightarrow> port_sys \<Rightarrow> kstate \<Rightarrow> (port_sys \<times> port_result call) res option" where
  "read_no_lock cpu r timeout ps s =
     (case try_read r ps of
        Inl e \<Rightarrow> Some (Inl e)
      | Inr ((rc, pk, c), ps1) \<Rightarrow>
          if rc \<noteq> ERR_TIMED_OUT \<or> timeout = 0 then Some (Inr (ps1, Return (rc, pk, c) s))
          else (case wait_queue_block cpu (Obj_wq r) timeout s of
                  Inl e \<Rightarrow> Some (Inl e)
                | Inr (Switched_out s1) \<Rightarrow> Some (Inr (ps1, Switched_out s1))
                | Inr (Return wr s1) \<Rightarrow>
                    if wr \<noteq> NO_ERROR then Some (Inr (ps1, Return (wr, None, c) s1))
                    else read_no_lock cpu r timeout ps1 s1))"

text \<open>One pass over the ports of a group: the first that has a packet. \<open>c\<close> is the last \<^verbatim>\<open>ctx\<close> stored.\<close>

fun scan_group :: "port list \<Rightarrow> nat option \<Rightarrow> port_sys \<Rightarrow> (bool \<times> port_result \<times> port_sys) res" where
  "scan_group [] c ps = Inr (False, (ERR_TIMED_OUT, None, c), ps)"
| "scan_group (r # rs) c ps =
     bindE (try_read r ps)
       (\<lambda>((rc, pk, c1), ps1). if rc \<noteq> ERR_TIMED_OUT then Inr (True, (rc, pk, c1), ps1) else scan_group rs c1 ps1)"

partial_function (option) read_group ::
    "cpu_num \<Rightarrow> port \<Rightarrow> time_ms \<Rightarrow> port_sys \<Rightarrow> kstate \<Rightarrow> (port_sys \<times> port_result call) res option" where
  "read_group cpu g timeout ps s =
     (case bindE (as_group g ps) (\<lambda>pg. scan_group (pg_rp_list pg) None ps) of
        Inl e \<Rightarrow> Some (Inl e)
      | Inr (found, (rc, pk, c), ps1) \<Rightarrow>
          if found then Some (Inr (ps1, Return (rc, pk, c) s))
          else (case wait_queue_block cpu (Obj_wq g) timeout s of
             Inl e \<Rightarrow> Some (Inl e)
           | Inr (Switched_out s1) \<Rightarrow> Some (Inr (ps1, Switched_out s1))
           | Inr (Return wr s1) \<Rightarrow>
               if wr \<noteq> NO_ERROR then Some (Inr (ps1, Return (wr, None, c) s1))
               else read_group cpu g timeout ps1 s1))"

definition unlock_read :: "cpu_num \<Rightarrow> (port_sys \<times> port_result call) res option \<Rightarrow> (port_sys \<times> port_result call) res option" where
  "unlock_read cpu m = Option.bind m
     (\<lambda>r. Some (bindE r (\<lambda>(ps, c). bindE (unlock_call cpu c) (\<lambda>d. Inr (ps, d)))))"

definition port_read ::
    "cpu_num \<Rightarrow> port \<Rightarrow> time_ms \<Rightarrow> bool \<Rightarrow> port_sys \<Rightarrow> kstate \<Rightarrow> (port_sys \<times> port_result call) res option" where
  "port_read cpu p timeout result ps s =
     (if p = 0 \<or> \<not> result then Some (Inr (ps, Return (ERR_INVALID_ARGS, None, None) s))
      else case bindE (thread_lock cpu s) (\<lambda>s1. bindE (deref p ps) (\<lambda>ob. Inr (ob, s1))) of
        Inl e \<Rightarrow> Some (Inl e)
      | Inr (ob, s1) \<Rightarrow> unlock_read cpu
          (if port_magic ob = READPORT_MAGIC then read_no_lock cpu p timeout ps s1
           else if port_magic ob = PORTGROUP_MAGIC then read_group cpu p timeout ps s1
           else Some (Inr (ps, Return (ERR_BAD_HANDLE, None, None) s1))))"

text \<open>The rest of a read that blocked on a port or on a group, once the thread runs again.\<close>

definition read_resume ::
    "(cpu_num \<Rightarrow> port \<Rightarrow> time_ms \<Rightarrow> port_sys \<Rightarrow> kstate \<Rightarrow> (port_sys \<times> port_result call) res option) \<Rightarrow>
     cpu_num \<Rightarrow> port \<Rightarrow> time_ms \<Rightarrow> port_sys \<Rightarrow> kstate \<Rightarrow> (port_sys \<times> port_result call) res option" where
  "read_resume again cpu p timeout ps s =
     (case wait_queue_block_resume cpu timeout s of
        Inl e \<Rightarrow> Some (Inl e)
      | Inr (Switched_out s1) \<Rightarrow> Some (Inr (ps, Switched_out s1))
      | Inr (Return wr s1) \<Rightarrow> unlock_read cpu
          (if wr \<noteq> NO_ERROR then Some (Inr (ps, Return (wr, None, None) s1)) else again cpu p timeout ps s1))"

definition port_read_resume ::
    "cpu_num \<Rightarrow> port \<Rightarrow> time_ms \<Rightarrow> port_sys \<Rightarrow> kstate \<Rightarrow> (port_sys \<times> port_result call) res option" where
  "port_read_resume = read_resume read_no_lock"

definition group_read_resume ::
    "cpu_num \<Rightarrow> port \<Rightarrow> time_ms \<Rightarrow> port_sys \<Rightarrow> kstate \<Rightarrow> (port_sys \<times> port_result call) res option" where
  "group_read_resume = read_resume read_group"

section \<open>Closing\<close>

text \<open>The loop of \<^verbatim>\<open>port_destroy\<close> over the read ports of the write port.\<close>

fun cancel_readers :: "cpu_num \<Rightarrow> port list \<Rightarrow> port_sys \<Rightarrow> kstate \<Rightarrow> (port_sys \<times> kstate) res" where
  "cancel_readers cpu [] ps s = Inr (ps, s)"
| "cancel_readers cpu (r # rs) ps s =
     bindE (as_read r ps)
       (\<lambda>rp. bindE (wait_queue_wake_all cpu (Obj_wq r) False ERR_CANCELLED s)
         (\<lambda>(_, s1). bindE (case rp_gport rp of
                Some g \<Rightarrow> bindE (wait_queue_wake_all cpu (Obj_wq g) False ERR_CANCELLED s1) (\<lambda>(_, s2). Inr s2)
              | None \<Rightarrow> Inr s1)
           (\<lambda>s2. cancel_readers cpu rs (set_obj r (Read_port (rp\<lparr>rp_wport := None\<rparr>)) ps) s2)))"

definition port_destroy :: "cpu_num \<Rightarrow> port \<Rightarrow> port_sys \<Rightarrow> kstate \<Rightarrow> (int \<times> port_sys \<times> kstate) res" where
  "port_destroy cpu w ps s =
     (if w = 0 then Inr (ERR_INVALID_ARGS, ps, s)
      else bindE (thread_lock cpu s) (\<lambda>s1. bindE (deref w ps)
        (\<lambda>ob. if port_magic ob \<noteq> WRITEPORT_MAGIC_X
              then bindE (thread_unlock cpu s1) (\<lambda>s2. Inr (ERR_BAD_HANDLE, ps, s2))
              else bindE (as_write w ps)
                (\<lambda>wp. guardE ''node in a list'' (w \<in> set (write_port_list ps))
                  (let ps1 = ps\<lparr>write_port_list := remove1 w (write_port_list ps)\<rparr>
                   in bindE (if wp_buf wp \<noteq> None then Inr (ps1, s1) else cancel_readers cpu (wp_rp_list wp) ps1 s1)
                     (\<lambda>(ps2, s2). bindE (thread_unlock cpu s2) (\<lambda>s3. Inr (NO_ERROR, free_obj w ps2, s3))))))))"

text \<open>
  The part of \<^verbatim>\<open>port_close\<close> that takes a read port off its write port: the last reader gives the
  buffer back, any other one drops it.
\<close>

definition detach_reader :: "port \<Rightarrow> read_port \<Rightarrow> port_sys \<Rightarrow> port_sys res" where
  "detach_reader r rp ps = (case rp_wport rp of
       None \<Rightarrow> Inr ps
     | Some w \<Rightarrow> bindE (as_write w ps)
         (\<lambda>wp. guardE ''w_node in a list'' (r \<in> set (wp_rp_list wp))
           (let rest = remove1 r (wp_rp_list wp)
            in Inr (if rest = []
                    then set_obj r (Read_port (rp\<lparr>rp_buf := None\<rparr>))
                           (set_obj w (Write_port (wp\<lparr>wp_rp_list := rest, wp_buf := rp_buf rp\<rparr>)) ps)
                    else set_obj w (Write_port (wp\<lparr>wp_rp_list := rest\<rparr>)) ps))))"

definition close_read :: "cpu_num \<Rightarrow> port \<Rightarrow> read_port \<Rightarrow> port_sys \<Rightarrow> kstate \<Rightarrow> (port_sys \<times> kstate) res" where
  "close_read cpu r rp ps s =
     bindE (detach_reader r rp ps)
       (\<lambda>ps1. bindE (case rp_gport rp of Some g \<Rightarrow> unlink_group g r ps1 | None \<Rightarrow> Inr ps1)
         (\<lambda>ps2. bindE (wait_queue_destroy cpu (Obj_wq r) True s) (\<lambda>s1. Inr (ps2, s1))))"

definition close_group :: "cpu_num \<Rightarrow> port \<Rightarrow> portgroup \<Rightarrow> port_sys \<Rightarrow> kstate \<Rightarrow> (port_sys \<times> kstate) res" where
  "close_group cpu g pg ps s =
     bindE (wait_queue_destroy cpu (Obj_wq g) True s)
       (\<lambda>s1. Inr (foldl (\<lambda>ps r. set_gport None r ps) ps (pg_rp_list pg), s1))"

definition port_close :: "cpu_num \<Rightarrow> port \<Rightarrow> port_sys \<Rightarrow> kstate \<Rightarrow> (int \<times> port_sys \<times> kstate) res" where
  "port_close cpu p ps s =
     (if p = 0 then Inr (ERR_INVALID_ARGS, ps, s)
      else bindE (thread_lock cpu s) (\<lambda>s1. bindE (deref p ps)
        (\<lambda>ob. if port_magic ob = READPORT_MAGIC then
                bindE (as_read p ps) (\<lambda>rp. bindE (close_read cpu p rp ps s1)
                  (\<lambda>(ps1, s2). bindE (thread_unlock cpu s2) (\<lambda>s3. Inr (NO_ERROR, free_obj p ps1, s3))))
              else if port_magic ob = PORTGROUP_MAGIC then
                bindE (as_group p ps) (\<lambda>pg. bindE (close_group cpu p pg ps s1)
                  (\<lambda>(ps1, s2). bindE (thread_unlock cpu s2) (\<lambda>s3. Inr (NO_ERROR, free_obj p ps1, s3))))
              else if port_magic ob = WRITEPORT_MAGIC_W then
                bindE (as_write p ps) (\<lambda>wp. bindE (thread_unlock cpu s1)
                  (\<lambda>s2. Inr (NO_ERROR, set_obj p (Write_port (wp\<lparr>wp_magic := WRITEPORT_MAGIC_X\<rparr>)) ps, s2)))
              else bindE (thread_unlock cpu s1) (\<lambda>s2. Inr (ERR_BAD_HANDLE, ps, s2)))))"

end
