(* ===== verification/Port_Invariant.thy ===== *)
theory Port_Invariant
  imports Port
begin

text \<open>
  Ports, first part of the proofs: a packet buffer is a first-in first-out queue, the invariant
  that ties write ports, read ports and groups together, and creating, opening, writing and
  reading, which keep it.
\<close>

section \<open>A packet buffer is a queue\<close>

definition buf_used :: "port_buf \<Rightarrow> nat" where
  "buf_used b = 2 ^ pb_log2 b - unat (pb_avail b)"

definition buf_ok :: "port_buf \<Rightarrow> bool" where
  "buf_ok b \<longleftrightarrow> pb_log2 b < 32 \<and> length (pb_packet b) = 2 ^ pb_log2 b \<and> unat (pb_avail b) \<le> 2 ^ pb_log2 b \<and>
     unat (pb_head b) < 2 ^ pb_log2 b \<and> unat (pb_tail b) = (unat (pb_head b) + buf_used b) mod 2 ^ pb_log2 b"

definition buf_contents :: "port_buf \<Rightarrow> port_packet list" where
  "buf_contents b = ring_slice (pb_packet b) (unat (pb_head b)) (buf_used b)"

lemma unat_next: "p < 32 \<Longrightarrow> unat (modpow2 (i + 1) p) = (unat i + 1) mod 2 ^ p"
proof -
  assume p: "p < 32"
  have "unat (i + 1) = (unat i + 1) mod 2 ^ 32" by (simp add: unat_word_ariths)
  moreover have "(2 :: nat) ^ p dvd 2 ^ 32" using p by (intro le_imp_power_dvd) simp
  ultimately show ?thesis using p by (simp add: unat_modpow2 mod_mod_cancel)
qed

lemma buf_empty_iff: "buf_ok b \<Longrightarrow> buf_is_empty b \<longleftrightarrow> buf_contents b = []"
  by (auto simp: buf_ok_def buf_is_empty_def buf_contents_def buf_used_def word_unat_eq_iff unat_valpow2)

lemma make_buf_ok:
  assumes "k < 32" "length mem = 2 ^ k"
  shows "\<exists>b. make_buf (valpow2 k) (Some mem) = Some b \<and> buf_ok b \<and> buf_contents b = [] \<and> pb_log2 b = k"
proof -
  have v0: "valpow2 k \<noteq> 0" using unat_valpow2 [OF assms(1)] by auto
  note b = log2_uint_bounds [OF v0, unfolded unat_valpow2 [OF assms(1)]]
  from b(1) have "log2_uint (valpow2 k) \<le> k" by (rule power_le_imp_le_exp [rotated]) simp
  moreover from b(2) have "k < Suc (log2_uint (valpow2 k))" by (rule power_less_imp_less_exp [rotated]) simp
  ultimately have "log2_uint (valpow2 k) = k" by simp
  with assms show ?thesis
    by (simp add: make_buf_def buf_ok_def buf_contents_def buf_used_def unat_valpow2)
qed

text \<open>
  Storing \<open>pks\<close> behind \<open>n\<close> packets. The counter \<^verbatim>\<open>avail\<close> is only updated after the loop, so the loop
  is described by the number of packets so far.
\<close>

lemma buf_store_ok:
  assumes "pb_log2 b < 32" "length (pb_packet b) = 2 ^ pb_log2 b"
    "unat (pb_tail b) = (h + n) mod 2 ^ pb_log2 b" "n + length pks \<le> 2 ^ pb_log2 b"
  shows "ring_slice (pb_packet (buf_store pks b)) h (n + length pks) = ring_slice (pb_packet b) h n @ pks \<and>
    length (pb_packet (buf_store pks b)) = 2 ^ pb_log2 b \<and>
    unat (pb_tail (buf_store pks b)) = (h + (n + length pks)) mod 2 ^ pb_log2 b \<and>
    pb_head (buf_store pks b) = pb_head b \<and> pb_log2 (buf_store pks b) = pb_log2 b"
  using assms
proof (induction pks b arbitrary: n rule: buf_store.induct)
  case (2 pk pks b)
  let ?m = "2 ^ pb_log2 b :: nat" and ?t = "unat (pb_tail b)"
  let ?b1 = "b\<lparr>pb_packet := (pb_packet b)[?t := pk], pb_tail := modpow2 (pb_tail b + 1) (pb_log2 b)\<rparr>"
  have t: "?t < ?m" using 2(4) by simp
  have one: "ring_slice (pb_packet ?b1) h (n + length [pk]) = ring_slice (pb_packet b) h n @ [pk]"
  proof (rule ring_slice_extend)
    fix i assume i: "i < n"
    have "(h + i) mod ?m \<noteq> (h + n) mod ?m"
      using ring_pos_inj [of h i ?m n] i 2(5) by auto
    with 2(3,4) show "pb_packet ?b1 ! ((h + i) mod length (pb_packet b)) = pb_packet b ! ((h + i) mod length (pb_packet b))"
      by simp
  qed (use 2 t in simp_all)
  have "unat (pb_tail ?b1) = (h + (n + 1)) mod ?m"
    using 2(2,4) by (simp add: unat_next mod_simps del: Suc_eq_plus1)
  with 2(1) [of "n + 1"] 2(2,3,5) one show ?case by simp
qed simp

lemma buf_write_ok:
  assumes ok: "buf_ok b"
  shows "buf_write b pks = (rc, b') \<Longrightarrow>
    buf_ok b' \<and> pb_log2 b' = pb_log2 b \<and>
    (if length (buf_contents b) + length pks \<le> 2 ^ pb_log2 b
     then rc = NO_ERROR \<and> buf_contents b' = buf_contents b @ pks
     else rc = ERR_NOT_ENOUGH_BUFFER \<and> b' = b)"
proof -
  assume w: "buf_write b pks = (rc, b')"
  let ?m = "2 ^ pb_log2 b :: nat" and ?a = "unat (pb_avail b)" and ?l = "length pks"
  from ok have b: "pb_log2 b < 32" "length (pb_packet b) = ?m" "?a \<le> ?m" "unat (pb_head b) < ?m"
    "unat (pb_tail b) = (unat (pb_head b) + buf_used b) mod ?m" by (simp_all add: buf_ok_def)
  have len: "length (buf_contents b) = ?m - ?a" by (simp add: buf_contents_def buf_used_def)
  show ?thesis
  proof (cases "?a < ?l")
    case True
    with w ok len b(3) show ?thesis by (auto simp: buf_write_def)
  next
    case False
    then have l: "?l \<le> ?a" by simp
    have "?a < 2 ^ LENGTH(32)" by (rule unsigned_less)
    with l have "?l < 2 ^ 32" by simp
    then have "unat (of_nat ?l :: 32 word) = ?l" by (simp add: unat_of_nat)
    then have av: "unat (pb_avail b - of_nat ?l) = ?a - ?l" using l by (simp add: unat_sub word_le_nat_alt)
    have room: "buf_used b + ?l \<le> ?m" using b(3) l by (simp add: buf_used_def)
    note st = buf_store_ok [OF b(1,2,5) room]
    have eq: "rc = NO_ERROR" "b' = (buf_store pks b)\<lparr>pb_avail := pb_avail b - of_nat ?l\<rparr>"
      using w False by (simp_all add: buf_write_def)
    have "buf_used b' = buf_used b + ?l" using st av l b(3) by (simp add: eq buf_used_def)
    with st eq av b room len l show ?thesis by (simp add: buf_ok_def buf_contents_def)
  qed
qed

lemma buf_read_ok:
  assumes ok: "buf_ok b"
  shows "buf_read b = (rc, pk, b') \<Longrightarrow> buf_ok b' \<and> pb_log2 b' = pb_log2 b \<and>
    (case buf_contents b of
       [] \<Rightarrow> rc = ERR_NO_MSG \<and> pk = None \<and> b' = b
     | x # xs \<Rightarrow> rc = NO_ERROR \<and> pk = Some x \<and> buf_contents b' = xs)"
proof -
  assume r: "buf_read b = (rc, pk, b')"
  let ?m = "2 ^ pb_log2 b :: nat" and ?a = "unat (pb_avail b)" and ?h = "unat (pb_head b)"
  from ok have b: "pb_log2 b < 32" "length (pb_packet b) = ?m" "?a \<le> ?m" "?h < ?m"
    "unat (pb_tail b) = (?h + buf_used b) mod ?m" by (simp_all add: buf_ok_def)
  show ?thesis
  proof (cases "buf_contents b")
    case Nil
    with r ok show ?thesis by (simp add: buf_read_def buf_empty_iff)
  next
    case (Cons x xs)
    then have u: "0 < buf_used b" by (cases "buf_used b") (simp_all add: buf_contents_def)
    have x: "pb_packet b ! ?h = x" using nth_ring_slice [OF u, of "pb_packet b" ?h] Cons b by (simp add: buf_contents_def)
    have eq: "rc = NO_ERROR" "pk = Some x"
      "b' = b\<lparr>pb_head := modpow2 (pb_head b + 1) (pb_log2 b), pb_avail := pb_avail b + 1\<rparr>"
      using r Cons ok x by (simp_all add: buf_read_def buf_empty_iff)
    have "?a < ?m" using u by (simp add: buf_used_def)
    then have "unat (pb_avail b + 1) = ?a + 1"
      using b(1) power_strict_increasing [of "pb_log2 b" 32 "2 :: nat"] by (simp add: unat_word_ariths)
    then have us: "buf_used b' = buf_used b - 1" and av: "unat (pb_avail b') \<le> ?m"
      using \<open>?a < ?m\<close> by (simp_all add: eq buf_used_def)
    have hd: "unat (pb_head b') = (?h + 1) mod ?m" using b(1) by (simp add: eq unat_next)
    have "buf_contents b' = drop 1 (buf_contents b)"
      using ring_slice_drop [of 1 "buf_used b" "pb_packet b" ?h] u b(2) hd us
      by (simp add: buf_contents_def) (simp add: eq)
    moreover have "(?h + buf_used b) mod ?m = ((?h + 1) mod ?m + (buf_used b - 1)) mod ?m"
      unfolding mod_add_left_eq using u by simp
    then have "buf_ok b'" using b av hd us by (simp add: buf_ok_def eq(3))
    ultimately show ?thesis using Cons eq by simp
  qed
qed


text \<open>A write takes all packets or none; reading one after the other gives them back in order.\<close>

definition buf_put :: "port_packet list \<Rightarrow> port_buf \<Rightarrow> nat \<times> port_buf" where
  "buf_put pks b = (case buf_write b pks of (rc, b1) \<Rightarrow> (if rc = NO_ERROR then length pks else 0, b1))"

fun buf_get :: "nat \<Rightarrow> port_buf \<Rightarrow> port_packet list \<times> port_buf" where
  "buf_get 0 b = ([], b)"
| "buf_get (Suc n) b = (case buf_read b of
      (_, None, b1) \<Rightarrow> ([], b1)
    | (_, Some pk, b1) \<Rightarrow> (case buf_get n b1 of (pks, b2) \<Rightarrow> (pk # pks, b2)))"

lemma buf_get_ok:
  "buf_ok b \<Longrightarrow> buf_get n b = (pks, b') \<Longrightarrow>
    buf_ok b' \<and> pb_log2 b' = pb_log2 b \<and> pks = take n (buf_contents b) \<and> buf_contents b' = drop n (buf_contents b)"
proof (induction n b arbitrary: pks rule: buf_get.induct)
  case (2 n b)
  obtain rc pk b1 where r: "buf_read b = (rc, pk, b1)" by (cases "buf_read b")
  note ok = buf_read_ok [OF 2(2) r]
  show ?case
  proof (cases "buf_contents b")
    case Nil
    with ok 2(2,3) r show ?thesis by auto
  next
    case (Cons x xs)
    with ok have b1: "buf_ok b1" "pb_log2 b1 = pb_log2 b" "pk = Some x" "buf_contents b1 = xs" by auto
    obtain pks1 b2 where g: "buf_get n b1 = (pks1, b2)" by fastforce
    from 2(1) [OF r [symmetric] refl b1(3) b1(1), of pks1] b1 2(3) r g Cons show ?thesis by auto
  qed
qed simp

interpretation pb: fifo buf_ok buf_contents "\<lambda>b. 2 ^ pb_log2 b" buf_put buf_get
proof unfold_locales
  fix b :: port_buf assume "buf_ok b"
  then show "length (buf_contents b) \<le> 2 ^ pb_log2 b" by (simp add: buf_contents_def buf_used_def)
next
  fix b b' pks n assume a: "buf_ok b" "buf_put pks b = (n, b')"
  obtain rc b1 where w: "buf_write b pks = (rc, b1)" by fastforce
  note ok = buf_write_ok [OF a(1) w]
  have n: "n = (if rc = NO_ERROR then length pks else 0)" "b' = b1" using a(2) w by (simp_all add: buf_put_def)
  then show "buf_ok b' \<and> 2 ^ pb_log2 b' = (2 :: nat) ^ pb_log2 b \<and> n \<le> length pks \<and>
      buf_contents b' = buf_contents b @ take n pks"
    using ok by (auto split: if_splits)
  assume "length (buf_contents b) + length pks \<le> 2 ^ pb_log2 b"
  then show "n = length pks" using n ok by simp
next
  fix b b' pks n assume "buf_ok b" "buf_get n b = (pks, b')"
  then show "buf_ok b' \<and> 2 ^ pb_log2 b' = (2 :: nat) ^ pb_log2 b \<and> pks = take n (buf_contents b) \<and>
      buf_contents b' = drop n (buf_contents b)"
    using buf_get_ok by auto
qed

section \<open>The invariant of the port system\<close>

abbreviation wq_live :: "kstate \<Rightarrow> port \<Rightarrow> bool" where
  "wq_live s p \<equiv> wq_magic (wait_queues s (Obj_wq p)) = WAIT_QUEUE_MAGIC"

definition write_ok :: "port_sys \<Rightarrow> port \<Rightarrow> write_port \<Rightarrow> bool" where
  "write_ok ps p wp \<longleftrightarrow> p \<in> set (write_port_list ps) \<and> wp_magic wp \<in> {WRITEPORT_MAGIC_W, WRITEPORT_MAGIC_X} \<and>
     distinct (wp_rp_list wp) \<and> (wp_buf wp = None \<longleftrightarrow> wp_rp_list wp \<noteq> []) \<and> (\<forall>b. wp_buf wp = Some b \<longrightarrow> buf_ok b) \<and>
     (\<forall>r \<in> set (wp_rp_list wp). \<exists>rp. port_objs ps r = Some (Read_port rp) \<and> rp_wport rp = Some p)"

definition read_ok :: "port_sys \<Rightarrow> kstate \<Rightarrow> port \<Rightarrow> read_port \<Rightarrow> bool" where
  "read_ok ps s p rp \<longleftrightarrow> rp_magic rp = READPORT_MAGIC \<and> wq_live s p \<and> (\<exists>b. rp_buf rp = Some b \<and> buf_ok b) \<and>
     (\<forall>w. rp_wport rp = Some w \<longrightarrow> (\<exists>wp. port_objs ps w = Some (Write_port wp) \<and> p \<in> set (wp_rp_list wp))) \<and>
     (\<forall>g. rp_gport rp = Some g \<longrightarrow> (\<exists>pg. port_objs ps g = Some (Port_group pg) \<and> p \<in> set (pg_rp_list pg)))"

definition group_ok :: "port_sys \<Rightarrow> kstate \<Rightarrow> port \<Rightarrow> portgroup \<Rightarrow> bool" where
  "group_ok ps s p pg \<longleftrightarrow> pg_magic pg = PORTGROUP_MAGIC \<and> wq_live s p \<and> distinct (pg_rp_list pg) \<and>
     (\<forall>r \<in> set (pg_rp_list pg). \<exists>rp. port_objs ps r = Some (Read_port rp) \<and> rp_gport rp = Some p)"

definition port_inv :: "port_sys \<Rightarrow> kstate \<Rightarrow> bool" where
  "port_inv ps s \<longleftrightarrow> port_objs ps 0 = None \<and> distinct (write_port_list ps) \<and>
     (\<forall>w \<in> set (write_port_list ps). \<exists>wp. port_objs ps w = Some (Write_port wp)) \<and>
     (\<forall>v w vp wp. port_objs ps v = Some (Write_port vp) \<longrightarrow> port_objs ps w = Some (Write_port wp) \<longrightarrow>
        wp_name vp = wp_name wp \<longrightarrow> v = w) \<and>
     (\<forall>p wp. port_objs ps p = Some (Write_port wp) \<longrightarrow> write_ok ps p wp) \<and>
     (\<forall>p rp. port_objs ps p = Some (Read_port rp) \<longrightarrow> read_ok ps s p rp) \<and>
     (\<forall>p pg. port_objs ps p = Some (Port_group pg) \<longrightarrow> group_ok ps s p pg)"

named_theorems port_inv_defs \<open>the clauses of the invariant, for \<open>auto simp:\<close>\<close>

declare port_inv_def [port_inv_defs] write_ok_def [port_inv_defs] read_ok_def [port_inv_defs]
  group_ok_def [port_inv_defs] set_obj_def [port_inv_defs] free_obj_def [port_inv_defs]

lemma port_invD:
  assumes "port_inv ps s"
  shows "port_objs ps p = Some (Write_port wp) \<Longrightarrow> write_ok ps p wp"
    "port_objs ps p = Some (Read_port rp) \<Longrightarrow> read_ok ps s p rp"
    "port_objs ps p = Some (Port_group pg) \<Longrightarrow> group_ok ps s p pg"
    "port_objs ps 0 = None"
  using assms by (auto simp: port_inv_def)

lemma port_invI:
  assumes "\<And>p wp. port_objs ps p = Some (Write_port wp) \<Longrightarrow> write_ok ps p wp"
    "\<And>p rp. port_objs ps p = Some (Read_port rp) \<Longrightarrow> read_ok ps s p rp"
    "\<And>p pg. port_objs ps p = Some (Port_group pg) \<Longrightarrow> group_ok ps s p pg"
    "port_objs ps 0 = None" "distinct (write_port_list ps)"
    "\<And>w. w \<in> set (write_port_list ps) \<Longrightarrow> \<exists>wp. port_objs ps w = Some (Write_port wp)"
    "\<And>v w vp wp. port_objs ps v = Some (Write_port vp) \<Longrightarrow> port_objs ps w = Some (Write_port wp) \<Longrightarrow>
      wp_name vp = wp_name wp \<Longrightarrow> v = w"
  shows "port_inv ps s"
  unfolding port_inv_def using assms by (intro conjI allI impI ballI) assumption+

lemma port_inv_kernel: "port_inv ps s \<Longrightarrow> (\<And>p. wq_live s p \<Longrightarrow> wq_live s' p) \<Longrightarrow> port_inv ps s'"
  by (auto simp: port_inv_defs)

text \<open>Changes that leave the links between the objects alone.\<close>

fun same_links :: "port_obj \<Rightarrow> port_obj \<Rightarrow> bool" where
  "same_links (Write_port a) (Write_port b) \<longleftrightarrow> wp_rp_list b = wp_rp_list a \<and> wp_name b = wp_name a \<and>
     (wp_buf b = None \<longleftrightarrow> wp_buf a = None) \<and> (\<forall>c. wp_buf b = Some c \<longrightarrow> buf_ok c) \<and>
     wp_magic b \<in> {WRITEPORT_MAGIC_W, WRITEPORT_MAGIC_X}"
| "same_links (Read_port a) (Read_port b) \<longleftrightarrow> rp_magic b = rp_magic a \<and> rp_wport b = rp_wport a \<and>
     rp_gport b = rp_gport a \<and> (\<exists>c. rp_buf b = Some c \<and> buf_ok c)"
| "same_links (Port_group a) (Port_group b) \<longleftrightarrow> a = b"
| "same_links _ _ \<longleftrightarrow> False"

lemma same_links_cases:
  "same_links ob (Write_port b) \<Longrightarrow> \<exists>a. ob = Write_port a"
  "same_links ob (Read_port b') \<Longrightarrow> \<exists>a. ob = Read_port a"
  "same_links ob (Port_group b'') \<Longrightarrow> ob = Port_group b''"
  "same_links (Write_port a) ob' \<Longrightarrow> \<exists>b. ob' = Write_port b"
  "same_links (Read_port a') ob' \<Longrightarrow> \<exists>b. ob' = Read_port b"
  "same_links (Port_group a'') ob' \<Longrightarrow> ob' = Port_group a''"
  by (cases ob; simp)+ (cases ob'; simp)+

lemma port_inv_relink:
  assumes i: "port_inv ps s" and l: "write_port_list ps' = write_port_list ps"
    and rel: "\<And>p. rel_option same_links (port_objs ps p) (port_objs ps' p)"
  shows "port_inv ps' s"
proof -
  have old: "\<exists>a. port_objs ps p = Some a \<and> same_links a ob" if "port_objs ps' p = Some ob" for p ob
    using rel [of p] that by (cases "port_objs ps p") auto
  have new: "\<exists>b. port_objs ps' p = Some b \<and> same_links a b" if "port_objs ps p = Some a" for p a
    using rel [of p] that by (cases "port_objs ps' p") auto
  have nw: "\<exists>b. port_objs ps' p = Some (Write_port b) \<and> same_links (Write_port a) (Write_port b)"
    if "port_objs ps p = Some (Write_port a)" for p a
    using new [OF that] same_links_cases(4) by blast
  have nr: "\<exists>b. port_objs ps' p = Some (Read_port b) \<and> same_links (Read_port a) (Read_port b)"
    if "port_objs ps p = Some (Read_port a)" for p a
    using new [OF that] same_links_cases(5) by blast
  have ng: "port_objs ps' p = Some (Port_group a)" if "port_objs ps p = Some (Port_group a)" for p a
    using new [OF that] same_links_cases(6) by blast
  have W: "\<exists>a. port_objs ps p = Some (Write_port a) \<and> same_links (Write_port a) (Write_port b)"
    if "port_objs ps' p = Some (Write_port b)" for p b
    using old [OF that] same_links_cases(1) by blast
  show ?thesis
  proof (rule port_invI)
    fix p b assume "port_objs ps' p = Some (Write_port b)"
    from W [OF this] obtain a where a: "port_objs ps p = Some (Write_port a)" "same_links (Write_port a) (Write_port b)" by blast
    from port_invD(1) [OF i a(1)] have "write_ok ps p a" .
    with a(2) nr l show "write_ok ps' p b" unfolding write_ok_def same_links.simps by metis
  next
    fix p b assume "port_objs ps' p = Some (Read_port b)"
    from old [OF this] same_links_cases(2) obtain a where
      a: "port_objs ps p = Some (Read_port a)" "same_links (Read_port a) (Read_port b)" by blast
    from port_invD(2) [OF i a(1)] have "read_ok ps s p a" .
    with a(2) nw ng show "read_ok ps' s p b" unfolding read_ok_def same_links.simps by metis
  next
    fix p b assume "port_objs ps' p = Some (Port_group b)"
    from old [OF this] same_links_cases(3) have "port_objs ps p = Some (Port_group b)" by blast
    from port_invD(3) [OF i this] nr show "group_ok ps' s p b" unfolding group_ok_def same_links.simps by metis
  next
    show "port_objs ps' 0 = None" using rel [of 0] port_invD(4) [OF i] by simp
    show "distinct (write_port_list ps')" using i by (simp add: port_inv_def l)
  next
    fix w assume "w \<in> set (write_port_list ps')"
    then show "\<exists>b. port_objs ps' w = Some (Write_port b)" using i nw unfolding port_inv_def l by metis
  next
    fix v w vp wp
    assume "port_objs ps' v = Some (Write_port vp)" "port_objs ps' w = Some (Write_port wp)" "wp_name vp = wp_name wp"
    then show "v = w" using i W [of v vp] W [of w wp] unfolding port_inv_def same_links.simps by metis
  qed
qed

lemma same_links_refl: "port_inv ps s \<Longrightarrow> port_objs ps p = Some ob \<Longrightarrow> same_links ob ob"
  by (cases ob) (auto dest: port_invD simp: write_ok_def read_ok_def)

lemma port_inv_relink1:
  assumes i: "port_inv ps s" and p: "port_objs ps p = Some a" "same_links a b"
  shows "port_inv (set_obj p b ps) s"
proof (rule port_inv_relink [OF i])
  fix q show "rel_option same_links (port_objs ps q) (port_objs (set_obj p b ps) q)"
    using p same_links_refl [OF i, of q] by (cases "port_objs ps q") (auto simp: set_obj_def)
qed (simp add: set_obj_def)

text \<open>Changing the packets of a buffer that is in place.\<close>

lemma port_inv_rbuf:
  assumes i: "port_inv ps s" and r: "port_objs ps r = Some (Read_port rp)" and b: "buf_ok b"
  shows "port_inv (set_obj r (Read_port (rp\<lparr>rp_buf := Some b\<rparr>)) ps) s"
  using b by (intro port_inv_relink1 [OF i r]) simp

lemma port_inv_wbuf:
  assumes i: "port_inv ps s" and w: "port_objs ps w = Some (Write_port wp)" and b: "buf_ok b" "wp_buf wp \<noteq> None"
  shows "port_inv (set_obj w (Write_port (wp\<lparr>wp_buf := Some b\<rparr>)) ps) s"
  using b port_invD(1) [OF i w] by (intro port_inv_relink1 [OF i w]) (auto simp: write_ok_def)


section \<open>Creating and opening ports\<close>

lemma find_named:
  assumes i: "port_inv ps s"
  shows "find (has_name ps nm) (write_port_list ps) = Some w \<longleftrightarrow> (\<exists>wp. port_objs ps w = Some (Write_port wp) \<and> wp_name wp = nm)"
    "find (has_name ps nm) (write_port_list ps) = None \<longleftrightarrow> (\<forall>w wp. port_objs ps w = Some (Write_port wp) \<longrightarrow> wp_name wp \<noteq> nm)"
proof -
  have h: "has_name ps nm w \<longleftrightarrow> (\<exists>wp. port_objs ps w = Some (Write_port wp) \<and> wp_name wp = nm)" for w
    by (auto simp: has_name_def split: option.splits port_obj.splits)
  have l: "w \<in> set (write_port_list ps)" if "has_name ps nm w" for w
    using that i unfolding h by (auto dest: port_invD simp: write_ok_def)
  show n: "find (has_name ps nm) (write_port_list ps) = None \<longleftrightarrow> (\<forall>w wp. port_objs ps w = Some (Write_port wp) \<longrightarrow> wp_name wp \<noteq> nm)"
    using l h by (auto simp: find_None_iff)
  show "find (has_name ps nm) (write_port_list ps) = Some w \<longleftrightarrow> (\<exists>wp. port_objs ps w = Some (Write_port wp) \<and> wp_name wp = nm)"
  proof
    assume "find (has_name ps nm) (write_port_list ps) = Some w"
    then show "\<exists>wp. port_objs ps w = Some (Write_port wp) \<and> wp_name wp = nm"
      by (auto simp: find_Some_iff h [symmetric])
  next
    assume w: "\<exists>wp. port_objs ps w = Some (Write_port wp) \<and> wp_name wp = nm"
    then obtain v where v: "find (has_name ps nm) (write_port_list ps) = Some v" using n by (metis option.exhaust)
    then have "has_name ps nm v" by (auto simp: find_Some_iff)
    with w i have "v = w" unfolding h port_inv_def by metis
    with v show "find (has_name ps nm) (write_port_list ps) = Some w" by simp
  qed
qed

definition new_write_port :: "string \<Rightarrow> 32 word \<Rightarrow> port_buf \<Rightarrow> write_port" where
  "new_write_port nm mode b =
     \<lparr>wp_magic = WRITEPORT_MAGIC_W, wp_buf = Some b, wp_rp_list = [], wp_mode = mode, wp_name = nm\<rparr>"

lemma port_inv_create:
  assumes i: "port_inv ps s" and w: "w \<noteq> 0" "port_objs ps w = None" and b: "buf_ok b"
    and nm: "\<And>v vp. port_objs ps v = Some (Write_port vp) \<Longrightarrow> wp_name vp \<noteq> nm"
    and ps': "ps' = (set_obj w (Write_port (new_write_port nm mode b)) ps)\<lparr>write_port_list := write_port_list ps @ [w]\<rparr>"
  shows "port_inv ps' s"
proof (rule port_invI)
  have ob: "port_objs ps' p = (if p = w then Some (Write_port (new_write_port nm mode b)) else port_objs ps p)" for p
    by (simp add: ps' set_obj_def)
  have keep: "port_objs ps' p = port_objs ps p" if "port_objs ps p \<noteq> None" for p using that w by (auto simp: ob)
  have l: "write_port_list ps' = write_port_list ps @ [w]" by (simp add: ps')
  fix p
  show "write_ok ps' p wp" if "port_objs ps' p = Some (Write_port wp)" for wp
  proof (cases "p = w")
    case True
    with that b show ?thesis by (auto simp: ob write_ok_def new_write_port_def l)
  next
    case False
    with that have "write_ok ps p wp" using port_invD(1) [OF i] by (simp add: ob)
    then show ?thesis unfolding write_ok_def l by (auto simp: keep)
  qed
  show "read_ok ps' s p rp" if "port_objs ps' p = Some (Read_port rp)" for rp
  proof -
    have "read_ok ps s p rp" using that port_invD(2) [OF i] by (auto simp: ob split: if_splits)
    then show ?thesis unfolding read_ok_def by (metis keep option.distinct(1))
  qed
  show "group_ok ps' s p pg" if "port_objs ps' p = Some (Port_group pg)" for pg
  proof -
    have "group_ok ps s p pg" using that port_invD(3) [OF i] by (auto simp: ob split: if_splits)
    then show ?thesis unfolding group_ok_def by (metis keep option.distinct(1))
  qed
  show "port_objs ps' 0 = None" using w(1) port_invD(4) [OF i] by (simp add: ob)
  have "w \<notin> set (write_port_list ps)" using w(2) i by (force simp: port_inv_def)
  then show "distinct (write_port_list ps')" using i by (simp add: l port_inv_def)
  show "\<exists>wp. port_objs ps' p = Some (Write_port wp)" if "p \<in> set (write_port_list ps')"
    using that i unfolding port_inv_def l by (auto simp: ob)
  show "p = q" if "port_objs ps' p = Some (Write_port vp)" "port_objs ps' q = Some (Write_port wp)" "wp_name vp = wp_name wp" for q vp wp
    using that nm [of p vp] nm [of q wp] i
    by (auto simp: ob port_inv_def new_write_port_def split: if_splits)
qed

lemma buff_sizes: "PORT_BUFF_SIZE = valpow2 3" "PORT_BUFF_SIZE_BIG = valpow2 6"
  by (simp_all add: valpow2_def)

theorem port_create_ok:
  assumes i: "port_inv ps s" and lf: "lock_free s" and n: "length nm < PORT_NAME_LEN"
    and wm: "\<And>w. wp_mem = Some w \<Longrightarrow> w \<noteq> 0 \<and> port_objs ps w = None"
    and bm: "\<And>m. buf_mem = Some m \<Longrightarrow> length m = (if mode AND PORT_MODE_BIG_BUFFER \<noteq> 0 then 64 else 8)"
  shows "okE (\<lambda>(rc, h, ps', s'). s' = s \<and> port_inv ps' s \<and>
      (case find (has_name ps nm) (write_port_list ps) of
         Some w \<Rightarrow> ps' = ps \<and>
           (if port_objs ps w = None \<or> port_magic (the (port_objs ps w)) = WRITEPORT_MAGIC_X
            then rc = ERR_BUSY \<and> h = None else rc = ERR_ALREADY_EXISTS \<and> h = Some w)
       | None \<Rightarrow>
           if wp_mem = None \<or> buf_mem = None then rc = ERR_NO_MEMORY \<and> h = None \<and> ps' = ps
           else rc = NO_ERROR \<and> h = wp_mem \<and>
             (\<exists>b. buf_ok b \<and> buf_contents b = [] \<and>
                pb_log2 b = (if mode AND PORT_MODE_BIG_BUFFER \<noteq> 0 then 6 else 3) \<and>
                port_objs ps' = (port_objs ps)(the wp_mem \<mapsto> Write_port (new_write_port nm mode b))) \<and>
             find (has_name ps' nm) (write_port_list ps') = wp_mem))
    (port_create cpu (Some nm) mode True wp_mem buf_mem ps s)"
proof -
  have unl: "thread_unlock cpu (s\<lparr>thread_lock_owner := cpu\<rparr>) = Inr s" using lf by (simp add: lock_free_def)
  show ?thesis
  proof (cases "find (has_name ps nm) (write_port_list ps)")
    case (Some w)
    then obtain wp where "port_objs ps w = Some (Write_port wp)" using find_named(1) [OF i] by blast
    with Some i lf n unl show ?thesis by (simp add: port_create_def as_write_def)
  next
    case None
    show ?thesis
    proof (cases "wp_mem = None \<or> buf_mem = None")
      case True
      with None i lf n unl show ?thesis by (auto simp: port_create_def make_buf_def split: option.splits)
    next
      case False
      then obtain w m where wm': "wp_mem = Some w" "buf_mem = Some m" by auto
      let ?big = "mode AND PORT_MODE_BIG_BUFFER \<noteq> 0"
      have "\<exists>b. make_buf (if ?big then PORT_BUFF_SIZE_BIG else PORT_BUFF_SIZE) (Some m) = Some b \<and> buf_ok b \<and>
          buf_contents b = [] \<and> pb_log2 b = (if ?big then 6 else 3)"
        unfolding buff_sizes using bm [OF wm'(2)] make_buf_ok [of 6 m] make_buf_ok [of 3 m] by simp
      then obtain b where b: "make_buf (if ?big then PORT_BUFF_SIZE_BIG else PORT_BUFF_SIZE) (Some m) = Some b"
        "buf_ok b" "buf_contents b = []" "pb_log2 b = (if ?big then 6 else 3)" by blast
      define ps' where "ps' = (set_obj w (Write_port (new_write_port nm mode b)) ps)\<lparr>write_port_list := write_port_list ps @ [w]\<rparr>"
      have i': "port_inv ps' s"
        using wm [OF wm'(1)] None find_named(2) [OF i] by (intro port_inv_create [OF i _ _ b(2) _ ps'_def]) blast+
      have "port_create cpu (Some nm) mode True wp_mem buf_mem ps s = Inr (NO_ERROR, Some w, ps', s)"
        using None lf n unl wm' b(1) by (simp add: port_create_def ps'_def new_write_port_def set_obj_def)
      moreover have "find (has_name ps' nm) (write_port_list ps') = Some w"
        unfolding find_named(1) [OF i'] by (simp add: ps'_def set_obj_def new_write_port_def)
      moreover have "port_objs ps' = (port_objs ps)(w \<mapsto> Write_port (new_write_port nm mode b))" by (simp add: ps'_def set_obj_def)
      ultimately show ?thesis using None wm' i' b by auto
    qed
  qed
qed


text \<open>Opening: the first reader takes over the buffer of the write port with what is in it.\<close>

definition new_read_port :: "nat \<Rightarrow> port \<Rightarrow> port_buf \<Rightarrow> read_port" where
  "new_read_port ctx w b =
     \<lparr>rp_magic = READPORT_MAGIC, rp_buf = Some b, rp_ctx = ctx, rp_wport = Some w, rp_gport = None\<rparr>"

lemma port_inv_open:
  assumes i: "port_inv ps s" and r: "r \<noteq> 0" "port_objs ps r = None" "wq_live s r" and b: "buf_ok b"
    and w: "port_objs ps w = Some (Write_port wp)"
    and ps': "ps' = set_obj r (Read_port (new_read_port ctx w b))
      (set_obj w (Write_port (wp\<lparr>wp_rp_list := wp_rp_list wp @ [r], wp_buf := None\<rparr>)) ps)"
  shows "port_inv ps' s"
proof (rule port_invI)
  have rw: "r \<noteq> w" using r(2) w by auto
  have ob: "port_objs ps' p = (if p = r then Some (Read_port (new_read_port ctx w b))
      else if p = w then Some (Write_port (wp\<lparr>wp_rp_list := wp_rp_list wp @ [r], wp_buf := None\<rparr>)) else port_objs ps p)" for p
    by (simp add: ps' set_obj_def)
  have l: "write_port_list ps' = write_port_list ps" by (simp add: ps' set_obj_def)
  have kr: "port_objs ps' p = port_objs ps p" if "port_objs ps p = Some (Read_port rp)" for p rp
    using that r(2) w by (auto simp: ob)
  have kg: "port_objs ps' p = port_objs ps p" if "port_objs ps p = Some (Port_group pg)" for p pg
    using that r(2) w by (auto simp: ob)
  have kw: "\<exists>wp'. port_objs ps' p = Some (Write_port wp') \<and> set (wp_rp_list vp) \<subseteq> set (wp_rp_list wp')"
    if "port_objs ps p = Some (Write_port vp)" for p vp using that r(2) w by (auto simp: ob)
  note wok = port_invD(1) [OF i w]
  have rn: "r \<notin> set (wp_rp_list vp)" if "port_objs ps p = Some (Write_port vp)" for p vp
    using port_invD(1) [OF i that] r(2) by (auto simp: write_ok_def)
  fix p
  show "write_ok ps' p vp" if "port_objs ps' p = Some (Write_port vp)" for vp
  proof (cases "p = w")
    case True
    with that have vp: "vp = wp\<lparr>wp_rp_list := wp_rp_list wp @ [r], wp_buf := None\<rparr>" using rw by (simp add: ob)
    have "\<exists>rp. port_objs ps' q = Some (Read_port rp) \<and> rp_wport rp = Some w" if "q \<in> set (wp_rp_list wp)" for q
      using wok that kr unfolding write_ok_def by metis
    moreover have "\<exists>rp. port_objs ps' r = Some (Read_port rp) \<and> rp_wport rp = Some w" by (simp add: ob new_read_port_def)
    ultimately show ?thesis using wok rn [OF w] True unfolding write_ok_def l vp by auto
  next
    case False
    with that have vp: "port_objs ps p = Some (Write_port vp)" by (auto simp: ob split: if_splits)
    from port_invD(1) [OF i vp] kr show ?thesis unfolding write_ok_def l by metis
  qed
  show "read_ok ps' s p rp" if "port_objs ps' p = Some (Read_port rp)" for rp
  proof (cases "p = r")
    case True
    with that b r(3) rw show ?thesis by (auto simp: ob read_ok_def new_read_port_def)
  next
    case False
    with that have rp: "port_objs ps p = Some (Read_port rp)" using rw by (auto simp: ob split: if_splits)
    from port_invD(2) [OF i rp] kw kg show ?thesis unfolding read_ok_def by (metis subsetD)
  qed
  show "group_ok ps' s p pg" if "port_objs ps' p = Some (Port_group pg)" for pg
  proof -
    from that have pg: "port_objs ps p = Some (Port_group pg)" by (auto simp: ob split: if_splits)
    from port_invD(3) [OF i pg] kr show ?thesis unfolding group_ok_def by metis
  qed
  show "port_objs ps' 0 = None" using r(1) port_invD(4) [OF i] w by (metis ob option.distinct(1))
  show "distinct (write_port_list ps')" using i by (simp add: l port_inv_def)
  show "\<exists>wp. port_objs ps' p = Some (Write_port wp)" if "p \<in> set (write_port_list ps')"
    using that i kw unfolding port_inv_def l by metis
  show "p = q" if "port_objs ps' p = Some (Write_port vp)" "port_objs ps' q = Some (Write_port wp')" "wp_name vp = wp_name wp'" for q vp wp'
  proof -
    have "\<exists>up. port_objs ps q = Some (Write_port up) \<and> wp_name up = wp_name v" if "port_objs ps' q = Some (Write_port v)" for q v
      using that w by (auto simp: ob split: if_splits)
    with that i show ?thesis unfolding port_inv_def by metis
  qed
qed

theorem port_open_ok:
  assumes i: "port_inv ps s" and s: "sched_inv s" "lock_free s"
    and rm: "r \<noteq> 0" "port_objs ps r = None" "wq_list (wait_queues s (Obj_wq r)) = []" and bm: "length m = 8"
  shows "okE (\<lambda>(rc, h, ps', s'). s' = wait_queue_init (Obj_wq r) s \<and> sched_inv s' \<and> lock_free s' \<and> port_inv ps' s' \<and>
      (case find (has_name ps nm) (write_port_list ps) of
         None \<Rightarrow> rc = ERR_NOT_FOUND \<and> h = None \<and> ps' = ps
       | Some w \<Rightarrow> \<exists>wp. port_objs ps w = Some (Write_port wp) \<and>
           (if wp_buf wp = None \<and> wp_mode wp AND PORT_MODE_UNICAST \<noteq> 0 then rc = ERR_NOT_ALLOWED \<and> h = None \<and> ps' = ps
            else rc = NO_ERROR \<and> h = Some r \<and>
              (\<exists>b. port_objs ps' = (port_objs ps)
                     (w \<mapsto> Write_port (wp\<lparr>wp_rp_list := wp_rp_list wp @ [r], wp_buf := None\<rparr>),
                      r \<mapsto> Read_port (new_read_port ctx w b)) \<and>
                   buf_contents b = (case wp_buf wp of None \<Rightarrow> [] | Some wb \<Rightarrow> buf_contents wb)))))
    (port_open cpu (Some nm) ctx True (Some r) (Some m) ps s)"
proof -
  let ?s = "wait_queue_init (Obj_wq r) s"
  have s': "sched_inv ?s" by (rule sched_inv_wq_init [OF s(1) rm(3)])
  have lf: "lock_free ?s" using s(2) by (simp add: lock_free_def wait_queue_init_def)
  have live: "wq_live ?s r" by (simp add: wait_queue_init_def WAIT_QUEUE_INITIAL_VALUE_def)
  have i': "port_inv ps ?s"
    by (rule port_inv_kernel [OF i]) (simp add: wait_queue_init_def WAIT_QUEUE_INITIAL_VALUE_def)
  have unl: "thread_unlock cpu (?s\<lparr>thread_lock_owner := cpu\<rparr>) = Inr ?s" using lf by (simp add: lock_free_def)
  obtain b where b: "make_buf PORT_BUFF_SIZE (Some m) = Some b" "buf_ok b" "buf_contents b = []"
    using make_buf_ok [of 3 m] bm unfolding buff_sizes by auto
  have eq: "port_open cpu (Some nm) ctx True (Some r) (Some m) ps s = bindE (open_locked nm r ctx b ps)
      (\<lambda>(rc, ps1). Inr (rc, if rc = NO_ERROR then Some r else None, ps1, ?s))"
    using lf unl b(1) by (simp add: port_open_def Let_def)
  show ?thesis
  proof (cases "find (has_name ps nm) (write_port_list ps)")
    case None
    with i' s' lf show ?thesis by (simp add: eq open_locked_def)
  next
    case (Some w)
    then obtain wp where w: "port_objs ps w = Some (Write_port wp)" using find_named(1) [OF i] by blast
    have wf: "wp\<lparr>wp_rp_list := l, wp_buf := None\<rparr> = wp\<lparr>wp_rp_list := l\<rparr>" if "wp_buf wp = None" for l using that by simp
    define bb where "bb = (case wp_buf wp of None \<Rightarrow> b | Some wb \<Rightarrow> wb)"
    have bb: "buf_ok bb" "buf_contents bb = (case wp_buf wp of None \<Rightarrow> [] | Some wb \<Rightarrow> buf_contents wb)"
      using b port_invD(1) [OF i w] by (auto simp: bb_def write_ok_def split: option.splits)
    define ps' where "ps' = set_obj r (Read_port (new_read_port ctx w bb))
        (set_obj w (Write_port (wp\<lparr>wp_rp_list := wp_rp_list wp @ [r], wp_buf := None\<rparr>)) ps)"
    have "port_inv ps' ?s" by (rule port_inv_open [OF i' rm(1,2) live bb(1) w ps'_def])
    moreover have "open_locked nm r ctx b ps = Inr (if wp_buf wp = None \<and> wp_mode wp AND PORT_MODE_UNICAST \<noteq> 0
        then (ERR_NOT_ALLOWED, ps) else (NO_ERROR, ps'))"
      using Some w by (cases "wp_buf wp") (simp_all add: open_locked_def as_write_def ps'_def bb_def new_read_port_def wf Let_def)
    moreover have "port_objs ps' = (port_objs ps)(w \<mapsto> Write_port (wp\<lparr>wp_rp_list := wp_rp_list wp @ [r], wp_buf := None\<rparr>),
        r \<mapsto> Read_port (new_read_port ctx w bb))" by (simp add: ps'_def set_obj_def)
    ultimately show ?thesis using Some w i' s' lf bb(2) by (auto simp: eq)
  qed
qed


section \<open>Writing and reading\<close>

text \<open>What the read port at \<open>r\<close> has to deliver, and how much its buffer holds.\<close>

definition reader_packets :: "port_sys \<Rightarrow> port \<Rightarrow> port_packet list" where
  "reader_packets ps r = (case port_objs ps r of
       Some (Read_port rp) \<Rightarrow> (case rp_buf rp of Some b \<Rightarrow> buf_contents b | None \<Rightarrow> []) | _ \<Rightarrow> [])"

definition reader_room :: "port_sys \<Rightarrow> nat \<Rightarrow> port \<Rightarrow> bool" where
  "reader_room ps n r = (case port_objs ps r of
       Some (Read_port rp) \<Rightarrow>
         (case rp_buf rp of Some b \<Rightarrow> length (buf_contents b) + n \<le> 2 ^ pb_log2 b | None \<Rightarrow> False) | _ \<Rightarrow> False)"

abbreviation critical :: "cpu_num \<Rightarrow> kstate \<Rightarrow> bool" where
  "critical cpu s \<equiv> sched_inv s \<and> thread_lock_held cpu s \<and> up s cpu"

text \<open>A wake-up inside the critical section: which queues it may have changed.\<close>

definition woke :: "kstate \<Rightarrow> kstate \<Rightarrow> bool" where
  "woke s s' \<longleftrightarrow> (\<forall>w. wq_magic (wait_queues s' w) = wq_magic (wait_queues s w) \<and>
     set (wq_list (wait_queues s' w)) \<subseteq> set (wq_list (wait_queues s w)))"

lemma woke_refl [simp]: "woke s s" and woke_trans: "woke s s1 \<Longrightarrow> woke s1 s2 \<Longrightarrow> woke s s2"
  by (auto simp: woke_def)

lemma port_inv_woke: "port_inv ps s \<Longrightarrow> woke s s' \<Longrightarrow> port_inv ps s'"
  by (erule port_inv_kernel) (simp add: woke_def)

lemma released_woke:
  assumes "released ts w e s s'"
  shows "woke s s'" "up s cpu \<Longrightarrow> up s' cpu"
proof -
  have "wq_magic (wait_queues s' v) = wq_magic (wait_queues s v) \<and>
      set (wq_list (wait_queues s' v)) \<subseteq> set (wq_list (wait_queues s v))" for v
    using assms by (cases "v = w") (auto simp: released_def)
  then show "woke s s'" by (simp add: woke_def)
  show "up s cpu \<Longrightarrow> up s' cpu" using assms by (simp add: released_def up_def)
qed

lemma wake_one_step:
  assumes "critical cpu s" "wq_live s p"
  shows "okE (\<lambda>(n, s'). critical cpu s' \<and> woke s s' \<and> 0 \<le> n \<and> n \<le> 1 \<and>
      released (take 1 (wq_list (wait_queues s (Obj_wq p)))) (Obj_wq p) e s s' \<and>
      n = int (length (take 1 (wq_list (wait_queues s (Obj_wq p))))))
    (wait_queue_wake_one cpu (Obj_wq p) False e s)"
proof -
  have "can_wake cpu (Obj_wq p) False s" using assms by (simp add: can_wake_def)
  from one.wake_ok [OF this, of e] show ?thesis
    by (rule okE_mono) (use assms in \<open>auto intro: released_woke\<close>)
qed

lemma wake_reader_ok:
  assumes c: "critical cpu s" and r: "wq_live s r" "\<And>g. rp_gport rp = Some g \<Longrightarrow> wq_live s g"
  shows "okE (\<lambda>(n, s'). critical cpu s' \<and> woke s s' \<and> 0 \<le> n \<and>
      (n = 0 \<longrightarrow> wq_list (wait_queues s (Obj_wq r)) = [])) (wake_reader cpu r rp s)"
proof -
  have own: "okE (\<lambda>(n, s'). critical cpu s' \<and> woke s s' \<and> 0 \<le> n \<and>
      (n = 0 \<longrightarrow> wq_list (wait_queues s (Obj_wq r)) = [])) (wait_queue_wake_one cpu (Obj_wq r) False NO_ERROR s1)"
    if "critical cpu s1" "woke s s1" "wq_list (wait_queues s1 (Obj_wq r)) = wq_list (wait_queues s (Obj_wq r))" for s1
  proof -
    have "wq_live s1 r" using r(1) that(2) by (simp add: woke_def)
    from wake_one_step [OF that(1) this] show ?thesis
      by (rule okE_mono) (use that(2,3) in \<open>auto intro: woke_trans\<close>)
  qed
  show ?thesis
  proof (cases "rp_gport rp")
    case None
    with own [of s] c show ?thesis by (simp add: wake_reader_def)
  next
    case (Some g)
    let ?q = "wq_list (wait_queues s (Obj_wq g))"
    obtain n s1 where w: "wait_queue_wake_one cpu (Obj_wq g) False NO_ERROR s = Inr (n, s1)"
      and s1: "critical cpu s1" "woke s s1" "0 \<le> n" "released (take 1 ?q) (Obj_wq g) NO_ERROR s s1" "n = int (length (take 1 ?q))"
      using wake_one_step [OF c r(2) [OF Some], of NO_ERROR] unfolding okE_iff_ex by blast
    show ?thesis
    proof (cases "n = 0")
      case True
      with s1(5) have "?q = []" by (cases ?q) simp_all
      with s1(4) have "wq_list (wait_queues s1 (Obj_wq r)) = wq_list (wait_queues s (Obj_wq r))"
        by (cases "r = g") (simp_all add: released_def)
      with True own [of s1] s1(1,2) show ?thesis by (simp add: wake_reader_def Some w)
    qed (use s1(1-3) in \<open>simp add: wake_reader_def Some w\<close>)
  qed
qed

text \<open>Every reader with room gets all the packets; a reader without gets none and is reported.\<close>

definition delivered :: "port_packet list \<Rightarrow> port set \<Rightarrow> port_sys \<Rightarrow> port_sys \<Rightarrow> bool" where
  "delivered pks R ps ps' \<longleftrightarrow>
     (\<forall>r \<in> R. reader_packets ps' r = reader_packets ps r @ (if reader_room ps (length pks) r then pks else [])) \<and>
     (\<forall>r. r \<notin> R \<longrightarrow> port_objs ps' r = port_objs ps r)"

lemma write_readers_ok:
  assumes "port_inv ps s" "critical cpu s" "distinct rs"
    "\<And>r. r \<in> set rs \<Longrightarrow> \<exists>rp. port_objs ps r = Some (Read_port rp)"
  shows "okE (\<lambda>(st, n, ps', s'). port_inv ps' s' \<and> critical cpu s' \<and> woke s s' \<and> awake \<le> n \<and>
      write_port_list ps' = write_port_list ps \<and> delivered pks (set rs) ps ps' \<and>
      st = (if \<forall>r \<in> set rs. reader_room ps (length pks) r then status else ERR_PARTIAL_WRITE))
    (write_readers cpu pks rs status awake ps s)"
  using assms
proof (induction rs arbitrary: ps s status awake)
  case Nil
  then show ?case by (simp add: delivered_def)
next
  case (Cons r rs)
  let ?room = "reader_room ps (length pks)"
  from Cons.prems(4) obtain rp where r: "port_objs ps r = Some (Read_port rp)" by auto
  from port_invD(2) [OF Cons.prems(1) r] have ok: "read_ok ps s r rp" .
  then obtain b where b: "rp_buf rp = Some b" "buf_ok b" by (auto simp: read_ok_def)
  obtain rc b1 where w: "buf_write b pks = (rc, b1)" by fastforce
  note bw = buf_write_ok [OF b(2) w]
  have room: "?room r \<longleftrightarrow> length (buf_contents b) + length pks \<le> 2 ^ pb_log2 b" by (simp add: reader_room_def r b)
  show ?case
  proof (cases "?room r")
    case False
    with bw room have rc: "rc < 0" by simp
    have "okE (\<lambda>(st, n, ps', s'). port_inv ps' s' \<and> critical cpu s' \<and> woke s s' \<and> awake \<le> n \<and>
        write_port_list ps' = write_port_list ps \<and> delivered pks (set rs) ps ps' \<and>
        st = (if \<forall>r \<in> set rs. ?room r then ERR_PARTIAL_WRITE else ERR_PARTIAL_WRITE))
      (write_readers cpu pks rs ERR_PARTIAL_WRITE awake ps s)"
      using Cons.prems by (intro Cons.IH) simp_all
    moreover have "delivered pks (set rs) ps ps' \<Longrightarrow> delivered pks (set (r # rs)) ps ps'" for ps'
      using False Cons.prems(3) by (auto simp: delivered_def reader_packets_def)
    ultimately show ?thesis using False rc by (auto simp: as_read_def r b w elim!: okE_mono)
  next
    case True
    with bw room have rc: "rc = NO_ERROR" and b1: "buf_ok b1" "buf_contents b1 = buf_contents b @ pks" by simp_all
    let ?ps = "set_obj r (Read_port (rp\<lparr>rp_buf := Some b1\<rparr>)) ps"
    have g: "rp_gport rp = Some g \<Longrightarrow> wq_live s g" for g
      using ok port_invD(3) [OF Cons.prems(1)] by (force simp: read_ok_def group_ok_def)
    have wake: "okE (\<lambda>(n, s'). critical cpu s' \<and> woke s s' \<and> 0 \<le> n) (wake_reader cpu r rp s)"
      using ok g Cons.prems(2) by (intro okE_mono [OF wake_reader_ok]) (auto simp: read_ok_def)
    have obs: "port_objs ?ps q = (if q = r then Some (Read_port (rp\<lparr>rp_buf := Some b1\<rparr>)) else port_objs ps q)" for q
      by (simp add: set_obj_def)
    have same: "reader_room ?ps n q = reader_room ps n q" "reader_packets ?ps q = reader_packets ps q" if "q \<noteq> r" for q n
      using that by (simp_all add: reader_room_def reader_packets_def obs)
    have del: "delivered pks (set (r # rs)) ps ps'" if "delivered pks (set rs) ?ps ps'" for ps'
    proof -
      have "port_objs ps' r = port_objs ?ps r" using that Cons.prems(3) by (simp add: delivered_def)
      then have "reader_packets ps' r = reader_packets ps r @ pks" by (simp add: reader_packets_def obs r b b1)
      moreover have "q \<in> set rs \<Longrightarrow> q \<noteq> r" for q using Cons.prems(3) by auto
      ultimately show ?thesis using that True same unfolding delivered_def by (auto simp: obs)
    qed
    have all: "(\<forall>q \<in> set rs. reader_room ?ps (length pks) q) \<longleftrightarrow> (\<forall>q \<in> set (r # rs). ?room q)"
      using True Cons.prems(3) same(1) by (metis distinct.simps(2) list.set_intros set_ConsD)
    have step: "okE (\<lambda>(st, n, ps', s'). port_inv ps' s' \<and> critical cpu s' \<and> woke s s' \<and> awake \<le> n \<and>
        write_port_list ps' = write_port_list ps \<and> delivered pks (set (r # rs)) ps ps' \<and>
        st = (if \<forall>r \<in> set (r # rs). ?room r then status else ERR_PARTIAL_WRITE))
      (write_readers cpu pks rs status (awake + n) ?ps s1)" if s1: "critical cpu s1" "woke s s1" "0 \<le> n" for n s1
    proof -
      have "port_inv ?ps s1"
        by (rule port_inv_woke [OF port_inv_rbuf [OF Cons.prems(1) r b1(1)] s1(2)])
      then have "okE (\<lambda>(st, m, ps', s'). port_inv ps' s' \<and> critical cpu s' \<and> woke s1 s' \<and> awake + n \<le> m \<and>
          write_port_list ps' = write_port_list ?ps \<and> delivered pks (set rs) ?ps ps' \<and>
          st = (if \<forall>r \<in> set rs. reader_room ?ps (length pks) r then status else ERR_PARTIAL_WRITE))
        (write_readers cpu pks rs status (awake + n) ?ps s1)"
        using Cons.prems(3,4) s1(1) by (intro Cons.IH) (auto simp: obs)
      then show ?thesis unfolding all
        by (rule okE_mono) (use s1 del in \<open>auto intro: woke_trans simp: set_obj_def\<close>)
    qed
    obtain n s1 where wk: "wake_reader cpu r rp s = Inr (n, s1)" and s1: "critical cpu s1" "woke s s1" "0 \<le> n"
      using wake unfolding okE_iff_ex by blast
    have "write_readers cpu pks (r # rs) status awake ps s = write_readers cpu pks rs status (awake + n) ?ps s1"
      using rc by (simp add: as_read_def r b w wk)
    with step [OF s1] show ?thesis by (simp only:)
  qed
qed


lemma switch_frame_woke: "switch_frame s s' \<Longrightarrow> woke s s'"
  by (simp add: switch_frame_def woke_def)

lemma woke_lock: "woke s (s'\<lparr>thread_lock_owner := k\<rparr>) = woke s s'" "woke (s\<lparr>thread_lock_owner := k\<rparr>) s' = woke s s'"
  by (simp_all add: woke_def)

text \<open>Leaving the critical section and, if a thread was woken, giving up the cpu.\<close>

lemma unlock_and_yield:
  assumes c: "critical cpu s2" and w: "woke s s2"
  shows "okE (\<lambda>s'. sched_inv s' \<and> lock_free s' \<and> woke s s')
    (bindE (thread_unlock cpu s2) (\<lambda>s3. if b then thread_yield cpu s3 else Inr s3))"
proof -
  let ?s3 = "s2\<lparr>thread_lock_owner := smp_max_cpus s2\<rparr>"
  have u: "thread_unlock cpu s2 = Inr ?s3" using c by (simp add: thread_unlock_def thread_lock_held_def)
  have s3: "sched_inv ?s3" "lock_free ?s3" "up ?s3 cpu" using c by (simp_all add: lock_free_def)
  have "woke s ?s3" using w by (simp add: woke_lock)
  then show ?thesis unfolding u
    using s3 by (auto intro!: okE_mono [OF thread_yield_ok [OF s3]] intro: woke_trans switch_frame_woke)
qed

theorem port_write_ok:
  assumes i: "port_inv ps s" and s: "sched_inv s" "lock_free s" "up s cpu"
    and w: "port_objs ps w = Some (Write_port wp)" and m: "wp_magic wp = WRITEPORT_MAGIC_W"
  shows "okE (\<lambda>(rc, ps', s'). port_inv ps' s' \<and> sched_inv s' \<and> lock_free s' \<and> woke s s' \<and>
      (case wp_buf wp of
         Some b \<Rightarrow> s' = s \<and> (\<exists>b'. port_objs ps' = (port_objs ps)(w \<mapsto> Write_port (wp\<lparr>wp_buf := Some b'\<rparr>)) \<and>
            (if length (buf_contents b) + length pks \<le> 2 ^ pb_log2 b
             then rc = NO_ERROR \<and> buf_contents b' = buf_contents b @ pks
             else rc = ERR_NOT_ENOUGH_BUFFER \<and> b' = b))
       | None \<Rightarrow> delivered pks (set (wp_rp_list wp)) ps ps' \<and>
           rc = (if \<forall>r \<in> set (wp_rp_list wp). reader_room ps (length pks) r then NO_ERROR else ERR_PARTIAL_WRITE)))
    (port_write cpu w (Some pks) ps s)"
proof -
  let ?l = "s\<lparr>thread_lock_owner := cpu\<rparr>"
  have w0: "w \<noteq> 0" using w port_invD(4) [OF i] by (cases w) auto
  have il: "port_inv ps ?l" by (rule port_inv_kernel [OF i]) simp
  have c: "critical cpu ?l" using s by simp
  note ok = port_invD(1) [OF i w]
  show ?thesis
  proof (cases "wp_buf wp")
    case (Some b)
    obtain rc b1 where bw: "buf_write b pks = (rc, b1)" by fastforce
    have b: "buf_ok b" using ok Some by (simp add: write_ok_def)
    note bo = buf_write_ok [OF b bw]
    have "port_inv (set_obj w (Write_port (wp\<lparr>wp_buf := Some b1\<rparr>)) ps) s"
      using bo Some by (intro port_inv_wbuf [OF i w]) simp_all
    moreover have "thread_unlock cpu ?l = Inr s" using s(2) by (simp add: lock_free_def)
    ultimately show ?thesis using s w0 w m Some bw bo
      by (auto simp: port_write_def deref_def as_write_def set_obj_def)
  next
    case None
    have rs: "distinct (wp_rp_list wp)" "\<And>r. r \<in> set (wp_rp_list wp) \<Longrightarrow> \<exists>rp. port_objs ps r = Some (Read_port rp)"
      using ok by (auto simp: write_ok_def)
    let ?rc = "if \<forall>r \<in> set (wp_rp_list wp). reader_room ps (length pks) r then NO_ERROR else ERR_PARTIAL_WRITE"
    obtain n ps1 s2 where wr: "write_readers cpu pks (wp_rp_list wp) NO_ERROR 0 ps ?l = Inr (?rc, n, ps1, s2)"
      and a: "port_inv ps1 s2" "critical cpu s2" "woke ?l s2" "delivered pks (set (wp_rp_list wp)) ps ps1"
      using write_readers_ok [OF il c rs, of 0 pks NO_ERROR] unfolding okE_iff_ex by blast
    have eq: "port_write cpu w (Some pks) ps s =
        bindE (bindE (thread_unlock cpu s2) (\<lambda>s3. if n \<noteq> 0 then thread_yield cpu s3 else Inr s3)) (\<lambda>s4. Inr (?rc, ps1, s4))"
      using s(2) w0 w m None wr
      by (simp add: port_write_def deref_def as_write_def bindE_def split: sum.splits)
    show ?thesis unfolding eq
      by (rule okE_bindI [OF unlock_and_yield [OF a(2) woke_refl]])
        (use a None in \<open>auto intro: port_inv_woke woke_trans simp: woke_lock\<close>)
  qed
qed


lemma try_read_ok:
  assumes i: "port_inv ps s" and r: "port_objs ps r = Some (Read_port rp)"
  shows "\<exists>rc pk ps'. try_read r ps = Inr ((rc, pk, Some (rp_ctx rp)), ps') \<and> port_inv ps' s \<and>
    (case reader_packets ps r of
       [] \<Rightarrow> rc = ERR_TIMED_OUT \<and> pk = None \<and> ps' = ps
     | x # xs \<Rightarrow> rc = NO_ERROR \<and> pk = Some x \<and> reader_packets ps' = (reader_packets ps)(r := xs))"
proof -
  from port_invD(2) [OF i r] obtain b where b: "rp_buf rp = Some b" "buf_ok b" by (auto simp: read_ok_def)
  obtain rc pk b1 where br: "buf_read b = (rc, pk, b1)" by (cases "buf_read b")
  let ?ps = "set_obj r (Read_port (rp\<lparr>rp_buf := Some b1\<rparr>)) ps"
  note bo = buf_read_ok [OF b(2) br]
  have pk: "reader_packets ps r = buf_contents b" by (simp add: reader_packets_def r b)
  have t: "try_read r ps = Inr ((if rc = ERR_NO_MSG then ERR_TIMED_OUT else rc, pk, Some (rp_ctx rp)), ?ps)"
    by (simp add: try_read_def as_read_def r b br)
  have "port_inv ?ps s" using bo by (intro port_inv_rbuf [OF i r]) simp
  moreover have "?ps = ps" if "b1 = b"
  proof -
    have "rp\<lparr>rp_buf := Some b\<rparr> = rp" using b(1) by simp
    with that r show ?thesis by (simp add: set_obj_def fun_upd_idem)
  qed
  moreover have "reader_packets ?ps = (reader_packets ps)(r := buf_contents b1)"
    by (auto simp: reader_packets_def set_obj_def)
  ultimately show ?thesis using bo unfolding t pk by (auto split: list.splits)
qed

text \<open>The block of a reader in its critical section.\<close>

definition waits_on :: "cpu_num \<Rightarrow> port \<Rightarrow> kstate \<Rightarrow> kstate \<Rightarrow> bool" where
  "waits_on cpu p s s' \<longleftrightarrow> sched_inv s' \<and> lock_free s' \<and> runs_best cpu s' \<and> current s' cpu \<noteq> current s cpu \<and>
     wq_list (wait_queues s' (Obj_wq p)) = wq_list (wait_queues s (Obj_wq p)) @ [current s cpu] \<and>
     (\<forall>q. wq_live s q \<longrightarrow> wq_live s' q)"

lemma reader_blocks:
  assumes ctx: "thread_context cpu s" and p: "wq_live s p" and t: "timeout \<noteq> 0"
  shows "\<exists>s1 s2. wait_queue_block cpu (Obj_wq p) timeout (s\<lparr>thread_lock_owner := cpu\<rparr>) = Inr (Switched_out s1) \<and>
    thread_unlock cpu s1 = Inr s2 \<and> waits_on cpu p s s2"
proof -
  have "sched_inv s" "lock_free s" "up s cpu" "\<not> thread_is_idle (threads s (current s cpu))"
    "node (timer_of (timers s) (Stack_timer (current s cpu))) = None" using ctx by (simp_all add: thread_context_def)
  note b = block_in_section [OF this(1-3) p this(4,5), of timeout]
  have live: "blocked_on cpu (current s cpu) (Obj_wq p) timeout s s2 \<Longrightarrow> wq_live s q \<Longrightarrow> wq_live s2 q" for s2 q
    by (cases "q = p") (auto simp: blocked_on_def)
  from b obtain c d where c: "wait_queue_block cpu (Obj_wq p) timeout (s\<lparr>thread_lock_owner := cpu\<rparr>) = Inr c"
    "unlock_call cpu c = Inr d" and d: "case d of
        Return r s' \<Rightarrow> timeout = 0 \<and> r = ERR_TIMED_OUT \<and> s' = s
      | Switched_out s' \<Rightarrow> timeout \<noteq> 0 \<and> sched_inv s' \<and> lock_free s' \<and> runs_best cpu s' \<and>
          current s' cpu \<noteq> current s cpu \<and> blocked_on cpu (current s cpu) (Obj_wq p) timeout s s'"
    unfolding okE_iff_ex by (elim exE conjE) (rule that)
  from d t obtain s2 where s2: "d = Switched_out s2" "sched_inv s2" "lock_free s2" "runs_best cpu s2"
    "current s2 cpu \<noteq> current s cpu" "blocked_on cpu (current s cpu) (Obj_wq p) timeout s s2" by (auto split: call.splits)
  from c(2) s2(1) obtain s1 where "c = Switched_out s1" "thread_unlock cpu s1 = Inr s2"
    by (auto simp: unlock_call_def res_simps split: call.splits)
  moreover have "wq_list (wait_queues s2 (Obj_wq p)) = wq_list (wait_queues s (Obj_wq p)) @ [current s cpu]"
    using s2(6) by (simp add: blocked_on_def)
  then have "waits_on cpu p s s2" using s2 live by (simp add: waits_on_def)
  ultimately show ?thesis using c(1) by blast
qed

theorem port_read_ok:
  assumes i: "port_inv ps s" and ctx: "thread_context cpu s" and r: "port_objs ps r = Some (Read_port rp)"
  shows "\<exists>ps' c. port_read cpu r timeout True ps s = Some (Inr (ps', c)) \<and>
    (case reader_packets ps r of
       x # xs \<Rightarrow> c = Return (NO_ERROR, Some x, Some (rp_ctx rp)) s \<and> port_inv ps' s \<and>
         reader_packets ps' = (reader_packets ps)(r := xs)
     | [] \<Rightarrow> ps' = ps \<and>
         (if timeout = 0 then c = Return (ERR_TIMED_OUT, None, Some (rp_ctx rp)) s
          else \<exists>s'. c = Switched_out s' \<and> port_inv ps s' \<and> waits_on cpu r s s'))"
proof -
  let ?l = "s\<lparr>thread_lock_owner := cpu\<rparr>"
  have lf: "lock_free s" using ctx by (simp add: thread_context_def)
  have r0: "r \<noteq> 0" using r port_invD(4) [OF i] by (cases r) auto
  have ok: "rp_magic rp = READPORT_MAGIC" "wq_live s r" using port_invD(2) [OF i r] by (simp_all add: read_ok_def)
  have unl: "thread_unlock cpu ?l = Inr s" using lf by (simp add: lock_free_def)
  have pr: "port_read cpu r timeout True ps s = unlock_read cpu (read_no_lock cpu r timeout ps ?l)"
    using lf r0 r ok(1) by (simp add: port_read_def deref_def)
  from try_read_ok [OF i r] obtain rc pk ps' where t: "try_read r ps = Inr ((rc, pk, Some (rp_ctx rp)), ps')" "port_inv ps' s"
    "case reader_packets ps r of [] \<Rightarrow> rc = ERR_TIMED_OUT \<and> pk = None \<and> ps' = ps
     | x # xs \<Rightarrow> rc = NO_ERROR \<and> pk = Some x \<and> reader_packets ps' = (reader_packets ps)(r := xs)" by blast
  show ?thesis
  proof (cases "rc \<noteq> ERR_TIMED_OUT \<or> timeout = 0")
    case True
    then have "read_no_lock cpu r timeout ps ?l = Some (Inr (ps', Return (rc, pk, Some (rp_ctx rp)) ?l))"
      by (subst read_no_lock.simps) (auto simp: t(1))
    then have "port_read cpu r timeout True ps s = Some (Inr (ps', Return (rc, pk, Some (rp_ctx rp)) s))"
      using unl by (simp add: pr unlock_read_def unlock_call_def)
    with t(2,3) True show ?thesis by (auto split: list.splits)
  next
    case False
    then have t0: "timeout \<noteq> 0" and e: "reader_packets ps r = []" "ps' = ps" using t(3) by (auto split: list.splits)
    from reader_blocks [OF ctx ok(2) t0] obtain s1 s2 where
      b: "wait_queue_block cpu (Obj_wq r) timeout ?l = Inr (Switched_out s1)" "thread_unlock cpu s1 = Inr s2" "waits_on cpu r s s2"
      by blast
    have "read_no_lock cpu r timeout ps ?l = Some (Inr (ps, Switched_out s1))"
      using False by (subst read_no_lock.simps) (simp add: t(1) e b(1))
    then have "port_read cpu r timeout True ps s = Some (Inr (ps, Switched_out s2))"
      using b(2) by (simp add: pr unlock_read_def unlock_call_def)
    moreover have "port_inv ps s2" using b(3) by (intro port_inv_kernel [OF i]) (simp add: waits_on_def)
    ultimately show ?thesis using b(3) t0 e by simp
  qed
qed


text \<open>Reading from a group takes the first packet of the first port that has one.\<close>

lemma scan_group_ok:
  assumes i: "port_inv ps s" and rs: "\<And>r. r \<in> set rs \<Longrightarrow> \<exists>rp. port_objs ps r = Some (Read_port rp)"
  shows "\<exists>found rc pk c' ps'. scan_group rs c ps = Inr (found, (rc, pk, c'), ps') \<and> port_inv ps' s \<and>
    (case find (\<lambda>r. reader_packets ps r \<noteq> []) rs of
       None \<Rightarrow> \<not> found \<and> ps' = ps
     | Some r \<Rightarrow> found \<and> rc = NO_ERROR \<and> pk = Some (hd (reader_packets ps r)) \<and>
         (\<exists>rp. port_objs ps r = Some (Read_port rp) \<and> c' = Some (rp_ctx rp)) \<and>
         reader_packets ps' = (reader_packets ps)(r := tl (reader_packets ps r)))"
  using rs
proof (induction rs arbitrary: c)
  case Nil
  with i show ?case by (intro exI [of _ False]) simp
next
  case (Cons r rs)
  then obtain rp where r: "port_objs ps r = Some (Read_port rp)" by auto
  from try_read_ok [OF i r] obtain rc pk ps' where t: "try_read r ps = Inr ((rc, pk, Some (rp_ctx rp)), ps')" "port_inv ps' s"
    "case reader_packets ps r of [] \<Rightarrow> rc = ERR_TIMED_OUT \<and> pk = None \<and> ps' = ps
     | x # xs \<Rightarrow> rc = NO_ERROR \<and> pk = Some x \<and> reader_packets ps' = (reader_packets ps)(r := xs)" by blast
  show ?case
  proof (cases "reader_packets ps r")
    case Nil
    with t Cons.IH [of "Some (rp_ctx rp)"] Cons.prems show ?thesis by simp
  next
    case (Cons x xs)
    with t r show ?thesis by (intro exI [of _ True]) simp
  qed
qed

theorem port_group_read_ok:
  assumes i: "port_inv ps s" and ctx: "thread_context cpu s" and g: "port_objs ps g = Some (Port_group pg)"
  shows "\<exists>ps' c. port_read cpu g timeout True ps s = Some (Inr (ps', c)) \<and>
    (case find (\<lambda>r. reader_packets ps r \<noteq> []) (pg_rp_list pg) of
       Some r \<Rightarrow> port_inv ps' s \<and> reader_packets ps' = (reader_packets ps)(r := tl (reader_packets ps r)) \<and>
         (\<exists>rp. port_objs ps r = Some (Read_port rp) \<and>
               c = Return (NO_ERROR, Some (hd (reader_packets ps r)), Some (rp_ctx rp)) s)
     | None \<Rightarrow> ps' = ps \<and>
         (if timeout = 0 then \<exists>cx. c = Return (ERR_TIMED_OUT, None, cx) s
          else \<exists>s'. c = Switched_out s' \<and> port_inv ps s' \<and> waits_on cpu g s s'))"
proof -
  let ?l = "s\<lparr>thread_lock_owner := cpu\<rparr>"
  have lf: "lock_free s" using ctx by (simp add: thread_context_def)
  have g0: "g \<noteq> 0" using g port_invD(4) [OF i] by (cases g) auto
  have ok: "pg_magic pg = PORTGROUP_MAGIC" "wq_live s g"
    "\<And>r. r \<in> set (pg_rp_list pg) \<Longrightarrow> \<exists>rp. port_objs ps r = Some (Read_port rp)"
    using port_invD(3) [OF i g] by (auto simp: group_ok_def)
  have unl: "thread_unlock cpu ?l = Inr s" using lf by (simp add: lock_free_def)
  have pr: "port_read cpu g timeout True ps s = unlock_read cpu (read_group cpu g timeout ps ?l)"
    using lf g0 g ok(1) by (simp add: port_read_def deref_def PORTGROUP_MAGIC_def READPORT_MAGIC_def)
  from scan_group_ok [OF i ok(3), of "pg_rp_list pg" None] obtain found rc pk c ps' where
    t: "scan_group (pg_rp_list pg) None ps = Inr (found, (rc, pk, c), ps')" "port_inv ps' s"
    and f: "case find (\<lambda>r. reader_packets ps r \<noteq> []) (pg_rp_list pg) of
       None \<Rightarrow> \<not> found \<and> ps' = ps
     | Some r \<Rightarrow> found \<and> rc = NO_ERROR \<and> pk = Some (hd (reader_packets ps r)) \<and>
         (\<exists>rp. port_objs ps r = Some (Read_port rp) \<and> c = Some (rp_ctx rp)) \<and>
         reader_packets ps' = (reader_packets ps)(r := tl (reader_packets ps r))" by blast
  show ?thesis
  proof (cases "find (\<lambda>r. reader_packets ps r \<noteq> []) (pg_rp_list pg)")
    case (Some r)
    then have "read_group cpu g timeout ps ?l = Some (Inr (ps', Return (rc, pk, c) ?l))"
      using f by (subst read_group.simps) (simp add: as_group_def g t(1))
    then have "port_read cpu g timeout True ps s = Some (Inr (ps', Return (rc, pk, c) s))"
      using unl by (simp add: pr unlock_read_def unlock_call_def)
    with Some f t(2) show ?thesis by auto
  next
    case None
    with f have e: "\<not> found" "ps' = ps" by simp_all
    show ?thesis
    proof (cases "timeout = 0")
      case True
      have run: "state (threads s (current s cpu)) = THREAD_RUNNING" using ctx current_facts(2) by (simp add: thread_context_def)
      have "wait_queue_block cpu (Obj_wq g) timeout ?l = Inr (Return ERR_TIMED_OUT ?l)"
        using ok(2) True run by (simp add: wait_queue_block_def)
      then have "read_group cpu g timeout ps ?l = Some (Inr (ps, Return (ERR_TIMED_OUT, None, c) ?l))"
        by (subst read_group.simps) (simp add: as_group_def g t(1) e)
      then have "port_read cpu g timeout True ps s = Some (Inr (ps, Return (ERR_TIMED_OUT, None, c) s))"
        using unl by (simp add: pr unlock_read_def unlock_call_def)
      with True None show ?thesis by simp
    next
      case False
      from reader_blocks [OF ctx ok(2) False] obtain s1 s2 where
        b: "wait_queue_block cpu (Obj_wq g) timeout ?l = Inr (Switched_out s1)" "thread_unlock cpu s1 = Inr s2" "waits_on cpu g s s2"
        by blast
      have "read_group cpu g timeout ps ?l = Some (Inr (ps, Switched_out s1))"
        by (subst read_group.simps) (simp add: as_group_def g t(1) e b(1))
      then have "port_read cpu g timeout True ps s = Some (Inr (ps, Switched_out s2))"
        using b(2) by (simp add: pr unlock_read_def unlock_call_def)
      moreover have "port_inv ps s2" using b(3) by (intro port_inv_kernel [OF i]) (simp add: waits_on_def)
      ultimately show ?thesis using None b(3) False by simp
    qed
  qed
qed

end
