(* ===== verification/Port_Close.thy ===== *)
theory Port_Close
  imports Port_Invariant
begin

text \<open>
  Ports, second part of the proofs: closing, groups and destruction, and the two places where the
  code does not do what its comments say.
\<close>

section \<open>Closing and destroying\<close>

text \<open>Closing a write port only stops further writes.\<close>

theorem port_close_write_ok:
  assumes i: "port_inv ps s" and lf: "lock_free s"
    and w: "port_objs ps w = Some (Write_port wp)" "wp_magic wp = WRITEPORT_MAGIC_W"
  shows "\<exists>ps'. port_close cpu w ps s = Inr (NO_ERROR, ps', s) \<and> port_inv ps' s \<and>
    port_objs ps' = (port_objs ps)(w \<mapsto> Write_port (wp\<lparr>wp_magic := WRITEPORT_MAGIC_X\<rparr>)) \<and>
    port_write cpu w (Some pks) ps' s = Inr (ERR_BAD_HANDLE, ps', s)"
proof -
  let ?ps = "set_obj w (Write_port (wp\<lparr>wp_magic := WRITEPORT_MAGIC_X\<rparr>)) ps"
  have w0: "w \<noteq> 0" using w(1) port_invD(4) [OF i] by (cases w) auto
  have "port_inv ?ps s"
    using same_links_refl [OF i w(1)] by (intro port_inv_relink1 [OF i w(1)]) auto
  moreover have "thread_unlock cpu (s\<lparr>thread_lock_owner := cpu\<rparr>) = Inr s" using lf by (simp add: lock_free_def)
  ultimately show ?thesis using lf w w0
    by (simp add: port_close_def port_write_def deref_def as_write_def set_obj_def READPORT_MAGIC_def PORTGROUP_MAGIC_def
        WRITEPORT_MAGIC_W_def WRITEPORT_MAGIC_X_def)
qed

text \<open>The end of a wait queue: its waiters are told, the other queues are left alone.\<close>

lemma destroy_step:
  assumes ctx: "thread_context cpu s" and p: "wq_live s p"
  shows "\<exists>s1 s'. wait_queue_destroy cpu (Obj_wq p) True (s\<lparr>thread_lock_owner := cpu\<rparr>) = Inr s1 \<and>
    thread_unlock cpu s1 = Inr s' \<and> sched_inv s' \<and> lock_free s' \<and>
    (\<forall>t \<in> set (wq_list (wait_queues s (Obj_wq p))). wait_queue_block_ret (threads s' t) = ERR_OBJECT_DESTROYED) \<and>
    (\<forall>q. q \<noteq> p \<longrightarrow> wait_queues s' (Obj_wq q) = wait_queues s (Obj_wq q)) \<and> wq_list (wait_queues s' (Obj_wq p)) = []"
proof -
  let ?l = "s\<lparr>thread_lock_owner := cpu\<rparr>" and ?w = "Obj_wq p"
  have cw: "can_wake cpu ?w True ?l" using ctx p by (simp add: can_wake_def thread_context_def)
  obtain n s1 where w: "wait_queue_wake_all cpu ?w True ERR_OBJECT_DESTROYED ?l = Inr (n, s1)"
    "sched_inv s1" "thread_lock_held cpu s1" "released (wq_list (wait_queues ?l ?w)) ?w ERR_OBJECT_DESTROYED ?l s1"
    using wait_queue_wake_all_ok [OF cw, of ERR_OBJECT_DESTROYED] unfolding okE_iff_ex by blast
  let ?s1 = "upd_wq ?w (\<lambda>q. q\<lparr>wq_magic := 0\<rparr>) s1"
  have e: "wq_list (wait_queues s1 ?w) = []" using w(4) by (simp add: released_def)
  have "sched_inv ?s1" using w(2) e by (rule sched_inv_wq_magic)
  moreover have "wait_queue_destroy cpu ?w True ?l = Inr ?s1" using w(1) p by (simp add: wait_queue_destroy_def)
  moreover have "thread_unlock cpu ?s1 = Inr (?s1\<lparr>thread_lock_owner := smp_max_cpus ?s1\<rparr>)"
    using w(3) by (simp add: thread_unlock_def thread_lock_held_def)
  ultimately show ?thesis using w(4) e by (simp add: lock_free_def released_def)
qed

text \<open>A write port without the read port \<open>r\<close>.\<close>

definition drop_reader :: "port \<Rightarrow> read_port \<Rightarrow> write_port \<Rightarrow> write_port" where
  "drop_reader r rp wp =
     (if r \<notin> set (wp_rp_list wp) then wp
      else if wp_rp_list wp = [r] then wp\<lparr>wp_rp_list := [], wp_buf := rp_buf rp\<rparr>
      else wp\<lparr>wp_rp_list := remove1 r (wp_rp_list wp)\<rparr>)"

lemma drop_reader_simps [simp]:
  "wp_name (drop_reader r rp wp) = wp_name wp" "wp_magic (drop_reader r rp wp) = wp_magic wp"
  "wp_rp_list (drop_reader r rp wp) = remove1 r (wp_rp_list wp)"
  "wp_buf (drop_reader r rp wp) = (if wp_rp_list wp = [r] then rp_buf rp else wp_buf wp)"
  by (simp_all add: drop_reader_def remove1_idem)

text \<open>What is left of the port system when the read port \<open>r\<close> has been taken out of all lists and freed.\<close>

definition without_reader :: "port \<Rightarrow> read_port \<Rightarrow> (port \<Rightarrow> port_obj option) \<Rightarrow> port \<Rightarrow> port_obj option" where
  "without_reader r rp obs p = (if p = r then None else case obs p of
       Some (Write_port wp) \<Rightarrow> Some (Write_port (drop_reader r rp wp))
     | Some (Port_group pg) \<Rightarrow> Some (Port_group (pg\<lparr>pg_rp_list := remove1 r (pg_rp_list pg)\<rparr>)) | x \<Rightarrow> x)"

lemma port_inv_close_read:
  assumes i: "port_inv ps s" and r: "port_objs ps r = Some (Read_port rp)"
    and live: "\<And>q. q \<noteq> r \<Longrightarrow> wq_live s q \<Longrightarrow> wq_live s' q"
    and l: "write_port_list ps' = write_port_list ps"
    and obs: "port_objs ps' = without_reader r rp (port_objs ps)"
  shows "port_inv ps' s'"
proof (rule port_invI)
  note ob = fun_cong [OF obs, unfolded without_reader_def]
  from port_invD(2) [OF i r] obtain b where b: "rp_buf rp = Some b" "buf_ok b" by (auto simp: read_ok_def)
  have kr: "port_objs ps' q = Some (Read_port a)" if "port_objs ps q = Some (Read_port a)" "q \<noteq> r" for q a
    using that by (simp add: ob)
  have or: "port_objs ps q = Some (Read_port a) \<and> q \<noteq> r" if "port_objs ps' q = Some (Read_port a)" for q a
    using that by (auto simp: ob split: if_splits option.splits port_obj.splits)
  have ow: "\<exists>a. port_objs ps q = Some (Write_port a) \<and> wp_name a = wp_name c \<and> wp_magic a = wp_magic c \<and>
      wp_rp_list c = remove1 r (wp_rp_list a) \<and> q \<noteq> r \<and>
      wp_buf c = (if wp_rp_list a = [r] then Some b else wp_buf a)"
    if "port_objs ps' q = Some (Write_port c)" for q c
    using that by (auto simp: ob b(1) split: if_split_asm option.splits port_obj.splits)
  have kw: "\<exists>c. port_objs ps' q = Some (Write_port c) \<and> wp_rp_list c = remove1 r (wp_rp_list a)"
    if "port_objs ps q = Some (Write_port a)" for q a using that r by (auto simp: ob)
  have og: "\<exists>a. port_objs ps q = Some (Port_group a) \<and> c = a\<lparr>pg_rp_list := remove1 r (pg_rp_list a)\<rparr> \<and> q \<noteq> r"
    if "port_objs ps' q = Some (Port_group c)" for q c
    using that by (auto simp: ob split: if_splits option.splits port_obj.splits)
  have kg: "\<exists>c. port_objs ps' q = Some (Port_group c) \<and> pg_rp_list c = remove1 r (pg_rp_list a)"
    if "port_objs ps q = Some (Port_group a)" for q a using that r by (auto simp: ob)
  fix p
  show "write_ok ps' p c" if c: "port_objs ps' p = Some (Write_port c)" for c
  proof -
    from ow [OF c] obtain a where a: "port_objs ps p = Some (Write_port a)" "wp_magic a = wp_magic c"
      "wp_rp_list c = remove1 r (wp_rp_list a)" "wp_buf c = (if wp_rp_list a = [r] then Some b else wp_buf a)" by blast
    from port_invD(1) [OF i a(1)] have ok: "write_ok ps p a" .
    have "\<exists>x. port_objs ps' q = Some (Read_port x) \<and> rp_wport x = Some p" if "q \<in> set (wp_rp_list c)" for q
      using that ok kr a(3) unfolding write_ok_def by (metis notin_set_remove1 set_remove1_eq Diff_iff singletonI)
    moreover have "wp_buf c = None \<longleftrightarrow> wp_rp_list c \<noteq> []"
      using ok a(3,4) unfolding write_ok_def by (cases "wp_rp_list a"; cases "tl (wp_rp_list a)") auto
    ultimately show ?thesis using ok a b(2) l by (auto simp: write_ok_def split: if_splits)
  qed
  show "read_ok ps' s' p a" if a: "port_objs ps' p = Some (Read_port a)" for a
  proof -
    from or [OF a] have o: "port_objs ps p = Some (Read_port a)" "p \<noteq> r" by simp_all
    from port_invD(2) [OF i o(1)] live [OF o(2)] kw kg o(2) show ?thesis unfolding read_ok_def by (metis in_set_remove1)
  qed
  show "group_ok ps' s' p c" if c: "port_objs ps' p = Some (Port_group c)" for c
  proof -
    from og [OF c] obtain a where a: "port_objs ps p = Some (Port_group a)" "c = a\<lparr>pg_rp_list := remove1 r (pg_rp_list a)\<rparr>" "p \<noteq> r" by blast
    from port_invD(3) [OF i a(1)] have ok: "group_ok ps s p a" .
    have "\<exists>x. port_objs ps' q = Some (Read_port x) \<and> rp_gport x = Some p" if "q \<in> set (pg_rp_list c)" for q
      using that ok kr a(2) unfolding group_ok_def by (auto simp: set_remove1_eq)
    with ok a live [OF a(3)] show ?thesis by (simp add: group_ok_def)
  qed
  show "port_objs ps' 0 = None" using port_invD(4) [OF i] by (simp add: ob)
  show "distinct (write_port_list ps')" using i by (simp add: l port_inv_def)
  show "\<exists>wp. port_objs ps' p = Some (Write_port wp)" if "p \<in> set (write_port_list ps')"
    using that i kw unfolding port_inv_def l by metis
  show "p = q" if "port_objs ps' p = Some (Write_port vp)" "port_objs ps' q = Some (Write_port wp')" "wp_name vp = wp_name wp'" for q vp wp'
    using that i ow unfolding port_inv_def by metis
qed


lemma unlink_reader:
  assumes i: "port_inv ps s" and r: "port_objs ps r = Some (Read_port rp)"
  shows "\<exists>ps1 ps2. detach_reader r rp ps = Inr ps1 \<and>
    (case rp_gport rp of Some g \<Rightarrow> unlink_group g r ps1 | None \<Rightarrow> Inr ps1) = Inr ps2 \<and>
    write_port_list (free_obj r ps2) = write_port_list ps \<and> port_objs (free_obj r ps2) = without_reader r rp (port_objs ps)"
proof -
  from port_invD(2) [OF i r] have ok: "read_ok ps s r rp" .
  have other_w: "r \<notin> set (wp_rp_list vp)" if "port_objs ps v = Some (Write_port vp)" "rp_wport rp \<noteq> Some v" for v vp
    using port_invD(1) [OF i that(1)] that(2) r by (force simp: write_ok_def)
  have other_g: "r \<notin> set (pg_rp_list pg)" if "port_objs ps g = Some (Port_group pg)" "rp_gport rp \<noteq> Some g" for g pg
    using port_invD(3) [OF i that(1)] that(2) r by (force simp: group_ok_def)
  define ps1 where "ps1 = (case rp_wport rp of None \<Rightarrow> ps | Some w \<Rightarrow>
      (case port_objs ps w of Some (Write_port wp) \<Rightarrow>
         (if wp_rp_list wp = [r] then set_obj r (Read_port (rp\<lparr>rp_buf := None\<rparr>)) else id)
           (set_obj w (Write_port (drop_reader r rp wp)) ps) | _ \<Rightarrow> ps))"
  have d: "detach_reader r rp ps = Inr ps1"
  proof (cases "rp_wport rp")
    case (Some w)
    with ok obtain wp where w: "port_objs ps w = Some (Write_port wp)" "r \<in> set (wp_rp_list wp)" by (auto simp: read_ok_def)
    have "remove1 r (wp_rp_list wp) = [] \<longleftrightarrow> wp_rp_list wp = [r]" using w(2) by (cases "wp_rp_list wp") auto
    with Some w show ?thesis by (auto simp: detach_reader_def as_write_def ps1_def drop_reader_def Let_def)
  qed (simp add: detach_reader_def ps1_def)
  have ob1: "port_objs ps1 p = (if rp_wport rp = Some p then
      (case port_objs ps p of Some (Write_port wp) \<Rightarrow> Some (Write_port (drop_reader r rp wp)) | x \<Rightarrow> x) else port_objs ps p)"
    if "p \<noteq> r" for p
    using that ok by (auto simp: ps1_def set_obj_def read_ok_def split: option.splits)
  have l1: "write_port_list ps1 = write_port_list ps" by (simp add: ps1_def set_obj_def split: option.splits port_obj.splits)
  define ps2 where "ps2 = (case rp_gport rp of None \<Rightarrow> ps1 | Some g \<Rightarrow>
      (case port_objs ps1 g of Some (Port_group pg) \<Rightarrow>
        set_obj g (Port_group (pg\<lparr>pg_rp_list := remove1 r (pg_rp_list pg)\<rparr>)) ps1 | _ \<Rightarrow> ps1))"
  have gr: "\<exists>pg. port_objs ps1 g = Some (Port_group pg) \<and> port_objs ps g = Some (Port_group pg) \<and> r \<in> set (pg_rp_list pg) \<and> g \<noteq> r"
    if "rp_gport rp = Some g" for g
    using that ok r ob1 [of g] by (force simp: read_ok_def)
  have u: "(case rp_gport rp of Some g \<Rightarrow> unlink_group g r ps1 | None \<Rightarrow> Inr ps1) = Inr ps2"
    using gr by (cases "rp_gport rp") (auto simp: unlink_group_def as_group_def ps2_def dest!: gr)
  have l2: "write_port_list (free_obj r ps2) = write_port_list ps"
    by (simp add: ps2_def free_obj_def set_obj_def l1 split: option.splits port_obj.splits)
  have ob2: "port_objs (free_obj r ps2) p = without_reader r rp (port_objs ps) p" for p
  proof (cases "p = r")
    case False
    have o: "port_objs (free_obj r ps2) p = (if rp_gport rp = Some p then
        (case port_objs ps p of Some (Port_group pg) \<Rightarrow> Some (Port_group (pg\<lparr>pg_rp_list := remove1 r (pg_rp_list pg)\<rparr>)) | x \<Rightarrow> x)
        else port_objs ps1 p)"
      using False by (auto simp: ps2_def free_obj_def set_obj_def dest!: gr split: option.splits)
    have wd: "wp = drop_reader r rp wp" if "port_objs ps p = Some (Write_port wp)" "rp_wport rp \<noteq> Some p" for wp
      using other_w [OF that] by (simp add: drop_reader_def)
    have gd: "pg\<lparr>pg_rp_list := remove1 r (pg_rp_list pg)\<rparr> = pg" if "port_objs ps p = Some (Port_group pg)" "rp_gport rp \<noteq> Some p" for pg
      using other_g [OF that] by (simp add: remove1_idem)
    have wg: "rp_gport rp = Some p \<Longrightarrow> port_objs ps p \<noteq> Some (Write_port wp)" for wp by (auto dest!: gr)
    show ?thesis
    proof (cases "port_objs ps p")
      case (Some x)
      then show ?thesis using False o ob1 [OF False] wd gd wg unfolding without_reader_def by (cases x) auto
    qed (use False o ob1 [OF False] in \<open>auto simp: without_reader_def\<close>)
  qed (simp add: free_obj_def without_reader_def)
  then have "port_objs (free_obj r ps2) = without_reader r rp (port_objs ps)" by blast
  with d u l2 show ?thesis by blast
qed

text \<open>
  Closing a read port: whoever waits on it is told, and the last reader of a write port gives it
  the buffer back with the packets nobody has read.
\<close>

theorem port_close_read_ok:
  assumes i: "port_inv ps s" and ctx: "thread_context cpu s" and r: "port_objs ps r = Some (Read_port rp)"
  shows "\<exists>ps' s'. port_close cpu r ps s = Inr (NO_ERROR, ps', s') \<and> port_inv ps' s' \<and> sched_inv s' \<and> lock_free s' \<and>
    port_objs ps' r = None \<and>
    (\<forall>t \<in> set (wq_list (wait_queues s (Obj_wq r))). wait_queue_block_ret (threads s' t) = ERR_OBJECT_DESTROYED) \<and>
    (\<forall>w wp. rp_wport rp = Some w \<longrightarrow> port_objs ps w = Some (Write_port wp) \<longrightarrow>
       port_objs ps' w = Some (Write_port (drop_reader r rp wp)))"
proof -
  let ?l = "s\<lparr>thread_lock_owner := cpu\<rparr>"
  have lf: "lock_free s" using ctx by (simp add: thread_context_def)
  have r0: "r \<noteq> 0" using r port_invD(4) [OF i] by (cases r) auto
  from port_invD(2) [OF i r] have ok: "read_ok ps s r rp" .
  from unlink_reader [OF i r] obtain ps1 ps2 where d: "detach_reader r rp ps = Inr ps1"
    and u: "(case rp_gport rp of Some g \<Rightarrow> unlink_group g r ps1 | None \<Rightarrow> Inr ps1) = Inr ps2"
    and l2: "write_port_list (free_obj r ps2) = write_port_list ps"
    and ob2: "port_objs (free_obj r ps2) = without_reader r rp (port_objs ps)" by blast
  have "wq_live s r" using ok by (simp add: read_ok_def)
  from destroy_step [OF ctx this] obtain s1 s' where q: "wait_queue_destroy cpu (Obj_wq r) True ?l = Inr s1"
    "thread_unlock cpu s1 = Inr s'" "sched_inv s'" "lock_free s'"
    "\<forall>t \<in> set (wq_list (wait_queues s (Obj_wq r))). wait_queue_block_ret (threads s' t) = ERR_OBJECT_DESTROYED"
    "\<forall>q. q \<noteq> r \<longrightarrow> wait_queues s' (Obj_wq q) = wait_queues s (Obj_wq q)" by blast
  have "port_inv (free_obj r ps2) s'"
    using q(6) by (intro port_inv_close_read [OF i r _ l2 ob2]) simp
  moreover have "port_close cpu r ps s = Inr (NO_ERROR, free_obj r ps2, s')"
    using lf r0 r ok q(1,2) d u by (simp add: port_close_def deref_def as_read_def close_read_def read_ok_def)
  moreover have "port_objs (free_obj r ps2) w = Some (Write_port (drop_reader r rp wp))" if "port_objs ps w = Some (Write_port wp)" for w wp
    using that r by (auto simp: ob2 without_reader_def)
  ultimately show ?thesis using q by (auto simp: free_obj_def)
qed


text \<open>Groups: linking a port, and taking all ports out when the group is closed.\<close>

lemma foldl_set_gport:
  "port_objs (foldl (\<lambda>ps r. set_gport g r ps) ps rs) p = (if p \<in> set rs then
     map_option (\<lambda>ob. case ob of Read_port rp \<Rightarrow> Read_port (rp\<lparr>rp_gport := g\<rparr>) | x \<Rightarrow> x) (port_objs ps p)
     else port_objs ps p)"
  "write_port_list (foldl (\<lambda>ps r. set_gport g r ps) ps rs) = write_port_list ps"
  by (induction rs arbitrary: ps)
    (auto simp: set_gport_def set_obj_def option.map_comp comp_def split: option.splits port_obj.splits)

lemma port_inv_close_group:
  assumes i: "port_inv ps s" and g: "port_objs ps g = Some (Port_group pg)"
    and live: "\<And>q. q \<noteq> g \<Longrightarrow> wq_live s q \<Longrightarrow> wq_live s' q" and l: "write_port_list ps' = write_port_list ps"
    and ob: "\<And>p. port_objs ps' p = (if p = g then None else case port_objs ps p of
        Some (Read_port rp) \<Rightarrow> Some (Read_port (if p \<in> set (pg_rp_list pg) then rp\<lparr>rp_gport := None\<rparr> else rp)) | x \<Rightarrow> x)"
  shows "port_inv ps' s'"
proof (rule port_invI)
  have kr: "\<exists>c. port_objs ps' q = Some (Read_port c) \<and> rp_wport c = rp_wport a \<and> rp_gport c = (if q \<in> set (pg_rp_list pg) then None else rp_gport a)"
    if "port_objs ps q = Some (Read_port a)" for q a using that g by (auto simp: ob)
  have or: "\<exists>a. port_objs ps q = Some (Read_port a) \<and> q \<noteq> g \<and> c = (if q \<in> set (pg_rp_list pg) then a\<lparr>rp_gport := None\<rparr> else a)"
    if "port_objs ps' q = Some (Read_port c)" for q c
    using that by (auto simp: ob split: if_split_asm option.splits port_obj.splits)
  have w: "port_objs ps' q = Some (Write_port a) \<longleftrightarrow> port_objs ps q = Some (Write_port a)" for q a
    using g by (auto simp: ob split: option.splits port_obj.splits)
  have gr: "port_objs ps' q = Some (Port_group a) \<longleftrightarrow> port_objs ps q = Some (Port_group a) \<and> q \<noteq> g" for q a
    by (auto simp: ob split: option.splits port_obj.splits)
  fix p
  show "write_ok ps' p a" if "port_objs ps' p = Some (Write_port a)" for a
    using port_invD(1) [OF i that [unfolded w]] kr unfolding write_ok_def l by metis
  show "read_ok ps' s' p c" if c: "port_objs ps' p = Some (Read_port c)" for c
  proof -
    from or [OF c] obtain a where a: "port_objs ps p = Some (Read_port a)" "p \<noteq> g"
      "c = (if p \<in> set (pg_rp_list pg) then a\<lparr>rp_gport := None\<rparr> else a)" by blast
    from port_invD(2) [OF i a(1)] have ok: "read_ok ps s p a" .
    have "\<exists>pg'. port_objs ps' h = Some (Port_group pg') \<and> p \<in> set (pg_rp_list pg')" if "rp_gport c = Some h" for h
    proof -
      from that a(3) have n: "p \<notin> set (pg_rp_list pg)" "rp_gport a = Some h" by (auto split: if_splits)
      with ok obtain pg' where "port_objs ps h = Some (Port_group pg')" "p \<in> set (pg_rp_list pg')" by (auto simp: read_ok_def)
      with n g show ?thesis unfolding gr by auto
    qed
    with ok a(2,3) live [of p] show ?thesis unfolding read_ok_def w by (auto split: if_splits)
  qed
  show "group_ok ps' s' p a" if c: "port_objs ps' p = Some (Port_group a)" for a
  proof -
    from c [unfolded gr] have a: "port_objs ps p = Some (Port_group a)" "p \<noteq> g" by simp_all
    from port_invD(3) [OF i a(1)] have ok: "group_ok ps s p a" .
    have "\<exists>c. port_objs ps' q = Some (Read_port c) \<and> rp_gport c = Some p" if "q \<in> set (pg_rp_list a)" for q
    proof -
      from that ok obtain x where x: "port_objs ps q = Some (Read_port x)" "rp_gport x = Some p" by (auto simp: group_ok_def)
      then have "q \<notin> set (pg_rp_list pg)" using port_invD(3) [OF i g] a(2) by (auto simp: group_ok_def)
      with kr [OF x(1)] x(2) show ?thesis by auto
    qed
    with ok a(2) live show ?thesis by (simp add: group_ok_def)
  qed
  show "port_objs ps' 0 = None" using port_invD(4) [OF i] by (simp add: ob)
  show "distinct (write_port_list ps')" using i by (simp add: l port_inv_def)
  show "\<exists>wp. port_objs ps' p = Some (Write_port wp)" if "p \<in> set (write_port_list ps')"
    using that i unfolding port_inv_def l w by metis
  show "p = q" if "port_objs ps' p = Some (Write_port vp)" "port_objs ps' q = Some (Write_port wp')" "wp_name vp = wp_name wp'" for q vp wp'
    using that i unfolding port_inv_def w by metis
qed

theorem port_close_group_ok:
  assumes i: "port_inv ps s" and ctx: "thread_context cpu s" and g: "port_objs ps g = Some (Port_group pg)"
  shows "\<exists>ps' s'. port_close cpu g ps s = Inr (NO_ERROR, ps', s') \<and> port_inv ps' s' \<and> sched_inv s' \<and> lock_free s' \<and>
    port_objs ps' g = None \<and> reader_packets ps' = reader_packets ps \<and>
    (\<forall>t \<in> set (wq_list (wait_queues s (Obj_wq g))). wait_queue_block_ret (threads s' t) = ERR_OBJECT_DESTROYED)"
proof -
  let ?l = "s\<lparr>thread_lock_owner := cpu\<rparr>" and ?ps = "foldl (\<lambda>ps r. set_gport None r ps) ps (pg_rp_list pg)"
  have lf: "lock_free s" using ctx by (simp add: thread_context_def)
  have g0: "g \<noteq> 0" using g port_invD(4) [OF i] by (cases g) auto
  from port_invD(3) [OF i g] have ok: "group_ok ps s g pg" .
  then have "wq_live s g" by (simp add: group_ok_def)
  from destroy_step [OF ctx this] obtain s1 s' where q: "wait_queue_destroy cpu (Obj_wq g) True ?l = Inr s1"
    "thread_unlock cpu s1 = Inr s'" "sched_inv s'" "lock_free s'"
    "\<forall>t \<in> set (wq_list (wait_queues s (Obj_wq g))). wait_queue_block_ret (threads s' t) = ERR_OBJECT_DESTROYED"
    "\<forall>q. q \<noteq> g \<longrightarrow> wait_queues s' (Obj_wq q) = wait_queues s (Obj_wq q)" by blast
  have ob: "port_objs (free_obj g ?ps) p = (if p = g then None else case port_objs ps p of
      Some (Read_port rp) \<Rightarrow> Some (Read_port (if p \<in> set (pg_rp_list pg) then rp\<lparr>rp_gport := None\<rparr> else rp)) | x \<Rightarrow> x)" for p
    by (auto simp: free_obj_def foldl_set_gport split: option.splits port_obj.splits)
  have "port_inv (free_obj g ?ps) s'"
    using q(6) by (intro port_inv_close_group [OF i g _ _ ob]) (simp_all add: free_obj_def foldl_set_gport)
  moreover have "reader_packets (free_obj g ?ps) = reader_packets ps"
    using g by (auto simp: reader_packets_def ob fun_eq_iff split: option.splits port_obj.splits)
  moreover have "port_close cpu g ps s = Inr (NO_ERROR, free_obj g ?ps, s')"
    using lf g0 g ok q(1,2)
    by (simp add: port_close_def deref_def as_group_def close_group_def group_ok_def READPORT_MAGIC_def PORTGROUP_MAGIC_def)
  ultimately show ?thesis using q by (simp add: free_obj_def)
qed


section \<open>Building groups\<close>

definition free_reader :: "port_sys \<Rightarrow> port \<Rightarrow> bool" where
  "free_reader ps r \<longleftrightarrow> (\<exists>rp. port_objs ps r = Some (Read_port rp) \<and> rp_gport rp = None)"

lemma groupable_iff: "port_inv ps s \<Longrightarrow> port_objs ps r = Some ob \<Longrightarrow> groupable ob \<longleftrightarrow> free_reader ps r"
  by (cases ob) (auto simp: groupable_def free_reader_def dest: port_invD(2) simp: read_ok_def)

lemma link_group_ok:
  assumes i: "port_inv ps s" and g: "port_objs ps g = Some (Port_group pg)"
    and r: "port_objs ps r = Some (Read_port rp)" "rp_gport rp = None"
  defines "ps' \<equiv> ps\<lparr>port_objs := (port_objs ps)(r \<mapsto> Read_port (rp\<lparr>rp_gport := Some g\<rparr>),
      g \<mapsto> Port_group (pg\<lparr>pg_rp_list := pg_rp_list pg @ [r]\<rparr>))\<rparr>"
  shows "link_group g r ps = Inr ps'" "port_inv ps' s"
proof -
  have rg: "r \<noteq> g" using r g by auto
  show "link_group g r ps = Inr ps'"
    using g r rg by (simp add: link_group_def as_group_def set_gport_def set_obj_def ps'_def)
  have ob: "port_objs ps' p = (if p = g then Some (Port_group (pg\<lparr>pg_rp_list := pg_rp_list pg @ [r]\<rparr>))
      else if p = r then Some (Read_port (rp\<lparr>rp_gport := Some g\<rparr>)) else port_objs ps p)" for p by (simp add: ps'_def)
  have l: "write_port_list ps' = write_port_list ps" by (simp add: ps'_def)
  have kr: "\<exists>c. port_objs ps' q = Some (Read_port c) \<and> rp_wport c = rp_wport a \<and> (q \<noteq> r \<longrightarrow> c = a)"
    if "port_objs ps q = Some (Read_port a)" for q a using that g r rg by (auto simp: ob)
  have w: "port_objs ps' q = Some (Write_port a) \<longleftrightarrow> port_objs ps q = Some (Write_port a)" for q a
    using g r by (auto simp: ob)
  have kg: "\<exists>c. port_objs ps' q = Some (Port_group c) \<and> set (pg_rp_list a) \<subseteq> set (pg_rp_list c)"
    if "port_objs ps q = Some (Port_group a)" for q a using that g r rg by (auto simp: ob)
  have rn: "r \<notin> set (pg_rp_list a)" if "port_objs ps q = Some (Port_group a)" for q a
    using port_invD(3) [OF i that] r by (force simp: group_ok_def)
  show "port_inv ps' s"
  proof (rule port_invI)
    fix p
    show "write_ok ps' p a" if "port_objs ps' p = Some (Write_port a)" for a
      using port_invD(1) [OF i that [unfolded w]] kr unfolding write_ok_def l by metis
    show "read_ok ps' s p c" if c: "port_objs ps' p = Some (Read_port c)" for c
    proof (cases "p = r")
      case True
      with c rg have "c = rp\<lparr>rp_gport := Some g\<rparr>" by (simp add: ob)
      with port_invD(2) [OF i r(1)] True show ?thesis unfolding read_ok_def w by (simp add: ob)
    next
      case False
      with c have a: "port_objs ps p = Some (Read_port c)" by (auto simp: ob split: if_splits)
      from port_invD(2) [OF i a] kg show ?thesis unfolding read_ok_def w by (metis subsetD)
    qed
    show "group_ok ps' s p c" if c: "port_objs ps' p = Some (Port_group c)" for c
    proof (cases "p = g")
      case True
      with c have c': "c = pg\<lparr>pg_rp_list := pg_rp_list pg @ [r]\<rparr>" by (simp add: ob)
      have "\<exists>x. port_objs ps' q = Some (Read_port x) \<and> rp_gport x = Some g" if "q \<in> set (pg_rp_list pg)" for q
        using that port_invD(3) [OF i g] kr rn [OF g] unfolding group_ok_def by metis
      with True c' port_invD(3) [OF i g] rn [OF g] rg show ?thesis by (auto simp: group_ok_def ob)
    next
      case False
      with c have a: "port_objs ps p = Some (Port_group c)" by (auto simp: ob split: if_splits)
      from port_invD(3) [OF i a] kr rn [OF a] show ?thesis unfolding group_ok_def by metis
    qed
    show "port_objs ps' 0 = None" using port_invD(4) [OF i] g r by (metis ob option.distinct(1))
    show "distinct (write_port_list ps')" using i by (simp add: l port_inv_def)
    show "\<exists>wp. port_objs ps' p = Some (Write_port wp)" if "p \<in> set (write_port_list ps')"
      using that i unfolding port_inv_def l w by metis
    show "p = q" if "port_objs ps' p = Some (Write_port vp)" "port_objs ps' q = Some (Write_port wp')" "wp_name vp = wp_name wp'" for q vp wp'
      using that i unfolding port_inv_def w by metis
  qed
qed

lemma group_loop_ok:
  assumes "port_inv ps s" "port_objs ps g = Some (Port_group \<lparr>pg_magic = PORTGROUP_MAGIC, pg_rp_list = seen\<rparr>)"
    "\<And>r. r \<in> set rs \<Longrightarrow> port_objs ps r \<noteq> None"
  shows "\<exists>rc ps'. group_loop g seen rs ps = Inr (rc, ps') \<and> write_port_list ps' = write_port_list ps \<and>
    (if distinct rs \<and> (\<forall>r \<in> set rs. free_reader ps r)
     then rc = NO_ERROR \<and> port_inv ps' s \<and>
       port_objs ps' g = Some (Port_group \<lparr>pg_magic = PORTGROUP_MAGIC, pg_rp_list = seen @ rs\<rparr>)
     else rc = ERR_BAD_HANDLE \<and>
       port_objs (free_obj g ps') = port_objs (free_obj g (foldl (\<lambda>ps r. set_gport None r ps) ps seen)))"
  using assms
proof (induction rs arbitrary: seen ps)
  case Nil
  then show ?case by simp
next
  case (Cons r rs)
  from Cons.prems(3) obtain ob where ob: "port_objs ps r = Some ob" by auto
  note fr = groupable_iff [OF Cons.prems(1) ob]
  show ?case
  proof (cases "free_reader ps r")
    case False
    with fr show ?thesis by (simp add: deref_def ob foldl_set_gport)
  next
    case True
    then obtain rp where r: "port_objs ps r = Some (Read_port rp)" "rp_gport rp = None" by (auto simp: free_reader_def)
    note lk = link_group_ok [OF Cons.prems(1,2) r]
    let ?ps = "ps\<lparr>port_objs := (port_objs ps)(r \<mapsto> Read_port (rp\<lparr>rp_gport := Some g\<rparr>),
        g \<mapsto> Port_group \<lparr>pg_magic = PORTGROUP_MAGIC, pg_rp_list = seen @ [r]\<rparr>)\<rparr>"
    have lk': "link_group g r ps = Inr ?ps" "port_inv ?ps s" using lk by simp_all
    have rg: "r \<noteq> g" using r Cons.prems(2) by auto
    have rs: "r \<notin> set seen" using port_invD(3) [OF Cons.prems(1,2)] r by (force simp: group_ok_def)
    have ob1: "port_objs ?ps q = (if q = g then Some (Port_group \<lparr>pg_magic = PORTGROUP_MAGIC, pg_rp_list = seen @ [r]\<rparr>)
        else if q = r then Some (Read_port (rp\<lparr>rp_gport := Some g\<rparr>)) else port_objs ps q)" for q by simp
    have step: "group_loop g seen (r # rs) ps = group_loop g (seen @ [r]) rs ?ps"
      using True fr lk'(1) by (simp add: deref_def ob)
    have "port_objs ?ps q \<noteq> None" if "q \<in> set rs" for q using Cons.prems(3) [of q] that by (simp add: ob1)
    then obtain rc ps' where ih: "group_loop g (seen @ [r]) rs ?ps = Inr (rc, ps')" "write_port_list ps' = write_port_list ?ps"
      "if distinct rs \<and> (\<forall>r \<in> set rs. free_reader ?ps r)
       then rc = NO_ERROR \<and> port_inv ps' s \<and>
         port_objs ps' g = Some (Port_group \<lparr>pg_magic = PORTGROUP_MAGIC, pg_rp_list = (seen @ [r]) @ rs\<rparr>)
       else rc = ERR_BAD_HANDLE \<and>
         port_objs (free_obj g ps') = port_objs (free_obj g (foldl (\<lambda>ps r. set_gport None r ps) ?ps (seen @ [r])))"
      using Cons.IH [OF lk'(2), of "seen @ [r]"] by auto
    have free: "free_reader ?ps q \<longleftrightarrow> free_reader ps q \<and> q \<noteq> r" for q
      using rg Cons.prems(2) by (auto simp: free_reader_def)
    have all: "distinct (r # rs) \<and> (\<forall>q \<in> set (r # rs). free_reader ps q) \<longleftrightarrow> distinct rs \<and> (\<forall>q \<in> set rs. free_reader ?ps q)"
      using True by (auto simp: free)
    have same: "rp\<lparr>rp_gport := None\<rparr> = rp" using r(2) by simp
    have "port_objs (free_obj g (foldl (\<lambda>ps r. set_gport None r ps) ?ps (seen @ [r]))) q =
        port_objs (free_obj g (foldl (\<lambda>ps r. set_gport None r ps) ps seen)) q" for q
      using rg r(1) rs same by (simp add: free_obj_def foldl_set_gport del: foldl_append)
    then have undo: "port_objs (free_obj g (foldl (\<lambda>ps r. set_gport None r ps) ?ps (seen @ [r]))) =
        port_objs (free_obj g (foldl (\<lambda>ps r. set_gport None r ps) ps seen))" by blast
    from ih show ?thesis unfolding step all undo by (simp split: if_splits)
  qed
qed


text \<open>A group is built from all the ports or not at all.\<close>

lemma port_inv_new_group:
  assumes i: "port_inv ps s" and g: "g \<noteq> 0" "port_objs ps g = None" "wq_live s g"
  shows "port_inv (set_obj g (Port_group \<lparr>pg_magic = PORTGROUP_MAGIC, pg_rp_list = []\<rparr>) ps) s"
proof -
  let ?ps = "set_obj g (Port_group \<lparr>pg_magic = PORTGROUP_MAGIC, pg_rp_list = []\<rparr>) ps"
  have keep: "port_objs ?ps p = port_objs ps p" if "port_objs ps p \<noteq> None" for p using that g by (auto simp: set_obj_def)
  have old: "port_objs ps p = Some ob" if "port_objs ?ps p = Some ob" "p \<noteq> g" for p ob using that by (simp add: set_obj_def)
  have l: "write_port_list ?ps = write_port_list ps" and gg: "port_objs ?ps g = Some (Port_group \<lparr>pg_magic = PORTGROUP_MAGIC, pg_rp_list = []\<rparr>)"
    by (simp_all add: set_obj_def)
  show ?thesis
  proof (rule port_invI)
    fix p
    show "write_ok ?ps p a" if "port_objs ?ps p = Some (Write_port a)" for a
    proof -
      from that gg have "p \<noteq> g" by auto
      from port_invD(1) [OF i old [OF that this]] keep show ?thesis unfolding write_ok_def l by (metis option.distinct(1))
    qed
    show "read_ok ?ps s p a" if "port_objs ?ps p = Some (Read_port a)" for a
    proof -
      from that gg have "p \<noteq> g" by auto
      from port_invD(2) [OF i old [OF that this]] keep show ?thesis unfolding read_ok_def by (metis option.distinct(1))
    qed
    show "group_ok ?ps s p a" if a: "port_objs ?ps p = Some (Port_group a)" for a
    proof (cases "p = g")
      case True
      with a gg g(3) show ?thesis by (auto simp: group_ok_def)
    next
      case False
      from port_invD(3) [OF i old [OF a False]] keep show ?thesis unfolding group_ok_def by (metis option.distinct(1))
    qed
    show "port_objs ?ps 0 = None" using port_invD(4) [OF i] g(1) by (simp add: set_obj_def)
    show "distinct (write_port_list ?ps)" using i by (simp add: l port_inv_def)
    show "\<exists>wp. port_objs ?ps p = Some (Write_port wp)" if "p \<in> set (write_port_list ?ps)"
      using that i keep unfolding port_inv_def l by (metis option.distinct(1))
    show "p = q" if "port_objs ?ps p = Some (Write_port vp)" "port_objs ?ps q = Some (Write_port wp')" "wp_name vp = wp_name wp'" for q vp wp'
      using that i gg old unfolding port_inv_def by (metis option.inject port_obj.distinct(3))
  qed
qed

theorem port_group_ok:
  assumes i: "port_inv ps s" and s: "sched_inv s" "lock_free s"
    and g: "g \<noteq> 0" "port_objs ps g = None" "wq_list (wait_queues s (Obj_wq g)) = []"
    and rs: "length rs \<le> MAX_PORT_GROUP_COUNT" "\<And>r. r \<in> set rs \<Longrightarrow> port_objs ps r \<noteq> None"
  shows "\<exists>rc h ps'. port_group cpu (Some rs) (length rs) True (Some g) ps s = Inr (rc, h, ps', wait_queue_init (Obj_wq g) s) \<and>
    sched_inv (wait_queue_init (Obj_wq g) s) \<and> port_inv ps' (wait_queue_init (Obj_wq g) s) \<and>
    (if distinct rs \<and> (\<forall>r \<in> set rs. free_reader ps r)
     then rc = NO_ERROR \<and> h = Some g \<and>
       port_objs ps' g = Some (Port_group \<lparr>pg_magic = PORTGROUP_MAGIC, pg_rp_list = rs\<rparr>)
     else rc = ERR_BAD_HANDLE \<and> h = None \<and> ps' = ps)"
proof -
  let ?s = "wait_queue_init (Obj_wq g) s" and ?ps = "set_obj g (Port_group \<lparr>pg_magic = PORTGROUP_MAGIC, pg_rp_list = []\<rparr>) ps"
  have s': "sched_inv ?s" by (rule sched_inv_wq_init [OF s(1) g(3)])
  have lf: "lock_free ?s" using s(2) by (simp add: lock_free_def wait_queue_init_def)
  have live: "wq_live ?s g" by (simp add: wait_queue_init_def WAIT_QUEUE_INITIAL_VALUE_def)
  have i': "port_inv ps ?s"
    by (rule port_inv_kernel [OF i]) (simp add: wait_queue_init_def WAIT_QUEUE_INITIAL_VALUE_def)
  have i1: "port_inv ?ps ?s" by (rule port_inv_new_group [OF i' g(1,2) live])
  have "port_objs ?ps r \<noteq> None" if "r \<in> set rs" for r using rs(2) [OF that] by (simp add: set_obj_def)
  note live_rs = this
  have gg: "port_objs ?ps g = Some (Port_group \<lparr>pg_magic = PORTGROUP_MAGIC, pg_rp_list = []\<rparr>)" by (simp add: set_obj_def)
  obtain rc ps' where lp: "group_loop g [] rs ?ps = Inr (rc, ps')" "write_port_list ps' = write_port_list ?ps"
    "if distinct rs \<and> (\<forall>r \<in> set rs. free_reader ?ps r)
     then rc = NO_ERROR \<and> port_inv ps' ?s \<and> port_objs ps' g = Some (Port_group \<lparr>pg_magic = PORTGROUP_MAGIC, pg_rp_list = rs\<rparr>)
     else rc = ERR_BAD_HANDLE \<and> port_objs (free_obj g ps') = port_objs (free_obj g ?ps)"
    using group_loop_ok [OF i1 gg live_rs] unfolding append_Nil foldl_Nil by blast
  have fr: "r \<in> set rs \<Longrightarrow> free_reader ?ps r = free_reader ps r" for r using rs(2) [of r] g(2) by (auto simp: free_reader_def set_obj_def)
  have "port_objs (free_obj g ?ps) = port_objs ps" using g(2) by (auto simp: free_obj_def set_obj_def)
  then have undo: "free_obj g ps' = ps" if "port_objs (free_obj g ps') = port_objs (free_obj g ?ps)"
    using that lp(2) by (simp add: free_obj_def set_obj_def)
  have unl: "thread_unlock cpu (?s\<lparr>thread_lock_owner := cpu\<rparr>) = Inr ?s" using lf by (simp add: lock_free_def)
  have eq: "port_group cpu (Some rs) (length rs) True (Some g) ps s =
      (if rc = NO_ERROR then Inr (rc, Some g, ps', ?s) else Inr (rc, None, free_obj g ps', ?s))"
    using lf lp(1) unl rs(1) by (simp add: port_group_def Let_def)
  show ?thesis
  proof (cases "distinct rs \<and> (\<forall>r \<in> set rs. free_reader ps r)")
    case True
    with lp(3) fr have "rc = NO_ERROR" "port_inv ps' ?s"
      "port_objs ps' g = Some (Port_group \<lparr>pg_magic = PORTGROUP_MAGIC, pg_rp_list = rs\<rparr>)" by (simp_all split: if_splits)
    with True s' show ?thesis by (simp add: eq)
  next
    case False
    then have "\<not> (distinct rs \<and> (\<forall>r \<in> set rs. free_reader ?ps r))" using fr by blast
    with lp(3) undo have "rc = ERR_BAD_HANDLE" "free_obj g ps' = ps" by simp_all
    with False s' i' show ?thesis by (auto simp: eq)
  qed
qed

theorem port_group_add_ok:
  assumes i: "port_inv ps s" and s: "sched_inv s" "lock_free s" "up s cpu"
    and g: "port_objs ps g = Some (Port_group pg)" and r: "port_objs ps r = Some (Read_port rp)" "rp_gport rp = None"
  shows "okE (\<lambda>(rc, ps', s'). sched_inv s' \<and> lock_free s' \<and> port_inv ps' s' \<and>
      (if length (pg_rp_list pg) = MAX_PORT_GROUP_COUNT then rc = ERR_TOO_BIG \<and> ps' = ps \<and> s' = s
       else rc = NO_ERROR \<and> port_objs ps' g = Some (Port_group (pg\<lparr>pg_rp_list := pg_rp_list pg @ [r]\<rparr>)) \<and>
         released (if reader_packets ps r = [] then [] else take 1 (wq_list (wait_queues s (Obj_wq g)))) (Obj_wq g) NO_ERROR s s'))
    (port_group_add cpu g r ps s)"
proof -
  let ?l = "s\<lparr>thread_lock_owner := cpu\<rparr>"
  let ?ts = "if reader_packets ps r = [] then [] else take 1 (wq_list (wait_queues s (Obj_wq g)))"
  let ?ps = "ps\<lparr>port_objs := (port_objs ps)(r \<mapsto> Read_port (rp\<lparr>rp_gport := Some g\<rparr>),
      g \<mapsto> Port_group (pg\<lparr>pg_rp_list := pg_rp_list pg @ [r]\<rparr>))\<rparr>"
  note lk = link_group_ok [OF i g r]
  have rg: "r \<noteq> g" "r \<noteq> 0" "g \<noteq> 0" using r g port_invD(4) [OF i] by (auto intro: ccontr)
  from port_invD(2) [OF i r(1)] obtain b where b: "rp_buf rp = Some b" "buf_ok b" "rp_magic rp = READPORT_MAGIC" by (auto simp: read_ok_def)
  from port_invD(3) [OF i g] have gm: "pg_magic pg = PORTGROUP_MAGIC" "wq_live s g" by (simp_all add: group_ok_def)
  have be: "buf_is_empty b \<longleftrightarrow> reader_packets ps r = []" by (simp add: reader_packets_def r b buf_empty_iff)
  have wk: "okE (\<lambda>s2. okE (\<lambda>s'. sched_inv s' \<and> lock_free s' \<and> released ?ts (Obj_wq g) NO_ERROR s s') (thread_unlock cpu s2))
      (if \<not> buf_is_empty b then bindE (wait_queue_wake_one cpu (Obj_wq g) False NO_ERROR ?l) (\<lambda>(_, s2). Inr s2) else Inr ?l)"
  proof (cases "buf_is_empty b")
    case True
    have "thread_unlock cpu ?l = Inr s" using s(2) by (simp add: lock_free_def)
    with True be s show ?thesis by (simp add: released_def)
  next
    case False
    with be show ?thesis
      by (auto intro!: okE_mono [OF one.wake_in_section [OF s gm(2), of False NO_ERROR]] elim!: okE_mono)
  qed
  have live: "port_inv ?ps s'" if "released ?ts (Obj_wq g) NO_ERROR s s'" for s'
    by (rule port_inv_woke [OF lk(2) released_woke(1) [OF that]])
  show ?thesis
  proof (cases "length (pg_rp_list pg) = MAX_PORT_GROUP_COUNT")
    case True
    have "thread_unlock cpu ?l = Inr s" using s(2) by (simp add: lock_free_def)
    with True s i g r rg gm b show ?thesis by (simp add: port_group_add_def deref_def groupable_def as_group_def)
  next
    case False
    have "as_read r ?ps = Inr (rp\<lparr>rp_gport := Some g\<rparr>)" using rg by (simp add: as_read_def)
    then have eq: "port_group_add cpu g r ps s =
        bindE (if \<not> buf_is_empty b then bindE (wait_queue_wake_one cpu (Obj_wq g) False NO_ERROR ?l) (\<lambda>(_, s2). Inr s2) else Inr ?l)
          (\<lambda>s2. bindE (thread_unlock cpu s2) (\<lambda>s3. Inr (NO_ERROR, ?ps, s3)))"
      using False s g r rg gm b lk(1) by (simp add: port_group_add_def deref_def groupable_def as_group_def)
    show ?thesis unfolding eq
      by (rule okE_bindI [OF wk]) (use False live in \<open>auto elim!: okE_mono\<close>)
  qed
qed


section \<open>Destroying a write port\<close>

lemma wake_all_step:
  assumes "critical cpu s" "wq_live s p"
  shows "okE (\<lambda>(n, s'). critical cpu s' \<and> woke s s' \<and> wq_list (wait_queues s' (Obj_wq p)) = [])
    (wait_queue_wake_all cpu (Obj_wq p) False e s)"
proof -
  have "can_wake cpu (Obj_wq p) False s" using assms by (simp add: can_wake_def)
  moreover have "wq_list (wait_queues s' (Obj_wq p)) = []" if "released (wq_list (wait_queues s (Obj_wq p))) (Obj_wq p) e s s'" for s'
    using that by (simp add: released_def)
  ultimately show ?thesis using all.wake_ok [of cpu "Obj_wq p" False s e]
    by (auto elim!: okE_mono intro: released_woke released_woke(2) [of _ _ _ s] simp: assms)
qed

lemma woke_empty: "woke s s' \<Longrightarrow> wq_list (wait_queues s w) = [] \<Longrightarrow> wq_list (wait_queues s' w) = []"
  by (metis woke_def list.set(1) set_empty2 subset_empty)

text \<open>Every reader loses its write port; nobody waits on it or on its group any more.\<close>

definition orphaned :: "port \<Rightarrow> port_obj option \<Rightarrow> port_obj option" where
  "orphaned w = map_option (\<lambda>ob. case ob of
      Read_port rp \<Rightarrow> Read_port (if rp_wport rp = Some w then rp\<lparr>rp_wport := None\<rparr> else rp) | x \<Rightarrow> x)"

lemma orphaned_eq:
  "orphaned w x = Some (Write_port a) \<longleftrightarrow> x = Some (Write_port a)"
  "orphaned w x = Some (Port_group b) \<longleftrightarrow> x = Some (Port_group b)"
  "orphaned w x = Some (Read_port c) \<longleftrightarrow>
     (\<exists>d. x = Some (Read_port d) \<and> c = (if rp_wport d = Some w then d\<lparr>rp_wport := None\<rparr> else d))"
  "orphaned w x = None \<longleftrightarrow> x = None"
proof -
  have "orphaned w x = Some (Write_port a) \<longleftrightarrow> x = Some (Write_port a)" and
    "orphaned w x = Some (Port_group b) \<longleftrightarrow> x = Some (Port_group b)" and
    "orphaned w x = Some (Read_port c) \<longleftrightarrow>
      (\<exists>d. x = Some (Read_port d) \<and> c = (if rp_wport d = Some w then d\<lparr>rp_wport := None\<rparr> else d))"
    if "x = Some y" for y using that by (cases y; auto simp: orphaned_def)+
  then show "orphaned w x = Some (Write_port a) \<longleftrightarrow> x = Some (Write_port a)"
    "orphaned w x = Some (Port_group b) \<longleftrightarrow> x = Some (Port_group b)"
    "orphaned w x = Some (Read_port c) \<longleftrightarrow>
      (\<exists>d. x = Some (Read_port d) \<and> c = (if rp_wport d = Some w then d\<lparr>rp_wport := None\<rparr> else d))"
    by (cases x; simp add: orphaned_def)+
qed (simp add: orphaned_def)

lemma cancel_readers_ok:
  assumes "critical cpu s" "\<And>r. r \<in> set rs \<Longrightarrow> \<exists>rp. port_objs ps r = Some (Read_port rp) \<and> rp_wport rp = Some w \<and> wq_live s r \<and>
      (\<forall>g. rp_gport rp = Some g \<longrightarrow> wq_live s g)" "distinct rs"
  shows "\<exists>ps' s'. cancel_readers cpu rs ps s = Inr (ps', s') \<and> critical cpu s' \<and> woke s s' \<and>
    write_port_list ps' = write_port_list ps \<and>
    port_objs ps' = (\<lambda>p. if p \<in> set rs then orphaned w (port_objs ps p) else port_objs ps p) \<and>
    (\<forall>r \<in> set rs. wq_list (wait_queues s' (Obj_wq r)) = [])"
  using assms
proof (induction rs arbitrary: ps s)
  case Nil
  then show ?case by simp
next
  case (Cons r rs)
  from Cons.prems(2) [of r] obtain rp where r: "port_objs ps r = Some (Read_port rp)" "rp_wport rp = Some w" "wq_live s r"
    "\<forall>g. rp_gport rp = Some g \<longrightarrow> wq_live s g" by auto
  obtain n s1 where s1: "wait_queue_wake_all cpu (Obj_wq r) False ERR_CANCELLED s = Inr (n, s1)" "critical cpu s1" "woke s s1"
    "wq_list (wait_queues s1 (Obj_wq r)) = []"
    using wake_all_step [OF Cons.prems(1) r(3), of ERR_CANCELLED] unfolding okE_iff_ex by blast
  have "\<exists>s2. (case rp_gport rp of
        Some g \<Rightarrow> bindE (wait_queue_wake_all cpu (Obj_wq g) False ERR_CANCELLED s1) (\<lambda>(_, s2). Inr s2)
      | None \<Rightarrow> Inr s1) = Inr s2 \<and> critical cpu s2 \<and> woke s1 s2"
  proof (cases "rp_gport rp")
    case (Some g)
    with r(4) s1(3) have "wq_live s1 g" by (simp add: woke_def)
    from wake_all_step [OF s1(2) this, of ERR_CANCELLED] Some show ?thesis unfolding okE_iff_ex by force
  qed (use s1(2) in simp)
  then obtain s2 where s2: "(case rp_gport rp of
        Some g \<Rightarrow> bindE (wait_queue_wake_all cpu (Obj_wq g) False ERR_CANCELLED s1) (\<lambda>(_, s2). Inr s2)
      | None \<Rightarrow> Inr s1) = Inr s2" "critical cpu s2" "woke s1 s2" by blast
  have w2: "woke s s2" by (rule woke_trans [OF s1(3) s2(3)])
  let ?ps = "set_obj r (Read_port (rp\<lparr>rp_wport := None\<rparr>)) ps"
  have "\<exists>rp. port_objs ?ps q = Some (Read_port rp) \<and> rp_wport rp = Some w \<and> wq_live s2 q \<and>
      (\<forall>g. rp_gport rp = Some g \<longrightarrow> wq_live s2 g)" if "q \<in> set rs" for q
  proof -
    from that Cons.prems(3) have "q \<noteq> r" by auto
    moreover from that Cons.prems(2) [of q] obtain x where "port_objs ps q = Some (Read_port x)" "rp_wport x = Some w" "wq_live s q"
      "\<forall>g. rp_gport x = Some g \<longrightarrow> wq_live s g" by auto
    ultimately show ?thesis using w2 by (simp add: set_obj_def woke_def)
  qed
  with Cons.IH [OF s2(2), of ?ps] Cons.prems(3) obtain ps' s' where ih: "cancel_readers cpu rs ?ps s2 = Inr (ps', s')"
    "critical cpu s'" "woke s2 s'" "write_port_list ps' = write_port_list ?ps"
    "port_objs ps' = (\<lambda>p. if p \<in> set rs then orphaned w (port_objs ?ps p) else port_objs ?ps p)"
    "\<forall>r \<in> set rs. wq_list (wait_queues s' (Obj_wq r)) = []" by auto
  have "cancel_readers cpu (r # rs) ps s = Inr (ps', s')" using s1(1) s2(1) ih(1) by (simp add: as_read_def r)
  moreover have "wq_list (wait_queues s' (Obj_wq r)) = []" by (rule woke_empty [OF woke_trans [OF s2(3) ih(3)] s1(4)])
  moreover have "port_objs ps' = (\<lambda>p. if p \<in> set (r # rs) then orphaned w (port_objs ps p) else port_objs ps p)"
    unfolding ih(5) using r Cons.prems(3) by (auto simp: fun_eq_iff set_obj_def orphaned_def)
  ultimately show ?case using ih w2 by (auto intro: woke_trans simp: set_obj_def)
qed

lemma port_inv_destroy:
  assumes i: "port_inv ps s" and w: "port_objs ps w = Some (Write_port wp)"
    and l: "write_port_list ps' = remove1 w (write_port_list ps)"
    and ob: "port_objs ps' = (\<lambda>p. if p = w then None else orphaned w (port_objs ps p))"
  shows "port_inv ps' s"
proof (rule port_invI)
  have kr: "\<exists>c. port_objs ps' q = Some (Read_port c) \<and> rp_gport c = rp_gport a \<and> (rp_wport a \<noteq> Some w \<longrightarrow> c = a)"
    if "port_objs ps q = Some (Read_port a)" for q a using that w by (auto simp: ob orphaned_def)
  have or: "\<exists>a. port_objs ps q = Some (Read_port a) \<and> c = (if rp_wport a = Some w then a\<lparr>rp_wport := None\<rparr> else a)"
    if "port_objs ps' q = Some (Read_port c)" for q c
    using that by (cases "q = w") (simp_all add: ob orphaned_eq split del: if_split)
  have wr: "port_objs ps' q = Some (Write_port a) \<longleftrightarrow> port_objs ps q = Some (Write_port a) \<and> q \<noteq> w" for q a
    by (auto simp: ob orphaned_eq)
  have gr: "port_objs ps' q = Some (Port_group a) \<longleftrightarrow> port_objs ps q = Some (Port_group a)" for q a
    using w by (auto simp: ob orphaned_eq)
  have d: "distinct (write_port_list ps)" using i by (simp add: port_inv_def)
  fix p
  show "write_ok ps' p a" if a: "port_objs ps' p = Some (Write_port a)" for a
  proof -
    from a [unfolded wr] have a': "port_objs ps p = Some (Write_port a)" "p \<noteq> w" by simp_all
    from port_invD(1) [OF i a'(1)] have ok: "write_ok ps p a" .
    have "\<exists>c. port_objs ps' q = Some (Read_port c) \<and> rp_wport c = Some p" if "q \<in> set (wp_rp_list a)" for q
      using ok that kr a'(2) unfolding write_ok_def by (metis option.inject)
    with ok a'(2) d show ?thesis by (simp add: write_ok_def l)
  qed
  show "read_ok ps' s p c" if c: "port_objs ps' p = Some (Read_port c)" for c
  proof -
    from or [OF c] obtain a where a: "port_objs ps p = Some (Read_port a)"
      "c = (if rp_wport a = Some w then a\<lparr>rp_wport := None\<rparr> else a)" by blast
    from port_invD(2) [OF i a(1)] a(2) show ?thesis unfolding read_ok_def wr gr by (auto split: if_splits)
  qed
  show "group_ok ps' s p a" if "port_objs ps' p = Some (Port_group a)" for a
    using port_invD(3) [OF i that [unfolded gr]] kr unfolding group_ok_def by metis
  show "port_objs ps' 0 = None" using port_invD(4) [OF i] by (simp add: ob orphaned_def)
  show "distinct (write_port_list ps')" using d by (simp add: l)
  show "\<exists>wp. port_objs ps' p = Some (Write_port wp)" if "p \<in> set (write_port_list ps')"
    using that i d unfolding port_inv_def l wr by (auto simp: set_remove1_eq)
  show "p = q" if "port_objs ps' p = Some (Write_port vp)" "port_objs ps' q = Some (Write_port wp')" "wp_name vp = wp_name wp'" for q vp wp'
    using that i unfolding port_inv_def wr by metis
qed

theorem port_destroy_ok:
  assumes i: "port_inv ps s" and s: "sched_inv s" "lock_free s" "up s cpu"
    and w: "port_objs ps w = Some (Write_port wp)"
  shows "\<exists>rc ps' s'. port_destroy cpu w ps s = Inr (rc, ps', s') \<and> port_inv ps' s' \<and> sched_inv s' \<and> lock_free s' \<and>
    (if wp_magic wp = WRITEPORT_MAGIC_X
     then rc = NO_ERROR \<and> find (has_name ps' (wp_name wp)) (write_port_list ps') = None \<and>
       reader_packets ps' = reader_packets ps \<and> (\<forall>r \<in> set (wp_rp_list wp). wq_list (wait_queues s' (Obj_wq r)) = [])
     else rc = ERR_BAD_HANDLE \<and> ps' = ps \<and> s' = s)"
proof (cases "wp_magic wp = WRITEPORT_MAGIC_X")
  case False
  have "w \<noteq> 0" using w port_invD(4) [OF i] by (cases w) auto
  moreover have "thread_unlock cpu (s\<lparr>thread_lock_owner := cpu\<rparr>) = Inr s" using s(2) by (simp add: lock_free_def)
  ultimately show ?thesis using False i s w by (simp add: port_destroy_def deref_def)
next
  case True
  let ?l = "s\<lparr>thread_lock_owner := cpu\<rparr>" and ?ps = "ps\<lparr>write_port_list := remove1 w (write_port_list ps)\<rparr>"
  have w0: "w \<noteq> 0" using w port_invD(4) [OF i] by (cases w) auto
  from port_invD(1) [OF i w] have ok: "write_ok ps w wp" .
  have c: "critical cpu ?l" using s by simp
  have rd: "\<exists>rp. port_objs ps r = Some (Read_port rp) \<and> rp_wport rp = Some w \<and> wq_live s r \<and> (\<forall>g. rp_gport rp = Some g \<longrightarrow> wq_live s g)"
    if r: "r \<in> set (wp_rp_list wp)" for r
  proof -
    from ok r obtain rp where rp: "port_objs ps r = Some (Read_port rp)" "rp_wport rp = Some w" by (auto simp: write_ok_def)
    have "wq_live s g" if "rp_gport rp = Some g" for g
      using port_invD(2) [OF i rp(1)] that port_invD(3) [OF i] by (auto simp: read_ok_def group_ok_def)
    with rp port_invD(2) [OF i rp(1)] show ?thesis by (simp add: read_ok_def)
  qed
  have "\<exists>ps' s'. (if wp_buf wp \<noteq> None then Inr (?ps, ?l) else cancel_readers cpu (wp_rp_list wp) ?ps ?l) = Inr (ps', s') \<and>
      critical cpu s' \<and> woke ?l s' \<and> write_port_list ps' = write_port_list ?ps \<and>
      port_objs ps' = (\<lambda>p. if p \<in> set (wp_rp_list wp) then orphaned w (port_objs ps p) else port_objs ps p) \<and>
      (\<forall>r \<in> set (wp_rp_list wp). wq_list (wait_queues s' (Obj_wq r)) = [])"
  proof (cases "wp_buf wp = None")
    case True
    have "\<exists>rp. port_objs ?ps r = Some (Read_port rp) \<and> rp_wport rp = Some w \<and> wq_live ?l r \<and> (\<forall>g. rp_gport rp = Some g \<longrightarrow> wq_live ?l g)"
      if "r \<in> set (wp_rp_list wp)" for r using rd [OF that] by simp
    moreover have "distinct (wp_rp_list wp)" using ok by (simp add: write_ok_def)
    ultimately have "\<exists>ps' s'. cancel_readers cpu (wp_rp_list wp) ?ps ?l = Inr (ps', s') \<and> critical cpu s' \<and> woke ?l s' \<and>
        write_port_list ps' = write_port_list ?ps \<and>
        port_objs ps' = (\<lambda>p. if p \<in> set (wp_rp_list wp) then orphaned w (port_objs ?ps p) else port_objs ?ps p) \<and>
        (\<forall>r \<in> set (wp_rp_list wp). wq_list (wait_queues s' (Obj_wq r)) = [])" by (intro cancel_readers_ok [OF c])
    with True show ?thesis by (simp cong: if_cong)
  next
    case False
    then have "wp_rp_list wp = []" using ok by (auto simp: write_ok_def)
    with False c show ?thesis by simp
  qed
  then obtain ps1 s1 where k: "(if wp_buf wp \<noteq> None then Inr (?ps, ?l) else cancel_readers cpu (wp_rp_list wp) ?ps ?l) = Inr (ps1, s1)"
      "critical cpu s1" "woke ?l s1" "write_port_list ps1 = write_port_list ?ps"
      "port_objs ps1 = (\<lambda>p. if p \<in> set (wp_rp_list wp) then orphaned w (port_objs ps p) else port_objs ps p)"
      "\<forall>r \<in> set (wp_rp_list wp). wq_list (wait_queues s1 (Obj_wq r)) = []" by blast
  let ?s' = "s1\<lparr>thread_lock_owner := smp_max_cpus s1\<rparr>" and ?ps' = "free_obj w ps1"
  have keep: "orphaned w (port_objs ps p) = port_objs ps p" if "p \<notin> set (wp_rp_list wp)" for p
  proof -
    have "rp_wport rp \<noteq> Some w" if "port_objs ps p = Some (Read_port rp)" for rp
      using port_invD(2) [OF i that] w \<open>p \<notin> set (wp_rp_list wp)\<close> by (auto simp: read_ok_def)
    then show ?thesis by (cases "port_objs ps p") (auto simp: orphaned_def split: port_obj.splits)
  qed
  have ob: "port_objs ?ps' = (\<lambda>p. if p = w then None else orphaned w (port_objs ps p))"
    using keep by (auto simp: free_obj_def k(5) fun_eq_iff)
  have "port_inv ?ps' s" by (rule port_inv_destroy [OF i w _ ob]) (simp add: free_obj_def k(4))
  then have i': "port_inv ?ps' ?s'" using k(3) by (elim port_inv_woke) (simp add: woke_def)
  have eq: "port_destroy cpu w ps s = Inr (NO_ERROR, ?ps', ?s')"
  proof -
    have "w \<in> set (write_port_list ps)" using ok by (simp add: write_ok_def)
    then have "port_destroy cpu w ps s =
        bindE (if wp_buf wp \<noteq> None then Inr (?ps, ?l) else cancel_readers cpu (wp_rp_list wp) ?ps ?l)
          (\<lambda>(ps2, s2). bindE (thread_unlock cpu s2) (\<lambda>s3. Inr (NO_ERROR, free_obj w ps2, s3)))"
      using True w w0 s by (simp add: port_destroy_def deref_def as_write_def Let_def)
    then show ?thesis unfolding k(1) using k(2) by (simp add: thread_unlock_def thread_lock_held_def)
  qed
  have "find (has_name ?ps' (wp_name wp)) (write_port_list ?ps') = None"
    unfolding find_named(2) [OF i']
  proof (intro allI impI)
    fix v vp assume "port_objs ?ps' v = Some (Write_port vp)"
    then have "port_objs ps v = Some (Write_port vp)" "v \<noteq> w"
      by (auto simp: ob orphaned_eq split: if_split_asm)
    with i w show "wp_name vp \<noteq> wp_name wp" unfolding port_inv_def by metis
  qed
  moreover have "reader_packets ?ps' = reader_packets ps"
    using w by (auto simp: reader_packets_def ob orphaned_def fun_eq_iff split: option.splits port_obj.splits)
  ultimately show ?thesis using eq i' k(2,6) True by (simp add: lock_free_def)
qed


section \<open>Behaviour that contradicts the comments\<close>

text \<open>
  \<^verbatim>\<open>PORT_MODE_BROADCAST\<close> is 0, so the test that only unicast ports have a big buffer never fails: a
  broadcast port with a big buffer is created.
\<close>

theorem port_create_broadcast_big:
  assumes i: "port_inv ps s" and lf: "lock_free s" and n: "length nm < PORT_NAME_LEN"
    and new: "find (has_name ps nm) (write_port_list ps) = None" and w: "w \<noteq> 0" "port_objs ps w = None"
    and m: "length m = 64"
  shows "okE (\<lambda>(rc, h, ps', s'). rc = NO_ERROR \<and> h = Some w \<and>
      (\<exists>b. port_objs ps' w = Some (Write_port (new_write_port nm PORT_MODE_BIG_BUFFER b)) \<and> pb_log2 b = 6))
    (port_create cpu (Some nm) (PORT_MODE_BROADCAST OR PORT_MODE_BIG_BUFFER) True (Some w) (Some m) ps s)"
proof -
  have "(2 :: 32 word) AND 2 = 2" by simp
  then show ?thesis
    by (intro okE_mono [OF port_create_ok [OF i lf n, of "Some w" "Some m"]]) (use new w m in auto)
qed

text \<open>
  \<^verbatim>\<open>port_group_remove\<close> takes the port out of the list but leaves its \<^verbatim>\<open>gport\<close> set: a second call
  passes the first check, does not find the port and returns with the thread lock held, and
  closing the port unlinks a node that is in no list.
\<close>

theorem port_group_remove_twice:
  assumes i: "port_inv ps s" and s: "lock_free s" "cpu < smp_max_cpus s"
    and g: "port_objs ps g = Some (Port_group pg)" and r: "r \<in> set (pg_rp_list pg)"
  shows "\<exists>ps' s'. port_group_remove cpu g r ps s = Inr (NO_ERROR, ps', s) \<and> \<not> port_inv ps' s \<and>
    port_group_remove cpu g r ps' s = Inr (ERR_BAD_HANDLE, ps', s') \<and> thread_lock_held cpu s' \<and> \<not> lock_free s' \<and>
    (\<exists>e. port_close cpu r ps' s = Inl e)"
proof -
  let ?l = "s\<lparr>thread_lock_owner := cpu\<rparr>" and ?pg = "pg\<lparr>pg_rp_list := remove1 r (pg_rp_list pg)\<rparr>"
  let ?ps = "set_obj g (Port_group ?pg) ps"
  from port_invD(3) [OF i g] have ok: "group_ok ps s g pg" .
  with r obtain rp where rp: "port_objs ps r = Some (Read_port rp)" "rp_gport rp = Some g" by (auto simp: group_ok_def)
  from port_invD(2) [OF i rp(1)] have rok: "read_ok ps s r rp" .
  have ne: "r \<noteq> g" "r \<noteq> 0" "g \<noteq> 0" using rp g port_invD(4) [OF i] by (auto intro: ccontr)
  have gone: "r \<notin> set (pg_rp_list ?pg)" using ok by (simp add: group_ok_def)
  have unl: "thread_unlock cpu ?l = Inr s" using s(1) by (simp add: lock_free_def)
  have ob: "port_objs ?ps g = Some (Port_group ?pg)" "port_objs ?ps r = Some (Read_port rp)" using ne rp by (simp_all add: set_obj_def)
  have "port_group_remove cpu g r ps s = Inr (NO_ERROR, ?ps, s)"
    using s(1) ne g rp r ok rok unl
    by (simp add: port_group_remove_def deref_def as_group_def unlink_group_def group_ok_def read_ok_def)
  moreover have "port_group_remove cpu g r ?ps s = Inr (ERR_BAD_HANDLE, ?ps, ?l)"
    using s(1) ne ob gone ok rok rp(2)
    by (simp add: port_group_remove_def deref_def as_group_def group_ok_def read_ok_def)
  moreover have "\<not> port_inv ?ps s" using port_invD(2) [of ?ps s, OF _ ob(2)] ob(1) rp(2) gone by (auto simp: read_ok_def)
  moreover have "\<exists>e. port_close cpu r ?ps s = Inl e"
  proof -
    have "unlink_group g r ps1 = Inl (Assertion_failed ''g_node in a list'')" if "detach_reader r rp ?ps = Inr ps1" for ps1
    proof -
      have "port_objs ps1 g = port_objs ?ps g"
        using that ne ob(1) by (auto simp: detach_reader_def as_write_def set_obj_def res_simps Let_def
            split: option.splits port_obj.splits if_splits)
      with ob(1) gone show ?thesis by (simp add: unlink_group_def as_group_def)
    qed
    then have "\<exists>e. close_read cpu r rp ?ps ?l = Inl e"
      using rp(2) by (cases "detach_reader r rp ?ps") (auto simp: close_read_def)
    then show ?thesis using s(1) ne ob(2) rok by (auto simp: port_close_def deref_def as_read_def read_ok_def)
  qed
  ultimately show ?thesis using s(2) by (intro exI [of _ ?ps] exI [of _ ?l]) (simp add: lock_free_def thread_lock_held_def)
qed

end
