(* ===== verification/Example_Objects.thy ===== *)
theory Example_Objects
  imports Example_System Cbuf Port_Close Thread_Boot
begin

text \<open>
  Concrete buffers, ports and start-up states beside the system of \<open>Example_System\<close>, used where a
  theorem is applied to a definite input.
\<close>

section \<open>Circular buffers\<close>

text \<open>A buffer of four bytes whose contents wrap around its end, and an empty one thread 5 waits for.\<close>

definition ex_cbuf :: cbuf where
  "ex_cbuf = \<lparr>cb_head = 1, cb_tail = 3, cb_len_pow2 = 2, cb_buf = [12, 0, 0, 11],
     cb_event = \<lparr>ev_magic = EVENT_MAGIC, signaled = True, ev_flags = 0, ev_wait = 9\<rparr>\<rparr>"

definition ex_empty_cbuf :: cbuf where
  "ex_empty_cbuf = \<lparr>cb_head = 1, cb_tail = 1, cb_len_pow2 = 2, cb_buf = [12, 0, 0, 11],
     cb_event = \<lparr>ev_magic = EVENT_MAGIC, signaled = False, ev_flags = 0, ev_wait = 7\<rparr>\<rparr>"

lemma ex_cbuf_used [simp]: "cbuf_space_used ex_cbuf = 2" "cbuf_space_avail ex_cbuf = 1"
  "cbuf_space_used ex_empty_cbuf = 0" "cbuf_space_avail ex_empty_cbuf = 3"
  by code_simp+

lemma ex_cbuf_fields [simp]: "cb_len_pow2 ex_empty_cbuf = 2" "ev_wait (cb_event ex_empty_cbuf) = 7"
  by (simp_all add: ex_empty_cbuf_def)

lemma ex_cbuf_contents [simp]: "cbuf_contents ex_cbuf = [11, 12]" "cbuf_contents ex_empty_cbuf = []"
  by code_simp+

lemma ex_cbuf_inv: "cbuf_ok ex_cbuf" "cbuf_inv ex_cbuf ex_state" "cbuf_inv ex_empty_cbuf ex_state"
  by (simp_all add: cbuf_inv_def cbuf_ok_def event_inv_def WAIT_QUEUE_INITIAL_VALUE_def)
    (simp_all add: ex_cbuf_def ex_empty_cbuf_def)

section \<open>Ports\<close>

text \<open>
  The write port 20 has two readers: 21, in the group 22, with one packet, and 25, empty and on its
  own. The write port 23 has no reader and keeps its packets.
\<close>

definition ex_buf :: port_buf where
  "ex_buf = \<lparr>pb_log2 = 3, pb_avail = 7, pb_head = 0, pb_tail = 1, pb_packet = [1, 2] # replicate 7 []\<rparr>"

definition ex_no_packets :: port_buf where
  "ex_no_packets = \<lparr>pb_log2 = 3, pb_avail = 8, pb_head = 1, pb_tail = 1, pb_packet = [1, 2] # replicate 7 []\<rparr>"

definition ex_log_port :: write_port where
  "ex_log_port = \<lparr>wp_magic = WRITEPORT_MAGIC_W, wp_buf = None, wp_rp_list = [21, 25], wp_mode = PORT_MODE_BROADCAST, wp_name = ''log''\<rparr>"

definition ex_old_port :: write_port where
  "ex_old_port = \<lparr>wp_magic = WRITEPORT_MAGIC_W, wp_buf = Some ex_buf, wp_rp_list = [], wp_mode = PORT_MODE_UNICAST, wp_name = ''old''\<rparr>"

definition ex_reader :: read_port where
  "ex_reader = \<lparr>rp_magic = READPORT_MAGIC, rp_buf = Some ex_buf, rp_ctx = 5, rp_wport = Some 20, rp_gport = Some 22\<rparr>"

definition ex_lone_reader :: read_port where
  "ex_lone_reader = \<lparr>rp_magic = READPORT_MAGIC, rp_buf = Some ex_no_packets, rp_ctx = 6, rp_wport = Some 20, rp_gport = None\<rparr>"

definition ex_group :: portgroup where
  "ex_group = \<lparr>pg_magic = PORTGROUP_MAGIC, pg_rp_list = [21]\<rparr>"

definition ex_ports :: port_sys where
  "ex_ports = \<lparr>port_objs = [20 \<mapsto> Write_port ex_log_port, 21 \<mapsto> Read_port ex_reader, 22 \<mapsto> Port_group ex_group,
     23 \<mapsto> Write_port ex_old_port, 25 \<mapsto> Read_port ex_lone_reader], write_port_list = [20, 23]\<rparr>"

lemma ex_ports_objs:
  "port_objs ex_ports p =
     (if p = 20 then Some (Write_port ex_log_port) else if p = 21 then Some (Read_port ex_reader)
      else if p = 22 then Some (Port_group ex_group) else if p = 23 then Some (Write_port ex_old_port)
      else if p = 25 then Some (Read_port ex_lone_reader) else None)"
  by (simp add: ex_ports_def)

lemma ex_bufs [simp]: "buf_contents ex_buf = [[1, 2]]" "buf_contents ex_no_packets = []"
  by code_simp+

lemma ex_log2 [simp]: "pb_log2 ex_buf = 3" "pb_log2 ex_no_packets = 3"
  by (simp_all add: ex_buf_def ex_no_packets_def)

lemma ex_bufs_ok: "buf_ok ex_buf" "buf_ok ex_no_packets"
  by code_simp+

lemma ex_reader_packets [simp]:
  "reader_packets ex_ports 21 = [[1, 2]]" "reader_packets ex_ports 25 = []"
  by (simp_all add: reader_packets_def ex_ports_objs ex_reader_def ex_lone_reader_def)

lemma ex_ports_list [simp]: "write_port_list ex_ports = [20, 23]"
  by (simp add: ex_ports_def)

lemma ex_port_inv: "port_inv ex_ports ex_state"
  by (rule port_invI) (auto simp: ex_ports_objs write_ok_def read_ok_def group_ok_def ex_log_port_def ex_old_port_def
      ex_reader_def ex_lone_reader_def ex_group_def ex_bufs_ok WAIT_QUEUE_INITIAL_VALUE_def split: if_splits)

section \<open>Starting up\<close>

text \<open>The memory of a single processor at reset, with thread 1 as its bootstrap thread.\<close>

definition ex_reset :: kstate where
  "ex_reset = ex_state\<lparr>smp_max_cpus := 1, threads := \<lambda>_. ex_thread THREAD_SUSPENDED 0 0 0 0 Not_queued None 0,
     thread_list := [], thread_lock_owner := 1, run_queue := \<lambda>_. [], run_queue_bitmap := 0,
     wait_queues := \<lambda>_. WAIT_QUEUE_INITIAL_VALUE, current := \<lambda>_. 0, active_cpus := 0, idle_cpus := 0,
     timers := \<lparr>timer_of = \<lambda>_. TIMER_INITIAL_VALUE, timer_queue = \<lambda>_. [], hw_timer = \<lambda>_. None\<rparr>\<rparr>"

lemma ex_at_reset: "at_reset ex_reset"
  by (simp add: at_reset_def ex_reset_def lock_free_def linked_def TIMER_INITIAL_VALUE_def WAIT_QUEUE_INITIAL_VALUE_def)

text \<open>A third processor that has not come up yet, with thread 30 as its idle thread.\<close>

definition ex_three :: kstate where
  "ex_three = ex_state\<lparr>smp_max_cpus := 3, thread_lock_owner := 3,
     idle_threads := \<lambda>c. if c = 0 then 1 else if c = 1 then 2 else 30\<rparr>"

lemma ex_three_up [simp]: "up ex_three c \<longleftrightarrow> c = 0 \<or> c = 1"
  by (auto simp: up_def ex_three_def bit_simps numeral_3_eq_3 less_Suc_eq bit_numeral_rec)

lemma ex_three_known: "known ex_three = {1, 2, 3, 4, 5, 6, 7, 8}"
  using ex_known by (simp add: known_def ex_three_def)

lemma ex_three_simps [simp]:
  "smp_max_cpus ex_three = 3" "threads ex_three = ex_threads" "current ex_three = current ex_state"
  "idle_threads ex_three = (\<lambda>c. if c = 0 then 1 else if c = 1 then 2 else 30)" "timers ex_three = ex_timers"
  "thread_list ex_three = thread_list ex_state" "dead_threads ex_three = []"
  "run_queue ex_three = run_queue ex_state" "run_queue_bitmap ex_three = run_queue_bitmap ex_state"
  "wait_queues ex_three = wait_queues ex_state"
  by (simp_all add: ex_three_def)

lemma ex_three_cookie [simp]: "thread_get_expected_cookie t ex_three = t"
  by (simp add: thread_get_expected_cookie_def ex_threads_def)

lemma ex_three_sched_inv: "sched_inv ex_three" "lock_free ex_three"
proof -
  have "threads_inv {} ex_three"
    by (auto simp: threads_inv_def ex_three_known thread_ok_def settled_def ex_threads_def)
  moreover have "cpus_inv {} ex_three"
    by (auto simp: cpus_inv_def cpu_ok_def ex_three_known preempt_ok_def ex_threads_def linked_def ex_timers_def
        TIMER_INITIAL_VALUE_def)
  moreover have "rq_inv ex_three" "wq_inv ex_three" using ex_rq_inv ex_wq_inv by (simp_all add: rq_inv_def wq_inv_def)
  moreover have "queued_inv ex_three" by (auto simp: queued_inv_def queued_ok_def ex_threads_def)
  ultimately show "sched_inv ex_three" "lock_free ex_three"
    by (simp_all add: sched_inv_at_def lock_free_def ex_three_def)
qed

lemma ex_ready_cpu: "ready_cpu 2 ex_three"
  by (simp add: ready_cpu_def fresh_def ex_three_known)
    (simp add: ex_three_def ex_timers_def TIMER_INITIAL_VALUE_def WAIT_QUEUE_INITIAL_VALUE_def)

section \<open>A wait that has timed out\<close>

text \<open>Thread 3 has been told that its wait for a mutex timed out; thread 5 still waits for it, and
  the holder has released it meanwhile.\<close>

definition ex_timed_out :: kstate where
  "ex_timed_out = upd_thread 3 (\<lambda>th. th\<lparr>wait_queue_block_ret := ERR_TIMED_OUT\<rparr>) ex_state"

definition ex_given_up :: mutex where
  "ex_given_up = \<lparr>mx_magic = MUTEX_MAGIC, holder = 0, mx_count = 2, mx_wait = 7\<rparr>"

lemma ex_timed_out: "sched_inv ex_timed_out" "lock_free ex_timed_out" "up ex_timed_out 0"
  "mutex_inv None (Suc 0) ex_given_up ex_timed_out"
proof -
  show "sched_inv ex_timed_out" unfolding ex_timed_out_def
    by (rule iffD2 [OF sched_inv_upd_same ex_sched_inv(1)]) (simp add: same_sched_def class_bits)
qed (simp_all add: ex_timed_out_def mutex_inv_def ex_given_up_def owned_def lock_free_def)

section \<open>Memory, lists and dead threads\<close>

text \<open>An allocator that has memory for a thread structure at 30 and for a stack.\<close>

definition ex_env :: alloc_env where
  "ex_env = \<lparr>malloc_result = 30, stack_alloc = (0, 0x5000), shadow_alloc = (0, 0), libc_init_result = NO_ERROR\<rparr>"

lemma ex_fresh: "fresh 30 ex_state"
  by (simp add: fresh_def ex_known WAIT_QUEUE_INITIAL_VALUE_def)

lemma ex_created:
  obtains s' where "thread_create_etc 0 ex_env 0 ''worker'' 1 2 16 0 4096 0 ex_state = Inr (30, [], s')"
  using thread_create_etc_ok [OF ex_sched_inv, where cpu = 0 and prio = 16 and t = 30 and env = ex_env and ?t0.0 = 0 and stk = 0 and
    nm = "''worker''" and ent = 1 and a = 2 and stk_size = 4096 and scs_size = 0]
  by (auto simp: ex_fresh ex_env_def create_fails_def okE_iff_ex)

text \<open>Two lists: the head 1 with the element 3, the head 2 with the elements 4 and 5.\<close>

definition ex_lists :: list_heap where
  "ex_lists = \<lparr>prv = (\<lambda>_. 0)(1 := 3, 3 := 1, 2 := 5, 4 := 2, 5 := 4), nxt = (\<lambda>_. 0)(1 := 3, 3 := 1, 2 := 4, 4 := 5, 5 := 2)\<rparr>"

lemma ex_lists: "dll ex_lists 1 [3]" "dll ex_lists 2 [4, 5]"
  by (simp_all add: dll_def ex_lists_def)

text \<open>Thread 8 has moved to the list of the dead.\<close>

definition ex_dead :: kstate where
  "ex_dead = ex_locked\<lparr>thread_list := [7, 6, 5, 4, 3, 2, 1], dead_threads := [8]\<rparr>"

lemma ex_dead_up [simp]: "up ex_dead = up ex_state"
  by (simp add: up_def fun_eq_iff ex_dead_def ex_locked_def)

lemma ex_dead_simps [simp]:
  "smp_max_cpus ex_dead = 2" "threads ex_dead = ex_threads" "current ex_dead = current ex_state"
  "idle_threads ex_dead = idle_threads ex_state" "timers ex_dead = ex_timers" "dead_threads ex_dead = [8]"
  "thread_list ex_dead = [7, 6, 5, 4, 3, 2, 1]" "run_queue ex_dead = run_queue ex_state"
  "run_queue_bitmap ex_dead = run_queue_bitmap ex_state" "wait_queues ex_dead = wait_queues ex_state"
  by (simp_all add: ex_dead_def ex_locked_def)

lemma ex_dead: "sched_inv ex_dead" "thread_lock_held 0 ex_dead" "\<forall>t \<in> set (dead_threads ex_dead). removable t ex_dead"
proof -
  have k: "known ex_dead = {1, 2, 3, 4, 5, 6, 7, 8}" by (auto simp: known_def)
  have c: "thread_get_expected_cookie t ex_dead = t" for t by (simp add: thread_get_expected_cookie_def ex_threads_def)
  have "threads_inv {} ex_dead" by (auto simp: threads_inv_def k c thread_ok_def settled_def ex_threads_def)
  moreover have "cpus_inv {} ex_dead"
    by (auto simp: cpus_inv_def cpu_ok_def k preempt_ok_def ex_threads_def linked_def ex_timers_def TIMER_INITIAL_VALUE_def)
  moreover have "rq_inv ex_dead" "wq_inv ex_dead" using ex_rq_inv ex_wq_inv by (simp_all add: rq_inv_def wq_inv_def)
  moreover have "queued_inv ex_dead" by (auto simp: queued_inv_def queued_ok_def ex_threads_def)
  ultimately show "sched_inv ex_dead" by (simp add: sched_inv_at_def)
  show "thread_lock_held 0 ex_dead" using ex_locked(2) by (simp add: thread_lock_held_def ex_dead_def)
  show "\<forall>t \<in> set (dead_threads ex_dead). removable t ex_dead" by (simp add: removable_def stacks_ok_def ex_threads_def)
qed

end
