(* ===== verification/Bst.thy ===== *)
theory Bst
  imports Prelude
begin

text \<open>
  The balanced binary search tree of \<^verbatim>\<open>lib/binary_search_tree\<close>, which keeps the regions of an
  address space: a weak AVL tree whose nodes are embedded in the caller's structures and linked by
  parent and child pointers. A node is an address, 0 is \<^verbatim>\<open>NULL\<close>; the tree and the memory of the
  nodes are one record. The children are indexed by a truth value, as in the source, so that one
  definition serves both directions. A rank is a \<^verbatim>\<open>size_t\<close>: differences wrap around, and that a
  sum never does follows from the bound on the ranks.
\<close>

type_synonym addr = nat

record bst_node =
  bn_rank :: nat
  bn_parent :: addr
  bn_child :: "bool \<Rightarrow> addr"

record bst =
  bst_root :: addr
  bst_nodes :: "addr \<Rightarrow> bst_node"

abbreviation rank_of :: "bst \<Rightarrow> addr \<Rightarrow> nat" where "rank_of h n \<equiv> bn_rank (bst_nodes h n)"
abbreviation parent_of :: "bst \<Rightarrow> addr \<Rightarrow> addr" where "parent_of h n \<equiv> bn_parent (bst_nodes h n)"
abbreviation child_of :: "bst \<Rightarrow> addr \<Rightarrow> bool \<Rightarrow> addr" where "child_of h n \<equiv> bn_child (bst_nodes h n)"

definition upd_node :: "addr \<Rightarrow> (bst_node \<Rightarrow> bst_node) \<Rightarrow> bst \<Rightarrow> bst" where
  "upd_node n f h = h\<lparr>bst_nodes := (bst_nodes h)(n := f (bst_nodes h n))\<rparr>"

abbreviation set_rank :: "addr \<Rightarrow> nat \<Rightarrow> bst \<Rightarrow> bst" where "set_rank n r \<equiv> upd_node n (\<lambda>x. x\<lparr>bn_rank := r\<rparr>)"
abbreviation set_parent :: "addr \<Rightarrow> addr \<Rightarrow> bst \<Rightarrow> bst" where "set_parent n p \<equiv> upd_node n (\<lambda>x. x\<lparr>bn_parent := p\<rparr>)"
abbreviation set_child :: "addr \<Rightarrow> bool \<Rightarrow> addr \<Rightarrow> bst \<Rightarrow> bst" where
  "set_child n d c \<equiv> upd_node n (\<lambda>x. x\<lparr>bn_child := (bn_child x)(d := c)\<rparr>)"

text \<open>The difference of two values of type \<^verbatim>\<open>size_t\<close>.\<close>

definition size_sub :: "nat \<Rightarrow> nat \<Rightarrow> nat" where
  "size_sub a b = (if b \<le> a then a - b else 2 ^ 64 + a - b)"

text \<open>A step that may panic, inside a loop that may not end.\<close>

definition bindO :: "'a res \<Rightarrow> ('a \<Rightarrow> 'b res option) \<Rightarrow> 'b res option" where
  "bindO m f = (case m of Inl e \<Rightarrow> Some (Inl e) | Inr x \<Rightarrow> f x)"

lemma bindO_simps [simp]: "bindO (Inl e) f = Some (Inl e)" "bindO (Inr x) f = f x"
  by (simp_all add: bindO_def)

section \<open>Links\<close>

definition bst_node_initialize :: "addr \<Rightarrow> bst \<Rightarrow> bst" where
  "bst_node_initialize node = set_rank node 0"

definition bst_root_initialize :: "bst \<Rightarrow> bst" where
  "bst_root_initialize h = h\<lparr>bst_root := 0\<rparr>"

definition bst_is_empty :: "bst \<Rightarrow> bool" where
  "bst_is_empty h \<longleftrightarrow> bst_root h = 0"

definition bst_node_rank :: "bst \<Rightarrow> addr \<Rightarrow> nat" where
  "bst_node_rank h node = (if node \<noteq> 0 then rank_of h node else 0)"

definition bst_is_right_child :: "bst \<Rightarrow> addr \<Rightarrow> bool res" where
  "bst_is_right_child h node =
     guardE ''node'' (node \<noteq> 0)
     (let p = parent_of h node
      in guardE ''child of its parent'' (p = 0 \<or> child_of h p False = node \<or> child_of h p True = node)
        (Inr (p \<noteq> 0 \<and> child_of h p True = node)))"

text \<open>A pointer to a pointer: \<^verbatim>\<open>&root->root\<close> or \<^verbatim>\<open>&node->child[d]\<close>.\<close>

datatype bst_ptr = Root_ptr | Child_ptr addr bool

fun read_ptr :: "bst \<Rightarrow> bst_ptr \<Rightarrow> addr" where
  "read_ptr h Root_ptr = bst_root h"
| "read_ptr h (Child_ptr n d) = child_of h n d"

fun write_ptr :: "bst_ptr \<Rightarrow> addr \<Rightarrow> bst \<Rightarrow> bst" where
  "write_ptr Root_ptr c h = h\<lparr>bst_root := c\<rparr>"
| "write_ptr (Child_ptr n d) c h = set_child n d c h"

definition bst_parent_ptr :: "bst \<Rightarrow> addr \<Rightarrow> bst_ptr res" where
  "bst_parent_ptr h node =
     guardE ''node'' (node \<noteq> 0)
      (bindE (if parent_of h node \<noteq> 0
              then bindE (bst_is_right_child h node) (\<lambda>d. Inr (Child_ptr (parent_of h node) d)) else Inr Root_ptr)
        (\<lambda>ptr. guardE ''*parent_ptr == node'' (read_ptr h ptr = node) (Inr ptr)))"

definition bst_link_node :: "addr \<Rightarrow> bool \<Rightarrow> addr \<Rightarrow> bst \<Rightarrow> bst" where
  "bst_link_node parent is_right_child child h =
     (let h1 = set_child parent is_right_child child h
      in if child \<noteq> 0 then set_parent child parent h1 else h1)"

definition bst_move_node :: "bst \<Rightarrow> addr \<Rightarrow> addr \<Rightarrow> bst res" where
  "bst_move_node h old_node new_node =
     guardE ''old_node'' (old_node \<noteq> 0)
      (bindE (bst_parent_ptr h old_node)
        (\<lambda>ptr. let h1 = write_ptr ptr new_node h;
                   h2 = (if new_node \<noteq> 0 then set_parent new_node (parent_of h1 old_node) h1 else h1)
               in Inr (set_parent old_node 0 h2)))"

section \<open>Rebalancing\<close>

definition bst_rotate :: "bst \<Rightarrow> addr \<Rightarrow> addr \<Rightarrow> bool \<Rightarrow> bst res" where
  "bst_rotate h up down up_was_right_child =
     guardE ''up is a child of down'' (child_of h down up_was_right_child = up)
      (let move_subtree = child_of h up (\<not> up_was_right_child)
       in bindE (bst_move_node h down up)
         (\<lambda>h1. Inr (bst_link_node up (\<not> up_was_right_child) down (bst_link_node down up_was_right_child move_subtree h1))))"

definition bst_rotate_insert :: "bst \<Rightarrow> addr \<Rightarrow> addr \<Rightarrow> bool \<Rightarrow> bst res" where
  "bst_rotate_insert h up1 down up_was_right_child =
     guardE ''up1 is a child of down'' (child_of h down up_was_right_child = up1)
     (guardE ''same rank'' (rank_of h up1 = rank_of h down)
     (guardE ''other child low'' (rank_of h down \<ge> bst_node_rank h (child_of h down (\<not> up_was_right_child)) + 2)
      (let up2 = child_of h up1 (\<not> up_was_right_child)
       in if bst_node_rank h up2 \<ge> size_sub (rank_of h down) 1 then
            guardE ''rank of up2'' (bst_node_rank h up2 = size_sub (rank_of h down) 1)
            (guardE ''up2 not NULL'' (up2 \<noteq> 0)
             (let h1 = set_rank up2 (rank_of h up2 + 1) h
              in guardE ''rank of up1'' (rank_of h1 up1 = rank_of h1 up2)
                (bindE (bst_rotate h1 up2 up1 (\<not> up_was_right_child))
                  (\<lambda>h2. let h3 = set_rank up1 (size_sub (rank_of h2 up1) 1) h2
                        in bindE (bst_rotate h3 up2 down up_was_right_child)
                          (\<lambda>h4. Inr (set_rank down (size_sub (rank_of h4 down) 1) h4))))))
          else bindE (bst_rotate h up1 down up_was_right_child)
            (\<lambda>h1. Inr (set_rank down (size_sub (rank_of h1 down) 1) h1)))))"

text \<open>One turn of the loop; the truth value tells whether to go on with the parent.\<close>

definition update_insert_step :: "bst \<Rightarrow> addr \<Rightarrow> (bst \<times> bool) res" where
  "update_insert_step h node0 =
     bindE (bst_is_right_child h node0)
      (\<lambda>is_right_child.
        let rank = rank_of h node0 + 1; node = parent_of h node0
        in if node = 0 \<or> rank_of h node \<ge> rank
           then guardE ''rank of parent'' (node = 0 \<or> rank_of h node = rank) (Inr (h, False))
           else guardE ''rank of parent'' (rank_of h node + 1 = rank)
            (if bst_node_rank h (child_of h node (\<not> is_right_child)) + 2 < rank
             then bindE (bst_rotate_insert h (child_of h node is_right_child) node is_right_child) (\<lambda>h1. Inr (h1, False))
             else Inr (set_rank node rank h, True)))"

partial_function (option) update_insert_loop :: "bst \<Rightarrow> addr \<Rightarrow> bst res option" where
  "update_insert_loop h node =
     (if node = 0 then Some (Inr h)
      else case update_insert_step h node of
        Inl e \<Rightarrow> Some (Inl e)
      | Inr (h1, continue) \<Rightarrow> if continue then update_insert_loop h1 (parent_of h node) else Some (Inr h1))"

definition bst_update_rank_insert :: "bst \<Rightarrow> addr \<Rightarrow> bst res option" where
  "bst_update_rank_insert h node =
     bindO (guardE ''node'' (node \<noteq> 0) (guardE ''inserted node has rank 1'' (rank_of h node = 1) (Inr ())))
       (\<lambda>_. update_insert_loop h node)"

definition bst_rotate_delete :: "bst \<Rightarrow> addr \<Rightarrow> addr \<Rightarrow> bool \<Rightarrow> bst res" where
  "bst_rotate_delete h up1 down up_was_right_child =
     guardE ''up1 is a child of down'' (child_of h down up_was_right_child = up1)
     (guardE ''rank of up1'' (rank_of h up1 = size_sub (rank_of h down) 1)
     (guardE ''rank of the other child''
        (rank_of h down = bst_node_rank h (child_of h down (\<not> up_was_right_child)) + 3)
      (let up2 = child_of h up1 (\<not> up_was_right_child)
       in if bst_node_rank h (child_of h up1 up_was_right_child) \<le> size_sub (rank_of h down) 3 then
            guardE ''rank of up2'' (bst_node_rank h up2 = size_sub (rank_of h down) 2)
            (guardE ''rank of up1'' (rank_of h up1 = size_sub (rank_of h down) 1)
            (guardE ''up2 not NULL'' (up2 \<noteq> 0)
            (guardE ''rank of up2'' (rank_of h up2 = size_sub (rank_of h down) 2)
             (bindE (bst_rotate h up2 up1 (\<not> up_was_right_child))
               (\<lambda>h1. bindE (bst_rotate h1 up2 down up_was_right_child)
                 (\<lambda>h2. let h3 = set_rank up2 (rank_of h2 up2 + 2) h2;
                           h4 = set_rank up1 (size_sub (rank_of h3 up1) 1) h3
                       in Inr (set_rank down (size_sub (rank_of h4 down) 2) h4)))))))
          else bindE (bst_rotate h up1 down up_was_right_child)
            (\<lambda>h1. let h2 = set_rank up1 (rank_of h1 up1 + 1) h1;
                      h3 = set_rank down (size_sub (rank_of h2 down) 1) h2
                  in Inr (if bst_node_rank h3 (child_of h3 down False) = size_sub (rank_of h3 down) 2 \<and>
                             bst_node_rank h3 (child_of h3 down True) = size_sub (rank_of h3 down) 2
                          then set_rank down (size_sub (rank_of h3 down) 1) h3 else h3)))))"

definition update_delete_step :: "bst \<Rightarrow> addr \<Rightarrow> bool \<Rightarrow> (bst \<times> bool) res" where
  "update_delete_step h node is_right_child =
     (let hole = child_of h node is_right_child; other = child_of h node (\<not> is_right_child)
      in guardE ''above the other child'' (rank_of h node > bst_node_rank h other)
        (guardE ''above the lowered child'' (size_sub (rank_of h node) 1 > bst_node_rank h hole)
        (guardE ''near the other child'' (rank_of h node \<le> bst_node_rank h other + 2)
         (let leaf = (child_of h node False = 0 \<and> child_of h node True = 0)
          in guardE ''rank of a leaf'' (leaf \<longrightarrow> rank_of h node = 2)
            (if \<not> leaf \<and> rank_of h node \<le> bst_node_rank h hole + 2 then Inr (h, False)
             else guardE ''rank > 1'' (rank_of h node > 1)
              (let h1 = set_rank node (size_sub (rank_of h node) 1) h
               in if rank_of h1 node \<le> bst_node_rank h1 other then
                    guardE ''same rank'' (rank_of h1 node = bst_node_rank h1 other)
                    (guardE ''other child not NULL'' (other \<noteq> 0)
                     (if bst_node_rank h1 (child_of h1 other False) = size_sub (rank_of h1 node) 2 \<and>
                         bst_node_rank h1 (child_of h1 other True) = size_sub (rank_of h1 node) 2
                      then Inr (set_rank other (size_sub (rank_of h1 other) 1) h1, True)
                      else bindE (bst_rotate_delete (set_rank node (rank_of h1 node + 1) h1) other node (\<not> is_right_child))
                        (\<lambda>h2. Inr (h2, False))))
                  else Inr (h1, True)))))))"

partial_function (option) update_delete_loop :: "bst \<Rightarrow> addr \<Rightarrow> bool \<Rightarrow> bst res option" where
  "update_delete_loop h node is_right_child =
     (if node = 0 then Some (Inr h)
      else case update_delete_step h node is_right_child of
        Inl e \<Rightarrow> Some (Inl e)
      | Inr (h1, continue) \<Rightarrow>
          if \<not> continue then Some (Inr h1)
          else (case bst_is_right_child h1 node of
              Inl e \<Rightarrow> Some (Inl e) | Inr d \<Rightarrow> update_delete_loop h1 (parent_of h1 node) d))"

definition bst_update_rank_delete :: "bst \<Rightarrow> addr \<Rightarrow> bool \<Rightarrow> bst res option" where
  "bst_update_rank_delete h node is_right_child =
     bindO (guardE ''node'' (node \<noteq> 0)
       (guardE ''lowered child'' (bst_node_rank h (child_of h node is_right_child) \<le>
            bst_node_rank h (child_of h node (\<not> is_right_child))) (Inr ())))
       (\<lambda>_. update_delete_loop h node is_right_child)"

section \<open>Searching, inserting and deleting\<close>

partial_function (option) bst_find_edge :: "bst \<Rightarrow> addr \<Rightarrow> bool \<Rightarrow> addr option" where
  "bst_find_edge h node edge = (if child_of h node edge = 0 then Some node else bst_find_edge h (child_of h node edge) edge)"

partial_function (option) search_loop :: "bst \<Rightarrow> (addr \<Rightarrow> int) \<Rightarrow> addr \<Rightarrow> addr option" where
  "search_loop h cmp tree_node =
     (if tree_node = 0 then Some 0
      else if cmp tree_node = 0 then Some tree_node
      else search_loop h cmp (child_of h tree_node (cmp tree_node > 0)))"

definition bst_search :: "bst \<Rightarrow> addr \<Rightarrow> (addr \<Rightarrow> addr \<Rightarrow> int) \<Rightarrow> addr res option" where
  "bst_search h node compare =
     bindO (guardE ''node'' (node \<noteq> 0) (Inr ()))
       (\<lambda>_. map_option Inr (search_loop h (\<lambda>tree_node. compare tree_node node) (bst_root h)))"

definition bst_search_key :: "bst \<Rightarrow> 'k \<Rightarrow> (addr \<Rightarrow> 'k \<Rightarrow> int) \<Rightarrow> addr option" where
  "bst_search_key h key compare_key = search_loop h (\<lambda>tree_node. compare_key tree_node key) (bst_root h)"

partial_function (option) insert_loop ::
    "bst \<Rightarrow> addr \<Rightarrow> (addr \<Rightarrow> addr \<Rightarrow> int) \<Rightarrow> addr \<Rightarrow> bst_ptr \<Rightarrow> (bool \<times> bst) res option" where
  "insert_loop h node compare parent parent_ptr =
     (let tree_node = read_ptr h parent_ptr
      in if tree_node = 0 then
           Option.bind (bst_update_rank_insert (write_ptr parent_ptr node
                 (upd_node node (\<lambda>x. x\<lparr>bn_rank := 1, bn_parent := parent, bn_child := \<lambda>_. 0\<rparr>) h)) node)
             (\<lambda>m. Some (bindE m (\<lambda>h1. Inr (True, h1))))
         else if compare tree_node node = 0 then Some (Inr (False, h))
         else insert_loop h node compare tree_node (Child_ptr tree_node (compare tree_node node > 0)))"

definition bst_insert :: "bst \<Rightarrow> addr \<Rightarrow> (addr \<Rightarrow> addr \<Rightarrow> int) \<Rightarrow> (bool \<times> bst) res option" where
  "bst_insert h node compare =
     bindO (guardE ''node'' (node \<noteq> 0) (guardE ''node not in a tree'' (rank_of h node = 0) (Inr ())))
       (\<lambda>_. insert_loop h node compare 0 Root_ptr)"

text \<open>The end of \<^verbatim>\<open>bst_delete\<close>, from the last \<^verbatim>\<open>bst_move_node\<close> on.\<close>

definition delete_finish :: "bst \<Rightarrow> addr \<Rightarrow> addr \<Rightarrow> addr \<Rightarrow> bool \<Rightarrow> bst res option" where
  "delete_finish h node new_child update_rank_start update_rank_is_right_child =
     bindO (bst_move_node h node new_child)
       (\<lambda>h1. let h2 = set_rank node 0 h1
             in if update_rank_start \<noteq> 0 then bst_update_rank_delete h2 update_rank_start update_rank_is_right_child
                else Some (Inr h2))"

definition bst_delete :: "bst \<Rightarrow> addr \<Rightarrow> bst res option" where
  "bst_delete h node =
     bindO (guardE ''node'' (node \<noteq> 0) (bst_is_right_child h node))
       (\<lambda>node_is_right_child.
         if child_of h node False = 0 then
           delete_finish h node (child_of h node True) (parent_of h node) node_is_right_child
         else if child_of h node True = 0 then
           delete_finish h node (child_of h node False) (parent_of h node) node_is_right_child
         else Option.bind (bst_find_edge h (child_of h node (\<not> node_is_right_child)) node_is_right_child)
           (\<lambda>edge_node. let edge_child = child_of h edge_node (\<not> node_is_right_child)
             in bindO (bst_is_right_child h edge_node)
               (\<lambda>edge_is_right_child.
                 let direct = (parent_of h edge_node = node);
                     start = (if direct then edge_node else parent_of h edge_node);
                     start_is_right_child = (if direct then \<not> node_is_right_child else edge_is_right_child)
                 in bindO (guardE ''update_rank_start'' (start \<noteq> 0) (bst_move_node h edge_node edge_child))
                   (\<lambda>h1. let h2 = bst_link_node edge_node False (child_of h1 node False) h1;
                             h3 = bst_link_node edge_node True (child_of h2 node True) h2;
                             h4 = set_rank edge_node (rank_of h3 node) h3
                         in delete_finish h4 node edge_node start start_is_right_child))))"

definition bst_delete_all_helper :: "bst \<Rightarrow> addr \<Rightarrow> bst res" where
  "bst_delete_all_helper h node =
     guardE ''node'' (node \<noteq> 0)
      (guardE ''leftmost'' (child_of h node False = 0) (bst_move_node h node (child_of h node True)))"

section \<open>Walking\<close>

partial_function (option) walk_up :: "bst \<Rightarrow> addr \<Rightarrow> bool \<Rightarrow> addr res option" where
  "walk_up h next_parent dir_next =
     (case bst_is_right_child h next_parent of
        Inl e \<Rightarrow> Some (Inl e)
      | Inr d \<Rightarrow>
          if d = dir_next then
            if parent_of h next_parent = 0 then Some (Inr 0) else walk_up h (parent_of h next_parent) dir_next
          else Some (Inr (parent_of h next_parent)))"

definition bst_prev_next :: "bst \<Rightarrow> addr \<Rightarrow> bool \<Rightarrow> addr res option" where
  "bst_prev_next h node dir_next =
     (let next_child = (if node \<noteq> 0 then child_of h node dir_next else bst_root h)
      in if node = 0 \<and> next_child = 0 then Some (Inr 0)
         else if next_child \<noteq> 0 then map_option Inr (bst_find_edge h next_child (\<not> dir_next))
         else walk_up h node dir_next)"

definition bst_prev :: "bst \<Rightarrow> addr \<Rightarrow> addr res option" where
  "bst_prev h node = bst_prev_next h node False"

definition bst_next :: "bst \<Rightarrow> addr \<Rightarrow> addr res option" where
  "bst_next h node = bst_prev_next h node True"

text \<open>The loop \<^verbatim>\<open>bst_for_every_entry\<close> from the cursor on, with its body: the entries it visits and the tree it
  leaves. The cursor has moved on before the body runs.\<close>

partial_function (option) entries_from :: "(addr \<Rightarrow> bst \<Rightarrow> bst res option) \<Rightarrow> bst \<Rightarrow> addr \<Rightarrow> (addr list \<times> bst) res option" where
  "entries_from body h cursor =
     (if cursor = 0 then Some (Inr ([], h))
      else Option.bind (bst_next h cursor)
        (\<lambda>m. case m of
            Inl e \<Rightarrow> Some (Inl e)
          | Inr c \<Rightarrow> Option.bind (body cursor h)
             (\<lambda>b. case b of
                 Inl e \<Rightarrow> Some (Inl e)
               | Inr h1 \<Rightarrow> Option.bind (entries_from body h1 c)
                   (\<lambda>r. Some (bindE r (\<lambda>(es, h2). Inr (cursor # es, h2)))))))"

definition bst_for_every_entry :: "(addr \<Rightarrow> bst \<Rightarrow> bst res option) \<Rightarrow> bst \<Rightarrow> (addr list \<times> bst) res option" where
  "bst_for_every_entry body h = Option.bind (bst_next h 0) (\<lambda>m. bindO m (entries_from body h))"

text \<open>The loop of \<^verbatim>\<open>bst_for_every_entry_delete\<close>: what it visits, and the tree it leaves.\<close>

partial_function (option) delete_entries_from :: "bst \<Rightarrow> addr \<Rightarrow> (addr list \<times> bst) res option" where
  "delete_entries_from h cursor =
     (if cursor = 0 then Some (Inr ([], h))
      else Option.bind (bst_next h cursor)
        (\<lambda>m. case m of
            Inl e \<Rightarrow> Some (Inl e)
          | Inr c \<Rightarrow>
             (case bst_delete_all_helper h cursor of
                Inl e \<Rightarrow> Some (Inl e)
              | Inr h1 \<Rightarrow> Option.bind (delete_entries_from h1 c)
                  (\<lambda>r. Some (bindE r (\<lambda>(es, h2). Inr (cursor # es, h2)))))))"

definition bst_for_every_entry_delete :: "bst \<Rightarrow> (addr list \<times> bst) res option" where
  "bst_for_every_entry_delete h = Option.bind (bst_next h 0) (\<lambda>m. bindO m (delete_entries_from h))"

end
