(* ===== verification/Bst_Tree.thy ===== *)
theory Bst_Tree
  imports Bst "HOL-Library.Tree"
begin

text \<open>
  What the linked nodes stand for: a binary tree of addresses and ranks. \<open>rep\<close> relates a subtree to
  the memory below a pointer, \<open>ctx\<close> the rest of the tree to the memory above it, as the list of
  frames from the subtree up to the root. Both directions are treated at once by building trees with
  \<open>mk d\<close>, whose first argument is the child in the direction \<open>d\<close>.
\<close>

type_synonym wtree = "(addr \<times> nat) tree"
type_synonym frame = "bool \<times> addr \<times> nat \<times> wtree"

definition mk :: "bool \<Rightarrow> wtree \<Rightarrow> addr \<Rightarrow> nat \<Rightarrow> wtree \<Rightarrow> wtree" where
  "mk d t a r s = (if d then Node s (a, r) t else Node t (a, r) s)"

text \<open>The addresses in order.\<close>

fun addrs :: "wtree \<Rightarrow> addr list" where
  "addrs Leaf = []"
| "addrs (Node l (a, r) t) = addrs l @ a # addrs t"

fun rk :: "wtree \<Rightarrow> nat" where
  "rk Leaf = 0"
| "rk (Node l (a, r) t) = r"

fun plug :: "wtree \<Rightarrow> frame list \<Rightarrow> wtree" where
  "plug t [] = t"
| "plug t ((d, a, r, s) # fs) = plug (mk d t a r s) fs"

lemma mk_simps [simp]:
  "mk d t a r s \<noteq> Leaf" "rk (mk d t a r s) = r"
  "set (addrs (mk d t a r s)) = insert a (set (addrs t) \<union> set (addrs s))"
  "distinct (addrs (mk d t a r s)) \<longleftrightarrow> distinct (addrs t) \<and> distinct (addrs s) \<and> a \<notin> set (addrs t) \<and>
     a \<notin> set (addrs s) \<and> set (addrs t) \<inter> set (addrs s) = {}"
  by (auto simp: mk_def)

lemma addrs_mk: "addrs (mk d t a r s) = (if d then addrs s @ a # addrs t else addrs t @ a # addrs s)"
  by (simp add: mk_def)

lemma mk_cases:
  assumes "t \<noteq> Leaf"
  obtains l a r s where "t = mk d l a r s"
proof (cases t)
  case (Node l ar s)
  then have "t = mk d (if d then s else l) (fst ar) (snd ar) (if d then l else s)" by (simp add: mk_def)
  then show ?thesis by (rule that)
qed (use assms in simp)

lemma mk_eq [simp]: "mk d t a r s = mk d t' a' r' s' \<longleftrightarrow> t = t' \<and> a = a' \<and> r = r' \<and> s = s'"
  by (auto simp: mk_def)

lemma mk_flip: "mk d t a r s = mk (\<not> d) s a r t"
  by (simp add: mk_def)

section \<open>Subtrees in memory\<close>

fun rep :: "bst \<Rightarrow> addr \<Rightarrow> addr \<Rightarrow> wtree \<Rightarrow> bool" where
  "rep h q p Leaf \<longleftrightarrow> p = 0"
| "rep h q p (Node l (a, r) t) \<longleftrightarrow> p = a \<and> a \<noteq> 0 \<and> rank_of h a = r \<and> parent_of h a = q \<and>
     rep h a (child_of h a False) l \<and> rep h a (child_of h a True) t"

lemma rep_mk [simp]:
  "rep h q p (mk d t a r s) \<longleftrightarrow> p = a \<and> a \<noteq> 0 \<and> rank_of h a = r \<and> parent_of h a = q \<and>
     rep h a (child_of h a d) t \<and> rep h a (child_of h a (\<not> d)) s"
  by (cases d) (auto simp: mk_def)

lemma rep_root: "rep h q p t \<Longrightarrow> (p = 0 \<longleftrightarrow> t = Leaf) \<and> (p \<noteq> 0 \<longrightarrow> p \<in> set (addrs t) \<and> parent_of h p = q)"
  by (cases t) auto

lemma rep_not_null: "rep h q p t \<Longrightarrow> 0 \<notin> set (addrs t)"
  by (induction h q p t rule: rep.induct) auto

lemma rep_rank: "rep h q p t \<Longrightarrow> bst_node_rank h p = rk t"
  by (cases t) (auto simp: bst_node_rank_def)

lemma rep_cong: "(\<And>x. x \<in> set (addrs t) \<Longrightarrow> bst_nodes h' x = bst_nodes h x) \<Longrightarrow> rep h' q p t = rep h q p t"
  by (induction h q p t rule: rep.induct) auto

text \<open>Only the parent pointer of the root has changed.\<close>

lemma rep_reparent:
  assumes "rep h q p t" "distinct (addrs t)" "\<And>x. x \<in> set (addrs t) \<Longrightarrow> x \<noteq> p \<Longrightarrow> bst_nodes h' x = bst_nodes h x"
    and "p \<noteq> 0 \<Longrightarrow> bst_nodes h' p = (bst_nodes h p)\<lparr>bn_parent := q'\<rparr>"
  shows "rep h' q' p t"
proof (cases t)
  case (Node l ar s)
  obtain a r where ar: "ar = (a, r)" by fastforce
  have p: "p = a" "a \<noteq> 0" using assms(1) Node ar by simp_all
  then have "bst_nodes h' x = bst_nodes h x" if "x \<in> set (addrs l) \<union> set (addrs s)" for x
    using assms(2,3) Node ar that by auto
  then have "rep h' a c l = rep h a c l" "rep h' a c s = rep h a c s" for c by (intro rep_cong, simp)+
  with assms(1,4) p Node ar show ?thesis by simp
qed (use assms in simp)

section \<open>The tree above\<close>

fun parent_ctx :: "frame list \<Rightarrow> addr" where
  "parent_ctx [] = 0"
| "parent_ctx ((d, a, r, s) # fs) = a"

fun ctx :: "bst \<Rightarrow> addr \<Rightarrow> frame list \<Rightarrow> bool" where
  "ctx h p [] \<longleftrightarrow> bst_root h = p"
| "ctx h p ((d, a, r, s) # fs) \<longleftrightarrow> a \<noteq> 0 \<and> child_of h a d = p \<and> rank_of h a = r \<and> parent_of h a = parent_ctx fs \<and>
     rep h a (child_of h a (\<not> d)) s \<and> ctx h a fs"

fun ctx_set :: "frame list \<Rightarrow> addr set" where
  "ctx_set [] = {}"
| "ctx_set ((d, a, r, s) # fs) = insert a (set (addrs s) \<union> ctx_set fs)"

fun ctx_distinct :: "frame list \<Rightarrow> bool" where
  "ctx_distinct [] \<longleftrightarrow> True"
| "ctx_distinct ((d, a, r, s) # fs) \<longleftrightarrow> distinct (addrs s) \<and> a \<notin> set (addrs s) \<and> a \<notin> ctx_set fs \<and>
     set (addrs s) \<inter> ctx_set fs = {} \<and> ctx_distinct fs"

lemma set_plug: "set (addrs (plug t fs)) = set (addrs t) \<union> ctx_set fs"
  by (induction t fs rule: plug.induct) (auto simp: mk_def)

lemma distinct_plug:
  "distinct (addrs (plug t fs)) \<longleftrightarrow> distinct (addrs t) \<and> set (addrs t) \<inter> ctx_set fs = {} \<and> ctx_distinct fs"
proof (induction t fs rule: plug.induct)
  case (2 t d a r s fs)
  have c: "insert a (T \<union> S) \<inter> C = {} \<longleftrightarrow> a \<notin> C \<and> T \<inter> C = {} \<and> S \<inter> C = {}"
    "T \<inter> insert a (S \<union> C) = {} \<longleftrightarrow> a \<notin> T \<and> T \<inter> S = {} \<and> T \<inter> C = {}" for T S C by blast+
  show ?case unfolding plug.simps 2 unfolding mk_simps unfolding ctx_set.simps ctx_distinct.simps unfolding c
    by (rule iffI) (elim conjE, intro conjI, assumption+)+
qed simp

lemma ctx_cong:
  "(\<And>x. x \<in> ctx_set fs \<Longrightarrow> bst_nodes h' x = bst_nodes h x) \<Longrightarrow> bst_root h' = bst_root h \<Longrightarrow> ctx h' p fs = ctx h p fs"
proof (induction h p fs rule: ctx.induct)
  case (2 h p d a r s fs)
  have "rep h' a c s = rep h a c s" for c using 2(2) by (intro rep_cong) simp
  with 2 show ?case by simp
qed simp

lemma ctx_null: "ctx h p fs \<Longrightarrow> 0 \<notin> ctx_set fs"
  by (induction h p fs rule: ctx.induct) (auto dest: rep_not_null)

text \<open>The inorder sequence around a hole.\<close>

fun before_hole :: "frame list \<Rightarrow> addr list" where
  "before_hole [] = []"
| "before_hole ((d, a, r, s) # fs) = before_hole fs @ (if d then addrs s @ [a] else [])"

fun after_hole :: "frame list \<Rightarrow> addr list" where
  "after_hole [] = []"
| "after_hole ((d, a, r, s) # fs) = (if d then [] else a # addrs s) @ after_hole fs"

lemma addrs_plug: "addrs (plug t fs) = before_hole fs @ addrs t @ after_hole fs"
  by (induction t fs rule: plug.induct) (auto simp: addrs_mk)

section \<open>A subtree in its tree\<close>

definition at :: "bst \<Rightarrow> addr \<Rightarrow> wtree \<Rightarrow> frame list \<Rightarrow> bool" where
  "at h p t fs \<longleftrightarrow> rep h (parent_ctx fs) p t \<and> ctx h p fs \<and> distinct (addrs (plug t fs))"

text \<open>The whole tree is linked at the root.\<close>

definition bst_tree :: "bst \<Rightarrow> wtree \<Rightarrow> bool" where
  "bst_tree h t \<longleftrightarrow> rep h 0 (bst_root h) t \<and> distinct (addrs t)"

lemma at_top: "at h p t [] \<longleftrightarrow> p = bst_root h \<and> bst_tree h t"
  by (auto simp: at_def bst_tree_def)

text \<open>Moving down and up in the tree.\<close>

lemma at_focus:
  "at h p (mk d t a r s) fs \<longleftrightarrow> p = a \<and> at h (child_of h a d) t ((d, a, r, s) # fs)"
  by (auto simp: at_def)

lemma at_down: "at h p (mk d t a r s) fs \<Longrightarrow> at h (child_of h a d) t ((d, a, r, s) # fs) \<and> p = a \<and> parent_of h a = parent_ctx fs"
  by (auto simp: at_def)

lemma at_up: "at h p t ((d, a, r, s) # fs) \<Longrightarrow> at h a (mk d t a r s) fs \<and> child_of h a d = p \<and> parent_of h a = parent_ctx fs"
  by (auto simp: at_def)

text \<open>A subtree in its tree is the whole tree, seen from below.\<close>

lemma at_plug: "at h p t fs \<Longrightarrow> bst_tree h (plug t fs)"
proof (induction fs arbitrary: p t)
  case (Cons f fs)
  then show ?case by (cases f) (auto dest: at_up)
qed (simp add: at_top)

text \<open>And every node of the tree can be seen from below.\<close>

lemma plug_append: "plug t (fs @ gs) = plug (plug t fs) gs"
  by (induction t fs rule: plug.induct) simp_all

lemma tree_focus:
  assumes "a \<in> set (addrs t)"
  shows "\<exists>l r s fs. t = plug (mk d l a r s) fs"
  using assms
proof (induction t)
  case (Node l ar s)
  obtain b r where b: "ar = (b, r)" by fastforce
  have *: "\<exists>l' r' s' fs. mk e u b r v = plug (mk d l' a r' s') fs" if "u = plug (mk d l' a r' s') fs" for e u v l' r' s' fs
  proof -
    have "mk e u b r v = plug (mk d l' a r' s') (fs @ [(e, b, r, v)])" using that by (simp add: plug_append)
    then show ?thesis by blast
  qed
  from Node.prems b consider "a = b" | "a \<in> set (addrs l)" | "a \<in> set (addrs s)" by auto
  then show ?case
  proof cases
    case 1
    have "\<langle>l, ar, s\<rangle> = plug (mk d (if d then s else l) a r (if d then l else s)) []" using b 1 by (simp add: mk_def)
    then show ?thesis by blast
  next
    case 2
    with Node.IH(1) * [of l _ _ _ _ False s] b show ?thesis by (auto simp: mk_def [of False])
  next
    case 3
    with Node.IH(2) * [of s _ _ _ _ True l] b show ?thesis by (auto simp: mk_def [of True])
  qed
qed simp

lemma at_unplug: "bst_tree h (plug t fs) \<Longrightarrow> \<exists>p. at h p t fs"
proof (induction fs arbitrary: t)
  case (Cons f fs)
  obtain d a r s where f: "f = (d, a, r, s)" by (cases f) auto
  with Cons obtain p where "at h p (mk d t a r s) fs" by fastforce
  then show ?case by (auto simp: f dest: at_down)
qed (auto simp: at_top)

text \<open>The memory outside the tree.\<close>

definition same_outside :: "addr set \<Rightarrow> bst \<Rightarrow> bst \<Rightarrow> bool" where
  "same_outside A h h' \<longleftrightarrow> (\<forall>x. x \<notin> A \<longrightarrow> bst_nodes h' x = bst_nodes h x)"

lemma same_outside_refl [simp]: "same_outside A h h"
  by (simp add: same_outside_def)

lemma same_outside_trans: "same_outside A h h1 \<Longrightarrow> same_outside A h1 h2 \<Longrightarrow> same_outside A h h2"
  by (simp add: same_outside_def)

lemma upd_node_simps [simp]:
  "bst_root (upd_node n f h) = bst_root h"
  "bst_nodes (upd_node n f h) = (bst_nodes h)(n := f (bst_nodes h n))"
  by (simp_all add: upd_node_def)

section \<open>The balance of a weak AVL tree\<close>

fun wavl :: "wtree \<Rightarrow> bool" where
  "wavl Leaf \<longleftrightarrow> True"
| "wavl (Node l (a, r) t) \<longleftrightarrow> wavl l \<and> wavl t \<and> rk l < r \<and> r \<le> rk l + 2 \<and> rk t < r \<and> r \<le> rk t + 2 \<and>
     (l = Leaf \<and> t = Leaf \<longrightarrow> r = 1)"

lemma wavl_mk [simp]:
  "wavl (mk d l a r t) \<longleftrightarrow> wavl l \<and> wavl t \<and> rk l < r \<and> r \<le> rk l + 2 \<and> rk t < r \<and> r \<le> rk t + 2 \<and>
     (l = Leaf \<and> t = Leaf \<longrightarrow> r = 1)"
  by (auto simp: mk_def)

lemma wavl_rk: "wavl t \<Longrightarrow> rk t = 0 \<longleftrightarrow> t = Leaf"
  by (cases t) auto

lemma wavl_height: "wavl t \<Longrightarrow> height t \<le> rk t"
  by (induction t) auto

lemma wavl_size: "wavl t \<Longrightarrow> 2 ^ ((rk t + 1) div 2) \<le> size1 t"
proof (induction t)
  case (Node l ar t)
  obtain a r where ar: "ar = (a, r)" by fastforce
  with Node.prems have w: "wavl l" "wavl t" "r \<le> rk l + 2" "r \<le> rk t + 2" "l = Leaf \<and> t = Leaf \<longrightarrow> r = 1" by auto
  have m: "(2 :: nat) ^ ((r - 1) div 2) \<le> 2 ^ ((rk x + 1) div 2)" if "r \<le> rk x + 2" for x
    using that by (intro power_increasing div_le_mono) auto
  have "2 ^ ((r - 1) div 2) \<le> size1 l" "2 ^ ((r - 1) div 2) \<le> size1 t"
    using m [OF w(3)] m [OF w(4)] Node.IH(1) [OF w(1)] Node.IH(2) [OF w(2)] by (blast intro: order_trans)+
  then have "2 * 2 ^ ((r - 1) div 2) \<le> size1 l + size1 t" by simp
  moreover have "(2 :: nat) ^ ((r + 1) div 2) \<le> 2 * 2 ^ ((r - 1) div 2)" by (cases r) (simp_all flip: power_Suc)
  ultimately show ?case using ar by simp
qed simp

text \<open>The frames above a hole in which a subtree of rank \<open>k\<close> fits.\<close>

fun wavl_ctx :: "nat \<Rightarrow> frame list \<Rightarrow> bool" where
  "wavl_ctx k [] \<longleftrightarrow> True"
| "wavl_ctx k ((d, a, r, s) # fs) \<longleftrightarrow> wavl s \<and> k < r \<and> r \<le> k + 2 \<and> rk s < r \<and> r \<le> rk s + 2 \<and>
     (k = 0 \<and> s = Leaf \<longrightarrow> r = 1) \<and> wavl_ctx r fs"

lemma wavl_plug: "wavl (plug t fs) \<longleftrightarrow> wavl t \<and> wavl_ctx (rk t) fs"
proof (induction fs arbitrary: t)
  case (Cons f fs)
  then show ?case by (cases f) (auto simp: wavl_rk)
qed simp

end
