(* ===== verification/Bst_Links.thy ===== *)
theory Bst_Links
  imports Bst_Tree
begin

text \<open>
  The helper functions of \<^verbatim>\<open>binary_search_tree.c\<close> that relink nodes, on the trees they stand for: a
  rotation keeps the order of the nodes and the rest of the tree.
\<close>

section \<open>Finding the link to a node\<close>

definition side :: "frame list \<Rightarrow> bool" where
  "side fs = (case fs of [] \<Rightarrow> False | (d, _) # _ \<Rightarrow> d)"

lemma side_simps [simp]: "side [] = False" "side ((d, x) # fs) = d"
  by (simp_all add: side_def)

lemma ctx_other_child:
  assumes "ctx h p ((d, a, r, s) # fs)" "p \<noteq> 0" "p \<notin> set (addrs s)"
  shows "child_of h a (\<not> d) \<noteq> p"
  using assms rep_root [of h a "child_of h a (\<not> d)" s] by auto

lemma bst_is_right_child_ok:
  assumes c: "ctx h p fs" and p: "p \<noteq> 0" "parent_of h p = parent_ctx fs" "p \<notin> ctx_set fs"
  shows "bst_is_right_child h p = Inr (side fs)"
proof (cases fs)
  case Nil
  with c p show ?thesis by (simp add: bst_is_right_child_def)
next
  case (Cons f fs')
  obtain d a r s where f: "f = (d, a, r, s)" by (cases f) auto
  then have "parent_ctx fs = a" "a \<noteq> 0" "child_of h a d = p" "child_of h a (\<not> d) \<noteq> p"
    using c p Cons ctx_other_child [of h p d a r s fs'] by auto
  with p Cons f show ?thesis by (cases d) (auto simp: bst_is_right_child_def)
qed

text \<open>The pointer to the node.\<close>

definition slot :: "frame list \<Rightarrow> bst_ptr" where
  "slot fs = (case fs of [] \<Rightarrow> Root_ptr | (d, a, _) # _ \<Rightarrow> Child_ptr a d)"

lemma read_slot: "ctx h p fs \<Longrightarrow> read_ptr h (slot fs) = p"
  by (cases fs) (auto simp: slot_def)

lemma bst_parent_ptr_ok:
  assumes c: "ctx h p fs" and p: "p \<noteq> 0" "parent_of h p = parent_ctx fs" "p \<notin> ctx_set fs"
  shows "bst_parent_ptr h p = Inr (slot fs)"
  using bst_is_right_child_ok [OF assms] read_slot [OF c] assms
  by (cases fs) (auto simp: bst_parent_ptr_def slot_def)

text \<open>Writing another pointer there.\<close>

lemma write_slot:
  assumes "ctx h p fs" "ctx_distinct fs"
  shows "ctx (write_ptr (slot fs) p' h) p' fs" "same_outside (ctx_set fs) h (write_ptr (slot fs) p' h)"
proof -
  show "ctx (write_ptr (slot fs) p' h) p' fs"
  proof (cases fs)
    case (Cons f fs')
    obtain d a r s where f: "f = (d, a, r, s)" by (cases f) auto
    let ?h = "set_child a d p' h"
    have "rep ?h a c s = rep h a c s" for c using assms Cons f by (intro rep_cong) auto
    moreover have "ctx ?h v fs' = ctx h v fs'" for v using assms Cons f by (intro ctx_cong) auto
    ultimately show ?thesis using assms Cons f by (simp add: slot_def)
  qed (use assms in \<open>simp add: slot_def\<close>)
  show "same_outside (ctx_set fs) h (write_ptr (slot fs) p' h)"
    by (cases fs) (auto simp: slot_def same_outside_def)
qed

lemma bst_move_node_ok:
  assumes c: "ctx h p fs" "ctx_distinct fs" and p: "p \<noteq> 0" "parent_of h p = parent_ctx fs" "p \<notin> ctx_set fs"
    and n: "new \<notin> ctx_set fs" "new \<noteq> p"
  shows "\<exists>h'. bst_move_node h p new = Inr h' \<and> ctx h' new fs \<and>
    same_outside (insert p (insert new (ctx_set fs))) h h' \<and> bst_nodes h' p = (bst_nodes h p)\<lparr>bn_parent := 0\<rparr> \<and>
    bst_nodes h' new = (if new \<noteq> 0 then (bst_nodes h new)\<lparr>bn_parent := parent_ctx fs\<rparr> else bst_nodes h new)"
proof -
  let ?h1 = "write_ptr (slot fs) new h"
  let ?h2 = "if new \<noteq> 0 then set_parent new (parent_ctx fs) ?h1 else ?h1"
  note w = write_slot [OF c, of new]
  from w(2) p(3) n(1) have same: "bst_nodes ?h1 p = bst_nodes h p" "bst_nodes ?h1 new = bst_nodes h new"
    by (auto simp: same_outside_def)
  have "bst_move_node h p new = Inr (set_parent p 0 ?h2)"
    using p same bst_parent_ptr_ok [OF c(1) p] by (simp add: bst_move_node_def)
  moreover have "ctx (set_parent p 0 ?h2) new fs = ctx ?h1 new fs"
    using p(3) n(1) by (intro ctx_cong) auto
  moreover have "same_outside (insert p (insert new (ctx_set fs))) h (set_parent p 0 ?h2)"
    using w(2) by (auto simp: same_outside_def)
  ultimately show ?thesis using w(1) same n(2) p by auto
qed

section \<open>Ranks\<close>

lemma at_set_rank:
  assumes "at h p (mk d l a r s) fs"
  shows "at (set_rank a r' h) p (mk d l a r' s) fs"
proof -
  let ?h = "set_rank a r' h"
  from assms have a: "a \<notin> set (addrs l)" "a \<notin> set (addrs s)" "a \<notin> ctx_set fs"
    by (auto simp: at_def distinct_plug split: if_splits)
  have "rep ?h a c l = rep h a c l" "rep ?h a c s = rep h a c s" for c by (rule rep_cong, use a in fastforce)+
  moreover have "ctx ?h p fs = ctx h p fs" using a by (intro ctx_cong) auto
  ultimately show ?thesis using assms by (auto simp: at_def distinct_plug)
qed

lemma same_outside_rank: "a \<in> A \<Longrightarrow> same_outside A h (set_rank a r h)"
  by (auto simp: same_outside_def)

section \<open>Rotations\<close>

lemma bst_rotate_ok:
  assumes a: "at h down (mk d (mk d A up ru B) down rd C) fs"
  shows "\<exists>h'. bst_rotate h up down d = Inr h' \<and> at h' up (mk d A up ru (mk d B down rd C)) fs \<and>
    same_outside (set (addrs A) \<union> set (addrs B) \<union> set (addrs C) \<union> {up, down} \<union> ctx_set fs) h h'"
proof -
  let ?b = "child_of h up (\<not> d)"
  from a have rep: "rank_of h down = rd" "parent_of h down = parent_ctx fs" "child_of h down d = up" "rep h down (child_of h down (\<not> d)) C"
    "rank_of h up = ru" "parent_of h up = down" "rep h up (child_of h up d) A" "rep h up ?b B" "up \<noteq> 0" "down \<noteq> 0"
    and ctx: "ctx h down fs" "ctx_distinct fs"
    and dis: "up \<noteq> down" "up \<notin> set (addrs A)" "up \<notin> set (addrs B)" "up \<notin> set (addrs C)" "down \<notin> set (addrs A)"
      "down \<notin> set (addrs B)" "down \<notin> set (addrs C)" "up \<notin> ctx_set fs" "down \<notin> ctx_set fs" "distinct (addrs B)"
      "set (addrs A) \<inter> ctx_set fs = {}" "set (addrs B) \<inter> ctx_set fs = {}" "set (addrs C) \<inter> ctx_set fs = {}"
      "set (addrs A) \<inter> set (addrs B) = {}" "set (addrs B) \<inter> set (addrs C) = {}"
    by (auto simp: at_def distinct_plug split: if_splits)
  from bst_move_node_ok [OF ctx rep(10,2) dis(9,8,1)] obtain h1 where h1: "bst_move_node h down up = Inr h1"
    "ctx h1 up fs" "same_outside (insert down (insert up (ctx_set fs))) h h1"
    "bst_nodes h1 down = (bst_nodes h down)\<lparr>bn_parent := 0\<rparr>" "bst_nodes h1 up = (bst_nodes h up)\<lparr>bn_parent := parent_ctx fs\<rparr>"
    using rep(9) by auto
  define h2 where "h2 = bst_link_node up (\<not> d) down (bst_link_node down d ?b h1)"
  have b: "?b \<noteq> 0 \<Longrightarrow> ?b \<in> set (addrs B)" using rep_root [OF rep(8)] by simp
  have n2: "bst_nodes h2 x = (if x = up then (bst_nodes h up)\<lparr>bn_parent := parent_ctx fs, bn_child := (child_of h up)(\<not> d := down)\<rparr>
      else if x = down then (bst_nodes h down)\<lparr>bn_parent := up, bn_child := (child_of h down)(d := ?b)\<rparr>
      else if x = ?b \<and> ?b \<noteq> 0 then (bst_nodes h1 ?b)\<lparr>bn_parent := down\<rparr> else bst_nodes h1 x)" for x
    using h1(4,5) dis b rep(10) by (auto simp: h2_def bst_link_node_def Let_def)
  have same: "bst_nodes h1 x = bst_nodes h x" if "x \<notin> {up, down}" "x \<notin> ctx_set fs" for x
    using h1(3) that by (auto simp: same_outside_def)
  have same': "bst_nodes h1 x = bst_nodes h x" if "x \<in> set (addrs A) \<union> set (addrs B) \<union> set (addrs C)" for x
    using that dis by (intro same) auto
  have "rep h2 up (child_of h up d) A = rep h up (child_of h up d) A"
    using dis b by (intro rep_cong) (auto simp: n2 same')
  moreover have "rep h2 down (child_of h down (\<not> d)) C = rep h down (child_of h down (\<not> d)) C"
    using dis b by (intro rep_cong) (auto simp: n2 same')
  moreover have "rep h2 down ?b B"
  proof (rule rep_reparent [OF rep(8) dis(10)])
    show "bst_nodes h2 x = bst_nodes h x" if "x \<in> set (addrs B)" "x \<noteq> ?b" for x using that dis by (auto simp: n2 same')
    show "bst_nodes h2 ?b = (bst_nodes h ?b)\<lparr>bn_parent := down\<rparr>" if "?b \<noteq> 0" using that b dis by (auto simp: n2 same')
  qed
  moreover have "ctx h2 up fs = ctx h1 up fs"
  proof (rule ctx_cong)
    show "bst_nodes h2 x = bst_nodes h1 x" if "x \<in> ctx_set fs" for x using that dis b by (auto simp: n2)
  qed (simp add: h2_def bst_link_node_def Let_def)
  ultimately have "at h2 up (mk d A up ru (mk d B down rd C)) fs"
    using rep dis h1(2) a by (auto simp: at_def distinct_plug n2)
  moreover have "bst_rotate h up down d = Inr h2" using rep(3) h1(1) by (simp add: bst_rotate_def h2_def)
  moreover have "same_outside (set (addrs A) \<union> set (addrs B) \<union> set (addrs C) \<union> {up, down} \<union> ctx_set fs) h h2"
    using b same by (auto simp: same_outside_def n2)
  ultimately show ?thesis by blast
qed

end
