(* ===== verification/Bst_Insert.thy ===== *)
theory Bst_Insert
  imports Bst_Links
begin

text \<open>
  Insertion: \<^verbatim>\<open>bst_update_rank_insert\<close> walks up from the new leaf, promoting nodes until the tree is a
  weak AVL tree again or one single or double rotation makes it one. The order of the nodes does not
  change.
\<close>

section \<open>Ranks of nodes below the top\<close>

lemma at_set_rank_child:
  assumes "at h p (mk d (mk e l b rb s) a r t) fs"
  shows "at (set_rank b r' h) p (mk d (mk e l b r' s) a r t) fs"
proof -
  from at_down [OF assms] have "at h (child_of h a d) (mk e l b rb s) ((d, a, r, t) # fs)" "p = a" by simp_all
  from at_up [OF at_set_rank [OF this(1), of r']] this(2) show ?thesis by simp
qed

lemma at_set_rank_other:
  assumes "at h p (mk d t a r (mk e l b rb s)) fs"
  shows "at (set_rank b r' h) p (mk d t a r (mk e l b r' s)) fs"
  using at_set_rank_child [of h p "\<not> d" e l b rb s a r t fs r'] assms by (simp flip: mk_flip [of d])

section \<open>The rotations\<close>

text \<open>What a rebalancing step does: the subtree at this place is replaced by another one with the same
  nodes, in the same order.\<close>

definition rebalanced :: "bst \<Rightarrow> wtree \<Rightarrow> frame list \<Rightarrow> nat \<Rightarrow> bst \<Rightarrow> bool" where
  "rebalanced h t fs r h' \<longleftrightarrow>
     (\<exists>p' t'. at h' p' t' fs \<and> addrs t' = addrs t \<and> wavl t' \<and> rk t' = r \<and> same_outside (set (addrs t) \<union> ctx_set fs) h h')"

lemma rebalancedI:
  "at h' p' t' fs \<Longrightarrow> addrs t' = addrs t \<Longrightarrow> wavl t' \<Longrightarrow> rk t' = r \<Longrightarrow>
     same_outside (set (addrs t) \<union> ctx_set fs) h h' \<Longrightarrow> rebalanced h t fs r h'"
  by (auto simp: rebalanced_def)

text \<open>The first half of a double rotation.\<close>

lemma rotate_twice:
  assumes a: "at h down (mk d (mk d A up1 r1 (mk (\<not> d) X up2 r2 Y)) down rd S) fs"
  shows "\<exists>h1. bst_rotate h up2 up1 (\<not> d) = Inr h1 \<and>
    at h1 down (mk d (mk d (mk d A up1 r1 Y) up2 r2 X) down rd S) fs \<and>
    same_outside (set (addrs (mk d (mk d A up1 r1 (mk (\<not> d) X up2 r2 Y)) down rd S)) \<union> ctx_set fs) h h1"
proof -
  from at_down [OF a] have "at h (child_of h down d) (mk (\<not> d) (mk (\<not> d) X up2 r2 Y) up1 r1 A) ((d, down, rd, S) # fs)"
    by (simp add: mk_flip [of d A])
  moreover from at_down [OF this] have "child_of h down d = up1" by simp
  ultimately have "at h up1 (mk (\<not> d) (mk (\<not> d) X up2 r2 Y) up1 r1 A) ((d, down, rd, S) # fs)" by simp
  from bst_rotate_ok [OF this] obtain h1 where h1: "bst_rotate h up2 up1 (\<not> d) = Inr h1"
    "at h1 up2 (mk (\<not> d) X up2 r2 (mk (\<not> d) Y up1 r1 A)) ((d, down, rd, S) # fs)"
    "same_outside (set (addrs X) \<union> set (addrs Y) \<union> set (addrs A) \<union> {up2, up1} \<union> ctx_set ((d, down, rd, S) # fs)) h h1" by blast
  moreover have "mk (\<not> d) X up2 r2 (mk (\<not> d) Y up1 r1 A) = mk d (mk d A up1 r1 Y) up2 r2 X" by (cases d) (simp_all add: mk_def)
  ultimately have "at h1 down (mk d (mk d (mk d A up1 r1 Y) up2 r2 X) down rd S) fs" using at_up by fastforce
  with h1(1,3) show ?thesis by (auto simp: same_outside_def)
qed

lemma rotate_insert_single:
  assumes a: "at h down (mk d (mk d A up1 r B) down r S) fs"
    and w: "wavl A" "wavl B" "wavl S" "rk A + 1 = r" "rk B + 2 = r" "rk S + 2 = r"
  shows "okE (rebalanced h (mk d (mk d A up1 r B) down r S) fs r) (bst_rotate_insert h up1 down d)"
proof -
  have rep: "rank_of h down = r" "child_of h down d = up1" "rank_of h up1 = r" "rep h down (child_of h down (\<not> d)) S"
    "rep h up1 (child_of h up1 (\<not> d)) B" using a by (auto simp: at_def)
  from bst_rotate_ok [OF a] obtain h1 where h1: "bst_rotate h up1 down d = Inr h1"
    "at h1 up1 (mk d A up1 r (mk d B down r S)) fs"
    "same_outside (set (addrs A) \<union> set (addrs B) \<union> set (addrs S) \<union> {up1, down} \<union> ctx_set fs) h h1" by blast
  have rd: "rank_of h1 down = r" using h1(2) by (simp add: at_def)
  have "bst_rotate_insert h up1 down d = Inr (set_rank down (r - 1) h1)"
    using rep rep_rank [OF rep(4)] rep_rank [OF rep(5)] w h1(1) rd
    by (auto simp: bst_rotate_insert_def size_sub_def Let_def)
  moreover have "rebalanced h (mk d (mk d A up1 r B) down r S) fs r (set_rank down (r - 1) h1)"
    using at_set_rank_other [OF h1(2), of "r - 1"]
  proof (rule rebalancedI)
    show "wavl (mk d A up1 r (mk d B down (r - 1) S))" using w wavl_rk [OF w(2)] by auto
    show "same_outside (set (addrs (mk d (mk d A up1 r B) down r S)) \<union> ctx_set fs) h (set_rank down (r - 1) h1)"
      using h1(3) by (auto simp: same_outside_def)
  qed (auto simp: mk_def)
  ultimately show ?thesis by simp
qed

lemma rotate_insert_double:
  assumes a: "at h down (mk d (mk d A up1 r B) down r S) fs"
    and w: "wavl A" "wavl B" "wavl S" "rk A + 2 = r" "rk B + 1 = r" "rk S + 2 = r"
  shows "okE (rebalanced h (mk d (mk d A up1 r B) down r S) fs r) (bst_rotate_insert h up1 down d)"
proof -
  have "B \<noteq> Leaf" using w by auto
  then obtain X up2 Y where B: "B = mk (\<not> d) X up2 (r - 1) Y" using w(5) by (metis mk_cases mk_simps(2) add_diff_cancel_right')
  note w' = w [unfolded B wavl_mk mk_simps]
  let ?t = "mk d (mk d A up1 r B) down r S"
  let ?h1 = "set_rank up2 r h"
  have rep: "rank_of h down = r" "child_of h down d = up1" "rank_of h up1 = r" "rep h down (child_of h down (\<not> d)) S"
    "child_of h up1 (\<not> d) = up2" "rank_of h up2 = r - 1" "up2 \<noteq> 0" "up1 \<noteq> up2" "down \<noteq> up2" "up1 \<noteq> down"
    using a by (auto simp: at_def B distinct_plug split: if_splits)
  from at_down [OF a] rep(2) have "at h up1 (mk d A up1 r (mk (\<not> d) X up2 (r - 1) Y)) ((d, down, r, S) # fs)" by (simp add: B)
  from at_up [OF at_set_rank_other [OF this, of r]]
  have "at ?h1 down (mk d (mk d A up1 r (mk (\<not> d) X up2 r Y)) down r S) fs" by simp
  from rotate_twice [OF this] obtain h2 where h2: "bst_rotate ?h1 up2 up1 (\<not> d) = Inr h2"
    "at h2 down (mk d (mk d (mk d A up1 r Y) up2 r X) down r S) fs" "same_outside (set (addrs ?t) \<union> ctx_set fs) ?h1 h2"
    by (auto simp: B)
  let ?h3 = "set_rank up1 (r - 1) h2"
  from at_down [OF h2(2)] have "at h2 (child_of h2 down d) (mk d (mk d A up1 r Y) up2 r X) ((d, down, r, S) # fs)" by simp
  from at_up [OF at_set_rank_child [OF this, of "r - 1"]]
  have "at ?h3 down (mk d (mk d (mk d A up1 (r - 1) Y) up2 r X) down r S) fs" by simp
  from bst_rotate_ok [OF this] obtain h4 where h4: "bst_rotate ?h3 up2 down d = Inr h4"
    "at h4 up2 (mk d (mk d A up1 (r - 1) Y) up2 r (mk d X down r S)) fs"
    "same_outside (set (addrs (mk d A up1 (r - 1) Y)) \<union> set (addrs X) \<union> set (addrs S) \<union> {up2, down} \<union> ctx_set fs) ?h3 h4"
    by blast
  have rk: "rank_of h2 up1 = r" "rank_of h4 down = r" using h2(2) h4(2) by (simp_all add: at_def)
  have "bst_rotate_insert h up1 down d = Inr (set_rank down (r - 1) h4)"
    using rep rep_rank [OF rep(4)] w h2(1) h4(1) rk
    by (auto simp: bst_rotate_insert_def bst_node_rank_def size_sub_def Let_def)
  moreover have "rebalanced h ?t fs r (set_rank down (r - 1) h4)"
    using at_set_rank_other [OF h4(2), of "r - 1"]
  proof (rule rebalancedI)
    show "wavl (mk d (mk d A up1 (r - 1) Y) up2 r (mk d X down (r - 1) S))"
      using w' wavl_rk [OF w(1)] wavl_rk [OF w(3)] by auto
    show "same_outside (set (addrs ?t) \<union> ctx_set fs) h (set_rank down (r - 1) h4)"
      using h2(3) h4(3) by (auto simp: same_outside_def B)
  qed (auto simp: mk_def B)
  ultimately show ?thesis by simp
qed

section \<open>Walking up\<close>

text \<open>A subtree whose rank has just grown by one: a new leaf, or a node promoted for one of its
  children.\<close>

definition promoted :: "wtree \<Rightarrow> bool" where
  "promoted t \<longleftrightarrow> wavl t \<and> (rk t = 1 \<or> (\<exists>d l a r s. t = mk d l a r s \<and> rk l + 1 = r \<and> rk s + 2 = r))"

lemma promoted_cases:
  assumes "promoted t" "rk t \<noteq> 1"
  obtains (outer) A a r B where "t = mk d A a r B" "wavl A" "wavl B" "rk A + 1 = r" "rk B + 2 = r"
    | (inner) A a r B where "t = mk d A a r B" "wavl A" "wavl B" "rk A + 2 = r" "rk B + 1 = r"
proof -
  from assms obtain e l a r s where t: "t = mk e l a r s" "wavl l" "wavl s" "rk l + 1 = r" "rk s + 2 = r"
    by (auto simp: promoted_def)
  moreover have "mk e l a r s = mk d s a r l" if "e \<noteq> d" using that by (cases e) (simp_all add: mk_def)
  ultimately show thesis using outer inner by (cases "e = d") auto
qed

text \<open>The tree as a whole has been rebalanced.\<close>

definition balanced :: "bst \<Rightarrow> addr list \<Rightarrow> bst \<Rightarrow> bool" where
  "balanced h xs h' \<longleftrightarrow> (\<exists>t'. bst_tree h' t' \<and> wavl t' \<and> addrs t' = xs \<and> same_outside (set xs) h h')"

lemma balancedI: "at h' p t fs \<Longrightarrow> wavl (plug t fs) \<Longrightarrow> addrs (plug t fs) = xs \<Longrightarrow> same_outside (set xs) h h' \<Longrightarrow> balanced h xs h'"
  using at_plug [of h' p t fs] by (auto simp: balanced_def)

lemma balanced_trans: "same_outside (set xs) h h1 \<Longrightarrow> balanced h1 xs h' \<Longrightarrow> balanced h xs h'"
  by (auto simp: balanced_def intro: same_outside_trans)

lemma rebalanced_balanced: "rebalanced h t fs r h' \<Longrightarrow> wavl_ctx r fs \<Longrightarrow> balanced h (addrs (plug t fs)) h'"
proof -
  assume a: "rebalanced h t fs r h'" "wavl_ctx r fs"
  then obtain p' t' where t': "at h' p' t' fs" "addrs t' = addrs t" "wavl t'" "rk t' = r" "same_outside (set (addrs t) \<union> ctx_set fs) h h'"
    by (auto simp: rebalanced_def)
  have "same_outside (set (addrs (plug t fs))) h h'" using t'(5) by (simp add: set_plug)
  moreover have "addrs (plug t' fs) = addrs (plug t fs)" using t'(2) by (simp add: addrs_plug)
  ultimately show ?thesis using balancedI [OF t'(1)] t' a(2) by (simp add: wavl_plug)
qed

lemma promote:
  assumes "wavl t" "t \<noteq> Leaf" "wavl s" "rk s + 1 = rk t"
  shows "promoted (mk d t b (rk t + 1) s)"
proof -
  have "rk s + 2 = rk t + 1" using assms(4) by simp
  with assms show ?thesis by (auto simp: promoted_def simp del: mk_eq)
qed

lemma promoted_not_Leaf: "promoted t \<Longrightarrow> t \<noteq> Leaf \<and> wavl t \<and> 1 \<le> rk t"
  using wavl_rk [of t] by (auto simp: promoted_def)

lemma rotate_insert_ok:
  assumes a: "at h b (mk d t b (rk t) s) fs" and t: "promoted t" "wavl s" "rk s + 2 = rk t"
  shows "okE (rebalanced h (mk d t b (rk t) s) fs (rk t)) (bst_rotate_insert h (child_of h b d) b d)"
proof -
  have "rk t \<noteq> 1" using t(3) by simp
  from t(1) this show ?thesis
  proof (cases rule: promoted_cases [where d = d])
    case (outer A c r B)
    with a have "child_of h b d = c" "at h b (mk d (mk d A c r B) b r s) fs" by (auto simp: at_def)
    with rotate_insert_single [OF this(2)] outer t show ?thesis by simp
  next
    case (inner A c r B)
    with a have "child_of h b d = c" "at h b (mk d (mk d A c r B) b r s) fs" by (auto simp: at_def)
    with rotate_insert_double [OF this(2)] inner t show ?thesis by simp
  qed
qed

lemma update_insert_loop_ok:
  assumes "at h p t fs" "promoted t" "wavl_ctx (rk t - 1) fs"
  shows "\<exists>h'. update_insert_loop h p = Some (Inr h') \<and> balanced h (addrs (plug t fs)) h'"
  using assms
proof (induction fs arbitrary: h p t)
  case Nil
  then have "p \<noteq> 0" "parent_of h p = 0" "rank_of h p = rk t" "bst_root h = p"
    using promoted_not_Leaf [of t] rep_root [of h 0 p t] rep_rank [of h 0 p t] by (auto simp: at_def bst_node_rank_def)
  then have "update_insert_loop h p = Some (Inr h)"
    by (subst update_insert_loop.simps) (simp add: update_insert_step_def bst_is_right_child_def)
  with Nil promoted_not_Leaf show ?case by (auto intro!: balancedI)
next
  case (Cons f fs)
  obtain d b r s where f: "f = (d, b, r, s)" by (cases f) auto
  note a = Cons.prems(1) [unfolded f]
  from promoted_not_Leaf [OF Cons.prems(2)] have t: "t \<noteq> Leaf" "wavl t" "1 \<le> rk t" by auto
  from Cons.prems(3) f have k: "wavl s" "rk t \<le> r" "r \<le> rk t + 1" "rk s < r" "r \<le> rk s + 2" "wavl_ctx r fs" using t(3) by auto
  from a t(1) have p: "p \<noteq> 0" "parent_of h p = b" "rank_of h p = rk t" "b \<noteq> 0" "rank_of h b = r" "p \<notin> ctx_set ((d, b, r, s) # fs)"
    "rep h b (child_of h b (\<not> d)) s" "ctx h p ((d, b, r, s) # fs)" "child_of h b d = p"
    using rep_root [of h b p t] rep_rank [of h b p t] by (auto simp: at_def bst_node_rank_def distinct_plug)
  have "parent_of h p = parent_ctx ((d, b, r, s) # fs)" using p(2) by simp
  from bst_is_right_child_ok [OF p(8,1) this p(6)] have side: "bst_is_right_child h p = Inr d" by simp
  note up = at_up [OF a]
  consider "r = rk t + 1" | "r = rk t" "rk s + 2 = r" | "r = rk t" "rk s + 1 = r" using k by linarith
  then show ?case
  proof cases
    case 1
    then have "update_insert_loop h p = Some (Inr h)"
      using p side by (subst update_insert_loop.simps) (simp add: update_insert_step_def)
    moreover have "wavl (plug t ((d, b, r, s) # fs))" using k t 1 by (auto simp: wavl_plug)
    ultimately show ?thesis using a f by (auto intro!: balancedI)
  next
    case 2
    from rotate_insert_ok [of h b d t s fs] up Cons.prems(2) k(1) 2 obtain h' where
      h': "bst_rotate_insert h (child_of h b d) b d = Inr h'" "rebalanced h (mk d t b (rk t) s) fs (rk t) h'" by (auto simp: okE_iff_ex)
    then have "update_insert_loop h p = Some (Inr h')"
      using p side 2 rep_rank [OF p(7)] by (subst update_insert_loop.simps) (simp add: update_insert_step_def)
    with rebalanced_balanced [OF h'(2)] k 2 f show ?thesis by simp
  next
    case 3
    let ?h = "set_rank b (rk t + 1) h"
    have "promoted (mk d t b (rk t + 1) s)" using t k 3 by (intro promote) auto
    moreover have "at ?h b (mk d t b (rk t + 1) s) fs" using up at_set_rank by blast
    ultimately obtain h' where h': "update_insert_loop ?h b = Some (Inr h')" "balanced ?h (addrs (plug (mk d t b (rk t + 1) s) fs)) h'"
      using Cons.IH [of ?h b "mk d t b (rk t + 1) s"] k 3 by auto
    have "update_insert_loop h p = update_insert_loop ?h b"
      using p side 3 rep_rank [OF p(7)] by (subst update_insert_loop.simps) (simp add: update_insert_step_def)
    moreover have "addrs (plug (mk d t b (rk t + 1) s) fs) = addrs (plug t (f # fs))" using f by (simp add: addrs_plug addrs_mk)
    moreover have "same_outside (set (addrs (plug t (f # fs)))) h ?h" using f by (auto simp: same_outside_def set_plug)
    ultimately show ?thesis using h' balanced_trans by auto
  qed
qed

end
