(* ===== verification/Bst_Search.thy ===== *)
theory Bst_Search
  imports Bst_Insert
begin

text \<open>
  Searching and inserting by a comparison function of the caller. What the tree needs of it is the
  locale \<open>bst_order\<close>: it orders the nodes it is used on, where several nodes may match.
\<close>

section \<open>Comparing with one node\<close>

text \<open>The comparison with a fixed node falls along the nodes of the tree: first the nodes before it,
  then those that match, then those after it.\<close>

definition falls :: "(addr \<Rightarrow> int) \<Rightarrow> addr list \<Rightarrow> bool" where
  "falls cmp xs \<longleftrightarrow> sorted_wrt (\<lambda>a b. (0 < cmp b \<longrightarrow> 0 < cmp a) \<and> (cmp a < 0 \<longrightarrow> cmp b < 0)) xs"

lemma falls_Node:
  "falls cmp (xs @ a # ys) \<Longrightarrow> falls cmp xs \<and> falls cmp ys \<and> (0 < cmp a \<longrightarrow> (\<forall>x \<in> set xs. 0 < cmp x)) \<and>
     (cmp a < 0 \<longrightarrow> (\<forall>y \<in> set ys. cmp y < 0))"
  by (auto simp: falls_def sorted_wrt_append)

lemma search_loop_ok:
  "rep h q p t \<Longrightarrow> falls cmp (addrs t) \<Longrightarrow>
     \<exists>n. search_loop h cmp p = Some n \<and>
       (if n = 0 then \<forall>a \<in> set (addrs t). cmp a \<noteq> 0 else n \<in> set (addrs t) \<and> cmp n = 0)"
proof (induction t arbitrary: q p)
  case Leaf
  then show ?case by (subst search_loop.simps) simp
next
  case (Node l ar s)
  obtain a r where ar: "ar = (a, r)" by fastforce
  with Node.prems have rep: "p = a" "a \<noteq> 0" "rep h a (child_of h a False) l" "rep h a (child_of h a True) s" by simp_all
  from Node.prems(2) ar have f: "falls cmp (addrs l @ a # addrs s)" by simp
  note f' = falls_Node [OF f]
  consider "cmp a = 0" | "0 < cmp a" | "cmp a < 0" by linarith
  then show ?case
  proof cases
    case 1
    with rep ar show ?thesis by (subst search_loop.simps) simp
  next
    case 2
    with rep have "search_loop h cmp p = search_loop h cmp (child_of h a True)" by (subst search_loop.simps) simp
    with Node.IH(2) [OF rep(4)] f' 2 ar show ?thesis by fastforce
  next
    case 3
    with rep have "search_loop h cmp p = search_loop h cmp (child_of h a False)" by (subst search_loop.simps) simp
    with Node.IH(1) [OF rep(3)] f' 3 ar show ?thesis by fastforce
  qed
qed

section \<open>Inserting at the place found\<close>

lemma new_leaf:
  assumes c: "ctx h 0 fs" "ctx_distinct fs" and x: "x \<noteq> 0" "x \<notin> ctx_set fs"
  defines "h1 \<equiv> write_ptr (slot fs) x (upd_node x (\<lambda>n. n\<lparr>bn_rank := 1, bn_parent := parent_ctx fs, bn_child := \<lambda>_. 0\<rparr>) h)"
  shows "at h1 x (mk False Leaf x 1 Leaf) fs" "same_outside (insert x (ctx_set fs)) h h1"
proof -
  let ?h = "upd_node x (\<lambda>n. n\<lparr>bn_rank := 1, bn_parent := parent_ctx fs, bn_child := \<lambda>_. 0\<rparr>) h"
  have "ctx ?h 0 fs = ctx h 0 fs" using x(2) by (intro ctx_cong) auto
  with c have "ctx ?h 0 fs" by simp
  note w = write_slot [OF this c(2), of x]
  have "bst_nodes h1 x = (bst_nodes h x)\<lparr>bn_rank := 1, bn_parent := parent_ctx fs, bn_child := \<lambda>_. 0\<rparr>"
    using w(2) x(2) by (simp add: h1_def same_outside_def)
  with w(1) c(2) x show "at h1 x (mk False Leaf x 1 Leaf) fs" by (simp add: at_def h1_def distinct_plug)
  from w(2) show "same_outside (insert x (ctx_set fs)) h h1" by (auto simp: h1_def same_outside_def)
qed

text \<open>What an insertion of \<open>x\<close> returns: it refuses if a node matches.\<close>

definition insertion :: "(addr \<Rightarrow> addr \<Rightarrow> int) \<Rightarrow> addr \<Rightarrow> addr list \<Rightarrow> addr list \<Rightarrow> addr list \<Rightarrow> bst \<Rightarrow> bool \<times> bst \<Rightarrow> bool" where
  "insertion compare x us xs vs h res \<longleftrightarrow>
     (case res of (False, h') \<Rightarrow> h' = h \<and> (\<exists>a \<in> set xs. compare a x = 0)
      | (True, h') \<Rightarrow> (\<forall>a \<in> set xs. compare a x \<noteq> 0) \<and>
          balanced h (us @ filter (\<lambda>a. 0 < compare a x) xs @ x # filter (\<lambda>a. compare a x < 0) xs @ vs) h')"

text \<open>Nodes on the far side of a node that does not match.\<close>

lemma insertion_right:
  "0 < compare a x \<Longrightarrow> \<forall>b \<in> set ls. 0 < compare b x \<Longrightarrow> insertion compare x (us @ ls @ [a]) xs vs h res \<Longrightarrow>
     insertion compare x us (ls @ a # xs) vs h res"
proof -
  assume a: "0 < compare a x" "\<forall>b \<in> set ls. 0 < compare b x" "insertion compare x (us @ ls @ [a]) xs vs h res"
  then have "filter (\<lambda>b. 0 < compare b x) ls = ls" "filter (\<lambda>b. compare b x < 0) ls = []"
    by (fastforce simp: filter_id_conv filter_empty_conv)+
  with a show ?thesis by (cases res) (auto simp: insertion_def split: bool.splits)
qed

lemma insertion_left:
  "compare a x < 0 \<Longrightarrow> \<forall>b \<in> set rs. compare b x < 0 \<Longrightarrow> insertion compare x us xs (a # rs @ vs) h res \<Longrightarrow>
     insertion compare x us (xs @ a # rs) vs h res"
proof -
  assume a: "compare a x < 0" "\<forall>b \<in> set rs. compare b x < 0" "insertion compare x us xs (a # rs @ vs) h res"
  then have "filter (\<lambda>b. compare b x < 0) rs = rs" "filter (\<lambda>b. 0 < compare b x) rs = []"
    by (fastforce simp: filter_id_conv filter_empty_conv)+
  with a show ?thesis by (cases res) (auto simp: insertion_def split: bool.splits)
qed

lemma insert_loop_ok:
  assumes "at h (read_ptr h (slot fs)) t fs" "wavl (plug t fs)" "x \<noteq> 0" "x \<notin> set (addrs (plug t fs))"
    "falls (\<lambda>a. compare a x) (addrs t)"
  shows "\<exists>res. insert_loop h x compare (parent_ctx fs) (slot fs) = Some (Inr res) \<and>
    insertion compare x (before_hole fs) (addrs t) (after_hole fs) h res"
  using assms
proof (induction t arbitrary: fs)
  case Leaf
  then have r: "read_ptr h (slot fs) = 0" "ctx h 0 fs" "ctx_distinct fs" "x \<notin> ctx_set fs" by (auto simp: at_def distinct_plug set_plug)
  define h1 where "h1 = write_ptr (slot fs) x (upd_node x (\<lambda>n. n\<lparr>bn_rank := 1, bn_parent := parent_ctx fs, bn_child := \<lambda>_. 0\<rparr>) h)"
  note l = new_leaf [OF r(2,3) Leaf.prems(3) r(4), folded h1_def]
  have "promoted (mk False Leaf x 1 Leaf)" by (simp add: promoted_def)
  from update_insert_loop_ok [OF l(1) this] Leaf.prems(2) obtain h' where
    h': "update_insert_loop h1 x = Some (Inr h')" "balanced h1 (addrs (plug (mk False Leaf x 1 Leaf) fs)) h'"
    by (auto simp: wavl_plug)
  have "rank_of h1 x = 1" using l(1) by (simp add: at_def)
  with r h' Leaf.prems(3) have "insert_loop h x compare (parent_ctx fs) (slot fs) = Some (Inr (True, h'))"
    by (subst insert_loop.simps) (simp add: bst_update_rank_insert_def h1_def [symmetric] del: One_nat_def)
  moreover have "addrs (plug (mk False Leaf x 1 Leaf) fs) = before_hole fs @ x # after_hole fs" by (simp add: addrs_plug addrs_mk)
  moreover have "insert x (ctx_set fs) = set (before_hole fs @ x # after_hole fs)"
    using set_plug [of Leaf fs] by (simp add: addrs_plug)
  ultimately show ?case using h'(2) l(2) balanced_trans by (auto simp: insertion_def)
next
  case (Node l ar s)
  obtain a r where ar: "ar = (a, r)" by fastforce
  let ?p = "read_ptr h (slot fs)"
  have p: "?p = a" "a \<noteq> 0" using Node.prems(1) ar by (auto simp: at_def)
  from Node.prems(5) ar have f: "falls (\<lambda>a. compare a x) (addrs l @ a # addrs s)" by simp
  note f' = falls_Node [OF f]
  have eq: "Node l ar s = mk True s a r l" "Node l ar s = mk False l a r s" using ar by (simp_all add: mk_def)
  consider "compare a x = 0" | "0 < compare a x" | "compare a x < 0" by linarith
  then show ?case
  proof cases
    case 1
    with p ar show ?thesis by (subst insert_loop.simps) (simp add: insertion_def)
  next
    case 2
    let ?fs = "(True, a, r, l) # fs"
    have "insert_loop h x compare (parent_ctx fs) (slot fs) = insert_loop h x compare (parent_ctx ?fs) (slot ?fs)"
      using p 2 by (subst insert_loop.simps) (simp add: slot_def)
    moreover have "at h (read_ptr h (slot ?fs)) s ?fs" using at_down [OF Node.prems(1) [unfolded eq(1)]] by (simp add: slot_def)
    from Node.IH(2) [OF this] Node.prems(2-4) f' eq(1) obtain res where
      "insert_loop h x compare (parent_ctx ?fs) (slot ?fs) = Some (Inr res)"
      "insertion compare x (before_hole ?fs) (addrs s) (after_hole ?fs) h res" by auto
    ultimately show ?thesis using insertion_right [of compare a x "addrs l"] f' 2 ar by simp
  next
    case 3
    let ?fs = "(False, a, r, s) # fs"
    have "insert_loop h x compare (parent_ctx fs) (slot fs) = insert_loop h x compare (parent_ctx ?fs) (slot ?fs)"
      using p 3 by (subst insert_loop.simps) (simp add: slot_def)
    moreover have "at h (read_ptr h (slot ?fs)) l ?fs" using at_down [OF Node.prems(1) [unfolded eq(2)]] by (simp add: slot_def)
    from Node.IH(1) [OF this] Node.prems(2-4) f' eq(2) obtain res where
      "insert_loop h x compare (parent_ctx ?fs) (slot ?fs) = Some (Inr res)"
      "insertion compare x (before_hole ?fs) (addrs l) (after_hole ?fs) h res" by auto
    ultimately show ?thesis using insertion_left [of compare a x "addrs s"] f' 3 ar by simp
  qed
qed

lemma bst_insert_falls:
  assumes t: "bst_tree h t" "wavl t" and x: "x \<noteq> 0" "x \<notin> set (addrs t)" "rank_of h x = 0"
    and f: "falls (\<lambda>a. compare a x) (addrs t)"
  shows "\<exists>res. bst_insert h x compare = Some (Inr res) \<and> insertion compare x [] (addrs t) [] h res"
proof -
  have "at h (read_ptr h (slot [])) t []" using t(1) by (simp add: at_top slot_def)
  from insert_loop_ok [OF this, of x compare] t(2) x f show ?thesis by (simp add: bst_insert_def slot_def)
qed

section \<open>The contract of a comparison\<close>

text \<open>Nodes in the order of a comparison, all of them nodes it is used on, and the tree that holds them.\<close>

definition ordered :: "(addr \<Rightarrow> addr \<Rightarrow> int) \<Rightarrow> (addr \<Rightarrow> bool) \<Rightarrow> addr list \<Rightarrow> bool" where
  "ordered compare valid xs \<longleftrightarrow> sorted_wrt (\<lambda>a b. 0 < compare a b) xs \<and> (\<forall>a \<in> set xs. valid a)"

definition bst_ok :: "(addr \<Rightarrow> addr \<Rightarrow> int) \<Rightarrow> (addr \<Rightarrow> bool) \<Rightarrow> bst \<Rightarrow> addr list \<Rightarrow> bool" where
  "bst_ok compare valid h xs \<longleftrightarrow> (\<exists>t. bst_tree h t \<and> wavl t \<and> addrs t = xs) \<and> ordered compare valid xs"

text \<open>
  A comparison on the nodes that may be in a tree together: strict order where it is not 0. Nodes that
  match need not be equal, and matching need not be transitive.
\<close>

locale bst_order =
  fixes compare :: "addr \<Rightarrow> addr \<Rightarrow> int" and valid :: "addr \<Rightarrow> bool"
  assumes turn: "valid a \<Longrightarrow> valid b \<Longrightarrow> 0 < compare a b \<longleftrightarrow> compare b a < 0"
    and chain: "valid a \<Longrightarrow> valid b \<Longrightarrow> valid c \<Longrightarrow> 0 < compare a b \<Longrightarrow> 0 < compare b c \<Longrightarrow> 0 < compare a c"
begin

lemma ordered_falls:
  assumes "ordered compare valid xs" "valid x"
  shows "falls (\<lambda>a. compare a x) xs"
  unfolding falls_def
proof (rule sorted_wrt_mono_rel)
  show "sorted_wrt (\<lambda>a b. 0 < compare a b) xs" using assms by (simp add: ordered_def)
  fix a b
  assume m: "a \<in> set xs" "b \<in> set xs" "0 < compare a b"
  with assms have v: "valid a" "valid b" by (simp_all add: ordered_def)
  show "(0 < compare b x \<longrightarrow> 0 < compare a x) \<and> (compare a x < 0 \<longrightarrow> compare b x < 0)"
    using chain [OF v assms(2) m(3)] chain [OF assms(2) v] m(3) turn [OF assms(2) v(1)] turn [OF assms(2) v(2)] by blast
qed

lemma ordered_insert:
  assumes "ordered compare valid xs" "valid x" "\<forall>a \<in> set xs. compare a x \<noteq> 0"
  shows "ordered compare valid (filter (\<lambda>a. 0 < compare a x) xs @ x # filter (\<lambda>a. compare a x < 0) xs)"
proof -
  have "0 < compare a b" if "a \<in> set xs" "b \<in> set xs" "0 < compare a x" "compare b x < 0" for a b
    using that assms chain [of a x b] turn [of x b] by (auto simp: ordered_def)
  moreover have "0 < compare x b" if "b \<in> set xs" "compare b x < 0" for b
    using that assms turn [of x b] by (auto simp: ordered_def)
  ultimately show ?thesis using assms by (auto simp: ordered_def sorted_wrt_append sorted_wrt_filter)
qed

lemma ordered_remove: "ordered compare valid (xs @ x # ys) \<Longrightarrow> ordered compare valid (xs @ ys)"
  by (auto simp: ordered_def sorted_wrt_append)

lemma bst_search_ok:
  assumes "bst_ok compare valid h xs" "valid x" "x \<noteq> 0"
  shows "\<exists>n. bst_search h x compare = Some (Inr n) \<and>
    (if n = 0 then \<forall>a \<in> set xs. compare a x \<noteq> 0 else n \<in> set xs \<and> compare n x = 0)"
proof -
  from assms(1) obtain t where t: "bst_tree h t" "addrs t = xs" "ordered compare valid xs" by (auto simp: bst_ok_def)
  have "rep h 0 (bst_root h) t" "falls (\<lambda>a. compare a x) (addrs t)"
    using t ordered_falls [OF t(3) assms(2)] by (simp_all add: bst_tree_def)
  from search_loop_ok [OF this, unfolded t(2)] obtain n where "search_loop h (\<lambda>a. compare a x) (bst_root h) = Some n"
    "if n = 0 then \<forall>a \<in> set xs. compare a x \<noteq> 0 else n \<in> set xs \<and> compare n x = 0" by blast
  with assms(3) show ?thesis by (simp add: bst_search_def)
qed

lemma bst_insert_ok:
  assumes b: "bst_ok compare valid h xs" and x: "valid x" "x \<noteq> 0" "x \<notin> set xs" "rank_of h x = 0"
  shows "\<exists>inserted h'. bst_insert h x compare = Some (Inr (inserted, h')) \<and>
    (inserted \<longleftrightarrow> (\<forall>a \<in> set xs. compare a x \<noteq> 0)) \<and> same_outside (insert x (set xs)) h h' \<and>
    (if inserted then bst_ok compare valid h' (filter (\<lambda>a. 0 < compare a x) xs @ x # filter (\<lambda>a. compare a x < 0) xs) else h' = h)"
proof -
  from b obtain t where t: "bst_tree h t" "wavl t" "addrs t = xs" "ordered compare valid xs" by (auto simp: bst_ok_def)
  let ?ys = "filter (\<lambda>a. 0 < compare a x) xs @ x # filter (\<lambda>a. compare a x < 0) xs"
  obtain i h' where r: "bst_insert h x compare = Some (Inr (i, h'))" "insertion compare x [] xs [] h (i, h')"
    using bst_insert_falls [OF t(1,2) x(2) _ x(4), of compare] t(3) x(3) ordered_falls [OF t(4) x(1)] by auto
  have "set ?ys \<subseteq> insert x (set xs)" by auto
  then have "same_outside (insert x (set xs)) h h'" if "balanced h ?ys h'"
    using that by (auto simp: balanced_def same_outside_def)
  moreover have "bst_ok compare valid h' ?ys" if "balanced h ?ys h'" "\<forall>a \<in> set xs. compare a x \<noteq> 0"
    using that ordered_insert [OF t(4) x(1)] by (auto simp: balanced_def bst_ok_def)
  moreover have "(if i then (\<forall>a \<in> set xs. compare a x \<noteq> 0) \<and> balanced h ?ys h' else h' = h \<and> (\<exists>a \<in> set xs. compare a x = 0))"
    using r(2) by (cases i) (simp_all add: insertion_def)
  ultimately show ?thesis using r(1) by (cases i) auto
qed

end

end
