(* ===== verification/Bst_Delete.thy ===== *)
theory Bst_Delete
  imports Bst_Search
begin

text \<open>
  Deletion: a node with two children changes places with a neighbour in the order; then
  \<^verbatim>\<open>bst_update_rank_delete\<close> walks up from the place where a subtree has lost a rank, demoting nodes, until
  the tree is a weak AVL tree again or one single or double rotation makes it one.
\<close>

section \<open>The rotations\<close>

lemma rotate_delete_double:
  assumes a: "at h down (mk d (mk d A up1 (k + 1) B) down (k + 2) S) fs"
    and w: "wavl A" "wavl B" "wavl S" "rk A + 1 = k" "rk B = k" "rk S + 1 = k"
  shows "okE (rebalanced h (mk d (mk d A up1 (k + 1) B) down (k + 2) S) fs (k + 2)) (bst_rotate_delete h up1 down d)"
proof -
  have "B \<noteq> Leaf" using w by auto
  then obtain X up2 Y where B: "B = mk (\<not> d) X up2 k Y" using w(5) by (metis mk_cases mk_simps(2))
  note w' = w [unfolded B wavl_mk mk_simps]
  let ?t = "mk d (mk d A up1 (k + 1) B) down (k + 2) S"
  have rep: "rank_of h down = k + 2" "child_of h down d = up1" "rank_of h up1 = k + 1" "rep h down (child_of h down (\<not> d)) S"
    "rep h up1 (child_of h up1 d) A" "child_of h up1 (\<not> d) = up2" "rank_of h up2 = k" "up2 \<noteq> 0" "up1 \<noteq> up2" "down \<noteq> up2" "up1 \<noteq> down"
    using a by (auto simp: at_def B distinct_plug)
  from rotate_twice [OF a [unfolded B]] obtain h1 where h1: "bst_rotate h up2 up1 (\<not> d) = Inr h1"
    "at h1 down (mk d (mk d (mk d A up1 (k + 1) Y) up2 k X) down (k + 2) S) fs" "same_outside (set (addrs ?t) \<union> ctx_set fs) h h1"
    by (auto simp: B)
  from bst_rotate_ok [OF h1(2)] obtain h2 where h2: "bst_rotate h1 up2 down d = Inr h2"
    "at h2 up2 (mk d (mk d A up1 (k + 1) Y) up2 k (mk d X down (k + 2) S)) fs"
    "same_outside (set (addrs (mk d A up1 (k + 1) Y)) \<union> set (addrs X) \<union> set (addrs S) \<union> {up2, down} \<union> ctx_set fs) h1 h2"
    by blast
  let ?h = "set_rank down k (set_rank up1 k (set_rank up2 (k + 2) h2))"
  have rk: "rank_of h2 up2 = k" "rank_of h2 up1 = k + 1" "rank_of h2 down = k + 2" using h2(2) by (auto simp: at_def)
  have "bst_rotate_delete h up1 down d = Inr ?h"
    using rep rep_rank [OF rep(4)] rep_rank [OF rep(5)] w h1(1) h2(1) rk
    by (auto simp: bst_rotate_delete_def bst_node_rank_def size_sub_def Let_def)
  moreover have "at ?h up2 (mk d (mk d A up1 k Y) up2 (k + 2) (mk d X down k S)) fs"
    by (intro at_set_rank_other at_set_rank_child at_set_rank) (rule h2(2))
  then have "rebalanced h ?t fs (k + 2) ?h"
  proof (rule rebalancedI)
    show "wavl (mk d (mk d A up1 k Y) up2 (k + 2) (mk d X down k S))"
      using w' wavl_rk [OF w(1)] wavl_rk [OF w(3)] by auto
    show "same_outside (set (addrs ?t) \<union> ctx_set fs) h ?h" using h1(3) h2(3) by (auto simp: same_outside_def B)
  qed (auto simp: mk_def B)
  ultimately show ?thesis by simp
qed

lemma rotate_delete_single:
  assumes a: "at h down (mk d (mk d A up1 (k + 1) B) down (k + 2) S) fs"
    and w: "wavl A" "wavl B" "wavl S" "rk A = k" "rk B = k \<or> rk B + 1 = k" "rk S + 1 = k"
  shows "okE (rebalanced h (mk d (mk d A up1 (k + 1) B) down (k + 2) S) fs (k + 2)) (bst_rotate_delete h up1 down d)"
proof -
  let ?t = "mk d (mk d A up1 (k + 1) B) down (k + 2) S" and ?r = "if rk B + 1 = k then k else k + 1"
  have rep: "rank_of h down = k + 2" "child_of h down d = up1" "rank_of h up1 = k + 1" "rep h down (child_of h down (\<not> d)) S"
    "rep h up1 (child_of h up1 d) A" "up1 \<noteq> down" using a by (auto simp: at_def distinct_plug)
  from bst_rotate_ok [OF a] obtain h1 where h1: "bst_rotate h up1 down d = Inr h1"
    "at h1 up1 (mk d A up1 (k + 1) (mk d B down (k + 2) S)) fs"
    "same_outside (set (addrs A) \<union> set (addrs B) \<union> set (addrs S) \<union> {up1, down} \<union> ctx_set fs) h h1" by blast
  let ?h2 = "set_rank down (k + 1) (set_rank up1 (k + 2) h1)"
  have a2: "at ?h2 up1 (mk d A up1 (k + 2) (mk d B down (k + 1) S)) fs"
    by (intro at_set_rank_other at_set_rank) (rule h1(2))
  then have "rep ?h2 down (child_of ?h2 down d) B" "rep ?h2 down (child_of ?h2 down (\<not> d)) S" by (auto simp: at_def)
  from this [THEN rep_rank] have cs: "bst_node_rank ?h2 (child_of ?h2 down d) = rk B" "bst_node_rank ?h2 (child_of ?h2 down (\<not> d)) = rk S" .
  have leaf: "bst_node_rank ?h2 (child_of ?h2 down False) = k - 1 \<and> bst_node_rank ?h2 (child_of ?h2 down True) = k - 1 \<longleftrightarrow> rk B + 1 = k"
    using cs w(5,6) by (cases d) auto
  have rk: "rank_of h1 up1 = k + 1" "rank_of h1 down = k + 2" using h1(2) by (auto simp: at_def)
  have eq: "set_rank down k ?h2 = set_rank down k (set_rank up1 (k + 2) h1)" by (simp add: upd_node_def)
  have "bst_rotate_delete h up1 down d = Inr (set_rank down ?r (set_rank up1 (k + 2) h1))"
    using rep rep_rank [OF rep(4)] rep_rank [OF rep(5)] w h1(1) rk leaf eq
    by (auto simp: bst_rotate_delete_def size_sub_def Let_def)
  moreover have "at (set_rank down ?r (set_rank up1 (k + 2) h1)) up1 (mk d A up1 (k + 2) (mk d B down ?r S)) fs"
    by (intro at_set_rank_other at_set_rank) (rule h1(2))
  then have "rebalanced h ?t fs (k + 2) (set_rank down ?r (set_rank up1 (k + 2) h1))"
  proof (rule rebalancedI)
    show "wavl (mk d A up1 (k + 2) (mk d B down ?r S))" using w wavl_rk [OF w(2)] by auto
    show "same_outside (set (addrs ?t) \<union> ctx_set fs) h (set_rank down ?r (set_rank up1 (k + 2) h1))"
      using h1(3) by (auto simp: same_outside_def)
  qed (auto simp: mk_def)
  ultimately show ?thesis by simp
qed

section \<open>Walking up\<close>

text \<open>The cases of one turn: the subtree \<open>t\<close> in the direction \<open>d\<close> of \<open>b\<close> has lost a rank.\<close>

lemma delete_step_leaf:
  assumes a: "at h p Leaf ((d, b, 2, Leaf) # fs)"
  shows "update_delete_step h b d = Inr (set_rank b 1 h, True)"
  using a by (cases d) (auto simp: at_def update_delete_step_def bst_node_rank_def size_sub_def Let_def)

lemma delete_step_stop:
  assumes a: "at h p t ((d, b, rk t + 2, s) # fs)" and w: "rk s < rk t + 2" "rk t \<le> rk s" "t \<noteq> Leaf \<or> s \<noteq> Leaf"
  shows "update_delete_step h b d = Inr (h, False)"
proof -
  from a have rep: "rep h b (child_of h b d) t" "rep h b (child_of h b (\<not> d)) s" "rank_of h b = rk t + 2" by (auto simp: at_def)
  from rep_root [OF rep(1)] rep_root [OF rep(2)] w(3) have "\<not> (child_of h b False = 0 \<and> child_of h b True = 0)" by (cases d) auto
  with rep(3) rep_rank [OF rep(1)] rep_rank [OF rep(2)] w show ?thesis
    by (auto simp: update_delete_step_def size_sub_def Let_def)
qed

lemma delete_step_demote:
  assumes a: "at h p t ((d, b, rk t + 3, s) # fs)" and w: "rk s = rk t + 1"
  shows "update_delete_step h b d = Inr (set_rank b (rk t + 2) h, True)"
proof -
  let ?h = "set_rank b (rk t + 2) h"
  from at_up [OF a] have "at ?h b (mk d t b (rk t + 2) s) fs" using at_set_rank by blast
  then have rep': "rep ?h b (child_of ?h b (\<not> d)) s" by (auto simp: at_def)
  from a have rep: "rep h b (child_of h b d) t" "rep h b (child_of h b (\<not> d)) s" "rank_of h b = rk t + 3" by (auto simp: at_def)
  have "s \<noteq> Leaf" using w by auto
  with rep_root [OF rep(2)] have "child_of h b (\<not> d) \<noteq> 0" by simp
  then have "\<not> (child_of h b False = 0 \<and> child_of h b True = 0)" by (cases d) auto
  with rep(3) rep_rank [OF rep(1)] rep_rank [OF rep(2)] rep_rank [OF rep'] w show ?thesis
    by (auto simp: update_delete_step_def size_sub_def Let_def)
qed

lemma delete_step_sibling:
  assumes a: "at h p t ((d, b, rk t + 3, mk (\<not> d) A c (rk t + 2) B) # fs)"
  shows "if rk A = rk t \<and> rk B = rk t
    then update_delete_step h b d = Inr (set_rank c (rk t + 1) (set_rank b (rk t + 2) h), True)
    else update_delete_step h b d =
      bindE (bst_rotate_delete (set_rank b (rk t + 3) (set_rank b (rk t + 2) h)) c b (\<not> d)) (\<lambda>h2. Inr (h2, False))"
proof -
  let ?h = "set_rank b (rk t + 2) h" and ?s = "mk (\<not> d) A c (rk t + 2) B"
  from at_up [OF a] have "at ?h b (mk d t b (rk t + 2) ?s) fs" using at_set_rank by blast
  then have rep': "rep ?h b (child_of ?h b (\<not> d)) ?s" "rep ?h c (child_of ?h c (\<not> d)) A" "rep ?h c (child_of ?h c d) B"
    by (auto simp: at_def)
  from a have rep: "rep h b (child_of h b d) t" "rep h b (child_of h b (\<not> d)) ?s" "rank_of h b = rk t + 3"
    "child_of h b (\<not> d) = c" "c \<noteq> 0" "b \<noteq> c" "rank_of h c = rk t + 2" by (auto simp: at_def distinct_plug)
  have nl: "\<not> (child_of h b False = 0 \<and> child_of h b True = 0)" using rep(4,5) by (cases d) auto
  have both: "bst_node_rank ?h (child_of ?h c False) = rk t \<and> bst_node_rank ?h (child_of ?h c True) = rk t \<longleftrightarrow> rk A = rk t \<and> rk B = rk t"
    using rep' [THEN rep_rank] by (cases d) auto
  show ?thesis
    using nl rep(3-7) rep_rank [OF rep(1)] rep_rank [OF rep(2)] rep_rank [OF rep'(1)] both
    by (auto simp: update_delete_step_def size_sub_def Let_def numeral_3_eq_3)
qed

lemma update_delete_loop_ok:
  assumes "at h p t fs" "wavl t" "wavl_ctx (rk t + 1) fs"
  shows "\<exists>h'. update_delete_loop h (parent_ctx fs) (side fs) = Some (Inr h') \<and> balanced h (addrs (plug t fs)) h'"
  using assms
proof (induction fs arbitrary: h p t)
  case Nil
  then show ?case by (subst update_delete_loop.simps) (auto intro!: balancedI)
next
  case (Cons f fs)
  obtain d b r s where f: "f = (d, b, r, s)" by (cases f) auto
  note a = Cons.prems(1) [unfolded f]
  let ?k = "rk t"
  from Cons.prems(3) f have k: "wavl s" "?k + 1 < r" "r \<le> ?k + 3" "rk s < r" "r \<le> rk s + 2" "wavl_ctx r fs" by auto
  have b: "b \<noteq> 0" using a by (simp add: at_def)
  note up = at_up [OF a]
  have next_turn: ?case
    if st: "update_delete_step h b d = Inr (h1, True)" and a1: "at h1 b (mk d t b r1 s1) fs"
      and w1: "wavl (mk d t b r1 s1)" "r1 + 1 = r" "addrs s1 = addrs s" "same_outside (insert b (set (addrs s))) h h1" for h1 r1 s1
  proof -
    have nb: "b \<notin> ctx_set fs" using a1 by (auto simp: at_def distinct_plug)
    have c1: "ctx h1 b fs" "parent_of h1 b = parent_ctx fs" using a1 by (auto simp: at_def)
    from Cons.IH [OF a1] w1(1,2) k(6) obtain h' where
      h': "update_delete_loop h1 (parent_ctx fs) (side fs) = Some (Inr h')" "balanced h1 (addrs (plug (mk d t b r1 s1) fs)) h'" by auto
    have "update_delete_loop h b d = Some (Inr h')"
      using b st bst_is_right_child_ok [OF c1(1) b c1(2) nb] h'(1) c1(2) by (subst update_delete_loop.simps) simp
    moreover have "addrs (plug (mk d t b r1 s1) fs) = addrs (plug t (f # fs))" using f w1(3) by (simp add: addrs_plug addrs_mk)
    moreover have "same_outside (set (addrs (plug t (f # fs)))) h h1" using f w1(4) by (auto simp: same_outside_def set_plug)
    ultimately show ?thesis using f h'(2) balanced_trans by auto
  qed
  consider (leaf) "t = Leaf" "s = Leaf" | (stop) "r = ?k + 2" "t \<noteq> Leaf \<or> s \<noteq> Leaf"
    | (demote) "r = ?k + 3" "rk s = ?k + 1" | (sibling) "r = ?k + 3" "rk s = ?k + 2"
    using k by fastforce
  then show ?case
  proof cases
    case leaf
    with k have r: "r = 2" by simp
    from delete_step_leaf [of h p d b fs] a leaf r have "update_delete_step h b d = Inr (set_rank b 1 h, True)" by simp
    moreover have "at (set_rank b 1 h) b (mk d t b 1 s) fs" using up at_set_rank by blast
    ultimately show ?thesis using leaf r by (intro next_turn) (auto simp: same_outside_def)
  next
    case stop
    have "wavl (plug t (f # fs))" using f k stop Cons.prems(2) wavl_rk [of t] by (auto simp: wavl_plug)
    moreover have "update_delete_loop h b d = Some (Inr h)"
      using delete_step_stop [of h p t d b s fs] a k stop b by (subst update_delete_loop.simps) simp
    ultimately show ?thesis using Cons.prems(1) f by (auto intro!: balancedI)
  next
    case demote
    from delete_step_demote [of h p t d b s fs] a demote have "update_delete_step h b d = Inr (set_rank b (?k + 2) h, True)" by simp
    moreover have "at (set_rank b (?k + 2) h) b (mk d t b (?k + 2) s) fs" using up at_set_rank by blast
    ultimately show ?thesis using demote k Cons.prems(2) by (intro next_turn) (auto simp: same_outside_def)
  next
    case sibling
    then have "s \<noteq> Leaf" by auto
    then obtain A c B where s: "s = mk (\<not> d) A c (?k + 2) B" using sibling(2) by (metis mk_cases mk_simps(2))
    from k(1) s have w: "wavl A" "wavl B" "rk A = ?k \<or> rk A = ?k + 1" "rk B = ?k \<or> rk B = ?k + 1" by auto
    note st = delete_step_sibling [OF a [unfolded s sibling(1)]]
    show ?thesis
    proof (cases "rk A = ?k \<and> rk B = ?k")
      case True
      let ?h1 = "set_rank b (?k + 2) h"
      have "at ?h1 b (mk d t b (?k + 2) (mk (\<not> d) A c (?k + 2) B)) fs" using up at_set_rank s by blast
      from at_set_rank_other [OF this, of "?k + 1"]
      have "at (set_rank c (?k + 1) ?h1) b (mk d t b (?k + 2) (mk (\<not> d) A c (?k + 1) B)) fs" .
      moreover from st True have "update_delete_step h b d = Inr (set_rank c (?k + 1) ?h1, True)" by simp
      ultimately show ?thesis using True w s sibling Cons.prems(2)
        by (intro next_turn) (auto simp: same_outside_def addrs_mk)
    next
      case False
      let ?h0 = "set_rank b (?k + 3) (set_rank b (?k + 2) h)"
      have h0: "?h0 = set_rank b (?k + 3) h" by (simp add: upd_node_def)
      have "at ?h0 b (mk d t b (?k + 3) s) fs" unfolding h0 using up sibling at_set_rank by blast
      then have "at ?h0 b (mk (\<not> d) (mk (\<not> d) A c ((?k + 1) + 1) B) b ((?k + 1) + 2) t) fs"
        by (simp add: s mk_flip [of d t] numeral_3_eq_3)
      from rotate_delete_single [OF this] rotate_delete_double [OF this] w False Cons.prems(2)
      have "okE (rebalanced ?h0 (mk (\<not> d) s b (?k + 3) t) fs (?k + 3)) (bst_rotate_delete ?h0 c b (\<not> d))"
        by (auto simp: s numeral_3_eq_3)
      then obtain h' where h': "bst_rotate_delete ?h0 c b (\<not> d) = Inr h'" "rebalanced ?h0 (mk d t b r s) fs r h'"
        using sibling(1) by (auto simp: okE_iff_ex mk_flip [of d t])
      have "update_delete_loop h b d = Some (Inr h')"
        using st False h'(1) b by (subst update_delete_loop.simps) auto
      moreover have "balanced ?h0 (addrs (plug t (f # fs))) h'" using rebalanced_balanced [OF h'(2) k(6)] f by simp
      moreover have "same_outside (set (addrs (plug t (f # fs)))) h ?h0" using f by (auto simp: same_outside_def set_plug)
      ultimately show ?thesis using f balanced_trans by auto
    qed
  qed
qed

text \<open>The start of the walk.\<close>

definition finish_delete :: "bst \<Rightarrow> frame list \<Rightarrow> bst res option" where
  "finish_delete h fs = (if parent_ctx fs \<noteq> 0 then bst_update_rank_delete h (parent_ctx fs) (side fs) else Some (Inr h))"

lemma finish_delete_ok:
  assumes a: "at h p t fs" and w: "wavl t" "wavl_ctx (rk t + 1) fs"
  shows "\<exists>h'. finish_delete h fs = Some (Inr h') \<and> balanced h (addrs (plug t fs)) h'"
proof (cases fs)
  case Nil
  with a w show ?thesis by (auto simp: finish_delete_def intro!: balancedI)
next
  case (Cons f gs)
  obtain d b r s where f: "f = (d, b, r, s)" by (cases f) auto
  with a w Cons have rep: "rep h b (child_of h b d) t" "rep h b (child_of h b (\<not> d)) s" "b \<noteq> 0" and k: "rk t \<le> rk s"
    by (auto simp: at_def)
  with rep_rank [OF rep(1)] rep_rank [OF rep(2)] Cons f have "finish_delete h fs = update_delete_loop h (parent_ctx fs) (side fs)"
    by (simp add: finish_delete_def bst_update_rank_delete_def)
  with update_delete_loop_ok [OF a w] show ?thesis by simp
qed

section \<open>Taking a node out\<close>

text \<open>A node with one child at most is replaced by that child.\<close>

lemma unlink_ok:
  assumes a: "at h e (mk d Leaf e r X) fs"
  shows "\<exists>h'. bst_move_node h e (child_of h e (\<not> d)) = Inr h' \<and> at h' (child_of h e (\<not> d)) X fs \<and>
    bst_nodes h' e = (bst_nodes h e)\<lparr>bn_parent := 0\<rparr> \<and> same_outside (insert e (set (addrs X) \<union> ctx_set fs)) h h'"
proof -
  let ?n = "child_of h e (\<not> d)"
  from a have c: "ctx h e fs" "ctx_distinct fs" and e: "e \<noteq> 0" "parent_of h e = parent_ctx fs" "e \<notin> ctx_set fs"
    and X: "rep h e ?n X" "e \<notin> set (addrs X)" "distinct (addrs X)" "set (addrs X) \<inter> ctx_set fs = {}"
    by (auto simp: at_def distinct_plug)
  have n: "?n \<noteq> 0 \<Longrightarrow> ?n \<in> set (addrs X)" using rep_root [OF X(1)] by simp
  have "?n \<notin> ctx_set fs" "?n \<noteq> e" using n X(2,4) ctx_null [OF c(1)] e(1) by (metis disjoint_iff)+
  from bst_move_node_ok [OF c e this] obtain h' where h': "bst_move_node h e ?n = Inr h'" "ctx h' ?n fs"
    "same_outside (insert e (insert ?n (ctx_set fs))) h h'" "bst_nodes h' e = (bst_nodes h e)\<lparr>bn_parent := 0\<rparr>"
    "bst_nodes h' ?n = (if ?n \<noteq> 0 then (bst_nodes h ?n)\<lparr>bn_parent := parent_ctx fs\<rparr> else bst_nodes h ?n)" by blast
  have "rep h' (parent_ctx fs) ?n X"
  proof (rule rep_reparent [OF X(1,3)])
    show "bst_nodes h' x = bst_nodes h x" if "x \<in> set (addrs X)" "x \<noteq> ?n" for x
      using that h'(3) X(2,4) by (auto simp: same_outside_def)
  qed (use h'(5) in simp)
  with h'(2) X c(2) have "at h' ?n X fs" by (simp add: at_def distinct_plug)
  moreover have "same_outside (insert e (set (addrs X) \<union> ctx_set fs)) h h'"
    unfolding same_outside_def
  proof (intro allI impI)
    fix x assume "x \<notin> insert e (set (addrs X) \<union> ctx_set fs)"
    then show "bst_nodes h' x = bst_nodes h x" using h'(3,5) n by (cases "x = ?n") (auto simp: same_outside_def)
  qed
  ultimately show ?thesis using h'(1,4) by blast
qed

text \<open>A node outside the tree takes the place of a node in it.\<close>

lemma replace_ok:
  assumes a: "at h x (mk d S x r R) fs" and e: "e \<noteq> 0" "e \<notin> set (addrs (plug (mk d S x r R) fs))"
  defines "h2 \<equiv> bst_link_node e False (child_of h x False) h"
  defines "h3 \<equiv> bst_link_node e True (child_of h2 x True) h2"
  defines "h4 \<equiv> set_rank e (rank_of h3 x) h3"
  shows "\<exists>h'. bst_move_node h4 x e = Inr h' \<and> at (set_rank x 0 h') e (mk d S e r R) fs \<and>
    same_outside (insert e (set (addrs (plug (mk d S x r R) fs)))) h (set_rank x 0 h')"
proof -
  let ?c = "child_of h x"
  from a have rep: "rep h x (?c d) S" "rep h x (?c (\<not> d)) R" "x \<noteq> 0" "rank_of h x = r" "parent_of h x = parent_ctx fs"
    and c: "ctx h x fs" "ctx_distinct fs"
    and dis: "x \<notin> set (addrs S)" "x \<notin> set (addrs R)" "x \<notin> ctx_set fs" "distinct (addrs S)" "distinct (addrs R)"
      "set (addrs S) \<inter> set (addrs R) = {}" "set (addrs S) \<inter> ctx_set fs = {}" "set (addrs R) \<inter> ctx_set fs = {}"
    by (auto simp: at_def distinct_plug)
  from e(2) have ne: "e \<noteq> x" "e \<notin> set (addrs S)" "e \<notin> set (addrs R)" "e \<notin> ctx_set fs" by (auto simp: set_plug)
  have in_tree: "?c d \<noteq> 0 \<Longrightarrow> ?c d \<in> set (addrs S)" "?c (\<not> d) \<noteq> 0 \<Longrightarrow> ?c (\<not> d) \<in> set (addrs R)"
    using rep_root [OF rep(1)] rep_root [OF rep(2)] by simp_all
  then have inb: "?c b \<noteq> 0 \<Longrightarrow> ?c b \<in> set (addrs S) \<union> set (addrs R)" for b by (cases "b = d") auto
  have nc: "?c b \<noteq> x" "?c b \<noteq> e" for b using inb [of b] dis(1,2) ne(2,3) rep(3) e(1) by auto
  have cc: "?c d = ?c (\<not> d) \<Longrightarrow> ?c d = 0" using in_tree dis(6) by (metis disjoint_iff)
  have n4: "bst_nodes h4 y = (if y = e then (bst_nodes h e)\<lparr>bn_rank := r, bn_child := ?c\<rparr>
      else if y \<noteq> 0 \<and> (y = ?c False \<or> y = ?c True) then (bst_nodes h y)\<lparr>bn_parent := e\<rparr> else bst_nodes h y)" for y
    using nc nc [symmetric] ne(1) rep(4) e(1)
    by (auto simp: h4_def h3_def h2_def bst_link_node_def Let_def fun_eq_iff)
  have root4: "bst_root h4 = bst_root h" by (simp add: h4_def h3_def h2_def bst_link_node_def Let_def)
  have outc: "?c b \<in> ctx_set fs \<Longrightarrow> ?c b = 0" for b using inb [of b] dis(7,8) by auto
  have "ctx h4 x fs = ctx h x fs" using ne(4) outc [of True] outc [of False] by (intro ctx_cong) (auto simp: n4 root4)
  then have c4: "ctx h4 x fs" using c(1) by simp
  have x4: "bst_nodes h4 x = bst_nodes h x" using ne(1) nc by (metis n4)
  then have p4: "parent_of h4 x = parent_ctx fs" using rep(5) by simp
  from bst_move_node_ok [OF c4 c(2) rep(3) p4 dis(3) ne(4,1)] obtain h' where h': "bst_move_node h4 x e = Inr h'" "ctx h' e fs"
    "same_outside (insert x (insert e (ctx_set fs))) h4 h'" "bst_nodes h' e = (bst_nodes h4 e)\<lparr>bn_parent := parent_ctx fs\<rparr>"
    using e(1) by auto
  let ?h = "set_rank x 0 h'"
  have en: "bst_nodes ?h e = (bst_nodes h e)\<lparr>bn_rank := r, bn_child := ?c, bn_parent := parent_ctx fs\<rparr>" using h'(4) ne(1) by (simp add: n4)
  have same: "bst_nodes ?h y = bst_nodes h4 y" if "y \<in> set (addrs S) \<union> set (addrs R)" for y
    using that h'(3) ne dis by (auto simp: same_outside_def)
  have moved: "bst_nodes ?h (?c b) = (bst_nodes h (?c b))\<lparr>bn_parent := e\<rparr>" if "?c b \<noteq> 0" for b
  proof -
    have "bst_nodes ?h (?c b) = bst_nodes h4 (?c b)" by (rule same) (rule inb [OF that])
    with nc that show ?thesis by (cases b) (simp_all add: n4)
  qed
  have cs: "?c False \<in> {?c d, ?c (\<not> d)}" "?c True \<in> {?c d, ?c (\<not> d)}" by (cases d; simp)+
  have "rep ?h e (?c d) S"
  proof (rule rep_reparent [OF rep(1) dis(4)])
    show "bst_nodes ?h y = bst_nodes h y" if "y \<in> set (addrs S)" "y \<noteq> ?c d" for y
      using that same ne in_tree dis(6) cs by (auto simp: n4)
  qed (rule moved)
  moreover have "rep ?h e (?c (\<not> d)) R"
  proof (rule rep_reparent [OF rep(2) dis(5)])
    show "bst_nodes ?h y = bst_nodes h y" if "y \<in> set (addrs R)" "y \<noteq> ?c (\<not> d)" for y
      using that same ne in_tree dis(6) cs by (auto simp: n4)
  qed (rule moved)
  moreover have "ctx ?h e fs = ctx h' e fs" using dis(3) by (intro ctx_cong) auto
  ultimately have "at ?h e (mk d S e r R) fs" using h'(2) en e(1) dis c(2) ne by (auto simp: at_def distinct_plug)
  moreover have "same_outside (insert e (set (addrs (plug (mk d S x r R) fs)))) h ?h"
    using h'(3) in_tree cs by (auto simp: same_outside_def set_plug n4)
  ultimately show ?thesis using h'(1) by blast
qed

end
