(* ===== verification/Bst_Remove.thy ===== *)
theory Bst_Remove
  imports Bst_Delete
begin

text \<open>
  \<^verbatim>\<open>bst_delete\<close> as a whole: the node given is out of the tree, and the others are in it in the same
  order as before, balanced again.
\<close>

definition removed :: "bst \<Rightarrow> addr \<Rightarrow> addr list \<Rightarrow> bst \<Rightarrow> bool" where
  "removed h x xs h' \<longleftrightarrow> (\<exists>t'. bst_tree h' t' \<and> wavl t' \<and> addrs t' = xs) \<and>
     same_outside (insert x (set xs)) h h' \<and> rank_of h' x = 0"

lemma finish_removed:
  assumes f: "finish_delete h1 fs = Some (Inr h')" "balanced h1 xs h'"
    and s: "same_outside (insert x (set xs)) h h1" "x \<notin> set xs" "rank_of h1 x = 0"
  shows "removed h x xs h'"
  using assms by (auto simp: removed_def balanced_def same_outside_def)

section \<open>At most one child\<close>

lemma wavl_one_child: "wavl (mk d Leaf x r N) \<Longrightarrow> r = rk N + 1"
  using wavl_rk [of N] by (cases "N = Leaf") auto

lemma delete_one_child:
  assumes a: "at h x (mk d Leaf x r N) fs" and w: "wavl (plug (mk d Leaf x r N) fs)"
  shows "\<exists>h'. delete_finish h x (child_of h x (\<not> d)) (parent_of h x) (side fs) = Some (Inr h') \<and>
    removed h x (addrs (plug N fs)) h'"
proof -
  from unlink_ok [OF a] obtain h1 where h1: "bst_move_node h x (child_of h x (\<not> d)) = Inr h1" "at h1 (child_of h x (\<not> d)) N fs"
    "same_outside (insert x (set (addrs N) \<union> ctx_set fs)) h h1" by blast
  let ?h = "set_rank x 0 h1"
  have x: "x \<notin> set (addrs N)" "x \<notin> ctx_set fs" "parent_of h x = parent_ctx fs" using a by (auto simp: at_def distinct_plug)
  have "rep ?h q p N = rep h1 q p N" for q p using x by (intro rep_cong) auto
  moreover have "ctx ?h p fs = ctx h1 p fs" for p using x by (intro ctx_cong) auto
  ultimately have "at ?h (child_of h x (\<not> d)) N fs" using h1(2) by (simp add: at_def)
  moreover have "wavl N" "wavl_ctx (rk N + 1) fs" using w wavl_one_child [of d x r N] by (auto simp: wavl_plug)
  ultimately obtain h' where h': "finish_delete ?h fs = Some (Inr h')" "balanced ?h (addrs (plug N fs)) h'"
    using finish_delete_ok by blast
  have "delete_finish h x (child_of h x (\<not> d)) (parent_of h x) (side fs) = Some (Inr h')"
    using h1(1) h'(1) x(3) by (simp add: delete_finish_def finish_delete_def Let_def)
  moreover have "removed h x (addrs (plug N fs)) h'"
    using h1(3) x by (intro finish_removed [OF h']) (auto simp: same_outside_def set_plug)
  ultimately show ?thesis by blast
qed

section \<open>Two children\<close>

text \<open>The path to the neighbour in the order goes in one direction.\<close>

definition straight :: "bool \<Rightarrow> frame list \<Rightarrow> bool" where
  "straight d gs \<longleftrightarrow> (\<forall>f \<in> set gs. fst f = d)"

lemma straight_addrs:
  "straight d gs \<Longrightarrow> addrs (plug (mk d Leaf e r X) gs) = (if d then addrs (plug X gs) @ [e] else e # addrs (plug X gs))"
proof -
  assume s: "straight d gs"
  then have "if d then after_hole gs = [] else before_hole gs = []"
    by (induction gs) (auto simp: straight_def split: if_splits)
  then show ?thesis by (cases d) (simp_all add: addrs_plug addrs_mk)
qed

lemma find_edge_ok:
  "rep h q p t \<Longrightarrow> t \<noteq> Leaf \<Longrightarrow> \<exists>e r X gs. bst_find_edge h p d = Some e \<and> t = plug (mk d Leaf e r X) gs \<and> straight d gs"
proof (induction t arbitrary: q p)
  case (Node l ar s)
  obtain a r where ar: "ar = (a, r)" by fastforce
  let ?n = "if d then s else l" and ?o = "if d then l else s"
  have t: "Node l ar s = mk d ?n a r ?o" using ar by (simp add: mk_def)
  with Node.prems have rep: "p = a" "rep h a (child_of h a d) ?n" by simp_all
  show ?case
  proof (cases "?n = Leaf")
    case True
    with rep have "bst_find_edge h p d = Some a" by (subst bst_find_edge.simps) (simp split: if_splits)
    moreover have "Node l ar s = plug (mk d Leaf a r ?o) []" using t True by simp
    moreover have "straight d []" by (simp add: straight_def)
    ultimately show ?thesis by blast
  next
    case False
    have IH: "\<exists>e r X gs. bst_find_edge h (child_of h a d) d = Some e \<and> ?n = plug (mk d Leaf e r X) gs \<and> straight d gs"
      using Node.IH rep(2) False by (cases d) auto
    then obtain e r' X gs where e: "bst_find_edge h (child_of h a d) d = Some e" "?n = plug (mk d Leaf e r' X) gs" "straight d gs" by blast
    have "child_of h a d \<noteq> 0" using rep_root [OF rep(2)] False by simp
    with rep(1) e(1) have "bst_find_edge h p d = Some e" by (subst bst_find_edge.simps) simp
    moreover have "Node l ar s = plug (mk d Leaf e r' X) (gs @ [(d, a, r, ?o)])" using t e(2) by (simp add: plug_append)
    moreover have "straight d (gs @ [(d, a, r, ?o)])" using e(3) by (simp add: straight_def)
    ultimately show ?thesis by blast
  qed
qed simp

lemma wavl_ctx_rename: "wavl_ctx k (gs @ (d, x, r, s) # fs) = wavl_ctx k (gs @ (d, e, r, s) # fs)"
proof (induction gs arbitrary: k)
  case (Cons g gs)
  then show ?case by (cases g) simp
qed simp

lemma parent_ctx_append: "parent_ctx (gs @ f # fs) = (if gs = [] then parent_ctx [f] else parent_ctx gs)"
  by (cases gs; cases f) (auto split: prod.splits)

lemma side_append: "side (gs @ f # fs) = (if gs = [] then fst f else side gs)"
  by (cases gs; cases f) (auto simp: side_def split: prod.splits)

lemma straight_side: "straight d gs \<Longrightarrow> gs \<noteq> [] \<Longrightarrow> side gs = d"
  by (cases gs) (auto simp: straight_def side_def split: prod.splits)

lemma parent_ctx_in: "gs \<noteq> [] \<Longrightarrow> parent_ctx gs \<in> ctx_set gs"
  by (cases gs rule: parent_ctx.cases) auto

lemma ctx_set_append: "ctx_set (gs @ fs) = ctx_set gs \<union> ctx_set fs"
  by (induction gs rule: ctx_set.induct) auto

lemma ctx_distinct_append: "ctx_distinct (gs @ fs) \<Longrightarrow> ctx_set gs \<inter> ctx_set fs = {}"
  by (induction gs rule: ctx_distinct.induct) (auto simp: ctx_set_append)

lemma delete_two_children:
  assumes a: "at h x (mk (\<not> d) S x r R) fs" and w: "wavl (plug (mk (\<not> d) S x r R) fs)"
    and S: "S \<noteq> Leaf" "R \<noteq> Leaf" and d: "d = side fs"
  shows "\<exists>h' us vs. bst_delete h x = Some (Inr h') \<and> addrs (plug (mk (\<not> d) S x r R) fs) = us @ x # vs \<and> removed h x (us @ vs) h'"
proof -
  let ?t = "plug (mk (\<not> d) S x r R) fs"
  from a have rep: "rep h x (child_of h x (\<not> d)) S" "rep h x (child_of h x d) R" "x \<noteq> 0"
    and x: "ctx h x fs" "parent_of h x = parent_ctx fs" "x \<notin> ctx_set fs" by (auto simp: at_def distinct_plug)
  note side = bst_is_right_child_ok [OF x(1) rep(3) x(2,3), folded d]
  have ch: "child_of h x False \<noteq> 0" "child_of h x True \<noteq> 0"
    using rep_root [OF rep(1)] rep_root [OF rep(2)] S by (cases d; simp)+
  from find_edge_ok [OF rep(1) S(1), of d] obtain e re X gs where e: "bst_find_edge h (child_of h x (\<not> d)) d = Some e"
    "S = plug (mk d Leaf e re X) gs" "straight d gs" by blast
  let ?fs = "gs @ (\<not> d, x, r, R) # fs" and ?fs' = "gs @ (\<not> d, e, r, R) # fs"
  have t: "?t = plug (mk d Leaf e re X) ?fs" using e(2) by (simp add: plug_append)
  from at_unplug [of h "mk d Leaf e re X" ?fs] at_plug [OF a] t obtain p where "at h p (mk d Leaf e re X) ?fs" by auto
  with at_down [OF this] have ae: "at h e (mk d Leaf e re X) ?fs" by simp
  then have en: "e \<noteq> 0" "ctx h e ?fs" "parent_of h e = parent_ctx ?fs" "e \<notin> ctx_set ?fs" "e \<notin> set (addrs X)" "ctx_distinct ?fs"
    by (auto simp: at_def distinct_plug)
  note eside = bst_is_right_child_ok [OF en(2,1,3,4)]
  have "x \<notin> ctx_set gs" using ctx_distinct_append [OF en(6)] by auto
  then have direct: "parent_of h e = x \<longleftrightarrow> gs = []" using en(3) parent_ctx_in [of gs] by (auto simp: parent_ctx_append)
  from unlink_ok [OF ae] obtain h1 where h1: "bst_move_node h e (child_of h e (\<not> d)) = Inr h1" "at h1 (child_of h e (\<not> d)) X ?fs"
    "same_outside (insert e (set (addrs X) \<union> ctx_set ?fs)) h h1" by blast
  have t1: "plug X ?fs = plug (mk (\<not> d) (plug X gs) x r R) fs" by (simp add: plug_append)
  from at_unplug [of h1 "mk (\<not> d) (plug X gs) x r R" fs] at_plug [OF h1(2)] t1 obtain p' where "at h1 p' (mk (\<not> d) (plug X gs) x r R) fs" by auto
  with at_down [OF this] have a1: "at h1 x (mk (\<not> d) (plug X gs) x r R) fs" by simp
  have set1: "set (addrs (plug (mk (\<not> d) (plug X gs) x r R) fs)) = set (addrs X) \<union> ctx_set ?fs" unfolding t1 [symmetric] by (rule set_plug)
  then have "e \<notin> set (addrs (plug (mk (\<not> d) (plug X gs) x r R) fs))" using en(4,5) by simp
  note rp = replace_ok [OF a1 en(1) this]
  define h2 where "h2 = bst_link_node e False (child_of h1 x False) h1"
  define h3 where "h3 = bst_link_node e True (child_of h2 x True) h2"
  define h4 where "h4 = set_rank e (rank_of h3 x) h3"
  from rp [folded h2_def, folded h3_def, folded h4_def] obtain h5 where h5: "bst_move_node h4 x e = Inr h5"
    "at (set_rank x 0 h5) e (mk (\<not> d) (plug X gs) e r R) fs"
    "same_outside (insert e (set (addrs X) \<union> ctx_set ?fs)) h1 (set_rank x 0 h5)" unfolding set1 by blast
  let ?h = "set_rank x 0 h5"
  have t2: "plug X ?fs' = plug (mk (\<not> d) (plug X gs) e r R) fs" by (simp add: plug_append)
  from at_unplug [of ?h X ?fs'] at_plug [OF h5(2)] t2 obtain q where a2: "at ?h q X ?fs'" by auto
  have "wavl_ctx re ?fs" "wavl (mk d Leaf e re X)" using w unfolding t wavl_plug by simp_all
  then have "wavl X" "wavl_ctx (rk X + 1) ?fs'" using wavl_one_child [of d e re X]
    by (simp_all add: wavl_ctx_rename [of "rk X + 1" gs "\<not> d" x r R fs e] del: One_nat_def)
  from finish_delete_ok [OF a2 this] obtain h' where h': "finish_delete ?h ?fs' = Some (Inr h')" "balanced ?h (addrs (plug X ?fs')) h'" by blast
  have fd: "delete_finish h4 x e (parent_ctx ?fs') (side ?fs') = Some (Inr h')"
    using h5(1) h'(1) by (simp add: delete_finish_def finish_delete_def Let_def)
  have start: "parent_ctx ?fs' = (if gs = [] then e else parent_ctx ?fs)" "side ?fs' = (if gs = [] then \<not> d else side ?fs)"
    by (simp_all add: parent_ctx_append side_append)
  have "ctx ?h q ?fs'" using a2 by (simp add: at_def)
  from ctx_null [OF this] have nz: "parent_ctx ?fs' \<noteq> 0" using parent_ctx_in [of ?fs'] by (metis append_is_Nil_conv list.distinct(1))
  have "bst_delete h x = Some (Inr h')"
    using rep(3) side ch e(1) eside direct en(3) h1(1) fd start nz
    by (auto simp: bst_delete_def Let_def h4_def h3_def h2_def)
  moreover have "\<exists>us vs. addrs ?t = us @ x # vs \<and> addrs (plug X ?fs') = us @ vs"
  proof (cases d)
    case True
    with straight_addrs [OF e(3)] have "addrs ?t = (before_hole fs @ addrs (plug X gs) @ [e]) @ x # addrs R @ after_hole fs"
      "addrs (plug X ?fs') = (before_hole fs @ addrs (plug X gs) @ [e]) @ addrs R @ after_hole fs"
      unfolding t2 by (simp_all add: addrs_plug [of _ fs] addrs_mk e(2))
    then show ?thesis by blast
  next
    case False
    with straight_addrs [OF e(3)] have "addrs ?t = (before_hole fs @ addrs R) @ x # e # addrs (plug X gs) @ after_hole fs"
      "addrs (plug X ?fs') = (before_hole fs @ addrs R) @ e # addrs (plug X gs) @ after_hole fs"
      unfolding t2 by (simp_all add: addrs_plug [of _ fs] addrs_mk e(2))
    then show ?thesis by blast
  qed
  moreover have "removed h x (addrs (plug X ?fs')) h'"
  proof (rule finish_removed [OF h'])
    have eq: "insert x (set (addrs (plug X ?fs'))) = insert e (set (addrs X) \<union> ctx_set ?fs)"
      by (auto simp: set_plug ctx_set_append)
    show "same_outside (insert x (set (addrs (plug X ?fs')))) h ?h"
      unfolding eq using h1(3) h5(3) by (rule same_outside_trans)
    have "e \<noteq> x" using en(4) by (auto simp: ctx_set_append)
    with a1 \<open>x \<notin> ctx_set gs\<close> show "x \<notin> set (addrs (plug X ?fs'))"
      by (auto simp: at_def distinct_plug set_plug ctx_set_append)
  qed simp
  ultimately show ?thesis by metis
qed

section \<open>Any node\<close>

lemma tree_focus_at:
  assumes "bst_tree h t" "x \<in> set (addrs t)"
  obtains l r s fs where "t = plug (mk False l x r s) fs" "at h x (mk False l x r s) fs"
proof -
  from tree_focus [OF assms(2), of False] obtain l r s fs where t: "t = plug (mk False l x r s) fs" by blast
  from at_unplug [of h "mk False l x r s" fs] assms(1) t obtain p where "at h p (mk False l x r s) fs" by auto
  with at_down [OF this] have "at h x (mk False l x r s) fs" by simp
  with t show ?thesis by (rule that)
qed

lemma at_side:
  assumes "at h x (mk d l x r s) fs"
  shows "bst_is_right_child h x = Inr (side fs)" "x \<noteq> 0" "parent_of h x = parent_ctx fs"
    "child_of h x d = 0 \<longleftrightarrow> l = Leaf" "child_of h x (\<not> d) = 0 \<longleftrightarrow> s = Leaf"
  using assms rep_root [of h x _ l] rep_root [of h x _ s]
  by (auto simp: at_def distinct_plug intro!: bst_is_right_child_ok)

lemma bst_delete_ok:
  assumes t: "bst_tree h t" "wavl t" and x: "x \<in> set (addrs t)"
  shows "\<exists>h' us vs. bst_delete h x = Some (Inr h') \<and> addrs t = us @ x # vs \<and> removed h x (us @ vs) h'"
proof -
  from tree_focus_at [OF t(1) x] obtain l r s fs where f: "t = plug (mk False l x r s) fs" and a: "at h x (mk False l x r s) fs" .
  note n = at_side [OF a]
  have ord: "addrs t = (before_hole fs @ addrs l) @ x # addrs s @ after_hole fs" by (simp add: f addrs_plug addrs_mk)
  consider "l = Leaf" | "l \<noteq> Leaf" "s = Leaf" | "l \<noteq> Leaf" "s \<noteq> Leaf" by blast
  then show ?thesis
  proof cases
    case 1
    from delete_one_child [of h x False r s fs] a t(2) obtain h' where
      "delete_finish h x (child_of h x True) (parent_of h x) (side fs) = Some (Inr h')" "removed h x (addrs (plug s fs)) h'"
      unfolding f 1 by auto
    with n 1 ord show ?thesis by (auto simp: bst_delete_def addrs_plug)
  next
    case 2
    from delete_one_child [of h x True r l fs] a t(2) obtain h' where
      "delete_finish h x (child_of h x False) (parent_of h x) (side fs) = Some (Inr h')" "removed h x (addrs (plug l fs)) h'"
      unfolding f 2 mk_flip [of False] by auto
    moreover have "addrs (plug l fs) = (before_hole fs @ addrs l) @ addrs s @ after_hole fs" using 2 by (simp add: addrs_plug)
    moreover have "bst_delete h x = delete_finish h x (child_of h x False) (parent_of h x) (side fs)"
      using n 2 by (simp add: bst_delete_def)
    ultimately show ?thesis using ord by metis
  next
    case 3
    define S R where "S = (if side fs then l else s)" and "R = (if side fs then s else l)"
    have m: "mk False l x r s = mk (\<not> side fs) S x r R" by (simp add: mk_def S_def R_def)
    have "S \<noteq> Leaf" "R \<noteq> Leaf" using 3 by (simp_all add: S_def R_def)
    from delete_two_children [OF a [unfolded m] _ this] t(2) show ?thesis unfolding f m by blast
  qed
qed

section \<open>The order\<close>

context bst_order begin

lemma bst_delete_ordered:
  assumes b: "bst_ok compare valid h xs" and x: "x \<in> set xs"
  shows "\<exists>h' us vs. bst_delete h x = Some (Inr h') \<and> xs = us @ x # vs \<and> bst_ok compare valid h' (us @ vs) \<and>
    same_outside (set xs) h h' \<and> rank_of h' x = 0"
proof -
  from b obtain t where t: "bst_tree h t" "wavl t" "addrs t = xs" "ordered compare valid xs" by (auto simp: bst_ok_def)
  from bst_delete_ok [OF t(1,2), of x] x obtain h' us vs where
    r: "bst_delete h x = Some (Inr h')" "xs = us @ x # vs" "removed h x (us @ vs) h'" unfolding t(3) by blast
  moreover have "ordered compare valid (us @ vs)" using t(4) r(2) ordered_remove by simp
  moreover have "set xs = insert x (set (us @ vs))" using r(2) by auto
  ultimately show ?thesis by (auto simp: removed_def bst_ok_def)
qed

end

end
