(* ===== verification/Bst_Walk.thy ===== *)
theory Bst_Walk
  imports Bst_Remove
begin

text \<open>
  Walking through the tree in order: \<^verbatim>\<open>bst_next\<close> and \<^verbatim>\<open>bst_prev\<close> give the neighbour in the sequence of
  nodes, so that the loops over all entries visit each entry once, in order, also when the body
  deletes the entry it is given.
\<close>

text \<open>The nodes as they are met in a direction, and the one met first.\<close>

definition walk :: "bool \<Rightarrow> addr list \<Rightarrow> addr list" where
  "walk d xs = (if d then xs else rev xs)"

definition first0 :: "addr list \<Rightarrow> addr" where
  "first0 xs = (case xs of [] \<Rightarrow> 0 | x # _ \<Rightarrow> x)"

lemma first0_simps [simp]: "first0 [] = 0" "first0 (x # xs) = x"
  by (simp_all add: first0_def)

lemma find_edge_first:
  assumes "rep h q p t" "t \<noteq> Leaf"
  shows "bst_find_edge h p (\<not> d) = Some (first0 (walk d (addrs t) @ xs))"
proof -
  from find_edge_ok [OF assms, of "\<not> d"] obtain e r X gs where
    e: "bst_find_edge h p (\<not> d) = Some e" "t = plug (mk (\<not> d) Leaf e r X) gs" "straight (\<not> d) gs" by blast
  then show ?thesis using straight_addrs [OF e(3), of e r X] by (simp add: walk_def)
qed

text \<open>Up the tree, to the first node on the other side.\<close>

definition beyond :: "bool \<Rightarrow> frame list \<Rightarrow> addr list" where
  "beyond d fs = (if d then after_hole fs else rev (before_hole fs))"

lemma walk_up_ok:
  "at h x (mk e l x r s) fs \<Longrightarrow> walk_up h x d = Some (Inr (first0 (beyond d fs)))"
proof (induction fs arbitrary: x e l r s)
  case Nil
  from at_side [OF Nil] show ?case by (subst walk_up.simps) (simp add: beyond_def)
next
  case (Cons f fs)
  obtain e' a r' s' where f: "f = (e', a, r', s')" by (cases f) auto
  note n = at_side [OF Cons.prems]
  from at_up [OF Cons.prems [unfolded f]] have up: "at h a (mk e' (mk e l x r s) a r' s') fs" by blast
  note na = at_side [OF up]
  show ?case
  proof (cases "e' = d")
    case True
    with n na f have "walk_up h x d = walk_up h a d" by (subst walk_up.simps) simp
    with Cons.IH [OF up] f True show ?thesis by (cases d) (simp_all add: beyond_def)
  next
    case False
    with n na f have "walk_up h x d = Some (Inr a)" by (subst walk_up.simps) simp
    with f False show ?thesis by (cases d) (simp_all add: beyond_def)
  qed
qed

lemma bst_prev_next_first: "bst_tree h t \<Longrightarrow> bst_prev_next h 0 d = Some (Inr (first0 (walk d (addrs t))))"
  using find_edge_first [of h 0 "bst_root h" t d "[]"] rep_root [of h 0 "bst_root h" t]
  by (cases "t = Leaf"; cases d) (simp_all add: bst_tree_def bst_prev_next_def walk_def)

lemma bst_prev_next_ok:
  assumes t: "bst_tree h t" and x: "walk d (addrs t) = us @ x # vs"
  shows "bst_prev_next h x d = Some (Inr (first0 vs))"
proof -
  have "x \<in> set (walk d (addrs t))" using x by simp
  then have "x \<in> set (addrs t)" by (simp add: walk_def split: if_splits)
  from tree_focus_at [OF t this] obtain l0 r s0 fs where f: "t = plug (mk False l0 x r s0) fs" and a: "at h x (mk False l0 x r s0) fs" .
  define l s where "l = (if d then s0 else l0)" and "s = (if d then l0 else s0)"
  have m: "mk False l0 x r s0 = mk d l x r s" by (simp add: mk_def l_def s_def)
  note a = a [unfolded m] note n = at_side [OF a] note f = f [unfolded m]
  have w: "walk d (addrs t) = (if d then before_hole fs @ addrs s else rev (after_hole fs) @ rev (addrs s)) @ x # walk d (addrs l) @ beyond d fs"
    by (simp add: f walk_def beyond_def addrs_plug addrs_mk)
  have "distinct (walk d (addrs t))" using t by (simp add: bst_tree_def walk_def)
  with w x have vs: "vs = walk d (addrs l) @ beyond d fs"
    by (metis append_Cons_eq_iff distinct_append distinct.simps(2) not_distinct_conv_prefix)
  show ?thesis
  proof (cases "l = Leaf")
    case True
    with n walk_up_ok [OF a, of d] vs show ?thesis by (simp add: bst_prev_next_def walk_def)
  next
    case False
    from a have "rep h x (child_of h x d) l" by (simp add: at_def)
    with find_edge_first [OF this False, of d] n False vs show ?thesis
      by (cases d) (simp_all add: bst_prev_next_def walk_def)
  qed
qed

lemmas bst_next_ok = bst_prev_next_ok [where d = True, folded bst_next_def, unfolded walk_def, simplified]
lemmas bst_next_first = bst_prev_next_first [where d = True, folded bst_next_def, unfolded walk_def, simplified]

section \<open>The loops\<close>

text \<open>A body that deletes some of the entries, as the loop allows.\<close>

definition delete_if :: "(addr \<Rightarrow> bool) \<Rightarrow> addr \<Rightarrow> bst \<Rightarrow> bst res option" where
  "delete_if P x h = (if P x then bst_delete h x else Some (Inr h))"

lemma delete_if_ok:
  assumes t: "bst_tree h t" "wavl t" "addrs t = us @ x # vs"
  shows "\<exists>h' t'. delete_if P x h = Some (Inr h') \<and> bst_tree h' t' \<and> wavl t' \<and> addrs t' = us @ (if P x then [] else [x]) @ vs"
proof (cases "P x")
  case True
  from bst_delete_ok [OF t(1,2), of x] t(3) obtain h' us' vs' where
    r: "bst_delete h x = Some (Inr h')" "addrs t = us' @ x # vs'" "removed h x (us' @ vs') h'" by auto
  have "distinct (us @ x # vs)" using t by (simp add: bst_tree_def)
  then have "us' = us" "vs' = vs" using r(2) t(3) by (metis append_Cons_eq_iff distinct_append distinct.simps(2) not_distinct_conv_prefix)+
  with r True show ?thesis by (auto simp: delete_if_def removed_def)
qed (use t in \<open>auto simp: delete_if_def\<close>)

lemma entries_from_ok:
  assumes "bst_tree h t" "wavl t" "addrs t = us @ vs"
  shows "\<exists>h' t'. entries_from (delete_if P) h (first0 vs) = Some (Inr (vs, h')) \<and> bst_tree h' t' \<and> wavl t' \<and>
    addrs t' = us @ filter (\<lambda>x. \<not> P x) vs"
  using assms
proof (induction vs arbitrary: h t us)
  case Nil
  then show ?case by (subst entries_from.simps) auto
next
  case (Cons x vs)
  have "x \<noteq> 0" using rep_not_null [of h 0 "bst_root h" t] Cons.prems by (auto simp: bst_tree_def)
  note n = bst_next_ok [OF Cons.prems(1,3)]
  from delete_if_ok [OF Cons.prems, of P] obtain h1 t1 where
    d: "delete_if P x h = Some (Inr h1)" "bst_tree h1 t1" "wavl t1" "addrs t1 = (us @ (if P x then [] else [x])) @ vs" by auto
  from Cons.IH [OF d(2-4)] obtain h' t' where
    r: "entries_from (delete_if P) h1 (first0 vs) = Some (Inr (vs, h'))" "bst_tree h' t'" "wavl t'"
    "addrs t' = (us @ (if P x then [] else [x])) @ filter (\<lambda>x. \<not> P x) vs" by blast
  have "entries_from (delete_if P) h x = Some (Inr (x # vs, h'))"
    using \<open>x \<noteq> 0\<close> n d(1) r(1) by (subst entries_from.simps) simp
  with r(2-4) show ?case by auto
qed

lemma bst_for_every_entry_ok:
  assumes "bst_tree h t" "wavl t"
  shows "\<exists>h' t'. bst_for_every_entry (delete_if P) h = Some (Inr (addrs t, h')) \<and> bst_tree h' t' \<and> wavl t' \<and>
    addrs t' = filter (\<lambda>x. \<not> P x) (addrs t)"
  using entries_from_ok [OF assms, of "[]"] bst_next_first [OF assms(1)] by (simp add: bst_for_every_entry_def)

text \<open>The loop that takes the tree apart leaves an empty tree; the balance is not kept on the way.\<close>

lemma delete_leftmost:
  assumes t: "bst_tree h t" "addrs t = x # xs"
  shows "\<exists>h' t'. bst_delete_all_helper h x = Inr h' \<and> bst_tree h' t' \<and> addrs t' = xs \<and>
    same_outside (set (addrs t)) h h' \<and> rank_of h' x = rank_of h x"
proof -
  have "x \<in> set (addrs t)" using t(2) by simp
  from tree_focus_at [OF t(1) this] obtain l r s fs where f: "t = plug (mk False l x r s) fs" and a: "at h x (mk False l x r s) fs" .
  have o: "addrs t = before_hole fs @ addrs l @ x # addrs s @ after_hole fs" by (simp add: f addrs_plug addrs_mk)
  moreover have "distinct (addrs t)" using t(1) by (simp add: bst_tree_def)
  ultimately have e: "before_hole fs = []" "addrs l = []" using t(2) by (auto simp: append_eq_Cons_conv Cons_eq_append_conv)
  then have l: "l = Leaf" by (cases l) auto
  note n = at_side [OF a]
  from unlink_ok [OF a [unfolded l]] obtain h1 where h1: "bst_move_node h x (child_of h x True) = Inr h1"
    "at h1 (child_of h x True) s fs" "bst_nodes h1 x = (bst_nodes h x)\<lparr>bn_parent := 0\<rparr>"
    "same_outside (insert x (set (addrs s) \<union> ctx_set fs)) h h1" by auto
  have "addrs (plug s fs) = xs" using o e t(2) by (simp add: addrs_plug)
  moreover have "set (addrs t) = insert x (set (addrs s) \<union> ctx_set fs)" by (auto simp: f l set_plug)
  ultimately show ?thesis using at_plug [OF h1(2)] h1 n l by (auto simp: bst_delete_all_helper_def)
qed

lemma delete_entries_from_ok:
  assumes "bst_tree h t"
  shows "\<exists>h'. delete_entries_from h (first0 (addrs t)) = Some (Inr (addrs t, h')) \<and> bst_is_empty h' \<and>
    same_outside (set (addrs t)) h h'"
  using assms
proof (induction "addrs t" arbitrary: h t)
  case Nil
  then show ?case by (cases t) (subst delete_entries_from.simps, auto simp: bst_tree_def bst_is_empty_def)
next
  case (Cons x xs)
  have "x \<noteq> 0" using rep_not_null [of h 0 "bst_root h" t] Cons.prems
    by (auto simp: bst_tree_def simp flip: Cons.hyps(2))
  have n: "bst_next h x = Some (Inr (first0 xs))" using bst_next_ok [OF Cons.prems, of "[]" x xs] Cons.hyps(2) by simp
  from delete_leftmost [OF Cons.prems Cons.hyps(2) [symmetric]] obtain h1 t1 where
    d: "bst_delete_all_helper h x = Inr h1" "bst_tree h1 t1" "addrs t1 = xs" "same_outside (set (addrs t)) h h1" by blast
  from Cons.hyps(1) [OF d(3) [symmetric] d(2)] obtain h' where
    r: "delete_entries_from h1 (first0 xs) = Some (Inr (xs, h'))" "bst_is_empty h'" "same_outside (set xs) h1 h'" unfolding d(3) by blast
  have "delete_entries_from h x = Some (Inr (x # xs, h'))" using \<open>x \<noteq> 0\<close> n d(1) r(1) by (subst delete_entries_from.simps) simp
  moreover have "same_outside (set (addrs t)) h h'" using d(4) r(3) Cons.hyps(2) [symmetric] by (simp add: same_outside_def)
  ultimately show ?case using r(2) Cons.hyps(2) [symmetric] by simp
qed

lemma bst_for_every_entry_delete_ok:
  assumes "bst_tree h t"
  shows "\<exists>h'. bst_for_every_entry_delete h = Some (Inr (addrs t, h')) \<and> bst_is_empty h' \<and> same_outside (set (addrs t)) h h'"
  using delete_entries_from_ok [OF assms] bst_next_first [OF assms] by (simp add: bst_for_every_entry_delete_def)

section \<open>The balance\<close>

text \<open>The height and the ranks grow with the logarithm of the number of nodes, so that no rank overflows.\<close>

lemma rank_le: "rep h q p t \<Longrightarrow> wavl t \<Longrightarrow> x \<in> set (addrs t) \<Longrightarrow> rank_of h x \<le> rk t"
proof (induction t arbitrary: q p)
  case (Node l ar s)
  then show ?case by (cases ar) fastforce
qed simp

lemma length_addrs: "length (addrs t) + 1 = size1 t"
  by (induction t) auto

lemma pow_half_mono: "a \<le> b \<Longrightarrow> (2 :: nat) ^ ((a + 1) div 2) \<le> 2 ^ ((b + 1) div 2)"
  by (intro power_increasing div_le_mono) simp_all

lemma bst_balance:
  assumes "bst_tree h t" "wavl t"
  shows "2 ^ ((height t + 1) div 2) \<le> length (addrs t) + 1"
    and "x \<in> set (addrs t) \<Longrightarrow> 2 ^ ((rank_of h x + 1) div 2) \<le> length (addrs t) + 1"
proof -
  note s = wavl_size [OF assms(2), folded length_addrs]
  show "2 ^ ((height t + 1) div 2) \<le> length (addrs t) + 1"
    using order_trans [OF pow_half_mono [OF wavl_height [OF assms(2)]] s] .
  have "rep h 0 (bst_root h) t" using assms(1) by (simp add: bst_tree_def)
  from rank_le [OF this assms(2)] show "2 ^ ((rank_of h x + 1) div 2) \<le> length (addrs t) + 1" if "x \<in> set (addrs t)"
    using order_trans [OF pow_half_mono s] that by blast
qed

end
