(* ===== verification/Vmm_Region.thy ===== *)
theory Vmm_Region
  imports Bst_Walk
begin

text \<open>
  The regions of an address space (\<^verbatim>\<open>kernel/vm/vmm.c\<close>): where a region may lie, how regions are kept
  in the balanced tree, and the search for a free spot. The model is that of a 64-bit machine with pages of
  4096 bytes and no tags in addresses; addresses and sizes are natural numbers below \<open>2 ^ 64\<close> with
  the wrap-around of every sum and difference written out. A region is a structure in memory and
  its address is that of its node in the tree; the tree of an address space and those of reserved ranges share the memory of the nodes.
\<close>

type_synonym vaddr = nat
type_synonym uint32 = "32 word"

abbreviation PAGE_SIZE :: nat where "PAGE_SIZE \<equiv> 4096"
abbreviation PAGE_SIZE_SHIFT :: nat where "PAGE_SIZE_SHIFT \<equiv> 12"

abbreviation VMM_REGION_FLAG_RESERVED :: uint32 where "VMM_REGION_FLAG_RESERVED \<equiv> 0x1"
abbreviation VMM_REGION_FLAG_PHYSICAL :: uint32 where "VMM_REGION_FLAG_PHYSICAL \<equiv> 0x2"
abbreviation VMM_REGION_FLAG_INTERNAL_MASK :: uint32 where "VMM_REGION_FLAG_INTERNAL_MASK \<equiv> 0xffff"
abbreviation VMM_FREE_REGION_FLAG_EXPAND :: uint32 where "VMM_FREE_REGION_FLAG_EXPAND \<equiv> 0x1"
abbreviation VMM_FLAG_VALLOC_SPECIFIC :: uint32 where "VMM_FLAG_VALLOC_SPECIFIC \<equiv> 0x10000"
abbreviation VMM_FLAG_NO_START_GUARD :: uint32 where "VMM_FLAG_NO_START_GUARD \<equiv> 0x20000"
abbreviation VMM_FLAG_NO_END_GUARD :: uint32 where "VMM_FLAG_NO_END_GUARD \<equiv> 0x40000"
abbreviation VMM_FLAG_NO_PHYSICAL :: uint32 where "VMM_FLAG_NO_PHYSICAL \<equiv> 0x80000"
abbreviation VMM_ASPACE_FLAG_KERNEL :: uint32 where "VMM_ASPACE_FLAG_KERNEL \<equiv> 0x1"
abbreviation ERR_OUT_OF_RANGE :: int where "ERR_OUT_OF_RANGE \<equiv> - 37"

section \<open>Arithmetic of addresses\<close>

definition add64 :: "nat \<Rightarrow> nat \<Rightarrow> nat" where
  "add64 a b = (a + b) mod 2 ^ 64"

text \<open>\<^verbatim>\<open>__builtin_add_overflow\<close> and \<^verbatim>\<open>__builtin_sub_overflow\<close>: no value if the result does not fit.\<close>

definition add_overflow :: "nat \<Rightarrow> nat \<Rightarrow> nat option" where
  "add_overflow a b = (if a + b < 2 ^ 64 then Some (a + b) else None)"

definition sub_overflow :: "nat \<Rightarrow> nat \<Rightarrow> nat option" where
  "sub_overflow a b = (if b \<le> a then Some (a - b) else None)"

definition not64 :: "nat \<Rightarrow> nat" where
  "not64 a = 2 ^ 64 - 1 - a"

definition round_up :: "nat \<Rightarrow> nat \<Rightarrow> nat" where
  "round_up val alignment = add64 val (size_sub alignment 1) AND not64 (size_sub alignment 1)"

definition round_down :: "nat \<Rightarrow> nat \<Rightarrow> nat" where
  "round_down val alignment = val AND not64 (size_sub alignment 1)"

definition IS_PAGE_ALIGNED :: "nat \<Rightarrow> bool" where
  "IS_PAGE_ALIGNED x \<longleftrightarrow> x AND (PAGE_SIZE - 1) = 0"

definition arch_adjusted_vaddr :: "vaddr \<Rightarrow> bool \<Rightarrow> vaddr" where
  "arch_adjusted_vaddr addr is_kernel = addr"

section \<open>Regions and address spaces\<close>

record vmm_obj_slice =
  sl_obj :: addr
  sl_offset :: nat
  sl_size :: nat

record vmm_region =
  rg_name :: string
  rg_flags :: uint32
  rg_arch_mmu_flags :: uint32
  rg_base :: vaddr
  rg_slice :: vmm_obj_slice

abbreviation rg_size :: "vmm_region \<Rightarrow> nat" where "rg_size r \<equiv> sl_size (rg_slice r)"

record vmm_aspace =
  as_flags :: uint32
  as_base :: vaddr
  as_size :: nat
  as_root :: addr

text \<open>The memory of the virtual memory manager. \<open>vm_res\<close> are the objects that are reserved ranges, with the
  root of the tree of the regions inside.\<close>

record vm =
  vm_aspaces :: "addr \<Rightarrow> vmm_aspace"
  vm_regions :: "addr \<Rightarrow> vmm_region"
  vm_nodes :: "addr \<Rightarrow> bst_node"
  vm_res :: "addr \<Rightarrow> addr option"

datatype vm_root = Aspace_root addr | Res_root addr

fun root_of :: "vm_root \<Rightarrow> vm \<Rightarrow> addr" where
  "root_of (Aspace_root a) s = as_root (vm_aspaces s a)"
| "root_of (Res_root ob) s = (case vm_res s ob of Some p \<Rightarrow> p | None \<Rightarrow> 0)"

fun set_root :: "vm_root \<Rightarrow> addr \<Rightarrow> vm \<Rightarrow> vm" where
  "set_root (Aspace_root a) p s = s\<lparr>vm_aspaces := (vm_aspaces s)(a := (vm_aspaces s a)\<lparr>as_root := p\<rparr>)\<rparr>"
| "set_root (Res_root ob) p s = s\<lparr>vm_res := (vm_res s)(ob \<mapsto> p)\<rparr>"

definition region_tree :: "vm_root \<Rightarrow> vm \<Rightarrow> bst" where
  "region_tree w s = \<lparr>bst_root = root_of w s, bst_nodes = vm_nodes s\<rparr>"

definition put_tree :: "vm_root \<Rightarrow> bst \<Rightarrow> vm \<Rightarrow> vm" where
  "put_tree w h s = (set_root w (bst_root h) s)\<lparr>vm_nodes := bst_nodes h\<rparr>"

section \<open>Ranges\<close>

definition range_contains_range :: "vaddr \<Rightarrow> nat \<Rightarrow> vaddr \<Rightarrow> nat \<Rightarrow> bool res" where
  "range_contains_range range_base range_size query_base query_size =
     guardE ''range_size > 0'' (range_size > 0)
     (guardE ''query_size > 0'' (query_size > 0)
      (case add_overflow range_base (range_size - 1) of
         None \<Rightarrow> Inl (Assertion_failed ''range'')
       | Some range_last \<Rightarrow>
         (case add_overflow query_base (query_size - 1) of
            None \<Rightarrow> Inl (Assertion_failed ''query'')
          | Some query_last \<Rightarrow> Inr (range_base \<le> query_base \<and> query_last \<le> range_last))))"

definition is_inside_aspace :: "vmm_aspace \<Rightarrow> vaddr \<Rightarrow> bool res" where
  "is_inside_aspace aspace vaddr = range_contains_range (as_base aspace) (as_size aspace) vaddr 1"

definition is_region_inside_aspace :: "vmm_aspace \<Rightarrow> vmm_region \<Rightarrow> bool res" where
  "is_region_inside_aspace aspace r =
     guardE ''base'' (as_base aspace \<ge> PAGE_SIZE)
     (guardE ''size'' (as_size aspace > PAGE_SIZE)
      (range_contains_range (as_base aspace)
        (if rg_flags r AND VMM_FLAG_NO_END_GUARD = 0 then size_sub (as_size aspace) PAGE_SIZE else as_size aspace)
        (rg_base r) (rg_size r)))"

definition is_inside_region :: "vmm_region \<Rightarrow> vaddr \<Rightarrow> bool res" where
  "is_inside_region r vaddr = range_contains_range (rg_base r) (rg_size r) vaddr 1"

definition is_range_inside_region :: "vmm_region \<Rightarrow> vaddr \<Rightarrow> nat \<Rightarrow> bool res" where
  "is_range_inside_region r vaddr sz = range_contains_range (rg_base r) (rg_size r) vaddr sz"

definition trim_to_aspace :: "vmm_aspace \<Rightarrow> vaddr \<Rightarrow> nat \<Rightarrow> nat res" where
  "trim_to_aspace aspace vaddr sz =
     bindE (is_inside_aspace aspace vaddr)
      (\<lambda>inside. guardE ''inside'' inside
        (if sz = 0 then Inr sz
         else let offset = size_sub vaddr (as_base aspace);
                  size1 = (if add64 offset sz < offset then size_sub (size_sub (2 ^ 64 - 1) offset) 1 else sz)
              in Inr (if add64 offset size1 \<ge> size_sub (as_size aspace) 1 then size_sub (as_size aspace) offset else size1)))"

section \<open>The order of regions\<close>

definition vmm_obj_slice_init :: vmm_obj_slice where
  "vmm_obj_slice_init = \<lparr>sl_obj = 0, sl_offset = 0, sl_size = 0\<rparr>"

definition zero_node :: bst_node where
  "zero_node = \<lparr>bn_rank = 0, bn_parent = 0, bn_child = (\<lambda>_. 0)\<rparr>"

text \<open>The structure at the address \<open>r\<close>, which is what \<^verbatim>\<open>calloc\<close> returned; 0 if there was no memory.\<close>

definition alloc_region_struct :: "addr \<Rightarrow> string \<Rightarrow> vaddr \<Rightarrow> nat \<Rightarrow> uint32 \<Rightarrow> uint32 \<Rightarrow> vm \<Rightarrow> vm" where
  "alloc_region_struct r name base sz flags arch_mmu_flags s =
     (if r = 0 then s
      else s\<lparr>vm_regions := (vm_regions s)(r := \<lparr>rg_name = take 31 name, rg_flags = flags, rg_arch_mmu_flags = arch_mmu_flags,
                rg_base = base, rg_slice = vmm_obj_slice_init\<lparr>sl_size := sz\<rparr>\<rparr>),
             vm_nodes := (vm_nodes s)(r := zero_node)\<rparr>)"

definition vmm_flags_guard :: "uint32 \<Rightarrow> uint32 \<Rightarrow> nat" where
  "vmm_flags_guard low_flags high_flags =
     (if low_flags AND VMM_FLAG_NO_END_GUARD \<noteq> 0 \<and> high_flags AND VMM_FLAG_NO_START_GUARD \<noteq> 0 then 0 else PAGE_SIZE)"

definition vmm_rguard :: "vmm_region \<Rightarrow> vmm_region \<Rightarrow> nat" where
  "vmm_rguard low high = (if rg_base low \<ge> rg_base high then 0 else vmm_flags_guard (rg_flags low) (rg_flags high))"

definition vmm_region_cmp :: "vmm_region \<Rightarrow> vmm_region \<Rightarrow> int" where
  "vmm_region_cmp a b =
     (if rg_base b > add64 (add64 (rg_base a) (size_sub (rg_size a) 1)) (vmm_rguard a b) then 1
      else if rg_base a > add64 (add64 (rg_base b) (size_sub (rg_size b) 1)) (vmm_rguard b a) then - 1
      else 0)"

abbreviation region_compare :: "(addr \<Rightarrow> vmm_region) \<Rightarrow> addr \<Rightarrow> addr \<Rightarrow> int" where
  "region_compare rg a b \<equiv> vmm_region_cmp (rg a) (rg b)"

text \<open>A result of a computation that may not end, or panic.\<close>

definition bindP :: "'a res option \<Rightarrow> ('a \<Rightarrow> 'b res option) \<Rightarrow> 'b res option" where
  "bindP m f = Option.bind m (\<lambda>r. bindO r f)"

lemma bindP_simps [simp]: "bindP None f = None" "bindP (Some (Inl e)) f = Some (Inl e)" "bindP (Some (Inr x)) f = f x"
  by (simp_all add: bindP_def)

definition add_region_to_bst :: "vm_root \<Rightarrow> addr \<Rightarrow> vm \<Rightarrow> (int \<times> vm) res option" where
  "add_region_to_bst w r s =
     bindP (bst_insert (region_tree w s) r (region_compare (vm_regions s)))
      (\<lambda>(inserted, h).
        if inserted then Some (Inr (NO_ERROR, put_tree w h s))
        else bindP (bst_search (region_tree w s) r (region_compare (vm_regions s)))
          (\<lambda>r_coll. Some (Inr (ERR_NO_MEMORY, put_tree w h s))))"

definition add_region_to_aspace :: "addr \<Rightarrow> addr \<Rightarrow> vm \<Rightarrow> (int \<times> vm) res option" where
  "add_region_to_aspace aspace r s =
     (if rg_size (vm_regions s r) = 0 then Some (Inr (ERR_OUT_OF_RANGE, s))
      else bindO (is_region_inside_aspace (vm_aspaces s aspace) (vm_regions s r))
        (\<lambda>inside. if \<not> inside then Some (Inr (ERR_OUT_OF_RANGE, s)) else add_region_to_bst (Aspace_root aspace) r s))"

definition add_region_to_vmm_res_obj :: "addr \<Rightarrow> addr \<Rightarrow> vm \<Rightarrow> (int \<times> vm) res option" where
  "add_region_to_vmm_res_obj ob r s = add_region_to_bst (Res_root ob) r s"

section \<open>Free spots\<close>

definition arch_mmu_pick_spot :: "vaddr \<Rightarrow> uint32 \<Rightarrow> vaddr \<Rightarrow> uint32 \<Rightarrow> vaddr \<Rightarrow> nat \<Rightarrow> uint32 \<Rightarrow> vaddr" where
  "arch_mmu_pick_spot base prev_region_arch_mmu_flags end_addr next_region_arch_mmu_flags alignment sz arch_mmu_flags =
     round_up base alignment"

definition next_spot :: "uint32 \<Rightarrow> uint32 \<Rightarrow> vaddr \<Rightarrow> vaddr \<Rightarrow> vaddr \<Rightarrow> nat \<Rightarrow> uint32 \<Rightarrow> vaddr option" where
  "next_spot prev_flags next_flags low high align sz arch_mmu_flags =
     (let candidate = arch_mmu_pick_spot low prev_flags high next_flags align sz arch_mmu_flags
      in if candidate < low \<or> candidate > high then None
         else case add_overflow candidate (size_sub sz 1) of
           None \<Rightarrow> None
         | Some candidate_end \<Rightarrow> if candidate_end > high then None else Some candidate)"

definition extract_gap :: "vmm_aspace \<Rightarrow> vmm_region option \<Rightarrow> vmm_region option \<Rightarrow> (vaddr \<times> vaddr) option res" where
  "extract_gap aspace low high =
     guardE ''size'' (as_size aspace \<noteq> 0)
      (case (case low of
               None \<Rightarrow> Some (as_base aspace)
             | Some l \<Rightarrow> (case add_overflow (rg_base l) (rg_size l) of None \<Rightarrow> None | Some g \<Rightarrow> add_overflow g PAGE_SIZE)) of
         None \<Rightarrow> Inr None
       | Some gap_low \<Rightarrow>
          guardE ''high->base'' (case high of None \<Rightarrow> True | Some r \<Rightarrow> rg_base r \<noteq> 0)
          (let gap_high_val = (case high of
                 None \<Rightarrow> add64 (as_base aspace) (size_sub (as_size aspace) 1) | Some r \<Rightarrow> size_sub (rg_base r) 1)
           in case sub_overflow gap_high_val PAGE_SIZE of
                None \<Rightarrow> Inr None
              | Some gap_high \<Rightarrow> Inr (if gap_low > gap_high then None else Some (gap_low, gap_high))))"

abbreviation ARCH_MMU_FLAG_INVALID :: uint32 where "ARCH_MMU_FLAG_INVALID \<equiv> 0x80"

definition neighbour_flags :: "vmm_region option \<Rightarrow> uint32" where
  "neighbour_flags r = (case r of None \<Rightarrow> ARCH_MMU_FLAG_INVALID | Some x \<Rightarrow> rg_arch_mmu_flags x)"

text \<open>The loop that looks for the last spot, and the base it ends with.\<close>

partial_function (option) last_spot :: "(vaddr \<Rightarrow> vaddr option) \<Rightarrow> vaddr \<Rightarrow> vaddr \<Rightarrow> vaddr option" where
  "last_spot next first_base final_base =
     (case next final_base of
        Some b \<Rightarrow> Some b
      | None \<Rightarrow> if size_sub final_base first_base < PAGE_SIZE then Some final_base
                else last_spot next first_base (size_sub final_base PAGE_SIZE))"

definition scan_gap :: "vmm_aspace \<Rightarrow> vmm_region option \<Rightarrow> vmm_region option \<Rightarrow> vaddr \<Rightarrow> nat \<Rightarrow> uint32 \<Rightarrow> nat res option" where
  "scan_gap aspace low high alignment sz arch_mmu_flags =
     bindO (extract_gap aspace low high)
      (\<lambda>gap. case gap of
         None \<Rightarrow> Some (Inr 0)
       | Some (low_addr, high_addr) \<Rightarrow>
          (let next = (\<lambda>b. next_spot (neighbour_flags low) (neighbour_flags high) b high_addr alignment sz arch_mmu_flags)
           in case next low_addr of
                None \<Rightarrow> Some (Inr 0)
              | Some first_base \<Rightarrow>
                  Option.bind (last_spot next first_base (round_down (size_sub high_addr (size_sub sz 1)) PAGE_SIZE))
                    (\<lambda>final_base. Some (Inr (add64 (drop_bit PAGE_SIZE_SHIFT (size_sub final_base first_base)) 1)))))"

definition spot_in_gap ::
    "vmm_aspace \<Rightarrow> vmm_region option \<Rightarrow> vmm_region option \<Rightarrow> vaddr \<Rightarrow> nat \<Rightarrow> uint32 \<Rightarrow> nat \<Rightarrow> vaddr res" where
  "spot_in_gap aspace low high align sz arch_mmu_flags index =
     bindE (extract_gap aspace low high)
      (\<lambda>gap. case gap of
         None \<Rightarrow> Inl (Panic ''spot_in_gap() called on a 0-sz region'')
       | Some (low_addr, high_addr) \<Rightarrow>
          (let next = (\<lambda>b. next_spot (neighbour_flags low) (neighbour_flags high) b high_addr align sz arch_mmu_flags)
           in case next low_addr of
                None \<Rightarrow> Inl (Panic ''spot_in_gap() called on a region with no available mappings'')
              | Some base \<Rightarrow>
                 (case next (add64 base ((index * PAGE_SIZE) mod 2 ^ 64)) of
                    None \<Rightarrow> Inl (Panic ''spot_in_gap() with an index with no mapping option'')
                  | Some b \<Rightarrow> Inr b)))"

text \<open>
  The two loops of \<^verbatim>\<open>alloc_spot\<close> over the regions from the lowest to the highest, with what follows them. They do not change the tree.
\<close>

fun count_choices :: "vmm_aspace \<Rightarrow> vaddr \<Rightarrow> nat \<Rightarrow> uint32 \<Rightarrow> vmm_region option \<Rightarrow> vmm_region list \<Rightarrow> nat \<Rightarrow> nat res option" where
  "count_choices aspace align sz fl lft [] choices =
     bindP (scan_gap aspace lft None align sz fl) (\<lambda>n. Some (Inr (add64 choices n)))"
| "count_choices aspace align sz fl lft (rgt # rs) choices =
     bindP (scan_gap aspace lft (Some rgt) align sz fl)
      (\<lambda>n. count_choices aspace align sz fl (Some rgt) rs (add64 choices n))"

fun pick_choice :: "vmm_aspace \<Rightarrow> vaddr \<Rightarrow> nat \<Rightarrow> uint32 \<Rightarrow> vmm_region option \<Rightarrow> vmm_region list \<Rightarrow> nat \<Rightarrow> vaddr res option" where
  "pick_choice aspace align sz fl lft [] index = Some (spot_in_gap aspace lft None align sz fl index)"
| "pick_choice aspace align sz fl lft (rgt # rs) index =
     bindP (scan_gap aspace lft (Some rgt) align sz fl)
      (\<lambda>local_spots.
        if local_spots > index then Some (spot_in_gap aspace lft (Some rgt) align sz fl index)
        else pick_choice aspace align sz fl (Some rgt) rs (size_sub index local_spots))"

text \<open>\<open>rand\<close> is \<^verbatim>\<open>rand_get_size\<close>, or constantly 0 without \<^verbatim>\<open>ASLR\<close>.\<close>

definition alloc_spot :: "(nat \<Rightarrow> nat) \<Rightarrow> addr \<Rightarrow> nat \<Rightarrow> nat \<Rightarrow> uint32 \<Rightarrow> vm \<Rightarrow> vaddr res option" where
  "alloc_spot rand aspace sz align_pow2 arch_mmu_flags s =
     bindO (guardE ''size'' (sz > 0 \<and> IS_PAGE_ALIGNED sz) (Inr ()))
      (\<lambda>_. let align = (push_bit (max align_pow2 PAGE_SIZE_SHIFT) 1) mod 2 ^ 64; a = vm_aspaces s aspace
        in bindP (bst_for_every_entry (\<lambda>_ h. Some (Inr h)) (region_tree (Aspace_root aspace) s))
          (\<lambda>(entries, _). let rs = map (vm_regions s) entries
            in bindP (count_choices a align sz arch_mmu_flags None rs 0)
              (\<lambda>choices. if choices = 0 then Some (Inr (2 ^ 64 - 1))
                else pick_choice a align sz arch_mmu_flags None rs (rand (choices - 1)))))"

definition vmm_find_spot :: "(nat \<Rightarrow> nat) \<Rightarrow> addr \<Rightarrow> nat \<Rightarrow> vm \<Rightarrow> (bool \<times> vaddr) res option" where
  "vmm_find_spot rand aspace sz s =
     bindP (alloc_spot rand aspace sz PAGE_SIZE_SHIFT 0 s) (\<lambda>out. Some (Inr (out \<noteq> 2 ^ 64 - 1, out)))"

section \<open>Finding, allocating and freeing regions\<close>

definition vmm_find_region_in_bst :: "vm_root \<Rightarrow> vaddr \<Rightarrow> nat \<Rightarrow> vm \<Rightarrow> addr res option" where
  "vmm_find_region_in_bst w vaddr sz s =
     (let vaddr = round_down vaddr PAGE_SIZE;
          r_ref = \<lparr>rg_name = [], rg_flags = VMM_FLAG_NO_START_GUARD OR VMM_FLAG_NO_END_GUARD, rg_arch_mmu_flags = 0,
             rg_base = vaddr, rg_slice = vmm_obj_slice_init\<lparr>sl_size := (if sz \<noteq> 0 then sz else PAGE_SIZE)\<rparr>\<rparr>
      in Option.bind (bst_search_key (region_tree w s) r_ref (\<lambda>a. vmm_region_cmp (vm_regions s a)))
        (\<lambda>r. if r = 0 then Some (Inr 0)
          else let reg = vm_regions s r
            in bindO (is_inside_region reg vaddr)
              (\<lambda>inside. if inside then Some (Inr r)
                else bindO (guardE ''guard page'' (vaddr = size_sub (rg_base reg) PAGE_SIZE \<or> vaddr = add64 (rg_base reg) (rg_size reg)) (Inr ()))
                  (\<lambda>_. Some (Inr 0)))))"

text \<open>With the lock held.\<close>

definition vmm_find_region :: "addr \<Rightarrow> vaddr \<Rightarrow> vm \<Rightarrow> addr res option" where
  "vmm_find_region aspace vaddr s = vmm_find_region_in_bst (Aspace_root aspace) vaddr PAGE_SIZE s"

definition vmm_obj_to_res_vmm_obj :: "addr \<Rightarrow> vm \<Rightarrow> addr res" where
  "vmm_obj_to_res_vmm_obj ob s = guardE ''vmm_res_obj_check_flags'' (vm_res s ob \<noteq> None) (Inr ob)"

text \<open>The part of \<^verbatim>\<open>alloc_region\<close> for a specific address; it returns the status and the tree the region went to.\<close>

definition alloc_specific :: "addr \<Rightarrow> nat \<Rightarrow> vaddr \<Rightarrow> addr \<Rightarrow> vm \<Rightarrow> (int \<times> vm_root \<times> vm) res option" where
  "alloc_specific aspace sz vaddr r s =
     bindP (vmm_find_region_in_bst (Aspace_root aspace) vaddr sz s)
      (\<lambda>reserved.
        if reserved \<noteq> 0 then
          if rg_flags (vm_regions s reserved) AND VMM_FLAG_NO_PHYSICAL \<noteq> 0 then
            bindO (is_range_inside_region (vm_regions s reserved) vaddr sz)
             (\<lambda>inside.
               if \<not> inside then Some (Inr (ERR_INVALID_ARGS, Aspace_root aspace, s))
               else let reg = vm_regions s r;
                        s1 = s\<lparr>vm_regions := (vm_regions s)(r := reg\<lparr>rg_flags := rg_flags reg OR (VMM_FLAG_NO_START_GUARD OR VMM_FLAG_NO_END_GUARD)\<rparr>)\<rparr>
                    in bindO (vmm_obj_to_res_vmm_obj (sl_obj (rg_slice (vm_regions s1 reserved))) s1)
                      (\<lambda>res_obj. bindP (add_region_to_vmm_res_obj res_obj r s1)
                        (\<lambda>(ret, s2). Some (Inr (ret, Res_root res_obj, s2)))))
          else Some (Inr (ERR_NO_MEMORY, Aspace_root aspace, s))
        else bindP (add_region_to_aspace aspace r s) (\<lambda>(ret, s1). Some (Inr (ret, Aspace_root aspace, s1))))"

text \<open>The result: the status and, on success, the tree the region is in.\<close>

definition alloc_region :: "(nat \<Rightarrow> nat) \<Rightarrow> addr \<Rightarrow> addr \<Rightarrow> string \<Rightarrow> nat \<Rightarrow> vaddr \<Rightarrow> nat \<Rightarrow> uint32 \<Rightarrow> uint32 \<Rightarrow> uint32 \<Rightarrow> vm \<Rightarrow>
    (int \<times> vm_root option \<times> vm) res option" where
  "alloc_region rand r aspace name sz vaddr align_pow2 vmm_flags region_flags arch_mmu_flags s =
     bindO (guardE ''vmm_flags'' (vmm_flags AND VMM_REGION_FLAG_INTERNAL_MASK = 0)
       (guardE ''vaddr'' (vaddr = arch_adjusted_vaddr vaddr (as_flags (vm_aspaces s aspace) AND VMM_ASPACE_FLAG_KERNEL \<noteq> 0)) (Inr ())))
      (\<lambda>_. let s1 = alloc_region_struct r name vaddr sz (region_flags OR vmm_flags) arch_mmu_flags s
        in if r = 0 then Some (Inr (ERR_NO_MEMORY, None, s1))
           else if vmm_flags AND VMM_FLAG_VALLOC_SPECIFIC \<noteq> 0 then
             bindP (alloc_specific aspace sz vaddr r s1)
              (\<lambda>(ret, w, s2). Some (Inr (if ret < 0 then (ret, None, s2) else (NO_ERROR, Some w, s2))))
           else if vmm_flags AND VMM_FLAG_NO_START_GUARD \<noteq> 0 \<or> vmm_flags AND VMM_FLAG_NO_END_GUARD \<noteq> 0 then
             Some (Inr (ERR_INVALID_ARGS, None, s1))
           else bindP (alloc_spot rand aspace sz align_pow2 arch_mmu_flags s1)
             (\<lambda>spot. if spot = 2 ^ 64 - 1 then Some (Inr (ERR_NO_MEMORY, None, s1))
               else let s2 = s1\<lparr>vm_regions := (vm_regions s1)(r := (vm_regions s1 r)\<lparr>rg_base := spot\<rparr>)\<rparr>
                 in bindP (bst_insert (region_tree (Aspace_root aspace) s2) r (region_compare (vm_regions s2)))
                   (\<lambda>(inserted, h). bindO (guardE ''bst_insert'' inserted (Inr ()))
                     (\<lambda>_. Some (Inr (NO_ERROR, Some (Aspace_root aspace), put_tree (Aspace_root aspace) h s2))))))"

text \<open>\<open>flags\<close> is what \<^verbatim>\<open>arch_mmu_query\<close> reports for the address.\<close>

definition vmm_reserve_space :: "(vaddr \<Rightarrow> uint32) \<Rightarrow> addr \<Rightarrow> addr \<Rightarrow> string \<Rightarrow> nat \<Rightarrow> vaddr \<Rightarrow> vm \<Rightarrow> (int \<times> vm) res option" where
  "vmm_reserve_space query r aspace name sz vaddr s =
     bindO (guardE ''vaddr'' (IS_PAGE_ALIGNED vaddr) (guardE ''size'' (IS_PAGE_ALIGNED sz) (Inr ())))
      (\<lambda>_. if aspace = 0 then Some (Inr (ERR_INVALID_ARGS, s))
        else if sz = 0 then Some (Inr (NO_ERROR, s))
        else if \<not> IS_PAGE_ALIGNED vaddr \<or> \<not> IS_PAGE_ALIGNED sz then Some (Inr (ERR_INVALID_ARGS, s))
        else bindO (is_inside_aspace (vm_aspaces s aspace) vaddr)
          (\<lambda>inside. if \<not> inside then Some (Inr (ERR_OUT_OF_RANGE, s))
            else bindO (trim_to_aspace (vm_aspaces s aspace) vaddr sz)
              (\<lambda>size1. bindP (alloc_region (\<lambda>_. 0) r aspace name size1 vaddr 0 VMM_FLAG_VALLOC_SPECIFIC
                    VMM_REGION_FLAG_RESERVED (query vaddr) s)
                (\<lambda>(ret, _, s1). Some (Inr (ret, s1))))))"

definition vmm_region_is_match :: "addr \<Rightarrow> vm \<Rightarrow> vaddr \<Rightarrow> nat \<Rightarrow> uint32 \<Rightarrow> bool res" where
  "vmm_region_is_match r s va sz flags =
     (if r = 0 then Inr False
      else if flags AND VMM_FREE_REGION_FLAG_EXPAND \<noteq> 0 then is_range_inside_region (vm_regions s r) va sz
      else Inr (rg_base (vm_regions s r) = va \<and> rg_size (vm_regions s r) = sz))"

text \<open>What freeing a region gives back: the pages to unmap, the object to release and the structure.\<close>

record freed =
  fr_unmap :: "vaddr \<times> nat"
  fr_obj :: addr
  fr_region :: addr

definition vmm_free_region_etc :: "addr \<Rightarrow> vaddr \<Rightarrow> nat \<Rightarrow> uint32 \<Rightarrow> vm \<Rightarrow> (int \<times> freed option \<times> vm) res option" where
  "vmm_free_region_etc aspace vaddr sz flags s =
     bindO (guardE ''vaddr'' (vaddr = arch_adjusted_vaddr vaddr (as_flags (vm_aspaces s aspace) AND VMM_ASPACE_FLAG_KERNEL \<noteq> 0)) (Inr ()))
      (\<lambda>_. bindP (vmm_find_region aspace vaddr s)
       (\<lambda>r. bindO (vmm_region_is_match r s vaddr sz flags)
        (\<lambda>match. if \<not> match then Some (Inr (ERR_NOT_FOUND, None, s))
          else bindP (bst_delete (region_tree (Aspace_root aspace) s) r)
           (\<lambda>h. let reg = vm_regions s r; ob = sl_obj (rg_slice reg);
                    s1 = put_tree (Aspace_root aspace) h s
                in Some (Inr (NO_ERROR, Some \<lparr>fr_unmap = (rg_base reg, rg_size reg div PAGE_SIZE), fr_obj = ob, fr_region = r\<rparr>,
                     s1\<lparr>vm_regions := (vm_regions s1)(r := reg\<lparr>rg_slice := (rg_slice reg)\<lparr>sl_obj := 0\<rparr>\<rparr>)\<rparr>))))))"

definition vmm_free_region :: "addr \<Rightarrow> vaddr \<Rightarrow> vm \<Rightarrow> (int \<times> freed option \<times> vm) res option" where
  "vmm_free_region aspace vaddr s = vmm_free_region_etc aspace vaddr 1 VMM_FREE_REGION_FLAG_EXPAND s"

end
