(* ===== verification/Vmm_Spot.thy ===== *)
theory Vmm_Spot
  imports Vmm_Region
begin

text \<open>
  The search for a free spot: whatever the random choice, \<^verbatim>\<open>alloc_spot\<close> returns an aligned address at which a region
  with its guard pages touches no other region, and it gives up only if there is none. In particular none
  of the panics of \<^verbatim>\<open>spot_in_gap\<close> is reached and no sum wraps around.
\<close>

section \<open>Rounding\<close>

lemma and_not64:
  assumes "v < 2 ^ 64" "k \<le> 64"
  shows "v AND not64 (2 ^ k - 1) = v - v mod 2 ^ k"
proof -
  have e: "not64 (2 ^ k - 1) = push_bit k (mask (64 - k))"
  proof -
    have "(2 :: nat) ^ k * 2 ^ (64 - k) = 2 ^ 64" using assms(2) by (simp flip: power_add)
    then show ?thesis by (simp add: not64_def push_bit_eq_mult mask_eq_exp_minus_1 diff_mult_distrib2 mult.commute [of "2 ^ k - _"] mult.commute [of _ "2 ^ k"])
  qed
  have "v AND push_bit k (mask (64 - k)) = push_bit k (drop_bit k v)"
  proof (rule bit_eqI)
    fix n
    have "bit v n \<Longrightarrow> n < 64" using assms(1) by (metis bit_take_bit_iff take_bit_nat_eq_self_iff)
    then show "bit (v AND push_bit k (mask (64 - k))) n \<longleftrightarrow> bit (push_bit k (drop_bit k v)) n"
      by (auto simp: bit_and_iff bit_push_bit_iff bit_mask_iff bit_drop_bit_eq)
  qed
  also have "\<dots> = v - v mod 2 ^ k" by (simp add: push_bit_eq_mult drop_bit_eq_div minus_mod_eq_div_mult)
  finally show ?thesis unfolding e .
qed

lemma size_sub_pow2 [simp]: "size_sub (2 ^ k) 1 = 2 ^ k - 1"
  by (simp add: size_sub_def)

lemma size_sub_le [simp]: "b \<le> a \<Longrightarrow> size_sub a b = a - b"
  by (simp add: size_sub_def)

lemma round_down_pow2: "v < 2 ^ 64 \<Longrightarrow> k \<le> 64 \<Longrightarrow> round_down v (2 ^ k) = v - v mod 2 ^ k"
  by (simp only: round_down_def size_sub_pow2 and_not64)

lemma page_pow2: "(4096 :: nat) = 2 ^ 12"
  by simp

lemma round_down_page:
  assumes "v < 2 ^ 64"
  shows "round_down v PAGE_SIZE = v - v mod PAGE_SIZE"
  using round_down_pow2 [OF assms, of 12] by simp

text \<open>Rounding up gives the least multiple that is not below, unless that is out of range: then the result is 0.\<close>

lemma round_up_pow2:
  assumes v: "v < 2 ^ 64" and k: "k < 64"
  shows "if v + (2 ^ k - 1) < 2 ^ 64 then 2 ^ k dvd round_up v (2 ^ k) \<and> v \<le> round_up v (2 ^ k) \<and> round_up v (2 ^ k) < v + 2 ^ k
    else round_up v (2 ^ k) = 0"
proof -
  let ?w = "add64 v (2 ^ k - 1)"
  have w: "?w < 2 ^ 64" by (simp add: add64_def)
  have r: "round_up v (2 ^ k) = ?w - ?w mod 2 ^ k"
    unfolding round_up_def size_sub_pow2 using and_not64 [OF w] k by simp
  show ?thesis
  proof (cases "v + (2 ^ k - 1) < 2 ^ 64")
    case True
    then have e: "?w = v + (2 ^ k - 1)" by (simp add: add64_def)
    have m: "?w mod 2 ^ k < 2 ^ k" "?w mod 2 ^ k \<le> ?w" by simp_all
    have "2 ^ k dvd ?w - ?w mod 2 ^ k" by (simp add: minus_mod_eq_mult_div)
    moreover have "v \<le> ?w - ?w mod 2 ^ k" "?w - ?w mod 2 ^ k < v + 2 ^ k" using m unfolding e by linarith+
    ultimately show ?thesis using True by (simp add: r)
  next
    case False
    have p: "(2 :: nat) ^ k \<le> 2 ^ 64" using k by (intro power_increasing) simp_all
    with False v have "?w = v + (2 ^ k - 1) - 2 ^ 64" unfolding add64_def by (intro mod_nat_eqI) auto
    moreover have "(1 :: nat) \<le> 2 ^ k" by simp
    ultimately have "?w < 2 ^ k" using v False by linarith
    with False show ?thesis by (simp add: r)
  qed
qed

section \<open>Spots in a gap\<close>

text \<open>An aligned base in a range.\<close>

definition spot_between :: "vaddr \<Rightarrow> vaddr \<Rightarrow> nat \<Rightarrow> nat \<Rightarrow> vaddr \<Rightarrow> bool" where
  "spot_between lo hi k sz v \<longleftrightarrow> 2 ^ k dvd v \<and> lo \<le> v \<and> v + (sz - 1) \<le> hi"

text \<open>The sizes and alignments for which a spot is looked for.\<close>

definition spot_request :: "nat \<Rightarrow> nat \<Rightarrow> bool" where
  "spot_request k sz \<longleftrightarrow> 12 \<le> k \<and> k < 64 \<and> PAGE_SIZE \<le> sz \<and> sz < 2 ^ 64"

lemma next_spot_ok:
  assumes "spot_request k sz" "hi < 2 ^ 64" "lo < 2 ^ 64"
  shows "case next_spot p n lo hi (2 ^ k) sz fl of
      None \<Rightarrow> \<forall>u. \<not> spot_between lo hi k sz u
    | Some v \<Rightarrow> spot_between lo hi k sz v \<and> (\<forall>u. spot_between lo hi k sz u \<longrightarrow> v \<le> u)"
proof -
  let ?c = "round_up lo (2 ^ k)"
  have least: "?c \<le> u" if "2 ^ k dvd u" "lo \<le> u" "?c < lo + 2 ^ k" "2 ^ k dvd ?c" for u
  proof (rule ccontr)
    assume "\<not> ?c \<le> u"
    then have "2 ^ k dvd ?c - u" "0 < ?c - u" using that(1,4) by (auto intro: dvd_diff_nat)
    then have "2 ^ k \<le> ?c - u" using dvd_imp_le by blast
    with that \<open>0 < ?c - u\<close> show False by linarith
  qed
  have none: False if "2 ^ k dvd u" "lo \<le> u" "u < 2 ^ 64" "\<not> lo + (2 ^ k - 1) < 2 ^ 64" for u
  proof -
    have "2 ^ k dvd (2 :: nat) ^ 64" using assms(1) by (intro le_imp_power_dvd) (simp add: spot_request_def)
    then have "2 ^ k dvd 2 ^ 64 - u" using that(1) by (rule dvd_diff_nat)
    then have "2 ^ k \<le> 2 ^ 64 - u" using that(3) by (intro dvd_imp_le) simp_all
    moreover have "(1 :: nat) \<le> 2 ^ k" by simp
    ultimately show False using that by linarith
  qed
  have "k < 64" "sz \<noteq> 0" using assms(1) by (auto simp: spot_request_def)
  note r = round_up_pow2 [OF assms(3) this(1)]
  show ?thesis
  proof (cases "lo + (2 ^ k - 1) < 2 ^ 64")
    case True
    with r have c: "2 ^ k dvd ?c" "lo \<le> ?c" "?c < lo + 2 ^ k" by simp_all
    then have n: "next_spot p n lo hi (2 ^ k) sz fl = (if ?c + (sz - 1) \<le> hi then Some ?c else None)"
      using assms(2) \<open>sz \<noteq> 0\<close> by (auto simp: next_spot_def arch_mmu_pick_spot_def Let_def add_overflow_def)
    show ?thesis using c least unfolding n by (fastforce simp: spot_between_def)
  next
    case False
    have "(0 :: nat) < lo" using False assms(3) \<open>k < 64\<close> by (metis False add_0 diff_le_self linorder_not_less not_gr_zero order_le_less_trans power_strict_increasing_iff one_less_numeral_iff semiring_norm(76))
    with r False have "next_spot p n lo hi (2 ^ k) sz fl = None"
      by (simp add: next_spot_def arch_mmu_pick_spot_def)
    with none [OF _ _ _ False] assms(2) show ?thesis by (fastforce simp: spot_between_def)
  qed
qed

text \<open>The last spot: the loop ends, with a spot.\<close>

lemma page_gap:
  assumes "PAGE_SIZE dvd a" "PAGE_SIZE dvd b" "b \<le> a" "a - b < PAGE_SIZE"
  shows "a = (b :: nat)"
  using assms by (metis dvd_diff_nat dvd_imp_le le_antisym diff_is_0_eq linorder_not_less not_gr_zero)

lemma dvd_page: "12 \<le> k \<Longrightarrow> 2 ^ k dvd v \<Longrightarrow> PAGE_SIZE dvd (v :: nat)"
  using dvd_trans [OF le_imp_power_dvd, of 12 k "2 :: nat" v] by simp

lemma last_spot_ok:
  assumes q: "spot_request k sz" "hi < 2 ^ 64" and f: "spot_between lo hi k sz first"
    and b: "PAGE_SIZE dvd b" "first \<le> b" "b < 2 ^ 64"
  shows "\<exists>c. last_spot (\<lambda>b. next_spot p n b hi (2 ^ k) sz fl) first b = Some c \<and> first \<le> c \<and> spot_between lo hi k sz c"
  using b
proof (induction "b - first" arbitrary: b rule: less_induct)
  case less
  note n = next_spot_ok [OF q less.prems(3), of p n fl]
  show ?case
  proof (cases "next_spot p n b hi (2 ^ k) sz fl")
    case (Some c)
    with n less.prems f have "first \<le> c" "spot_between lo hi k sz c" by (auto simp: spot_between_def)
    with Some show ?thesis by (subst last_spot.simps) simp
  next
    case None
    show ?thesis
    proof (cases "b - first < PAGE_SIZE")
      case True
      have "PAGE_SIZE dvd first" using q(1) f by (auto simp: spot_request_def spot_between_def intro: dvd_page)
      with True less.prems have "b = first" by (intro page_gap)
      with None f show ?thesis by (subst last_spot.simps) simp
    next
      case False
      then have "last_spot (\<lambda>b. next_spot p n b hi (2 ^ k) sz fl) first b = last_spot (\<lambda>b. next_spot p n b hi (2 ^ k) sz fl) first (b - PAGE_SIZE)"
        using None less.prems by (subst last_spot.simps) simp
      moreover have "PAGE_SIZE dvd b - PAGE_SIZE" using less.prems(1) by simp
      ultimately show ?thesis using less.hyps [of "b - PAGE_SIZE"] False less.prems by simp
    qed
  qed
qed

text \<open>A gap, and what counting and choosing in it give.\<close>

definition in_gap :: "vmm_aspace \<Rightarrow> vmm_region option \<times> vmm_region option \<Rightarrow> nat \<Rightarrow> nat \<Rightarrow> vaddr \<Rightarrow> bool" where
  "in_gap a g k sz v \<longleftrightarrow> (\<exists>lo hi. extract_gap a (fst g) (snd g) = Inr (Some (lo, hi)) \<and> spot_between lo hi k sz v)"

text \<open>The gap is understood: it has bounds in range, and a length of at most \<open>len\<close>.\<close>

definition gap_ok :: "vmm_aspace \<Rightarrow> vmm_region option \<times> vmm_region option \<Rightarrow> nat \<Rightarrow> bool" where
  "gap_ok a g len \<longleftrightarrow> (case extract_gap a (fst g) (snd g) of
      Inl e \<Rightarrow> False
    | Inr None \<Rightarrow> True
    | Inr (Some (lo, hi)) \<Rightarrow> lo \<le> hi \<and> hi < 2 ^ 64 \<and> hi - lo + 1 \<le> len)"

lemma scan_gap_ok:
  assumes q: "spot_request k sz" and g: "gap_ok a (l, r) len"
  shows "\<exists>n. scan_gap a l r (2 ^ k) sz fl = Some (Inr n) \<and> n * PAGE_SIZE \<le> len \<and> (n = 0 \<longrightarrow> (\<forall>v. \<not> in_gap a (l, r) k sz v)) \<and>
    (\<forall>i < n. \<exists>v. spot_in_gap a l r (2 ^ k) sz fl i = Inr v \<and> in_gap a (l, r) k sz v)"
proof (cases "extract_gap a l r")
  case (Inr gap)
  show ?thesis
  proof (cases gap)
    case None
    with Inr show ?thesis by (auto simp: scan_gap_def in_gap_def)
  next
    case (Some lh)
    obtain lo hi where lh: "lh = (lo, hi)" by fastforce
    with Some Inr g have e: "extract_gap a l r = Inr (Some (lo, hi))" and b: "lo \<le> hi" "hi < 2 ^ 64" "hi - lo + 1 \<le> len"
      by (auto simp: gap_ok_def)
    let ?next = "\<lambda>b. next_spot (neighbour_flags l) (neighbour_flags r) b hi (2 ^ k) sz fl"
    have ig: "in_gap a (l, r) k sz v \<longleftrightarrow> spot_between lo hi k sz v" for v by (simp add: in_gap_def e)
    have sz: "sz \<noteq> 0" "PAGE_SIZE \<le> sz" "12 \<le> k" using q by (auto simp: spot_request_def)
    have lo: "lo < 2 ^ 64" using b by simp
    note n = next_spot_ok [OF q b(2) lo, of "neighbour_flags l" "neighbour_flags r" fl]
    show ?thesis
    proof (cases "?next lo")
      case None
      with n ig show ?thesis by (simp add: scan_gap_def e)
    next
      case (Some first)
      with n have f: "spot_between lo hi k sz first" by simp
      let ?h = "hi - (sz - 1)" and ?b = "round_down (size_sub hi (size_sub sz 1)) PAGE_SIZE"
      have h: "first \<le> ?h" "sz - 1 \<le> hi" using f by (auto simp: spot_between_def)
      have be: "?b = ?h - ?h mod PAGE_SIZE" using round_down_page [of ?h] h b sz by simp
      have pf: "PAGE_SIZE dvd first" using f sz(3) by (auto simp: spot_between_def intro: dvd_page)
      have pb1: "PAGE_SIZE dvd ?b" unfolding be by (rule dvd_minus_mod)
      have pb2: "first \<le> ?b" unfolding be
        using h(1) pf by (metis div_le_mono dvd_div_mult_self minus_mod_eq_div_mult mult_le_mono1)
      have pb3: "?b < 2 ^ 64" unfolding be using b(2) by linarith
      from last_spot_ok [OF q b(2) f pb1 pb2 pb3, of "neighbour_flags l" "neighbour_flags r" fl] obtain c where
        c: "last_spot ?next first ?b = Some c" "first \<le> c" "spot_between lo hi k sz c" by blast
      define m where "m = (c - first) div PAGE_SIZE"
      have "PAGE_SIZE dvd c" using c(3) sz(3) by (auto simp: spot_between_def intro: dvd_page)
      then have m: "m * PAGE_SIZE = c - first" using pf by (simp add: m_def dvd_diff_nat)
      have ml: "m + 1 < 2 ^ 64" using m c(3) b(2) by (auto simp: spot_between_def)
      have scan: "scan_gap a l r (2 ^ k) sz fl = Some (Inr (m + 1))"
        using Some c(1,2) ml by (simp add: scan_gap_def e Let_def add64_def m_def drop_bit_eq_div)
      have "(m + 1) * PAGE_SIZE \<le> len" using m c b(3) f sz by (auto simp: spot_between_def)
      moreover have "\<exists>v. spot_in_gap a l r (2 ^ k) sz fl i = Inr v \<and> in_gap a (l, r) k sz v" if "i < m + 1" for i
      proof -
        let ?i = "first + i * PAGE_SIZE"
        have i: "?i \<le> c" using that m c(2) mult_le_mono1 [of i m PAGE_SIZE] by linarith
        then have il: "?i < 2 ^ 64" using c(3) b(2) by (auto simp: spot_between_def)
        have "spot_between ?i hi k sz c" using c(3) i by (simp add: spot_between_def)
        with next_spot_ok [OF q b(2) il, of "neighbour_flags l" "neighbour_flags r" fl] obtain v where
          v: "?next ?i = Some v" "spot_between ?i hi k sz v" by (auto split: option.splits)
        have "add64 first ((i * PAGE_SIZE) mod 2 ^ 64) = ?i" using il by (simp add: add64_def)
        with v(1) Some have "spot_in_gap a l r (2 ^ k) sz fl i = Inr v" by (simp add: spot_in_gap_def e Let_def)
        moreover have "in_gap a (l, r) k sz v" using v(2) f by (auto simp: ig spot_between_def)
        ultimately show ?thesis by blast
      qed
      ultimately show ?thesis using scan by auto
    qed
  qed
qed (use g in \<open>simp add: gap_ok_def\<close>)

section \<open>All gaps of an address space\<close>

definition aspace_wf :: "vmm_aspace \<Rightarrow> bool" where
  "aspace_wf a \<longleftrightarrow> PAGE_SIZE \<le> as_base a \<and> PAGE_SIZE < as_size a \<and> as_base a + as_size a \<le> 2 ^ 64"

fun gap_start :: "vmm_aspace \<Rightarrow> vmm_region option \<Rightarrow> nat" where
  "gap_start a None = as_base a"
| "gap_start a (Some l) = rg_base l + rg_size l"

fun gap_first :: "vmm_aspace \<Rightarrow> vmm_region option \<Rightarrow> nat" where
  "gap_first a None = as_base a"
| "gap_first a (Some l) = rg_base l + rg_size l + PAGE_SIZE"

text \<open>Regions from the lowest to the highest, in the address space and above \<open>lft\<close>.\<close>

fun regions_from :: "vmm_aspace \<Rightarrow> vmm_region option \<Rightarrow> vmm_region list \<Rightarrow> bool" where
  "regions_from a lft [] \<longleftrightarrow> gap_start a lft \<le> as_base a + as_size a"
| "regions_from a lft (r # rs) \<longleftrightarrow> gap_start a lft \<le> rg_base r \<and> 0 < rg_base r \<and> regions_from a (Some r) rs"

fun gaps :: "vmm_region option \<Rightarrow> vmm_region list \<Rightarrow> (vmm_region option \<times> vmm_region option) list" where
  "gaps lft [] = [(lft, None)]"
| "gaps lft (r # rs) = (lft, Some r) # gaps (Some r) rs"

lemma regions_from_end: "regions_from a lft rs \<Longrightarrow> gap_start a lft \<le> as_base a + as_size a"
  by (induction rs arbitrary: lft) fastforce+

lemma extract_gap_last:
  assumes "aspace_wf a" "gap_start a lft \<le> as_base a + as_size a"
  shows "extract_gap a lft None = Inr (if gap_first a lft + PAGE_SIZE < as_base a + as_size a
    then Some (gap_first a lft, as_base a + as_size a - 1 - PAGE_SIZE) else None)"
  using assms by (cases lft)
    (auto simp: extract_gap_def aspace_wf_def add_overflow_def sub_overflow_def add64_def Let_def split: if_splits)

lemma extract_gap_between:
  assumes "aspace_wf a" "gap_start a lft \<le> rg_base r" "0 < rg_base r" "rg_base r < 2 ^ 64"
  shows "extract_gap a lft (Some r) = Inr (if gap_first a lft + PAGE_SIZE < rg_base r
    then Some (gap_first a lft, rg_base r - 1 - PAGE_SIZE) else None)"
  using assms by (cases lft)
    (auto simp: extract_gap_def aspace_wf_def add_overflow_def sub_overflow_def add64_def Let_def split: if_splits)

lemma gap_start_first: "gap_start a lft \<le> gap_first a lft"
  by (cases lft) simp_all

lemma gap_ok_last:
  "aspace_wf a \<Longrightarrow> gap_start a lft \<le> as_base a + as_size a \<Longrightarrow> gap_ok a (lft, None) (as_base a + as_size a - gap_start a lft)"
  using gap_start_first [of a lft] by (auto simp: gap_ok_def extract_gap_last aspace_wf_def)

lemma gap_ok_between:
  "aspace_wf a \<Longrightarrow> gap_start a lft \<le> rg_base r \<Longrightarrow> 0 < rg_base r \<Longrightarrow> rg_base r < 2 ^ 64 \<Longrightarrow>
     gap_ok a (lft, Some r) (rg_base r - gap_start a lft)"
  using gap_start_first [of a lft] by (auto simp: gap_ok_def extract_gap_between)

lemma regions_from_Cons:
  assumes "aspace_wf a" "regions_from a lft (r # rs)"
  shows "gap_start a lft \<le> rg_base r" "0 < rg_base r" "rg_base r + rg_size r \<le> as_base a + as_size a"
    "as_base a + as_size a \<le> 2 ^ 64" "regions_from a (Some r) rs"
  using assms regions_from_end [of a "Some r" rs] by (auto simp: aspace_wf_def)

lemma choices_ok:
  assumes a: "aspace_wf a" and q: "spot_request k sz"
  shows "regions_from a lft rs \<Longrightarrow> (\<forall>r \<in> set rs. 0 < rg_size r) \<Longrightarrow>
    c * PAGE_SIZE + (as_base a + as_size a - gap_start a lft) \<le> 2 ^ 64 \<Longrightarrow>
    \<exists>n. count_choices a (2 ^ k) sz fl lft rs c = Some (Inr (c + n)) \<and>
      (n = 0 \<longrightarrow> (\<forall>g \<in> set (gaps lft rs). \<forall>v. \<not> in_gap a g k sz v)) \<and>
      (\<forall>i < n. \<exists>v. pick_choice a (2 ^ k) sz fl lft rs i = Some (Inr v) \<and> (\<exists>g \<in> set (gaps lft rs). in_gap a g k sz v))"
proof (induction rs arbitrary: lft c)
  case Nil
  then have "gap_start a lft \<le> as_base a + as_size a" by simp
  from scan_gap_ok [OF q gap_ok_last [OF a this], of fl] obtain n where
    n: "scan_gap a lft None (2 ^ k) sz fl = Some (Inr n)" "n * PAGE_SIZE \<le> as_base a + as_size a - gap_start a lft"
      "n = 0 \<longrightarrow> (\<forall>v. \<not> in_gap a (lft, None) k sz v)"
      "\<forall>i < n. \<exists>v. spot_in_gap a lft None (2 ^ k) sz fl i = Inr v \<and> in_gap a (lft, None) k sz v" by blast
  have "c + n < 2 ^ 64" using n(2) Nil(3) by simp
  with n show ?case by (simp add: add64_def)
next
  case (Cons r rs)
  note r = regions_from_Cons [OF a Cons.prems(1)]
  have "rg_base r < 2 ^ 64" using r(3,4) Cons.prems(2) by simp
  from scan_gap_ok [OF q gap_ok_between [OF a r(1,2) this], of fl] obtain n where
    n: "scan_gap a lft (Some r) (2 ^ k) sz fl = Some (Inr n)" "n * PAGE_SIZE \<le> rg_base r - gap_start a lft"
      "n = 0 \<longrightarrow> (\<forall>v. \<not> in_gap a (lft, Some r) k sz v)"
      "\<forall>i < n. \<exists>v. spot_in_gap a lft (Some r) (2 ^ k) sz fl i = Inr v \<and> in_gap a (lft, Some r) k sz v" by blast
  have cn: "(c + n) * PAGE_SIZE + (as_base a + as_size a - gap_start a (Some r)) \<le> 2 ^ 64"
    using n(2) Cons.prems(3) r(1,3) unfolding add_mult_distrib gap_start.simps by linarith
  then have "add64 c n = c + n" by (simp add: add64_def)
  moreover from Cons.IH [OF r(5) _ cn] Cons.prems(2) obtain m where
    m: "count_choices a (2 ^ k) sz fl (Some r) rs (c + n) = Some (Inr (c + n + m))"
      "m = 0 \<longrightarrow> (\<forall>g \<in> set (gaps (Some r) rs). \<forall>v. \<not> in_gap a g k sz v)"
      "\<forall>i < m. \<exists>v. pick_choice a (2 ^ k) sz fl (Some r) rs i = Some (Inr v) \<and> (\<exists>g \<in> set (gaps (Some r) rs). in_gap a g k sz v)" by auto
  ultimately have "count_choices a (2 ^ k) sz fl lft (r # rs) c = Some (Inr (c + (n + m)))" using n(1) by (simp add: add.assoc)
  moreover have "\<exists>v. pick_choice a (2 ^ k) sz fl lft (r # rs) i = Some (Inr v) \<and> (\<exists>g \<in> set (gaps lft (r # rs)). in_gap a g k sz v)"
    if "i < n + m" for i
  proof (cases "i < n")
    case True
    with n(1,4) show ?thesis by auto
  next
    case False
    then have "pick_choice a (2 ^ k) sz fl lft (r # rs) i = pick_choice a (2 ^ k) sz fl (Some r) rs (i - n)" using n(1) by simp
    moreover have "i - n < m" using that False by simp
    ultimately show ?thesis using m(3) by (metis gaps.simps(2) list.set_intros(2))
  qed
  ultimately show ?case using n(3) m(2) by auto
qed

text \<open>The addresses at which a region and its guard pages are clear of all others.\<close>

definition free_spot :: "vmm_aspace \<Rightarrow> vmm_region list \<Rightarrow> nat \<Rightarrow> nat \<Rightarrow> vaddr \<Rightarrow> bool" where
  "free_spot a rs k sz v \<longleftrightarrow> 2 ^ k dvd v \<and> as_base a \<le> v \<and> v + sz + PAGE_SIZE \<le> as_base a + as_size a \<and>
     (\<forall>r \<in> set rs. rg_base r + rg_size r + PAGE_SIZE \<le> v \<or> v + sz + PAGE_SIZE \<le> rg_base r)"

lemma regions_from_above: "regions_from a (Some l) rs \<Longrightarrow> r \<in> set rs \<Longrightarrow> rg_base l + rg_size l \<le> rg_base r"
proof (induction rs arbitrary: l)
  case (Cons x xs)
  then show ?case using Cons.IH [of x] by fastforce
qed simp

lemma gaps_free:
  assumes a: "aspace_wf a" and sz: "0 < sz"
  shows "regions_from a lft rs \<Longrightarrow> (\<forall>r \<in> set rs. 0 < rg_size r) \<Longrightarrow>
    (\<exists>g \<in> set (gaps lft rs). in_gap a g k sz v) \<longleftrightarrow>
      2 ^ k dvd v \<and> gap_first a lft \<le> v \<and> v + sz + PAGE_SIZE \<le> as_base a + as_size a \<and>
      (\<forall>r \<in> set rs. rg_base r + rg_size r + PAGE_SIZE \<le> v \<or> v + sz + PAGE_SIZE \<le> rg_base r)"
proof (induction rs arbitrary: lft)
  case Nil
  then show ?case using sz by (auto simp: in_gap_def extract_gap_last [OF a] spot_between_def)
next
  case (Cons r rs)
  note r = regions_from_Cons [OF a Cons.prems(1)]
  have "rg_base r < 2 ^ 64" using r(3,4) Cons.prems(2) by simp
  note e = extract_gap_between [OF a r(1,2) this]
  have g: "in_gap a (lft, Some r) k sz v \<longleftrightarrow> 2 ^ k dvd v \<and> gap_first a lft \<le> v \<and> v + sz + PAGE_SIZE \<le> rg_base r"
    using sz by (auto simp: in_gap_def e spot_between_def)
  have above: "rg_base r + rg_size r \<le> rg_base x" if "x \<in> set rs" for x using regions_from_above [OF r(5) that] .
  have first: "gap_first a lft \<le> rg_base r + PAGE_SIZE" using r(1) by (cases lft) simp_all
  have "(\<exists>g \<in> set (gaps lft (r # rs)). in_gap a g k sz v) \<longleftrightarrow> in_gap a (lft, Some r) k sz v \<or> (\<exists>g \<in> set (gaps (Some r) rs). in_gap a g k sz v)"
    by simp
  also have "\<dots> \<longleftrightarrow> 2 ^ k dvd v \<and> gap_first a lft \<le> v \<and> v + sz + PAGE_SIZE \<le> as_base a + as_size a \<and>
      (\<forall>r \<in> set (r # rs). rg_base r + rg_size r + PAGE_SIZE \<le> v \<or> v + sz + PAGE_SIZE \<le> rg_base r)"
    unfolding g using Cons.IH [OF r(5)] Cons.prems(2) above first r(3) by fastforce
  finally show ?case .
qed

text \<open>The whole search. \<open>rand\<close> stays within the range it is asked for.\<close>

lemma page_dvd: "IS_PAGE_ALIGNED x \<longleftrightarrow> PAGE_SIZE dvd x"
proof -
  have "x AND 4095 = take_bit 12 x" using take_bit_eq_mask [of 12 x] by (simp add: mask_eq_exp_minus_1)
  then show ?thesis by (simp add: IS_PAGE_ALIGNED_def take_bit_eq_mod dvd_eq_mod_eq_0)
qed

lemma delete_if_none: "delete_if (\<lambda>_. False) = (\<lambda>_ h. Some (Inr h))"
  by (simp add: fun_eq_iff delete_if_def)

lemma entries_ok:
  assumes "bst_tree h t" "wavl t"
  shows "\<exists>h'. bst_for_every_entry (\<lambda>_ h. Some (Inr h)) h = Some (Inr (addrs t, h'))"
  using bst_for_every_entry_ok [OF assms, of "\<lambda>_. False"] unfolding delete_if_none by blast

lemma alloc_spot_ok:
  assumes t: "bst_tree (region_tree (Aspace_root p) s) t" "wavl t"
    and a: "a = vm_aspaces s p" "aspace_wf a" and rs: "rs = map (vm_regions s) (addrs t)" "regions_from a None rs" "\<forall>r \<in> set rs. 0 < rg_size r"
    and sz: "0 < sz" "PAGE_SIZE dvd sz" "sz < 2 ^ 64" and k: "al < 64" and rand: "\<And>m. rand m \<le> m"
  shows "\<exists>v. alloc_spot rand p sz al fl s = Some (Inr v) \<and>
    (if v = 2 ^ 64 - 1 then \<forall>u. \<not> free_spot a rs (max al 12) sz u else free_spot a rs (max al 12) sz v)"
proof -
  let ?k = "max al 12"
  have q: "spot_request ?k sz" using sz k by (auto simp: spot_request_def dvd_imp_le)
  have "(2 :: nat) ^ ?k < 2 ^ 64" using k by (intro power_strict_increasing) simp_all
  then have al: "push_bit ?k 1 mod 2 ^ 64 = (2 :: nat) ^ ?k" by (simp add: push_bit_eq_mult)
  have free: "(\<exists>g \<in> set (gaps None rs). in_gap a g ?k sz v) \<longleftrightarrow> free_spot a rs ?k sz v" for v
    using gaps_free [OF a(2) sz(1) rs(2,3)] by (simp add: free_spot_def)
  have "0 * PAGE_SIZE + (as_base a + as_size a - gap_start a None) \<le> 2 ^ 64" using a(2) by (simp add: aspace_wf_def)
  from choices_ok [OF a(2) q rs(2,3) this, of fl] obtain n where n: "count_choices a (2 ^ ?k) sz fl None rs 0 = Some (Inr n)"
    "n = 0 \<longrightarrow> (\<forall>v. \<not> free_spot a rs ?k sz v)"
    "\<forall>i < n. \<exists>v. pick_choice a (2 ^ ?k) sz fl None rs i = Some (Inr v) \<and> free_spot a rs ?k sz v"
    using free by auto
  from entries_ok [OF t] obtain h' where
    e: "bst_for_every_entry (\<lambda>_ h. Some (Inr h)) (region_tree (Aspace_root p) s) = Some (Inr (addrs t, h'))" by blast
  have run: "alloc_spot rand p sz al fl s = (if n = 0 then Some (Inr (2 ^ 64 - 1)) else pick_choice a (2 ^ ?k) sz fl None rs (rand (n - 1)))"
    using sz n(1) unfolding alloc_spot_def al e a(1) [symmetric] by (simp add: page_dvd rs(1) [symmetric])
  show ?thesis
  proof (cases "n = 0")
    case True
    with n(2) run show ?thesis by simp
  next
    case False
    with rand [of "n - 1"] n(3) obtain v where v: "pick_choice a (2 ^ ?k) sz fl None rs (rand (n - 1)) = Some (Inr v)" "free_spot a rs ?k sz v"
      by (meson Nat.lessE diff_less le_less_trans less_one not_gr_zero)
    have "v \<noteq> 2 ^ 64 - 1" using v(2) a(2) by (auto simp: free_spot_def aspace_wf_def)
    with v False run show ?thesis by auto
  qed
qed

end
