(* ===== verification/Vmm_Aspace.thy ===== *)
theory Vmm_Aspace
  imports Vmm_Spot
begin

text \<open>
  The tree of the regions of an address space: \<^verbatim>\<open>vmm_region_cmp\<close> orders the regions, so that the balanced tree may be
  used with it (the interpretation \<open>ro\<close>), and allocating, finding and freeing keep the regions apart.
\<close>

section \<open>The order of the regions\<close>

text \<open>There is room for a guard page above the region; otherwise the comparison would wrap around.\<close>

definition region_sane :: "vmm_region \<Rightarrow> bool" where
  "region_sane r \<longleftrightarrow> 0 < rg_size r \<and> rg_base r + rg_size r + PAGE_SIZE \<le> 2 ^ 64"

definition below :: "vmm_region \<Rightarrow> vmm_region \<Rightarrow> bool" where
  "below a b \<longleftrightarrow> rg_base a + rg_size a + vmm_flags_guard (rg_flags a) (rg_flags b) \<le> rg_base b"

lemma guard_le: "vmm_flags_guard x y \<le> PAGE_SIZE"
  by (simp add: vmm_flags_guard_def)

lemma guard_trans: "vmm_flags_guard x z \<le> max (vmm_flags_guard x y) (vmm_flags_guard y z)"
  by (simp add: vmm_flags_guard_def)

lemma add64_id: "a + b < 2 ^ 64 \<Longrightarrow> add64 a b = a + b"
  by (simp add: add64_def)

lemma above_last:
  assumes "region_sane a" "region_sane b"
  shows "add64 (add64 (rg_base a) (size_sub (rg_size a) 1)) (vmm_rguard a b) < rg_base b \<longleftrightarrow> below a b"
proof -
  have "vmm_rguard a b \<le> PAGE_SIZE" using guard_le by (simp add: vmm_rguard_def)
  moreover have "0 < rg_size a" "rg_base a + rg_size a + PAGE_SIZE \<le> 2 ^ 64" using assms(1) by (simp_all add: region_sane_def)
  ultimately have "add64 (add64 (rg_base a) (size_sub (rg_size a) 1)) (vmm_rguard a b) = rg_base a + (rg_size a - 1) + vmm_rguard a b"
    by (simp add: add64_id)
  with assms show ?thesis by (auto simp: below_def vmm_rguard_def region_sane_def)
qed

lemma below_irrefl: "region_sane a \<Longrightarrow> below a b \<Longrightarrow> \<not> below b a"
  by (simp add: below_def region_sane_def)

lemma below_trans: "region_sane b \<Longrightarrow> below a b \<Longrightarrow> below b c \<Longrightarrow> below a c"
  using guard_trans [of "rg_flags a" "rg_flags c" "rg_flags b"] by (auto simp: below_def region_sane_def max_def split: if_splits)

lemma vmm_region_cmp_sane:
  "region_sane a \<Longrightarrow> region_sane b \<Longrightarrow> vmm_region_cmp a b = (if below a b then 1 else if below b a then - 1 else 0)"
  unfolding vmm_region_cmp_def above_last [of a b] above_last [of b a] by simp

interpretation ro: bst_order "region_compare rg" "\<lambda>r. region_sane (rg r)" for rg
proof
  fix a b c
  assume v: "region_sane (rg a)" "region_sane (rg b)"
  then show "0 < region_compare rg a b \<longleftrightarrow> region_compare rg b a < 0"
    using below_irrefl [of "rg a" "rg b"] by (simp add: vmm_region_cmp_sane)
  assume "region_sane (rg c)" "0 < region_compare rg a b" "0 < region_compare rg b c"
  with v show "0 < region_compare rg a c" using below_trans [of "rg b" "rg a" "rg c"]
    by (simp add: vmm_region_cmp_sane split: if_splits)
qed

section \<open>Trees of regions\<close>

definition regions_ok :: "vm_root \<Rightarrow> vm \<Rightarrow> addr list \<Rightarrow> bool" where
  "regions_ok w s xs \<longleftrightarrow> bst_ok (region_compare (vm_regions s)) (\<lambda>r. region_sane (vm_regions s r)) (region_tree w s) xs \<and>
     (\<forall>r \<in> set xs. PAGE_SIZE dvd rg_base (vm_regions s r) \<and> PAGE_SIZE dvd rg_size (vm_regions s r))"

definition inside :: "vmm_aspace \<Rightarrow> vmm_region \<Rightarrow> bool" where
  "inside a r \<longleftrightarrow> as_base a \<le> rg_base r \<and> rg_base r + rg_size r \<le> as_base a + as_size a"

definition aspace_ok :: "addr \<Rightarrow> vm \<Rightarrow> addr list \<Rightarrow> bool" where
  "aspace_ok p s xs \<longleftrightarrow> aspace_wf (vm_aspaces s p) \<and> regions_ok (Aspace_root p) s xs \<and>
     (\<forall>r \<in> set xs. inside (vm_aspaces s p) (vm_regions s r))"

lemma bst_ok_not_null: "bst_ok cmp valid h xs \<Longrightarrow> 0 \<notin> set xs \<and> distinct xs"
  using rep_not_null by (auto simp: bst_ok_def bst_tree_def)

lemma regions_ok_sane: "regions_ok w s xs \<Longrightarrow> r \<in> set xs \<Longrightarrow> region_sane (vm_regions s r)"
  by (simp add: regions_ok_def bst_ok_def ordered_def)

lemma regions_ok_not_null: "regions_ok w s xs \<Longrightarrow> 0 \<notin> set xs \<and> distinct xs"
  by (auto simp: regions_ok_def dest: bst_ok_not_null)

lemma regions_ok_below:
  assumes "regions_ok w s xs"
  shows "sorted_wrt (\<lambda>a b. below (vm_regions s a) (vm_regions s b)) xs"
proof -
  from assms have o: "sorted_wrt (\<lambda>a b. 0 < region_compare (vm_regions s) a b) xs" "\<forall>r \<in> set xs. region_sane (vm_regions s r)"
    by (simp_all add: regions_ok_def bst_ok_def ordered_def)
  show ?thesis by (rule sorted_wrt_mono_rel [OF _ o(1)]) (use o(2) in \<open>auto simp: vmm_region_cmp_sane split: if_splits\<close>)
qed

lemma regions_ok_apart:
  assumes "regions_ok w s xs" "a \<in> set xs" "b \<in> set xs" "a \<noteq> b"
  shows "below (vm_regions s a) (vm_regions s b) \<or> below (vm_regions s b) (vm_regions s a)"
  using regions_ok_below [OF assms(1)] assms(2-4) by (induction xs) auto

lemma regions_from_sorted:
  "sorted_wrt (\<lambda>a b. below (rg a) (rg b)) xs \<Longrightarrow> (\<forall>r \<in> set xs. inside a (rg r) \<and> region_sane (rg r) \<and> gap_start a l \<le> rg_base (rg r)) \<Longrightarrow>
     aspace_wf a \<Longrightarrow> gap_start a l \<le> as_base a + as_size a \<Longrightarrow> regions_from a l (map rg xs)"
proof (induction xs arbitrary: l)
  case (Cons x xs)
  have "regions_from a (Some (rg x)) (map rg xs)"
    using Cons.prems by (intro Cons.IH) (auto simp: inside_def below_def)
  with Cons.prems show ?case by (auto simp: inside_def aspace_wf_def)
qed simp

lemma aspace_regions_from:
  assumes "aspace_ok p s xs"
  shows "regions_from (vm_aspaces s p) None (map (vm_regions s) xs)"
  using assms regions_ok_sane [of "Aspace_root p" s xs]
  by (intro regions_from_sorted regions_ok_below [of "Aspace_root p"]) (auto simp: aspace_ok_def inside_def)

text \<open>The state apart from one tree.\<close>

lemma put_tree_simps [simp]:
  "vm_regions (put_tree w h s) = vm_regions s" "vm_nodes (put_tree w h s) = bst_nodes h"
  "region_tree w (put_tree w h s) = h"
  "as_base (vm_aspaces (put_tree w h s) p) = as_base (vm_aspaces s p)" "as_size (vm_aspaces (put_tree w h s) p) = as_size (vm_aspaces s p)"
  "w' \<noteq> w \<Longrightarrow> root_of w' (put_tree w h s) = root_of w' s"
  by (cases w; cases w'; auto simp: put_tree_def region_tree_def)+

lemma bst_tree_same:
  assumes "bst_tree h t" "bst_root h' = bst_root h" "\<And>x. x \<in> set (addrs t) \<Longrightarrow> bst_nodes h' x = bst_nodes h x"
  shows "bst_tree h' t"
  using assms rep_cong [of t h' h 0 "bst_root h"] by (simp add: bst_tree_def)

lemma regions_ok_cong:
  assumes "regions_ok w s xs" "root_of w s' = root_of w s" "\<And>x. x \<in> set xs \<Longrightarrow> vm_nodes s' x = vm_nodes s x"
    "\<And>x. x \<in> set xs \<Longrightarrow> vm_regions s' x = vm_regions s x"
  shows "regions_ok w s' xs"
proof -
  from assms(1) obtain t where t: "bst_tree (region_tree w s) t" "wavl t" "addrs t = xs"
    and o: "ordered (region_compare (vm_regions s)) (\<lambda>r. region_sane (vm_regions s r)) xs" by (auto simp: regions_ok_def bst_ok_def)
  have "bst_tree (region_tree w s') t" using assms(2,3) t(3) by (intro bst_tree_same [OF t(1)]) (simp_all add: region_tree_def)
  moreover have "ordered (region_compare (vm_regions s')) (\<lambda>r. region_sane (vm_regions s' r)) xs"
    using o assms(4) by (auto simp: ordered_def elim: sorted_wrt_mono_rel [rotated])
  ultimately show ?thesis using t assms(1,4) by (auto simp: regions_ok_def bst_ok_def)
qed

text \<open>Every other tree stays as it is when one tree is changed within its own nodes.\<close>

lemma regions_ok_frame:
  assumes "regions_ok w' s ys" "w' \<noteq> w" "set ys \<inter> A = {}" "same_outside A (region_tree w s) h"
  shows "regions_ok w' (put_tree w h s) ys"
  using assms by (intro regions_ok_cong [OF assms(1)]) (auto simp: same_outside_def region_tree_def)

section \<open>Finding a region\<close>

text \<open>A search by a range that is no region of the tree itself.\<close>

lemma search_ref:
  assumes ok: "regions_ok w s xs" and ref: "region_sane ref"
  shows "\<exists>n. bst_search_key (region_tree w s) ref (\<lambda>a. vmm_region_cmp (vm_regions s a)) = Some n \<and>
    (if n = 0 then \<forall>a \<in> set xs. vmm_region_cmp (vm_regions s a) ref \<noteq> 0
     else n \<in> set xs \<and> vmm_region_cmp (vm_regions s n) ref = 0)"
proof -
  let ?rg = "(vm_regions s)(0 := ref)"
  have z: "0 \<notin> set xs" using regions_ok_not_null [OF ok] by simp
  from ok obtain t where t: "bst_tree (region_tree w s) t" "addrs t = xs"
    and o: "ordered (region_compare (vm_regions s)) (\<lambda>r. region_sane (vm_regions s r)) xs" by (auto simp: regions_ok_def bst_ok_def)
  have "ordered (region_compare ?rg) (\<lambda>r. region_sane (?rg r)) xs"
    using o z by (auto simp: ordered_def elim: sorted_wrt_mono_rel [rotated])
  from ro.ordered_falls [OF this, of 0] ref have f: "falls (\<lambda>a. vmm_region_cmp (?rg a) ref) xs" by simp
  have nz: "a \<noteq> 0" if "a \<in> set xs" for a using that z by metis
  have "falls (\<lambda>a. vmm_region_cmp (vm_regions s a) ref) xs"
    unfolding falls_def by (rule sorted_wrt_mono_rel [OF _ f [unfolded falls_def]]) (simp add: nz)
  moreover have "rep (region_tree w s) 0 (bst_root (region_tree w s)) t" using t(1) by (simp add: bst_tree_def)
  ultimately show ?thesis unfolding bst_search_key_def t(2) [symmetric] by (intro search_loop_ok)
qed

definition range_ref :: "vaddr \<Rightarrow> nat \<Rightarrow> vmm_region" where
  "range_ref v sz = \<lparr>rg_name = [], rg_flags = VMM_FLAG_NO_START_GUARD OR VMM_FLAG_NO_END_GUARD, rg_arch_mmu_flags = 0,
     rg_base = v, rg_slice = vmm_obj_slice_init\<lparr>sl_size := sz\<rparr>\<rparr>"

lemma range_ref_simps [simp]: "rg_base (range_ref v sz) = v" "rg_size (range_ref v sz) = sz"
  by (simp_all add: range_ref_def)

text \<open>The guard pages a region asks for on its own.\<close>

definition end_guard :: "vmm_region \<Rightarrow> nat" where
  "end_guard r = (if rg_flags r AND VMM_FLAG_NO_END_GUARD = 0 then PAGE_SIZE else 0)"

definition start_guard :: "vmm_region \<Rightarrow> nat" where
  "start_guard r = (if rg_flags r AND VMM_FLAG_NO_START_GUARD = 0 then PAGE_SIZE else 0)"

lemma below_ref:
  "below r (range_ref v sz) \<longleftrightarrow> rg_base r + rg_size r + end_guard r \<le> v"
  "below (range_ref v sz) r \<longleftrightarrow> v + sz + start_guard r \<le> rg_base r"
  by (simp_all add: below_def range_ref_def end_guard_def start_guard_def vmm_flags_guard_def)

lemma guards_le: "end_guard a \<le> vmm_flags_guard (rg_flags a) (rg_flags b)" "start_guard b \<le> vmm_flags_guard (rg_flags a) (rg_flags b)"
  by (simp_all add: vmm_flags_guard_def end_guard_def start_guard_def)

lemma guard_cases: "end_guard r = 0 \<or> end_guard r = PAGE_SIZE" "start_guard r = 0 \<or> start_guard r = PAGE_SIZE"
  by (simp_all add: end_guard_def start_guard_def)

definition holds :: "vmm_region \<Rightarrow> vaddr \<Rightarrow> bool" where
  "holds r v \<longleftrightarrow> rg_base r \<le> v \<and> v < rg_base r + rg_size r"

lemma is_inside_region_sane:
  "region_sane r \<Longrightarrow> v < 2 ^ 64 \<Longrightarrow> is_inside_region r v = Inr (holds r v)"
  by (auto simp: is_inside_region_def range_contains_range_def add_overflow_def holds_def region_sane_def)

definition find_result :: "vm \<Rightarrow> addr \<Rightarrow> vaddr \<Rightarrow> addr res option" where
  "find_result s n v =
     (if n = 0 then Some (Inr 0) else if holds (vm_regions s n) v then Some (Inr n)
       else if v + PAGE_SIZE = rg_base (vm_regions s n) \<or> v = rg_base (vm_regions s n) + rg_size (vm_regions s n) then Some (Inr 0)
       else Some (Inl (Assertion_failed ''guard page'')))"

lemma find_in_bst:
  assumes ok: "regions_ok w s xs" and v: "PAGE_SIZE dvd v" "v + (if sz = 0 then PAGE_SIZE else sz) + PAGE_SIZE \<le> 2 ^ 64"
  shows "\<exists>n. vmm_find_region_in_bst w v sz s = find_result s n v \<and>
    (if n = 0 then \<forall>a \<in> set xs. vmm_region_cmp (vm_regions s a) (range_ref v (if sz = 0 then PAGE_SIZE else sz)) \<noteq> 0
     else n \<in> set xs \<and> vmm_region_cmp (vm_regions s n) (range_ref v (if sz = 0 then PAGE_SIZE else sz)) = 0)"
proof -
  let ?sz = "if sz = 0 then PAGE_SIZE else sz"
  have sane: "region_sane (range_ref v ?sz)" using v(2) by (simp add: region_sane_def)
  have vl: "v < 2 ^ 64" using v(2) by simp
  have rd: "round_down v PAGE_SIZE = v" using round_down_page [OF vl] v(1) by (simp add: dvd_eq_mod_eq_0)
  have rr: "\<lparr>rg_name = [], rg_flags = VMM_FLAG_NO_START_GUARD OR VMM_FLAG_NO_END_GUARD, rg_arch_mmu_flags = 0,
     rg_base = v, rg_slice = vmm_obj_slice_init\<lparr>sl_size := (if sz \<noteq> 0 then sz else PAGE_SIZE)\<rparr>\<rparr> = range_ref v ?sz"
    by (simp add: range_ref_def)
  from search_ref [OF ok sane] obtain n where
    n: "bst_search_key (region_tree w s) (range_ref v ?sz) (\<lambda>a. vmm_region_cmp (vm_regions s a)) = Some n"
      "if n = 0 then \<forall>a \<in> set xs. vmm_region_cmp (vm_regions s a) (range_ref v ?sz) \<noteq> 0
       else n \<in> set xs \<and> vmm_region_cmp (vm_regions s n) (range_ref v ?sz) = 0" by blast
  let ?r = "vm_regions s n"
  have run: "vmm_find_region_in_bst w v sz s = (if n = 0 then Some (Inr 0)
      else bindO (is_inside_region ?r v) (\<lambda>inside. if inside then Some (Inr n)
                else bindO (guardE ''guard page'' (v = size_sub (rg_base ?r) PAGE_SIZE \<or> v = add64 (rg_base ?r) (rg_size ?r)) (Inr ()))
                  (\<lambda>_. Some (Inr 0))))"
    unfolding vmm_find_region_in_bst_def rd Let_def rr n(1) by simp
  show ?thesis
  proof (cases "n = 0")
    case True
    with run n(2) show ?thesis by (auto simp: find_result_def)
  next
    case False
    with n(2) have "region_sane ?r" using regions_ok_sane [OF ok] by simp
    moreover from this have e: "v = size_sub (rg_base ?r) PAGE_SIZE \<longleftrightarrow> v + PAGE_SIZE = rg_base ?r"
      "add64 (rg_base ?r) (rg_size ?r) = rg_base ?r + rg_size ?r"
      using v(2) by (auto simp: size_sub_def region_sane_def add64_id split: if_splits)
    ultimately show ?thesis using run n(2) False unfolding e is_inside_region_sane [OF \<open>region_sane ?r\<close> vl]
      by (intro exI [of _ n]) (simp add: find_result_def)
  qed
qed

text \<open>Looking for the region of a page.\<close>

lemma find_page:
  assumes ok: "regions_ok w s xs" and v: "PAGE_SIZE dvd v" "v + 2 * PAGE_SIZE \<le> 2 ^ 64" and sz: "sz = 0 \<or> sz = PAGE_SIZE"
  shows "\<exists>n. vmm_find_region_in_bst w v sz s = Some (Inr n) \<and>
    (if n = 0 then \<forall>a \<in> set xs. \<not> holds (vm_regions s a) v else n \<in> set xs \<and> holds (vm_regions s n) v)"
proof -
  have sz': "(if sz = 0 then PAGE_SIZE else sz) = PAGE_SIZE" using sz by auto
  have sane: "region_sane (range_ref v PAGE_SIZE)" using v(2) by (simp add: region_sane_def)
  from find_in_bst [OF ok v(1), of sz] v(2) obtain n where n: "vmm_find_region_in_bst w v sz s = find_result s n v"
    "if n = 0 then \<forall>a \<in> set xs. vmm_region_cmp (vm_regions s a) (range_ref v PAGE_SIZE) \<noteq> 0
     else n \<in> set xs \<and> vmm_region_cmp (vm_regions s n) (range_ref v PAGE_SIZE) = 0"
    unfolding sz' by auto
  note n(1) [unfolded find_result_def]
  note n = this n(2)
  have touch: "vmm_region_cmp (vm_regions s a) (range_ref v PAGE_SIZE) = 0 \<longleftrightarrow>
      v < rg_base (vm_regions s a) + rg_size (vm_regions s a) + end_guard (vm_regions s a) \<and>
      rg_base (vm_regions s a) < v + PAGE_SIZE + start_guard (vm_regions s a)" if "a \<in> set xs" for a
    using vmm_region_cmp_sane [OF regions_ok_sane [OF ok that] sane] by (auto simp: below_ref)
  show ?thesis
  proof (cases "n = 0")
    case True
    have "\<not> holds (vm_regions s a) v" if "a \<in> set xs" for a
      using touch [OF that] that n(2) True by (auto simp: holds_def)
    with n(1) True show ?thesis by auto
  next
    case False
    let ?r = "vm_regions s n"
    from False n(2) have r: "n \<in> set xs" and t: "v < rg_base ?r + rg_size ?r + end_guard ?r" "rg_base ?r < v + PAGE_SIZE + start_guard ?r"
      using touch [of n] by auto
    from ok r have al: "PAGE_SIZE dvd rg_base ?r" "PAGE_SIZE dvd rg_base ?r + rg_size ?r" by (auto simp: regions_ok_def)
    show ?thesis
    proof (cases "holds ?r v")
      case True
      with n(1) False r show ?thesis by auto
    next
      case nh: False
      then consider "rg_base ?r + rg_size ?r \<le> v" | "v < rg_base ?r" by (auto simp: holds_def)
      then have adj: "(v = rg_base ?r + rg_size ?r \<and> end_guard ?r = PAGE_SIZE) \<or> (v + PAGE_SIZE = rg_base ?r \<and> start_guard ?r = PAGE_SIZE)"
      proof cases
        case 1
        then have "end_guard ?r = PAGE_SIZE" using t(1) guard_cases [of ?r] by auto
        moreover from this have "v = rg_base ?r + rg_size ?r" using page_gap [OF v(1) al(2) 1] t(1) by auto
        ultimately show ?thesis by simp
      next
        case 2
        have g: "v + PAGE_SIZE \<le> rg_base ?r"
        proof (rule ccontr)
          assume "\<not> v + PAGE_SIZE \<le> rg_base ?r"
          then have "rg_base ?r - v < PAGE_SIZE" using 2 by linarith
          with page_gap [OF al(1) v(1)] 2 show False by auto
        qed
        then have "start_guard ?r = PAGE_SIZE" using t(2) guard_cases [of ?r] by auto
        moreover from this have "rg_base ?r = v + PAGE_SIZE" using page_gap [OF al(1) _ g] v(1) t(2) by auto
        ultimately show ?thesis by simp
      qed
      have "\<not> holds (vm_regions s a) v" if "a \<in> set xs" for a
      proof
        assume h: "holds (vm_regions s a) v"
        with nh have "a \<noteq> n" by auto
        from regions_ok_apart [OF ok that r this] h adj show False
          using guards_le [of ?r "vm_regions s a"] guards_le [of "vm_regions s a" ?r] unfolding below_def holds_def by linarith
      qed
      with n(1) False nh adj show ?thesis by auto
    qed
  qed
qed

end
