(* ===== verification/Vmm_Alloc.thy ===== *)
theory Vmm_Alloc
  imports Vmm_Aspace
begin

text \<open>
  Allocating and freeing regions. A region that is allocated is clear of all others; freeing takes exactly the
  region that holds the address out of the tree.
\<close>

section \<open>Adding a region\<close>

definition clear_of :: "vm \<Rightarrow> addr list \<Rightarrow> vmm_region \<Rightarrow> bool" where
  "clear_of s xs r \<longleftrightarrow> (\<forall>a \<in> set xs. below (vm_regions s a) r \<or> below r (vm_regions s a))"

definition region_wf :: "vmm_region \<Rightarrow> bool" where
  "region_wf r \<longleftrightarrow> region_sane r \<and> PAGE_SIZE dvd rg_base r \<and> PAGE_SIZE dvd rg_size r"

lemma clear_of_cmp:
  assumes "regions_ok w s xs" "region_sane r"
  shows "clear_of s xs r \<longleftrightarrow> (\<forall>a \<in> set xs. vmm_region_cmp (vm_regions s a) r \<noteq> 0)"
  using regions_ok_sane [OF assms(1)] assms(2) by (auto simp: clear_of_def vmm_region_cmp_sane)

lemma region_insert:
  assumes ok: "regions_ok w s xs" and r: "r \<noteq> 0" "r \<notin> set xs" "bn_rank (vm_nodes s r) = 0" and wf: "region_wf (vm_regions s r)"
  shows "\<exists>inserted h. bst_insert (region_tree w s) r (region_compare (vm_regions s)) = Some (Inr (inserted, h)) \<and>
    (inserted \<longleftrightarrow> clear_of s xs (vm_regions s r)) \<and> same_outside (insert r (set xs)) (region_tree w s) h \<and>
    (if inserted then \<exists>ys. set ys = insert r (set xs) \<and> regions_ok w (put_tree w h s) ys else h = region_tree w s)"
proof -
  have sane: "region_sane (vm_regions s r)" using wf by (simp add: region_wf_def)
  have b: "bst_ok (region_compare (vm_regions s)) (\<lambda>r. region_sane (vm_regions s r)) (region_tree w s) xs"
    using ok by (simp add: regions_ok_def)
  let ?ys = "filter (\<lambda>a. 0 < region_compare (vm_regions s) a r) xs @ r # filter (\<lambda>a. region_compare (vm_regions s) a r < 0) xs"
  from ro.bst_insert_ok [OF b sane r(1,2)] r(3) obtain i h where
    i: "bst_insert (region_tree w s) r (region_compare (vm_regions s)) = Some (Inr (i, h))"
      "i \<longleftrightarrow> (\<forall>a \<in> set xs. region_compare (vm_regions s) a r \<noteq> 0)" "same_outside (insert r (set xs)) (region_tree w s) h"
      "if i then bst_ok (region_compare (vm_regions s)) (\<lambda>r. region_sane (vm_regions s r)) h ?ys else h = region_tree w s"
    by (auto simp: region_tree_def)
  have "\<exists>ys. set ys = insert r (set xs) \<and> regions_ok w (put_tree w h s) ys" if "i"
  proof (intro exI [of _ ?ys] conjI)
    show "set ?ys = insert r (set xs)" using that i(2) by (auto simp: linorder_neq_iff)
    then show "regions_ok w (put_tree w h s) ?ys" using that i(4) ok wf by (simp add: regions_ok_def region_wf_def)
  qed
  with i clear_of_cmp [OF ok sane] show ?thesis by auto
qed

text \<open>The new structure.\<close>

lemma alloc_region_struct_simps:
  "r \<noteq> 0 \<Longrightarrow> vm_nodes (alloc_region_struct r name b sz fl mfl s) = (vm_nodes s)(r := zero_node)"
  "vm_aspaces (alloc_region_struct r name b sz fl mfl s) = vm_aspaces s"
  "vm_res (alloc_region_struct r name b sz fl mfl s) = vm_res s"
  "x \<noteq> r \<Longrightarrow> vm_regions (alloc_region_struct r name b sz fl mfl s) x = vm_regions s x"
  by (simp_all add: alloc_region_struct_def)

lemma alloc_region_struct_new:
  "r \<noteq> 0 \<Longrightarrow> rg_base (vm_regions (alloc_region_struct r name b sz fl mfl s) r) = b"
  "r \<noteq> 0 \<Longrightarrow> rg_size (vm_regions (alloc_region_struct r name b sz fl mfl s) r) = sz"
  "r \<noteq> 0 \<Longrightarrow> rg_flags (vm_regions (alloc_region_struct r name b sz fl mfl s) r) = fl"
  "r \<noteq> 0 \<Longrightarrow> sl_obj (rg_slice (vm_regions (alloc_region_struct r name b sz fl mfl s) r)) = 0"
  by (simp_all add: alloc_region_struct_def vmm_obj_slice_init_def)

lemma root_of_cong: "vm_aspaces s' = vm_aspaces s \<Longrightarrow> vm_res s' = vm_res s \<Longrightarrow> root_of w s' = root_of w s"
  by (cases w) simp_all

lemma alloc_region_struct_ok:
  assumes "regions_ok w s xs" "r \<notin> set xs"
  shows "regions_ok w (alloc_region_struct r name b sz fl mfl s) xs"
  using assms by (intro regions_ok_cong [OF assms(1)] root_of_cong)
    (auto simp: alloc_region_struct_def)

lemma aspace_ok_cong:
  assumes ok: "aspace_ok p s xs" and e: "vm_aspaces s' p = vm_aspaces s p"
    and n: "\<And>x. x \<in> set xs \<Longrightarrow> vm_nodes s' x = vm_nodes s x" and r: "\<And>x. x \<in> set xs \<Longrightarrow> vm_regions s' x = vm_regions s x"
  shows "aspace_ok p s' xs"
proof -
  have "regions_ok (Aspace_root p) s xs" using ok by (simp add: aspace_ok_def)
  from regions_ok_cong [OF this _ n r] e have "regions_ok (Aspace_root p) s' xs" by simp
  moreover have "inside (vm_aspaces s p) (vm_regions s' x)" if "x \<in> set xs" for x
    using ok that by (simp add: aspace_ok_def r)
  ultimately show ?thesis using ok by (simp add: aspace_ok_def e)
qed

lemma aspace_ok_struct:
  assumes "aspace_ok p s xs" "r \<notin> set xs"
  shows "aspace_ok p (alloc_region_struct r name b sz fl mfl s) xs"
  by (rule aspace_ok_cong [OF assms(1)]) (use assms(2) in \<open>auto simp: alloc_region_struct_def\<close>)

lemma set_base_ok:
  assumes "aspace_ok p s xs" "r \<notin> set xs"
  shows "aspace_ok p (s\<lparr>vm_regions := (vm_regions s)(r := x)\<rparr>) xs"
  by (rule aspace_ok_cong [OF assms(1)]) (use assms(2) in auto)

lemma aspace_ok_put:
  assumes "aspace_ok p s xs" "regions_ok (Aspace_root p) (put_tree (Aspace_root p) h s) ys"
    "\<And>y. y \<in> set ys \<Longrightarrow> y \<in> set xs \<or> inside (vm_aspaces s p) (vm_regions s y)"
  shows "aspace_ok p (put_tree (Aspace_root p) h s) ys"
  using assms by (auto simp: aspace_ok_def inside_def aspace_wf_def)

section \<open>A region anywhere\<close>

lemma guard_bits:
  "(region_flags OR vmm_flags) AND m = (region_flags AND m) OR (vmm_flags AND m :: uint32)"
  by (rule and.commute [THEN trans], subst bit.conj_disj_distrib) (simp add: and.commute)

lemma free_spot_clear:
  assumes "free_spot a (map (vm_regions s) xs) k sz (rg_base r)" "rg_size r = sz"
  shows "clear_of s xs r"
  using assms guard_le [of "rg_flags r"] guard_le [of _ "rg_flags r"] unfolding clear_of_def below_def free_spot_def
  by (fastforce intro: order_trans [OF add_left_mono])

text \<open>What an allocation of \<open>r\<close> leaves: it is a region of the address space now, and the others are as before.\<close>

definition region_added :: "addr \<Rightarrow> addr \<Rightarrow> addr list \<Rightarrow> vm \<Rightarrow> vm \<Rightarrow> bool" where
  "region_added p r xs s s' \<longleftrightarrow> (\<exists>ys. set ys = insert r (set xs) \<and> aspace_ok p s' ys) \<and>
     (\<forall>x. x \<noteq> r \<longrightarrow> vm_regions s' x = vm_regions s x) \<and> (\<forall>x. x \<notin> insert r (set xs) \<longrightarrow> vm_nodes s' x = vm_nodes s x) \<and>
     (\<forall>w. w \<noteq> Aspace_root p \<longrightarrow> root_of w s' = root_of w s)"

lemma insert_clear:
  assumes ok: "aspace_ok p s xs" and r: "r \<noteq> 0" "r \<notin> set xs" "bn_rank (vm_nodes s r) = 0"
    and wf: "region_wf (vm_regions s r)" "inside (vm_aspaces s p) (vm_regions s r)"
  shows "\<exists>inserted h. bst_insert (region_tree (Aspace_root p) s) r (region_compare (vm_regions s)) = Some (Inr (inserted, h)) \<and>
    (inserted \<longleftrightarrow> clear_of s xs (vm_regions s r)) \<and>
    (if inserted then region_added p r xs s (put_tree (Aspace_root p) h s) else h = region_tree (Aspace_root p) s)"
proof -
  have ro: "regions_ok (Aspace_root p) s xs" using ok by (simp add: aspace_ok_def)
  from region_insert [OF ro r wf(1)] obtain i h where
    i: "bst_insert (region_tree (Aspace_root p) s) r (region_compare (vm_regions s)) = Some (Inr (i, h))"
    "i \<longleftrightarrow> clear_of s xs (vm_regions s r)" "same_outside (insert r (set xs)) (region_tree (Aspace_root p) s) h"
    "if i then \<exists>ys. set ys = insert r (set xs) \<and> regions_ok (Aspace_root p) (put_tree (Aspace_root p) h s) ys
     else h = region_tree (Aspace_root p) s" by blast
  have "region_added p r xs s (put_tree (Aspace_root p) h s)" if "i"
  proof -
    from i(4) that obtain ys where ys: "set ys = insert r (set xs)" "regions_ok (Aspace_root p) (put_tree (Aspace_root p) h s) ys" by auto
    have "aspace_ok p (put_tree (Aspace_root p) h s) ys" using ys(1) wf(2) by (intro aspace_ok_put [OF ok ys(2)]) auto
    with ys(1) i(3) show ?thesis by (auto simp: region_added_def same_outside_def region_tree_def)
  qed
  with i show ?thesis by auto
qed

lemma region_added_trans:
  assumes "region_added p r xs s1 s2" "\<And>x. x \<noteq> r \<Longrightarrow> vm_regions s1 x = vm_regions s x"
    "\<And>x. x \<noteq> r \<Longrightarrow> vm_nodes s1 x = vm_nodes s x" "\<And>w. root_of w s1 = root_of w s"
  shows "region_added p r xs s s2"
  using assms by (auto simp: region_added_def)

lemma aspace_alloc_spot:
  assumes ok: "aspace_ok p s xs" and sz: "0 < sz" "PAGE_SIZE dvd sz" "sz < 2 ^ 64" and al: "al < 64" and rand: "\<And>m. rand m \<le> m"
  shows "\<exists>v. alloc_spot rand p sz al fl s = Some (Inr v) \<and>
    (if v = 2 ^ 64 - 1 then \<forall>u. \<not> free_spot (vm_aspaces s p) (map (vm_regions s) xs) (max al 12) sz u
     else free_spot (vm_aspaces s p) (map (vm_regions s) xs) (max al 12) sz v)"
proof -
  from ok obtain t where t: "bst_tree (region_tree (Aspace_root p) s) t" "wavl t" "addrs t = xs"
    by (auto simp: aspace_ok_def regions_ok_def bst_ok_def)
  have wf: "aspace_wf (vm_aspaces s p)" "\<forall>x \<in> set (map (vm_regions s) (addrs t)). 0 < rg_size x"
    using ok regions_ok_sane [of "Aspace_root p" s xs] by (auto simp: aspace_ok_def region_sane_def t(3))
  have "regions_from (vm_aspaces s p) None (map (vm_regions s) (addrs t))"
    unfolding t(3) by (rule aspace_regions_from [OF ok])
  from alloc_spot_ok [OF t(1,2) refl wf(1) refl this wf(2) sz al rand] show ?thesis unfolding t(3) .
qed

lemma alloc_region_any:
  assumes ok: "aspace_ok p s xs" and r: "r \<noteq> 0" "r \<notin> set xs" and sz: "0 < sz" "PAGE_SIZE dvd sz" "sz < 2 ^ 64" and al: "al < 64"
    and rand: "\<And>m. rand m \<le> m" and fl: "vmm_flags AND VMM_REGION_FLAG_INTERNAL_MASK = 0" "vmm_flags AND VMM_FLAG_VALLOC_SPECIFIC = 0"
      "vmm_flags AND VMM_FLAG_NO_START_GUARD = 0" "vmm_flags AND VMM_FLAG_NO_END_GUARD = 0"
  shows "\<exists>ret w s'. alloc_region rand r p name sz vaddr al vmm_flags region_flags mmu_flags s = Some (Inr (ret, w, s')) \<and>
    (if ret = NO_ERROR then w = Some (Aspace_root p) \<and> region_added p r xs s s' \<and> rg_size (vm_regions s' r) = sz \<and>
       2 ^ max al 12 dvd rg_base (vm_regions s' r) \<and> rg_flags (vm_regions s' r) = region_flags OR vmm_flags
     else ret = ERR_NO_MEMORY \<and> w = None \<and> aspace_ok p s' xs \<and>
       (\<forall>u. \<not> free_spot (vm_aspaces s p) (map (vm_regions s) xs) (max al 12) sz u))"
proof -
  define s1 where "s1 = alloc_region_struct r name vaddr sz (region_flags OR vmm_flags) mmu_flags s"
  let ?a = "vm_aspaces s p" and ?rs = "map (vm_regions s) xs"
  have ok1: "aspace_ok p s1 xs" unfolding s1_def by (rule aspace_ok_struct [OF ok r(2)])
  have eq: "vm_aspaces s1 = vm_aspaces s" "map (vm_regions s1) xs = ?rs"
    using r by (auto simp: s1_def alloc_region_struct_def)
  have wf: "aspace_wf ?a" using ok by (simp add: aspace_ok_def)
  from aspace_alloc_spot [OF ok1 sz al rand, of mmu_flags] obtain v where
    v: "alloc_spot rand p sz al mmu_flags s1 = Some (Inr v)"
      "if v = 2 ^ 64 - 1 then \<forall>u. \<not> free_spot ?a ?rs (max al 12) sz u else free_spot ?a ?rs (max al 12) sz v"
    unfolding eq by auto
  show ?thesis
  proof (cases "v = 2 ^ 64 - 1")
    case True
    then have "alloc_region rand r p name sz vaddr al vmm_flags region_flags mmu_flags s = Some (Inr (ERR_NO_MEMORY, None, s1))"
      using fl r(1) v(1) by (simp add: alloc_region_def arch_adjusted_vaddr_def s1_def [symmetric])
    with True v(2) ok1 show ?thesis by auto
  next
    case False
    with v(2) have f: "free_spot ?a ?rs (max al 12) sz v" by simp
    define s2 where "s2 = s1\<lparr>vm_regions := (vm_regions s1)(r := (vm_regions s1 r)\<lparr>rg_base := v\<rparr>)\<rparr>"
    have ok2: "aspace_ok p s2 xs" unfolding s2_def by (rule set_base_ok [OF ok1 r(2)])
    have new: "rg_base (vm_regions s2 r) = v" "rg_size (vm_regions s2 r) = sz" "bn_rank (vm_nodes s2 r) = 0"
      "rg_flags (vm_regions s2 r) = region_flags OR vmm_flags"
      using r(1) by (simp_all add: s2_def s1_def alloc_region_struct_new alloc_region_struct_simps zero_node_def)
    have old: "vm_regions s2 x = vm_regions s x" "vm_nodes s2 x = vm_nodes s x" if "x \<noteq> r" for x
      using that r(1) by (simp_all add: s2_def s1_def alloc_region_struct_simps)
    have roots: "root_of w s2 = root_of w s" for w
      by (intro root_of_cong) (simp_all add: s2_def s1_def alloc_region_struct_simps)
    have map2: "map (vm_regions s2) xs = ?rs" using old(1) r(2) by (metis map_cong)
    have "PAGE_SIZE dvd v" using f by (intro dvd_page [of "max al 12"]) (simp_all add: free_spot_def)
    then have rw: "region_wf (vm_regions s2 r)" using f sz wf by (auto simp: region_wf_def region_sane_def new free_spot_def aspace_wf_def)
    have "vm_aspaces s2 = vm_aspaces s" by (simp add: s2_def eq)
    then have ri: "inside (vm_aspaces s2 p) (vm_regions s2 r)" using f unfolding inside_def new by (simp add: free_spot_def)
    have "clear_of s2 xs (vm_regions s2 r)" using f unfolding new(1) [symmetric] map2 [symmetric] by (rule free_spot_clear [OF _ new(2)])
    with insert_clear [OF ok2 r new(3) rw ri] obtain h where
      h: "bst_insert (region_tree (Aspace_root p) s2) r (region_compare (vm_regions s2)) = Some (Inr (True, h))"
        "region_added p r xs s2 (put_tree (Aspace_root p) h s2)" by auto
    have "alloc_region rand r p name sz vaddr al vmm_flags region_flags mmu_flags s =
        Some (Inr (NO_ERROR, Some (Aspace_root p), put_tree (Aspace_root p) h s2))"
      using fl r(1) v(1) False h(1) by (simp add: alloc_region_def arch_adjusted_vaddr_def s1_def [symmetric] s2_def [symmetric])
    moreover have "region_added p r xs s (put_tree (Aspace_root p) h s2)"
      by (rule region_added_trans [OF h(2)]) (use old roots in auto)
    ultimately show ?thesis using f new by (auto simp: free_spot_def)
  qed
qed

section \<open>A region at a given address\<close>

lemma put_same: "put_tree (Aspace_root p) (region_tree (Aspace_root p) s) s = s"
  by (simp add: put_tree_def region_tree_def)

definition fits :: "vmm_aspace \<Rightarrow> vmm_region \<Rightarrow> bool" where
  "fits a r \<longleftrightarrow> as_base a \<le> rg_base r \<and> rg_base r + rg_size r + end_guard r \<le> as_base a + as_size a"

lemma is_region_inside_aspace_ok:
  assumes "aspace_wf a" "region_sane r"
  shows "is_region_inside_aspace a r = Inr (fits a r)"
  using assms by (auto simp: is_region_inside_aspace_def range_contains_range_def add_overflow_def aspace_wf_def region_sane_def fits_def end_guard_def)

lemma fits_inside: "fits a r \<Longrightarrow> inside a r"
  by (simp add: fits_def inside_def)

lemma add_region_to_aspace_ok:
  assumes ok: "aspace_ok p s xs" and r: "r \<noteq> 0" "r \<notin> set xs" "bn_rank (vm_nodes s r) = 0" and wf: "region_wf (vm_regions s r)"
  shows "\<exists>ret s'. add_region_to_aspace p r s = Some (Inr (ret, s')) \<and>
    ret = (if \<not> fits (vm_aspaces s p) (vm_regions s r) then ERR_OUT_OF_RANGE else if clear_of s xs (vm_regions s r) then NO_ERROR else ERR_NO_MEMORY) \<and>
    (if ret = NO_ERROR then region_added p r xs s s' else s' = s) \<and> vm_regions s' = vm_regions s"
proof (cases "fits (vm_aspaces s p) (vm_regions s r)")
  case False
  have "region_sane (vm_regions s r)" "aspace_wf (vm_aspaces s p)" using wf ok by (simp_all add: region_wf_def aspace_ok_def)
  with False is_region_inside_aspace_ok show ?thesis by (simp add: add_region_to_aspace_def region_sane_def)
next
  case True
  have sane: "region_sane (vm_regions s r)" "aspace_wf (vm_aspaces s p)" using wf ok by (simp_all add: region_wf_def aspace_ok_def)
  have b: "bst_ok (region_compare (vm_regions s)) (\<lambda>r. region_sane (vm_regions s r)) (region_tree (Aspace_root p) s) xs"
    using ok by (simp add: aspace_ok_def regions_ok_def)
  from insert_clear [OF ok r wf fits_inside [OF True]] obtain i h where
    i: "bst_insert (region_tree (Aspace_root p) s) r (region_compare (vm_regions s)) = Some (Inr (i, h))" "i \<longleftrightarrow> clear_of s xs (vm_regions s r)"
      "if i then region_added p r xs s (put_tree (Aspace_root p) h s) else h = region_tree (Aspace_root p) s" by blast
  from ro.bst_search_ok [OF b sane(1) r(1)] obtain n where "bst_search (region_tree (Aspace_root p) s) r (region_compare (vm_regions s)) = Some (Inr n)" by blast
  with i True sane have "add_region_to_aspace p r s = Some (Inr (if i then NO_ERROR else ERR_NO_MEMORY, if i then put_tree (Aspace_root p) h s else s))"
    by (auto simp: add_region_to_aspace_def is_region_inside_aspace_ok add_region_to_bst_def region_sane_def put_same)
  with i True show ?thesis by (cases i) auto
qed

text \<open>The range asked for touches a region, without beginning in it or in one of its guard pages.\<close>

definition stray :: "vmm_region \<Rightarrow> vaddr \<Rightarrow> nat \<Rightarrow> bool" where
  "stray r v sz \<longleftrightarrow> v < rg_base r + rg_size r + end_guard r \<and> rg_base r < v + sz + start_guard r \<and>
     \<not> holds r v \<and> v + PAGE_SIZE \<noteq> rg_base r \<and> v \<noteq> rg_base r + rg_size r"

lemma touch_ref:
  assumes "regions_ok w s xs" "a \<in> set xs" "region_sane (range_ref v sz)"
  shows "vmm_region_cmp (vm_regions s a) (range_ref v sz) = 0 \<longleftrightarrow>
      v < rg_base (vm_regions s a) + rg_size (vm_regions s a) + end_guard (vm_regions s a) \<and>
      rg_base (vm_regions s a) < v + sz + start_guard (vm_regions s a)"
  using vmm_region_cmp_sane [OF regions_ok_sane [OF assms(1,2)] assms(3)] by (auto simp: below_ref)

lemma holds_not_clear: "a \<in> set xs \<Longrightarrow> holds (vm_regions s a) (rg_base r) \<Longrightarrow> 0 < rg_size r \<Longrightarrow> \<not> clear_of s xs r"
  by (force simp: clear_of_def holds_def below_def)

definition fresh_region :: "uint32 \<Rightarrow> vaddr \<Rightarrow> nat \<Rightarrow> vmm_region" where
  "fresh_region fl v sz = \<lparr>rg_name = [], rg_flags = fl, rg_arch_mmu_flags = 0, rg_base = v, rg_slice = vmm_obj_slice_init\<lparr>sl_size := sz\<rparr>\<rparr>"

lemma same_place:
  assumes "rg_base r' = rg_base r" "rg_size r' = rg_size r" "rg_flags r' = rg_flags r"
  shows "fits a r' = fits a r" "clear_of s xs r' = clear_of s xs r"
  using assms by (simp_all add: fits_def end_guard_def clear_of_def below_def)

lemma clear_of_cong: "(\<And>x. x \<in> set xs \<Longrightarrow> vm_regions s' x = vm_regions s x) \<Longrightarrow> clear_of s' xs r = clear_of s xs r"
  by (simp add: clear_of_def)

lemma alloc_region_specific:
  assumes ok: "aspace_ok p s xs" and r: "r \<noteq> 0" "r \<notin> set xs" and v: "PAGE_SIZE dvd v" "0 < sz" "PAGE_SIZE dvd sz" "v + sz + PAGE_SIZE \<le> 2 ^ 64"
    and fl: "vmm_flags AND VMM_REGION_FLAG_INTERNAL_MASK = 0" "vmm_flags AND VMM_FLAG_VALLOC_SPECIFIC \<noteq> 0"
    and calm: "\<And>a. a \<in> set xs \<Longrightarrow> \<not> stray (vm_regions s a) v sz"
    and phys: "\<And>a. a \<in> set xs \<Longrightarrow> holds (vm_regions s a) v \<Longrightarrow> rg_flags (vm_regions s a) AND VMM_FLAG_NO_PHYSICAL = 0"
  shows "\<exists>ret w s'. alloc_region rand r p name sz v al vmm_flags region_flags mmu_flags s = Some (Inr (ret, w, s')) \<and>
    (ret = NO_ERROR \<longleftrightarrow> fits (vm_aspaces s p) (fresh_region (region_flags OR vmm_flags) v sz) \<and> clear_of s xs (fresh_region (region_flags OR vmm_flags) v sz)) \<and>
    (if ret = NO_ERROR then w = Some (Aspace_root p) \<and> region_added p r xs s s' \<and> rg_base (vm_regions s' r) = v \<and> rg_size (vm_regions s' r) = sz
     else (ret = ERR_NO_MEMORY \<or> ret = ERR_OUT_OF_RANGE) \<and> w = None \<and> aspace_ok p s' xs)"
proof -
  let ?fl = "region_flags OR vmm_flags"
  define s1 where "s1 = alloc_region_struct r name v sz ?fl mmu_flags s"
  have ok1: "aspace_ok p s1 xs" unfolding s1_def by (rule aspace_ok_struct [OF ok r(2)])
  then have ro1: "regions_ok (Aspace_root p) s1 xs" by (simp add: aspace_ok_def)
  have new: "rg_base (vm_regions s1 r) = v" "rg_size (vm_regions s1 r) = sz" "rg_flags (vm_regions s1 r) = ?fl" "bn_rank (vm_nodes s1 r) = 0"
    using r(1) by (simp_all add: s1_def alloc_region_struct_new alloc_region_struct_simps zero_node_def)
  have old: "vm_regions s1 x = vm_regions s x" if "x \<in> set xs" for x
    using that r(2) unfolding s1_def by (intro alloc_region_struct_simps) metis
  have as1: "vm_aspaces s1 = vm_aspaces s" by (simp add: s1_def alloc_region_struct_simps)
  have wf: "region_wf (vm_regions s1 r)" using v by (simp add: region_wf_def region_sane_def new)
  have place: "fits (vm_aspaces s1 p) (vm_regions s1 r) = fits (vm_aspaces s p) (fresh_region ?fl v sz)"
    "clear_of s1 xs (vm_regions s1 r) = clear_of s xs (fresh_region ?fl v sz)"
    using same_place [of "vm_regions s1 r" "fresh_region ?fl v sz"] clear_of_cong [of xs s1 s] old new as1
    by (simp_all add: fresh_region_def)
  have sane: "region_sane (range_ref v sz)" using v by (simp add: region_sane_def)
  have szif: "(if sz = 0 then PAGE_SIZE else sz) = sz" using v(2) by simp
  from find_in_bst [OF ro1 v(1), of sz, unfolded szif, OF v(4)] obtain n where n': "vmm_find_region_in_bst (Aspace_root p) v sz s1 = find_result s1 n v"
    "if n = 0 then \<forall>a \<in> set xs. vmm_region_cmp (vm_regions s1 a) (range_ref v sz) \<noteq> 0
     else n \<in> set xs \<and> vmm_region_cmp (vm_regions s1 n) (range_ref v sz) = 0" by blast
  then have n: "n \<noteq> 0 \<Longrightarrow> n \<in> set xs \<and> vmm_region_cmp (vm_regions s1 n) (range_ref v sz) = 0" by simp
  have nohit: "n = 0 \<or> holds (vm_regions s1 n) v \<or> v + PAGE_SIZE = rg_base (vm_regions s1 n) \<or> v = rg_base (vm_regions s1 n) + rg_size (vm_regions s1 n)"
    using n touch_ref [OF ro1 _ sane, of n] calm [of n] old [of n] by (auto simp: stray_def)
  show ?thesis
  proof (cases "n \<noteq> 0 \<and> holds (vm_regions s1 n) v")
    case True
    with n have m: "n \<in> set xs" "rg_flags (vm_regions s1 n) AND VMM_FLAG_NO_PHYSICAL = 0" using phys [of n] old [of n] by auto
    have "alloc_region rand r p name sz v al vmm_flags region_flags mmu_flags s = Some (Inr (ERR_NO_MEMORY, None, s1))"
      using True n'(1) m fl r(1) by (simp add: find_result_def alloc_region_def arch_adjusted_vaddr_def s1_def [symmetric] alloc_specific_def)
    moreover have "\<not> clear_of s xs (fresh_region ?fl v sz)"
      using holds_not_clear [OF m(1), of s1 "vm_regions s1 r"] True v(2) place(2) by (simp add: new)
    ultimately show ?thesis using ok1 by auto
  next
    case False
    with n'(1) nohit have f0: "vmm_find_region_in_bst (Aspace_root p) v sz s1 = Some (Inr 0)" by (auto simp: find_result_def)
    from add_region_to_aspace_ok [OF ok1 r new(4) wf] obtain ret s' where
      a: "add_region_to_aspace p r s1 = Some (Inr (ret, s'))"
        "ret = (if \<not> fits (vm_aspaces s1 p) (vm_regions s1 r) then ERR_OUT_OF_RANGE else if clear_of s1 xs (vm_regions s1 r) then NO_ERROR else ERR_NO_MEMORY)"
        "if ret = NO_ERROR then region_added p r xs s1 s' else s' = s1" "vm_regions s' = vm_regions s1" by blast
    have run: "alloc_region rand r p name sz v al vmm_flags region_flags mmu_flags s =
        Some (Inr (if ret < 0 then (ret, None, s') else (NO_ERROR, Some (Aspace_root p), s')))"
      using fl r(1) f0 a(1) by (simp add: alloc_region_def arch_adjusted_vaddr_def s1_def [symmetric] alloc_specific_def)
    show ?thesis
    proof (cases "ret = NO_ERROR")
      case True
      have "region_added p r xs s s'"
        by (rule region_added_trans [of p r xs s1])
          (use a(3) True r(1) in \<open>auto simp: s1_def alloc_region_struct_simps intro!: root_of_cong\<close>)
      with run True a(2,4) place new show ?thesis by (auto split: if_splits)
    next
      case False
      with a(2,3) run place ok1 show ?thesis by (auto split: if_splits)
    qed
  qed
qed

text \<open>The assertion in \<^verbatim>\<open>vmm_find_region_in_bst\<close> fails for a range that runs into a region from below.\<close>

lemma alloc_specific_stray:
  assumes ok: "aspace_ok p s xs" and r: "r \<noteq> 0" "r \<notin> set xs" and v: "PAGE_SIZE dvd v" "0 < sz" "v + sz + PAGE_SIZE \<le> 2 ^ 64"
    and fl: "vmm_flags AND VMM_REGION_FLAG_INTERNAL_MASK = 0" "vmm_flags AND VMM_FLAG_VALLOC_SPECIFIC \<noteq> 0"
    and hit: "a \<in> set xs" "stray (vm_regions s a) v sz"
    and none: "\<And>a. a \<in> set xs \<Longrightarrow> \<not> holds (vm_regions s a) v \<and> v + PAGE_SIZE \<noteq> rg_base (vm_regions s a) \<and>
      v \<noteq> rg_base (vm_regions s a) + rg_size (vm_regions s a)"
  shows "alloc_region rand r p name sz v al vmm_flags region_flags mmu_flags s = Some (Inl (Assertion_failed ''guard page''))"
proof -
  define s1 where "s1 = alloc_region_struct r name v sz (region_flags OR vmm_flags) mmu_flags s"
  have ro1: "regions_ok (Aspace_root p) s1 xs" using aspace_ok_struct [OF ok r(2)] by (simp add: aspace_ok_def s1_def)
  have old: "vm_regions s1 x = vm_regions s x" if "x \<in> set xs" for x
    using that r(2) unfolding s1_def by (intro alloc_region_struct_simps) metis
  have sane: "region_sane (range_ref v sz)" using v by (simp add: region_sane_def)
  have szif: "(if sz = 0 then PAGE_SIZE else sz) = sz" using v(2) by simp
  from find_in_bst [OF ro1 v(1), of sz, unfolded szif, OF v(3)] obtain n where n: "vmm_find_region_in_bst (Aspace_root p) v sz s1 = find_result s1 n v"
    "if n = 0 then \<forall>a \<in> set xs. vmm_region_cmp (vm_regions s1 a) (range_ref v sz) \<noteq> 0
     else n \<in> set xs \<and> vmm_region_cmp (vm_regions s1 n) (range_ref v sz) = 0" by blast
  have "n \<noteq> 0"
  proof
    assume "n = 0"
    with n(2) hit touch_ref [OF ro1 hit(1) sane] old [OF hit(1)] show False by (auto simp: stray_def)
  qed
  with n none [of n] old [of n] have "vmm_find_region_in_bst (Aspace_root p) v sz s1 = Some (Inl (Assertion_failed ''guard page''))"
    by (simp add: find_result_def)
  with fl r(1) show ?thesis by (simp add: alloc_region_def arch_adjusted_vaddr_def s1_def [symmetric] alloc_specific_def)
qed

section \<open>Finding and freeing\<close>

lemma holds_page:
  assumes "PAGE_SIZE dvd rg_base r" "PAGE_SIZE dvd rg_size r"
  shows "holds r (v - v mod PAGE_SIZE) \<longleftrightarrow> holds r v"
proof -
  have m: "PAGE_SIZE dvd b \<Longrightarrow> b \<le> v - v mod PAGE_SIZE \<longleftrightarrow> b \<le> v" for b :: nat
    by (metis diff_le_self div_le_mono dvd_div_mult_self le_trans minus_mod_eq_div_mult mult_le_mono1)
  have "PAGE_SIZE dvd rg_base r + rg_size r" using assms by simp
  from m [OF this] m [OF assms(1)] show ?thesis unfolding holds_def by linarith
qed

lemma find_rounds:
  assumes "v < 2 ^ 64"
  shows "vmm_find_region_in_bst w v sz s = vmm_find_region_in_bst w (v - v mod PAGE_SIZE) sz s"
proof -
  have "round_down (v - v mod PAGE_SIZE) PAGE_SIZE = round_down v PAGE_SIZE"
    using assms by (simp add: round_down_page)
  then show ?thesis by (simp add: vmm_find_region_in_bst_def)
qed

lemma vmm_find_region_ok:
  assumes ok: "aspace_ok p s xs" and v: "v + 2 * PAGE_SIZE \<le> 2 ^ 64"
  shows "\<exists>n. vmm_find_region p v s = Some (Inr n) \<and>
    (if n = 0 then \<forall>a \<in> set xs. \<not> holds (vm_regions s a) v else n \<in> set xs \<and> holds (vm_regions s n) v)"
proof -
  have ro: "regions_ok (Aspace_root p) s xs" using ok by (simp add: aspace_ok_def)
  have al: "holds (vm_regions s a) (v - v mod PAGE_SIZE) \<longleftrightarrow> holds (vm_regions s a) v" if "a \<in> set xs" for a
    using ro that by (intro holds_page) (auto simp: regions_ok_def)
  have "PAGE_SIZE dvd v - v mod PAGE_SIZE" by (rule dvd_minus_mod)
  from find_page [OF ro this, of PAGE_SIZE] v find_rounds [of v "Aspace_root p" PAGE_SIZE s] al show ?thesis
    unfolding vmm_find_region_def by (fastforce split: if_splits)
qed

text \<open>Which region a request to free means.\<close>

definition frees :: "vmm_region \<Rightarrow> vaddr \<Rightarrow> nat \<Rightarrow> uint32 \<Rightarrow> bool" where
  "frees r v sz fl \<longleftrightarrow> (if fl AND VMM_FREE_REGION_FLAG_EXPAND \<noteq> 0 then rg_base r \<le> v \<and> v + sz \<le> rg_base r + rg_size r
     else rg_base r = v \<and> rg_size r = sz)"

lemma region_is_match_ok:
  assumes "region_sane (vm_regions s r)" "r \<noteq> 0" "0 < sz" "v + sz \<le> 2 ^ 64"
  shows "vmm_region_is_match r s v sz fl = Inr (frees (vm_regions s r) v sz fl)"
  using assms by (auto simp: vmm_region_is_match_def frees_def is_range_inside_region_def range_contains_range_def
      add_overflow_def region_sane_def)

lemma frees_holds: "frees r v sz fl \<Longrightarrow> 0 < sz \<Longrightarrow> holds r v"
  by (auto simp: frees_def holds_def split: if_splits)

lemma holds_unique:
  assumes "regions_ok w s xs" "a \<in> set xs" "b \<in> set xs" "holds (vm_regions s a) v" "holds (vm_regions s b) v"
  shows "a = b"
  using regions_ok_apart [OF assms(1-3)] assms(4,5) by (auto simp: below_def holds_def)

lemma vmm_free_region_etc_ok:
  assumes ok: "aspace_ok p s xs" and v: "v + 2 * PAGE_SIZE \<le> 2 ^ 64" "0 < sz" "v + sz \<le> 2 ^ 64"
  shows "\<exists>ret fr s'. vmm_free_region_etc p v sz fl s = Some (Inr (ret, fr, s')) \<and>
    (if \<exists>r \<in> set xs. frees (vm_regions s r) v sz fl
     then \<exists>r us vs. xs = us @ r # vs \<and> frees (vm_regions s r) v sz fl \<and> ret = NO_ERROR \<and> aspace_ok p s' (us @ vs) \<and>
       fr = Some \<lparr>fr_unmap = (rg_base (vm_regions s r), rg_size (vm_regions s r) div PAGE_SIZE),
         fr_obj = sl_obj (rg_slice (vm_regions s r)), fr_region = r\<rparr>
     else ret = ERR_NOT_FOUND \<and> fr = None \<and> s' = s)"
proof -
  have ro: "regions_ok (Aspace_root p) s xs" using ok by (simp add: aspace_ok_def)
  from vmm_find_region_ok [OF ok v(1)] obtain n where n: "vmm_find_region p v s = Some (Inr n)"
    "if n = 0 then \<forall>a \<in> set xs. \<not> holds (vm_regions s a) v else n \<in> set xs \<and> holds (vm_regions s n) v" by blast
  have match: "vmm_region_is_match n s v sz fl = Inr (n \<noteq> 0 \<and> frees (vm_regions s n) v sz fl)"
    using n(2) region_is_match_ok [of s n sz v fl] regions_ok_sane [OF ro] v
    by (cases "n = 0") (auto simp: vmm_region_is_match_def)
  have only: "(\<exists>r \<in> set xs. frees (vm_regions s r) v sz fl) \<longleftrightarrow> n \<noteq> 0 \<and> frees (vm_regions s n) v sz fl"
    using n(2) frees_holds [OF _ v(2)] holds_unique [OF ro] by (metis (full_types))
  show ?thesis
  proof (cases "n \<noteq> 0 \<and> frees (vm_regions s n) v sz fl")
    case True
    with n(2) have m: "n \<in> set xs" by simp
    have "bst_ok (region_compare (vm_regions s)) (\<lambda>r. region_sane (vm_regions s r)) (region_tree (Aspace_root p) s) xs"
      using ro by (simp add: regions_ok_def)
    from ro.bst_delete_ordered [OF this m] obtain h us vs where d: "bst_delete (region_tree (Aspace_root p) s) n = Some (Inr h)"
      "xs = us @ n # vs" "bst_ok (region_compare (vm_regions s)) (\<lambda>r. region_sane (vm_regions s r)) h (us @ vs)" by blast
    let ?s = "put_tree (Aspace_root p) h s" and ?x = "(vm_regions s n)\<lparr>rg_slice := (rg_slice (vm_regions s n))\<lparr>sl_obj := 0\<rparr>\<rparr>"
    have "regions_ok (Aspace_root p) ?s (us @ vs)" using d(3) ro unfolding regions_ok_def d(2) by simp
    then have "aspace_ok p ?s (us @ vs)" by (rule aspace_ok_put [OF ok]) (simp add: d(2))
    moreover have "n \<notin> set (us @ vs)" using regions_ok_not_null [OF ro] d(2) by simp
    ultimately have "aspace_ok p (?s\<lparr>vm_regions := (vm_regions ?s)(n := ?x)\<rparr>) (us @ vs)" by (rule set_base_ok)
    moreover have "vmm_free_region_etc p v sz fl s = Some (Inr (NO_ERROR, Some \<lparr>fr_unmap = (rg_base (vm_regions s n), rg_size (vm_regions s n) div PAGE_SIZE),
         fr_obj = sl_obj (rg_slice (vm_regions s n)), fr_region = n\<rparr>, ?s\<lparr>vm_regions := (vm_regions ?s)(n := ?x)\<rparr>))"
      using n(1) match True d(1) by (simp add: vmm_free_region_etc_def arch_adjusted_vaddr_def Let_def)
    ultimately show ?thesis unfolding only using True d(2) by (simp only: if_True simp_thms) blast
  next
    case False
    then have "vmm_free_region_etc p v sz fl s = Some (Inr (ERR_NOT_FOUND, None, s))"
      using n(1) match by (simp add: vmm_free_region_etc_def arch_adjusted_vaddr_def)
    with False show ?thesis unfolding only by simp
  qed
qed

end
