(* ===== verification/Example_Vm.thy ===== *)
theory Example_Vm
  imports Vmm_Alloc
begin

text \<open>
  A concrete address space at the address 1 with two regions, at the addresses 100 and 200, to which the theorems on
  the tree and on the regions are applied.
\<close>

definition ex_region :: "nat \<Rightarrow> vaddr \<Rightarrow> nat \<Rightarrow> uint32 \<Rightarrow> vmm_region" where
  "ex_region ob b sz fl = \<lparr>rg_name = ''r'', rg_flags = fl, rg_arch_mmu_flags = 0, rg_base = b, rg_slice = \<lparr>sl_obj = ob, sl_offset = 0, sl_size = sz\<rparr>\<rparr>"

definition ex_vm :: vm where
  "ex_vm = \<lparr>vm_aspaces = (\<lambda>_. \<lparr>as_flags = 0, as_base = 0x1000000, as_size = 0x100000, as_root = 100\<rparr>),
     vm_regions = (\<lambda>r. if r = 100 then ex_region 7 0x1001000 0x2000 VMM_REGION_FLAG_PHYSICAL else ex_region 8 0x1010000 0x4000 VMM_REGION_FLAG_PHYSICAL),
     vm_nodes = (\<lambda>r. if r = 100 then \<lparr>bn_rank = 2, bn_parent = 0, bn_child = (\<lambda>d. if d then 200 else 0)\<rparr>
                     else if r = 200 then \<lparr>bn_rank = 1, bn_parent = 100, bn_child = (\<lambda>_. 0)\<rparr> else zero_node),
     vm_res = (\<lambda>_. None)\<rparr>"

abbreviation ex_regions :: bst where "ex_regions \<equiv> region_tree (Aspace_root 1) ex_vm"
abbreviation ex_compare :: "addr \<Rightarrow> addr \<Rightarrow> int" where "ex_compare \<equiv> region_compare (vm_regions ex_vm)"
abbreviation ex_valid :: "addr \<Rightarrow> bool" where "ex_valid \<equiv> \<lambda>r. region_sane (vm_regions ex_vm r)"

definition ex_shape :: wtree where
  "ex_shape = Node Leaf (100, 2) (Node Leaf (200, 1) Leaf)"

lemma ex_shape: "addrs ex_shape = [100, 200]" "wavl ex_shape" "bst_tree ex_regions ex_shape"
  by (simp_all add: ex_shape_def bst_tree_def region_tree_def ex_vm_def)

lemma ex_below: "below (vm_regions ex_vm 100) (vm_regions ex_vm 200)"
  by (simp add: below_def ex_vm_def ex_region_def vmm_flags_guard_def)

lemma ex_sane: "region_sane (vm_regions ex_vm r)"
  by (simp add: region_sane_def ex_vm_def ex_region_def)

lemma ex_bst_ok: "bst_ok ex_compare ex_valid ex_regions [100, 200]"
  using ex_shape ex_below ex_sane by (auto simp: bst_ok_def ordered_def vmm_region_cmp_sane)

lemma ex_aspace_wf: "aspace_wf (vm_aspaces ex_vm 1)"
  by (simp add: aspace_wf_def ex_vm_def)

lemma ex_aspace_ok: "aspace_ok 1 ex_vm [100, 200]"
  unfolding aspace_ok_def regions_ok_def using ex_bst_ok ex_aspace_wf
  by (simp add: inside_def ex_vm_def ex_region_def)

end
