(* ===== verification/Pmm.thy ===== *)
theory Pmm
  imports Vmm_Region
begin

text \<open>
  The physical page allocator (\<^verbatim>\<open>kernel/vm/pmm.c\<close>) and the resource groups (\<^verbatim>\<open>kernel/vm/res_group.c\<close>). Memory comes in
  arenas; each has an array with a structure per page, a list of its free pages and a count of free pages that
  are reserved. A page structure is named by its arena and its index in the array, and the lists of pages are Isabelle
  lists, which the contract of the intrusive lists allows. The mutex of the allocator makes every
  operation one step. What \<^verbatim>\<open>clear_page\<close> overwrites with zeros is recorded in the state.
\<close>

abbreviation PMM_ALLOC_FLAG_KMAP :: uint32 where "PMM_ALLOC_FLAG_KMAP \<equiv> 0x1"
abbreviation PMM_ALLOC_FLAG_CONTIGUOUS :: uint32 where "PMM_ALLOC_FLAG_CONTIGUOUS \<equiv> 0x2"
abbreviation PMM_ALLOC_FLAG_FROM_RESERVED :: uint32 where "PMM_ALLOC_FLAG_FROM_RESERVED \<equiv> 0x4"
abbreviation PMM_ALLOC_FLAG_NO_CLEAR :: uint32 where "PMM_ALLOC_FLAG_NO_CLEAR \<equiv> 0x8"
abbreviation PMM_ALLOC_FLAG_ALLOW_TAGGED :: uint32 where "PMM_ALLOC_FLAG_ALLOW_TAGGED \<equiv> 0x10"
abbreviation PMM_ARENA_FLAG_KMAP :: uint32 where "PMM_ARENA_FLAG_KMAP \<equiv> 0x1"
abbreviation PMM_OBJ_FLAG_NEEDS_CLEAR :: uint32 where "PMM_OBJ_FLAG_NEEDS_CLEAR \<equiv> 0x1"
abbreviation PMM_OBJ_FLAG_ALLOW_TAGGED :: uint32 where "PMM_OBJ_FLAG_ALLOW_TAGGED \<equiv> 0x2"

section \<open>Arenas and pages\<close>

type_synonym paddr = nat
type_synonym page = "addr \<times> nat"

text \<open>The two flags of a page: \<^verbatim>\<open>VM_PAGE_FLAG_NONFREE\<close> and \<^verbatim>\<open>VM_PAGE_FLAG_RESERVED\<close>.\<close>

record vm_page =
  pg_nonfree :: bool
  pg_reserved :: bool

record pmm_arena =
  ar_flags :: uint32
  ar_priority :: nat
  ar_base :: paddr
  ar_kvaddr :: vaddr
  ar_size :: nat
  ar_free_count :: nat
  ar_reserved_count :: nat
  ar_pages :: "nat \<Rightarrow> vm_page"
  ar_free_list :: "nat list"

text \<open>The table of mappings that exist at start-up.\<close>

record mmu_initial_mapping =
  im_phys :: paddr
  im_virt :: vaddr
  im_size :: nat
  im_temporary :: bool

record pmm =
  pm_list :: "addr list"
  pm_arenas :: "addr \<Rightarrow> pmm_arena"
  pm_mappings :: "mmu_initial_mapping list"
  pm_cleared :: "page list"

abbreviation ar_count :: "pmm_arena \<Rightarrow> nat" where "ar_count a \<equiv> ar_size a div PAGE_SIZE"

definition upd_arena :: "addr \<Rightarrow> (pmm_arena \<Rightarrow> pmm_arena) \<Rightarrow> pmm \<Rightarrow> pmm" where
  "upd_arena a f s = s\<lparr>pm_arenas := (pm_arenas s)(a := f (pm_arenas s a))\<rparr>"

definition set_page :: "nat \<Rightarrow> (vm_page \<Rightarrow> vm_page) \<Rightarrow> pmm_arena \<Rightarrow> pmm_arena" where
  "set_page i f a = a\<lparr>ar_pages := (ar_pages a)(i := f (ar_pages a i))\<rparr>"

definition page_is_free :: "pmm \<Rightarrow> page \<Rightarrow> bool" where
  "page_is_free s p \<longleftrightarrow> \<not> pg_nonfree (ar_pages (pm_arenas s (fst p)) (snd p))"

definition page_belongs_to_arena :: "pmm \<Rightarrow> page \<Rightarrow> addr \<Rightarrow> bool" where
  "page_belongs_to_arena s p a \<longleftrightarrow> fst p = a \<and> snd p < ar_count (pm_arenas s a)"

definition address_in_arena :: "paddr \<Rightarrow> pmm_arena \<Rightarrow> bool" where
  "address_in_arena address a \<longleftrightarrow> address \<ge> ar_base a \<and> address \<le> size_sub (add64 (ar_base a) (ar_size a)) 1"

definition vm_page_to_paddr :: "pmm \<Rightarrow> page \<Rightarrow> paddr" where
  "vm_page_to_paddr s p =
     (case List.find (page_belongs_to_arena s p) (pm_list s) of
        Some a \<Rightarrow> add64 (snd p * PAGE_SIZE) (ar_base (pm_arenas s a))
      | None \<Rightarrow> 2 ^ 64 - 1)"

definition paddr_to_vm_page :: "pmm \<Rightarrow> paddr \<Rightarrow> page option" where
  "paddr_to_vm_page s addr =
     (case List.find (\<lambda>a. address_in_arena addr (pm_arenas s a)) (pm_list s) of
        Some a \<Rightarrow> Some (a, (addr - ar_base (pm_arenas s a)) div PAGE_SIZE)
      | None \<Rightarrow> None)"

definition pmm_paddr_to_kvaddr :: "pmm \<Rightarrow> paddr \<Rightarrow> vaddr" where
  "pmm_paddr_to_kvaddr s pa =
     (case List.find (\<lambda>a. ar_kvaddr (pm_arenas s a) \<noteq> 0 \<and> address_in_arena pa (pm_arenas s a)) (pm_list s) of
        Some a \<Rightarrow> add64 (ar_kvaddr (pm_arenas s a)) (pa - ar_base (pm_arenas s a))
      | None \<Rightarrow> 0)"

text \<open>The loop over the table stops at the first entry of size 0.\<close>

definition paddr_to_kvaddr :: "pmm \<Rightarrow> paddr \<Rightarrow> vaddr" where
  "paddr_to_kvaddr s pa =
     (case List.find (\<lambda>m. \<not> im_temporary m \<and> pa \<ge> im_phys m \<and> pa \<le> size_sub (add64 (im_phys m) (im_size m)) 1)
         (takeWhile (\<lambda>m. im_size m > 0) (pm_mappings s)) of
        Some m \<Rightarrow> add64 (im_virt m) (pa - im_phys m)
      | None \<Rightarrow> pmm_paddr_to_kvaddr s pa)"

definition clear_page :: "page \<Rightarrow> pmm \<Rightarrow> pmm res" where
  "clear_page p s =
     (let pa = vm_page_to_paddr s p
      in guardE ''pa'' (pa \<noteq> 2 ^ 64 - 1)
        (guardE ''kva'' (paddr_to_kvaddr s pa \<noteq> 0) (Inr (s\<lparr>pm_cleared := p # pm_cleared s\<rparr>))))"

section \<open>Adding arenas\<close>

fun insert_by_priority :: "pmm \<Rightarrow> addr \<Rightarrow> addr list \<Rightarrow> addr list" where
  "insert_by_priority s arena [] = [arena]"
| "insert_by_priority s arena (a # as) =
     (if ar_priority (pm_arenas s a) > ar_priority (pm_arenas s arena) then arena # a # as
      else a # insert_by_priority s arena as)"

definition insert_arena :: "addr \<Rightarrow> pmm \<Rightarrow> pmm" where
  "insert_arena arena s = s\<lparr>pm_list := insert_by_priority s arena (pm_list s)\<rparr>"

text \<open>The loop of \<^verbatim>\<open>init_page_array\<close> from the index \<open>i\<close> on, with \<open>n\<close> pages left.\<close>

fun init_pages :: "nat \<Rightarrow> nat \<Rightarrow> nat \<Rightarrow> nat \<Rightarrow> pmm_arena \<Rightarrow> pmm_arena" where
  "init_pages page_count reserved_at_start reserved_at_end 0 a = a"
| "init_pages page_count reserved_at_start reserved_at_end (Suc n) a =
     (let i = page_count - Suc n
      in init_pages page_count reserved_at_start reserved_at_end n
        (if i < reserved_at_start \<or> i \<ge> page_count - reserved_at_end then set_page i (\<lambda>p. p\<lparr>pg_nonfree := True\<rparr>) a
         else a\<lparr>ar_free_list := ar_free_list a @ [i], ar_free_count := ar_free_count a + 1\<rparr>))"

definition init_page_array :: "addr \<Rightarrow> nat \<Rightarrow> nat \<Rightarrow> nat \<Rightarrow> pmm \<Rightarrow> pmm res" where
  "init_page_array arena page_count reserved_at_start reserved_at_end s =
     guardE ''reserved_at_start'' (reserved_at_start < page_count)
     (guardE ''reserved_at_end'' (reserved_at_end \<le> page_count)
      (Inr (upd_arena arena (\<lambda>a. init_pages page_count reserved_at_start reserved_at_end page_count
         (a\<lparr>ar_pages := (\<lambda>_. \<lparr>pg_nonfree = False, pg_reserved = False\<rparr>)\<rparr>)) s)))"

definition reset_arena :: "pmm_arena \<Rightarrow> pmm_arena" where
  "reset_arena a = a\<lparr>ar_free_count := 0, ar_reserved_count := 0, ar_free_list := []\<rparr>"

definition pmm_add_arena :: "addr \<Rightarrow> pmm \<Rightarrow> (int \<times> pmm) res" where
  "pmm_add_arena arena s =
     (let a = pm_arenas s arena
      in guardE ''base'' (IS_PAGE_ALIGNED (ar_base a)) (guardE ''size'' (IS_PAGE_ALIGNED (ar_size a)) (guardE ''size > 0'' (ar_size a > 0)
        (let kva = (if ar_flags a AND PMM_ARENA_FLAG_KMAP \<noteq> 0 then paddr_to_kvaddr s (ar_base a) else 0)
         in guardE ''kvaddr'' (ar_flags a AND PMM_ARENA_FLAG_KMAP \<noteq> 0 \<longrightarrow> kva \<noteq> 0)
          (bindE (init_page_array arena (ar_count a) 0 0 (upd_arena arena (\<lambda>a. (reset_arena a)\<lparr>ar_kvaddr := kva\<rparr>) s))
            (\<lambda>s1. Inr (NO_ERROR, insert_arena arena s1)))))))"

text \<open>\<open>alloc_physical\<close> is what \<^verbatim>\<open>vmm_alloc_physical_etc\<close> returns and the address it gives.\<close>

abbreviation sizeof_vm_page :: nat where "sizeof_vm_page \<equiv> 24"

definition pmm_add_arena_late_etc :: "int \<times> vaddr \<Rightarrow> addr \<Rightarrow> nat \<Rightarrow> nat \<Rightarrow> pmm \<Rightarrow> (int \<times> pmm) res" where
  "pmm_add_arena_late_etc alloc_physical arena reserve_at_start reserve_at_end s =
     (let a = pm_arenas s arena
      in guardE ''base'' (IS_PAGE_ALIGNED (ar_base a)) (guardE ''size'' (IS_PAGE_ALIGNED (ar_size a)) (guardE ''size > 0'' (ar_size a > 0)
        (let s1 = upd_arena arena reset_arena s; page_count = ar_count a
         in if add64 (round_up (add64 reserve_at_start (page_count * sizeof_vm_page)) PAGE_SIZE) (round_up reserve_at_end PAGE_SIZE) > ar_size a
            then Inr (ERR_INVALID_ARGS, s1)
            else let mapped = ar_flags a AND PMM_ARENA_FLAG_KMAP \<noteq> 0;
                     va = (if mapped then paddr_to_kvaddr s1 (ar_base a) else snd alloc_physical)
              in if mapped \<and> va = 0 then Inr (ERR_INVALID_ARGS, s1)
                 else if \<not> mapped \<and> fst alloc_physical < 0 then Inr (fst alloc_physical, s1)
                 else let s2 = upd_arena arena (\<lambda>a. a\<lparr>ar_flags := ar_flags a OR PMM_ARENA_FLAG_KMAP, ar_kvaddr := va\<rparr>) s1;
                          reserve = add64 reserve_at_start (page_count * sizeof_vm_page)
                   in bindE (init_page_array arena page_count (round_up reserve PAGE_SIZE div PAGE_SIZE) (round_up reserve_at_end PAGE_SIZE div PAGE_SIZE) s2)
                     (\<lambda>s3. Inr (NO_ERROR, insert_arena arena s3))))))"

section \<open>Runs of free pages\<close>

definition first_nonfree :: "(nat \<Rightarrow> vm_page) \<Rightarrow> nat \<Rightarrow> nat \<Rightarrow> nat option" where
  "first_nonfree pages start count = List.find (\<lambda>i. pg_nonfree (pages (start + i))) [0..<count]"

text \<open>The search from \<open>start\<close> on; \<^verbatim>\<open>start\<close> and \<^verbatim>\<open>count\<close> have 32 bits.\<close>

partial_function (option) find_run_loop :: "pmm_arena \<Rightarrow> nat \<Rightarrow> nat \<Rightarrow> nat \<Rightarrow> nat \<Rightarrow> nat option" where
  "find_run_loop a count aligned_offset shift start =
     (if start < ar_count a \<and> (start + count) mod 2 ^ 32 \<le> ar_count a then
        (case first_nonfree (ar_pages a) start count of
           None \<Rightarrow> Some start
         | Some i \<Rightarrow> find_run_loop a count aligned_offset shift
             (add64 (round_up ((start - aligned_offset + i + 1) mod 2 ^ 32) (push_bit shift 1)) aligned_offset mod 2 ^ 32))
      else Some (2 ^ 64 - 1))"

definition pmm_arena_find_free_run :: "pmm_arena \<Rightarrow> nat \<Rightarrow> nat \<Rightarrow> nat option" where
  "pmm_arena_find_free_run a count alignment_log2 =
     (let al = max alignment_log2 PAGE_SIZE_SHIFT;
          rounded_base = round_up (ar_base a) (push_bit al 1)
      in if rounded_base < ar_base a \<or> rounded_base > add64 (ar_base a) (size_sub (ar_size a) 1) then Some (2 ^ 64 - 1)
         else let aligned_offset = ((rounded_base - ar_base a) div PAGE_SIZE) mod 2 ^ 32
           in find_run_loop a count aligned_offset (al - PAGE_SIZE_SHIFT) aligned_offset)"

section \<open>Reservations\<close>

fun check_available_pages :: "bool \<Rightarrow> addr list \<Rightarrow> nat \<Rightarrow> pmm \<Rightarrow> (nat \<times> pmm) res" where
  "check_available_pages reserve [] count s = Inr (count, s)"
| "check_available_pages reserve (p # ps) count s =
     (let a = pm_arenas s p
      in guardE ''free_count'' (ar_free_count a \<ge> ar_reserved_count a)
        (let available_count = ar_free_count a - ar_reserved_count a
         in if available_count = 0 then check_available_pages reserve ps count s
            else let n = min count available_count;
                     s1 = (if reserve then upd_arena p (\<lambda>a. a\<lparr>ar_reserved_count := ar_reserved_count a + n\<rparr>) s else s)
              in if count - n = 0 then Inr (0, s1) else check_available_pages reserve ps (count - n) s1))"

definition pmm_reserve_pages :: "nat \<Rightarrow> pmm \<Rightarrow> (int \<times> pmm) res" where
  "pmm_reserve_pages count s =
     bindE (check_available_pages False (pm_list s) count s)
      (\<lambda>(remaining_count, s1).
        if remaining_count \<noteq> 0 then Inr (ERR_NO_MEMORY, s1)
        else bindE (check_available_pages True (pm_list s1) count s1) (\<lambda>(_, s2). Inr (NO_ERROR, s2)))"

fun unreserve_loop :: "addr list \<Rightarrow> nat \<Rightarrow> pmm \<Rightarrow> pmm res" where
  "unreserve_loop [] count s = guardE ''!count'' (count = 0) (Inr s)"
| "unreserve_loop (p # ps) count s =
     (let n = min count (ar_reserved_count (pm_arenas s p));
          s1 = upd_arena p (\<lambda>a. a\<lparr>ar_reserved_count := ar_reserved_count a - n\<rparr>) s
      in if count - n = 0 then Inr s1 else unreserve_loop ps (count - n) s1)"

definition pmm_unreserve_pages :: "nat \<Rightarrow> pmm \<Rightarrow> pmm res" where
  "pmm_unreserve_pages count s = unreserve_loop (pm_list s) count s"

section \<open>Freeing pages\<close>

definition free_one :: "page \<Rightarrow> addr \<Rightarrow> pmm \<Rightarrow> pmm" where
  "free_one p a s =
     upd_arena a (\<lambda>ar.
       let ar1 = (set_page (snd p) (\<lambda>x. x\<lparr>pg_nonfree := False\<rparr>) ar)\<lparr>ar_free_list := snd p # ar_free_list ar, ar_free_count := ar_free_count ar + 1\<rparr>
       in if pg_reserved (ar_pages ar1 (snd p))
          then (set_page (snd p) (\<lambda>x. x\<lparr>pg_reserved := False\<rparr>) ar1)\<lparr>ar_reserved_count := ar_reserved_count ar1 + 1\<rparr>
          else ar1) s"

fun pmm_free_locked :: "page list \<Rightarrow> nat \<Rightarrow> pmm \<Rightarrow> (nat \<times> pmm) res" where
  "pmm_free_locked [] count s = Inr (count, s)"
| "pmm_free_locked (p # ps) count s =
     guardE ''nonfree'' (\<not> page_is_free s p)
      (case List.find (page_belongs_to_arena s p) (pm_list s) of
         None \<Rightarrow> pmm_free_locked ps count s
       | Some a \<Rightarrow> pmm_free_locked ps (count + 1) (free_one p a s))"

definition pmm_free :: "page list \<Rightarrow> pmm \<Rightarrow> (nat \<times> pmm) res" where
  "pmm_free ps s = pmm_free_locked ps 0 s"

definition pmm_free_page :: "page \<Rightarrow> pmm \<Rightarrow> (nat \<times> pmm) res" where
  "pmm_free_page p s = pmm_free [p] s"

section \<open>Allocating pages\<close>

text \<open>Which page of the arena is taken next, off the free list; none if the list is empty.\<close>

definition take_page :: "uint32 \<Rightarrow> addr \<Rightarrow> nat \<Rightarrow> pmm \<Rightarrow> (nat \<times> pmm) option res" where
  "take_page flags p run s =
     (let a = pm_arenas s p
      in if flags AND PMM_ALLOC_FLAG_CONTIGUOUS \<noteq> 0 then
           guardE ''free_run_start'' (run < ar_count a)
           (guardE ''free'' (\<not> pg_nonfree (ar_pages a run))
           (guardE ''list_in_list'' (run \<in> set (ar_free_list a))
            (Inr (Some (run, upd_arena p (\<lambda>a. a\<lparr>ar_free_list := remove1 run (ar_free_list a)\<rparr>) s)))))
         else case ar_free_list a of
           [] \<Rightarrow> Inr None
         | i # rest \<Rightarrow> Inr (Some (i, upd_arena p (\<lambda>a. a\<lparr>ar_free_list := rest\<rparr>) s)))"

text \<open>The pages are marked and counted after they have been taken.\<close>

definition mark_page :: "uint32 \<Rightarrow> addr \<Rightarrow> nat \<Rightarrow> pmm \<Rightarrow> pmm" where
  "mark_page flags p i s =
     upd_arena p (\<lambda>a.
       let a1 = (if flags AND PMM_ALLOC_FLAG_FROM_RESERVED \<noteq> 0
             then (set_page i (\<lambda>x. x\<lparr>pg_reserved := True\<rparr>) a)\<lparr>ar_reserved_count := ar_reserved_count a - 1\<rparr> else a)
       in (set_page i (\<lambda>x. x\<lparr>pg_nonfree := True\<rparr>) a1)\<lparr>ar_free_count := ar_free_count a1 - 1\<rparr>) s"

text \<open>The loop within an arena, with \<open>n\<close> pages still to allocate.\<close>

fun take_pages :: "uint32 \<Rightarrow> addr \<Rightarrow> nat \<Rightarrow> nat \<Rightarrow> page list \<Rightarrow> pmm \<Rightarrow> (page list \<times> pmm) res" where
  "take_pages flags p 0 run tmp s = Inr (tmp, s)"
| "take_pages flags p (Suc n) run tmp s =
     (let a = pm_arenas s p
      in if (if flags AND PMM_ALLOC_FLAG_FROM_RESERVED \<noteq> 0 then ar_reserved_count a = 0 else ar_free_count a \<le> ar_reserved_count a)
         then Inr (tmp, s)
         else bindE (take_page flags p run s)
           (\<lambda>r. case r of
              None \<Rightarrow> Inr (tmp, s)
            | Some (i, s1) \<Rightarrow>
                bindE (if flags AND PMM_ALLOC_FLAG_NO_CLEAR = 0 then clear_page (p, i) s1 else Inr s1)
                 (\<lambda>s2. take_pages flags p n (run + 1) (tmp @ [(p, i)]) (mark_page flags p i s2))))"

text \<open>The loop over the arenas.\<close>

fun alloc_arenas :: "uint32 \<Rightarrow> nat \<Rightarrow> nat \<Rightarrow> addr list \<Rightarrow> page list \<Rightarrow> pmm \<Rightarrow> (page list \<times> pmm) res option" where
  "alloc_arenas flags align_log2 count [] tmp s = Some (Inr (tmp, s))"
| "alloc_arenas flags align_log2 count (p # ps) tmp s =
     (let a = pm_arenas s p
      in bindO (guardE ''free_count'' (ar_free_count a \<ge> ar_reserved_count a) (Inr ()))
        (\<lambda>_. if flags AND PMM_ALLOC_FLAG_KMAP \<noteq> 0 \<and> ar_flags a AND PMM_ARENA_FLAG_KMAP = 0
          then alloc_arenas flags align_log2 count ps tmp s
          else if flags AND PMM_ALLOC_FLAG_CONTIGUOUS \<noteq> 0 then
            Option.bind (pmm_arena_find_free_run a count align_log2)
              (\<lambda>free_run_start. if free_run_start = 2 ^ 64 - 1 then alloc_arenas flags align_log2 count ps tmp s
                else bindO (take_pages flags p (count - length tmp) free_run_start tmp s)
                  (\<lambda>(tmp1, s1). alloc_arenas flags align_log2 count ps tmp1 s1))
          else bindO (take_pages flags p (count - length tmp) (2 ^ 64 - 1) tmp s)
            (\<lambda>(tmp1, s1). alloc_arenas flags align_log2 count ps tmp1 s1)))"

text \<open>
  The result: the status, the pages allocated (to be appended to the list of the caller), and what is written
  to the array of the caller: one page for a contiguous allocation, otherwise all of them.
\<close>

definition pmm_alloc_pages_locked :: "nat \<Rightarrow> uint32 \<Rightarrow> nat \<Rightarrow> pmm \<Rightarrow> (int \<times> page list \<times> page list \<times> pmm) res option" where
  "pmm_alloc_pages_locked count flags0 align_log2 s =
     bindO (guardE ''align_log2'' (align_log2 = 0 \<or> flags0 AND PMM_ALLOC_FLAG_CONTIGUOUS \<noteq> 0) (Inr ()))
      (\<lambda>_. let flags = (if flags0 AND PMM_ALLOC_FLAG_CONTIGUOUS \<noteq> 0 \<and> count = 1 \<and> align_log2 \<le> PAGE_SIZE_SHIFT
                        then flags0 AND NOT PMM_ALLOC_FLAG_CONTIGUOUS else flags0)
        in bindP (alloc_arenas flags align_log2 count (pm_list s) [] s)
          (\<lambda>(tmp, s1). let pages = (if flags AND PMM_ALLOC_FLAG_CONTIGUOUS \<noteq> 0 then take 1 tmp else tmp)
            in if length tmp \<noteq> count then bindO (pmm_free_locked tmp 0 s1) (\<lambda>(_, s2). Some (Inr (ERR_NO_MEMORY, [], pages, s2)))
               else Some (Inr (NO_ERROR, tmp, pages, s1))))"

definition pmm_alloc_contiguous :: "nat \<Rightarrow> nat \<Rightarrow> pmm \<Rightarrow> (nat \<times> paddr \<times> page list \<times> pmm) res option" where
  "pmm_alloc_contiguous count alignment_log2 s =
     (if count = 0 then Some (Inr (0, 0, [], s))
      else bindP (pmm_alloc_pages_locked count (PMM_ALLOC_FLAG_KMAP OR PMM_ALLOC_FLAG_CONTIGUOUS) (max alignment_log2 PAGE_SIZE_SHIFT) s)
        (\<lambda>(ret, lst, pages, s1). Some (Inr (if ret \<noteq> 0 then (0, 0, lst, s1) else (count, vm_page_to_paddr s1 (hd pages), lst, s1)))))"

definition pmm_alloc_kpages :: "nat \<Rightarrow> pmm \<Rightarrow> (vaddr \<times> page list \<times> pmm) res option" where
  "pmm_alloc_kpages count s =
     bindP (pmm_alloc_contiguous count PAGE_SIZE_SHIFT s)
      (\<lambda>(alloc_count, pa, lst, s1). Some (Inr (if alloc_count = 0 then (0, lst, s1) else (paddr_to_kvaddr s1 pa, lst, s1))))"

text \<open>The loop of \<^verbatim>\<open>pmm_alloc_range\<close> within an arena, and that over the arenas.\<close>

fun range_pages :: "addr \<Rightarrow> nat \<Rightarrow> paddr \<Rightarrow> page list \<Rightarrow> pmm \<Rightarrow> (paddr \<times> page list \<times> pmm) res" where
  "range_pages p 0 address lst s = Inr (address, lst, s)"
| "range_pages p (Suc n) address lst s =
     (let a = pm_arenas s p
      in if \<not> address_in_arena address a \<or> ar_free_count a \<le> ar_reserved_count a then Inr (address, lst, s)
         else let index = (address - ar_base a) div PAGE_SIZE
           in guardE ''index'' (index < ar_count a)
            (if pg_nonfree (ar_pages a index) then Inr (address, lst, s)
             else guardE ''list_in_list'' (index \<in> set (ar_free_list a))
              (range_pages p n (add64 address PAGE_SIZE) (lst @ [(p, index)])
                (upd_arena p (\<lambda>a. (set_page index (\<lambda>x. x\<lparr>pg_nonfree := True\<rparr>) a)
                   \<lparr>ar_free_list := remove1 index (ar_free_list a), ar_free_count := ar_free_count a - 1\<rparr>) s))))"

fun range_arenas :: "nat \<Rightarrow> addr list \<Rightarrow> paddr \<Rightarrow> page list \<Rightarrow> pmm \<Rightarrow> (page list \<times> pmm) res" where
  "range_arenas count [] address lst s = Inr (lst, s)"
| "range_arenas count (p # ps) address lst s =
     bindE (range_pages p (count - length lst) address lst s)
      (\<lambda>(address1, lst1, s1). if length lst1 = count then Inr (lst1, s1) else range_arenas count ps address1 lst1 s1)"

definition pmm_alloc_range :: "paddr \<Rightarrow> nat \<Rightarrow> pmm \<Rightarrow> (page list \<times> pmm) res" where
  "pmm_alloc_range address count s =
     (if count = 0 then Inr ([], s) else range_arenas count (pm_list s) (round_down address PAGE_SIZE) [] s)"

text \<open>\<open>va_to_pa\<close> is \<^verbatim>\<open>vaddr_to_paddr\<close>, which asks the page tables.\<close>

definition pmm_free_kpages :: "(vaddr \<Rightarrow> paddr) \<Rightarrow> vaddr \<Rightarrow> nat \<Rightarrow> pmm \<Rightarrow> (nat \<times> pmm) res" where
  "pmm_free_kpages va_to_pa ptr count s =
     pmm_free (List.map_filter (\<lambda>i. paddr_to_vm_page s (va_to_pa (add64 ptr (i * PAGE_SIZE)))) [0..<count]) s"

section \<open>Resource groups\<close>

record res_group =
  rs_reserved_pages :: nat
  rs_used_pages :: nat
  rs_is_shutdown :: bool

text \<open>
  \<open>calloc_ok\<close> tells whether there was memory for the structure. The numbers of pages are \<^verbatim>\<open>size_t\<close> here and become \<^verbatim>\<open>uint\<close>
  in the calls of \<^verbatim>\<open>pmm_reserve_pages\<close> and \<^verbatim>\<open>pmm_unreserve_pages\<close>.
\<close>

definition res_group_create :: "bool \<Rightarrow> nat \<Rightarrow> pmm \<Rightarrow> (res_group option \<times> pmm) res" where
  "res_group_create calloc_ok pages s =
     (if \<not> calloc_ok then Inr (None, s)
      else bindE (pmm_reserve_pages (pages mod 2 ^ 32) s)
        (\<lambda>(ret, s1). Inr (if ret \<noteq> 0 then (None, s1)
            else (Some \<lparr>rs_reserved_pages = pages, rs_used_pages = 0, rs_is_shutdown = False\<rparr>, s1))))"

definition res_group_destroy :: "res_group \<Rightarrow> pmm \<Rightarrow> pmm res" where
  "res_group_destroy g s =
     guardE ''is_shutdown'' (rs_is_shutdown g)
     (guardE ''used_pages'' (rs_used_pages g = 0)
      (if rs_reserved_pages g \<noteq> 0 then pmm_unreserve_pages (rs_reserved_pages g mod 2 ^ 32) s else Inr s))"

definition res_group_shutdown :: "res_group \<Rightarrow> pmm \<Rightarrow> (res_group \<times> pmm) res" where
  "res_group_shutdown g s =
     guardE ''!is_shutdown'' (\<not> rs_is_shutdown g)
      (let unused_pages = size_sub (rs_reserved_pages g) (rs_used_pages g);
           g1 = g\<lparr>rs_is_shutdown := True, rs_reserved_pages := size_sub (rs_reserved_pages g) unused_pages\<rparr>
       in bindE (pmm_unreserve_pages (unused_pages mod 2 ^ 32) s) (\<lambda>s1. Inr (g1, s1)))"

definition check_take :: "res_group \<Rightarrow> nat \<Rightarrow> int" where
  "check_take g pages =
     (if rs_is_shutdown g then ERR_OBJECT_DESTROYED
      else case add_overflow (rs_used_pages g) pages of
        None \<Rightarrow> ERR_NO_MEMORY
      | Some total_pages \<Rightarrow> if total_pages > rs_reserved_pages g then ERR_NO_MEMORY else NO_ERROR)"

definition res_group_take_mem :: "res_group \<Rightarrow> nat \<Rightarrow> int \<times> res_group" where
  "res_group_take_mem g pages =
     (let ret = check_take g pages in (ret, if ret = 0 then g\<lparr>rs_used_pages := rs_used_pages g + pages\<rparr> else g))"

definition res_group_release_mem :: "res_group \<Rightarrow> nat \<Rightarrow> res_group res" where
  "res_group_release_mem g pages =
     guardE ''used_pages'' (rs_used_pages g \<ge> pages) (Inr (g\<lparr>rs_used_pages := rs_used_pages g - pages\<rparr>))"

section \<open>Memory objects\<close>

record pmm_vmm_obj =
  po_page_list :: "page list"
  po_chunk_count :: nat
  po_chunk_size :: nat
  po_has_group :: bool
  po_used_pages :: nat
  po_flags :: uint32
  po_chunk :: "page list"

definition pmm_vmm_obj_get_page :: "pmm \<Rightarrow> pmm_vmm_obj \<Rightarrow> nat \<Rightarrow> int \<times> paddr \<times> nat" where
  "pmm_vmm_obj_get_page s ob offset =
     (let index = offset div po_chunk_size ob; chunk_offset = offset mod po_chunk_size ob
      in if index \<ge> po_chunk_count ob then (ERR_OUT_OF_RANGE, 0, 0)
         else (0, add64 (vm_page_to_paddr s (po_chunk ob ! index)) chunk_offset, po_chunk_size ob - chunk_offset))"

definition pmm_alloc_obj :: "bool \<Rightarrow> nat \<Rightarrow> nat \<Rightarrow> pmm_vmm_obj option res" where
  "pmm_alloc_obj calloc_ok chunk_count chunk_size =
     guardE ''chunk_size'' (chunk_size mod PAGE_SIZE = 0)
      (Inr (if chunk_count = 0 \<or> \<not> calloc_ok then None
        else Some \<lparr>po_page_list = [], po_chunk_count = chunk_count, po_chunk_size = chunk_size, po_has_group = False,
          po_used_pages = 0, po_flags = 0, po_chunk = []\<rparr>))"

text \<open>The counts are those of \<^verbatim>\<open>uint\<close> values below \<open>2 ^ 32\<close>. The group, if there is one, is changed along; \<open>tagging\<close> is
  \<^verbatim>\<open>arch_tagging_enabled()\<close>.\<close>

definition pmm_alloc_from_res_group ::
    "bool \<Rightarrow> bool \<Rightarrow> res_group option \<Rightarrow> nat \<Rightarrow> uint32 \<Rightarrow> nat \<Rightarrow> pmm \<Rightarrow> (int \<times> pmm_vmm_obj option \<times> res_group option \<times> pmm) res option" where
  "pmm_alloc_from_res_group calloc_ok tagging grp count flags align_log2 s =
     bindO (guardE ''count > 0'' (count > 0)
       (guardE ''res_group'' (flags AND PMM_ALLOC_FLAG_FROM_RESERVED \<noteq> 0 \<longrightarrow> grp \<noteq> None)
       (guardE ''FROM_RESERVED'' (grp \<noteq> None \<longrightarrow> flags AND PMM_ALLOC_FLAG_FROM_RESERVED \<noteq> 0) (Inr ()))))
      (\<lambda>_. let (ret, group1) = (case grp of None \<Rightarrow> (0, None) | Some g \<Rightarrow> map_prod id Some (res_group_take_mem g count))
        in if ret \<noteq> 0 then Some (Inr (ret, None, group1, s))
           else let contiguous = flags AND PMM_ALLOC_FLAG_CONTIGUOUS \<noteq> 0;
                    release = (\<lambda>e s1. bindO (case group1 of None \<Rightarrow> Inr None | Some g \<Rightarrow> bindE (res_group_release_mem g count) (\<lambda>g1. Inr (Some g1)))
                       (\<lambda>group2. Some (Inr (e, None, group2, s1))))
             in bindO (pmm_alloc_obj calloc_ok (if contiguous then 1 else count) (if contiguous then (count * PAGE_SIZE) mod 2 ^ 64 else PAGE_SIZE))
               (\<lambda>obj. case obj of
                  None \<Rightarrow> release ERR_NO_MEMORY s
                | Some ob \<Rightarrow>
                    bindP (pmm_alloc_pages_locked count flags align_log2 s)
                     (\<lambda>(ret, page_list, chunk, s1).
                       bindO (guardE ''arch_tagging_enabled'' (flags AND PMM_ALLOC_FLAG_ALLOW_TAGGED \<noteq> 0 \<longrightarrow> tagging) (Inr ()))
                        (\<lambda>_. if ret \<noteq> 0 then release ret s1
                          else Some (Inr (NO_ERROR, Some (ob\<lparr>po_page_list := page_list, po_chunk := chunk,
                             po_flags := (if flags AND PMM_ALLOC_FLAG_NO_CLEAR \<noteq> 0 then PMM_OBJ_FLAG_NEEDS_CLEAR else 0)
                               OR (if flags AND PMM_ALLOC_FLAG_ALLOW_TAGGED \<noteq> 0 then PMM_OBJ_FLAG_ALLOW_TAGGED else 0),
                             po_has_group := (grp \<noteq> None), po_used_pages := (if grp \<noteq> None then count else 0)\<rparr>), group1, s1))))))"

definition pmm_vmm_is_pmm_that_needs_clear :: "pmm_vmm_obj \<Rightarrow> bool" where
  "pmm_vmm_is_pmm_that_needs_clear ob \<longleftrightarrow> po_flags ob AND PMM_OBJ_FLAG_NEEDS_CLEAR \<noteq> 0"

definition pmm_vmm_is_pmm_that_allows_tagged :: "pmm_vmm_obj \<Rightarrow> bool" where
  "pmm_vmm_is_pmm_that_allows_tagged ob \<longleftrightarrow> po_flags ob AND PMM_OBJ_FLAG_ALLOW_TAGGED \<noteq> 0"

definition pmm_set_cleared :: "nat \<Rightarrow> nat \<Rightarrow> pmm_vmm_obj \<Rightarrow> pmm_vmm_obj res" where
  "pmm_set_cleared offset sz ob =
     guardE ''needs_clear'' (pmm_vmm_is_pmm_that_needs_clear ob)
     (guardE ''offset'' (offset = 0)
     (guardE ''size'' (sz = (po_chunk_count ob * po_chunk_size ob) mod 2 ^ 64)
      (Inr (ob\<lparr>po_flags := po_flags ob AND NOT PMM_OBJ_FLAG_NEEDS_CLEAR\<rparr>))))"

definition pmm_set_tagged :: "pmm_vmm_obj \<Rightarrow> pmm_vmm_obj res" where
  "pmm_set_tagged ob =
     guardE ''allows_tagged'' (pmm_vmm_is_pmm_that_allows_tagged ob)
      (Inr (ob\<lparr>po_flags := po_flags ob AND NOT PMM_OBJ_FLAG_ALLOW_TAGGED\<rparr>))"

definition pmm_vmm_obj_destroy :: "pmm_vmm_obj \<Rightarrow> res_group option \<Rightarrow> pmm \<Rightarrow> (res_group option \<times> pmm) res" where
  "pmm_vmm_obj_destroy ob grp s =
     bindE (pmm_free (po_page_list ob) s)
      (\<lambda>(_, s1). case grp of
         Some g \<Rightarrow> if po_has_group ob then bindE (res_group_release_mem g (po_used_pages ob)) (\<lambda>g1. Inr (Some g1, s1)) else Inr (grp, s1)
       | None \<Rightarrow> Inr (None, s1))"

end
