(* ===== verification/Pmm_Runs.thy ===== *)
theory Pmm_Runs
  imports Pmm Vmm_Spot
begin

text \<open>
  The search for a run of free pages ends and finds the first aligned run there is.
\<close>

definition free_run :: "pmm_arena \<Rightarrow> nat \<Rightarrow> nat \<Rightarrow> bool" where
  "free_run a count j \<longleftrightarrow> j + count \<le> ar_count a \<and> (\<forall>i < count. \<not> pg_nonfree (ar_pages a (j + i)))"

text \<open>The arena and the request are small enough for 32-bit page numbers.\<close>

definition run_bounds :: "pmm_arena \<Rightarrow> nat \<Rightarrow> nat \<Rightarrow> bool" where
  "run_bounds a count al \<longleftrightarrow> 12 \<le> al \<and> al < 44 \<and> ar_count a + 2 ^ (al - 12) + count < 2 ^ 32 \<and> 0 < ar_size a \<and> PAGE_SIZE dvd ar_base a \<and>
     PAGE_SIZE dvd ar_size a \<and> ar_base a + ar_size a \<le> 2 ^ 64 \<and> 0 < count"

lemma first_nonfree_None: "first_nonfree pages start count = None \<longleftrightarrow> (\<forall>i < count. \<not> pg_nonfree (pages (start + i)))"
  by (auto simp: first_nonfree_def find_None_iff)

lemma first_nonfree_Some: "first_nonfree pages start count = Some i \<Longrightarrow> i < count \<and> pg_nonfree (pages (start + i))"
  by (auto simp: first_nonfree_def find_Some_iff)

text \<open>Page numbers at which a run may start: whole multiples of the alignment above the offset.\<close>

definition slot_at :: "nat \<Rightarrow> nat \<Rightarrow> nat \<Rightarrow> bool" where
  "slot_at ao sh j \<longleftrightarrow> ao \<le> j \<and> 2 ^ sh dvd j - ao"

lemma next_slot:
  assumes "slot_at ao sh start" "start + i + 1 + 2 ^ sh < 2 ^ 32" "sh < 32"
  defines "n \<equiv> add64 (round_up ((start - ao + i + 1) mod 2 ^ 32) (2 ^ sh)) ao mod 2 ^ 32"
  shows "slot_at ao sh n" "start + i < n" "n < start + i + 1 + 2 ^ sh" "\<And>c. slot_at ao sh c \<Longrightarrow> start + i < c \<Longrightarrow> n \<le> c"
proof -
  let ?x = "start - ao + i + 1"
  have ao: "ao \<le> start" using assms(1) by (simp add: slot_at_def)
  have x: "?x + 2 ^ sh < 2 ^ 32" using assms(2) ao by linarith
  have xm: "?x mod 2 ^ 32 = ?x" using x by simp
  have "?x < 2 ^ 64" "sh < 64" "?x + (2 ^ sh - 1) < 2 ^ 64" using x assms(3) by (simp_all add: order_less_trans [of _ "2 ^ 32"])
  with round_up_pow2 [of ?x sh] have r: "2 ^ sh dvd round_up ?x (2 ^ sh)" "?x \<le> round_up ?x (2 ^ sh)" "round_up ?x (2 ^ sh) < ?x + 2 ^ sh" by simp_all
  let ?r = "round_up ?x (2 ^ sh)"
  have "?r + ao < 2 ^ 32" using r(3) assms(2) ao by linarith
  then have n: "n = ?r + ao" unfolding n_def xm add64_def by simp
  show "slot_at ao sh n" using r(1) by (simp add: n slot_at_def)
  show "start + i < n" "n < start + i + 1 + 2 ^ sh" using r(2,3) ao by (simp_all add: n)
  fix c assume c: "slot_at ao sh c" "start + i < c"
  show "n \<le> c"
  proof (rule ccontr)
    assume "\<not> n \<le> c"
    then have "c - ao < ?r" "?x \<le> c - ao" using c ao by (auto simp: n slot_at_def)
    moreover have "2 ^ sh dvd c - ao" using c(1) by (simp add: slot_at_def)
    with r(1) have "2 ^ sh dvd ?r - (c - ao)" by (rule dvd_diff_nat)
    ultimately have "2 ^ sh \<le> ?r - (c - ao)" by (intro dvd_imp_le) simp_all
    with r(3) \<open>?x \<le> c - ao\<close> \<open>c - ao < ?r\<close> show False by linarith
  qed
qed

lemma find_run_loop_ok:
  assumes b: "ar_count a + 2 ^ sh + count < 2 ^ 32" "sh < 32" and c: "0 < count"
    and s: "slot_at ao sh start" "start < ar_count a + count + 2 ^ sh" and none: "\<And>j. slot_at ao sh j \<Longrightarrow> j < start \<Longrightarrow> \<not> free_run a count j"
  shows "\<exists>r. find_run_loop a count ao sh start = Some r \<and>
    (if r = 2 ^ 64 - 1 then \<forall>j. slot_at ao sh j \<longrightarrow> \<not> free_run a count j
     else slot_at ao sh r \<and> free_run a count r \<and> (\<forall>j. slot_at ao sh j \<longrightarrow> free_run a count j \<longrightarrow> r \<le> j))"
  using s none
proof (induction "2 ^ 32 - start" arbitrary: start rule: less_induct)
  case less
  have small: "(start + count) mod 2 ^ 32 \<le> ar_count a \<longleftrightarrow> start + count \<le> ar_count a" if "start < ar_count a"
    using that b(1) by simp
  show ?case
  proof (cases "start < ar_count a \<and> start + count \<le> ar_count a")
    case False
    then have "find_run_loop a count ao sh start = Some (2 ^ 64 - 1)" using small by (subst find_run_loop.simps) auto
    moreover have "\<not> free_run a count j" if "slot_at ao sh j" for j
      using less.prems(3) [OF that] False c by (cases "j < start") (auto simp: free_run_def)
    ultimately show ?thesis by auto
  next
    case True
    show ?thesis
    proof (cases "first_nonfree (ar_pages a) start count")
      case None
      then have "find_run_loop a count ao sh start = Some start" using True small by (subst find_run_loop.simps) simp
      moreover have "free_run a count start" using None True by (simp add: free_run_def first_nonfree_None)
      moreover have "start \<noteq> 2 ^ 64 - 1" using True b(1) by auto
      ultimately show ?thesis using less.prems(1,3) by (auto simp: not_less [symmetric])
    next
      case (Some i)
      note i = first_nonfree_Some [OF Some]
      define n where "n = add64 (round_up ((start - ao + i + 1) mod 2 ^ 32) (2 ^ sh)) ao mod 2 ^ 32"
      have "start + i + 1 + 2 ^ sh < 2 ^ 32" using i True b(1) by linarith
      note n = next_slot [OF less.prems(1) this b(2), folded n_def]
      have run: "find_run_loop a count ao sh start = find_run_loop a count ao sh n"
        using True small Some by (subst find_run_loop.simps) (simp add: n_def push_bit_eq_mult)
      have "n < ar_count a + count + 2 ^ sh" using n(3) i True by linarith
      moreover have "\<not> free_run a count j" if j: "slot_at ao sh j" "j < n" for j
      proof (cases "j < start")
        case False
        have "j \<le> start + i" using n(4) [OF j(1)] j(2) by (meson linorder_not_less)
        with False i have "start + i - j < count" "j + (start + i - j) = start + i" by auto
        with i show ?thesis by (auto simp: free_run_def)
      qed (use less.prems(3) j in blast)
      moreover have "2 ^ 32 - n < 2 ^ 32 - start" using n(2,3) \<open>start + i + 1 + 2 ^ sh < 2 ^ 32\<close> by linarith
      ultimately show ?thesis unfolding run using less.hyps [of n] n(1) by blast
    qed
  qed
qed

text \<open>A run of pages whose first page is aligned.\<close>

definition aligned_run :: "pmm_arena \<Rightarrow> nat \<Rightarrow> nat \<Rightarrow> nat \<Rightarrow> bool" where
  "aligned_run a al count j \<longleftrightarrow> 2 ^ al dvd ar_base a + j * PAGE_SIZE \<and> free_run a count j"

lemma pmm_arena_find_free_run_ok:
  assumes b: "run_bounds a count (max al 12)"
  shows "\<exists>r. pmm_arena_find_free_run a count al = Some r \<and>
    (if r = 2 ^ 64 - 1 then \<forall>j. \<not> aligned_run a (max al 12) count j
     else aligned_run a (max al 12) count r \<and> (\<forall>j. aligned_run a (max al 12) count j \<longrightarrow> r \<le> j))"
proof -
  let ?al = "max al 12" and ?B = "ar_base a"
  define R where "R = round_up ?B (2 ^ ?al)"
  have k: "12 \<le> ?al" "?al < 64" and c: "0 < count" and top: "?B + ar_size a \<le> 2 ^ 64" "0 < ar_size a" and B: "?B < 2 ^ 64"
    using b by (auto simp: run_bounds_def)
  have page: "PAGE_SIZE dvd ?B" "PAGE_SIZE dvd ar_size a" using b by (simp_all add: run_bounds_def)
  have al: "push_bit ?al 1 = (2 :: nat) ^ ?al" by (simp add: push_bit_eq_mult)
  have last: "add64 ?B (size_sub (ar_size a) 1) = ?B + ar_size a - 1" using top by (simp add: add64_def)
  note r = round_up_pow2 [OF B k(2), folded R_def]
  have span: "?B + j * PAGE_SIZE < ?B + ar_size a" if "free_run a count j" for j
  proof -
    have "j < ar_count a" using that c by (simp add: free_run_def)
    then show ?thesis using page(2) by (metis add_strict_left_mono dvd_div_mult_self mult_less_mono1 zero_less_numeral)
  qed
  have least: "R \<le> ?B + j * PAGE_SIZE" "R \<ge> ?B" "2 ^ ?al dvd R" if "aligned_run a ?al count j" for j
  proof -
    have m: "2 ^ ?al dvd ?B + j * PAGE_SIZE" "?B + j * PAGE_SIZE < 2 ^ 64" using that span [of j] top by (auto simp: aligned_run_def)
    have fit: "?B + (2 ^ ?al - 1) < 2 ^ 64"
    proof (rule ccontr)
      assume n: "\<not> ?B + (2 ^ ?al - 1) < 2 ^ 64"
      have "2 ^ ?al dvd (2 :: nat) ^ 64" using k by (intro le_imp_power_dvd) simp
      then have "2 ^ ?al dvd 2 ^ 64 - (?B + j * PAGE_SIZE)" using m(1) by (rule dvd_diff_nat)
      then have "2 ^ ?al \<le> 2 ^ 64 - (?B + j * PAGE_SIZE)" using m(2) by (intro dvd_imp_le) simp_all
      with n show False using m(2) by linarith
    qed
    with r have R: "2 ^ ?al dvd R" "?B \<le> R" "R < ?B + 2 ^ ?al" by simp_all
    show "R \<ge> ?B" "2 ^ ?al dvd R" using R by simp_all
    show "R \<le> ?B + j * PAGE_SIZE"
    proof (rule ccontr)
      assume n: "\<not> R \<le> ?B + j * PAGE_SIZE"
      then have "2 ^ ?al dvd R - (?B + j * PAGE_SIZE)" using R(1) m(1) by (intro dvd_diff_nat)
      then have "2 ^ ?al \<le> R - (?B + j * PAGE_SIZE)" using n by (intro dvd_imp_le) simp_all
      with R(3) n show False by linarith
    qed
  qed
  show ?thesis
  proof (cases "R < ?B \<or> R > ?B + ar_size a - 1")
    case True
    then have "pmm_arena_find_free_run a count al = Some (2 ^ 64 - 1)"
      unfolding pmm_arena_find_free_run_def Let_def al last R_def [symmetric] by simp
    moreover have "\<not> aligned_run a ?al count j" for j
      using least(1,2) [of j] span [of j] True by (fastforce simp: aligned_run_def)
    ultimately show ?thesis by auto
  next
    case False
    then have R: "?B \<le> R" "R < ?B + ar_size a" using top by auto
    with r have Rd: "2 ^ ?al dvd R" by (auto split: if_splits)
    then have pR: "PAGE_SIZE dvd R" using k by (intro dvd_page)
    define ao where "ao = (R - ?B) div PAGE_SIZE"
    have aoR: "?B + ao * PAGE_SIZE = R" using R pR page by (simp add: ao_def dvd_diff_nat)
    have "ao \<le> ar_count a" unfolding ao_def using R by (intro div_le_mono) simp
    moreover have bb: "ar_count a + 2 ^ (?al - 12) + count < 2 ^ 32" "?al - 12 < 32" using b by (auto simp: run_bounds_def)
    ultimately have aom: "ao mod 2 ^ 32 = ao" "ao < ar_count a + count + 2 ^ (?al - 12)"
      using c by (simp, linarith)
    have slot: "2 ^ ?al dvd ?B + j * PAGE_SIZE \<longleftrightarrow> 2 ^ (?al - 12) dvd j - ao" if "ao \<le> j" for j
    proof -
      have p: "(2 :: nat) ^ ?al = 2 ^ (?al - 12) * PAGE_SIZE" unfolding page_pow2 power_add [symmetric] using k by simp
      have "?B + j * PAGE_SIZE = R + (j - ao) * PAGE_SIZE" using that aoR by (simp add: diff_mult_distrib)
      then have "2 ^ ?al dvd ?B + j * PAGE_SIZE \<longleftrightarrow> 2 ^ ?al dvd (j - ao) * PAGE_SIZE" using Rd by (simp add: dvd_add_right_iff)
      then show ?thesis unfolding p by simp
    qed
    have runs: "slot_at ao (?al - 12) j \<and> free_run a count j \<longleftrightarrow> aligned_run a ?al count j" for j
    proof -
      have "ao \<le> j" if "aligned_run a ?al count j"
        using least(1) [OF that] aoR by simp
      then show ?thesis using slot by (auto simp: slot_at_def aligned_run_def)
    qed
    have start: "slot_at ao (?al - 12) ao" by (simp add: slot_at_def)
    have "pmm_arena_find_free_run a count al = find_run_loop a count ao (?al - 12) ao"
      using False unfolding pmm_arena_find_free_run_def Let_def al last R_def [symmetric] ao_def [symmetric] aom(1) by simp
    moreover from find_run_loop_ok [OF bb c start aom(2)] obtain x where
      "find_run_loop a count ao (?al - 12) ao = Some x" "if x = 2 ^ 64 - 1 then \<forall>j. slot_at ao (?al - 12) j \<longrightarrow> \<not> free_run a count j
     else slot_at ao (?al - 12) x \<and> free_run a count x \<and> (\<forall>j. slot_at ao (?al - 12) j \<longrightarrow> free_run a count j \<longrightarrow> x \<le> j)"
      by (auto simp: slot_at_def)
    ultimately show ?thesis using runs by (metis (no_types, lifting))
  qed
qed

end
