(* ===== verification/Pmm_Pages.thy ===== *)
theory Pmm_Pages
  imports Pmm_Runs
begin

text \<open>
  Taking pages from the arenas and giving them back. The invariant \<open>pmm_ok\<close> ties the free lists, the flags of the pages and the counts
  together.
\<close>

section \<open>The invariant\<close>

definition arena_ok :: "pmm_arena \<Rightarrow> bool" where
  "arena_ok a \<longleftrightarrow> distinct (ar_free_list a) \<and> set (ar_free_list a) = {i. i < ar_count a \<and> \<not> pg_nonfree (ar_pages a i)} \<and>
     ar_free_count a = length (ar_free_list a) \<and> ar_reserved_count a \<le> ar_free_count a \<and>
     (\<forall>i. pg_reserved (ar_pages a i) \<longrightarrow> pg_nonfree (ar_pages a i))"

definition pmm_ok :: "pmm \<Rightarrow> bool" where
  "pmm_ok s \<longleftrightarrow> distinct (pm_list s) \<and> (\<forall>p \<in> set (pm_list s). arena_ok (pm_arenas s p))"

definition real_page :: "pmm \<Rightarrow> page \<Rightarrow> bool" where
  "real_page s q \<longleftrightarrow> fst q \<in> set (pm_list s) \<and> snd q < ar_count (pm_arenas s (fst q))"

definition pages_of :: "pmm \<Rightarrow> page \<Rightarrow> vm_page" where
  "pages_of s q = ar_pages (pm_arenas s (fst q)) (snd q)"

definition same_layout :: "pmm \<Rightarrow> pmm \<Rightarrow> bool" where
  "same_layout s s' \<longleftrightarrow> pm_list s' = pm_list s \<and> pm_mappings s' = pm_mappings s \<and>
     (\<forall>a. ar_flags (pm_arenas s' a) = ar_flags (pm_arenas s a) \<and> ar_base (pm_arenas s' a) = ar_base (pm_arenas s a) \<and>
       ar_kvaddr (pm_arenas s' a) = ar_kvaddr (pm_arenas s a) \<and> ar_size (pm_arenas s' a) = ar_size (pm_arenas s a))"

lemma same_layout_refl [simp]: "same_layout s s"
  by (simp add: same_layout_def)

lemma same_layout_trans: "same_layout s s1 \<Longrightarrow> same_layout s1 s2 \<Longrightarrow> same_layout s s2"
  by (simp add: same_layout_def)

lemma layout_simps:
  assumes "same_layout s s'"
  shows "pm_list s' = pm_list s" "ar_flags (pm_arenas s' a) = ar_flags (pm_arenas s a)" "ar_size (pm_arenas s' a) = ar_size (pm_arenas s a)"
    "ar_base (pm_arenas s' a) = ar_base (pm_arenas s a)" "real_page s' q = real_page s q" "page_belongs_to_arena s' q = page_belongs_to_arena s q"
    "vm_page_to_paddr s' q = vm_page_to_paddr s q" "paddr_to_kvaddr s' pa = paddr_to_kvaddr s pa"
proof -
  show "pm_list s' = pm_list s" "ar_flags (pm_arenas s' a) = ar_flags (pm_arenas s a)" "ar_size (pm_arenas s' a) = ar_size (pm_arenas s a)"
    "ar_base (pm_arenas s' a) = ar_base (pm_arenas s a)" "real_page s' q = real_page s q"
    using assms by (simp_all add: same_layout_def real_page_def)
  show b: "page_belongs_to_arena s' q = page_belongs_to_arena s q" using assms by (auto simp: same_layout_def page_belongs_to_arena_def)
  show "vm_page_to_paddr s' q = vm_page_to_paddr s q" using assms unfolding vm_page_to_paddr_def b by (simp add: same_layout_def split: option.splits)
  have "pmm_paddr_to_kvaddr s' pa = pmm_paddr_to_kvaddr s pa"
    using assms by (simp add: pmm_paddr_to_kvaddr_def same_layout_def address_in_arena_def split: option.splits)
  then show "paddr_to_kvaddr s' pa = paddr_to_kvaddr s pa"
    using assms by (simp add: paddr_to_kvaddr_def same_layout_def split: option.splits)
qed

text \<open>Every page can be reached by the kernel to be cleared.\<close>

definition clearable :: "pmm \<Rightarrow> bool" where
  "clearable s \<longleftrightarrow> (\<forall>q. real_page s q \<longrightarrow> vm_page_to_paddr s q \<noteq> 2 ^ 64 - 1 \<and> paddr_to_kvaddr s (vm_page_to_paddr s q) \<noteq> 0)"

lemma clearable_layout: "same_layout s s' \<Longrightarrow> clearable s' = clearable s"
  by (simp add: clearable_def layout_simps)

lemma clear_page_ok: "clearable s \<Longrightarrow> real_page s q \<Longrightarrow> clear_page q s = Inr (s\<lparr>pm_cleared := q # pm_cleared s\<rparr>)"
  by (cases q) (simp add: clear_page_def clearable_def Let_def)

section \<open>Taking one page\<close>

abbreviation from_reserved :: "uint32 \<Rightarrow> bool" where "from_reserved fl \<equiv> fl AND PMM_ALLOC_FLAG_FROM_RESERVED \<noteq> 0"
abbreviation contiguous :: "uint32 \<Rightarrow> bool" where "contiguous fl \<equiv> fl AND PMM_ALLOC_FLAG_CONTIGUOUS \<noteq> 0"

definition available :: "uint32 \<Rightarrow> pmm_arena \<Rightarrow> nat" where
  "available fl a = (if from_reserved fl then ar_reserved_count a else ar_free_count a - ar_reserved_count a)"

definition took :: "uint32 \<Rightarrow> page \<Rightarrow> pmm \<Rightarrow> pmm \<Rightarrow> bool" where
  "took fl q s s' \<longleftrightarrow> real_page s q \<and> \<not> pg_nonfree (pages_of s q) \<and> same_layout s s' \<and> pmm_ok s' \<and>
     pages_of s' = (pages_of s)(q := \<lparr>pg_nonfree = True, pg_reserved = from_reserved fl\<rparr>) \<and>
     (\<forall>a. ar_free_count (pm_arenas s a) = ar_free_count (pm_arenas s' a) + (if a = fst q then 1 else 0)) \<and>
     (\<forall>a. ar_reserved_count (pm_arenas s a) = ar_reserved_count (pm_arenas s' a) + (if a = fst q \<and> from_reserved fl then 1 else 0)) \<and>
     (\<forall>a. a \<noteq> fst q \<longrightarrow> pm_arenas s' a = pm_arenas s a) \<and> set (pm_cleared s) \<subseteq> set (pm_cleared s') \<and>
     (fl AND PMM_ALLOC_FLAG_NO_CLEAR = 0 \<longrightarrow> q \<in> set (pm_cleared s'))"

lemma upd_arena_simps [simp]:
  "pm_list (upd_arena p f s) = pm_list s" "pm_mappings (upd_arena p f s) = pm_mappings s" "pm_cleared (upd_arena p f s) = pm_cleared s"
  "pm_arenas (upd_arena p f s) = (pm_arenas s)(p := f (pm_arenas s p))"
  by (simp_all add: upd_arena_def)

lemma set_page_simps [simp]:
  "ar_pages (set_page i f a) = (ar_pages a)(i := f (ar_pages a i))" "ar_flags (set_page i f a) = ar_flags a" "ar_base (set_page i f a) = ar_base a"
  "ar_kvaddr (set_page i f a) = ar_kvaddr a" "ar_size (set_page i f a) = ar_size a" "ar_free_count (set_page i f a) = ar_free_count a"
  "ar_reserved_count (set_page i f a) = ar_reserved_count a" "ar_free_list (set_page i f a) = ar_free_list a"
  by (simp_all add: set_page_def)

text \<open>The arena after a page has been taken.\<close>

lemma taken_arena:
  assumes ok: "arena_ok a" and i: "i \<in> set (ar_free_list a)" and av: "0 < available fl a"
    and b: "ar_free_list b = remove1 i (ar_free_list a)" "ar_size b = ar_size a" "ar_free_count b = ar_free_count a - 1"
      "ar_reserved_count b = ar_reserved_count a - (if from_reserved fl then 1 else 0)"
      "ar_pages b = (ar_pages a)(i := \<lparr>pg_nonfree = True, pg_reserved = from_reserved fl\<rparr>)"
  shows "arena_ok b" "0 < ar_free_count a" "from_reserved fl \<Longrightarrow> 0 < ar_reserved_count a"
proof -
  show c: "0 < ar_free_count a" using ok i by (cases "ar_free_list a") (auto simp: arena_ok_def)
  show "0 < ar_reserved_count a" if "from_reserved fl" using av that by (simp add: available_def)
  have "ar_reserved_count b \<le> ar_free_count b" using ok av b(3,4) by (auto simp: arena_ok_def available_def split: if_splits)
  then show "arena_ok b" using ok i b by (auto simp: arena_ok_def length_remove1)
qed

lemma mark_taken:
  assumes ok: "pmm_ok s" and p: "p \<in> set (pm_list s)" and i: "i \<in> set (ar_free_list (pm_arenas s p))" and av: "0 < available fl (pm_arenas s p)"
    and c: "set (pm_cleared s) \<subseteq> set c" "fl AND PMM_ALLOC_FLAG_NO_CLEAR = 0 \<Longrightarrow> (p, i) \<in> set c"
  shows "took fl (p, i) s (mark_page fl p i ((upd_arena p (\<lambda>a. a\<lparr>ar_free_list := remove1 i (ar_free_list a)\<rparr>) s)\<lparr>pm_cleared := c\<rparr>))"
    (is "took fl (p, i) s ?s'")
proof -
  let ?a = "pm_arenas s p" and ?b = "pm_arenas ?s' p"
  have a: "arena_ok ?a" using ok p by (simp add: pmm_ok_def)
  then have f: "i < ar_count ?a" "\<not> pg_nonfree (ar_pages ?a i)" "\<not> pg_reserved (ar_pages ?a i)" using i by (auto simp: arena_ok_def)
  have b: "ar_free_list ?b = remove1 i (ar_free_list ?a)" "ar_size ?b = ar_size ?a" "ar_free_count ?b = ar_free_count ?a - 1"
      "ar_reserved_count ?b = ar_reserved_count ?a - (if from_reserved fl then 1 else 0)"
      "ar_pages ?b = (ar_pages ?a)(i := \<lparr>pg_nonfree = True, pg_reserved = from_reserved fl\<rparr>)"
      "ar_flags ?b = ar_flags ?a" "ar_base ?b = ar_base ?a" "ar_kvaddr ?b = ar_kvaddr ?a"
    using f by (auto simp: mark_page_def Let_def)
  have o: "pm_arenas ?s' x = pm_arenas s x" if "x \<noteq> p" for x using that by (simp add: mark_page_def)
  note t = taken_arena [OF a i av b(1-5)]
  have l: "pm_list ?s' = pm_list s" "pm_mappings ?s' = pm_mappings s" "pm_cleared ?s' = c" by (simp_all add: mark_page_def)
  have "same_layout s ?s'"
    unfolding same_layout_def
  proof (intro conjI allI)
    fix x
    show "ar_flags (pm_arenas ?s' x) = ar_flags (pm_arenas s x)" "ar_base (pm_arenas ?s' x) = ar_base (pm_arenas s x)"
      "ar_kvaddr (pm_arenas ?s' x) = ar_kvaddr (pm_arenas s x)" "ar_size (pm_arenas ?s' x) = ar_size (pm_arenas s x)"
      using b o [of x] by (cases "x = p"; simp)+
  qed (use l in simp_all)
  moreover have "arena_ok (pm_arenas ?s' x)" if "x \<in> set (pm_list s)" for x using t(1) o [of x] ok that by (cases "x = p") (auto simp: pmm_ok_def)
  then have "pmm_ok ?s'" using ok l by (simp add: pmm_ok_def)
  moreover have "pages_of ?s' = (pages_of s)((p, i) := \<lparr>pg_nonfree = True, pg_reserved = from_reserved fl\<rparr>)"
  proof
    fix q
    show "pages_of ?s' q = ((pages_of s)((p, i) := \<lparr>pg_nonfree = True, pg_reserved = from_reserved fl\<rparr>)) q"
      using b(5) o [of "fst q"] by (cases q; cases "fst q = p") (auto simp: pages_of_def)
  qed
  moreover have "ar_free_count (pm_arenas s x) = ar_free_count (pm_arenas ?s' x) + (if x = p then 1 else 0)" for x
    using b(3) t(2) o [of x] by (cases "x = p") auto
  moreover have "ar_reserved_count (pm_arenas s x) = ar_reserved_count (pm_arenas ?s' x) + (if x = p \<and> from_reserved fl then 1 else 0)" for x
    using b(4) t(3) o [of x] by (cases "x = p") auto
  ultimately show ?thesis using f p o c l unfolding took_def by (simp add: real_page_def pages_of_def)
qed

section \<open>Taking several pages\<close>

inductive takes :: "uint32 \<Rightarrow> pmm \<Rightarrow> page list \<Rightarrow> pmm \<Rightarrow> bool" for fl where
  takes_none: "takes fl s [] s"
| takes_one: "took fl q s s1 \<Longrightarrow> takes fl s1 qs s2 \<Longrightarrow> takes fl s (q # qs) s2"

lemma takes_append: "takes fl s qs s1 \<Longrightarrow> takes fl s1 rs s2 \<Longrightarrow> takes fl s (qs @ rs) s2"
  by (induction rule: takes.induct) (auto intro: takes.intros)

lemma takes_layout: "takes fl s qs s' \<Longrightarrow> same_layout s s' \<and> (pmm_ok s \<longrightarrow> pmm_ok s')"
  by (induction rule: takes.induct) (auto simp: took_def intro: same_layout_trans)

text \<open>What has been taken is a set of pages that were free, and the counts of the arenas are lower accordingly.\<close>

lemma takes_effect:
  assumes "takes fl s qs s'"
  shows "distinct qs \<and> (\<forall>q \<in> set qs. real_page s q \<and> \<not> pg_nonfree (pages_of s q)) \<and>
    pages_of s' = (\<lambda>q. if q \<in> set qs then \<lparr>pg_nonfree = True, pg_reserved = from_reserved fl\<rparr> else pages_of s q) \<and>
    (\<forall>a. ar_free_count (pm_arenas s a) = ar_free_count (pm_arenas s' a) + length (filter (\<lambda>q. fst q = a) qs)) \<and>
    (\<forall>a. ar_reserved_count (pm_arenas s a) = ar_reserved_count (pm_arenas s' a) + (if from_reserved fl then length (filter (\<lambda>q. fst q = a) qs) else 0)) \<and>
    (\<forall>a. a \<notin> fst ` set qs \<longrightarrow> pm_arenas s' a = pm_arenas s a) \<and> set (pm_cleared s) \<subseteq> set (pm_cleared s') \<and>
    (fl AND PMM_ALLOC_FLAG_NO_CLEAR = 0 \<longrightarrow> set qs \<subseteq> set (pm_cleared s'))"
  using assms
proof (induction rule: takes.induct)
  case (takes_one q s s1 qs s2)
  then have t: "real_page s q" "\<not> pg_nonfree (pages_of s q)" "same_layout s s1"
    "pages_of s1 = (pages_of s)(q := \<lparr>pg_nonfree = True, pg_reserved = from_reserved fl\<rparr>)"
    "\<forall>a. ar_free_count (pm_arenas s a) = ar_free_count (pm_arenas s1 a) + (if a = fst q then 1 else 0)"
    "\<forall>a. ar_reserved_count (pm_arenas s a) = ar_reserved_count (pm_arenas s1 a) + (if a = fst q \<and> from_reserved fl then 1 else 0)"
    "\<forall>a. a \<noteq> fst q \<longrightarrow> pm_arenas s1 a = pm_arenas s a" "set (pm_cleared s) \<subseteq> set (pm_cleared s1)"
    "fl AND PMM_ALLOC_FLAG_NO_CLEAR = 0 \<longrightarrow> q \<in> set (pm_cleared s1)" by (simp_all add: took_def)
  from takes_one.IH have q: "q \<notin> set qs" using t(4) by auto
  have r: "real_page s1 x = real_page s x" for x using layout_simps(5) [OF t(3)] .
  have p: "pages_of s1 x = pages_of s x" if "x \<in> set qs" for x using that q t(4) by auto
  have "\<forall>x \<in> set (q # qs). real_page s x \<and> \<not> pg_nonfree (pages_of s x)" using takes_one.IH t(1,2) r p by auto
  moreover have "pages_of s2 = (\<lambda>x. if x \<in> set (q # qs) then \<lparr>pg_nonfree = True, pg_reserved = from_reserved fl\<rparr> else pages_of s x)"
    using takes_one.IH t(4) by (auto simp: fun_eq_iff)
  moreover have "\<forall>a. ar_free_count (pm_arenas s a) = ar_free_count (pm_arenas s2 a) + length (filter (\<lambda>q. fst q = a) (q # qs))"
    using takes_one.IH t(5) by simp
  moreover have "\<forall>a. ar_reserved_count (pm_arenas s a) = ar_reserved_count (pm_arenas s2 a) + (if from_reserved fl then length (filter (\<lambda>q. fst q = a) (q # qs)) else 0)"
    using takes_one.IH t(6) by simp
  moreover have "\<forall>a. a \<notin> fst ` set (q # qs) \<longrightarrow> pm_arenas s2 a = pm_arenas s a" using takes_one.IH t(7) by auto
  moreover have "set (pm_cleared s) \<subseteq> set (pm_cleared s2)" using takes_one.IH t(8) by blast
  moreover have "fl AND PMM_ALLOC_FLAG_NO_CLEAR = 0 \<longrightarrow> set (q # qs) \<subseteq> set (pm_cleared s2)" using takes_one.IH t(9) by auto
  ultimately show ?case using takes_one.IH q by (simp only: distinct.simps) blast
qed simp

section \<open>The loop within an arena\<close>

lemma remove1_hd: "xs = i # rest \<Longrightarrow> rest = remove1 i xs"
  by simp

lemma available_took: "took fl q s s1 \<Longrightarrow> fst q = p \<Longrightarrow> pmm_ok s \<Longrightarrow> 0 < available fl (pm_arenas s p) \<Longrightarrow>
  available fl (pm_arenas s p) = Suc (available fl (pm_arenas s1 p))"
  unfolding took_def available_def by (cases "from_reserved fl") auto

lemma take_pages_step:
  assumes ok: "pmm_ok s" and p: "p \<in> set (pm_list s)" and av: "0 < available fl (pm_arenas s p)"
    and cl: "fl AND PMM_ALLOC_FLAG_NO_CLEAR = 0 \<Longrightarrow> clearable s"
    and run: "contiguous fl \<Longrightarrow> run < ar_count (pm_arenas s p) \<and> \<not> pg_nonfree (pages_of s (p, run))"
  shows "\<exists>i s1. take_pages fl p (Suc n) run tmp s = take_pages fl p n (run + 1) (tmp @ [(p, i)]) s1 \<and> took fl (p, i) s s1 \<and> (contiguous fl \<longrightarrow> i = run)"
proof -
  let ?a = "pm_arenas s p"
  have a: "arena_ok ?a" using ok p by (simp add: pmm_ok_def)
  have "ar_free_list ?a \<noteq> []" using a av by (auto simp: arena_ok_def available_def split: if_splits)
  define i where "i = (if contiguous fl then run else hd (ar_free_list ?a))"
  have i: "i \<in> set (ar_free_list ?a)" using a run \<open>ar_free_list ?a \<noteq> []\<close> by (auto simp: i_def arena_ok_def pages_of_def)
  let ?s1 = "upd_arena p (\<lambda>a. a\<lparr>ar_free_list := remove1 i (ar_free_list a)\<rparr>) s"
  have "take_page fl p run s = Inr (Some (i, ?s1))"
    using run i \<open>ar_free_list ?a \<noteq> []\<close> by (auto simp: take_page_def i_def pages_of_def Let_def upd_arena_def split: list.splits)
  moreover have "same_layout s ?s1" by (auto simp: same_layout_def)
  then have lay: "clearable ?s1 = clearable s" "real_page ?s1 (p, i) = real_page s (p, i)" by (simp_all add: clearable_layout layout_simps)
  have rp: "real_page s (p, i)" using i a p by (auto simp: real_page_def arena_ok_def)
  define c where "c = (if fl AND PMM_ALLOC_FLAG_NO_CLEAR = 0 then (p, i) # pm_cleared s else pm_cleared s)"
  have "(if fl AND PMM_ALLOC_FLAG_NO_CLEAR = 0 then clear_page (p, i) ?s1 else Inr ?s1) = Inr (?s1\<lparr>pm_cleared := c\<rparr>)"
    using cl lay rp by (simp add: clear_page_ok c_def)
  moreover have "\<not> (if from_reserved fl then ar_reserved_count ?a = 0 else ar_free_count ?a \<le> ar_reserved_count ?a)"
    using av by (simp add: available_def split: if_splits)
  ultimately have "take_pages fl p (Suc n) run tmp s = take_pages fl p n (run + 1) (tmp @ [(p, i)]) (mark_page fl p i (?s1\<lparr>pm_cleared := c\<rparr>))"
    by (simp only: take_pages.simps Let_def if_False bindE_Inr option.case prod.case)
  moreover have "took fl (p, i) s (mark_page fl p i (?s1\<lparr>pm_cleared := c\<rparr>))"
    by (rule mark_taken [OF ok p i av]) (auto simp: c_def)
  moreover have "contiguous fl \<longrightarrow> i = run" by (simp add: i_def)
  ultimately show ?thesis by blast
qed

lemma take_pages_ok:
  assumes "pmm_ok s" "p \<in> set (pm_list s)" "fl AND PMM_ALLOC_FLAG_NO_CLEAR = 0 \<Longrightarrow> clearable s"
    and "contiguous fl \<Longrightarrow> \<forall>j < n. run + j < ar_count (pm_arenas s p) \<and> \<not> pg_nonfree (pages_of s (p, run + j))"
  shows "\<exists>qs s'. take_pages fl p n run tmp s = Inr (tmp @ qs, s') \<and> takes fl s qs s' \<and> length qs = min n (available fl (pm_arenas s p)) \<and>
    (\<forall>q \<in> set qs. fst q = p) \<and> (contiguous fl \<longrightarrow> qs = map (\<lambda>j. (p, run + j)) [0..<length qs])"
  using assms
proof (induction n arbitrary: s run tmp)
  case 0
  then show ?case by (auto intro: takes_none)
next
  case (Suc n)
  show ?case
  proof (cases "available fl (pm_arenas s p) = 0")
    case True
    then have "take_pages fl p (Suc n) run tmp s = Inr (tmp, s)" by (auto simp: available_def Let_def split: if_splits)
    with True show ?thesis by (auto intro: takes_none)
  next
    case False
    then have av: "0 < available fl (pm_arenas s p)" by simp
    have "contiguous fl \<Longrightarrow> run < ar_count (pm_arenas s p) \<and> \<not> pg_nonfree (pages_of s (p, run))"
      using Suc.prems(4) by (metis add_0_right zero_less_Suc)
    from take_pages_step [OF Suc.prems(1,2) av Suc.prems(3) this, of n tmp] obtain i s1 where
      i: "take_pages fl p (Suc n) run tmp s = take_pages fl p n (run + 1) (tmp @ [(p, i)]) s1" "took fl (p, i) s s1" "contiguous fl \<longrightarrow> i = run" by blast
    have l: "same_layout s s1" "pmm_ok s1" "pages_of s1 = (pages_of s)((p, i) := \<lparr>pg_nonfree = True, pg_reserved = from_reserved fl\<rparr>)"
      using i(2) by (simp_all add: took_def)
    have "\<forall>j < n. run + 1 + j < ar_count (pm_arenas s1 p) \<and> \<not> pg_nonfree (pages_of s1 (p, run + 1 + j))" if "contiguous fl"
    proof (intro allI impI)
      fix j assume "j < n"
      then have "run + Suc j < ar_count (pm_arenas s p) \<and> \<not> pg_nonfree (pages_of s (p, run + Suc j))" using Suc.prems(4) [OF that] by blast
      then show "run + 1 + j < ar_count (pm_arenas s1 p) \<and> \<not> pg_nonfree (pages_of s1 (p, run + 1 + j))"
        using l i(3) that by (simp add: layout_simps)
    qed
    with Suc.IH [of s1 "run + 1" "tmp @ [(p, i)]"] Suc.prems(2,3) l obtain qs s' where
      r: "take_pages fl p n (run + 1) (tmp @ [(p, i)]) s1 = Inr ((tmp @ [(p, i)]) @ qs, s')" "takes fl s1 qs s'"
        "length qs = min n (available fl (pm_arenas s1 p))" "\<forall>q \<in> set qs. fst q = p" "contiguous fl \<longrightarrow> qs = map (\<lambda>j. (p, run + 1 + j)) [0..<length qs]"
      by (auto simp: layout_simps clearable_layout)
    have "takes fl s ((p, i) # qs) s'" using i(2) r(2) by (rule takes_one)
    moreover have "length ((p, i) # qs) = min (Suc n) (available fl (pm_arenas s p))"
      using r(3) available_took [OF i(2) _ Suc.prems(1) av] by simp
    moreover have "(p, i) # qs = map (\<lambda>j. (p, run + j)) [0..<length ((p, i) # qs)]" if "contiguous fl"
    proof -
      have "map (\<lambda>j. (p, run + j)) [0..<Suc (length qs)] = (p, run) # map (\<lambda>j. (p, run + Suc j)) [0..<length qs]"
        by (simp add: upt_conv_Cons map_Suc_upt [symmetric] del: upt_Suc)
      with r(5) i(3) that show ?thesis by simp
    qed
    ultimately show ?thesis using i(1) r(1,4) by (intro exI [of _ "(p, i) # qs"] exI [of _ s']) auto
  qed
qed

end
