(* ===== verification/Pmm_Alloc.thy ===== *)
theory Pmm_Alloc
  imports Pmm_Pages
begin

text \<open>
  Allocating, freeing and reserving as a whole. An allocation of single pages succeeds exactly if enough pages are
  available, and what fails is undone; a contiguous allocation gives a run, provided that the arena with the run has
  that many pages that are not reserved.
\<close>

section \<open>Freeing\<close>

definition gave_back :: "page list \<Rightarrow> pmm \<Rightarrow> pmm \<Rightarrow> bool" where
  "gave_back ps s s' \<longleftrightarrow> same_layout s s' \<and> pmm_ok s' \<and>
     pages_of s' = (\<lambda>q. if q \<in> set ps then \<lparr>pg_nonfree = False, pg_reserved = False\<rparr> else pages_of s q) \<and>
     (\<forall>a. ar_free_count (pm_arenas s' a) = ar_free_count (pm_arenas s a) + length (filter (\<lambda>q. fst q = a) ps)) \<and>
     (\<forall>a. ar_reserved_count (pm_arenas s' a) = ar_reserved_count (pm_arenas s a) + length (filter (\<lambda>q. fst q = a \<and> pg_reserved (pages_of s q)) ps))"

lemma find_arena: "real_page s q \<Longrightarrow> distinct (pm_list s) \<Longrightarrow> List.find (page_belongs_to_arena s q) (pm_list s) = Some (fst q)"
proof -
  assume r: "real_page s q" "distinct (pm_list s)"
  have "List.find (page_belongs_to_arena s q) xs = Some (fst q)" if "fst q \<in> set xs" for xs
    using that r(1) by (induction xs) (auto simp: page_belongs_to_arena_def real_page_def)
  with r show ?thesis by (simp add: real_page_def)
qed

lemma free_one_ok:
  assumes ok: "pmm_ok s" and q: "real_page s q" "pg_nonfree (pages_of s q)"
  shows "gave_back [q] s (free_one q (fst q) s)"
proof -
  obtain p i where pi: "q = (p, i)" by fastforce
  let ?s' = "free_one q p s" and ?a = "pm_arenas s p" and ?b = "pm_arenas (free_one q p s) p"
  have a: "arena_ok ?a" and p: "p \<in> set (pm_list s)" "i < ar_count ?a" and n: "pg_nonfree (ar_pages ?a i)"
    using ok q by (auto simp: pmm_ok_def real_page_def pages_of_def pi)
  have b: "ar_free_list ?b = i # ar_free_list ?a" "ar_size ?b = ar_size ?a" "ar_free_count ?b = ar_free_count ?a + 1"
      "ar_reserved_count ?b = ar_reserved_count ?a + (if pg_reserved (ar_pages ?a i) then 1 else 0)"
      "ar_pages ?b = (ar_pages ?a)(i := \<lparr>pg_nonfree = False, pg_reserved = False\<rparr>)"
      "ar_flags ?b = ar_flags ?a" "ar_base ?b = ar_base ?a" "ar_kvaddr ?b = ar_kvaddr ?a"
    by (auto simp: free_one_def Let_def pi)
  have o: "pm_arenas ?s' x = pm_arenas s x" if "x \<noteq> p" for x using that by (simp add: free_one_def)
  have l: "pm_list ?s' = pm_list s" "pm_mappings ?s' = pm_mappings s" by (simp_all add: free_one_def)
  have "arena_ok ?b" using a p(2) n b(1-5) by (auto simp: arena_ok_def)
  then have "arena_ok (pm_arenas ?s' x)" if "x \<in> set (pm_list s)" for x using o [of x] ok that by (cases "x = p") (auto simp: pmm_ok_def)
  then have "pmm_ok ?s'" using ok l by (simp add: pmm_ok_def)
  moreover have "same_layout s ?s'"
    unfolding same_layout_def
  proof (intro conjI allI)
    fix x
    show "ar_flags (pm_arenas ?s' x) = ar_flags (pm_arenas s x)" "ar_base (pm_arenas ?s' x) = ar_base (pm_arenas s x)"
      "ar_kvaddr (pm_arenas ?s' x) = ar_kvaddr (pm_arenas s x)" "ar_size (pm_arenas ?s' x) = ar_size (pm_arenas s x)"
      using b o [of x] by (cases "x = p"; simp)+
  qed (use l in simp_all)
  moreover have "pages_of ?s' x = (if x \<in> set [q] then \<lparr>pg_nonfree = False, pg_reserved = False\<rparr> else pages_of s x)" for x
    using b(5) o [of "fst x"] by (cases x; cases "fst x = p") (auto simp: pages_of_def pi)
  moreover have "ar_free_count (pm_arenas ?s' x) = ar_free_count (pm_arenas s x) + length (filter (\<lambda>q. fst q = x) [q])" for x
    using b(3) o [of x] by (cases "x = p") (auto simp: pi)
  moreover have "ar_reserved_count (pm_arenas ?s' x) = ar_reserved_count (pm_arenas s x) + length (filter (\<lambda>q. fst q = x \<and> pg_reserved (pages_of s q)) [q])" for x
    using b(4) o [of x] by (cases "x = p") (auto simp: pi pages_of_def)
  ultimately show ?thesis by (auto simp: gave_back_def pi)
qed

lemma pmm_free_locked_ok:
  assumes "pmm_ok s" "distinct ps" "\<forall>q \<in> set ps. real_page s q \<and> pg_nonfree (pages_of s q)"
  shows "\<exists>s'. pmm_free_locked ps n s = Inr (n + length ps, s') \<and> gave_back ps s s'"
  using assms
proof (induction ps arbitrary: n s)
  case Nil
  then show ?case by (simp add: gave_back_def)
next
  case (Cons q ps)
  then have q: "real_page s q" "pg_nonfree (pages_of s q)" by simp_all
  let ?s1 = "free_one q (fst q) s"
  from free_one_ok [OF Cons.prems(1) q] have g: "same_layout s ?s1" "pmm_ok ?s1"
    "pages_of ?s1 = (\<lambda>x. if x = q then \<lparr>pg_nonfree = False, pg_reserved = False\<rparr> else pages_of s x)"
    "\<forall>a. ar_free_count (pm_arenas ?s1 a) = ar_free_count (pm_arenas s a) + (if fst q = a then 1 else 0)"
    "\<forall>a. ar_reserved_count (pm_arenas ?s1 a) = ar_reserved_count (pm_arenas s a) + (if fst q = a \<and> pg_reserved (pages_of s q) then 1 else 0)"
    by (simp_all add: gave_back_def)
  have keep: "pages_of ?s1 x = pages_of s x" if "x \<in> set ps" for x using g(3) Cons.prems(2) that by auto
  have "\<forall>x \<in> set ps. real_page ?s1 x \<and> pg_nonfree (pages_of ?s1 x)"
    using Cons.prems(3) keep layout_simps(5) [OF g(1)] by simp
  with Cons.IH [OF g(2), of "n + 1"] Cons.prems(2) obtain s' where
    s': "pmm_free_locked ps (n + 1) ?s1 = Inr (n + 1 + length ps, s')" "gave_back ps ?s1 s'" by auto
  have "pmm_free_locked (q # ps) n s = Inr (n + length (q # ps), s')"
    using s'(1) q find_arena [OF q(1)] Cons.prems(1) by (simp add: page_is_free_def pages_of_def pmm_ok_def)
  moreover have "filter (\<lambda>x. fst x = a \<and> pg_reserved (pages_of ?s1 x)) ps = filter (\<lambda>x. fst x = a \<and> pg_reserved (pages_of s x)) ps" for a
    using keep by (auto intro: filter_cong)
  then have "gave_back (q # ps) s s'" using s'(2) g(1,3-5) by (auto simp: gave_back_def fun_eq_iff intro: same_layout_trans)
  ultimately show ?case by blast
qed

text \<open>Two states that differ only in the order of the free lists and in what has been cleared.\<close>

definition same_pages :: "pmm \<Rightarrow> pmm \<Rightarrow> bool" where
  "same_pages s s' \<longleftrightarrow> same_layout s s' \<and> pmm_ok s' \<and> pages_of s' = pages_of s \<and>
     (\<forall>a. ar_free_count (pm_arenas s' a) = ar_free_count (pm_arenas s a) \<and> ar_reserved_count (pm_arenas s' a) = ar_reserved_count (pm_arenas s a))"

text \<open>Freeing what has just been taken undoes it.\<close>

lemma takes_free:
  assumes ok: "pmm_ok s" and t: "takes fl s qs s1"
  shows "\<exists>s'. pmm_free_locked qs n s1 = Inr (n + length qs, s') \<and> same_pages s s'"
proof -
  note e = takes_effect [OF t] note l = takes_layout [OF t]
  have "\<forall>q \<in> set qs. real_page s1 q \<and> pg_nonfree (pages_of s1 q)" 
    using e layout_simps(5) [OF conjunct1 [OF l]] by simp
  with pmm_free_locked_ok [of s1 qs n] l ok e obtain s' where s': "pmm_free_locked qs n s1 = Inr (n + length qs, s')" "gave_back qs s1 s'" by auto
  have clean: "pages_of s q = \<lparr>pg_nonfree = False, pg_reserved = False\<rparr>" if "q \<in> set qs" for q
  proof -
    have "real_page s q" "\<not> pg_nonfree (pages_of s q)" using e that by auto
    then have "\<not> pg_reserved (pages_of s q)" using ok by (auto simp: pmm_ok_def real_page_def arena_ok_def pages_of_def)
    with \<open>\<not> pg_nonfree (pages_of s q)\<close> show ?thesis by (cases "pages_of s q") simp
  qed
  have "pages_of s' = pages_of s" using s'(2) e clean by (auto simp: gave_back_def fun_eq_iff)
  moreover have "filter (\<lambda>q. fst q = a \<and> pg_reserved (pages_of s1 q)) qs = (if from_reserved fl then filter (\<lambda>q. fst q = a) qs else [])" for a
    using e by (auto intro!: filter_cong simp: filter_empty_conv)
  ultimately have "same_pages s s'" using s'(2) e l by (auto simp: gave_back_def same_pages_def intro: same_layout_trans)
  with s'(1) show ?thesis by blast
qed

lemma reserved_le: "pmm_ok s \<Longrightarrow> p \<in> set (pm_list s) \<Longrightarrow> ar_reserved_count (pm_arenas s p) \<le> ar_free_count (pm_arenas s p)"
  by (auto simp: pmm_ok_def arena_ok_def)

section \<open>Single pages\<close>

definition arena_eligible :: "uint32 \<Rightarrow> pmm_arena \<Rightarrow> bool" where
  "arena_eligible fl a \<longleftrightarrow> fl AND PMM_ALLOC_FLAG_KMAP = 0 \<or> ar_flags a AND PMM_ARENA_FLAG_KMAP \<noteq> 0"

definition total_available :: "uint32 \<Rightarrow> pmm \<Rightarrow> addr list \<Rightarrow> nat" where
  "total_available fl s ps = sum_list (map (\<lambda>p. if arena_eligible fl (pm_arenas s p) then available fl (pm_arenas s p) else 0) ps)"

lemma min_split: "min n a + min (n - min n a) b = min n (a + b)" for n a b :: nat
  by (simp add: min_def) linarith

lemma alloc_arenas_ok:
  assumes "pmm_ok s" "distinct ps" "set ps \<subseteq> set (pm_list s)" "fl AND PMM_ALLOC_FLAG_NO_CLEAR = 0 \<Longrightarrow> clearable s" "\<not> contiguous fl"
  shows "\<exists>qs s'. alloc_arenas fl al count ps tmp s = Some (Inr (tmp @ qs, s')) \<and> takes fl s qs s' \<and>
    length qs = min (count - length tmp) (total_available fl s ps)"
  using assms
proof (induction ps arbitrary: tmp s)
  case Nil
  then show ?case by (auto simp: total_available_def intro: takes_none)
next
  case (Cons p ps)
  let ?a = "pm_arenas s p"
  have g: "ar_reserved_count ?a \<le> ar_free_count ?a" by (rule reserved_le) (use Cons.prems(1,3) in auto)
  show ?case
  proof (cases "arena_eligible fl ?a")
    case False
    then have "alloc_arenas fl al count (p # ps) tmp s = alloc_arenas fl al count ps tmp s" using g by (auto simp: arena_eligible_def)
    with Cons.IH [of s tmp] Cons.prems False show ?thesis by (simp add: total_available_def)
  next
    case True
    from take_pages_ok [of s p fl "count - length tmp" "2 ^ 64 - 1" tmp] Cons.prems obtain qs s1 where
      t: "take_pages fl p (count - length tmp) (2 ^ 64 - 1) tmp s = Inr (tmp @ qs, s1)" "takes fl s qs s1"
        "length qs = min (count - length tmp) (available fl ?a)" "\<forall>q \<in> set qs. fst q = p" by auto
    note l = takes_layout [OF t(2)] note e = takes_effect [OF t(2)]
    have "pm_arenas s1 x = pm_arenas s x" if "x \<in> set ps" for x using e t(4) Cons.prems(2) that by auto
    then have "total_available fl s1 ps = total_available fl s ps" unfolding total_available_def by (metis (no_types, lifting) map_cong)
    moreover from Cons.IH [of s1 "tmp @ qs"] Cons.prems l obtain rs s' where
      r: "alloc_arenas fl al count ps (tmp @ qs) s1 = Some (Inr ((tmp @ qs) @ rs, s'))" "takes fl s1 rs s'"
        "length rs = min (count - length (tmp @ qs)) (total_available fl s1 ps)" by (auto simp: layout_simps [of s s1] clearable_layout [of s s1])
    moreover have a: "alloc_arenas fl al count (p # ps) tmp s = alloc_arenas fl al count ps (tmp @ qs) s1"
      using g True Cons.prems(5) t(1) by (auto simp: arena_eligible_def)
    moreover have "total_available fl s (p # ps) = available fl ?a + total_available fl s ps" using True by (simp add: total_available_def)
    ultimately have "length (qs @ rs) = min (count - length tmp) (total_available fl s (p # ps))"
      using t(3) min_split [of "count - length tmp"] by simp
    moreover have "alloc_arenas fl al count (p # ps) tmp s = Some (Inr (tmp @ qs @ rs, s'))" using a r(1) by simp
    ultimately show ?thesis using takes_append [OF t(2) r(2)] by blast
  qed
qed

lemma pmm_alloc_pages_ok:
  assumes ok: "pmm_ok s" and cl: "fl AND PMM_ALLOC_FLAG_NO_CLEAR = 0 \<Longrightarrow> clearable s" and fl: "\<not> contiguous fl"
  shows "\<exists>ret qs pages s'. pmm_alloc_pages_locked count fl 0 s = Some (Inr (ret, qs, pages, s')) \<and>
    (if count \<le> total_available fl s (pm_list s) then ret = NO_ERROR \<and> length qs = count \<and> pages = qs \<and> takes fl s qs s'
     else ret = ERR_NO_MEMORY \<and> qs = [] \<and> same_pages s s')"
proof -
  have "distinct (pm_list s)" using ok by (simp add: pmm_ok_def)
  from alloc_arenas_ok [OF ok this _ cl fl, of 0 count "[]"] obtain qs s1 where
    a: "alloc_arenas fl 0 count (pm_list s) [] s = Some (Inr (qs, s1))" "takes fl s qs s1" "length qs = min count (total_available fl s (pm_list s))" by auto
  from takes_free [OF ok a(2), of 0] obtain s' where f: "pmm_free_locked qs 0 s1 = Inr (length qs, s')" "same_pages s s'" by auto
  show ?thesis
  proof (cases "count \<le> total_available fl s (pm_list s)")
    case True
    with a fl show ?thesis by (simp add: pmm_alloc_pages_locked_def)
  next
    case False
    with a f fl show ?thesis by (simp add: pmm_alloc_pages_locked_def)
  qed
qed

section \<open>Runs\<close>

lemma alloc_arenas_done:
  assumes "pmm_ok s" "set ps \<subseteq> set (pm_list s)" "length tmp = count" "\<forall>p \<in> set ps. run_bounds (pm_arenas s p) count (max al 12)"
  shows "alloc_arenas fl al count ps tmp s = Some (Inr (tmp, s))"
  using assms
proof (induction ps)
  case (Cons p ps)
  have g: "ar_reserved_count (pm_arenas s p) \<le> ar_free_count (pm_arenas s p)" by (rule reserved_le) (use Cons.prems(1,2) in auto)
  have "run_bounds (pm_arenas s p) count (max al 12)" using Cons.prems(4) by simp
  from pmm_arena_find_free_run_ok [OF this] obtain r where "pmm_arena_find_free_run (pm_arenas s p) count al = Some r" by blast
  with Cons g show ?case by (auto simp: Let_def)
qed simp

text \<open>The arena that a contiguous allocation is made from: the first with a run.\<close>

definition run_arena :: "uint32 \<Rightarrow> nat \<Rightarrow> nat \<Rightarrow> pmm \<Rightarrow> addr list \<Rightarrow> addr option" where
  "run_arena fl al count s ps = List.find (\<lambda>p. arena_eligible fl (pm_arenas s p) \<and>
     (case pmm_arena_find_free_run (pm_arenas s p) count al of Some r \<Rightarrow> r \<noteq> 2 ^ 64 - 1 | None \<Rightarrow> False)) ps"

lemma alloc_arenas_skip:
  assumes "pmm_ok s" "set ps \<subseteq> set (pm_list s)" "\<forall>p \<in> set ps. run_bounds (pm_arenas s p) count (max al 12)" "contiguous fl"
    "\<forall>p \<in> set ps. arena_eligible fl (pm_arenas s p) \<longrightarrow> (\<forall>j. \<not> aligned_run (pm_arenas s p) (max al 12) count j)"
  shows "alloc_arenas fl al count (ps @ rs) tmp s = alloc_arenas fl al count rs tmp s"
  using assms
proof (induction ps)
  case (Cons p ps)
  let ?a = "pm_arenas s p"
  have g: "ar_reserved_count ?a \<le> ar_free_count ?a" by (rule reserved_le) (use Cons.prems(1,2) in auto)
  have "run_bounds ?a count (max al 12)" using Cons.prems(3) by simp
  from pmm_arena_find_free_run_ok [OF this] obtain r where
    r: "pmm_arena_find_free_run ?a count al = Some r" "r \<noteq> 2 ^ 64 - 1 \<longrightarrow> aligned_run ?a (max al 12) count r" by (auto split: if_splits)
  have "arena_eligible fl ?a \<longrightarrow> r = 2 ^ 64 - 1" using r(2) Cons.prems(5) by auto
  with r(1) g Cons.prems(4) have "alloc_arenas fl al count ((p # ps) @ rs) tmp s = alloc_arenas fl al count (ps @ rs) tmp s"
    by (auto simp: arena_eligible_def Let_def)
  with Cons show ?case by simp
qed simp

text \<open>What the first arena with a run gives: as much of the run as there are pages that may be taken.\<close>

lemma alloc_arenas_run:
  assumes ok: "pmm_ok s" and p: "p \<in> set (pm_list s)" and b: "run_bounds (pm_arenas s p) count (max al 12)" and fl: "contiguous fl"
    and cl: "fl AND PMM_ALLOC_FLAG_NO_CLEAR = 0 \<Longrightarrow> clearable s" and el: "arena_eligible fl (pm_arenas s p)" and run: "aligned_run (pm_arenas s p) (max al 12) count j"
    and tmp: "length tmp \<le> count"
  shows "\<exists>r qs s'. aligned_run (pm_arenas s p) (max al 12) count r \<and> alloc_arenas fl al count (p # ps) tmp s = alloc_arenas fl al count ps (tmp @ qs) s' \<and>
    takes fl s qs s' \<and> qs = map (\<lambda>i. (p, r + i)) [0..<min (count - length tmp) (available fl (pm_arenas s p))]"
proof -
  let ?a = "pm_arenas s p"
  have g: "ar_reserved_count ?a \<le> ar_free_count ?a" using ok p by (rule reserved_le)
  from pmm_arena_find_free_run_ok [OF b] run obtain r where
    r: "pmm_arena_find_free_run ?a count al = Some r" "r \<noteq> 2 ^ 64 - 1" "aligned_run ?a (max al 12) count r" by (auto split: if_splits)
  have "\<forall>i < count - length tmp. r + i < ar_count ?a \<and> \<not> pg_nonfree (pages_of s (p, r + i))"
    using r(3) by (auto simp: aligned_run_def free_run_def pages_of_def)
  with take_pages_ok [of s p fl "count - length tmp" r tmp] ok p cl obtain qs s1 where
    t: "take_pages fl p (count - length tmp) r tmp s = Inr (tmp @ qs, s1)" "takes fl s qs s1"
      "length qs = min (count - length tmp) (available fl ?a)" "qs = map (\<lambda>j. (p, r + j)) [0..<length qs]" using fl by auto
  have "alloc_arenas fl al count (p # ps) tmp s = alloc_arenas fl al count ps (tmp @ qs) s1"
    using g el fl r(1,2) t(1) by (auto simp: arena_eligible_def Let_def)
  with r(3) t show ?thesis by metis
qed

end
