(* ===== verification/Pmm_Contig.thy ===== *)
theory Pmm_Contig
  imports Pmm_Alloc
begin

text \<open>
  Contiguous allocations. The arena of the allocation is the first one that has an aligned run; if it has enough pages that
  are not reserved, the result is that run. If it has fewer, the rest is taken from the run of a later arena.
\<close>

definition can_run :: "uint32 \<Rightarrow> nat \<Rightarrow> nat \<Rightarrow> pmm_arena \<Rightarrow> bool" where
  "can_run fl al count a \<longleftrightarrow> arena_eligible fl a \<and> (\<exists>j. aligned_run a (max al 12) count j)"

definition runs_bounded :: "pmm \<Rightarrow> nat \<Rightarrow> nat \<Rightarrow> bool" where
  "runs_bounded s count al \<longleftrightarrow> (\<forall>p \<in> set (pm_list s). run_bounds (pm_arenas s p) count (max al 12))"

lemma runs_bounded_layout: "same_layout s s' \<Longrightarrow> runs_bounded s' count al = runs_bounded s count al"
  by (simp add: runs_bounded_def same_layout_def run_bounds_def)

definition run_from :: "addr \<Rightarrow> nat \<Rightarrow> nat \<Rightarrow> page list" where
  "run_from p r n = map (Pair p) [r..<r + n]"

lemma run_from_simps [simp]: "length (run_from p r n) = n" "set (run_from p r n) = Pair p ` {r..<r + n}"
  by (simp_all add: run_from_def)

lemma run_from_eq: "map (\<lambda>i. (p, r + i)) [0..<n] = run_from p r n"
proof -
  have "map (Pair p) (map (\<lambda>i. i + r) [0..<n]) = run_from p r n" unfolding map_add_upt by (simp add: run_from_def add.commute)
  then show ?thesis by (simp add: comp_def add.commute)
qed

text \<open>A run needs as many free pages as it is long.\<close>

lemma run_available:
  assumes "arena_ok a" "aligned_run a al count j"
  shows "count \<le> ar_free_count a"
proof -
  have "{j..<j + count} \<subseteq> set (ar_free_list a)"
  proof
    fix i assume i: "i \<in> {j..<j + count}"
    then have "i - j < count" "j + (i - j) = i" by auto
    then have "\<not> pg_nonfree (ar_pages a i)" using assms(2) unfolding aligned_run_def free_run_def by metis
    then show "i \<in> set (ar_free_list a)" using i assms by (simp add: arena_ok_def aligned_run_def free_run_def)
  qed
  then have "card {j..<j + count} \<le> card (set (ar_free_list a))" by (intro card_mono) auto
  moreover have "card (set (ar_free_list a)) = ar_free_count a" using assms(1) unfolding arena_ok_def by (metis distinct_card)
  ultimately show ?thesis by simp
qed

text \<open>No arena has a run.\<close>

lemma alloc_run_none:
  assumes ok: "pmm_ok s" and b: "runs_bounded s count al" and fl: "contiguous fl" and big: "1 < count \<or> 12 < al" "0 < count"
    and none: "\<forall>p \<in> set (pm_list s). \<not> can_run fl al count (pm_arenas s p)"
  shows "pmm_alloc_pages_locked count fl al s = Some (Inr (ERR_NO_MEMORY, [], [], s))"
proof -
  have "alloc_arenas fl al count (pm_list s @ []) [] s = alloc_arenas fl al count [] [] s"
    by (rule alloc_arenas_skip) (use ok b fl none in \<open>auto simp: runs_bounded_def can_run_def\<close>)
  then show ?thesis using fl big by (auto simp: pmm_alloc_pages_locked_def Let_def)
qed

text \<open>The arenas up to the first one with a run.\<close>

lemma alloc_run_first:
  assumes ok: "pmm_ok s" and b: "runs_bounded s count al" and fl: "contiguous fl" and cl: "fl AND PMM_ALLOC_FLAG_NO_CLEAR = 0 \<Longrightarrow> clearable s"
    and l: "set (ps @ p # rs) \<subseteq> set (pm_list s)" "\<forall>x \<in> set ps. \<not> can_run fl al count (pm_arenas s x)" "can_run fl al count (pm_arenas s p)" and tmp: "length tmp \<le> count"
  shows "\<exists>r s'. aligned_run (pm_arenas s p) (max al 12) count r \<and>
    alloc_arenas fl al count (ps @ p # rs) tmp s = alloc_arenas fl al count rs (tmp @ run_from p r (min (count - length tmp) (available fl (pm_arenas s p)))) s' \<and>
    takes fl s (run_from p r (min (count - length tmp) (available fl (pm_arenas s p)))) s'"
proof -
  have "alloc_arenas fl al count (ps @ p # rs) tmp s = alloc_arenas fl al count (p # rs) tmp s"
    by (rule alloc_arenas_skip) (use ok b fl l in \<open>auto simp: runs_bounded_def can_run_def\<close>)
  moreover from l(3) obtain j where j: "arena_eligible fl (pm_arenas s p)" "aligned_run (pm_arenas s p) (max al 12) count j" by (auto simp: can_run_def)
  from alloc_arenas_run [OF ok _ _ fl cl j tmp, of rs] b l(1) obtain r s' where
    "aligned_run (pm_arenas s p) (max al 12) count r"
    "alloc_arenas fl al count (p # rs) tmp s = alloc_arenas fl al count rs (tmp @ run_from p r (min (count - length tmp) (available fl (pm_arenas s p)))) s'"
    "takes fl s (run_from p r (min (count - length tmp) (available fl (pm_arenas s p)))) s'"
    by (auto simp: runs_bounded_def run_from_eq)
  ultimately show ?thesis by metis
qed

lemma alloc_done_rest:
  assumes "pmm_ok s" "takes fl s qs s'" "runs_bounded s count al" "set ps \<subseteq> set (pm_list s)" "length tmp = count"
  shows "alloc_arenas fl al count ps tmp s' = Some (Inr (tmp, s'))"
  using takes_layout [OF assms(2)] assms(1,3-5) runs_bounded_layout [of s s' count al]
  by (intro alloc_arenas_done) (auto simp: layout_simps [of s s'] runs_bounded_def)

theorem alloc_run_ok:
  assumes ok: "pmm_ok s" and b: "runs_bounded s count al" and fl: "contiguous fl" and cl: "fl AND PMM_ALLOC_FLAG_NO_CLEAR = 0 \<Longrightarrow> clearable s"
    and l: "pm_list s = ps @ p # rs" "\<forall>x \<in> set ps. \<not> can_run fl al count (pm_arenas s x)" "can_run fl al count (pm_arenas s p)"
    and big: "1 < count \<or> 12 < al" "0 < count" and av: "count \<le> available fl (pm_arenas s p)"
  shows "\<exists>r s'. pmm_alloc_pages_locked count fl al s = Some (Inr (NO_ERROR, run_from p r count, [(p, r)], s')) \<and>
    aligned_run (pm_arenas s p) (max al 12) count r \<and> takes fl s (run_from p r count) s'"
proof -
  from alloc_run_first [OF ok b fl cl _ l(2,3), of rs "[]"] l(1) av obtain r s' where r: "aligned_run (pm_arenas s p) (max al 12) count r"
    "alloc_arenas fl al count (pm_list s) [] s = alloc_arenas fl al count rs (run_from p r count) s'" "takes fl s (run_from p r count) s'" by auto
  have "alloc_arenas fl al count rs (run_from p r count) s' = Some (Inr (run_from p r count, s'))"
    by (rule alloc_done_rest [OF ok r(3) b]) (use l(1) in auto)
  moreover have "take 1 (run_from p r count) = [(p, r)]" using big(2) by (cases count) (simp_all add: run_from_def upt_conv_Cons del: upt_Suc)
  ultimately show ?thesis using r fl big by (auto simp: pmm_alloc_pages_locked_def Let_def)
qed

theorem alloc_run_split:
  assumes ok: "pmm_ok s" and b: "runs_bounded s count al" and fl: "contiguous fl" and cl: "fl AND PMM_ALLOC_FLAG_NO_CLEAR = 0 \<Longrightarrow> clearable s"
    and l: "pm_list s = [p1, p2]" "can_run fl al count (pm_arenas s p1)" "can_run fl al count (pm_arenas s p2)"
    and big: "1 < count \<or> 12 < al" and av: "available fl (pm_arenas s p1) < count" "count \<le> available fl (pm_arenas s p1) + available fl (pm_arenas s p2)"
  shows "\<exists>r1 r2 pages s'. pmm_alloc_pages_locked count fl al s = Some (Inr (NO_ERROR,
      run_from p1 r1 (available fl (pm_arenas s p1)) @ run_from p2 r2 (count - available fl (pm_arenas s p1)), pages, s')) \<and>
    takes fl s (run_from p1 r1 (available fl (pm_arenas s p1)) @ run_from p2 r2 (count - available fl (pm_arenas s p1))) s'"
proof -
  let ?n = "available fl (pm_arenas s p1)"
  have p: "p1 \<noteq> p2" using ok l(1) by (auto simp: pmm_ok_def)
  from alloc_run_first [OF ok b fl cl, of "[]" p1 "[p2]" "[]"] l av(1) obtain r1 s1 where r1:
    "alloc_arenas fl al count (pm_list s) [] s = alloc_arenas fl al count [p2] (run_from p1 r1 ?n) s1" "takes fl s (run_from p1 r1 ?n) s1" by auto
  note lay = takes_layout [OF r1(2)]
  have p2: "pm_arenas s1 p2 = pm_arenas s p2" using takes_effect [OF r1(2)] p by auto
  from alloc_run_first [of s1 count al fl "[]" p2 "[]" "run_from p1 r1 ?n"] ok b fl cl l av p2 lay obtain r2 s2 where r2:
    "alloc_arenas fl al count [p2] (run_from p1 r1 ?n) s1 = alloc_arenas fl al count [] (run_from p1 r1 ?n @ run_from p2 r2 (count - ?n)) s2"
    "takes fl s1 (run_from p2 r2 (count - ?n)) s2"
    by (auto simp: runs_bounded_layout [of s s1] clearable_layout [of s s1] layout_simps [of s s1])
  have "alloc_arenas fl al count (pm_list s) [] s = Some (Inr (run_from p1 r1 ?n @ run_from p2 r2 (count - ?n), s2))"
    using r1(1) r2(1) by simp
  then show ?thesis using takes_append [OF r1(2) r2(2)] fl big av(1) by (auto simp: pmm_alloc_pages_locked_def Let_def)
qed

text \<open>Physical addresses.\<close>

lemma page_below: "i < n div PAGE_SIZE \<Longrightarrow> i * PAGE_SIZE + PAGE_SIZE \<le> n" for i n :: nat
  using less_eq_div_iff_mult_less_eq [of PAGE_SIZE "Suc i" n] by simp

lemma vm_page_to_paddr_real:
  assumes "pmm_ok s" "real_page s q" "run_bounds (pm_arenas s (fst q)) n al"
  shows "vm_page_to_paddr s q = ar_base (pm_arenas s (fst q)) + snd q * PAGE_SIZE"
proof -
  have d: "distinct (pm_list s)" using assms(1) by (simp add: pmm_ok_def)
  have "snd q * PAGE_SIZE + PAGE_SIZE \<le> ar_size (pm_arenas s (fst q))"
    using assms(2) page_below [of "snd q"] unfolding real_page_def by blast
  then have "snd q * PAGE_SIZE + ar_base (pm_arenas s (fst q)) < 2 ^ 64" using assms(3) by (simp add: run_bounds_def)
  then show ?thesis by (simp add: vm_page_to_paddr_def find_arena [OF assms(2) d] add64_def)
qed

lemma pmm_alloc_contiguous_ok:
  assumes ok: "pmm_ok s" "clearable s" and b: "runs_bounded s count al"
    and l: "pm_list s = ps @ p # rs" "\<forall>x \<in> set ps. \<not> can_run 3 al count (pm_arenas s x)" "can_run 3 al count (pm_arenas s p)"
    and big: "1 < count \<or> 12 < al" "0 < count" and av: "ar_reserved_count (pm_arenas s p) + count \<le> ar_free_count (pm_arenas s p)"
  shows "\<exists>pa r s'. pmm_alloc_contiguous count al s = Some (Inr (count, pa, run_from p r count, s')) \<and> 2 ^ max al 12 dvd pa \<and>
    (\<forall>i < count. vm_page_to_paddr s (p, r + i) = pa + i * PAGE_SIZE) \<and> takes 3 s (run_from p r count) s'"
proof -
  let ?a = "pm_arenas s p" and ?al = "max al 12"
  have eq: "runs_bounded s count ?al = runs_bounded s count al" "can_run 3 ?al count = can_run 3 al count"
    by (simp_all add: runs_bounded_def can_run_def fun_eq_iff)
  have "count \<le> available 3 ?a" using av by (simp add: available_def)
  from alloc_run_ok [OF ok(1) _ _ ok(2) l(1) _ _ _ big(2) this, of ?al] b l(2,3) big(1) obtain r s' where
    r: "pmm_alloc_pages_locked count 3 ?al s = Some (Inr (NO_ERROR, run_from p r count, [(p, r)], s'))"
      "aligned_run ?a ?al count r" "takes 3 s (run_from p r count) s'" by (auto simp: eq)
  define pa where "pa = ar_base ?a + r * PAGE_SIZE"
  have pg: "vm_page_to_paddr s (p, r + i) = pa + i * PAGE_SIZE" if "i < count" for i
  proof -
    have "real_page s (p, r + i)" using r(2) that l(1) by (auto simp: real_page_def aligned_run_def free_run_def)
    from vm_page_to_paddr_real [OF ok(1) this] b l(1) show ?thesis by (auto simp: runs_bounded_def pa_def algebra_simps)
  qed
  have "vm_page_to_paddr s' (p, r) = pa" using pg [of 0] big(2) takes_layout [OF r(3)] layout_simps(7) [of s s'] by simp
  then have "pmm_alloc_contiguous count al s = Some (Inr (count, pa, run_from p r count, s'))"
    using r(1) big(2) by (simp add: pmm_alloc_contiguous_def)
  moreover have "2 ^ ?al dvd pa" using r(2) by (simp add: aligned_run_def pa_def)
  ultimately show ?thesis using pg r(3) by blast
qed

end
