(* ===== verification/Pmm_Reserve.thy ===== *)
theory Pmm_Reserve
  imports Pmm_Contig
begin

text \<open>
  Reservations and resource groups. A reservation is made in whole or not at all; a group that has been created can take all
  the pages it was created for, whatever has been allocated since.
\<close>

section \<open>Reserving pages\<close>

definition spare :: "pmm \<Rightarrow> addr list \<Rightarrow> nat" where
  "spare s ps = sum_list (map (\<lambda>p. ar_free_count (pm_arenas s p) - ar_reserved_count (pm_arenas s p)) ps)"

definition reserved :: "pmm \<Rightarrow> addr list \<Rightarrow> nat" where
  "reserved s ps = sum_list (map (\<lambda>p. ar_reserved_count (pm_arenas s p)) ps)"

lemma spare_simps [simp]:
  "spare s [] = 0" "spare s (p # ps) = ar_free_count (pm_arenas s p) - ar_reserved_count (pm_arenas s p) + spare s ps"
  "reserved s [] = 0" "reserved s (p # ps) = ar_reserved_count (pm_arenas s p) + reserved s ps"
  by (simp_all add: spare_def reserved_def)

lemma spare_other [simp]: "p \<notin> set ps \<Longrightarrow> spare (upd_arena p f s) ps = spare s ps" "p \<notin> set ps \<Longrightarrow> reserved (upd_arena p f s) ps = reserved s ps"
  by (induction ps) auto

text \<open>Only the counts of reserved pages differ.\<close>

definition recounted :: "pmm \<Rightarrow> pmm \<Rightarrow> bool" where
  "recounted s s' \<longleftrightarrow> same_layout s s' \<and> pmm_ok s' \<and> pages_of s' = pages_of s \<and> pm_cleared s' = pm_cleared s \<and>
     (\<forall>a. ar_free_count (pm_arenas s' a) = ar_free_count (pm_arenas s a) \<and> ar_free_list (pm_arenas s' a) = ar_free_list (pm_arenas s a))"

lemma recounted_trans: "recounted s s1 \<Longrightarrow> recounted s1 s2 \<Longrightarrow> recounted s s2"
  by (auto simp: recounted_def intro: same_layout_trans)

lemma recounted_refl: "pmm_ok s \<Longrightarrow> recounted s s"
  by (simp add: recounted_def)

lemma recount_one:
  assumes ok: "pmm_ok s" and n: "n \<le> ar_free_count (pm_arenas s p)"
  shows "recounted s (upd_arena p (\<lambda>a. a\<lparr>ar_reserved_count := n\<rparr>) s)"
proof -
  let ?s = "upd_arena p (\<lambda>a. a\<lparr>ar_reserved_count := n\<rparr>) s"
  have "arena_ok (pm_arenas ?s x)" if "x \<in> set (pm_list s)" for x
    using that ok n by (cases "x = p") (auto simp: pmm_ok_def arena_ok_def)
  then have "pmm_ok ?s" using ok by (simp add: pmm_ok_def)
  moreover have "pages_of ?s q = pages_of s q" for q by (cases "fst q = p") (auto simp: pages_of_def)
  ultimately show ?thesis by (auto simp: recounted_def same_layout_def)
qed

lemma check_available_ok:
  assumes "pmm_ok s" "distinct ps" "set ps \<subseteq> set (pm_list s)"
  shows "\<exists>s'. check_available_pages rsv ps count s = Inr (count - spare s ps, s') \<and> recounted s s' \<and>
    (rsv \<longrightarrow> reserved s' ps = reserved s ps + min count (spare s ps)) \<and> (\<not> rsv \<longrightarrow> s' = s) \<and> (\<forall>a. a \<notin> set ps \<longrightarrow> pm_arenas s' a = pm_arenas s a)"
  using assms
proof (induction ps arbitrary: count s)
  case Nil
  then show ?case by (auto simp: recounted_refl)
next
  case (Cons p ps)
  let ?a = "pm_arenas s p"
  define av where "av = ar_free_count ?a - ar_reserved_count ?a"
  define n where "n = min count av"
  define s1 where "s1 = (if rsv then upd_arena p (\<lambda>a. a\<lparr>ar_reserved_count := ar_reserved_count a + n\<rparr>) s else s)"
  have g: "ar_reserved_count ?a \<le> ar_free_count ?a" by (rule reserved_le) (use Cons.prems in auto)
  have up: "upd_arena p (\<lambda>a. a\<lparr>ar_reserved_count := ar_reserved_count a + n\<rparr>) s = upd_arena p (\<lambda>a. a\<lparr>ar_reserved_count := ar_reserved_count ?a + n\<rparr>) s"
    by (simp add: upd_arena_def)
  have "recounted s s1" using Cons.prems(1) recount_one [of s "ar_reserved_count ?a + n" p] g
    unfolding s1_def up by (auto simp: recounted_refl n_def av_def)
  then have r1: "recounted s s1" "pmm_ok s1" "pm_list s1 = pm_list s" by (auto simp: recounted_def same_layout_def)
  have e1: "reserved s1 ps = reserved s ps" "spare s1 ps = spare s ps" "\<forall>a. a \<noteq> p \<longrightarrow> pm_arenas s1 a = pm_arenas s a"
    "ar_reserved_count (pm_arenas s1 p) = ar_reserved_count ?a + (if rsv then n else 0)"
    using Cons.prems(2) by (auto simp: s1_def)
  from Cons.IH [of s1 "count - n"] r1 Cons.prems(2,3) obtain s' where
    s': "check_available_pages rsv ps (count - n) s1 = Inr (count - n - spare s1 ps, s')" "recounted s1 s'"
      "rsv \<longrightarrow> reserved s' ps = reserved s1 ps + min (count - n) (spare s1 ps)" "\<not> rsv \<longrightarrow> s' = s1"
      "\<forall>a. a \<notin> set ps \<longrightarrow> pm_arenas s' a = pm_arenas s1 a" by auto
  have p: "pm_arenas s' p = pm_arenas s1 p" using s'(5) Cons.prems(2) by simp
  have tot: "spare s (p # ps) = av + spare s ps" by (simp add: av_def)
  show ?case
  proof (cases "av \<noteq> 0 \<and> count - n = 0")
    case True
    have "check_available_pages rsv (p # ps) count s = Inr (0, s1)" using True g by (simp add: Let_def av_def n_def s1_def)
    moreover have "count \<le> av" using True by (simp add: n_def)
    ultimately show ?thesis using r1(1) e1 tot by (auto simp: n_def s1_def)
  next
    case False
    have "check_available_pages rsv (p # ps) count s = check_available_pages rsv ps (count - n) s1"
    proof (cases "av = 0")
      case True
      then have "n = 0" by (simp add: n_def)
      then have "s1 = s" by (simp add: s1_def upd_arena_def)
      with True \<open>n = 0\<close> g show ?thesis by (simp add: Let_def av_def)
    qed (use False g in \<open>simp add: Let_def av_def n_def s1_def\<close>)
    then have "check_available_pages rsv (p # ps) count s = Inr (count - spare s (p # ps), s')"
      using s'(1) e1(2) tot by (auto simp: n_def min_def)
    moreover have "reserved s' (p # ps) = reserved s (p # ps) + min count (spare s (p # ps))" if rsv
      using that s'(3) e1 p tot min_split [of count av "spare s ps"] by (simp add: n_def)
    moreover have "\<not> rsv \<longrightarrow> s' = s" using s'(4) by (simp add: s1_def)
    moreover have "\<forall>a. a \<notin> set (p # ps) \<longrightarrow> pm_arenas s' a = pm_arenas s a" using s'(5) e1(3) by auto
    ultimately show ?thesis using recounted_trans [OF r1(1) s'(2)] by blast
  qed
qed

lemma pmm_reserve_ok:
  assumes "pmm_ok s"
  shows "\<exists>ret s'. pmm_reserve_pages count s = Inr (ret, s') \<and>
    (if count \<le> spare s (pm_list s) then ret = NO_ERROR \<and> recounted s s' \<and> reserved s' (pm_list s') = reserved s (pm_list s) + count
     else ret = ERR_NO_MEMORY \<and> s' = s)"
proof -
  have d: "distinct (pm_list s)" using assms by (simp add: pmm_ok_def)
  from check_available_ok [OF assms d order_refl, of False count] have c: "check_available_pages False (pm_list s) count s = Inr (count - spare s (pm_list s), s)" by auto
  from check_available_ok [OF assms d order_refl, of True count] obtain s' where
    s': "check_available_pages True (pm_list s) count s = Inr (count - spare s (pm_list s), s')" "recounted s s'"
      "reserved s' (pm_list s) = reserved s (pm_list s) + min count (spare s (pm_list s))" by auto
  have "pm_list s' = pm_list s" using s'(2) by (simp add: recounted_def same_layout_def)
  with c s' show ?thesis by (auto simp: pmm_reserve_pages_def)
qed

lemma unreserve_ok:
  assumes "pmm_ok s" "distinct ps" "set ps \<subseteq> set (pm_list s)"
  shows "if count \<le> reserved s ps then \<exists>s'. unreserve_loop ps count s = Inr s' \<and> recounted s s' \<and> reserved s' ps = reserved s ps - count \<and>
      (\<forall>a. a \<notin> set ps \<longrightarrow> pm_arenas s' a = pm_arenas s a)
    else \<exists>e. unreserve_loop ps count s = Inl e"
  using assms
proof (induction ps arbitrary: count s)
  case Nil
  then show ?case by (auto simp: recounted_refl)
next
  case (Cons p ps)
  let ?a = "pm_arenas s p"
  define n where "n = min count (ar_reserved_count ?a)"
  define s1 where "s1 = upd_arena p (\<lambda>a. a\<lparr>ar_reserved_count := ar_reserved_count a - n\<rparr>) s"
  have g: "ar_reserved_count ?a \<le> ar_free_count ?a" by (rule reserved_le) (use Cons.prems in auto)
  have up: "s1 = upd_arena p (\<lambda>a. a\<lparr>ar_reserved_count := ar_reserved_count ?a - n\<rparr>) s" by (simp add: upd_arena_def s1_def)
  have "recounted s s1" unfolding up by (rule recount_one) (use Cons.prems(1) g in auto)
  then have r1: "recounted s s1" "pmm_ok s1" "pm_list s1 = pm_list s" by (auto simp: recounted_def same_layout_def)
  have e1: "reserved s1 ps = reserved s ps" "\<forall>a. a \<noteq> p \<longrightarrow> pm_arenas s1 a = pm_arenas s a"
    "ar_reserved_count (pm_arenas s1 p) = ar_reserved_count ?a - n"
    using Cons.prems(2) by (auto simp: s1_def)
  have step: "unreserve_loop (p # ps) count s = (if count - n = 0 then Inr s1 else unreserve_loop ps (count - n) s1)"
    by (simp add: Let_def n_def s1_def)
  show ?case
  proof (cases "count - n = 0")
    case True
    then show ?thesis using step r1(1) e1 by (auto simp: n_def)
  next
    case False
    then have n: "n = ar_reserved_count ?a" by (simp add: n_def)
    note ih = Cons.IH [of s1 "count - n"]
    show ?thesis
    proof (cases "count - n \<le> reserved s ps")
      case True
      with ih r1 e1(1) Cons.prems(2,3) obtain s' where s': "unreserve_loop ps (count - n) s1 = Inr s'" "recounted s1 s'"
        "reserved s' ps = reserved s ps - (count - n)" "\<forall>a. a \<notin> set ps \<longrightarrow> pm_arenas s' a = pm_arenas s1 a" by auto
      have "pm_arenas s' p = pm_arenas s1 p" using s'(4) Cons.prems(2) by simp
      then have "reserved s' (p # ps) = reserved s (p # ps) - count" using s'(3) e1(3) n False True by simp
      moreover have "\<forall>a. a \<notin> set (p # ps) \<longrightarrow> pm_arenas s' a = pm_arenas s a" using s'(4) e1(2) by auto
      ultimately show ?thesis using step False s'(1) recounted_trans [OF r1(1) s'(2)] True n by auto
    next
      case over: False
      with ih r1 e1(1) Cons.prems(2,3) have "\<exists>e. unreserve_loop ps (count - n) s1 = Inl e" by auto
      with step False over n show ?thesis by auto
    qed
  qed
qed

lemma pmm_unreserve_ok:
  assumes "pmm_ok s" "count \<le> reserved s (pm_list s)"
  shows "\<exists>s'. pmm_unreserve_pages count s = Inr s' \<and> recounted s s' \<and> reserved s' (pm_list s') = reserved s (pm_list s) - count"
  using unreserve_ok [of s "pm_list s" count] assms
  by (auto simp: pmm_unreserve_pages_def pmm_ok_def recounted_def same_layout_def)

end
