(* ===== verification/Pmm_Groups.thy ===== *)
theory Pmm_Groups
  imports Pmm_Reserve
begin

text \<open>
  The users of the allocator: groups with the memory objects charged to them, and objects without a group. Over all
  sequences of operations no page is in two objects, and the pages that a group may still take are there.
\<close>

section \<open>Any allocation\<close>

lemma alloc_arenas_takes:
  assumes "pmm_ok s" "set ps \<subseteq> set (pm_list s)" "fl AND PMM_ALLOC_FLAG_NO_CLEAR = 0 \<Longrightarrow> clearable s"
    "contiguous fl \<Longrightarrow> runs_bounded s count al" "length tmp \<le> count"
  shows "\<exists>qs s'. alloc_arenas fl al count ps tmp s = Some (Inr (tmp @ qs, s')) \<and> takes fl s qs s'"
  using assms
proof (induction ps arbitrary: tmp s)
  case Nil
  then show ?case by (auto intro: takes_none)
next
  case (Cons p ps)
  let ?a = "pm_arenas s p"
  have g: "ar_reserved_count ?a \<le> ar_free_count ?a" by (rule reserved_le) (use Cons.prems(1,2) in auto)
  have next_: ?case if t: "take_pages fl p (count - length tmp) run tmp s = Inr (tmp @ qs, s1)" "takes fl s qs s1" "length (tmp @ qs) \<le> count"
    and step: "alloc_arenas fl al count (p # ps) tmp s = bindO (take_pages fl p (count - length tmp) run tmp s) (\<lambda>(tmp1, s1). alloc_arenas fl al count ps tmp1 s1)" for run qs s1
  proof -
    note l = takes_layout [OF t(2)]
    from Cons.IH [of s1 "tmp @ qs"] Cons.prems l t(3) obtain rs s' where
      "alloc_arenas fl al count ps (tmp @ qs) s1 = Some (Inr ((tmp @ qs) @ rs, s'))" "takes fl s1 rs s'"
      by (auto simp: layout_simps [of s s1] clearable_layout [of s s1] runs_bounded_layout [of s s1])
    with step t takes_append [OF t(2)] show ?thesis by auto
  qed
  consider (skip) "alloc_arenas fl al count (p # ps) tmp s = alloc_arenas fl al count ps tmp s"
    | (list) "\<not> contiguous fl" "arena_eligible fl ?a"
    | (run) r where "contiguous fl" "arena_eligible fl ?a" "pmm_arena_find_free_run ?a count al = Some r" "r \<noteq> 2 ^ 64 - 1" "aligned_run ?a (max al 12) count r"
  proof (cases "arena_eligible fl ?a \<and> contiguous fl")
    case True
    have "run_bounds ?a count (max al 12)" using Cons.prems(2,4) True by (auto simp: runs_bounded_def)
    from pmm_arena_find_free_run_ok [OF this] obtain r where
      r: "pmm_arena_find_free_run ?a count al = Some r" "r \<noteq> 2 ^ 64 - 1 \<longrightarrow> aligned_run ?a (max al 12) count r" by (auto split: if_splits)
    show thesis
    proof (cases "r = 2 ^ 64 - 1")
      case end_: True
      show thesis by (rule skip) (use True r(1) g end_ in \<open>auto simp: arena_eligible_def Let_def\<close>)
    qed (use r True run in blast)
  next
    case False
    show thesis
    proof (cases "arena_eligible fl ?a")
      case True
      with False list show thesis by blast
    next
      case False
      show thesis by (rule skip) (use False g in \<open>auto simp: arena_eligible_def Let_def\<close>)
    qed
  qed
  then show ?case
  proof cases
    case skip
    with Cons.IH [of s tmp] Cons.prems show ?thesis by simp
  next
    case list
    from take_pages_ok [of s p fl "count - length tmp" "2 ^ 64 - 1" tmp] Cons.prems list obtain qs s1 where
      t: "take_pages fl p (count - length tmp) (2 ^ 64 - 1) tmp s = Inr (tmp @ qs, s1)" "takes fl s qs s1" "length qs \<le> count - length tmp" by auto
    show ?thesis by (rule next_ [OF t(1,2)]) (use t(3) Cons.prems(5) list g in \<open>auto simp: arena_eligible_def Let_def\<close>)
  next
    case run
    have "\<forall>i < count - length tmp. r + i < ar_count ?a \<and> \<not> pg_nonfree (pages_of s (p, r + i))"
      using run(5) by (auto simp: aligned_run_def free_run_def pages_of_def)
    with take_pages_ok [of s p fl "count - length tmp" r tmp] Cons.prems obtain qs s1 where
      t: "take_pages fl p (count - length tmp) r tmp s = Inr (tmp @ qs, s1)" "takes fl s qs s1" "length qs \<le> count - length tmp" by auto
    show ?thesis by (rule next_ [OF t(1,2)]) (use t(3) Cons.prems(5) run g in \<open>auto simp: arena_eligible_def Let_def\<close>)
  qed
qed

lemma same_flags:
  "(fl AND NOT PMM_ALLOC_FLAG_CONTIGUOUS) AND PMM_ALLOC_FLAG_FROM_RESERVED = fl AND PMM_ALLOC_FLAG_FROM_RESERVED"
  "(fl AND NOT PMM_ALLOC_FLAG_CONTIGUOUS) AND PMM_ALLOC_FLAG_NO_CLEAR = fl AND PMM_ALLOC_FLAG_NO_CLEAR"
  "(fl AND NOT PMM_ALLOC_FLAG_CONTIGUOUS) AND PMM_ALLOC_FLAG_CONTIGUOUS = 0"
  by (simp_all add: and.assoc)

lemma took_flags: "fl' AND PMM_ALLOC_FLAG_FROM_RESERVED = fl AND PMM_ALLOC_FLAG_FROM_RESERVED \<Longrightarrow>
  fl' AND PMM_ALLOC_FLAG_NO_CLEAR = fl AND PMM_ALLOC_FLAG_NO_CLEAR \<Longrightarrow> took fl' q s s' = took fl q s s'"
  by (simp only: took_def)

lemma takes_flags: "takes fl s qs s' \<Longrightarrow> fl' AND PMM_ALLOC_FLAG_FROM_RESERVED = fl AND PMM_ALLOC_FLAG_FROM_RESERVED \<Longrightarrow>
  fl' AND PMM_ALLOC_FLAG_NO_CLEAR = fl AND PMM_ALLOC_FLAG_NO_CLEAR \<Longrightarrow> takes fl' s qs s'"
proof (induction rule: takes.induct)
  case (takes_one q s s1 qs s2)
  then show ?case using took_flags [of fl' fl q s s1] by (intro takes.intros) auto
qed (rule takes_none)

definition small_request :: "pmm \<Rightarrow> uint32 \<Rightarrow> nat \<Rightarrow> nat \<Rightarrow> bool" where
  "small_request s fl count al \<longleftrightarrow> (if contiguous fl then runs_bounded s count al else al = 0)"

lemma pmm_alloc_any:
  assumes ok: "pmm_ok s" "clearable s" and sm: "small_request s fl count al"
  shows "\<exists>ret qs pages s'. pmm_alloc_pages_locked count fl al s = Some (Inr (ret, qs, pages, s')) \<and>
    (ret = NO_ERROR \<and> length qs = count \<and> takes fl s qs s' \<or> ret = ERR_NO_MEMORY \<and> same_pages s s')"
proof -
  define fl' where "fl' = (if contiguous fl \<and> count = 1 \<and> al \<le> 12 then fl AND NOT PMM_ALLOC_FLAG_CONTIGUOUS else fl)"
  consider "fl' = fl" | "fl' = fl AND NOT PMM_ALLOC_FLAG_CONTIGUOUS" unfolding fl'_def by argo
  then have f: "fl AND PMM_ALLOC_FLAG_FROM_RESERVED = fl' AND PMM_ALLOC_FLAG_FROM_RESERVED" "fl AND PMM_ALLOC_FLAG_NO_CLEAR = fl' AND PMM_ALLOC_FLAG_NO_CLEAR"
    by (cases; simp only: same_flags)+
  have c: "contiguous fl' \<Longrightarrow> contiguous fl" by (auto simp: fl'_def)
  from alloc_arenas_takes [of s "pm_list s" fl' count al "[]"] ok sm c obtain qs s1 where
    a: "alloc_arenas fl' al count (pm_list s) [] s = Some (Inr (qs, s1))" "takes fl' s qs s1" by (auto simp: small_request_def)
  from takes_free [OF ok(1) a(2), of 0] obtain s' where u: "pmm_free_locked qs 0 s1 = Inr (length qs, s')" "same_pages s s'" by auto
  have g: "al = 0 \<or> contiguous fl" using sm by (auto simp: small_request_def)
  have "\<exists>pages. pmm_alloc_pages_locked count fl al s =
    (if length qs \<noteq> count then Some (Inr (ERR_NO_MEMORY, [], pages, s')) else Some (Inr (NO_ERROR, qs, pages, s1)))"
    unfolding pmm_alloc_pages_locked_def Let_def fl'_def [symmetric] using a(1) u(1) g by auto
  moreover have "takes fl s qs s1" using takes_flags [OF a(2) f] .
  ultimately show ?thesis using u(2) by (cases "length qs = count") auto
qed

section \<open>How the reserved pages change\<close>

lemma sum_owner: "distinct ps \<Longrightarrow> fst ` set qs \<subseteq> set ps \<Longrightarrow>
  sum_list (map (\<lambda>p. length (filter (\<lambda>q. fst q = p \<and> P q) qs)) ps) = length (filter P qs)"
proof (induction qs)
  case (Cons q qs)
  have "sum_list (map (\<lambda>p. if fst q = p \<and> P q then 1 else 0) ps) = (if P q then 1 else (0::nat))"
    using Cons.prems by (simp add: sum_list_distinct_conv_sum_set)
  moreover have m: "map (\<lambda>p. length (filter (\<lambda>x. fst x = p \<and> P x) (q # qs))) ps =
      map (\<lambda>p. (if fst q = p \<and> P q then 1 else 0) + length (filter (\<lambda>x. fst x = p \<and> P x) qs)) ps" by auto
  ultimately show ?case using Cons unfolding m sum_list_addf by simp
qed simp

abbreviation all_reserved :: "pmm \<Rightarrow> nat" where "all_reserved s \<equiv> reserved s (pm_list s)"

lemma takes_reserved:
  assumes ok: "pmm_ok s" and t: "takes fl s qs s'"
  shows "all_reserved s = all_reserved s' + (if from_reserved fl then length qs else 0)"
proof -
  note e = takes_effect [OF t]
  have l: "pm_list s' = pm_list s" using takes_layout [OF t] by (simp add: same_layout_def)
  have d: "distinct (pm_list s)" "fst ` set qs \<subseteq> set (pm_list s)" using ok e by (auto simp: pmm_ok_def real_page_def)
  have m: "map (\<lambda>p. ar_reserved_count (pm_arenas s p)) (pm_list s) =
    map (\<lambda>p. ar_reserved_count (pm_arenas s' p) + (if from_reserved fl then length (filter (\<lambda>q. fst q = p) qs) else 0)) (pm_list s)"
    using e by (intro map_cong) blast+
  show ?thesis using sum_owner [OF d, of "\<lambda>_. True"] unfolding reserved_def l m by (simp add: sum_list_addf)
qed

lemma gave_back_reserved:
  assumes "pmm_ok s" "gave_back ps s s'" "\<forall>q \<in> set ps. real_page s q"
  shows "all_reserved s' = all_reserved s + length (filter (\<lambda>q. pg_reserved (pages_of s q)) ps)"
proof -
  have l: "pm_list s' = pm_list s" using assms(2) by (simp add: gave_back_def same_layout_def)
  have d: "distinct (pm_list s)" "fst ` set ps \<subseteq> set (pm_list s)" using assms by (auto simp: pmm_ok_def real_page_def)
  have m: "map (\<lambda>p. ar_reserved_count (pm_arenas s' p)) (pm_list s) =
    map (\<lambda>p. ar_reserved_count (pm_arenas s p) + length (filter (\<lambda>q. fst q = p \<and> pg_reserved (pages_of s q)) ps)) (pm_list s)"
    using assms(2) by (simp add: gave_back_def)
  show ?thesis using sum_owner [OF d, of "\<lambda>q. pg_reserved (pages_of s q)"] unfolding reserved_def l m by (simp add: sum_list_addf)
qed

lemma same_pages_reserved: "same_pages s s' \<Longrightarrow> all_reserved s' = all_reserved s"
  by (simp add: same_pages_def same_layout_def reserved_def)

section \<open>Allocating an object\<close>

definition obj_allocated :: "uint32 \<Rightarrow> nat \<Rightarrow> res_group option \<Rightarrow> pmm \<Rightarrow> pmm_vmm_obj \<Rightarrow> res_group option \<Rightarrow> pmm \<Rightarrow> bool" where
  "obj_allocated fl count grp s ob grp' s' \<longleftrightarrow> length (po_page_list ob) = count \<and> takes fl s (po_page_list ob) s' \<and>
     po_has_group ob = (grp \<noteq> None) \<and> po_used_pages ob = (if grp = None then 0 else count) \<and>
     grp' = map_option (\<lambda>g. g\<lparr>rs_used_pages := rs_used_pages g + count\<rparr>) grp \<and>
     (\<forall>g. grp = Some g \<longrightarrow> \<not> rs_is_shutdown g \<and> rs_used_pages g + count \<le> rs_reserved_pages g)"

definition may_call :: "bool \<Rightarrow> res_group option \<Rightarrow> nat \<Rightarrow> uint32 \<Rightarrow> bool" where
  "may_call tagging grp count fl \<longleftrightarrow> 0 < count \<and> (from_reserved fl \<longleftrightarrow> grp \<noteq> None) \<and> (fl AND PMM_ALLOC_FLAG_ALLOW_TAGGED \<noteq> 0 \<longrightarrow> tagging)"

lemma take_mem_cases: "res_group_take_mem g count = (ret, g') \<Longrightarrow>
  ret = NO_ERROR \<and> g' = g\<lparr>rs_used_pages := rs_used_pages g + count\<rparr> \<and> \<not> rs_is_shutdown g \<and> rs_used_pages g + count \<le> rs_reserved_pages g \<or>
  ret \<noteq> NO_ERROR \<and> g' = g"
  by (auto simp: res_group_take_mem_def check_take_def Let_def add_overflow_def split: if_splits option.splits)

lemma pmm_alloc_obj_cases: "chunk_size mod PAGE_SIZE = 0 \<Longrightarrow> 0 < n \<Longrightarrow> \<exists>r. pmm_alloc_obj c n chunk_size = Inr r \<and>
  (r = None \<and> \<not> c \<or> c \<and> (\<exists>ob. r = Some ob \<and> po_has_group ob = False \<and> po_used_pages ob = 0))"
  by (auto simp: pmm_alloc_obj_def)

lemma alloc_obj_ok:
  assumes ok: "pmm_ok s" "clearable s" and sm: "small_request s fl count al" and call: "may_call tagging grp count fl"
  shows "\<exists>ret obj grp' s'. pmm_alloc_from_res_group c tagging grp count fl al s = Some (Inr (ret, obj, grp', s')) \<and>
    (ret = NO_ERROR \<and> (\<exists>ob. obj = Some ob \<and> obj_allocated fl count grp s ob grp' s') \<or> ret \<noteq> NO_ERROR \<and> obj = None \<and> grp' = grp \<and> same_pages s s')"
proof -
  define rg where "rg = (case grp of None \<Rightarrow> (0, None) | Some g \<Rightarrow> map_prod id Some (res_group_take_mem g count))"
  have sp: "same_pages s s" using ok by (simp add: same_pages_def)
  obtain ret0 grp1 where rg0: "rg = (ret0, grp1)" by fastforce
  have rg: "ret0 = NO_ERROR \<and> grp1 = map_option (\<lambda>g. g\<lparr>rs_used_pages := rs_used_pages g + count\<rparr>) grp \<and>
      (\<forall>g. grp = Some g \<longrightarrow> \<not> rs_is_shutdown g \<and> rs_used_pages g + count \<le> rs_reserved_pages g) \<or> ret0 \<noteq> NO_ERROR \<and> grp1 = grp"
  proof (cases grp)
    case (Some g)
    then have "res_group_take_mem g count = (ret0, the grp1)" "grp1 = Some (the grp1)"
      using rg0 by (auto simp: rg_def map_prod_def split: prod.splits)
    with take_mem_cases [of g count ret0 "the grp1"] Some show ?thesis by (cases grp1) auto
  qed (use rg0 in \<open>simp add: rg_def\<close>)
  define cs n where "cs = (if contiguous fl then (count * PAGE_SIZE) mod 2 ^ 64 else PAGE_SIZE)" and "n = (if contiguous fl then 1 else count)"
  have "(count * PAGE_SIZE) mod 2 ^ 64 mod PAGE_SIZE = 0" by (simp add: mod_mod_cancel)
  then have cs: "cs mod PAGE_SIZE = 0" by (simp add: cs_def)
  have rel: "(case grp1 of None \<Rightarrow> Inr None | Some g \<Rightarrow> bindE (res_group_release_mem g count) (\<lambda>g1. Inr (Some g1))) = Inr grp" if "ret0 = NO_ERROR"
    using rg that by (cases grp) (auto simp: res_group_release_mem_def)
  have "0 < n" using call by (simp add: n_def may_call_def)
  then obtain r where r: "pmm_alloc_obj c n cs = Inr r" "r = None \<or> (\<exists>ob. r = Some ob \<and> po_has_group ob = False \<and> po_used_pages ob = 0)"
    using pmm_alloc_obj_cases [OF cs, of n c] by blast
  from pmm_alloc_any [OF ok sm] obtain ret qs pages s' where
    p: "pmm_alloc_pages_locked count fl al s = Some (Inr (ret, qs, pages, s'))"
      "ret = NO_ERROR \<and> length qs = count \<and> takes fl s qs s' \<or> ret = ERR_NO_MEMORY \<and> same_pages s s'" by blast
  have g: "0 < count" "from_reserved fl \<longleftrightarrow> grp \<noteq> None" "fl AND PMM_ALLOC_FLAG_ALLOW_TAGGED \<noteq> 0 \<longrightarrow> tagging" using call by (auto simp: may_call_def)
  note unf = pmm_alloc_from_res_group_def Let_def rg_def [symmetric] cs_def [symmetric] n_def [symmetric] rg0 prod.case
  consider (refused) "ret0 \<noteq> NO_ERROR" "grp1 = grp" | (no_obj) "ret0 = NO_ERROR" "r = None" | (obj) ob where "ret0 = NO_ERROR" "r = Some ob"
    using rg r(2) by blast
  then show ?thesis
  proof cases
    case refused
    then have "pmm_alloc_from_res_group c tagging grp count fl al s = Some (Inr (ret0, None, grp, s))"
      unfolding unf using g by simp
    with refused sp show ?thesis by simp
  next
    case no_obj
    then have "pmm_alloc_from_res_group c tagging grp count fl al s = Some (Inr (ERR_NO_MEMORY, None, grp, s))"
      unfolding unf using g r(1) rel by simp
    with sp show ?thesis by simp
  next
    case obj
    show ?thesis
    proof (cases "ret = NO_ERROR")
      case True
      define ob' where "ob' = ob\<lparr>po_page_list := qs, po_chunk := pages,
         po_flags := (if fl AND PMM_ALLOC_FLAG_NO_CLEAR \<noteq> 0 then PMM_OBJ_FLAG_NEEDS_CLEAR else 0) OR (if fl AND PMM_ALLOC_FLAG_ALLOW_TAGGED \<noteq> 0 then PMM_OBJ_FLAG_ALLOW_TAGGED else 0),
         po_has_group := (grp \<noteq> None), po_used_pages := (if grp \<noteq> None then count else 0)\<rparr>"
      have "pmm_alloc_from_res_group c tagging grp count fl al s = Some (Inr (NO_ERROR, Some ob', grp1, s'))"
        unfolding unf ob'_def using g r(1) obj p(1) True by simp
      moreover have "obj_allocated fl count grp s ob' grp1 s'" using p(2) True rg obj(1) by (auto simp: obj_allocated_def ob'_def)
      ultimately show ?thesis by blast
    next
      case False
      then have "pmm_alloc_from_res_group c tagging grp count fl al s = Some (Inr (ret, None, grp, s'))"
        unfolding unf using g r(1) obj p(1) rel by simp
      with False p(2) show ?thesis by simp
    qed
  qed
qed

end
