(* ===== verification/Pmm_System.thy ===== *)
theory Pmm_System
  imports Pmm_Groups
begin

text \<open>
  The users of the physical memory, operation by operation: the steps are the calls of the allocator and of the resource groups by
  which memory objects and groups come and go. The invariant \<open>mem_ok\<close> holds in every state that is reached.
\<close>

section \<open>The steps\<close>

text \<open>The pages, the groups each with the objects charged to it, and the objects without a group.\<close>

type_synonym mem = "pmm \<times> (res_group \<times> pmm_vmm_obj list) list \<times> pmm_vmm_obj list"

definition add_obj :: "pmm_vmm_obj option \<Rightarrow> pmm_vmm_obj list \<Rightarrow> pmm_vmm_obj list" where
  "add_obj r obs = (case r of None \<Rightarrow> obs | Some ob \<Rightarrow> ob # obs)"

text \<open>A group goes with its last reference, and every object that is charged to it holds one.\<close>

inductive mem_step :: "mem \<Rightarrow> mem \<Rightarrow> bool" where
  create: "pages < 2 ^ 32 \<Longrightarrow> res_group_create c pages s = Inr (r, s') \<Longrightarrow>
    mem_step (s, gs, os) (s', (case r of None \<Rightarrow> gs | Some g \<Rightarrow> (g, []) # gs), os)"
| alloc_group: "small_request s fl count al \<Longrightarrow> may_call t (Some g) count fl \<Longrightarrow>
    pmm_alloc_from_res_group c t (Some g) count fl al s = Some (Inr (ret, r, Some g', s')) \<Longrightarrow>
    mem_step (s, gs1 @ (g, obs) # gs2, os) (s', gs1 @ (g', add_obj r obs) # gs2, os)"
| alloc_plain: "small_request s fl count al \<Longrightarrow> may_call t None count fl \<Longrightarrow>
    pmm_alloc_from_res_group c t None count fl al s = Some (Inr (ret, r, g', s')) \<Longrightarrow>
    mem_step (s, gs, os) (s', gs, add_obj r os)"
| destroy_group_obj: "pmm_vmm_obj_destroy ob (Some g) s = Inr (Some g', s') \<Longrightarrow>
    mem_step (s, gs1 @ (g, obs1 @ ob # obs2) # gs2, os) (s', gs1 @ (g', obs1 @ obs2) # gs2, os)"
| destroy_plain_obj: "pmm_vmm_obj_destroy ob None s = Inr (g', s') \<Longrightarrow> mem_step (s, gs, os1 @ ob # os2) (s', gs, os1 @ os2)"
| shutdown: "res_group_shutdown g s = Inr (g', s') \<Longrightarrow> mem_step (s, gs1 @ (g, obs) # gs2, os) (s', gs1 @ (g', obs) # gs2, os)"
| destroy: "res_group_destroy g s = Inr s' \<Longrightarrow> mem_step (s, gs1 @ (g, []) # gs2, os) (s', gs1 @ gs2, os)"

section \<open>The invariant\<close>

definition obj_pages :: "pmm_vmm_obj list \<Rightarrow> page list" where
  "obj_pages obs = concat (map po_page_list obs)"

definition all_pages :: "(res_group \<times> pmm_vmm_obj list) list \<Rightarrow> pmm_vmm_obj list \<Rightarrow> page list" where
  "all_pages gs os = concat (map (obj_pages \<circ> snd) gs) @ obj_pages os"

definition claimed :: "(res_group \<times> pmm_vmm_obj list) list \<Rightarrow> nat" where
  "claimed gs = sum_list (map (\<lambda>(g, _). rs_reserved_pages g - rs_used_pages g) gs)"

definition account_ok :: "(page \<Rightarrow> vm_page) \<Rightarrow> res_group \<times> pmm_vmm_obj list \<Rightarrow> bool" where
  "account_ok pg = (\<lambda>(g, obs). rs_used_pages g \<le> rs_reserved_pages g \<and> rs_reserved_pages g < 2 ^ 32 \<and>
     rs_used_pages g = length (obj_pages obs) \<and>
     (\<forall>ob \<in> set obs. po_has_group ob \<and> po_used_pages ob = length (po_page_list ob)) \<and> (\<forall>q \<in> set (obj_pages obs). pg_reserved (pg q)))"

definition mem_ok :: "mem \<Rightarrow> bool" where
  "mem_ok = (\<lambda>(s, gs, os). pmm_ok s \<and> clearable s \<and> distinct (all_pages gs os) \<and>
     (\<forall>q \<in> set (all_pages gs os). real_page s q \<and> pg_nonfree (pages_of s q)) \<and>
     (\<forall>x \<in> set gs. account_ok (pages_of s) x) \<and> claimed gs \<le> all_reserved s)"

lemma pages_simps [simp]:
  "obj_pages [] = []" "obj_pages (ob # obs) = po_page_list ob @ obj_pages obs" "obj_pages (xs @ ys) = obj_pages xs @ obj_pages ys"
  "claimed [] = 0" "claimed ((g, obs) # gs) = rs_reserved_pages g - rs_used_pages g + claimed gs" "claimed (gs1 @ gs2) = claimed gs1 + claimed gs2"
  by (simp_all add: obj_pages_def claimed_def)

lemma all_pages_split [simp]: "all_pages (gs1 @ x # gs2) os = all_pages gs1 [] @ obj_pages (snd x) @ all_pages gs2 os"
  "all_pages (x # gs) os = obj_pages (snd x) @ all_pages gs os" "all_pages [] os = obj_pages os" "all_pages (gs1 @ gs2) os = all_pages gs1 [] @ all_pages gs2 os"
  by (simp_all add: all_pages_def)

lemma obj_pages_sub: "ob \<in> set obs \<Longrightarrow> set (po_page_list ob) \<subseteq> set (obj_pages obs)"
  by (auto simp: obj_pages_def)

lemma group_pages_sub: "x \<in> set gs \<Longrightarrow> set (obj_pages (snd x)) \<subseteq> set (all_pages gs os)"
  by (auto simp: all_pages_def)

text \<open>The invariant over the pages of an unchanged set of objects.\<close>

lemma groups_keep: "\<forall>x \<in> set gs. account_ok pg x \<Longrightarrow> (\<And>q. q \<in> set (all_pages gs os) \<Longrightarrow> pg' q = pg q) \<Longrightarrow> x \<in> set gs \<Longrightarrow> account_ok pg' x"
  using group_pages_sub [of x gs os] by (fastforce simp: account_ok_def)

section \<open>Every step keeps the invariant\<close>

lemma mem_okD:
  assumes "mem_ok (s, gs, os)"
  shows "pmm_ok s" "clearable s" "distinct (all_pages gs os)" "\<forall>q \<in> set (all_pages gs os). real_page s q \<and> pg_nonfree (pages_of s q)"
    "\<forall>x \<in> set gs. account_ok (pages_of s) x" "claimed gs \<le> all_reserved s"
  using assms by (auto simp: mem_ok_def)

lemma mem_okI: "pmm_ok s \<Longrightarrow> clearable s \<Longrightarrow> distinct (all_pages gs os) \<Longrightarrow>
  (\<And>q. q \<in> set (all_pages gs os) \<Longrightarrow> real_page s q \<and> pg_nonfree (pages_of s q)) \<Longrightarrow> (\<And>x. x \<in> set gs \<Longrightarrow> account_ok (pages_of s) x) \<Longrightarrow>
  claimed gs \<le> all_reserved s \<Longrightarrow> mem_ok (s, gs, os)"
  unfolding mem_ok_def by blast

text \<open>A step that leaves the pages alone, and changes at most what groups may claim.\<close>

lemma mem_keep:
  assumes m: "mem_ok (s, gs, os)" and s': "same_layout s s'" "pmm_ok s'" "pages_of s' = pages_of s"
    and gs': "all_pages gs' os = all_pages gs os" "\<forall>x \<in> set gs'. x \<in> set gs \<or> account_ok (pages_of s) x" "claimed gs' \<le> all_reserved s'"
  shows "mem_ok (s', gs', os)"
proof -
  note d = mem_okD [OF m]
  show ?thesis unfolding mem_ok_def using d gs' s'
    by (auto simp: clearable_layout [OF s'(1)] layout_simps(5) [OF s'(1)])
qed

lemma takes_mem:
  assumes m: "mem_ok (s, gs, os)" and t: "takes fl s qs s'"
  shows "pmm_ok s'" "clearable s'" "distinct (qs @ all_pages gs os)" "\<And>q. q \<in> set (qs @ all_pages gs os) \<Longrightarrow> real_page s' q \<and> pg_nonfree (pages_of s' q)"
    "\<And>q. q \<in> set (all_pages gs os) \<Longrightarrow> pages_of s' q = pages_of s q" "\<And>q. q \<in> set qs \<Longrightarrow> pg_reserved (pages_of s' q) = from_reserved fl"
proof -
  note d = mem_okD [OF m] note e = takes_effect [OF t] note l = takes_layout [OF t]
  have r: "\<forall>q. real_page s' q = real_page s q" using l by (intro allI layout_simps(5)) simp
  show "pmm_ok s'" using l d(1) by simp
  show "clearable s'" using l d(2) clearable_layout [of s s'] by simp
  have disj: "set qs \<inter> set (all_pages gs os) = {}" using e d(4) by blast
  with e d(3) show "distinct (qs @ all_pages gs os)" by simp
  show "real_page s' q \<and> pg_nonfree (pages_of s' q)" if "q \<in> set (qs @ all_pages gs os)" for q
    using that e d(4) r [rule_format, of q] by auto
  show "pages_of s' q = pages_of s q" if "q \<in> set (all_pages gs os)" for q using that e disj by auto
  show "pg_reserved (pages_of s' q) = from_reserved fl" if "q \<in> set qs" for q using that e by simp
qed

lemma gives_mem:
  assumes m: "mem_ok (s, gs, os)" and ps: "distinct ps" "set ps \<subseteq> set (all_pages gs os)"
  shows "\<exists>s'. pmm_free ps s = Inr (length ps, s') \<and> pmm_ok s' \<and> clearable s' \<and>
    (\<forall>q \<in> set (all_pages gs os) - set ps. real_page s' q \<and> pg_nonfree (pages_of s' q) \<and> pages_of s' q = pages_of s q) \<and>
    all_reserved s' = all_reserved s + length (filter (\<lambda>q. pg_reserved (pages_of s q)) ps)"
proof -
  note d = mem_okD [OF m]
  have "\<forall>q \<in> set ps. real_page s q \<and> pg_nonfree (pages_of s q)" using d(4) ps(2) by blast
  from pmm_free_locked_ok [OF d(1) ps(1) this, of 0] obtain s' where s': "pmm_free ps s = Inr (length ps, s')" "gave_back ps s s'"
    by (auto simp: pmm_free_def)
  then have g: "same_layout s s'" "pmm_ok s'" "\<forall>q. q \<notin> set ps \<longrightarrow> pages_of s' q = pages_of s q" by (auto simp: gave_back_def)
  have "all_reserved s' = all_reserved s + length (filter (\<lambda>q. pg_reserved (pages_of s q)) ps)"
    by (rule gave_back_reserved [OF d(1) s'(2)]) (use d(4) ps(2) in blast)
  with s' g d(2,4) show ?thesis by (intro exI [of _ s']) (auto simp: clearable_layout layout_simps(5) [OF g(1)])
qed

lemma step_create:
  assumes m: "mem_ok (s, gs, os)" and c: "pages < 2 ^ 32" "res_group_create c pages s = Inr (r, s')"
  shows "mem_ok (s', (case r of None \<Rightarrow> gs | Some g \<Rightarrow> (g, []) # gs), os)"
proof (cases "c \<and> pages \<le> spare s (pm_list s)")
  case True
  with pmm_reserve_ok [OF mem_okD(1) [OF m], of pages] c obtain g where
    r: "r = Some g" "g = \<lparr>rs_reserved_pages = pages, rs_used_pages = 0, rs_is_shutdown = False\<rparr>" "recounted s s'" "all_reserved s' = all_reserved s + pages"
    by (auto simp: res_group_create_def)
  have "mem_ok (s', (g, []) # gs, os)"
    by (rule mem_keep [OF m]) (use r(3,4) mem_okD(6) [OF m] c(1) in \<open>auto simp: recounted_def account_ok_def r(2)\<close>)
  with r(1) show ?thesis by simp
next
  case False
  with pmm_reserve_ok [OF mem_okD(1) [OF m], of pages] c have "r = None" "s' = s" by (auto simp: res_group_create_def split: if_splits)
  with m show ?thesis by simp
qed

lemma step_shutdown:
  assumes m: "mem_ok (s, gs1 @ (g, obs) # gs2, os)" and c: "res_group_shutdown g s = Inr (g', s')"
  shows "mem_ok (s', gs1 @ (g', obs) # gs2, os)"
proof -
  note d = mem_okD [OF m]
  have g: "rs_used_pages g \<le> rs_reserved_pages g" "rs_reserved_pages g < 2 ^ 32" "account_ok (pages_of s) (g, obs)" using d(5) by (auto simp: account_ok_def)
  let ?u = "rs_reserved_pages g - rs_used_pages g"
  have u: "size_sub (rs_reserved_pages g) (rs_used_pages g) = ?u" "size_sub (rs_reserved_pages g) ?u = rs_used_pages g" "?u mod 4294967296 = ?u" "?u \<le> all_reserved s"
    using g d(6) by (auto simp: size_sub_def)
  from pmm_unreserve_ok [OF d(1) u(4)] c have s': "recounted s s'" "all_reserved s' = all_reserved s - ?u" "g' = g\<lparr>rs_is_shutdown := True, rs_reserved_pages := rs_used_pages g\<rparr>"
    by (auto simp: res_group_shutdown_def Let_def u res_simps)
  show ?thesis
    by (rule mem_keep [OF m]) (use s' g d(6) in \<open>auto simp: recounted_def account_ok_def\<close>)
qed

lemma step_destroy:
  assumes m: "mem_ok (s, gs1 @ (g, []) # gs2, os)" and c: "res_group_destroy g s = Inr s'"
  shows "mem_ok (s', gs1 @ gs2, os)"
proof -
  note d = mem_okD [OF m]
  have g: "rs_used_pages g = 0" "rs_reserved_pages g < 2 ^ 32" using d(5) by (auto simp: account_ok_def)
  have u: "rs_reserved_pages g mod 4294967296 = rs_reserved_pages g" "rs_reserved_pages g \<le> all_reserved s" using g d(6) by auto
  from pmm_unreserve_ok [OF d(1) u(2)] c d(1) have s': "recounted s s'" "all_reserved s' = all_reserved s - rs_reserved_pages g"
    by (auto simp: res_group_destroy_def u(1) res_simps recounted_refl split: if_splits)
  show ?thesis
    by (rule mem_keep [OF m]) (use s' g d(6) in \<open>auto simp: recounted_def\<close>)
qed

lemma step_alloc_group:
  assumes m: "mem_ok (s, gs1 @ (g, obs) # gs2, os)" and sm: "small_request s fl count al" and call: "may_call t (Some g) count fl"
    and c: "pmm_alloc_from_res_group c t (Some g) count fl al s = Some (Inr (ret, r, Some g', s'))"
  shows "mem_ok (s', gs1 @ (g', add_obj r obs) # gs2, os)"
proof -
  note d = mem_okD [OF m]
  from alloc_obj_ok [OF d(1,2) sm call, of c] c
  consider ob where "r = Some ob" "obj_allocated fl count (Some g) s ob (Some g') s'" | "r = None" "g' = g" "same_pages s s'" by auto
  then show ?thesis
  proof cases
    case 1
    then have o: "length (po_page_list ob) = count" "takes fl s (po_page_list ob) s'" "po_has_group ob" "po_used_pages ob = count"
      "g' = g\<lparr>rs_used_pages := rs_used_pages g + count\<rparr>" "rs_used_pages g + count \<le> rs_reserved_pages g" by (auto simp: obj_allocated_def)
    have fr: "from_reserved fl" using call by (simp add: may_call_def)
    note t = takes_mem [OF m o(2)]
    have "\<forall>q \<in> set (obj_pages (ob # obs)). pg_reserved (pages_of s' q)" using t(5,6) fr d(5) by (auto simp: account_ok_def)
    then have "account_ok (pages_of s') (g', ob # obs)" using d(5) o by (auto simp: account_ok_def)
    moreover have "account_ok (pages_of s') x" if "x \<in> set (gs1 @ gs2)" for x
      by (rule groups_keep [OF d(5), of os]) (use t(5) that in auto)
    moreover have "claimed (gs1 @ (g', ob # obs) # gs2) \<le> all_reserved s'"
      using takes_reserved [OF d(1) o(2)] fr o d(6) by simp
    ultimately show ?thesis using t(1-4) 1(1) unfolding mem_ok_def by (auto simp: add_obj_def)
  next
    case 2
    then show ?thesis using m d(6) same_pages_reserved [OF 2(3)] by (auto simp: add_obj_def same_pages_def intro!: mem_keep [OF m])
  qed
qed

lemma step_alloc_plain:
  assumes m: "mem_ok (s, gs, os)" and sm: "small_request s fl count al" and call: "may_call t None count fl"
    and c: "pmm_alloc_from_res_group c t None count fl al s = Some (Inr (ret, r, g', s'))"
  shows "mem_ok (s', gs, add_obj r os)"
proof -
  note d = mem_okD [OF m]
  from alloc_obj_ok [OF d(1,2) sm call, of c] c
  consider ob where "r = Some ob" "takes fl s (po_page_list ob) s'" | "r = None" "same_pages s s'" by (auto simp: obj_allocated_def)
  then show ?thesis
  proof cases
    case 1
    note t = takes_mem [OF m 1(2)]
    have "account_ok (pages_of s') x" if "x \<in> set gs" for x by (rule groups_keep [OF d(5), of os]) (use t(5) that in auto)
    moreover have "claimed gs \<le> all_reserved s'" using takes_reserved [OF d(1) 1(2)] call d(6) by (simp add: may_call_def)
    moreover have "set (all_pages gs (ob # os)) = set (po_page_list ob @ all_pages gs os)" "distinct (all_pages gs (ob # os))"
      using t(3) by (auto simp: all_pages_def)
    ultimately have "mem_ok (s', gs, ob # os)" using t(1,2,4) by (intro mem_okI) simp_all
    with 1(1) show ?thesis by (simp add: add_obj_def)
  next
    case 2
    then show ?thesis using m d(6) same_pages_reserved [OF 2(2)] by (auto simp: add_obj_def same_pages_def intro!: mem_keep [OF m])
  qed
qed

lemma step_destroy_group_obj:
  assumes m: "mem_ok (s, gs1 @ (g, obs1 @ ob # obs2) # gs2, os)" and c: "pmm_vmm_obj_destroy ob (Some g) s = Inr (Some g', s')"
  shows "mem_ok (s', gs1 @ (g', obs1 @ obs2) # gs2, os)"
proof -
  note d = mem_okD [OF m]
  let ?n = "length (po_page_list ob)" and ?gs = "gs1 @ (g', obs1 @ obs2) # gs2"
  have dist: "distinct (po_page_list ob)" "set (po_page_list ob) \<inter> set (all_pages ?gs os) = {}" "distinct (all_pages ?gs os)" using d(3) by auto
  have g: "account_ok (pages_of s) (g, obs1 @ ob # obs2)" using d(5) by simp
  then have o: "po_has_group ob" "po_used_pages ob = ?n" "filter (\<lambda>q. pg_reserved (pages_of s q)) (po_page_list ob) = po_page_list ob"
    "?n \<le> rs_used_pages g" "rs_used_pages g \<le> rs_reserved_pages g" by (auto simp: account_ok_def filter_id_conv)
  have "set (po_page_list ob) \<subseteq> set (all_pages (gs1 @ (g, obs1 @ ob # obs2) # gs2) os)" by auto
  from gives_mem [OF m dist(1) this] c o have s': "pmm_ok s'" "clearable s'" "all_reserved s' = all_reserved s + ?n"
    "\<forall>q \<in> set (all_pages (gs1 @ (g, obs1 @ ob # obs2) # gs2) os) - set (po_page_list ob). real_page s' q \<and> pg_nonfree (pages_of s' q) \<and> pages_of s' q = pages_of s q"
    and g': "g' = g\<lparr>rs_used_pages := rs_used_pages g - ?n\<rparr>"
    by (auto simp: pmm_vmm_obj_destroy_def res_group_release_mem_def simp del: pages_simps all_pages_split)
  have keep: "real_page s' q \<and> pg_nonfree (pages_of s' q) \<and> pages_of s' q = pages_of s q" if "q \<in> set (all_pages ?gs os)" for q
    using that s'(4) dist(2) by auto
  have "account_ok (pages_of s) (g', obs1 @ obs2)" using g unfolding g' by (auto simp: account_ok_def)
  then have old: "\<forall>x \<in> set ?gs. account_ok (pages_of s) x" using d(5) by auto
  have "account_ok (pages_of s') x" if "x \<in> set ?gs" for x
    by (rule groups_keep [OF old, of os]) (use keep that in blast)+
  moreover have "claimed ?gs \<le> all_reserved s'" using d(6) s'(3) g' o(4,5) by auto
  ultimately show ?thesis using s'(1,2) keep dist(3) by (intro mem_okI) blast+
qed

lemma step_destroy_plain_obj:
  assumes m: "mem_ok (s, gs, os1 @ ob # os2)" and c: "pmm_vmm_obj_destroy ob None s = Inr (g', s')"
  shows "mem_ok (s', gs, os1 @ os2)"
proof -
  note d = mem_okD [OF m]
  have ap: "all_pages gs (xs @ ys) = all_pages gs xs @ obj_pages ys" for xs ys by (simp add: all_pages_def)
  have dist: "distinct (po_page_list ob)" "set (po_page_list ob) \<inter> set (all_pages gs (os1 @ os2)) = {}" "distinct (all_pages gs (os1 @ os2))"
    using d(3) by (auto simp: ap)
  have "set (po_page_list ob) \<subseteq> set (all_pages gs (os1 @ ob # os2))" by (auto simp: ap)
  from gives_mem [OF m dist(1) this] c have s': "pmm_ok s'" "clearable s'" "all_reserved s \<le> all_reserved s'"
    "\<forall>q \<in> set (all_pages gs (os1 @ ob # os2)) - set (po_page_list ob). real_page s' q \<and> pg_nonfree (pages_of s' q) \<and> pages_of s' q = pages_of s q"
    by (auto simp: pmm_vmm_obj_destroy_def simp del: pages_simps)
  have keep: "real_page s' q \<and> pg_nonfree (pages_of s' q) \<and> pages_of s' q = pages_of s q" if "q \<in> set (all_pages gs (os1 @ os2))" for q
    using that s'(4) dist(2) by (auto simp: ap)
  have "account_ok (pages_of s') x" if "x \<in> set gs" for x
    by (rule groups_keep [OF d(5), of "os1 @ os2"]) (use keep that in blast)+
  moreover have "claimed gs \<le> all_reserved s'" using d(6) s'(3) by linarith
  ultimately show ?thesis using s'(1,2) keep dist(3) by (intro mem_okI) blast+
qed

theorem mem_step_ok: "mem_step m m' \<Longrightarrow> mem_ok m \<Longrightarrow> mem_ok m'"
  by (induction rule: mem_step.induct)
    (rule step_create step_alloc_group step_alloc_plain step_destroy_group_obj step_destroy_plain_obj step_shutdown step_destroy; assumption)+

theorem mem_reach_ok: "mem_step\<^sup>*\<^sup>* m m' \<Longrightarrow> mem_ok m \<Longrightarrow> mem_ok m'"
  by (induction rule: rtranclp_induct) (auto intro: mem_step_ok)

lemma mem_start: "pmm_ok s \<Longrightarrow> clearable s \<Longrightarrow> mem_ok (s, [], [])"
  by (simp add: mem_ok_def)

section \<open>What a group may still take is there\<close>

lemma total_available_reserved: "from_reserved fl \<Longrightarrow> fl AND PMM_ALLOC_FLAG_KMAP = 0 \<Longrightarrow> total_available fl s ps = reserved s ps"
  by (simp add: total_available_def reserved_def arena_eligible_def available_def)

lemma group_can_take:
  assumes m: "mem_ok (s, gs1 @ (g, obs) # gs2, os)" and g: "\<not> rs_is_shutdown g" "rs_used_pages g + count \<le> rs_reserved_pages g" "0 < count"
    and fl: "from_reserved fl" "fl AND PMM_ALLOC_FLAG_KMAP = 0" "\<not> contiguous fl" "fl AND PMM_ALLOC_FLAG_ALLOW_TAGGED = 0"
  shows "\<exists>ob s'. pmm_alloc_from_res_group True t (Some g) count fl 0 s =
      Some (Inr (NO_ERROR, Some ob, Some (g\<lparr>rs_used_pages := rs_used_pages g + count\<rparr>), s')) \<and>
    length (po_page_list ob) = count \<and> takes fl s (po_page_list ob) s'"
proof -
  note d = mem_okD [OF m]
  have r: "rs_reserved_pages g < 2 ^ 32" using d(5) by (auto simp: account_ok_def)
  have "res_group_take_mem g count = (NO_ERROR, g\<lparr>rs_used_pages := rs_used_pages g + count\<rparr>)"
    using g r by (simp add: res_group_take_mem_def check_take_def add_overflow_def Let_def)
  moreover have "count \<le> total_available fl s (pm_list s)"
    using d(6) g(2) by (simp add: total_available_reserved [OF fl(1,2)])
  with pmm_alloc_pages_ok [OF d(1) d(2) fl(3), of count] obtain qs s' where
    "pmm_alloc_pages_locked count fl 0 s = Some (Inr (NO_ERROR, qs, qs, s'))" "length qs = count" "takes fl s qs s'" by auto
  ultimately show ?thesis using g(3) fl by (simp add: pmm_alloc_from_res_group_def pmm_alloc_obj_def Let_def)
qed

lemma group_create_truncates:
  assumes "pmm_ok s" "pages mod 2 ^ 32 \<le> spare s (pm_list s)"
  shows "\<exists>g s'. res_group_create True pages s = Inr (Some g, s') \<and> rs_reserved_pages g = pages \<and> all_reserved s' = all_reserved s + pages mod 2 ^ 32"
  using pmm_reserve_ok [OF assms(1), of "pages mod 2 ^ 32"] assms(2) by (auto simp: res_group_create_def)

end
