(* ===== verification/Pmm_Boot.thy ===== *)
theory Pmm_Boot
  imports Pmm_Alloc
begin

text \<open>
  Arenas at start-up: an arena that is added has all its pages free and stands in the list by its priority; the invariant
  of the allocator is kept.
\<close>

section \<open>Adding an arena\<close>

lemma init_pages_ok:
  assumes "m \<le> n" "ar_free_list a = filter P [0..<n - m]" "ar_free_count a = length (ar_free_list a)"
    "ar_pages a = (\<lambda>i. \<lparr>pg_nonfree = i < n - m \<and> \<not> P i, pg_reserved = False\<rparr>)" "P = (\<lambda>i. rs \<le> i \<and> i < n - re)"
  shows "ar_free_list (init_pages n rs re m a) = filter P [0..<n] \<and> ar_free_count (init_pages n rs re m a) = length (filter P [0..<n]) \<and>
    ar_pages (init_pages n rs re m a) = (\<lambda>i. \<lparr>pg_nonfree = i < n \<and> \<not> P i, pg_reserved = False\<rparr>) \<and>
    ar_reserved_count (init_pages n rs re m a) = ar_reserved_count a \<and> ar_size (init_pages n rs re m a) = ar_size a \<and>
    ar_priority (init_pages n rs re m a) = ar_priority a"
  using assms
proof (induction m arbitrary: a)
  case (Suc m)
  let ?i = "n - Suc m"
  have i: "n - m = Suc ?i" using Suc.prems(1) by simp
  define b where "b = (if ?i < rs \<or> ?i \<ge> n - re then set_page ?i (\<lambda>p. p\<lparr>pg_nonfree := True\<rparr>) a
         else a\<lparr>ar_free_list := ar_free_list a @ [?i], ar_free_count := ar_free_count a + 1\<rparr>)"
  have step: "init_pages n rs re (Suc m) a = init_pages n rs re m b" by (simp add: Let_def b_def)
  have P: "P ?i \<longleftrightarrow> \<not> (?i < rs \<or> ?i \<ge> n - re)" using Suc.prems(5) by auto
  have b: "ar_free_list b = filter P [0..<n - m]" "ar_free_count b = length (ar_free_list b)"
    "ar_reserved_count b = ar_reserved_count a" "ar_size b = ar_size a" "ar_priority b = ar_priority a"
    unfolding i b_def using Suc.prems(2,3) P by (auto simp: set_page_def)
  have pg: "ar_pages b = (\<lambda>i. \<lparr>pg_nonfree = i < n - m \<and> \<not> P i, pg_reserved = False\<rparr>)"
    unfolding i b_def using Suc.prems(4) P by (auto simp: fun_eq_iff less_Suc_eq)
  have "m \<le> n" using Suc.prems(1) by simp
  from Suc.IH [OF this b(1,2) pg Suc.prems(5)] show ?case unfolding step b(3-5) .
qed simp

lemma insert_by_priority_set: "set (insert_by_priority s a ps) = insert a (set ps)"
  by (induction ps) auto

lemma insert_by_priority_distinct: "distinct ps \<Longrightarrow> a \<notin> set ps \<Longrightarrow> distinct (insert_by_priority s a ps)"
  by (induction ps) (auto simp: insert_by_priority_set)

lemma insert_by_priority_sorted: "sorted (map (\<lambda>p. ar_priority (pm_arenas s p)) ps) \<Longrightarrow>
  sorted (map (\<lambda>p. ar_priority (pm_arenas s p)) (insert_by_priority s a ps))"
proof (induction ps)
  case (Cons b ps)
  let ?pr = "\<lambda>p. ar_priority (pm_arenas s p)"
  have b: "sorted (map ?pr ps)" "\<forall>x \<in> set ps. ?pr b \<le> ?pr x" using Cons.prems by simp_all
  show ?case
  proof (cases "?pr b > ?pr a")
    case True
    with b show ?thesis by fastforce
  next
    case False
    then show ?thesis using b Cons.IH by (simp add: insert_by_priority_set)
  qed
qed simp

lemma pmm_add_arena_ok:
  assumes ok: "pmm_ok s" and new: "p \<notin> set (pm_list s)" and al: "PAGE_SIZE dvd ar_base (pm_arenas s p)" "PAGE_SIZE dvd ar_size (pm_arenas s p)"
    and sz: "0 < ar_size (pm_arenas s p)" and kva: "ar_flags (pm_arenas s p) AND PMM_ARENA_FLAG_KMAP \<noteq> 0 \<longrightarrow> paddr_to_kvaddr s (ar_base (pm_arenas s p)) \<noteq> 0"
    and srt: "sorted (map (\<lambda>p. ar_priority (pm_arenas s p)) (pm_list s))"
  shows "\<exists>s'. pmm_add_arena p s = Inr (NO_ERROR, s') \<and> pmm_ok s' \<and> set (pm_list s') = insert p (set (pm_list s)) \<and>
    sorted (map (\<lambda>p. ar_priority (pm_arenas s' p)) (pm_list s')) \<and> (\<forall>x. x \<noteq> p \<longrightarrow> pm_arenas s' x = pm_arenas s x) \<and>
    (\<forall>i < ar_count (pm_arenas s p). \<not> pg_nonfree (pages_of s' (p, i))) \<and> ar_free_count (pm_arenas s' p) = ar_count (pm_arenas s p)"
proof -
  let ?a = "pm_arenas s p"
  define n where "n = ar_count ?a"
  define kv where "kv = (if ar_flags ?a AND PMM_ARENA_FLAG_KMAP \<noteq> 0 then paddr_to_kvaddr s (ar_base ?a) else 0)"
  define a1 where "a1 = (reset_arena ?a)\<lparr>ar_kvaddr := kv, ar_pages := (\<lambda>_. \<lparr>pg_nonfree = False, pg_reserved = False\<rparr>)\<rparr>"
  define a2 where "a2 = init_pages n 0 0 n a1"
  define s1 where "s1 = s\<lparr>pm_arenas := (pm_arenas s)(p := a2)\<rparr>"
  have "0 < n" using al(2) sz by (auto simp: n_def elim!: dvdE)
  then have "init_page_array p n 0 0 (upd_arena p (\<lambda>a. (reset_arena a)\<lparr>ar_kvaddr := kv\<rparr>) s) = Inr s1"
    by (simp add: init_page_array_def upd_arena_def s1_def a2_def a1_def reset_arena_def)
  then have run: "pmm_add_arena p s = Inr (NO_ERROR, insert_arena p s1)"
    using al sz kva unfolding pmm_add_arena_def Let_def n_def [symmetric] kv_def [symmetric] by (simp add: page_dvd kv_def)
  have i: "ar_free_list a2 = [0..<n] \<and> ar_free_count a2 = n \<and> ar_pages a2 = (\<lambda>i. \<lparr>pg_nonfree = False, pg_reserved = False\<rparr>) \<and>
      ar_reserved_count a2 = 0 \<and> ar_size a2 = ar_size ?a \<and> ar_priority a2 = ar_priority ?a"
    using init_pages_ok [of n n a1 "\<lambda>i. 0 \<le> i \<and> i < n - 0" 0 0] by (auto simp: a2_def a1_def reset_arena_def fun_eq_iff cong: filter_cong)
  have "arena_ok a2" using i by (auto simp: arena_ok_def n_def)
  moreover have "pm_list (insert_arena p s1) = insert_by_priority s1 p (pm_list s)" by (simp add: insert_arena_def s1_def)
  moreover have "sorted (map (\<lambda>p. ar_priority (pm_arenas s1 p)) (pm_list s))"
  proof -
    have "map (\<lambda>p. ar_priority (pm_arenas s1 p)) (pm_list s) = map (\<lambda>p. ar_priority (pm_arenas s p)) (pm_list s)"
      using new by (auto simp: s1_def)
    with srt show ?thesis by (simp only:)
  qed
  ultimately show ?thesis using run ok new i insert_by_priority_sorted [of s1 "pm_list s" p] insert_by_priority_distinct [of "pm_list s" p s1]
    by (intro exI [of _ "insert_arena p s1"]) (auto simp: pmm_ok_def insert_by_priority_set insert_arena_def s1_def pages_of_def n_def)
qed

end
