(* ===== verification/Example_Pmm.thy ===== *)
theory Example_Pmm
  imports Pmm_System Pmm_Boot
begin

text \<open>
  Two arenas of four pages each, at the addresses 1 and 2, to which the theorems on the page allocator are applied. Two of the
  pages of the first arena are reserved.
\<close>

definition ex_page :: vm_page where
  "ex_page = \<lparr>pg_nonfree = False, pg_reserved = False\<rparr>"

definition ex_arena :: "nat \<Rightarrow> paddr \<Rightarrow> nat \<Rightarrow> pmm_arena" where
  "ex_arena prio b rsv = \<lparr>ar_flags = PMM_ARENA_FLAG_KMAP, ar_priority = prio, ar_base = b, ar_kvaddr = 0, ar_size = 0x4000, ar_free_count = 4, ar_reserved_count = rsv,
     ar_pages = (\<lambda>_. ex_page), ar_free_list = [0, 1, 2, 3]\<rparr>"

definition ex_pmm :: pmm where
  "ex_pmm = \<lparr>pm_list = [1, 2], pm_arenas = (\<lambda>p. if p = 1 then ex_arena 0 0x100000 2 else ex_arena 1 0x200000 0),
     pm_mappings = [\<lparr>im_phys = 0, im_virt = 0x40000000, im_size = 0x1000000, im_temporary = False\<rparr>], pm_cleared = []\<rparr>"

text \<open>The same before the first arena has been added.\<close>

definition ex_pmm0 :: pmm where
  "ex_pmm0 = ex_pmm\<lparr>pm_list := [2]\<rparr>"

lemma ex_arena_ok: "rsv \<le> 4 \<Longrightarrow> arena_ok (ex_arena prio b rsv)"
  by (auto simp: arena_ok_def ex_arena_def ex_page_def)

lemma ex_pmm_ok: "pmm_ok ex_pmm" "pmm_ok ex_pmm0"
  by (simp_all add: pmm_ok_def ex_pmm_def ex_pmm0_def ex_arena_ok)

lemma ex_real: "real_page ex_pmm q \<longleftrightarrow> (fst q = 1 \<or> fst q = 2) \<and> snd q < 4"
  by (auto simp: real_page_def ex_pmm_def ex_arena_def)

lemma ex_clearable: "clearable ex_pmm"
  unfolding clearable_def ex_real
proof (intro allI impI)
  fix q :: page
  assume q: "(fst q = 1 \<or> fst q = 2) \<and> snd q < 4"
  have "vm_page_to_paddr ex_pmm q = (if fst q = 1 then 0x100000 else 0x200000) + snd q * 4096"
    using q by (auto simp: vm_page_to_paddr_def page_belongs_to_arena_def ex_pmm_def ex_arena_def add64_def)
  moreover have "paddr_to_kvaddr ex_pmm pa = 0x40000000 + pa" if "pa < 0x1000000" for pa
    using that by (simp add: paddr_to_kvaddr_def ex_pmm_def add64_def size_sub_def)
  ultimately show "vm_page_to_paddr ex_pmm q \<noteq> 2 ^ 64 - 1 \<and> paddr_to_kvaddr ex_pmm (vm_page_to_paddr ex_pmm q) \<noteq> 0"
    using q by auto
qed

lemma ex_bounded: "0 < count \<Longrightarrow> count < 1000 \<Longrightarrow> runs_bounded ex_pmm count 12"
  by (auto simp: runs_bounded_def run_bounds_def ex_pmm_def ex_arena_def)

lemma ex_run: "n \<le> 4 \<Longrightarrow> can_run 3 12 n (pm_arenas ex_pmm p)"
  unfolding can_run_def aligned_run_def free_run_def
  by (auto simp: arena_eligible_def ex_pmm_def ex_arena_def ex_page_def intro!: exI [of _ 0])

lemma ex_counts: "available 3 (pm_arenas ex_pmm 1) = 2" "available 3 (pm_arenas ex_pmm 2) = 4" "spare ex_pmm (pm_list ex_pmm) = 6" "all_reserved ex_pmm = 2"
  "total_available 0 ex_pmm (pm_list ex_pmm) = 6"
  by (simp_all add: available_def total_available_def arena_eligible_def ex_pmm_def ex_arena_def)

end
