(* ===== verification/Asid.thy ===== *)
theory Asid
  imports Vmm_Region
begin

text \<open>
  Address space identifiers (\<^verbatim>\<open>kernel/vm/asid.c\<close>). The hardware tags the entries of its translation caches with the low bits of
  a 64-bit number that is never used twice; the upper bits are the version. When the low bits run out a new version begins, in
  which numbers whose low bits are still in use on some cpu are skipped, and each cpu flushes its cache when it first uses
  a number of another version. Everything here runs under the thread lock.
\<close>

type_synonym uint64 = "64 word"

section \<open>The code\<close>

record asids =
  last_asid :: uint64
  old_asid_active :: bool
  active_aspace :: "nat \<Rightarrow> addr"
  active_asid_version :: "nat \<Rightarrow> uint64"
  aspace_asid :: "addr \<Rightarrow> uint64"

definition BIT_MASK :: "nat \<Rightarrow> uint64" where
  "BIT_MASK x = (if x \<ge> 64 then 0 - 1 else push_bit x 1 - 1)"

definition vmm_asid_current :: "asids \<Rightarrow> addr \<Rightarrow> uint64 \<Rightarrow> uint64 \<Rightarrow> bool" where
  "vmm_asid_current s aspace ref asid_mask =
     (if aspace = 0 then True
      else if aspace_asid s aspace = 0 then False
      else if (aspace_asid s aspace XOR ref) AND NOT asid_mask \<noteq> 0 then False
      else True)"

definition new_asid :: "addr \<Rightarrow> asids \<Rightarrow> asids" where
  "new_asid aspace s = s\<lparr>last_asid := last_asid s + 1, aspace_asid := (aspace_asid s)(aspace := last_asid s + 1)\<rparr>"

text \<open>The loop that looks for conflicts, from the cpu \<open>i\<close> on; \<open>n\<close> is \<^verbatim>\<open>SMP_MAX_CPUS\<close>.\<close>

partial_function (option) asid_scan :: "nat \<Rightarrow> uint64 \<Rightarrow> addr \<Rightarrow> nat \<Rightarrow> asids \<Rightarrow> asids option" where
  "asid_scan n asid_mask aspace i s =
     (if i < n then
        if \<not> vmm_asid_current s (active_aspace s i) (last_asid s) asid_mask then
          if (aspace_asid s (active_aspace s i) XOR last_asid s) AND asid_mask = 0
          then asid_scan n asid_mask aspace 0 (new_asid aspace (s\<lparr>old_asid_active := True\<rparr>))
          else asid_scan n asid_mask aspace (i + 1) (s\<lparr>old_asid_active := True\<rparr>)
        else asid_scan n asid_mask aspace (i + 1) s
      else Some s)"

definition vmm_asid_allocate :: "nat \<Rightarrow> addr \<Rightarrow> nat \<Rightarrow> uint64 \<Rightarrow> asids \<Rightarrow> asids option" where
  "vmm_asid_allocate n aspace cpu asid_mask s0 =
     (let s = s0\<lparr>active_aspace := (active_aspace s0)(cpu := aspace)\<rparr>
      in if vmm_asid_current s aspace (last_asid s) asid_mask then Some s
         else if old_asid_active s \<and> list_ex (\<lambda>i. i \<noteq> cpu \<and> active_aspace s i = aspace) [0..<n] then Some s
         else let s1 = new_asid aspace s; s2 = (if last_asid s1 AND asid_mask = 0 then s1\<lparr>old_asid_active := True\<rparr> else s1)
           in if old_asid_active s2 then asid_scan n asid_mask aspace 0 (s2\<lparr>old_asid_active := False\<rparr>) else Some s2)"

text \<open>The result tells whether the translation cache of the cpu has to be flushed.\<close>

definition vmm_asid_activate :: "nat \<Rightarrow> addr \<Rightarrow> nat \<Rightarrow> nat \<Rightarrow> asids \<Rightarrow> (bool \<times> asids) res option" where
  "vmm_asid_activate n aspace asid_bits cpu s =
     (let asid_mask = BIT_MASK asid_bits
      in case vmm_asid_allocate n aspace cpu asid_mask s of
           None \<Rightarrow> None
         | Some s1 \<Rightarrow>
             if vmm_asid_current s1 aspace (active_asid_version s1 cpu) asid_mask then Some (Inr (False, s1))
             else Some (guardE ''aspace'' (aspace \<noteq> 0)
               (Inr (True, s1\<lparr>active_asid_version := (active_asid_version s1)(cpu := aspace_asid s1 aspace AND NOT asid_mask)\<rparr>))))"

section \<open>Versions and hardware numbers\<close>

abbreviation asid_version :: "nat \<Rightarrow> uint64 \<Rightarrow> uint64" where "asid_version b x \<equiv> drop_bit b x"
abbreviation hw_asid :: "nat \<Rightarrow> uint64 \<Rightarrow> uint64" where "hw_asid b x \<equiv> take_bit b x"

lemma BIT_MASK_eq: "BIT_MASK b = mask b"
proof (cases "64 \<le> b")
  case True
  then have "mask b = (- 1 :: uint64)" by (intro bit_word_eqI) (simp add: bit_simps)
  with True show ?thesis by (simp add: BIT_MASK_def)
qed (simp add: BIT_MASK_def mask_eq_decr_exp push_bit_eq_mult)

lemma hw_eq: "(x XOR y) AND mask b = 0 \<longleftrightarrow> hw_asid b x = hw_asid b y" for x y :: uint64
  by (auto simp: bit_eq_iff bit_simps)

lemma version_eq: "(x XOR y) AND NOT (mask b) = 0 \<longleftrightarrow> asid_version b x = asid_version b y" for x y :: uint64
proof
  assume "(x XOR y) AND NOT (mask b) = 0"
  then have e: "bit x n = bit y n" if "n < 64" "b \<le> n" for n using that by (auto simp: bit_eq_iff bit_simps)
  show "asid_version b x = asid_version b y"
  proof (rule bit_word_eqI)
    fix n assume "n < LENGTH(64)"
    show "bit (asid_version b x) n = bit (asid_version b y) n"
      using e [of "b + n"] bit_imp_le_length [of x "b + n"] bit_imp_le_length [of y "b + n"] by (auto simp: bit_simps)
  qed
next
  assume v: "asid_version b x = asid_version b y"
  have "bit x n = bit y n" if "b \<le> n" for n
  proof -
    have "bit (asid_version b x) (n - b) = bit (asid_version b y) (n - b)" by (simp only: v)
    with that show ?thesis by (simp add: bit_simps)
  qed
  then show "(x XOR y) AND NOT (mask b) = 0" by (auto simp: bit_eq_iff bit_simps)
qed

lemma asid_ident: "asid_version b x = asid_version b y \<Longrightarrow> hw_asid b x = hw_asid b y \<Longrightarrow> x = y" for x y :: uint64
  by (metis bits_ident)

lemma current_iff: "vmm_asid_current s x r (mask b) \<longleftrightarrow> x = 0 \<or> aspace_asid s x \<noteq> 0 \<and> asid_version b (aspace_asid s x) = asid_version b r"
  by (auto simp: vmm_asid_current_def version_eq)

end
