(* ===== verification/Asid_Safe.thy ===== *)
theory Asid_Safe
  imports Asid
begin

text \<open>
  The search for a number ends, and no two address spaces that are active at the same time share a hardware number. With the
  contents of the translation caches beside the state, no entry is ever used for another address space than the one it was made for.
\<close>

section \<open>The search for conflicts\<close>

definition other_cpus :: "nat \<Rightarrow> addr \<Rightarrow> asids \<Rightarrow> nat set" where
  "other_cpus n x s = {c. c < n \<and> active_aspace s c \<noteq> 0 \<and> active_aspace s c \<noteq> x}"

abbreviation asid_on :: "asids \<Rightarrow> nat \<Rightarrow> uint64" where "asid_on s c \<equiv> aspace_asid s (active_aspace s c)"

definition hw_unused :: "nat \<Rightarrow> nat \<Rightarrow> addr \<Rightarrow> asids \<Rightarrow> uint64 \<Rightarrow> bool" where
  "hw_unused b n x s a \<longleftrightarrow> (\<forall>c \<in> other_cpus n x s. hw_asid b (asid_on s c) \<noteq> hw_asid b a)"

text \<open>What has been found about the cpus below \<open>i\<close>.\<close>

definition asid_scanned :: "nat \<Rightarrow> nat \<Rightarrow> addr \<Rightarrow> asids \<Rightarrow> bool" where
  "asid_scanned b i x s \<longleftrightarrow> (\<forall>c \<in> other_cpus i x s. asid_version b (asid_on s c) \<noteq> asid_version b (last_asid s) \<longrightarrow> hw_asid b (asid_on s c) \<noteq> hw_asid b (last_asid s)) \<and>
     (\<not> old_asid_active s \<longrightarrow> (\<forall>c \<in> other_cpus i x s. asid_version b (asid_on s c) = asid_version b (last_asid s)))"

definition asid_given :: "addr \<Rightarrow> asids \<Rightarrow> asids \<Rightarrow> bool" where
  "asid_given x s s' \<longleftrightarrow> active_aspace s' = active_aspace s \<and> active_asid_version s' = active_asid_version s \<and>
     aspace_asid s' = (aspace_asid s)(x := last_asid s')"

lemma other_cpus_Suc: "other_cpus (Suc i) x s = (if active_aspace s i \<noteq> 0 \<and> active_aspace s i \<noteq> x then insert i (other_cpus i x s) else other_cpus i x s)"
  by (auto simp: other_cpus_def less_Suc_eq)

lemma new_asid_simps [simp]:
  "last_asid (new_asid x s) = last_asid s + 1" "active_aspace (new_asid x s) = active_aspace s" "old_asid_active (new_asid x s) = old_asid_active s"
  "active_asid_version (new_asid x s) = active_asid_version s" "aspace_asid (new_asid x s) = (aspace_asid s)(x := last_asid s + 1)"
  by (simp_all add: new_asid_def)

lemma asid_scan_ok:
  assumes "x \<noteq> 0" "aspace_asid s x = last_asid s" "last_asid s \<noteq> 0" "\<forall>c \<in> other_cpus n x s. asid_on s c \<noteq> 0" "i \<le> n"
    "asid_scanned b i x s" "j \<le> k" "hw_unused b n x s (last_asid s + of_nat j)" "unat (last_asid s) + k < 2 ^ 64"
  shows "\<exists>s'. asid_scan n (mask b) x i s = Some s' \<and> asid_given x s s' \<and> asid_scanned b n x s' \<and> unat (last_asid s') \<le> unat (last_asid s) + k \<and> last_asid s \<le> last_asid s'"
  using assms
proof (induction "k * (n + 1) + (n - i)" arbitrary: s i j k rule: less_induct)
  case less
  note p = less.prems
  let ?L = "last_asid s" and ?y = "active_aspace s i"
  show ?case
  proof (cases "i < n")
    case False
    then have "asid_scan n (mask b) x i s = Some s" by (subst asid_scan.simps) simp
    moreover have "asid_given x s s" using p(2) by (simp add: asid_given_def fun_upd_idem)
    moreover have "asid_scanned b n x s" using p(5,6) False by simp
    ultimately show ?thesis by auto
  next
    case True
    show ?thesis
    proof (cases "vmm_asid_current s ?y ?L (mask b)")
      case cur: True
      then have "asid_scan n (mask b) x i s = asid_scan n (mask b) x (i + 1) s" using True by (subst asid_scan.simps) simp
      moreover have "asid_scanned b (i + 1) x s" using p(6) cur by (auto simp: asid_scanned_def other_cpus_Suc current_iff)
      moreover have "k * (n + 1) + (n - (i + 1)) < k * (n + 1) + (n - i)" using True by simp
      ultimately show ?thesis using less.hyps [of k "i + 1" s j] p True by simp
    next
      case old: False
      have y: "?y \<noteq> 0" "?y \<noteq> x" using old p(2,3) by (auto simp: current_iff)
      have i: "i \<in> other_cpus n x s" using True y by (simp add: other_cpus_def)
      have ver: "asid_version b (asid_on s i) \<noteq> asid_version b ?L" using old y p(4) i by (auto simp: current_iff)
      let ?s = "s\<lparr>old_asid_active := True\<rparr>"
      show ?thesis
      proof (cases "hw_asid b (asid_on s i) = hw_asid b ?L")
        case False
        then have "asid_scan n (mask b) x i s = asid_scan n (mask b) x (i + 1) ?s" using True old by (subst asid_scan.simps) (simp add: hw_eq)
        moreover have "asid_scanned b (i + 1) x ?s" using p(6) False ver by (auto simp: asid_scanned_def other_cpus_def less_Suc_eq)
        moreover have "k * (n + 1) + (n - (i + 1)) < k * (n + 1) + (n - i)" using True by simp
        ultimately show ?thesis using less.hyps [of k "i + 1" ?s j] p True by (simp add: other_cpus_def hw_unused_def asid_given_def)
      next
        case conflict: True
        then have run: "asid_scan n (mask b) x i s = asid_scan n (mask b) x 0 (new_asid x ?s)" using True old by (subst asid_scan.simps) (simp add: hw_eq)
        have "j \<noteq> 0"
        proof
          assume "j = 0"
          with p(8) conflict i show False by (auto simp: hw_unused_def)
        qed
        then obtain j' k' where jk: "j = Suc j'" "k = Suc k'" using p(7) by (cases j; cases k) auto
        let ?s1 = "new_asid x ?s"
        have L1: "unat (?L + 1) = unat ?L + 1" using p(9) jk by (simp add: unat_word_ariths)
        have nz: "?L + 1 \<noteq> 0" using L1 by (metis add_is_0 one_neq_zero unat_0)
        have on: "asid_on ?s1 c = asid_on s c" if "c \<in> other_cpus n x s" for c using that by (simp add: other_cpus_def)
        have oth: "other_cpus m x ?s1 = other_cpus m x s" for m by (simp add: other_cpus_def)
        have "hw_unused b n x ?s1 (?L + 1 + of_nat j')" using p(8) on unfolding hw_unused_def oth jk by (simp add: ac_simps)
        moreover have "k' * (n + 1) + (n - 0) < k * (n + 1) + (n - i)" using True jk by simp
        moreover have "asid_scanned b 0 x ?s1" by (simp add: asid_scanned_def other_cpus_def)
        ultimately obtain s' where s': "asid_scan n (mask b) x 0 ?s1 = Some s'" "asid_given x ?s1 s'" "asid_scanned b n x s'"
          "unat (last_asid s') \<le> unat (?L + 1) + k'" "?L + 1 \<le> last_asid s'"
          using less.hyps [of k' 0 ?s1 j'] p(1,4,7,9) L1 nz on oth jk by auto
        have "?L \<le> last_asid s'" using s'(5) L1 by (simp add: word_le_nat_alt)
        with s' run L1 jk show ?thesis by (auto simp: asid_given_def)
      qed
    qed
  qed
qed

text \<open>Among more consecutive numbers than there are cpus there is one whose low bits nobody uses.\<close>

lemma some_unused:
  assumes n: "n < 2 ^ b" "b \<le> 64" and L: "unat L + n < 2 ^ 64"
  shows "\<exists>j \<le> n. hw_unused b n x s (L + of_nat j)"
proof (rule ccontr)
  assume no: "\<not> ?thesis"
  let ?f = "\<lambda>j. unat (hw_asid b (L + of_nat j))"
  have f: "?f j = (unat L + j) mod 2 ^ b" if "j \<le> n" for j
  proof -
    have "j < 2 ^ 64" using that L by simp
    then have "unat (L + of_nat j) = unat L + j" using that L by (simp add: unat_word_ariths unat_of_nat)
    moreover have "?f j = take_bit b (unat (L + of_nat j))" by (rule unsigned_take_bit_eq)
    ultimately show ?thesis by (simp only: take_bit_eq_mod)
  qed
  have lt: "\<not> j < k" if "j \<le> n" "k \<le> n" "?f j = ?f k" for j k
  proof
    assume "j < k"
    have "(unat L + k) mod 2 ^ b = (unat L + j) mod 2 ^ b" using that f by metis
    then have "2 ^ b dvd unat L + k - (unat L + j)" using \<open>j < k\<close> by (simp add: mod_eq_dvd_iff_nat)
    then have "2 ^ b \<le> k - j" using \<open>j < k\<close> by (intro dvd_imp_le) auto
    then show False using that(2) n(1) by linarith
  qed
  have "inj_on ?f {0..n}"
  proof (rule inj_onI)
    fix j k assume jk: "j \<in> {0..n}" "k \<in> {0..n}" "?f j = ?f k"
    then show "j = k" using lt [of j k] lt [of k j] by (simp only: atLeastAtMost_iff) (metis linorder_neqE_nat)
  qed
  then have "card (?f ` {0..n}) = n + 1" by (simp add: card_image)
  moreover have "?f ` {0..n} \<subseteq> (\<lambda>c. unat (hw_asid b (asid_on s c))) ` {0..<n}"
  proof
    fix v assume "v \<in> ?f ` {0..n}"
    then obtain j where j: "j \<le> n" "v = ?f j" by auto
    with no obtain c where "c \<in> other_cpus n x s" "hw_asid b (asid_on s c) = hw_asid b (L + of_nat j)" by (auto simp: hw_unused_def)
    with j(2) show "v \<in> (\<lambda>c. unat (hw_asid b (asid_on s c))) ` {0..<n}" by (auto simp: other_cpus_def intro!: image_eqI [of _ _ c])
  qed
  then have "card (?f ` {0..n}) \<le> card ((\<lambda>c. unat (hw_asid b (asid_on s c))) ` {0..<n})" by (intro card_mono) auto
  moreover have "\<dots> \<le> n" using card_image_le [of "{0..<n}"] by simp
  ultimately show False by simp
qed

section \<open>The invariant\<close>

definition asid_inv :: "nat \<Rightarrow> nat \<Rightarrow> asids \<Rightarrow> bool" where
  "asid_inv b n s \<longleftrightarrow> (\<forall>x. aspace_asid s x \<le> last_asid s) \<and> (\<forall>x y. aspace_asid s x \<noteq> 0 \<longrightarrow> aspace_asid s x = aspace_asid s y \<longrightarrow> x = y) \<and>
     (\<forall>c < n. active_aspace s c \<noteq> 0 \<longrightarrow> asid_on s c \<noteq> 0) \<and>
     (\<not> old_asid_active s \<longrightarrow> (\<forall>c < n. active_aspace s c \<noteq> 0 \<longrightarrow> asid_version b (asid_on s c) = asid_version b (last_asid s))) \<and>
     (\<forall>x. \<forall>c \<in> other_cpus n x s. aspace_asid s x \<noteq> 0 \<longrightarrow> asid_version b (aspace_asid s x) = asid_version b (last_asid s) \<longrightarrow>
        hw_asid b (aspace_asid s x) \<noteq> hw_asid b (asid_on s c)) \<and>
     (\<forall>c < n. \<forall>d \<in> other_cpus n (active_aspace s c) s. active_aspace s c \<noteq> 0 \<longrightarrow> hw_asid b (asid_on s c) \<noteq> hw_asid b (asid_on s d))"

lemma asid_invD:
  assumes "asid_inv b n s"
  shows "\<And>x. aspace_asid s x \<le> last_asid s" "\<And>x y. aspace_asid s x \<noteq> 0 \<Longrightarrow> aspace_asid s x = aspace_asid s y \<Longrightarrow> x = y"
    "\<And>c. c < n \<Longrightarrow> active_aspace s c \<noteq> 0 \<Longrightarrow> asid_on s c \<noteq> 0"
    "\<And>c. \<not> old_asid_active s \<Longrightarrow> c < n \<Longrightarrow> active_aspace s c \<noteq> 0 \<Longrightarrow> asid_version b (asid_on s c) = asid_version b (last_asid s)"
    "\<And>x c. c \<in> other_cpus n x s \<Longrightarrow> aspace_asid s x \<noteq> 0 \<Longrightarrow> asid_version b (aspace_asid s x) = asid_version b (last_asid s) \<Longrightarrow>
        hw_asid b (aspace_asid s x) \<noteq> hw_asid b (asid_on s c)"
    "\<And>c d. c < n \<Longrightarrow> d \<in> other_cpus n (active_aspace s c) s \<Longrightarrow> active_aspace s c \<noteq> 0 \<Longrightarrow> hw_asid b (asid_on s c) \<noteq> hw_asid b (asid_on s d)"
  using assms unfolding asid_inv_def by blast+

lemma version_nat: "unat (asid_version b x) = unat x div 2 ^ b" for x :: uint64
proof -
  have "unat (asid_version b x) = drop_bit b (unat x)" by (rule unat_drop_bit_eq)
  then show ?thesis by (simp only: drop_bit_eq_div)
qed

lemma version_between:
  assumes "x \<le> y" "y \<le> z" "asid_version b x = asid_version b z"
  shows "asid_version b y = asid_version b z"
proof -
  have "unat (asid_version b x) \<le> unat (asid_version b y)" "unat (asid_version b y) \<le> unat (asid_version b z)"
    using assms(1,2) by (simp_all only: version_nat word_le_nat_alt div_le_mono)
  with assms(3) show ?thesis by (metis le_antisym word_unat_eq_iff)
qed

lemma version_next:
  assumes "unat L + 1 < 2 ^ 64" "(L + 1) AND mask b \<noteq> 0"
  shows "asid_version b (L + 1) = asid_version b (L :: uint64)"
proof -
  have u: "unat (L + 1) = unat L + 1" using assms(1) by (simp add: unat_word_ariths)
  have "take_bit b (L + 1) \<noteq> 0" using assms(2) by (simp add: take_bit_eq_mask)
  then have "take_bit b (unat (L + 1)) \<noteq> 0" by (metis unat_eq_zero unsigned_take_bit_eq)
  then have "Suc (unat L) mod 2 ^ b \<noteq> 0" using u by (simp add: take_bit_eq_mod)
  then have "unat (L + 1) div 2 ^ b = unat L div 2 ^ b" unfolding u by (simp add: div_Suc)
  then show ?thesis by (metis version_nat word_unat_eq_iff)
qed

lemma inv_current:
  assumes i: "asid_inv b n s" and x: "x = 0 \<or> aspace_asid s x \<noteq> 0 \<and> asid_version b (aspace_asid s x) = asid_version b (last_asid s)"
  shows "asid_inv b n (s\<lparr>active_aspace := (active_aspace s)(cpu := x)\<rparr>)"
proof -
  note d = asid_invD [OF i]
  let ?s = "s\<lparr>active_aspace := (active_aspace s)(cpu := x)\<rparr>"
  have five: "hw_asid b (aspace_asid s y) \<noteq> hw_asid b (asid_on ?s c)"
    if c: "c \<in> other_cpus n y ?s" "aspace_asid s y \<noteq> 0" "asid_version b (aspace_asid s y) = asid_version b (last_asid s)" for y c
  proof (cases "c = cpu")
    case True
    then have "x \<noteq> 0" "x \<noteq> y" using c(1) by (auto simp: other_cpus_def)
    then show ?thesis using x c(2,3) True asid_ident [of b "aspace_asid s y" "aspace_asid s x"] d(2) [of y x] by auto
  next
    case False
    then have "c \<in> other_cpus n y s" using c(1) by (simp add: other_cpus_def)
    then show ?thesis using d(5) c(2,3) False by simp
  qed
  have six: "hw_asid b (asid_on ?s c) \<noteq> hw_asid b (asid_on ?s e)"
    if c: "c < n" "e \<in> other_cpus n (active_aspace ?s c) ?s" "active_aspace ?s c \<noteq> 0" for c e
  proof -
    have sym: "c \<in> other_cpus n (active_aspace ?s e) ?s" using c by (auto simp: other_cpus_def)
    consider "c = cpu" | "e = cpu" "c \<noteq> cpu" | "c \<noteq> cpu" "e \<noteq> cpu" by blast
    then show ?thesis
    proof cases
      case 1
      then show ?thesis using five [of e x] c x by (auto simp: other_cpus_def)
    next
      case 2
      then show ?thesis using five [of c x] sym c x by (auto simp: other_cpus_def)
    next
      case 3
      then show ?thesis using d(6) [of c e] c by (auto simp: other_cpus_def)
    qed
  qed
  show ?thesis unfolding asid_inv_def using d x five six by (auto split: if_splits)
qed

lemma inv_elsewhere:
  assumes i: "asid_inv b n s" and c0: "c0 < n" "c0 \<noteq> cpu" "active_aspace s c0 = x"
  shows "asid_inv b n (s\<lparr>active_aspace := (active_aspace s)(cpu := x)\<rparr>)"
proof -
  note d = asid_invD [OF i]
  let ?s = "s\<lparr>active_aspace := (active_aspace s)(cpu := x)\<rparr>"
  define g where "g c = (if c = cpu then c0 else c)" for c
  have g: "active_aspace ?s c = active_aspace s (g c)" "c < n \<Longrightarrow> g c < n" for c using c0 by (auto simp: g_def)
  have o: "g c \<in> other_cpus n y s" if "c \<in> other_cpus n y ?s" for c y using that g [of c] by (auto simp: other_cpus_def)
  show ?thesis unfolding asid_inv_def
  proof (intro conjI allI ballI impI)
    show "hw_asid b (asid_on ?s c) \<noteq> hw_asid b (asid_on ?s e)"
      if "c < n" "e \<in> other_cpus n (active_aspace ?s c) ?s" "active_aspace ?s c \<noteq> 0" for c e
      using d(6) [of "g c" "g e"] o [OF that(2)] that g by simp
    show "hw_asid b (aspace_asid ?s y) \<noteq> hw_asid b (asid_on ?s c)"
      if "c \<in> other_cpus n y ?s" "aspace_asid ?s y \<noteq> 0" "asid_version b (aspace_asid ?s y) = asid_version b (last_asid ?s)" for y c
      using d(5) [OF o [OF that(1)]] that g by simp
    show "asid_on ?s c \<noteq> 0" if "c < n" "active_aspace ?s c \<noteq> 0" for c using d(3) [of "g c"] that g by simp
    show "asid_version b (asid_on ?s c) = asid_version b (last_asid ?s)" if "\<not> old_asid_active ?s" "c < n" "active_aspace ?s c \<noteq> 0" for c
      using d(4) [of "g c"] that g by simp
  qed (use d(1,2) in auto)
qed

lemma inv_given:
  assumes i: "asid_inv b n s" and x: "x \<noteq> 0" "\<forall>c < n. c \<noteq> cpu \<longrightarrow> active_aspace s c \<noteq> x" and c: "cpu < n"
    and s': "active_aspace s' = (active_aspace s)(cpu := x)" "aspace_asid s' = (aspace_asid s)(x := last_asid s')" "asid_scanned b n x s'"
    and L: "last_asid s < last_asid s'"
  shows "asid_inv b n s'"
proof -
  note d = asid_invD [OF i]
  let ?L = "last_asid s'"
  have below: "aspace_asid s y < ?L" for y using d(1) [of y] L by (rule le_less_trans)
  have L0: "?L \<noteq> 0" using L by auto
  have on: "asid_on s' e = aspace_asid s (active_aspace s e)" "active_aspace s' e = active_aspace s e" if "e \<in> other_cpus n x s'" for e
    using that s'(1,2) by (auto simp: other_cpus_def split: if_splits)
  have ox: "e \<in> other_cpus n x s' \<longleftrightarrow> e \<noteq> cpu" if "e < n" "active_aspace s' e \<noteq> 0" for e using that x s'(1) by (auto simp: other_cpus_def)
  have fresh: "hw_asid b ?L \<noteq> hw_asid b (asid_on s' e)" if "e \<in> other_cpus n x s'" for e
  proof (cases "asid_version b (asid_on s' e) = asid_version b ?L")
    case True
    then show ?thesis using asid_ident [of b ?L "asid_on s' e"] below [of "active_aspace s e"] on(1) [OF that] by auto
  next
    case False
    then show ?thesis using s'(3) that by (auto simp: asid_scanned_def)
  qed
  have five: "hw_asid b (aspace_asid s' y) \<noteq> hw_asid b (asid_on s' e)"
    if e: "e \<in> other_cpus n y s'" "aspace_asid s' y \<noteq> 0" "asid_version b (aspace_asid s' y) = asid_version b ?L" for y e
  proof (cases "y = x")
    case True
    then show ?thesis using fresh e(1) s'(2) by simp
  next
    case False
    then have y: "aspace_asid s' y = aspace_asid s y" using s'(2) by simp
    show ?thesis
    proof (cases "e = cpu")
      case True
      then have "asid_on s' e = ?L" using s'(1,2) by simp
      then show ?thesis using asid_ident [of b "aspace_asid s y" ?L] below [of y] e(3) y by auto
    next
      case neq: False
      then have ex: "e \<in> other_cpus n x s'" using ox [of e] e(1) by (auto simp: other_cpus_def)
      then have "e \<in> other_cpus n y s" using e(1) on(2) [OF ex] by (simp add: other_cpus_def)
      moreover have "asid_version b (last_asid s) = asid_version b ?L" using version_between [OF d(1) [of y] less_imp_le [OF L]] e(3) y by simp
      ultimately show ?thesis using d(5) [of e y] e(2,3) y on(1) [OF ex] by simp
    qed
  qed
  show ?thesis unfolding asid_inv_def
  proof (intro conjI allI ballI impI)
    show "aspace_asid s' y \<le> ?L" for y using below [of y] s'(2) by (simp add: less_imp_le)
    show "y = z" if "aspace_asid s' y \<noteq> 0" "aspace_asid s' y = aspace_asid s' z" for y z
      using that d(2) [of y z] below [of y] below [of z] s'(2) by (auto split: if_splits)
    show "asid_on s' e \<noteq> 0" if "e < n" "active_aspace s' e \<noteq> 0" for e
      using that d(3) [of e] L0 s'(1,2) by auto
    show "asid_version b (asid_on s' e) = asid_version b ?L" if "\<not> old_asid_active s'" "e < n" "active_aspace s' e \<noteq> 0" for e
      using that s'(3) ox [of e] s'(1,2) by (cases "e = cpu") (auto simp: asid_scanned_def)
    show "hw_asid b (asid_on s' e) \<noteq> hw_asid b (asid_on s' f)" if "e < n" "f \<in> other_cpus n (active_aspace s' e) s'" "active_aspace s' e \<noteq> 0" for e f
    proof -
      have f: "f < n" "active_aspace s' f \<noteq> 0" "active_aspace s' f \<noteq> active_aspace s' e" using that(2) by (auto simp: other_cpus_def)
      consider "e = cpu" "f \<noteq> cpu" | "f = cpu" "e \<noteq> cpu" | "e \<noteq> cpu" "f \<noteq> cpu" using f(3) by blast
      then show ?thesis
      proof cases
        case 1
        then show ?thesis using fresh [of f] ox [OF f(1,2)] s'(1,2) by simp
      next
        case 2
        then show ?thesis using fresh [of e] ox [OF that(1,3)] s'(1,2) by simp
      next
        case 3
        then have x: "e \<in> other_cpus n x s'" "f \<in> other_cpus n x s'" using ox [OF that(1,3)] ox [OF f(1,2)] by simp_all
        have "f \<in> other_cpus n (active_aspace s e) s" using that(2) unfolding other_cpus_def on(2) [OF x(1)] by (simp add: on(2) [OF x(2)])
        moreover have "active_aspace s e \<noteq> 0" using that(3) on(2) [OF x(1)] by simp
        ultimately show ?thesis unfolding on(1) [OF x(1)] on(1) [OF x(2)] using d(6) [OF that(1)] by blast
      qed
    qed
  qed (use five in blast)
qed

section \<open>Allocation\<close>

definition asid_allocated :: "nat \<Rightarrow> addr \<Rightarrow> nat \<Rightarrow> asids \<Rightarrow> asids \<Rightarrow> bool" where
  "asid_allocated n x cpu s s' \<longleftrightarrow> active_aspace s' = (active_aspace s)(cpu := x) \<and> active_asid_version s' = active_asid_version s \<and>
     last_asid s \<le> last_asid s' \<and> (\<forall>y. y \<noteq> x \<longrightarrow> aspace_asid s' y = aspace_asid s y) \<and>
     (aspace_asid s' x = aspace_asid s x \<or> last_asid s < aspace_asid s' x \<and> (\<forall>c < n. c \<noteq> cpu \<longrightarrow> active_aspace s c \<noteq> x))"

lemma allocate_new:
  assumes i: "asid_inv b n s" and n: "cpu < n" "n < 2 ^ b" "b \<le> 64" "unat (last_asid s) + n + 1 < 2 ^ 64" and x: "x \<noteq> 0"
    and away: "\<forall>c < n. c \<noteq> cpu \<longrightarrow> active_aspace s c \<noteq> x"
  defines "s1 \<equiv> new_asid x (s\<lparr>active_aspace := (active_aspace s)(cpu := x)\<rparr>)"
  defines "s2 \<equiv> if last_asid s1 AND mask b = 0 then s1\<lparr>old_asid_active := True\<rparr> else s1"
  shows "\<exists>s'. (if old_asid_active s2 then asid_scan n (mask b) x 0 (s2\<lparr>old_asid_active := False\<rparr>) else Some s2) = Some s' \<and>
    active_aspace s' = (active_aspace s)(cpu := x) \<and> active_asid_version s' = active_asid_version s \<and>
    aspace_asid s' = (aspace_asid s)(x := last_asid s') \<and> asid_scanned b n x s' \<and> last_asid s < last_asid s'"
proof -
  note d = asid_invD [OF i]
  let ?L = "last_asid s"
  have u: "unat (?L + 1) = unat ?L + 1" using n(4) by (simp add: unat_word_ariths)
  have lt: "?L < ?L + 1" using u by (simp add: word_less_nat_alt)
  have s1: "active_aspace s1 = (active_aspace s)(cpu := x)" "last_asid s1 = ?L + 1" "aspace_asid s1 = (aspace_asid s)(x := ?L + 1)"
    "active_asid_version s1 = active_asid_version s" "old_asid_active s1 = old_asid_active s" by (simp_all add: s1_def)
  have s2: "active_aspace s2 = active_aspace s1" "last_asid s2 = last_asid s1" "aspace_asid s2 = aspace_asid s1" "active_asid_version s2 = active_asid_version s1"
    by (simp_all add: s2_def)
  have oth: "c < n \<and> active_aspace s c \<noteq> 0 \<and> active_aspace s c \<noteq> x \<and> c \<noteq> cpu" if "c \<in> other_cpus n x s2" for c
    using that s1(1) s2(1) by (auto simp: other_cpus_def split: if_splits)
  have on: "asid_on s2 c = asid_on s c" if "c \<in> other_cpus n x s2" for c using oth [OF that] s1 s2 by simp
  show ?thesis
  proof (cases "old_asid_active s2")
    case False
    then have old: "\<not> old_asid_active s" "(?L + 1) AND mask b \<noteq> 0" using s1 by (auto simp: s2_def split: if_splits)
    have "asid_version b (?L + 1) = asid_version b ?L" using version_next [OF _ old(2)] n(4) by simp
    then have "\<forall>c \<in> other_cpus n x s2. asid_version b (asid_on s2 c) = asid_version b (last_asid s2)" using d(4) [OF old(1)] oth on s1 s2 by simp
    then have "asid_scanned b n x s2" by (simp add: asid_scanned_def)
    with False s1 s2 lt show ?thesis by simp
  next
    case True
    let ?t = "s2\<lparr>old_asid_active := False\<rparr>"
    have t: "other_cpus m x ?t = other_cpus m x s2" for m by (simp add: other_cpus_def)
    from some_unused [OF n(2,3), of "?L + 1" x ?t] n(4) u obtain j where "j \<le> n" "hw_unused b n x ?t (?L + 1 + of_nat j)" by auto
    moreover have "\<forall>c \<in> other_cpus n x ?t. asid_on ?t c \<noteq> 0" unfolding t using on oth d(3) by simp
    moreover have "asid_scanned b 0 x ?t" by (simp add: asid_scanned_def other_cpus_def)
    moreover have "?L + 1 \<noteq> 0" using lt by auto
    ultimately obtain s' where s': "asid_scan n (mask b) x 0 ?t = Some s'" "asid_given x ?t s'" "asid_scanned b n x s'" "?L + 1 \<le> last_asid s'"
      using asid_scan_ok [of x ?t n 0 b j n] x s1 s2 u n(4) by auto
    then show ?thesis using True s1 s2 lt by (auto simp: asid_given_def intro: less_le_trans)
  qed
qed

lemma allocate_ok:
  assumes i: "asid_inv b n s" and n: "cpu < n" "n < 2 ^ b" "b \<le> 64" "unat (last_asid s) + n + 1 < 2 ^ 64"
  shows "\<exists>s'. vmm_asid_allocate n x cpu (mask b) s = Some s' \<and> asid_inv b n s' \<and> asid_allocated n x cpu s s' \<and> (x \<noteq> 0 \<longrightarrow> aspace_asid s' x \<noteq> 0)"
proof -
  note d = asid_invD [OF i]
  let ?s = "s\<lparr>active_aspace := (active_aspace s)(cpu := x)\<rparr>"
  have same: "asid_allocated n x cpu s ?s" by (simp add: asid_allocated_def)
  consider (cur) "vmm_asid_current ?s x (last_asid s) (mask b)"
    | (busy) c where "\<not> vmm_asid_current ?s x (last_asid s) (mask b)" "old_asid_active s" "c < n" "c \<noteq> cpu" "active_aspace s c = x"
    | (new) "\<not> vmm_asid_current ?s x (last_asid s) (mask b)" "\<not> old_asid_active s \<or> (\<forall>c < n. c \<noteq> cpu \<longrightarrow> active_aspace s c \<noteq> x)" by blast
  then show ?thesis
  proof cases
    case cur
    then have "x = 0 \<or> aspace_asid s x \<noteq> 0 \<and> asid_version b (aspace_asid s x) = asid_version b (last_asid s)" by (simp add: current_iff)
    with inv_current [OF i this] cur same show ?thesis by (auto simp: vmm_asid_allocate_def Let_def)
  next
    case busy
    then have "vmm_asid_allocate n x cpu (mask b) s = Some ?s" by (auto simp: vmm_asid_allocate_def Let_def list_ex_iff)
    moreover have "x \<noteq> 0" using busy(1) by (auto simp: current_iff)
    with d(3) [OF busy(3)] busy(5) have "aspace_asid s x \<noteq> 0" by simp
    ultimately show ?thesis using inv_elsewhere [OF i busy(3-5)] same by simp
  next
    case new
    have x: "x \<noteq> 0" using new(1) by (auto simp: current_iff)
    have away: "\<forall>c < n. c \<noteq> cpu \<longrightarrow> active_aspace s c \<noteq> x"
      using new x d(3,4) by (auto simp: current_iff)
    from allocate_new [OF i n x away] obtain s' where s': "vmm_asid_allocate n x cpu (mask b) s = Some s'"
      "active_aspace s' = (active_aspace s)(cpu := x)" "active_asid_version s' = active_asid_version s"
      "aspace_asid s' = (aspace_asid s)(x := last_asid s')" "asid_scanned b n x s'" "last_asid s < last_asid s'"
      using new(1) away by (auto simp: vmm_asid_allocate_def Let_def list_ex_iff)
    from inv_given [OF i x away n(1) s'(2,4-6)] s' away show ?thesis by (auto simp: asid_allocated_def)
  qed
qed

section \<open>The translation caches\<close>

text \<open>
  Beside the state stand the numbers of the entries in the translation cache of each cpu. A switch may empty the cache of its cpu, a
  cpu enters translations of the address space it runs, and an address space that is not active can be freed and its structure be used
  for a new one.
\<close>

type_synonym caches = "nat \<Rightarrow> uint64 set"

inductive asid_step :: "nat \<Rightarrow> nat \<Rightarrow> asids \<times> caches \<Rightarrow> asids \<times> caches \<Rightarrow> bool" for b n where
  switch: "cpu < n \<Longrightarrow> unat (last_asid s) + n + 1 < 2 ^ 64 \<Longrightarrow> vmm_asid_activate n x b cpu s = Some (Inr (flush, s')) \<Longrightarrow>
    asid_step b n (s, t) (s', if flush then t(cpu := {}) else t)"
| fill: "cpu < n \<Longrightarrow> active_aspace s cpu \<noteq> 0 \<Longrightarrow> asid_step b n (s, t) (s, t(cpu := insert (asid_on s cpu) (t cpu)))"
| free: "x \<noteq> 0 \<Longrightarrow> \<forall>c < n. active_aspace s c \<noteq> x \<Longrightarrow> asid_step b n (s, t) (s\<lparr>aspace_asid := (aspace_asid s)(x := 0)\<rparr>, t)"

definition asid_start :: asids where
  "asid_start = \<lparr>last_asid = 0, old_asid_active = False, active_aspace = (\<lambda>_. 0), active_asid_version = (\<lambda>_. 0), aspace_asid = (\<lambda>_. 0)\<rparr>"

definition cache_ok :: "nat \<Rightarrow> nat \<Rightarrow> asids \<times> caches \<Rightarrow> bool" where
  "cache_ok b n = (\<lambda>(s, t). asid_inv b n s \<and> (\<forall>c < n. (active_aspace s c \<noteq> 0 \<longrightarrow> asid_version b (asid_on s c) = asid_version b (active_asid_version s c)) \<and>
     (\<forall>e \<in> t c. e \<le> last_asid s \<and> asid_version b e = asid_version b (active_asid_version s c))))"

lemma version_clear_hw: "asid_version b (x AND NOT (mask b)) = asid_version b x" for x :: uint64
  by (rule bit_word_eqI) (auto simp: bit_simps dest: bit_imp_le_length)

lemma activate_ok:
  assumes i: "asid_inv b n s" and n: "cpu < n" "n < 2 ^ b" "b \<le> 64" "unat (last_asid s) + n + 1 < 2 ^ 64"
  shows "\<exists>flush s' v. vmm_asid_activate n x b cpu s = Some (Inr (flush, s')) \<and> asid_inv b n s' \<and>
    asid_allocated n x cpu s (s'\<lparr>active_asid_version := active_asid_version s\<rparr>) \<and> active_asid_version s' = (active_asid_version s)(cpu := v) \<and>
    (x \<noteq> 0 \<longrightarrow> asid_version b (aspace_asid s' x) = asid_version b v) \<and> (\<not> flush \<longrightarrow> v = active_asid_version s cpu)"
proof -
  from allocate_ok [OF i n, of x] obtain s1 where
    s1: "vmm_asid_allocate n x cpu (mask b) s = Some s1" "asid_inv b n s1" "asid_allocated n x cpu s s1" "x \<noteq> 0 \<longrightarrow> aspace_asid s1 x \<noteq> 0" by blast
  have v: "active_asid_version s1 = active_asid_version s" using s1(3) by (simp add: asid_allocated_def)
  show ?thesis
  proof (cases "vmm_asid_current s1 x (active_asid_version s1 cpu) (mask b)")
    case True
    then have "vmm_asid_activate n x b cpu s = Some (Inr (False, s1))" using s1(1) by (simp add: vmm_asid_activate_def BIT_MASK_eq Let_def)
    moreover have "x \<noteq> 0 \<longrightarrow> asid_version b (aspace_asid s1 x) = asid_version b (active_asid_version s cpu)" using True v by (auto simp: current_iff)
    moreover have "active_asid_version s1 = (active_asid_version s)(cpu := active_asid_version s cpu)" using v by simp
    moreover have "asid_allocated n x cpu s (s1\<lparr>active_asid_version := active_asid_version s\<rparr>)" using s1(3) by (simp add: asid_allocated_def)
    ultimately show ?thesis using s1(2) by blast
  next
    case False
    define w where "w = aspace_asid s1 x AND NOT (mask b)"
    let ?s' = "s1\<lparr>active_asid_version := (active_asid_version s1)(cpu := w)\<rparr>"
    have "x \<noteq> 0" using False by (auto simp: current_iff)
    with False s1(1) have "vmm_asid_activate n x b cpu s = Some (Inr (True, ?s'))" by (simp add: vmm_asid_activate_def BIT_MASK_eq Let_def w_def)
    moreover have "asid_inv b n ?s'" using s1(2) by (simp add: asid_inv_def other_cpus_def)
    moreover have "asid_allocated n x cpu s (?s'\<lparr>active_asid_version := active_asid_version s\<rparr>)" using s1(3) by (simp add: asid_allocated_def)
    moreover have "asid_version b (aspace_asid ?s' x) = asid_version b w" by (simp only: w_def version_clear_hw) simp
    moreover have "active_asid_version ?s' = (active_asid_version s)(cpu := w)" using v by simp
    ultimately show ?thesis by blast
  qed
qed

lemma step_switch:
  assumes c: "cache_ok b n (s, t)" and n: "cpu < n" "n < 2 ^ b" "b \<le> 64" "unat (last_asid s) + n + 1 < 2 ^ 64"
    and r: "vmm_asid_activate n x b cpu s = Some (Inr (flush, s'))"
  shows "cache_ok b n (s', if flush then t(cpu := {}) else t)"
proof -
  have i: "asid_inv b n s" using c by (simp add: cache_ok_def)
  from activate_ok [OF i n, of x] r obtain v where
    v: "asid_inv b n s'" "asid_allocated n x cpu s (s'\<lparr>active_asid_version := active_asid_version s\<rparr>)" "active_asid_version s' = (active_asid_version s)(cpu := v)"
      "x \<noteq> 0 \<longrightarrow> asid_version b (aspace_asid s' x) = asid_version b v" "\<not> flush \<longrightarrow> v = active_asid_version s cpu" by auto
  then have a: "active_aspace s' = (active_aspace s)(cpu := x)" "last_asid s \<le> last_asid s'" "\<forall>y. y \<noteq> x \<longrightarrow> aspace_asid s' y = aspace_asid s y"
    "aspace_asid s' x = aspace_asid s x \<or> (\<forall>c < n. c \<noteq> cpu \<longrightarrow> active_aspace s c \<noteq> x)" by (auto simp: asid_allocated_def)
  have "(active_aspace s' d \<noteq> 0 \<longrightarrow> asid_version b (asid_on s' d) = asid_version b (active_asid_version s' d)) \<and>
      (\<forall>e \<in> (if flush then t(cpu := {}) else t) d. e \<le> last_asid s' \<and> asid_version b e = asid_version b (active_asid_version s' d))" if d: "d < n" for d
  proof (cases "d = cpu")
    case True
    have "\<forall>e \<in> t cpu. e \<le> last_asid s \<and> asid_version b e = asid_version b (active_asid_version s cpu)" using c n(1) by (simp add: cache_ok_def)
    then show ?thesis using True v(3-5) a(1,2) by (auto intro: order_trans)
  next
    case False
    have "asid_on s' d = asid_on s d" "active_aspace s' d = active_aspace s d" using False a(1,3,4) d by auto
    then show ?thesis using c d False v(3) a(2) by (auto simp: cache_ok_def intro: order_trans)
  qed
  then show ?thesis using v(1) by (simp add: cache_ok_def)
qed

lemma step_free:
  assumes c: "cache_ok b n (s, t)" and x: "\<forall>c < n. active_aspace s c \<noteq> x"
  shows "cache_ok b n (s\<lparr>aspace_asid := (aspace_asid s)(x := 0)\<rparr>, t)"
proof -
  have i: "asid_inv b n s" using c by (simp add: cache_ok_def)
  note d = asid_invD [OF i]
  let ?s = "s\<lparr>aspace_asid := (aspace_asid s)(x := 0)\<rparr>"
  have on: "asid_on ?s c = asid_on s c" if "c < n" for c using x that by simp
  have ot: "other_cpus n y ?s = other_cpus n y s" for y by (simp add: other_cpus_def)
  have "asid_inv b n ?s" unfolding asid_inv_def ot
  proof (intro conjI allI ballI impI)
    show "hw_asid b (asid_on ?s e) \<noteq> hw_asid b (asid_on ?s f)" if "e < n" "f \<in> other_cpus n (active_aspace ?s e) s" "active_aspace ?s e \<noteq> 0" for e f
      using d(6) [of e f] that on [of e] on [of f] by (auto simp: other_cpus_def)
    show "hw_asid b (aspace_asid ?s y) \<noteq> hw_asid b (asid_on ?s e)"
      if "e \<in> other_cpus n y s" "aspace_asid ?s y \<noteq> 0" "asid_version b (aspace_asid ?s y) = asid_version b (last_asid ?s)" for y e
      using d(5) [OF that(1)] that on [of e] by (auto simp: other_cpus_def split: if_splits)
    show "asid_on ?s e \<noteq> 0" if "e < n" "active_aspace ?s e \<noteq> 0" for e using d(3) [of e] that on [of e] by simp
    show "asid_version b (asid_on ?s e) = asid_version b (last_asid ?s)" if "\<not> old_asid_active ?s" "e < n" "active_aspace ?s e \<noteq> 0" for e
      using d(4) [of e] that on [of e] by simp
  qed (use d(1,2) in \<open>auto split: if_splits\<close>)
  then show ?thesis using c x by (auto simp: cache_ok_def)
qed

lemma asid_step_ok: "asid_step b n m m' \<Longrightarrow> n < 2 ^ b \<Longrightarrow> b \<le> 64 \<Longrightarrow> cache_ok b n m \<Longrightarrow> cache_ok b n m'"
proof (induction rule: asid_step.induct)
  case (switch cpu s x flush s' t)
  then show ?case using step_switch [of b n s t cpu x flush s'] by blast
next
  case (fill cpu s t)
  then have "asid_on s cpu \<le> last_asid s" using asid_invD(1) [of b n s "active_aspace s cpu"] by (simp add: cache_ok_def)
  with fill show ?case by (simp add: cache_ok_def)
next
  case (free x s t)
  then show ?case using step_free by blast
qed

theorem asid_reach_ok:
  assumes "(asid_step b n)\<^sup>*\<^sup>* (asid_start, \<lambda>_. {}) m" "n < 2 ^ b" "b \<le> 64"
  shows "cache_ok b n m"
  using assms
proof (induction rule: rtranclp_induct)
  case base
  show ?case by (simp add: cache_ok_def asid_inv_def asid_start_def other_cpus_def)
next
  case (step y z)
  then show ?case using asid_step_ok by blast
qed

theorem cache_no_mix:
  assumes "cache_ok b n (s, t)" "c < n" "active_aspace s c \<noteq> 0" "e \<in> t c" "hw_asid b e = hw_asid b (asid_on s c)"
  shows "e = asid_on s c"
proof -
  have "asid_version b e = asid_version b (asid_on s c)" using assms(1-4) by (simp add: cache_ok_def)
  from asid_ident [OF this assms(5)] show ?thesis .
qed

end
