(* ===== verification/Spec2Isabelle.thy ===== *)
theory Spec2Isabelle
  imports Mutex Event Semaphore Thread_Life Timer_Tick Example_System Init_Levels Thread_Boot Cbuf Port_Close Example_Objects Example_Vm Example_Pmm Asid_Safe
begin

text \<open>
  \<^bold>\<open>A verification of the kernel core of Trusty's LK\<close>

  The program is the LK kernel as Trusty uses it: a preemptive, symmetric multiprocessing kernel
  written in C. Its core are the threads and their scheduler (\<^verbatim>\<open>kernel/thread.c\<close>), the timers
  (\<^verbatim>\<open>kernel/timer.c\<close>), wait queues, and on top of those the objects threads synchronise and
  communicate with: mutexes, events, semaphores, ports and circular buffers. Beside it is the
  virtual memory manager (\<^verbatim>\<open>kernel/vm/vmm.c\<close>), which keeps the regions of an address space in a balanced
  search tree. Around them are the intrusive lists everything is linked with, the init hooks, the
  memory allocators, the device drivers and the ports to three architectures.

  \<^bold>\<open>The theories and the code they model\<close>

  \<^item> \<open>Prelude\<close>: errors as values (\<open>'a res\<close> is \<open>panic + 'a\<close>: an assertion that fails, a panic or a
    use of memory that is not there is \<open>Inl\<close>), \<open>bindE\<close> and \<open>guardE\<close> for sequencing, \<open>okE P m\<close> for
    ``\<open>m\<close> succeeds and its result satisfies \<open>P\<close>'', and lemmas on lists and bits.
  \<^item> \<open>Intrusive_List\<close>: \<^verbatim>\<open>include/shared/lk/list.h\<close> on a heap of previous and next pointers; \<open>dll\<close>
    relates the heap to the list of nodes it holds. The locale \<open>list_queue\<close> is the contract the rest
    of the kernel relies on when it uses these lists as queues; later theories keep such a queue as
    an Isabelle list.
  \<^item> \<open>Timer\<close>, \<open>Timer_Tick\<close>: \<^verbatim>\<open>kernel/timer.c\<close>. One queue per cpu sorted by expiry, with 64-bit times that
    wrap around; the interrupt handler with its callbacks, sleeping threads included.
  \<^item> \<open>Kernel_State\<close>: the state shared by the core as the record \<open>kstate\<close>: \<^verbatim>\<open>struct thread\<close>
    (\<open>thread\<close>), the run queues and their bitmap, wait queues, the current thread of each cpu, the
    thread lock and its owner, the masks of \<^verbatim>\<open>struct mp_state\<close>, and the timers.
  \<^item> \<open>Scheduler\<close>, \<open>Thread_Switch\<close>, \<open>Wait_Queue\<close>, \<open>Thread_Attr\<close>, \<open>Thread_Life\<close>, \<open>Thread_Boot\<close>: \<^verbatim>\<open>kernel/thread.c\<close>, in
    that order: run queues and \<^verbatim>\<open>thread_resched\<close>; yield and preempt; wait queues; priority, pinning and
    real-time flag; creation, exit, join, detach and the reaper; start-up of the cpus.
    \<open>Sched_Invariant\<close> and \<open>Resched\<close> hold the invariant of that state and its preservation by
    \<^verbatim>\<open>thread_resched\<close>.
  \<^item> \<open>Mutex\<close>, \<open>Event\<close>, \<open>Semaphore\<close>: \<^verbatim>\<open>kernel/mutex.c\<close>, \<^verbatim>\<open>kernel/event.c\<close>, \<^verbatim>\<open>kernel/semaphore.c\<close>.
  \<^item> \<open>Port\<close> with \<open>Port_Invariant\<close> and \<open>Port_Close\<close>: \<^verbatim>\<open>kernel/port.c\<close>. \<open>Cbuf\<close>: \<^verbatim>\<open>lib/cbuf\<close>. \<open>Pow2\<close>:
    \<^verbatim>\<open>include/shared/lk/pow2.h\<close>. \<open>Ring\<close> holds what the two ring buffers share: slices of a ring and the
    locale \<open>fifo\<close> of a bounded queue, which both interpret.
  \<^item> \<open>Init_Levels\<close>: \<^verbatim>\<open>top/init.c\<close>.
  \<^item> \<open>Bst\<close>: \<^verbatim>\<open>lib/binary_search_tree\<close>, a weak AVL tree of nodes linked by parent and child pointers; the
    record \<open>bst\<close> is the root and the memory of the nodes. \<open>Bst_Tree\<close> relates it to a binary tree
    (\<open>rep\<close>), a subtree in its surroundings (\<open>at\<close>) and the balance (\<open>wavl\<close>); \<open>Bst_Links\<close>, \<open>Bst_Insert\<close>,
    \<open>Bst_Search\<close>, \<open>Bst_Delete\<close>, \<open>Bst_Remove\<close> and \<open>Bst_Walk\<close> prove the operations correct. The locale
    \<open>bst_order\<close> is what the tree asks of the comparison of its client.
  \<^item> \<open>Vmm_Region\<close>: the regions of \<^verbatim>\<open>kernel/vm/vmm.c\<close>, as the record \<open>vm\<close> of address spaces, regions, nodes
    and reserved ranges. \<open>Vmm_Spot\<close> treats the search for a free spot, \<open>Vmm_Aspace\<close> the order of regions (it
    interprets \<open>bst_order\<close> on \<^verbatim>\<open>vmm_region_cmp\<close>) and the search for a region, \<open>Vmm_Alloc\<close> allocating
    and freeing. \<open>aspace_ok\<close> is the invariant of an address space.
  \<^item> \<open>Pmm\<close>: \<^verbatim>\<open>kernel/vm/pmm.c\<close> and \<^verbatim>\<open>kernel/vm/res_group.c\<close>, the physical page allocator, as the record \<open>pmm\<close> of arenas in the
    order of their priorities. \<open>Pmm_Runs\<close> treats the search for a run, \<open>Pmm_Pages\<close> taking pages under the
    invariant \<open>pmm_ok\<close>, \<open>Pmm_Alloc\<close> and \<open>Pmm_Contig\<close> allocating and freeing, \<open>Pmm_Reserve\<close> reservations, \<open>Pmm_Boot\<close> adding arenas.
    \<open>Pmm_Groups\<close> and \<open>Pmm_System\<close> are the users: \<open>mem_step\<close> is one call by which groups and memory objects come
    and go, and \<open>mem_ok\<close> the invariant of all that are reached.
  \<^item> \<open>Asid\<close>: \<^verbatim>\<open>kernel/vm/asid.c\<close>, the numbers of address spaces in the translation caches. \<open>Asid_Safe\<close> shows that the search for
    a number ends, and, with the caches beside the state (\<open>asid_step\<close>), that no entry is used for another address space.
  \<^item> \<open>Example_System\<close>, \<open>Example_Objects\<close>: a concrete system with two cpus, eight threads and objects
    of every kind, to which the theorems below are applied; \<open>Example_Vm\<close>: an address space with two
    regions; \<open>Example_Pmm\<close>: two arenas.

  \<^bold>\<open>How control flow is modelled\<close>

  The kernel has one lock, the thread lock; what runs under it is one step of the model, a function
  from the state to a result. A function that blocks is cut where it gives the cpu away:
  \<open>Switched_out s\<close> is the state when another thread has taken over, \<open>Return r s\<close> a return to the
  caller, and \<open>*_resume\<close> is the rest of the function, run when the thread is scheduled again. What
  the other threads do in between is thus an arbitrary sequence of steps; \<open>mutex_reach\<close> is the step
  relation of one mutex under such sequences, with and without timeouts. Interrupt handlers
  are steps of their own. Assertions and panics of the source are guards of the model, and the
  lemmas \<open>*_ok\<close> show from the invariant that none of them is hit.

  \<^bold>\<open>What is proved\<close>

  The invariant \<open>sched_inv\<close> says that run queues, wait queues, the bitmap, the states and links of
  all threads, the current threads of the cpus and their preemption timers agree. It holds after
  start-up (C17) and is kept by every operation; each theorem \<open>*_ok\<close> of a theory states it
  beside what the operation does on every branch. The properties in this theory are the main ones:
  scheduling picks a thread of the highest priority (C1); blocking, waking and timeouts
  move exactly the threads they should (C2 to C4); mutexes, events and semaphores neither lose nor
  invent ownership while nobody times out (C5 to C9), and C7 is a schedule with a timeout where a
  wake-up is lost; timer queues stay sorted and armed and the interrupt ends with nothing due
  left (C10, C11); attributes (C12), life cycle (C13 to C16) and start-up of threads;
  the init hooks are called in sorted order (C18); lists, circular buffers and ports behave as the
  queues they implement (C19 to C24). The search tree stays a balanced tree in the order of its client's comparison
  under every operation, and no assertion in it fails (C25 to C28). Regions are apart from each other, a free spot is
  found if there is one, and freeing removes one region (C29 to C32); C31 is a request that fails an
  assertion where an error should be returned. The page allocator gives out free pages only, undoes what fails, and honours reservations
  over every sequence of operations (C33 to C38); C37 and C39 are two flaws of it. Translation cache
  entries of different address spaces are never mixed up (C40).

  Loops that may not end are \<open>partial_function (option)\<close>, and that they end is part of the theorems
  (\<open>timer_tick\<close>, \<open>lk_init_level\<close>, \<open>cbuf_read\<close>, \<open>port_read\<close>, the loops of the search tree and of \<open>scan_gap\<close>). There is no fuel in the model; \<open>drain n\<close>
  of C19 takes a bound and holds for every sufficient one. The invariant of the timers assumes
  that the timers of a queue lie within half the range of the 64-bit clock of each other, which the
  comparison by signed difference needs.

  \<^bold>\<open>What is not modelled\<close>

  The register and address space switch, interrupt masking and the barriers of the architectures;
  the memory allocators (what they return is an argument of the operations that call them); of
  virtual memory the mapping of pages, the memory objects with their references (\<^verbatim>\<open>lk/reflist.h\<close> is not
  part of the repository), the creation of address spaces and the page tables; the device drivers;
  the C library; console output, tracing, statistics and the dumps of
  threads. Callbacks of timers that belong to drivers are a parameter of the timer
  interrupt with the hypothesis \<open>quiet\<close>. The spin lock of a circular buffer, the timer lock and the lock
  of the virtual memory manager make each critical section atomic. Addresses are those of a 64-bit machine with
  pages of 4096 bytes; the choice of a spot is the default one, not that of 32-bit ARM. The
  theorems on regions assume that a region leaves a page free at the top of the 64-bit space.
\<close>

section \<open>Scheduling and wait queues\<close>

text \<open>C1. A reschedule succeeds, keeps the scheduler's invariant, and leaves the cpu running a
  thread of the highest priority among those ready and allowed on it; the cpu idles only if there is
  none.\<close>

theorem resched_runs_highest_priority:
  assumes "ready_to_resched cpu s"
  shows "okE (\<lambda>s'. sched_inv s' \<and> thread_lock_held cpu s' \<and> runs_best cpu s' \<and>
      current s' cpu = next_thread cpu s \<and> state (threads s' (current s' cpu)) = THREAD_RUNNING)
    (thread_resched cpu s)"
proof -
  have a: "sched_inv_at {} {cpu} s" "up s cpu" "thread_lock_held cpu s"
    "state (threads s (current s cpu)) \<noteq> THREAD_RUNNING" using assms by (simp_all add: ready_to_resched_def)
  show ?thesis
    by (rule okE_mono [OF thread_resched_ok [OF a]])
      (auto simp: resched_rel_def intro: resched_runs_best [OF next_thread_policy [OF a(1,2)]])
qed

theorem resched_runs_highest_priority_witness:
  "okE (\<lambda>s'. sched_inv s' \<and> runs_best 0 s' \<and> current s' 0 = next_thread 0 ex_leaving) (thread_resched 0 ex_leaving)"
  by (rule okE_mono [OF resched_runs_highest_priority [OF ex_leaving]]) simp

text \<open>C2. wait_queue_block with a zero timeout returns ERR_TIMED_OUT and changes nothing;
  otherwise the caller is the last of the wait queue, blocked, with its timeout armed, and another
  thread runs.\<close>

theorem block_waits:
  assumes "can_block cpu w s"
  shows "okE (\<lambda>c. case c of
        Return r s' \<Rightarrow> timeout = 0 \<and> r = ERR_TIMED_OUT \<and> s' = s
      | Switched_out s' \<Rightarrow> timeout \<noteq> 0 \<and> sched_inv s' \<and> thread_lock_held cpu s' \<and> runs_best cpu s' \<and>
          current s' cpu \<noteq> current s cpu \<and> blocked_on cpu (current s cpu) w timeout s s')
    (wait_queue_block cpu w timeout s)"
  by (rule wait_queue_block_ok [OF assms])

theorem block_waits_witness:
  "okE (\<lambda>c. case c of Return r s' \<Rightarrow> False
      | Switched_out s' \<Rightarrow> sched_inv s' \<and> wq_list (wait_queues s' (Obj_wq 9)) = [3]) (wait_queue_block 0 (Obj_wq 9) 100 ex_locked)"
  by (rule okE_mono [OF block_waits [OF ex_can_block(1)]])
    (auto simp: blocked_on_def WAIT_QUEUE_INITIAL_VALUE_def split: call.splits)

text \<open>C3. wait_queue_wake_one releases exactly the first waiter with the given status and
  returns how many it woke; the others keep waiting in order.\<close>

theorem wake_one_releases_first:
  assumes "can_wake cpu w reschedule s"
  shows "okE (\<lambda>(n, s'). sched_inv s' \<and> thread_lock_held cpu s' \<and>
      n = (if wq_list (wait_queues s w) = [] then 0 else 1) \<and>
      released (take 1 (wq_list (wait_queues s w))) w e s s') (wait_queue_wake_one cpu w reschedule e s)"
  by (rule wait_queue_wake_one_ok [OF assms])

theorem wake_one_releases_first_witness:
  "okE (\<lambda>(n, s'). n = 1 \<and> sched_inv s' \<and> released [5] (Obj_wq 7) NO_ERROR ex_locked s')
     (wait_queue_wake_one 0 (Obj_wq 7) True NO_ERROR ex_locked)"
  by (rule okE_mono [OF wake_one_releases_first [OF ex_can_block(2)]]) auto

text \<open>C4. When the timeout of a wait expires, a thread that is still blocked leaves its wait
  queue with ERR_TIMED_OUT and becomes ready; for a thread that has been woken already the handler
  does nothing.\<close>

theorem timeout_releases_waiter:
assumes inv: "sched_inv s" and lf: "lock_free s" and t: "t \<in> set (thread_list s)"
  shows "okE (\<lambda>(r, s'). sched_inv s' \<and> lock_free s' \<and>
      (if state (threads s t) = THREAD_BLOCKED
       then r = INT_RESCHEDULE \<and> (\<exists>w. t \<in> set (wq_list (wait_queues s w)) \<and> released [t] w ERR_TIMED_OUT s s')
       else r = INT_NO_RESCHEDULE \<and> s' = s))
    (wait_queue_timeout_handler cpu t s)"
  by (rule wait_queue_timeout_handler_ok [OF assms])

theorem timeout_releases_waiter_witness:
  "okE (\<lambda>(r, s'). r = INT_RESCHEDULE \<and> wait_queue_block_ret (threads s' 5) = ERR_TIMED_OUT \<and> sched_inv s')
     (wait_queue_timeout_handler 0 5 ex_state)"
  by (rule okE_mono [OF timeout_releases_waiter [OF ex_sched_inv, of 5]]) (auto simp: released_def ex_threads_def split: if_splits)

section \<open>Mutexes, events and semaphores\<close>

text \<open>C5. In every state the operations on a mutex can reach without timeouts, nobody waits
  for a mutex that nobody owns, and the count is the owner plus the waiters.\<close>

theorem mutex_no_orphaned_waiter:
  assumes "mutex_reach False g k m s"
  shows "sched_inv s \<and> lock_free s \<and> mutex_inv g 0 m s \<and> no_orphan g m s"
  using mutex_reach_inv [OF assms] mutex_reach_no_orphan [OF assms] by auto

theorem mutex_no_orphaned_waiter_witness:
  "mutex_inv None 0 (fst (mutex_init 9 ex_state)) (snd (mutex_init 9 ex_state)) \<and>
   no_orphan None (fst (mutex_init 9 ex_state)) (snd (mutex_init 9 ex_state))"
proof -
  have "mutex_reach False None 0 (fst (mutex_init 9 ex_state)) (snd (mutex_init 9 ex_state))"
    by (rule mutex_reach.init [OF ex_sched_inv, of 9]) (simp_all add: WAIT_QUEUE_INITIAL_VALUE_def)
  from mutex_no_orphaned_waiter [OF this] show ?thesis by simp
qed

text \<open>C6. mutex_release frees the mutex; if there are waiters it wakes the first one, to which
  the mutex is promised, and no other.\<close>

theorem mutex_release_hands_over:
assumes inv: "mutex_inv None k m s" and ctx: "thread_context cpu s" and h: "current s cpu = holder m"
  shows "okE (\<lambda>(m', r, s'). r = NO_ERROR \<and> sched_inv s' \<and> lock_free s' \<and> holder m' = 0 \<and>
      mutex_inv (if waiters m s = [] then None else Some (hd (waiters m s))) k m' s' \<and>
      released (take 1 (waiters m s)) (Obj_wq (mx_wait m)) NO_ERROR s s')
    (mutex_release cpu m s)"
  by (rule mutex_release_ok [OF assms])

theorem mutex_release_hands_over_witness:
  "okE (\<lambda>(m', r, s'). r = NO_ERROR \<and> holder m' = 0 \<and> mutex_inv (Some 5) 0 m' s' \<and> released [5] (Obj_wq 7) NO_ERROR ex_state s')
     (mutex_release 0 ex_mutex ex_state)"
  by (rule okE_mono [OF mutex_release_hands_over [OF ex_objects(1) ex_context]]) (auto simp: ex_mutex_def)



text \<open>C8. event_signal on an unsignalled event wakes all waiters, or for an auto-unsignal
  event only the first and signals the event only if there was none; signalling a signalled event
  changes nothing.\<close>

theorem event_signal_wakes:
assumes inv: "event_inv e s" and s: "sched_inv s" "lock_free s" "up s cpu"
    and i: "reschedule \<Longrightarrow> \<not> thread_is_idle (threads s (current s cpu))"
  shows "okE (\<lambda>(e', r, s'). r = NO_ERROR \<and> sched_inv s' \<and> lock_free s' \<and> event_inv e' s' \<and>
      (if signaled e then e' = e \<and> s' = s
       else if auto_unsignal e then
         released (take 1 (ev_waiters e s)) (Obj_wq (ev_wait e)) NO_ERROR s s' \<and>
         e' = e\<lparr>signaled := (ev_waiters e s = [])\<rparr>
       else released (ev_waiters e s) (Obj_wq (ev_wait e)) NO_ERROR s s' \<and> e' = e\<lparr>signaled := True\<rparr>))
    (event_signal cpu reschedule e s)"
  by (rule event_signal_ok [OF assms])

theorem event_signal_wakes_witness:
  "okE (\<lambda>(e', r, s'). r = NO_ERROR \<and> signaled e' \<and> event_inv e' s' \<and> released [5] (Obj_wq 7) NO_ERROR ex_state s')
     (event_signal 0 False ex_event ex_state)"
  by (rule okE_mono [OF event_signal_wakes [OF ex_objects(3) ex_sched_inv]])
    (auto simp: ex_event_def split: if_splits)

text \<open>C9. sem_post keeps the count equal to the free resources less the waiters and, when no
  timed wait is backing out, never leaves a resource free while somebody waits.\<close>

theorem sem_post_keeps_resources_busy:
assumes "sem_inv v 0 sem s" "sem_no_idle_resource v sem s" "sched_inv s" "lock_free s" "up s cpu"
    "resched \<Longrightarrow> \<not> thread_is_idle (threads s (current s cpu))" "sm_count sem < INT_MAX"
  shows "okE (\<lambda>(sem', n, s'). \<exists>v'. sem_inv v' 0 sem' s' \<and> sem_no_idle_resource v' sem' s' \<and>
      int v' = int v + 1 - n) (sem_post cpu resched sem s)"
  by (rule sem_post_keeps_busy [OF assms])

theorem sem_post_keeps_resources_busy_witness:
  "okE (\<lambda>(sem', n, s'). \<exists>v'. sem_inv v' 0 sem' s' \<and> sem_no_idle_resource v' sem' s' \<and> int v' = 1 - n)
     (sem_post 0 False ex_sem ex_state)"
  by (rule okE_mono [OF sem_post_keeps_resources_busy [OF ex_objects(4) _ ex_sched_inv]])
    (auto simp: sem_no_idle_resource_def ex_sem_def INT_MAX_def)

section \<open>Timers\<close>

text \<open>C10. timer_set queues the timer for its expiry time and keeps the queues of all cpus
  consistent, sorted by expiry also across the wrap-around of the clock, with the platform timer
  armed in time for the first.\<close>

theorem timer_set_keeps_queues:
assumes ok: "timers_ok base now ts" and can: "can_set ncpus cpu r ts"
    and win: "dist base (now + delay) < 2 ^ 63"
  shows "okE (\<lambda>ts'. timers_ok base now ts' \<and> r \<in> set (timer_queue ts' cpu) \<and>
      scheduled_time (timer_of ts' r) = now + delay)
    (timer_set ncpus cpu now r delay period cb a ts)"
  by (rule timer_set_ok [OF assms])

theorem timer_set_keeps_queues_witness:
  "okE (\<lambda>ts. timers_ok 0 1000 ts \<and> Stack_timer 3 \<in> set (timer_queue ts 0))
     (timer_set 2 0 1000 (Stack_timer 3) 6000 0 thread_sleep_handler_cb 3 ex_timers)"
  by (rule okE_mono [OF timer_set_keeps_queues [OF ex_timers_ok, of 2 0 "Stack_timer 3"]])
    (auto simp: can_set_def ex_timers_def TIMER_INITIAL_VALUE_def dist_def)



section \<open>Thread attributes\<close>

text \<open>C12. thread_set_real_time on a thread that runs on another cpu succeeds but leaves that
  cpu's preemption timer running, so that its next switch to an ordinary thread panics on setting a
  timer that is already queued.\<close>

theorem set_real_time_remote_panics:
assumes lf: "lock_free s" and t: "t \<noteq> 0" "magic (threads s t) = THREAD_MAGIC" "current s cpu \<noteq> t"
    and c: "current s c = t" "node (timer_of (timers s) (Preempt_timer c)) \<noteq> None"
      "tmagic (timer_of (timers s) (Preempt_timer c)) = TIMER_MAGIC"
    and n: "n \<noteq> t" "\<not> thread_is_real_time_or_idle (threads s n)"
  shows "okE (\<lambda>(r, s'). r = NO_ERROR \<and> switch_timers c t n s' = Inl (Panic ''timer already in list''))
    (thread_set_real_time cpu t s)"
  by (rule thread_set_real_time_remote_panics [OF assms])

theorem set_real_time_remote_panics_witness:
  "okE (\<lambda>(r, s'). r = NO_ERROR \<and> switch_timers 0 3 4 s' = Inl (Panic ''timer already in list'')) (thread_set_real_time 1 3 ex_state)"
  by (rule set_real_time_remote_panics [OF ex_sched_inv(2)]) (simp_all add: ex_threads_def ex_timers_def TIMER_INITIAL_VALUE_def)

section \<open>Life cycle of threads\<close>

text \<open>C13. thread_create_etc either fails (no structure, no stack, no shadow stack, or no libc
  state), leaving the thread list as it was and freeing the structure it allocated, or adds one
  suspended thread with the entry, argument, priority and flags asked for; no other thread
  changes.\<close>

theorem create_makes_suspended_thread:
assumes inv: "sched_inv s" and lf: "lock_free s" and u: "up s cpu"
    and pr: "IDLE_PRIORITY < prio" "prio \<le> HIGHEST_PRIORITY"
    and t: "t = (if t0 = 0 then malloc_result env else t0)" and fr: "t \<noteq> 0 \<Longrightarrow> fresh t s"
  shows "okE (\<lambda>(r, fs, s'). sched_inv s' \<and> lock_free s' \<and> (\<forall>v. v \<noteq> t \<longrightarrow> threads s' v = threads s v) \<and>
      (if create_fails env t stk s
       then r = 0 \<and> thread_list s' = thread_list s \<and> (t0 = 0 \<and> t \<noteq> 0 \<longrightarrow> Free t \<in> set fs)
       else r = t \<and> fs = [] \<and> thread_list s' = t # thread_list s \<and> state (threads s' t) = THREAD_SUSPENDED \<and>
         priority (threads s' t) = prio \<and> flags (threads s' t) = create_flags t0 stk s \<and>
         entry (threads s' t) = ent \<and> arg (threads s' t) = a \<and>
         wq_magic (wait_queues s' (Retcode_wq t)) = WAIT_QUEUE_MAGIC))
    (thread_create_etc cpu env t0 nm ent a prio stk stk_size scs_size s)"
  using assms by (rule thread_create_etc_ok)

theorem create_makes_suspended_thread_witness:
  "okE (\<lambda>(r, fs, s'). r = 30 \<and> thread_list s' = 30 # thread_list ex_state \<and> state (threads s' 30) = THREAD_SUSPENDED \<and> sched_inv s')
     (thread_create_etc 0 ex_env 0 ''worker'' 1 2 16 0 4096 0 ex_state)"
  by (rule okE_mono [OF create_makes_suspended_thread [OF ex_sched_inv, of 0 16 30 0]])
    (auto simp: ex_fresh ex_env_def create_fails_def)



text \<open>C15. thread_exit marks the caller dead with its return code and switches to the best
  ready thread; a detached thread moves to the list of dead threads and the reaper is woken,
  otherwise everybody who waits to join it is woken.\<close>

theorem exit_wakes_joiners:
assumes ctx: "thread_context cpu s" and t: "t = current s cpu"
    and w: "wq_magic (wait_queues s (Retcode_wq t)) = WAIT_QUEUE_MAGIC"
      "wq_magic (wait_queues s Reaper_wq) = WAIT_QUEUE_MAGIC"
  shows "okE (\<lambda>s'. sched_inv s' \<and> lock_free s' \<and> runs_best cpu s' \<and> current s' cpu \<noteq> t \<and>
      state (threads s' t) = THREAD_DEATH \<and> retcode (threads s' t) = code \<and>
      (if flags (threads s t) AND THREAD_FLAG_DETACHED \<noteq> 0
       then thread_list s' = remove1 t (thread_list s) \<and> dead_threads s' = dead_threads s @ [t] \<and>
         wq_list (wait_queues s' Reaper_wq) = []
       else thread_list s' = thread_list s \<and> dead_threads s' = dead_threads s \<and>
         wq_list (wait_queues s' (Retcode_wq t)) = [] \<and>
         (\<forall>u \<in> set (wq_list (wait_queues s (Retcode_wq t))). wait_queue_block_ret (threads s' u) = NO_ERROR \<and>
            state (threads s' u) \<in> {THREAD_READY, THREAD_RUNNING})))
    (thread_exit cpu code s)"
  by (rule thread_exit_ok [OF assms])

theorem exit_wakes_joiners_witness:
  "okE (\<lambda>s'. sched_inv s' \<and> state (threads s' 3) = THREAD_DEATH \<and> retcode (threads s' 3) = 7 \<and> current s' 0 \<noteq> 3)
     (thread_exit 0 7 ex_state)"
  by (rule okE_mono [OF exit_wakes_joiners [OF ex_context, of 3]]) (auto simp: WAIT_QUEUE_INITIAL_VALUE_def)



section \<open>Start-up\<close>



text \<open>C18. lk_init_level, which keeps no record of what it has called but the last hook, ends
  and calls exactly the hooks of the requested flags and levels, each once, in the order of a stable
  sort by level.\<close>

theorem init_level_sorts_hooks:
assumes "start > 0"
  shows "lk_init_level req start stop hooks = Some (Inr (init_order req start stop hooks))"
  by (rule lk_init_level_sorts [OF assms])

theorem init_level_sorts_hooks_witness:
  "lk_init_level 1 1 20 [\<lparr>level = 9, iflags = 1\<rparr>, \<lparr>level = 3, iflags = 1\<rparr>, \<lparr>level = 9, iflags = 3\<rparr>, \<lparr>level = 2, iflags = 2\<rparr>] =
     Some (Inr [1, 0, 2])"
  by (simp add: init_level_sorts_hooks init_order_def eligible_def upt_rec insort_key_def)

section \<open>Lists and buffers\<close>

text \<open>C19. The circular lists implement a queue: whatever is added with list_add_tail is taken
  out with list_remove_head in the same order, behind what was there, and then the list is
  empty.\<close>

theorem list_is_fifo:
  assumes "dll h l xs" "\<forall>y \<in> set ys. y \<noteq> l \<and> y \<noteq> 0" "distinct ys" "set xs \<inter> set ys = {}"
    and "length xs + length ys < n"
  shows "\<exists>h'. drain n (list_remove_head l) (fold (list_add_tail l) ys h) = Some (xs @ ys, h') \<and> dll h' l []"
  by (rule lkq.fifo [OF assms])

theorem list_is_fifo_witness:
  "\<exists>h'. drain 9 (list_remove_head 1) (fold (list_add_tail 1) [7, 8] ex_lists) = Some ([3, 7, 8], h') \<and> dll h' 1 []"
  using list_is_fifo [OF ex_lists(1), of "[7, 8]" 9] by simp

text \<open>C20. The circular buffer implements a bounded queue: over any history of writes and
  reads of any sizes, the bytes delivered followed by those still held are the bytes first held
  followed by those accepted.\<close>

theorem cbuf_is_fifo:
  assumes "cbuf_ok q" "cb.run h q = (accepted, given, q')"
  shows "cbuf_ok q' \<and> cbuf_contents q @ accepted = given @ cbuf_contents q'"
  using cb.run_fifo [OF assms] by simp

theorem cbuf_is_fifo_witness:
  "\<exists>a d q'. cb.run [Inl [1, 2], Inr 2, Inl [3]] ex_cbuf = (a, d, q') \<and> [11, 12] @ a = d @ cbuf_contents q'"
proof -
  obtain a d q' where r: "cb.run [Inl [1, 2], Inr 2, Inl [3]] ex_cbuf = (a, d, q')" by (rule prod_cases3)
  from cbuf_is_fifo [OF ex_cbuf_inv(1) r] r show ?thesis by auto
qed



section \<open>Ports\<close>



text \<open>C23. port_read on a read port returns the oldest packet and the port's context if there
  is one; otherwise it times out at once or queues the caller on the port.\<close>

theorem port_read_returns_or_waits:
assumes i: "port_inv ps s" and ctx: "thread_context cpu s" and r: "port_objs ps r = Some (Read_port rp)"
  shows "\<exists>ps' c. port_read cpu r timeout True ps s = Some (Inr (ps', c)) \<and>
    (case reader_packets ps r of
       x # xs \<Rightarrow> c = Return (NO_ERROR, Some x, Some (rp_ctx rp)) s \<and> port_inv ps' s \<and>
         reader_packets ps' = (reader_packets ps)(r := xs)
     | [] \<Rightarrow> ps' = ps \<and>
         (if timeout = 0 then c = Return (ERR_TIMED_OUT, None, Some (rp_ctx rp)) s
          else \<exists>s'. c = Switched_out s' \<and> port_inv ps s' \<and> waits_on cpu r s s'))"
  by (rule port_read_ok [OF assms])

theorem port_read_returns_or_waits_witness:
  "\<exists>ps'. port_read 0 21 INFINITE_TIME True ex_ports ex_state = Some (Inr (ps', Return (NO_ERROR, Some [1, 2], Some 5) ex_state)) \<and>
     reader_packets ps' 21 = []"
  using port_read_returns_or_waits [OF ex_port_inv ex_context, of 21 ex_reader INFINITE_TIME]
  by (auto simp: ex_ports_objs) (auto simp: ex_reader_def)



section \<open>Balanced search trees\<close>

text \<open>C25. For every comparison that orders the nodes it is used on, bst_insert ends without a
  failed assertion; it refuses a node exactly if one in the tree matches it, and otherwise leaves a
  balanced tree of the old nodes with the new one at its place in the order.\<close>

theorem bst_insert_keeps_tree:
  assumes "bst_order compare valid" "bst_ok compare valid h xs" "valid x" "x \<noteq> 0" "x \<notin> set xs" "rank_of h x = 0"
  shows "\<exists>inserted h'. bst_insert h x compare = Some (Inr (inserted, h')) \<and>
    (inserted \<longleftrightarrow> (\<forall>a \<in> set xs. compare a x \<noteq> 0)) \<and> same_outside (insert x (set xs)) h h' \<and>
    (if inserted then bst_ok compare valid h' (filter (\<lambda>a. 0 < compare a x) xs @ x # filter (\<lambda>a. compare a x < 0) xs) else h' = h)"
  by (rule bst_order.bst_insert_ok [OF assms])

theorem bst_insert_keeps_tree_witness:
  "\<exists>h'. bst_insert ex_regions 300 ex_compare = Some (Inr (False, h'))"
proof -
  have "(300 :: nat) \<notin> set [100, 200]" "rank_of ex_regions 300 = 0" by (simp_all add: region_tree_def ex_vm_def zero_node_def)
  from bst_insert_keeps_tree [OF ro.bst_order_axioms ex_bst_ok ex_sane _ this] obtain i h' where
    r: "bst_insert ex_regions 300 ex_compare = Some (Inr (i, h'))" "i \<longleftrightarrow> (\<forall>a \<in> set [100, 200]. ex_compare a 300 \<noteq> 0)" by auto
  have "ex_compare 200 300 = 0" by (simp add: ex_vm_def ex_region_def vmm_region_cmp_def vmm_rguard_def add64_def size_sub_def)
  with r show ?thesis by auto
qed

text \<open>C26. bst_delete of any node of the tree ends without a failed assertion and leaves a
  balanced tree of the other nodes in the same order; the node given is marked as being in no tree,
  and memory outside the tree is untouched.\<close>

theorem bst_delete_keeps_tree:
  assumes "bst_order compare valid" "bst_ok compare valid h xs" "x \<in> set xs"
  shows "\<exists>h' us vs. bst_delete h x = Some (Inr h') \<and> xs = us @ x # vs \<and> bst_ok compare valid h' (us @ vs) \<and>
    same_outside (set xs) h h' \<and> rank_of h' x = 0"
  by (rule bst_order.bst_delete_ordered [OF assms])

theorem bst_delete_keeps_tree_witness:
  "\<exists>h'. bst_delete ex_regions 100 = Some (Inr h') \<and> rank_of h' 100 = 0 \<and> bst_ok ex_compare ex_valid h' [200]"
proof -
  from bst_delete_keeps_tree [OF ro.bst_order_axioms ex_bst_ok, of 100] obtain h' us vs where
    r: "bst_delete ex_regions 100 = Some (Inr h')" "[100, 200] = us @ 100 # vs" "bst_ok ex_compare ex_valid h' (us @ vs)" "rank_of h' 100 = 0" by auto
  from r(2) have "us @ vs = [200]" by (cases us) (auto simp: Cons_eq_append_conv)
  with r show ?thesis by auto
qed



text \<open>C28. bst_for_every_entry visits every entry once, in order, and ends, also if the body
  deletes any of the entries it is given: exactly those are gone afterwards.
  bst_for_every_entry_delete visits every entry in order and leaves the tree empty.\<close>

theorem bst_loops_visit_all:
  assumes "bst_tree h t" "wavl t"
  shows "(\<exists>h' t'. bst_for_every_entry (\<lambda>x h. if P x then bst_delete h x else Some (Inr h)) h = Some (Inr (addrs t, h')) \<and>
      bst_tree h' t' \<and> wavl t' \<and> addrs t' = filter (\<lambda>x. \<not> P x) (addrs t)) \<and>
    (\<exists>h'. bst_for_every_entry_delete h = Some (Inr (addrs t, h')) \<and> bst_is_empty h' \<and> same_outside (set (addrs t)) h h')"
  using bst_for_every_entry_ok [OF assms, of P] bst_for_every_entry_delete_ok [OF assms(1)] unfolding delete_if_def by simp

theorem bst_loops_visit_all_witness:
  "(\<exists>h'. bst_for_every_entry (\<lambda>x h. if x = 100 then bst_delete h x else Some (Inr h)) ex_regions = Some (Inr ([100, 200], h'))) \<and>
   (\<exists>h'. bst_for_every_entry_delete ex_regions = Some (Inr ([100, 200], h')) \<and> bst_is_empty h')"
  using bst_loops_visit_all [OF ex_shape(3,2), of "\<lambda>x. x = 100"] unfolding ex_shape(1) by blast

section \<open>Regions of an address space\<close>

text \<open>C29. Whatever the random choice, alloc_spot reaches none of its panics and returns an
  aligned address at which a region of the size asked for keeps a guard page from every region and
  from the end of the address space; it returns -1 exactly if there is no such address.\<close>

theorem alloc_spot_finds_free:
  assumes "aspace_ok p s xs" "0 < sz" "PAGE_SIZE dvd sz" "sz < 2 ^ 64" "al < 64" "\<And>m. rand m \<le> m"
  shows "\<exists>v. alloc_spot rand p sz al fl s = Some (Inr v) \<and>
    (if v = 2 ^ 64 - 1 then \<forall>u. \<not> free_spot (vm_aspaces s p) (map (vm_regions s) xs) (max al 12) sz u
     else free_spot (vm_aspaces s p) (map (vm_regions s) xs) (max al 12) sz v)"
  by (rule aspace_alloc_spot [OF assms])

theorem alloc_spot_finds_free_witness:
  "\<exists>v. alloc_spot (\<lambda>m. m) 1 0x3000 0 0 ex_vm = Some (Inr v) \<and>
    free_spot (vm_aspaces ex_vm 1) (map (vm_regions ex_vm) [100, 200]) 12 0x3000 v"
proof -
  have "free_spot (vm_aspaces ex_vm 1) (map (vm_regions ex_vm) [100, 200]) 12 0x3000 0x1004000"
    by (simp add: free_spot_def ex_vm_def ex_region_def)
  with alloc_spot_finds_free [OF ex_aspace_ok, of "0x3000" 0 "\<lambda>m. m" 0] show ?thesis by (auto split: if_splits)
qed

text \<open>C30. An allocation with no address given ends without a failed assertion: either the new
  region is in the tree, aligned and apart from all others by a guard page, with every other region
  and tree as before, or ERR_NO_MEMORY is returned, which happens only if no address is
  free.\<close>

theorem alloc_region_keeps_apart:
  assumes "aspace_ok p s xs" "r \<noteq> 0" "r \<notin> set xs" "0 < sz" "PAGE_SIZE dvd sz" "sz < 2 ^ 64" "al < 64" "\<And>m. rand m \<le> m"
    and "vmm_flags AND VMM_REGION_FLAG_INTERNAL_MASK = 0" "vmm_flags AND VMM_FLAG_VALLOC_SPECIFIC = 0"
      "vmm_flags AND VMM_FLAG_NO_START_GUARD = 0" "vmm_flags AND VMM_FLAG_NO_END_GUARD = 0"
  shows "\<exists>ret w s'. alloc_region rand r p nm sz vaddr al vmm_flags region_flags mmu_flags s = Some (Inr (ret, w, s')) \<and>
    (if ret = NO_ERROR then w = Some (Aspace_root p) \<and> region_added p r xs s s' \<and> rg_size (vm_regions s' r) = sz \<and>
       2 ^ max al 12 dvd rg_base (vm_regions s' r) \<and> rg_flags (vm_regions s' r) = region_flags OR vmm_flags
     else ret = ERR_NO_MEMORY \<and> w = None \<and> aspace_ok p s' xs \<and>
       (\<forall>u. \<not> free_spot (vm_aspaces s p) (map (vm_regions s) xs) (max al 12) sz u))"
  by (rule alloc_region_any [OF assms])

theorem alloc_region_keeps_apart_witness:
  "\<exists>s'. alloc_region (\<lambda>_. 0) 300 1 ''new'' 0x3000 0 0 0 VMM_REGION_FLAG_PHYSICAL 0 ex_vm = Some (Inr (NO_ERROR, Some (Aspace_root 1), s')) \<and>
    region_added 1 300 [100, 200] ex_vm s'"
proof -
  have "free_spot (vm_aspaces ex_vm 1) (map (vm_regions ex_vm) [100, 200]) 12 0x3000 0x1004000"
    by (simp add: free_spot_def ex_vm_def ex_region_def)
  with alloc_region_keeps_apart [OF ex_aspace_ok, of 300 "0x3000" 0 "\<lambda>_. 0" 0 "''new''" 0 VMM_REGION_FLAG_PHYSICAL 0] show ?thesis
    by (auto split: if_splits)
qed

text \<open>C31. A request for a given address whose range runs into a region from more than a page
  below, and which does not begin in a region or a guard page, fails the assertion in
  vmm_find_region_in_bst instead of returning ERR_NO_MEMORY.\<close>

theorem alloc_below_region_panics:
  assumes "aspace_ok p s xs" "r \<noteq> 0" "r \<notin> set xs" "PAGE_SIZE dvd v" "0 < sz" "v + sz + PAGE_SIZE \<le> 2 ^ 64"
    and "vmm_flags AND VMM_REGION_FLAG_INTERNAL_MASK = 0" "vmm_flags AND VMM_FLAG_VALLOC_SPECIFIC \<noteq> 0"
    and "a \<in> set xs" "stray (vm_regions s a) v sz"
    and "\<And>a. a \<in> set xs \<Longrightarrow> \<not> holds (vm_regions s a) v \<and> v + PAGE_SIZE \<noteq> rg_base (vm_regions s a) \<and>
      v \<noteq> rg_base (vm_regions s a) + rg_size (vm_regions s a)"
  shows "alloc_region rand r p nm sz v al vmm_flags region_flags mmu_flags s = Some (Inl (Assertion_failed ''guard page''))"
  by (rule alloc_specific_stray [OF assms])

theorem alloc_below_region_panics_witness:
  "alloc_region (\<lambda>_. 0) 300 1 ''new'' 0x5000 0x100e000 0 VMM_FLAG_VALLOC_SPECIFIC VMM_REGION_FLAG_PHYSICAL 0 ex_vm =
     Some (Inl (Assertion_failed ''guard page''))"
  by (rule alloc_below_region_panics [OF ex_aspace_ok, where a = 200])
    (auto simp: stray_def holds_def ex_vm_def ex_region_def end_guard_def start_guard_def)

text \<open>C32. vmm_free_region_etc removes the region the address and the flags mean and reports
  its pages and object for unmapping and release; the other regions stay apart and in order. If no
  region matches it returns ERR_NOT_FOUND and changes nothing.\<close>

theorem free_region_removes_one:
  assumes "aspace_ok p s xs" "v + 2 * PAGE_SIZE \<le> 2 ^ 64" "0 < sz" "v + sz \<le> 2 ^ 64"
  shows "\<exists>ret fr s'. vmm_free_region_etc p v sz fl s = Some (Inr (ret, fr, s')) \<and>
    (if \<exists>r \<in> set xs. frees (vm_regions s r) v sz fl
     then \<exists>r us vs. xs = us @ r # vs \<and> frees (vm_regions s r) v sz fl \<and> ret = NO_ERROR \<and> aspace_ok p s' (us @ vs) \<and>
       fr = Some \<lparr>fr_unmap = (rg_base (vm_regions s r), rg_size (vm_regions s r) div PAGE_SIZE),
         fr_obj = sl_obj (rg_slice (vm_regions s r)), fr_region = r\<rparr>
     else ret = ERR_NOT_FOUND \<and> fr = None \<and> s' = s)"
  by (rule vmm_free_region_etc_ok [OF assms])

theorem free_region_removes_one_witness:
  "\<exists>s'. vmm_free_region_etc 1 0x1002345 1 VMM_FREE_REGION_FLAG_EXPAND ex_vm =
     Some (Inr (NO_ERROR, Some \<lparr>fr_unmap = (0x1001000, 2), fr_obj = 7, fr_region = 100\<rparr>, s')) \<and> aspace_ok 1 s' [200]"
proof -
  have f: "frees (vm_regions ex_vm r) 0x1002345 1 VMM_FREE_REGION_FLAG_EXPAND \<longleftrightarrow> r = 100" for r
    by (simp add: frees_def ex_vm_def ex_region_def)
  have r: "vm_regions ex_vm 100 = ex_region 7 0x1001000 0x2000 VMM_REGION_FLAG_PHYSICAL" by (simp add: ex_vm_def)
  have us: "us @ vs = [200]" if "[100, 200] = us @ 100 # vs" for us vs :: "nat list" using that by (cases us) (auto simp: Cons_eq_append_conv)
  have "\<exists>x \<in> set [100, 200]. frees (vm_regions ex_vm x) 0x1002345 1 VMM_FREE_REGION_FLAG_EXPAND" unfolding f by simp
  with free_region_removes_one [OF ex_aspace_ok, of "0x1002345" 1 VMM_FREE_REGION_FLAG_EXPAND] obtain s' us vs where
    w: "vmm_free_region_etc 1 0x1002345 1 VMM_FREE_REGION_FLAG_EXPAND ex_vm = Some (Inr (NO_ERROR,
      Some \<lparr>fr_unmap = (rg_base (vm_regions ex_vm 100), rg_size (vm_regions ex_vm 100) div PAGE_SIZE),
        fr_obj = sl_obj (rg_slice (vm_regions ex_vm 100)), fr_region = 100\<rparr>, s'))" "[100, 200] = us @ 100 # vs" "aspace_ok 1 s' (us @ vs)"
    unfolding f by auto
  from w(1,3) show ?thesis unfolding us [OF w(2)] r by (simp add: ex_region_def)
qed

section \<open>Physical pages\<close>

text \<open>C33. pmm_add_arena on a page-aligned arena that is not in the list succeeds, keeps the
  invariant of the page allocator and the order of the arenas by priority, and makes every page of
  the new arena free.\<close>

theorem arena_added:
  assumes "pmm_ok s" "p \<notin> set (pm_list s)" "PAGE_SIZE dvd ar_base (pm_arenas s p)" "PAGE_SIZE dvd ar_size (pm_arenas s p)"
    and "0 < ar_size (pm_arenas s p)" "ar_flags (pm_arenas s p) AND PMM_ARENA_FLAG_KMAP \<noteq> 0 \<longrightarrow> paddr_to_kvaddr s (ar_base (pm_arenas s p)) \<noteq> 0"
    and "sorted (map (\<lambda>p. ar_priority (pm_arenas s p)) (pm_list s))"
  shows "\<exists>s'. pmm_add_arena p s = Inr (NO_ERROR, s') \<and> pmm_ok s' \<and> set (pm_list s') = insert p (set (pm_list s)) \<and>
    sorted (map (\<lambda>p. ar_priority (pm_arenas s' p)) (pm_list s')) \<and> (\<forall>x. x \<noteq> p \<longrightarrow> pm_arenas s' x = pm_arenas s x) \<and>
    (\<forall>i < ar_count (pm_arenas s p). \<not> pg_nonfree (pages_of s' (p, i))) \<and> ar_free_count (pm_arenas s' p) = ar_count (pm_arenas s p)"
  by (rule pmm_add_arena_ok [OF assms])

theorem arena_added_witness:
  "\<exists>s'. pmm_add_arena 1 ex_pmm0 = Inr (NO_ERROR, s') \<and> pmm_ok s' \<and> set (pm_list s') = {1, 2}"
  using arena_added [OF ex_pmm_ok(2), of 1] by (auto simp: ex_pmm0_def ex_pmm_def ex_arena_def paddr_to_kvaddr_def add64_def size_sub_def)

text \<open>C34. An allocation of single pages succeeds exactly if the arenas it may use have that
  many pages that are not reserved (or, for an allocation from the reserve, that many that are): it
  then gives distinct pages that were free, marks them and clears them unless told not to. Otherwise
  it returns ERR_NO_MEMORY and every page is as before.\<close>

theorem pmm_alloc_takes_free_pages:
  assumes "pmm_ok s" "fl AND PMM_ALLOC_FLAG_NO_CLEAR = 0 \<Longrightarrow> clearable s" "\<not> contiguous fl"
  shows "\<exists>ret qs pages s'. pmm_alloc_pages_locked count fl 0 s = Some (Inr (ret, qs, pages, s')) \<and> pmm_ok s' \<and>
    (if count \<le> total_available fl s (pm_list s)
     then ret = NO_ERROR \<and> pages = qs \<and> length qs = count \<and> distinct qs \<and> (\<forall>q \<in> set qs. real_page s q \<and> \<not> pg_nonfree (pages_of s q)) \<and>
       pages_of s' = (\<lambda>q. if q \<in> set qs then \<lparr>pg_nonfree = True, pg_reserved = from_reserved fl\<rparr> else pages_of s q) \<and>
       (fl AND PMM_ALLOC_FLAG_NO_CLEAR = 0 \<longrightarrow> set qs \<subseteq> set (pm_cleared s'))
     else ret = ERR_NO_MEMORY \<and> qs = [] \<and> same_pages s s')"
proof -
  from pmm_alloc_pages_ok [OF assms, of count] obtain ret qs pages s' where
    r: "pmm_alloc_pages_locked count fl 0 s = Some (Inr (ret, qs, pages, s'))"
      "if count \<le> total_available fl s (pm_list s) then ret = NO_ERROR \<and> length qs = count \<and> pages = qs \<and> takes fl s qs s'
       else ret = ERR_NO_MEMORY \<and> qs = [] \<and> same_pages s s'" by blast
  show ?thesis
  proof (cases "count \<le> total_available fl s (pm_list s)")
    case True
    then have t: "takes fl s qs s'" using r(2) by simp
    show ?thesis using r True takes_effect [OF t] takes_layout [OF t] assms(1) by (intro exI [of _ ret] exI [of _ qs] exI [of _ pages] exI [of _ s']) simp
  qed (use r in \<open>auto simp: same_pages_def\<close>)
qed

theorem pmm_alloc_takes_free_pages_witness:
  "\<exists>qs s'. pmm_alloc_pages_locked 5 0 0 ex_pmm = Some (Inr (NO_ERROR, qs, qs, s')) \<and> length qs = 5 \<and> distinct qs \<and> set qs \<subseteq> set (pm_cleared s')"
  using pmm_alloc_takes_free_pages [OF ex_pmm_ok(1) ex_clearable, of 0 5] by (auto simp: ex_counts)

text \<open>C35. Freeing the pages an allocation has given frees all of them and restores the flags
  of every page and the counts of free and reserved pages of every arena.\<close>

theorem pmm_alloc_free_round_trip:
  assumes "pmm_ok s" "fl AND PMM_ALLOC_FLAG_NO_CLEAR = 0 \<Longrightarrow> clearable s" "\<not> contiguous fl" "count \<le> total_available fl s (pm_list s)"
  shows "\<exists>qs s1 s2. pmm_alloc_pages_locked count fl 0 s = Some (Inr (NO_ERROR, qs, qs, s1)) \<and> pmm_free qs s1 = Inr (count, s2) \<and> same_pages s s2"
proof -
  from pmm_alloc_pages_ok [OF assms(1-3), of count] assms(4) obtain qs s1 where
    q: "pmm_alloc_pages_locked count fl 0 s = Some (Inr (NO_ERROR, qs, qs, s1))" "length qs = count" "takes fl s qs s1" by auto
  with takes_free [OF assms(1) q(3), of 0] show ?thesis by (auto simp: pmm_free_def)
qed

theorem pmm_alloc_free_round_trip_witness:
  "\<exists>qs s1 s2. pmm_alloc_pages_locked 6 0 0 ex_pmm = Some (Inr (NO_ERROR, qs, qs, s1)) \<and> pmm_free qs s1 = Inr (6, s2) \<and> same_pages ex_pmm s2"
  using pmm_alloc_free_round_trip [OF ex_pmm_ok(1) ex_clearable, of 0 6] by (auto simp: ex_counts)

text \<open>C36. If the first mapped arena that has an aligned run of free pages also has that many
  pages that are not reserved, pmm_alloc_contiguous takes such a run and returns its aligned
  physical address, the pages following each other from there.\<close>

theorem contiguous_alloc_gives_run:
  assumes "pmm_ok s" "clearable s" "runs_bounded s count al"
    and "pm_list s = ps @ p # rs" "\<forall>x \<in> set ps. \<not> can_run 3 al count (pm_arenas s x)" "can_run 3 al count (pm_arenas s p)"
    and "1 < count \<or> 12 < al" "0 < count" "ar_reserved_count (pm_arenas s p) + count \<le> ar_free_count (pm_arenas s p)"
  shows "\<exists>pa r s'. pmm_alloc_contiguous count al s = Some (Inr (count, pa, run_from p r count, s')) \<and> 2 ^ max al 12 dvd pa \<and>
    (\<forall>i < count. vm_page_to_paddr s (p, r + i) = pa + i * PAGE_SIZE) \<and> takes 3 s (run_from p r count) s'"
  by (rule pmm_alloc_contiguous_ok [OF assms])

theorem contiguous_alloc_gives_run_witness:
  "\<exists>pa r s'. pmm_alloc_contiguous 2 12 ex_pmm = Some (Inr (2, pa, run_from 1 r 2, s')) \<and> takes 3 ex_pmm (run_from 1 r 2) s'"
proof -
  have "pm_list ex_pmm = [] @ 1 # [2]" "ar_reserved_count (pm_arenas ex_pmm 1) + 2 \<le> ar_free_count (pm_arenas ex_pmm 1)"
    by (simp_all add: ex_pmm_def ex_arena_def)
  with contiguous_alloc_gives_run [OF ex_pmm_ok(1) ex_clearable ex_bounded, of 2 "[]" 1 "[2]"] ex_run [of 2] show ?thesis by auto
qed

text \<open>C37. If the first arena with a long enough run has some, but not enough, pages that are
  not reserved and the next arena has a run too, pmm_alloc_contiguous reports success although the
  pages lie in both arenas.\<close>

theorem contiguous_split_across_arenas:
  assumes "pmm_ok s" "clearable s" "runs_bounded s count 12" "pm_list s = [p1, p2]"
    and "can_run 3 12 count (pm_arenas s p1)" "can_run 3 12 count (pm_arenas s p2)"
    and "0 < available 3 (pm_arenas s p1)" "available 3 (pm_arenas s p1) < count" "count \<le> available 3 (pm_arenas s p1) + available 3 (pm_arenas s p2)"
  shows "\<exists>pa lst s'. pmm_alloc_contiguous count 12 s = Some (Inr (count, pa, lst, s')) \<and> fst ` set lst = {p1, p2}"
proof -
  let ?n = "available 3 (pm_arenas s p1)"
  have "contiguous 3" "1 < count \<or> 12 < (12::nat)" using assms(7,8) by auto
  from alloc_run_split [OF assms(1,3) this(1) assms(2,4-6) this(2) assms(8,9)] obtain r1 r2 pages s' where
    "pmm_alloc_pages_locked count 3 12 s = Some (Inr (NO_ERROR, run_from p1 r1 ?n @ run_from p2 r2 (count - ?n), pages, s'))" by blast
  then have "pmm_alloc_contiguous count 12 s = Some (Inr (count, vm_page_to_paddr s' (hd pages), run_from p1 r1 ?n @ run_from p2 r2 (count - ?n), s'))"
    using assms(8) by (simp add: pmm_alloc_contiguous_def)
  moreover have "fst ` set (run_from p1 r1 ?n @ run_from p2 r2 (count - ?n)) = {p1, p2}"
    using assms(7,8) by (auto simp: image_Un image_image image_constant_conv)
  ultimately show ?thesis by blast
qed

theorem contiguous_split_across_arenas_witness:
  "\<exists>pa lst s'. pmm_alloc_contiguous 3 12 ex_pmm = Some (Inr (3, pa, lst, s')) \<and> fst ` set lst = {1, 2}"
proof -
  have "pm_list ex_pmm = [1, 2]" by (simp add: ex_pmm_def)
  from contiguous_split_across_arenas [OF ex_pmm_ok(1) ex_clearable ex_bounded this ex_run ex_run, of 3] show ?thesis unfolding ex_counts by simp
qed



text \<open>C39. res_group_create with 2^32 pages or more reserves only the number modulo 2^32, but
  the group may use them all.\<close>

theorem group_of_many_pages_reserves_few:
  assumes "pmm_ok s" "pages mod 2 ^ 32 \<le> spare s (pm_list s)"
  shows "\<exists>g s'. res_group_create True pages s = Inr (Some g, s') \<and> rs_reserved_pages g = pages \<and> all_reserved s' = all_reserved s + pages mod 2 ^ 32"
  by (rule group_create_truncates [OF assms])

theorem group_of_many_pages_reserves_few_witness:
  "\<exists>g s'. res_group_create True (2 ^ 32) ex_pmm = Inr (Some g, s') \<and> rs_reserved_pages g = 2 ^ 32 \<and> all_reserved s' = all_reserved ex_pmm"
  using group_of_many_pages_reserves_few [OF ex_pmm_ok(1), of "2 ^ 32"] by simp

section \<open>Address space identifiers\<close>

text \<open>C40. Whatever sequence of context switches, cache fills and releases of address spaces
  has come before, a cpu finds in its translation cache, under the hardware number of its active
  address space, only entries made for that address space; active address spaces have different
  hardware numbers; and the choice of a number returns.\<close>

theorem asid_cache_safe:
  assumes "(asid_step b n)\<^sup>*\<^sup>* (asid_start, \<lambda>_. {}) (s, t)" "n < 2 ^ b" "b \<le> 64" "c < n" "active_aspace s c \<noteq> 0"
  shows "(\<forall>e \<in> t c. hw_asid b e = hw_asid b (aspace_asid s (active_aspace s c)) \<longrightarrow> e = aspace_asid s (active_aspace s c)) \<and>
    (\<forall>d < n. active_aspace s d \<noteq> 0 \<longrightarrow> active_aspace s d \<noteq> active_aspace s c \<longrightarrow>
      hw_asid b (aspace_asid s (active_aspace s d)) \<noteq> hw_asid b (aspace_asid s (active_aspace s c))) \<and>
    (unat (last_asid s) + n + 1 < 2 ^ 64 \<longrightarrow> (\<forall>x. \<exists>flush s'. vmm_asid_activate n x b c s = Some (Inr (flush, s'))))"
proof -
  have ok: "cache_ok b n (s, t)" by (rule asid_reach_ok [OF assms(1-3)])
  then have i: "asid_inv b n s" by (simp add: cache_ok_def)
  have "e = aspace_asid s (active_aspace s c)" if "e \<in> t c" "hw_asid b e = hw_asid b (aspace_asid s (active_aspace s c))" for e
    by (rule cache_no_mix [OF ok assms(4,5) that])
  moreover have "hw_asid b (aspace_asid s (active_aspace s d)) \<noteq> hw_asid b (aspace_asid s (active_aspace s c))"
    if "d < n" "active_aspace s d \<noteq> 0" "active_aspace s d \<noteq> active_aspace s c" for d
    using asid_invD(6) [OF i assms(4) _ assms(5), of d] that by (auto simp: other_cpus_def)
  moreover have "\<exists>flush s'. vmm_asid_activate n x b c s = Some (Inr (flush, s'))" if "unat (last_asid s) + n + 1 < 2 ^ 64" for x
    using activate_ok [OF i assms(4,2,3) that, of x] by blast
  ultimately show ?thesis by blast
qed

theorem asid_cache_safe_witness:
  "\<exists>s t. active_aspace s 0 = 5 \<and> t 0 = {1} \<and> (\<forall>e \<in> t 0. hw_asid 8 e = hw_asid 8 (aspace_asid s (active_aspace s 0)) \<longrightarrow> e = aspace_asid s (active_aspace s 0)) \<and>
     (\<forall>x. \<exists>flush s'. vmm_asid_activate 2 x 8 0 s = Some (Inr (flush, s')))"
proof -
  let ?s = "\<lparr>last_asid = 1, old_asid_active = False, active_aspace = (\<lambda>_. 0)(0 := 5), active_asid_version = (\<lambda>_. 0), aspace_asid = (\<lambda>_. 0)(5 := 1)\<rparr> :: asids"
  have run: "vmm_asid_activate 2 5 8 0 asid_start = Some (Inr (False, ?s))"
    by (simp add: vmm_asid_activate_def vmm_asid_allocate_def vmm_asid_current_def new_asid_def asid_start_def BIT_MASK_def)
  have "asid_step 8 2 (asid_start, \<lambda>_. {}) (?s, \<lambda>_. {})" using asid_step.switch [OF _ _ run, of "\<lambda>_. {}"] by (simp add: asid_start_def)
  moreover have "asid_step 8 2 (?s, \<lambda>_. {}) (?s, (\<lambda>_. {})(0 := {1}))" using asid_step.fill [of 0 2 ?s 8 "\<lambda>_. {}"] by simp
  ultimately have "(asid_step 8 2)\<^sup>*\<^sup>* (asid_start, \<lambda>_. {}) (?s, (\<lambda>_. {})(0 := {1}))" by (meson converse_rtranclp_into_rtranclp rtranclp.rtrancl_refl)
  from asid_cache_safe [OF this, of 0] show ?thesis by (intro exI [of _ ?s] exI [of _ "(\<lambda>_. {})(0 := {1})"]) simp
qed

end
